(* ===== verification/Prelude.thy ===== *)
theory Prelude
  imports Main "HOL-Library.Word"
begin

section \<open>Shared types, machine integers and generic lemmas\<close>

text \<open>
  What every component of the development shares: C's fixed-width signed integers as
  values of type \<^typ>\<open>int\<close> with the two's complement wrap written out, one-byte flag sets
  with the code's set / clear / check macros, characters as numbers, memory blocks as
  lists of characters, and the lemmas on lists that the component proofs use.

  Behaviour that the C standard leaves undefined (an index outside a table or a block, a
  call through a null pointer) is the value \<^const>\<open>None\<close> of an option type, so that a
  theorem that an operation returns \<^const>\<open>Some\<close> states that it is free of it.
\<close>

unbundle bit_operations_syntax

named_theorems flag_simps \<open>what a flag check sees after a set or a clear\<close>
named_theorems frame \<open>fields an operation leaves alone\<close>

subsection \<open>Signed integers of a fixed width\<close>

text \<open>
  \<open>i32 x\<close> is what an \<open>int32_t\<close> holds after \<open>x\<close> is stored in it. Signed overflow is
  undefined in C; conversions to a narrower type are defined by the compilers the code is
  built with as the wrap below, and arithmetic is given the same wrap.
\<close>

definition i8 :: "int \<Rightarrow> int" where "i8 x = signed_take_bit 7 x"
definition i16 :: "int \<Rightarrow> int" where "i16 x = signed_take_bit 15 x"
definition i32 :: "int \<Rightarrow> int" where "i32 x = signed_take_bit 31 x"
definition i64 :: "int \<Rightarrow> int" where "i64 x = signed_take_bit 63 x"

lemma i8_id [simp]: "- 128 \<le> x \<Longrightarrow> x < 128 \<Longrightarrow> i8 x = x"
  by (simp add: i8_def signed_take_bit_int_eq_self_iff)

lemma i16_id [simp]: "- 32768 \<le> x \<Longrightarrow> x < 32768 \<Longrightarrow> i16 x = x"
  by (simp add: i16_def signed_take_bit_int_eq_self_iff)

lemma i32_id [simp]: "- 2147483648 \<le> x \<Longrightarrow> x < 2147483648 \<Longrightarrow> i32 x = x"
  by (simp add: i32_def signed_take_bit_int_eq_self_iff)

lemma i64_id [simp]:
  "- 9223372036854775808 \<le> x \<Longrightarrow> x < 9223372036854775808 \<Longrightarrow> i64 x = x"
  by (simp add: i64_def signed_take_bit_int_eq_self_iff)

lemma i32_range: "- 2147483648 \<le> i32 x \<and> i32 x < 2147483648"
  unfolding i32_def
  using signed_take_bit_int_greater_eq_minus_exp [of 31 x] signed_take_bit_int_less_exp [of 31 x]
  by simp

lemma i64_range: "- 9223372036854775808 \<le> i64 x \<and> i64 x < 9223372036854775808"
  unfolding i64_def
  using signed_take_bit_int_greater_eq_minus_exp [of 63 x] signed_take_bit_int_less_exp [of 63 x]
  by simp

subsection \<open>Flag sets: the macros HTTP\_FLAG\_SET, HTTP\_FLAG\_CLEAR, HTTP\_FLAG\_CHECK\<close>

type_synonym flags = "8 word"

definition HTTP_FLAG_SET :: "flags \<Rightarrow> flags \<Rightarrow> flags" where
  "HTTP_FLAG_SET var flag = var OR flag"

definition HTTP_FLAG_CLEAR :: "flags \<Rightarrow> flags \<Rightarrow> flags" where
  "HTTP_FLAG_CLEAR var flag = var AND NOT flag"

definition HTTP_FLAG_CHECK :: "flags \<Rightarrow> flags \<Rightarrow> bool" where
  "HTTP_FLAG_CHECK var flag \<longleftrightarrow> var AND flag \<noteq> 0"

lemma check_set_same [flag_simps]: "m \<noteq> 0 \<Longrightarrow> HTTP_FLAG_CHECK (HTTP_FLAG_SET f m) m"
  by (simp add: HTTP_FLAG_CHECK_def HTTP_FLAG_SET_def bit.conj_disj_distrib2)

lemma check_clear_same [flag_simps]: "\<not> HTTP_FLAG_CHECK (HTTP_FLAG_CLEAR f m) m"
  by (simp add: HTTP_FLAG_CHECK_def HTTP_FLAG_CLEAR_def and.assoc)

lemma check_set_other [flag_simps]:
  "m AND k = 0 \<Longrightarrow> HTTP_FLAG_CHECK (HTTP_FLAG_SET f m) k = HTTP_FLAG_CHECK f k"
  by (simp add: HTTP_FLAG_CHECK_def HTTP_FLAG_SET_def bit.conj_disj_distrib2)

lemma check_clear_other [flag_simps]:
  assumes "m AND k = 0"
  shows "HTTP_FLAG_CHECK (HTTP_FLAG_CLEAR f m) k = HTTP_FLAG_CHECK f k"
proof -
  have "(f AND NOT m) AND k = f AND k"
  proof (rule bit_word_eqI)
    fix n assume "n < LENGTH(8)"
    have "bit (m AND k) n = bit (0 :: flags) n" by (simp only: assms)
    then show "bit ((f AND NOT m) AND k) n = bit (f AND k) n"
      using \<open>n < LENGTH(8)\<close> by (auto simp: bit_simps)
  qed
  then show ?thesis by (simp add: HTTP_FLAG_CHECK_def HTTP_FLAG_CLEAR_def)
qed

subsection \<open>Characters\<close>

text \<open>
  A C \<open>char\<close> is one byte, here \<^typ>\<open>char\<close>; \<open>cnum c\<close> is its value as an unsigned byte
  and \<open>schar c\<close> its value as the (signed) \<open>char\<close> of the platform.
\<close>

definition cnum :: "char \<Rightarrow> nat" where "cnum c = of_char c"
definition schar :: "char \<Rightarrow> int" where
  "schar c = (if cnum c < 128 then int (cnum c) else int (cnum c) - 256)"

lemma cnum_bound [simp]: "cnum c < 256"
  by (simp add: cnum_def)

lemma cnum_char_of [simp]: "cnum (char_of n) = n mod 256" for n :: nat
  by (simp add: cnum_def)

lemma cnum_eq_iff: "cnum c = cnum d \<longleftrightarrow> c = d"
  by (simp add: cnum_def)

lemma schar_ascii: "cnum c < 128 \<Longrightarrow> schar c = int (cnum c)"
  by (simp add: schar_def)

lemma schar_neg_iff: "schar c < 0 \<longleftrightarrow> 128 \<le> cnum c"
  using cnum_bound [of c] by (auto simp: schar_def)

definition lower :: "char \<Rightarrow> char" where
  "lower c = (if 65 \<le> cnum c \<and> cnum c \<le> 90 then char_of (cnum c + 32) else c)"

subsection \<open>Memory blocks\<close>

text \<open>
  A block is the list of its bytes. \<open>block_read\<close> and \<open>block_write\<close> are an access at an
  index and a copy into the block; outside the block both are undefined. \<open>block_realloc\<close>
  grows a block: the new bytes are whatever the allocator left there (\<open>junk\<close>).
\<close>

definition block_read :: "'a list \<Rightarrow> int \<Rightarrow> 'a option" where
  "block_read b i = (if 0 \<le> i \<and> i < int (length b) then Some (b ! nat i) else None)"

definition block_write :: "'a list \<Rightarrow> int \<Rightarrow> 'a list \<Rightarrow> 'a list option" where
  "block_write b i xs =
     (if 0 \<le> i \<and> i + int (length xs) \<le> int (length b)
      then Some (take (nat i) b @ xs @ drop (nat i + length xs) b) else None)"

definition block_realloc :: "(nat \<Rightarrow> 'a) \<Rightarrow> 'a list \<Rightarrow> nat \<Rightarrow> 'a list" where
  "block_realloc junk b n = take n b @ map junk [length b ..< n]"

definition slice :: "'a list \<Rightarrow> int \<Rightarrow> int \<Rightarrow> 'a list" where
  "slice b i n = take (nat n) (drop (nat i) b)"

lemma length_block_realloc [simp]: "length (block_realloc junk b n) = n"
  by (simp add: block_realloc_def)

lemma block_write_length: "block_write b i xs = Some b' \<Longrightarrow> length b' = length b"
  by (auto simp: block_write_def split: if_splits)

lemma block_read_Some_iff: "(\<exists>c. block_read b i = Some c) \<longleftrightarrow> 0 \<le> i \<and> i < int (length b)"
  by (simp add: block_read_def)

lemma take_block_realloc: "k \<le> length b \<Longrightarrow> k \<le> n \<Longrightarrow> take k (block_realloc junk b n) = take k b"
  by (simp add: block_realloc_def)

lemma block_write_append:
  "block_write (a @ b) (int (length a)) xs =
     (if length xs \<le> length b then Some (a @ xs @ drop (length xs) b) else None)"
  by (simp add: block_write_def)

end
