(* ===== verification/Posix_Io.thy ===== *)
theory Posix_Io
  imports Prelude
begin

section \<open>Non-blocking socket input and output\<close>

text \<open>
  What the program uses of \<open>read(2)\<close> and \<open>write(2)\<close> on a non-blocking stream socket, as
  their manual pages describe them. A connection is the queue of what will still arrive
  (segments of bytes, the end of the stream, or an error with its errno), the results the
  following writes will have, the bytes the peer has been sent so far, and errno. A read
  takes bytes from one segment at most, so every way of splitting the input is covered.
\<close>

datatype segment = Bytes string | Eof | Err int

datatype write_event = Accept nat | Fail int

record conn =
  c_rx :: "segment list"
  c_wr :: "write_event list"
  c_tx :: string
  c_errno :: int

definition EAGAIN :: int where "EAGAIN = 11"
definition EPIPE :: int where "EPIPE = 32"

fun segment_size :: "segment \<Rightarrow> nat" where
  "segment_size (Bytes bs) = Suc (length bs)"
| "segment_size Eof = 1"
| "segment_size (Err e) = 1"

definition rx_size :: "conn \<Rightarrow> nat" where
  "rx_size k = sum_list (map segment_size (c_rx k))"

text \<open>
  \<open>sock_read n k\<close> returns the count (\<open>- 1\<close> for an error), the bytes stored and the
  connection afterwards. A count of zero asked for returns zero at once; a queue that has
  run empty is an open connection with nothing to read (EAGAIN).
\<close>

definition sock_read :: "nat \<Rightarrow> conn \<Rightarrow> int \<times> string \<times> conn" where
  "sock_read n k =
     (if n = 0 then (0, [], k)
      else case c_rx k of
        [] \<Rightarrow> (- 1, [], k\<lparr>c_errno := EAGAIN\<rparr>)
      | Eof # q \<Rightarrow> (0, [], k)
      | Err e # q \<Rightarrow> (- 1, [], k\<lparr>c_rx := q, c_errno := e\<rparr>)
      | Bytes bs # q \<Rightarrow>
          if length bs \<le> n then (int (length bs), bs, k\<lparr>c_rx := q\<rparr>)
          else (int n, take n bs, k\<lparr>c_rx := Bytes (drop n bs) # q\<rparr>))"

text \<open>\<open>sock_write bs k\<close> returns the count written and the connection afterwards.\<close>

definition sock_write :: "string \<Rightarrow> conn \<Rightarrow> int \<times> conn" where
  "sock_write bs k =
     (case c_wr k of
        [] \<Rightarrow> (int (length bs), k\<lparr>c_tx := c_tx k @ bs\<rparr>)
      | Accept n # w \<Rightarrow> (int (min n (length bs)), k\<lparr>c_wr := w, c_tx := c_tx k @ take n bs\<rparr>)
      | Fail e # w \<Rightarrow> (- 1, k\<lparr>c_wr := w, c_errno := e\<rparr>))"

lemma sock_read_count: "sock_read n k = (r, bs, k') \<Longrightarrow> 0 < r \<Longrightarrow> r = int (length bs) \<and> length bs \<le> n"
  by (auto simp: sock_read_def split: if_splits list.splits segment.splits)

lemma sock_read_nonpos: "sock_read n k = (r, bs, k') \<Longrightarrow> r \<le> 0 \<Longrightarrow> bs = []"
  by (auto simp: sock_read_def split: if_splits list.splits segment.splits)

lemma sock_read_length: "sock_read n k = (r, bs, k') \<Longrightarrow> length bs \<le> n"
  by (auto simp: sock_read_def split: if_splits list.splits segment.splits)

lemma sock_read_smaller: "sock_read n k = (r, bs, k') \<Longrightarrow> 0 < r \<Longrightarrow> rx_size k' < rx_size k"
  by (auto simp: sock_read_def rx_size_def split: if_splits list.splits segment.splits)

lemma sock_read_frame [frame]:
  "sock_read n k = (r, bs, k') \<Longrightarrow> c_wr k' = c_wr k \<and> c_tx k' = c_tx k"
  by (auto simp: sock_read_def split: if_splits list.splits segment.splits)

text \<open>The bytes a connection will still deliver before its end.\<close>

fun rx_bytes :: "segment list \<Rightarrow> string" where
  "rx_bytes (Bytes bs # q) = bs @ rx_bytes q"
| "rx_bytes (Err e # q) = rx_bytes q"
| "rx_bytes (Eof # q) = []"
| "rx_bytes [] = []"

lemma sock_read_bytes:
  "sock_read n k = (r, bs, k') \<Longrightarrow> rx_bytes (c_rx k) = bs @ rx_bytes (c_rx k')"
  by (auto simp: sock_read_def split: if_splits list.splits segment.splits)

lemma sock_write_count:
  "sock_write bs k = (r, k') \<Longrightarrow> 0 \<le> r \<Longrightarrow> r \<le> int (length bs) \<and> c_tx k' = c_tx k @ take (nat r) bs"
  by (auto simp: sock_write_def min_def split: list.splits write_event.splits)

end
