(* ===== verification/Http_Stream.thy ===== *)
theory Http_Stream
  imports Posix_Io
begin

section \<open>The input stream of a request (\<open>src/http.h\<close>, \<open>hs_stream_t\<close>)\<close>

text \<open>
  The growing read buffer of a connection with its cursor, the token being built under it
  and the anchor a streamed body is shifted back to. Fields carry the source's names with
  the prefix \<open>s_\<close>; \<open>s_buf\<close> is \<^const>\<open>None\<close> for a null pointer. Every operation of the
  stream is a definition here; an operation that would leave the block is \<^const>\<open>None\<close>.
\<close>

definition HTTP_REQUEST_BUF_SIZE :: int where "HTTP_REQUEST_BUF_SIZE = 1024"
definition HTTP_MAX_TOKEN_LENGTH :: int where "HTTP_MAX_TOKEN_LENGTH = 8192"
definition HTTP_MAX_REQUEST_BUF_SIZE :: int where "HTTP_MAX_REQUEST_BUF_SIZE = 8388608"

definition HS_SF_CONSUMED :: flags where "HS_SF_CONSUMED = 0x1"

datatype hs_token =
    HS_TOK_NONE | HS_TOK_METHOD | HS_TOK_TARGET | HS_TOK_VERSION
  | HS_TOK_HEADER_KEY | HS_TOK_HEADER_VAL | HS_TOK_CHUNK_BODY | HS_TOK_BODY
  | HS_TOK_BODY_STREAM | HS_TOK_REQ_END | HS_TOK_EOF | HS_TOK_ERROR

record http_token =
  tok_index :: int
  tok_len :: int
  tok_type :: hs_token

definition no_token :: http_token where
  "no_token = \<lparr>tok_index = 0, tok_len = 0, tok_type = HS_TOK_NONE\<rparr>"

record hs_stream =
  s_buf :: "string option"
  s_total_bytes :: int
  s_capacity :: int
  s_length :: int
  s_index :: int
  s_anchor :: int
  s_token :: http_token
  s_flags :: flags

definition empty_stream :: hs_stream where
  "empty_stream = \<lparr>s_buf = None, s_total_bytes = 0, s_capacity = 0, s_length = 0,
     s_index = 0, s_anchor = 0, s_token = no_token, s_flags = 0\<rparr>"

subsection \<open>Filling the buffer from the socket\<close>

text \<open>
  One turn of the \<open>do\<close> loop of \<open>hs_stream_read_socket\<close>: the read, and the doubling of a
  full buffer up to the maximum. The result is the byte count, the stream, the connection
  and the server's memory account.
\<close>

definition hs_read_once ::
  "(nat \<Rightarrow> char) \<Rightarrow> hs_stream \<Rightarrow> conn \<Rightarrow> int \<Rightarrow> (int \<times> hs_stream \<times> conn \<times> int) option"
where
  "hs_read_once junk s k m =
     (case s_buf s of
        None \<Rightarrow> None
      | Some b \<Rightarrow>
          if s_capacity s < s_length s then None
          else
            let (bytes, bs, k') = sock_read (nat (s_capacity s - s_length s)) k in
            case block_write b (s_length s) bs of
              None \<Rightarrow> None
            | Some b' \<Rightarrow>
                let s1 = (if bytes > 0
                          then s\<lparr>s_buf := Some b', s_length := i32 (s_length s + bytes),
                                 s_total_bytes := i64 (s_total_bytes s + bytes)\<rparr>
                          else s) in
                if s_length s1 = s_capacity s1 \<and> s_capacity s1 \<noteq> HTTP_MAX_REQUEST_BUF_SIZE
                then let c = min (i32 (s_capacity s1 * 2)) HTTP_MAX_REQUEST_BUF_SIZE in
                     Some (bytes,
                       s1\<lparr>s_capacity := c,
                          s_buf := map_option (\<lambda>b. block_realloc junk b (nat c)) (s_buf s1)\<rparr>,
                       k', m - s_capacity s1 + c)
                else Some (bytes, s1, k', m))"

lemma hs_read_once_smaller:
  assumes "hs_read_once junk s k m = Some (bytes, s', k', m')" and "0 < bytes"
  shows "rx_size k' < rx_size k"
  using assms by (auto simp: hs_read_once_def Let_def dest: sock_read_smaller
      split: option.splits if_splits prod.splits)

text \<open>The \<open>do \<dots> while\<close> loop ends because every turn that is repeated takes input away.\<close>

function hs_read_loop ::
  "(nat \<Rightarrow> char) \<Rightarrow> hs_stream \<Rightarrow> conn \<Rightarrow> int \<Rightarrow> (int \<times> hs_stream \<times> conn \<times> int) option"
where
  "hs_read_loop junk s k m =
     (case hs_read_once junk s k m of
        None \<Rightarrow> None
      | Some (bytes, s', k', m') \<Rightarrow>
          if bytes > 0 \<and> s_capacity s' < HTTP_MAX_REQUEST_BUF_SIZE
          then hs_read_loop junk s' k' m'
          else Some (bytes, s', k', m'))"
  by pat_completeness auto
termination
  by (relation "measure (\<lambda>(junk, s, k, m). rx_size k)") (auto dest: hs_read_once_smaller)

declare hs_read_loop.simps [simp del]

definition hs_stream_read_socket ::
  "(nat \<Rightarrow> char) \<Rightarrow> hs_stream \<Rightarrow> conn \<Rightarrow> int \<Rightarrow> (int \<times> hs_stream \<times> conn \<times> int) option"
where
  "hs_stream_read_socket junk s k m =
     (if s_index s < s_length s then Some (1, s, k, m)
      else
        let (s1, m1) =
          (case s_buf s of
             None \<Rightarrow> (s\<lparr>s_buf := Some (replicate (nat HTTP_REQUEST_BUF_SIZE) (CHR 0x00)),
                        s_capacity := HTTP_REQUEST_BUF_SIZE\<rparr>, m + HTTP_REQUEST_BUF_SIZE)
           | Some _ \<Rightarrow> (s, m)) in
        case hs_read_loop junk s1 k m1 of
          None \<Rightarrow> None
        | Some (bytes, s', k', m') \<Rightarrow> Some (if bytes = 0 then 0 else 1, s', k', m'))"

subsection \<open>Cursor, token and anchor\<close>

definition hs_stream_next :: "hs_stream \<Rightarrow> (hs_stream \<times> char option) option" where
  "hs_stream_next s =
     (let s1 = s\<lparr>s_flags := HTTP_FLAG_CLEAR (s_flags s) HS_SF_CONSUMED\<rparr> in
      if s_index s1 \<ge> s_length s1 then Some (s1, None)
      else case s_buf s1 of
             None \<Rightarrow> None
           | Some b \<Rightarrow> (case block_read b (s_index s1) of
                          None \<Rightarrow> None
                        | Some c \<Rightarrow> Some (s1, Some c)))"

definition grow_token :: "http_token \<Rightarrow> int \<Rightarrow> http_token" where
  "grow_token t n = t\<lparr>tok_len := (if tok_type t = HS_TOK_NONE then 0 else i32 (tok_len t + n))\<rparr>"

definition hs_stream_consume :: "hs_stream \<Rightarrow> hs_stream" where
  "hs_stream_consume s =
     (if HTTP_FLAG_CHECK (s_flags s) HS_SF_CONSUMED then s
      else s\<lparr>s_flags := HTTP_FLAG_SET (s_flags s) HS_SF_CONSUMED,
             s_index := i32 (s_index s + 1), s_token := grow_token (s_token s) 1\<rparr>)"

definition hs_stream_begin_token :: "hs_stream \<Rightarrow> hs_token \<Rightarrow> hs_stream" where
  "hs_stream_begin_token s ty = s\<lparr>s_token := (s_token s)\<lparr>tok_index := s_index s, tok_type := ty\<rparr>\<rparr>"

definition hs_stream_jump :: "hs_stream \<Rightarrow> int \<Rightarrow> bool \<times> hs_stream" where
  "hs_stream_jump s offset =
     (let s1 = s\<lparr>s_flags := HTTP_FLAG_SET (s_flags s) HS_SF_CONSUMED\<rparr> in
      if i32 (s_index s1 + offset) > s_length s1 then (False, s1)
      else (True, s1\<lparr>s_index := i32 (s_index s1 + offset), s_token := grow_token (s_token s1) offset\<rparr>))"

definition hs_stream_jumpall :: "hs_stream \<Rightarrow> int \<times> hs_stream" where
  "hs_stream_jumpall s =
     (let offset = i32 (s_length s - s_index s) in
      (offset, s\<lparr>s_index := i32 (s_index s + offset),
                 s_flags := HTTP_FLAG_SET (s_flags s) HS_SF_CONSUMED,
                 s_token := grow_token (s_token s) offset\<rparr>))"

definition hs_stream_anchor :: "hs_stream \<Rightarrow> hs_stream" where
  "hs_stream_anchor s = s\<lparr>s_anchor := s_index s\<rparr>"

definition hs_stream_emit :: "hs_stream \<Rightarrow> http_token \<times> hs_stream" where
  "hs_stream_emit s = (s_token s, s\<lparr>s_token := no_token\<rparr>)"

definition hs_stream_current_token :: "hs_stream \<Rightarrow> http_token" where
  "hs_stream_current_token s = s_token s"

definition hs_stream_can_contain :: "hs_stream \<Rightarrow> int \<Rightarrow> bool" where
  "hs_stream_can_contain s sz \<longleftrightarrow> HTTP_MAX_REQUEST_BUF_SIZE - s_index s + 1 \<ge> sz"

text \<open>\<open>memcpy\<close> within one block: undefined out of the block and where the two ranges overlap.\<close>

definition block_memcpy :: "string \<Rightarrow> int \<Rightarrow> int \<Rightarrow> int \<Rightarrow> string option" where
  "block_memcpy b dst src n =
     (if n < 0 \<or> src < 0 \<or> src + n > int (length b) \<or> (n > 0 \<and> dst < src + n \<and> src < dst + n)
      then None else block_write b dst (slice b src n))"

definition hs_stream_shift :: "hs_stream \<Rightarrow> hs_stream option" where
  "hs_stream_shift s =
     (let t = s_token s in
      if tok_index t = s_anchor s then Some s
      else
        let moved =
          (if tok_len t > 0
           then (case s_buf s of
                   None \<Rightarrow> None
                 | Some b \<Rightarrow> map_option Some
                     (block_memcpy b (s_anchor s) (tok_index t) (i32 (s_length s - tok_index t))))
           else Some (s_buf s)) in
        map_option (\<lambda>b. s\<lparr>s_buf := b, s_token := t\<lparr>tok_index := s_anchor s\<rparr>,
                           s_index := i32 (tok_len t + s_anchor s),
                           s_length := i32 (s_anchor s + tok_len t)\<rparr>) moved)"

subsection \<open>Well-formed streams\<close>

definition block_wf :: "string option \<Rightarrow> int \<Rightarrow> int \<Rightarrow> bool" where
  "block_wf buf len cap \<longleftrightarrow> len \<le> cap \<and> cap \<le> HTTP_MAX_REQUEST_BUF_SIZE \<and>
     (case buf of None \<Rightarrow> cap = 0 | Some b \<Rightarrow> int (length b) = cap \<and> 0 < cap)"

definition buffer_wf :: "hs_stream \<Rightarrow> bool" where
  "buffer_wf s \<longleftrightarrow> 0 \<le> s_index s \<and> s_index s \<le> s_length s \<and>
     block_wf (s_buf s) (s_length s) (s_capacity s)"

definition token_wf :: "hs_stream \<Rightarrow> bool" where
  "token_wf s \<longleftrightarrow>
     (if tok_type (s_token s) = HS_TOK_NONE then tok_len (s_token s) = 0
      else 0 \<le> tok_index (s_token s) \<and> 0 \<le> tok_len (s_token s) \<and>
           tok_index (s_token s) + tok_len (s_token s) = s_index s)"

definition stream_wf :: "hs_stream \<Rightarrow> bool" where
  "stream_wf s \<longleftrightarrow> buffer_wf s \<and> token_wf s"

text \<open>The bytes read so far, and those the cursor has not reached.\<close>

definition data_of :: "string option \<Rightarrow> int \<Rightarrow> string" where
  "data_of buf len = (case buf of None \<Rightarrow> [] | Some b \<Rightarrow> take (nat len) b)"

definition s_data :: "hs_stream \<Rightarrow> string" where
  "s_data s = data_of (s_buf s) (s_length s)"

definition s_rest :: "hs_stream \<Rightarrow> string" where
  "s_rest s = drop (nat (s_index s)) (s_data s)"

lemmas stream_consts = HTTP_REQUEST_BUF_SIZE_def HTTP_MAX_TOKEN_LENGTH_def
  HTTP_MAX_REQUEST_BUF_SIZE_def

lemma empty_stream_wf: "stream_wf empty_stream"
  by (simp add: stream_wf_def buffer_wf_def block_wf_def token_wf_def empty_stream_def no_token_def stream_consts)

lemma length_s_data: "buffer_wf s \<Longrightarrow> length (s_data s) = nat (s_length s)"
  by (auto simp: buffer_wf_def block_wf_def s_data_def data_of_def split: option.splits)

lemma length_s_rest: "buffer_wf s \<Longrightarrow> int (length (s_rest s)) = s_length s - s_index s"
  by (auto simp: s_rest_def length_s_data buffer_wf_def block_wf_def)

text \<open>\<open>fed s new s'\<close>: the stream \<open>s'\<close> is \<open>s\<close> with the bytes \<open>new\<close> appended, nothing else.\<close>

definition fed :: "hs_stream \<Rightarrow> string \<Rightarrow> hs_stream \<Rightarrow> bool" where
  "fed s new s' \<longleftrightarrow>
     buffer_wf s' \<and> s_buf s' \<noteq> None \<and> s_data s' = s_data s @ new \<and>
     s_index s' = s_index s \<and> s_anchor s' = s_anchor s \<and> s_token s' = s_token s \<and>
     s_flags s' = s_flags s \<and> s_capacity s \<le> s_capacity s'"

lemma fed_trans: "fed s a s' \<Longrightarrow> fed s' b s'' \<Longrightarrow> fed s (a @ b) s''"
  by (auto simp: fed_def)

lemma fed_wf: "fed s new s' \<Longrightarrow> token_wf s \<Longrightarrow> stream_wf s'"
  by (simp add: fed_def stream_wf_def token_wf_def)

lemma hs_read_once_spec:
  assumes wf: "buffer_wf s" and buf: "s_buf s \<noteq> None"
  obtains bytes s' k' m' new where
    "hs_read_once junk s k m = Some (bytes, s', k', m')" "fed s new s'"
    "rx_bytes (c_rx k) = new @ rx_bytes (c_rx k')"
    "m' - m = s_capacity s' - s_capacity s"
    "bytes \<le> 0 \<and> new = [] \<or> bytes = int (length new)"
proof -
  obtain b where b: "s_buf s = Some b" using buf by blast
  let ?n = "nat (s_capacity s - s_length s)"
  obtain bytes bs k' where rd: "sock_read ?n k = (bytes, bs, k')"
    by (metis prod_cases3)
  have len: "length bs \<le> ?n" using rd by (rule sock_read_length)
  have rx: "rx_bytes (c_rx k) = bs @ rx_bytes (c_rx k')" using rd by (rule sock_read_bytes)
  have bnd: "0 \<le> s_length s" "s_length s \<le> s_capacity s" "int (length b) = s_capacity s"
    "s_capacity s \<le> 8388608" "0 \<le> s_index s" "s_index s \<le> s_length s" "0 < s_capacity s"
    using wf b by (auto simp: buffer_wf_def block_wf_def stream_consts)
  define b' where "b' = take (nat (s_length s)) b @ bs @ drop (nat (s_length s) + length bs) b"
  have wr: "block_write b (s_length s) bs = Some b'"
    using bnd len by (simp add: block_write_def b'_def)
  have lb': "int (length b') = s_capacity s"
    using block_write_length [OF wr] bnd by simp
  define s1 where "s1 = (if bytes > 0
      then s\<lparr>s_buf := Some b', s_length := i32 (s_length s + bytes),
             s_total_bytes := i64 (s_total_bytes s + bytes)\<rparr> else s)"
  have pos: "0 < bytes \<Longrightarrow> bytes = int (length bs)"
    using sock_read_count [OF rd] by blast
  have nonpos: "bytes \<le> 0 \<Longrightarrow> bs = []" using sock_read_nonpos [OF rd] by blast
  have l1: "s_length s1 = s_length s + int (length bs)"
    using pos nonpos bnd len by (auto simp: s1_def)
  have wf1: "buffer_wf s1"
    using bnd len lb' l1 b by (auto simp: s1_def buffer_wf_def block_wf_def stream_consts)
  have data1: "s_data s1 = s_data s @ bs"
  proof (cases "0 < bytes")
    case True
    then have "s_data s1 = take (nat (s_length s + int (length bs))) b'"
      using l1 by (auto simp: s_data_def data_of_def s1_def)
    also have "\<dots> = take (nat (s_length s)) b @ bs"
      using bnd by (simp add: b'_def nat_add_distrib)
    finally show ?thesis using b by (simp add: s_data_def data_of_def)
  next
    case False
    then show ?thesis using nonpos by (simp add: s1_def)
  qed
  have f1: "s_index s1 = s_index s" "s_anchor s1 = s_anchor s" "s_token s1 = s_token s"
    "s_flags s1 = s_flags s" "s_capacity s1 = s_capacity s" "s_buf s1 \<noteq> None"
    using b by (auto simp: s1_def)
  have cnt: "bytes \<le> 0 \<and> bs = [] \<or> bytes = int (length bs)"
    using pos nonpos by force
  show ?thesis
  proof (cases "s_length s1 = s_capacity s1 \<and> s_capacity s1 \<noteq> HTTP_MAX_REQUEST_BUF_SIZE")
    case False
    then have "hs_read_once junk s k m = Some (bytes, s1, k', m)"
      using b rd wr bnd by (auto simp: hs_read_once_def Let_def s1_def)
    moreover have "fed s bs s1" using wf1 data1 f1 by (simp add: fed_def)
    ultimately show ?thesis using that [OF _ _ rx] f1 cnt by simp
  next
    case True
    define c where "c = min (i32 (s_capacity s1 * 2)) HTTP_MAX_REQUEST_BUF_SIZE"
    define s2 where "s2 = s1\<lparr>s_capacity := c,
        s_buf := map_option (\<lambda>b. block_realloc junk b (nat c)) (s_buf s1)\<rparr>"
    have c: "s_capacity s \<le> c" "c \<le> 8388608"
      using bnd f1 by (auto simp: c_def stream_consts)
    have once: "hs_read_once junk s k m = Some (bytes, s2, k', m - s_capacity s1 + c)"
      using b rd wr bnd True by (auto simp: hs_read_once_def Let_def s1_def s2_def c_def)
    obtain b1 where b1: "s_buf s1 = Some b1" using f1 by blast
    have wf2: "buffer_wf s2"
      using wf1 c bnd f1 b1 by (auto simp: buffer_wf_def block_wf_def s2_def stream_consts)
    have "nat (s_length s1) \<le> length b1" "nat (s_length s1) \<le> nat c"
      using b1 wf1 c f1 by (auto simp: buffer_wf_def block_wf_def)
    then have "s_data s2 = s_data s1"
      using b1 by (simp add: s_data_def data_of_def s2_def take_block_realloc)
    then have "fed s bs s2" using wf2 data1 f1 c b1 by (simp add: fed_def s2_def)
    then show ?thesis using that [OF once _ rx] f1 cnt by (simp add: s2_def)
  qed
qed

lemma hs_read_loop_spec:
  assumes "buffer_wf s" and "s_buf s \<noteq> None"
  shows "\<exists>bytes s' k' m' new. hs_read_loop junk s k m = Some (bytes, s', k', m') \<and> fed s new s' \<and>
    rx_bytes (c_rx k) = new @ rx_bytes (c_rx k') \<and> m' - m = s_capacity s' - s_capacity s"
  using assms
proof (induction junk s k m rule: hs_read_loop.induct)
  case (1 junk s k m)
  obtain bytes s1 k1 m1 new where once: "hs_read_once junk s k m = Some (bytes, s1, k1, m1)"
    and fed: "fed s new s1" and rx: "rx_bytes (c_rx k) = new @ rx_bytes (c_rx k1)"
    and mem: "m1 - m = s_capacity s1 - s_capacity s"
    using hs_read_once_spec [OF "1.prems"] by metis
  show ?case
  proof (cases "bytes > 0 \<and> s_capacity s1 < HTTP_MAX_REQUEST_BUF_SIZE")
    case False
    then show ?thesis using once fed rx mem by (subst hs_read_loop.simps) auto
  next
    case True
    have "buffer_wf s1" "s_buf s1 \<noteq> None" using fed by (auto simp: fed_def)
    from "1.IH" [OF once refl refl refl True this] obtain by2 s2 k2 m2 new2 where
      rec: "hs_read_loop junk s1 k1 m1 = Some (by2, s2, k2, m2)" "fed s1 new2 s2"
        "rx_bytes (c_rx k1) = new2 @ rx_bytes (c_rx k2)" "m2 - m1 = s_capacity s2 - s_capacity s1"
      by blast
    have "hs_read_loop junk s k m = Some (by2, s2, k2, m2)"
      using once True rec(1) by (subst hs_read_loop.simps) simp
    moreover have "fed s (new @ new2) s2" using fed rec(2) by (rule fed_trans)
    ultimately show ?thesis using rx rec(3,4) mem by fastforce
  qed
qed

lemma first_buffer_fed:
  assumes "stream_wf s" and "s_buf s = None"
  shows "fed s [] (s\<lparr>s_buf := Some (replicate (nat HTTP_REQUEST_BUF_SIZE) (CHR 0x00)),
                     s_capacity := HTTP_REQUEST_BUF_SIZE\<rparr>)"
  using assms by (auto simp: fed_def stream_wf_def buffer_wf_def block_wf_def s_data_def data_of_def stream_consts)

lemma read_socket_spec:
  assumes wf: "stream_wf s"
  shows "\<exists>rc s' k' m' new. hs_stream_read_socket junk s k m = Some (rc, s', k', m') \<and>
    stream_wf s' \<and> s_data s' = s_data s @ new \<and> rx_bytes (c_rx k) = new @ rx_bytes (c_rx k') \<and>
    s_index s' = s_index s \<and> s_token s' = s_token s \<and> s_anchor s' = s_anchor s \<and>
    m' - m = s_capacity s' - s_capacity s"
proof (cases "s_index s < s_length s")
  case True
  then show ?thesis using wf by (auto simp: hs_stream_read_socket_def)
next
  case False
  define s1 where "s1 = (if s_buf s = None
      then s\<lparr>s_buf := Some (replicate (nat HTTP_REQUEST_BUF_SIZE) (CHR 0x00)),
             s_capacity := HTTP_REQUEST_BUF_SIZE\<rparr> else s)"
  define m1 where "m1 = (if s_buf s = None then m + HTTP_REQUEST_BUF_SIZE else m)"
  have fed1: "fed s [] s1"
    using wf first_buffer_fed [OF wf] by (auto simp: s1_def fed_def stream_wf_def)
  have mem1: "m1 - m = s_capacity s1 - s_capacity s"
    using wf by (auto simp: m1_def s1_def stream_wf_def buffer_wf_def block_wf_def)
  obtain bytes s' k' m' new where loop: "hs_read_loop junk s1 k m1 = Some (bytes, s', k', m')"
    and fed2: "fed s1 new s'" and rx: "rx_bytes (c_rx k) = new @ rx_bytes (c_rx k')"
    and mem2: "m' - m1 = s_capacity s' - s_capacity s1"
    using hs_read_loop_spec [of s1 junk k m1] fed1 by (auto simp: fed_def)
  have fed: "fed s new s'" using fed_trans [OF fed1 fed2] by simp
  have "hs_stream_read_socket junk s k m = Some (if bytes = 0 then 0 else 1, s', k', m')"
    using False loop by (cases "s_buf s") (auto simp: hs_stream_read_socket_def s1_def m1_def)
  moreover have "stream_wf s'" using fed wf by (auto simp: stream_wf_def intro: fed_wf dest: fed_wf)
  ultimately show ?thesis using fed rx mem1 mem2 by (force simp: fed_def)
qed

text \<open>
  C1: reading the socket. On a well-formed stream \<open>hs_stream_read_socket\<close> stays inside its
  block whatever arrives and however it is split, appends exactly the bytes it took from
  the connection, in order, moves neither the cursor nor the token under construction, and
  adds to the server's account exactly what the buffer grew by.
\<close>

theorem read_socket_appends:
  assumes wf: "stream_wf s"
  shows "\<exists>rc s' k' m' new. hs_stream_read_socket junk s k m = Some (rc, s', k', m') \<and>
    stream_wf s' \<and> s_data s' = s_data s @ new \<and> rx_bytes (c_rx k) = new @ rx_bytes (c_rx k') \<and>
    s_index s' = s_index s \<and> s_token s' = s_token s \<and> s_anchor s' = s_anchor s \<and>
    m' - m = s_capacity s' - s_capacity s"
  by (rule read_socket_spec [OF wf])

definition demo_conn :: "segment list \<Rightarrow> conn" where
  "demo_conn q = \<lparr>c_rx = q, c_wr = [], c_tx = [], c_errno = 0\<rparr>"

theorem read_socket_appends_witness:
  "\<exists>rc s' k' m' new.
    hs_stream_read_socket (\<lambda>_. CHR ''?'') empty_stream (demo_conn [Bytes ''GET '', Bytes ''/'']) 0 =
      Some (rc, s', k', m') \<and>
    stream_wf s' \<and> s_data s' = s_data empty_stream @ new \<and>
    rx_bytes (c_rx (demo_conn [Bytes ''GET '', Bytes ''/''])) = new @ rx_bytes (c_rx k') \<and>
    s_index s' = s_index empty_stream \<and> s_token s' = s_token empty_stream \<and>
    s_anchor s' = s_anchor empty_stream \<and> m' - 0 = s_capacity s' - s_capacity empty_stream"
  by (rule read_socket_appends [OF empty_stream_wf])

text \<open>
  A full buffer is taken for a closed connection. Once a request has filled the buffer to
  its maximum and the parser has consumed it, the next read asks for zero bytes, so
  \<open>hs_stream_read_socket\<close> returns 0, which its caller treats as end of stream, and leaves
  what the peer has sent in the connection.
\<close>

theorem full_buffer_reads_as_eof:
  assumes "s_buf s = Some b" and "s_index s = s_length s"
    and "s_length s = HTTP_MAX_REQUEST_BUF_SIZE" and "s_capacity s = HTTP_MAX_REQUEST_BUF_SIZE"
    and "int (length b) = s_capacity s"
  shows "hs_stream_read_socket junk s k m = Some (0, s, k, m)"
proof -
  have "hs_read_once junk s k m = Some (0, s, k, m)"
    using assms by (simp add: hs_read_once_def sock_read_def block_write_def stream_consts)
  then have "hs_read_loop junk s k m = Some (0, s, k, m)"
    by (subst hs_read_loop.simps) simp
  then show ?thesis using assms by (simp add: hs_stream_read_socket_def)
qed

theorem full_buffer_reads_as_eof_witness:
  "hs_stream_read_socket (\<lambda>_. CHR ''?'')
     (empty_stream\<lparr>s_buf := Some (replicate 8388608 (CHR ''x'')), s_capacity := 8388608,
        s_length := 8388608, s_index := 8388608\<rparr>) (demo_conn [Bytes ''more'']) 8388608 =
   Some (0, empty_stream\<lparr>s_buf := Some (replicate 8388608 (CHR ''x'')), s_capacity := 8388608,
        s_length := 8388608, s_index := 8388608\<rparr>, demo_conn [Bytes ''more''], 8388608)"
  by (rule full_buffer_reads_as_eof [where b = "replicate 8388608 (CHR ''x'')"])
     (simp_all add: stream_consts)

subsection \<open>The cursor operations keep a stream well-formed\<close>

text \<open>\<open>at_char s\<close>: there is a character under the cursor and it is not consumed yet.\<close>

definition at_char :: "hs_stream \<Rightarrow> bool" where
  "at_char s \<longleftrightarrow> stream_wf s \<and> s_index s < s_length s \<and>
     \<not> HTTP_FLAG_CHECK (s_flags s) HS_SF_CONSUMED"

lemma index_small: "buffer_wf s \<Longrightarrow> 0 \<le> s_index s \<and> s_length s \<le> 8388608"
  by (auto simp: buffer_wf_def block_wf_def stream_consts)

lemma hs_stream_next_wf:
  assumes "buffer_wf s"
  shows "hs_stream_next s = Some (s\<lparr>s_flags := HTTP_FLAG_CLEAR (s_flags s) HS_SF_CONSUMED\<rparr>,
    if s_index s < s_length s then Some (s_data s ! nat (s_index s)) else None)"
  using assms
  by (auto simp: hs_stream_next_def buffer_wf_def block_wf_def s_data_def data_of_def block_read_def
      split: option.splits)

lemma next_at_char:
  "stream_wf s \<Longrightarrow> s_index s < s_length s \<Longrightarrow>
   at_char (s\<lparr>s_flags := HTTP_FLAG_CLEAR (s_flags s) HS_SF_CONSUMED\<rparr>)"
  by (simp add: at_char_def stream_wf_def buffer_wf_def token_wf_def flag_simps)

lemma begin_token_at_char:
  "at_char s \<Longrightarrow> tok_type (s_token s) = HS_TOK_NONE \<Longrightarrow> at_char (hs_stream_begin_token s ty)"
  by (simp add: at_char_def hs_stream_begin_token_def stream_wf_def buffer_wf_def token_wf_def)

lemma emit_at_char: "at_char s \<Longrightarrow> at_char (s\<lparr>s_token := no_token\<rparr>)"
  by (simp add: at_char_def stream_wf_def buffer_wf_def token_wf_def no_token_def)

lemma consume_at_char:
  assumes "at_char s"
  shows "stream_wf (hs_stream_consume s) \<and> s_index (hs_stream_consume s) = s_index s + 1 \<and>
    tok_type (s_token (hs_stream_consume s)) = tok_type (s_token s)"
proof -
  have idx: "0 \<le> s_index s" "s_index s < s_length s" "s_length s \<le> 8388608"
    using assms index_small by (auto simp: at_char_def stream_wf_def)
  have len: "tok_type (s_token s) \<noteq> HS_TOK_NONE \<longrightarrow> 0 \<le> tok_len (s_token s) \<and> tok_len (s_token s) \<le> s_index s"
    using assms by (auto simp: at_char_def stream_wf_def token_wf_def split: if_splits)
  show ?thesis using assms idx len
    by (auto simp: hs_stream_consume_def at_char_def stream_wf_def buffer_wf_def token_wf_def
        grow_token_def split: if_splits)
qed

lemma stream_frame [frame, simp]:
  "s_length (hs_stream_consume s) = s_length s" "s_data (hs_stream_consume s) = s_data s"
  "s_length (hs_stream_begin_token s ty) = s_length s"
  "s_index (hs_stream_begin_token s ty) = s_index s"
  "s_data (hs_stream_begin_token s ty) = s_data s"
  "s_data (s\<lparr>s_token := t\<rparr>) = s_data s" "s_data (s\<lparr>s_flags := f\<rparr>) = s_data s"
  "s_data (s\<lparr>s_anchor := a\<rparr>) = s_data s"
  "tok_type (s_token (hs_stream_begin_token s ty)) = ty"
  "s_capacity (hs_stream_consume s) = s_capacity s"
  by (simp_all add: hs_stream_consume_def hs_stream_begin_token_def s_data_def)

end
