(* ===== verification/Http_Parser.thy ===== *)
theory Http_Parser
  imports Http_Stream "HOL-Library.Monad_Syntax"
begin

section \<open>The request parser (\<open>src/http.h\<close>, \<open>http_parser_t\<close>)\<close>

text \<open>
  The table-driven push parser: one table gives the next lexical state, a second one runs a
  small meta machine that recognises the two headers the server needs and says what kind of
  body follows. The tables are written row by row as the source has them; the rows of
  \<open>BR\<close> and \<open>M_ERR\<close> do not exist there and are empty here, so a step from them is
  \<^const>\<open>None\<close>.
\<close>

datatype hs_state =
    ST | MT | MS | TR | TS | VN | RR | RN | HK | HS | HV | HR | HE
  | ER | HN | BD | CS | CB | CE | CR | CN | CD | C1 | C2 | BR

datatype hs_char_type =
    HS_SPC | HS_NL | HS_CR | HS_COLN | HS_TAB | HS_SCOLN
  | HS_DIGIT | HS_HEX | HS_ALPHA | HS_TCHAR | HS_VCHAR | HS_ETC

datatype hs_meta_state =
    M_WFK | M_ANY | M_MTE | M_MCL | M_CLV | M_MCK | M_SML | M_CHK | M_BIG | M_ZER | M_CSZ
  | M_CBD | M_LST | M_STR | M_SEN | M_BDY | M_END | M_ERR

text \<open>The events of the meta machine are column numbers, several of them with two names.\<close>

abbreviation HS_META_NOT_CONTENT_LEN :: nat where "HS_META_NOT_CONTENT_LEN \<equiv> 0"
abbreviation HS_META_NOT_TRANSFER_ENC :: nat where "HS_META_NOT_TRANSFER_ENC \<equiv> 1"
abbreviation HS_META_END_KEY :: nat where "HS_META_END_KEY \<equiv> 2"
abbreviation HS_META_END_VALUE :: nat where "HS_META_END_VALUE \<equiv> 3"
abbreviation HS_META_END_HEADERS :: nat where "HS_META_END_HEADERS \<equiv> 4"
abbreviation HS_META_LARGE_BODY :: nat where "HS_META_LARGE_BODY \<equiv> 5"
abbreviation HS_META_NOT_CHUNKED :: nat where "HS_META_NOT_CHUNKED \<equiv> 0"
abbreviation HS_META_NON_ZERO :: nat where "HS_META_NON_ZERO \<equiv> 0"
abbreviation HS_META_END_CHK_SIZE :: nat where "HS_META_END_CHK_SIZE \<equiv> 1"
abbreviation HS_META_END_CHUNK :: nat where "HS_META_END_CHUNK \<equiv> 2"
abbreviation HS_META_NEXT :: nat where "HS_META_NEXT \<equiv> 0"

definition HTTP_MAX_HEADER_COUNT :: int where "HTTP_MAX_HEADER_COUNT = 127"

subsection \<open>The tables\<close>

fun hs_char_type_index :: "hs_char_type \<Rightarrow> nat" where
  "hs_char_type_index HS_SPC = 0"
| "hs_char_type_index HS_NL = 1"
| "hs_char_type_index HS_CR = 2"
| "hs_char_type_index HS_COLN = 3"
| "hs_char_type_index HS_TAB = 4"
| "hs_char_type_index HS_SCOLN = 5"
| "hs_char_type_index HS_DIGIT = 6"
| "hs_char_type_index HS_HEX = 7"
| "hs_char_type_index HS_ALPHA = 8"
| "hs_char_type_index HS_TCHAR = 9"
| "hs_char_type_index HS_VCHAR = 10"
| "hs_char_type_index HS_ETC = 11"

fun hs_transitions_row :: "hs_state \<Rightarrow> hs_state list" where
  "hs_transitions_row ST = [BR, BR, BR, BR, BR, BR, BR, MT, MT, MT, BR, BR]"
| "hs_transitions_row MT = [MS, BR, BR, BR, BR, BR, MT, MT, MT, MT, BR, BR]"
| "hs_transitions_row MS = [BR, BR, BR, BR, BR, BR, TR, TR, TR, TR, TR, BR]"
| "hs_transitions_row TR = [TS, BR, BR, TR, BR, TR, TR, TR, TR, TR, TR, BR]"
| "hs_transitions_row TS = [BR, BR, BR, BR, BR, BR, VN, VN, VN, VN, VN, BR]"
| "hs_transitions_row VN = [BR, BR, RR, BR, BR, BR, VN, VN, VN, VN, VN, BR]"
| "hs_transitions_row RR = [BR, RN, BR, BR, BR, BR, BR, BR, BR, BR, BR, BR]"
| "hs_transitions_row RN = [BR, BR, BR, BR, BR, BR, HK, HK, HK, HK, BR, BR]"
| "hs_transitions_row HK = [BR, BR, BR, HS, BR, BR, HK, HK, HK, HK, BR, BR]"
| "hs_transitions_row HS = [HS, HS, HS, HV, HS, HV, HV, HV, HV, HV, HV, BR]"
| "hs_transitions_row HV = [HV, BR, HR, HV, HV, HV, HV, HV, HV, HV, HV, BR]"
| "hs_transitions_row HR = [BR, HE, BR, BR, BR, BR, BR, BR, BR, BR, BR, BR]"
| "hs_transitions_row HE = [BR, BR, ER, BR, BR, BR, HK, HK, HK, HK, BR, BR]"
| "hs_transitions_row ER = [BR, HN, BR, BR, BR, BR, BR, BR, BR, BR, BR, BR]"
| "hs_transitions_row HN = [BD, BD, BD, BD, BD, BD, BD, BD, BD, BD, BD, BD]"
| "hs_transitions_row BD = [BD, BD, BD, BD, BD, BD, BD, BD, BD, BD, BD, BD]"
| "hs_transitions_row CS = [BR, BR, CR, BR, BR, CE, CS, CS, BR, BR, BR, BR]"
| "hs_transitions_row CB = [CB, CB, CB, CB, CB, CB, CB, CB, CB, CB, CB, CB]"
| "hs_transitions_row CE = [BR, BR, CR, CE, CE, CE, CE, CE, CE, CE, CE, BR]"
| "hs_transitions_row CR = [BR, CN, BR, BR, BR, BR, BR, BR, BR, BR, BR, BR]"
| "hs_transitions_row CN = [CB, CB, CB, CB, CB, CB, CB, CB, CB, CB, CB, CB]"
| "hs_transitions_row CD = [BR, BR, C1, BR, BR, BR, BR, BR, BR, BR, BR, BR]"
| "hs_transitions_row C1 = [BR, C2, BR, BR, BR, BR, BR, BR, BR, BR, BR, BR]"
| "hs_transitions_row C2 = [BR, BR, BR, BR, BR, BR, CS, CS, BR, BR, BR, BR]"
| "hs_transitions_row BR = []"

definition table_entry :: "'a list \<Rightarrow> nat \<Rightarrow> 'a option" where
  "table_entry row i = (if i < length row then Some (row ! i) else None)"

definition hs_transitions :: "hs_state \<Rightarrow> hs_char_type \<Rightarrow> hs_state option" where
  "hs_transitions st ty = table_entry (hs_transitions_row st) (hs_char_type_index ty)"

fun hs_meta_transitions_row :: "hs_meta_state \<Rightarrow> hs_meta_state list" where
  "hs_meta_transitions_row M_WFK = [M_WFK, M_WFK, M_WFK, M_ANY, M_END, M_ERR]"
| "hs_meta_transitions_row M_ANY = [M_MTE, M_MCL, M_WFK, M_ERR, M_END, M_ERR]"
| "hs_meta_transitions_row M_MTE = [M_MTE, M_WFK, M_MCK, M_ERR, M_ERR, M_ERR]"
| "hs_meta_transitions_row M_MCL = [M_WFK, M_MCL, M_CLV, M_ERR, M_ERR, M_ERR]"
| "hs_meta_transitions_row M_CLV = [M_ERR, M_ERR, M_ERR, M_SML, M_ERR, M_ERR]"
| "hs_meta_transitions_row M_MCK = [M_WFK, M_ERR, M_ERR, M_CHK, M_ERR, M_ERR]"
| "hs_meta_transitions_row M_SML = [M_SML, M_SML, M_SML, M_SML, M_BDY, M_BIG]"
| "hs_meta_transitions_row M_CHK = [M_CHK, M_CHK, M_CHK, M_CHK, M_ZER, M_ERR]"
| "hs_meta_transitions_row M_BIG = [M_BIG, M_BIG, M_BIG, M_BIG, M_STR, M_ERR]"
| "hs_meta_transitions_row M_ZER = [M_CSZ, M_LST, M_ERR, M_ERR, M_ERR, M_ERR]"
| "hs_meta_transitions_row M_CSZ = [M_CSZ, M_CBD, M_ERR, M_ERR, M_ERR, M_ERR]"
| "hs_meta_transitions_row M_CBD = [M_CBD, M_CBD, M_ZER, M_ERR, M_ERR, M_ERR]"
| "hs_meta_transitions_row M_LST = [M_LST, M_END, M_END, M_ERR, M_ERR, M_ERR]"
| "hs_meta_transitions_row M_STR = [M_SEN, M_ERR, M_ERR, M_ERR, M_ERR, M_ERR]"
| "hs_meta_transitions_row M_SEN = [M_END, M_ERR, M_ERR, M_ERR, M_ERR, M_ERR]"
| "hs_meta_transitions_row M_BDY = [M_END, M_ERR, M_ERR, M_ERR, M_ERR, M_ERR]"
| "hs_meta_transitions_row M_END = [M_WFK, M_ERR, M_ERR, M_ERR, M_ERR, M_ERR]"
| "hs_meta_transitions_row M_ERR = []"

definition hs_ctype :: "hs_char_type list" where
  "hs_ctype = [
     HS_ETC, HS_ETC, HS_ETC, HS_ETC, HS_ETC, HS_ETC, HS_ETC, HS_ETC,
     HS_ETC, HS_TAB, HS_NL, HS_ETC, HS_ETC, HS_CR, HS_ETC, HS_ETC,
     HS_ETC, HS_ETC, HS_ETC, HS_ETC, HS_ETC, HS_ETC, HS_ETC, HS_ETC,
     HS_ETC, HS_ETC, HS_ETC, HS_ETC, HS_ETC, HS_ETC, HS_ETC, HS_ETC,
     HS_SPC, HS_TCHAR, HS_VCHAR, HS_TCHAR, HS_TCHAR, HS_TCHAR, HS_TCHAR, HS_TCHAR,
     HS_VCHAR, HS_VCHAR, HS_TCHAR, HS_TCHAR, HS_TCHAR, HS_TCHAR, HS_TCHAR, HS_VCHAR,
     HS_DIGIT, HS_DIGIT, HS_DIGIT, HS_DIGIT, HS_DIGIT, HS_DIGIT, HS_DIGIT, HS_DIGIT,
     HS_DIGIT, HS_DIGIT, HS_COLN, HS_SCOLN, HS_VCHAR, HS_VCHAR, HS_VCHAR, HS_VCHAR,
     HS_VCHAR, HS_HEX, HS_HEX, HS_HEX, HS_HEX, HS_HEX, HS_HEX, HS_ALPHA,
     HS_ALPHA, HS_ALPHA, HS_ALPHA, HS_ALPHA, HS_ALPHA, HS_ALPHA, HS_ALPHA, HS_ALPHA,
     HS_ALPHA, HS_ALPHA, HS_ALPHA, HS_ALPHA, HS_ALPHA, HS_ALPHA, HS_ALPHA, HS_ALPHA,
     HS_ALPHA, HS_ALPHA, HS_ALPHA, HS_VCHAR, HS_VCHAR, HS_VCHAR, HS_TCHAR, HS_TCHAR,
     HS_TCHAR, HS_HEX, HS_HEX, HS_HEX, HS_HEX, HS_HEX, HS_HEX, HS_ALPHA,
     HS_ALPHA, HS_ALPHA, HS_ALPHA, HS_ALPHA, HS_ALPHA, HS_ALPHA, HS_ALPHA, HS_ALPHA,
     HS_ALPHA, HS_ALPHA, HS_ALPHA, HS_ALPHA, HS_ALPHA, HS_ALPHA, HS_ALPHA, HS_ALPHA,
     HS_ALPHA, HS_ALPHA, HS_ALPHA, HS_VCHAR, HS_TCHAR, HS_VCHAR, HS_TCHAR, HS_ETC]"

text \<open>\<open>c < 0 ? HS_ETC : hs_ctype[(int)c]\<close>, for a signed \<open>char\<close>.\<close>

definition ctype_of :: "char \<Rightarrow> hs_char_type" where
  "ctype_of c = (if schar c < 0 then HS_ETC else hs_ctype ! nat (schar c))"

text \<open>
  What the C standard leaves open and the code still reads: the contents of memory fresh
  from the allocator. No result of the parser may depend on them; they are parameters so
  that this can be stated. \<open>stray_token\<close> is the uninitialised memory of a token array.
\<close>

record platform =
  junk :: "nat \<Rightarrow> char"
  stray_token :: "nat \<Rightarrow> http_token"

text \<open>
  The token that begins with a state. The table ends before \<open>BR\<close>, the last of the states, and is
  read there by every character the grammar does not allow: an access behind it.
\<close>

fun hs_token_start_states :: "hs_state \<Rightarrow> hs_token option" where
  "hs_token_start_states MT = Some HS_TOK_METHOD"
| "hs_token_start_states TR = Some HS_TOK_TARGET"
| "hs_token_start_states VN = Some HS_TOK_VERSION"
| "hs_token_start_states HK = Some HS_TOK_HEADER_KEY"
| "hs_token_start_states HV = Some HS_TOK_HEADER_VAL"
| "hs_token_start_states BD = Some HS_TOK_BODY"
| "hs_token_start_states CB = Some HS_TOK_CHUNK_BODY"
| "hs_token_start_states BR = None"
| "hs_token_start_states st = Some HS_TOK_NONE"

subsection \<open>Parser state and its meta machine\<close>

record http_parser =
  p_content_length :: int
  p_body_consumed :: int
  p_match_index :: int
  p_header_count :: int
  p_state :: hs_state
  p_meta :: hs_meta_state

definition zero_parser :: http_parser where
  "zero_parser = \<lparr>p_content_length = 0, p_body_consumed = 0, p_match_index = 0,
     p_header_count = 0, p_state = ST, p_meta = M_WFK\<rparr>"

definition hs_trigger_meta :: "http_parser \<Rightarrow> nat \<Rightarrow> http_parser option" where
  "hs_trigger_meta p event =
     map_option (\<lambda>to. p\<lparr>p_meta := to\<rparr>) (table_entry (hs_meta_transitions_row (p_meta p)) event)"

text \<open>
  The macro \<open>HS_MATCH\<close>; \<open>m\<close> is the local variable that keeps its last value when the index
  is past the end of the string.
\<close>

definition HS_MATCH ::
  "string \<Rightarrow> nat \<Rightarrow> char \<Rightarrow> http_parser \<times> char \<Rightarrow> (http_parser \<times> char) option" where
  "HS_MATCH str event c pm =
     (let (p, m) = pm; in_bounds = p_match_index p < int (length str) in do {
        m \<leftarrow> (if in_bounds then block_read str (p_match_index p) else Some m);
        p \<leftarrow> (if lower c \<noteq> m then hs_trigger_meta p event else Some p);
        Some (p, m)
      })"

subsection \<open>One character\<close>

type_synonym action_result = "http_parser \<times> hs_stream \<times> http_token"

text \<open>The block \<open>if (from != to)\<close> of \<open>hs_transition_action\<close>.\<close>

definition hs_enter_state ::
  "http_parser \<Rightarrow> hs_stream \<Rightarrow> hs_state \<Rightarrow> hs_state \<Rightarrow> action_result option" where
  "hs_enter_state p s from to = do {
     ty \<leftarrow> hs_token_start_states to;
     let s = (if ty \<noteq> HS_TOK_NONE then hs_stream_begin_token s ty else s);
     p \<leftarrow> (if from = CS then hs_trigger_meta p HS_META_END_CHK_SIZE else Some p);
     (p, s, emitted) \<leftarrow>
       (if to = HK then
          let p = p\<lparr>p_header_count := i16 (p_header_count p + 1)\<rparr> in
          Some (p, s, if p_header_count p > HTTP_MAX_HEADER_COUNT
                      then no_token\<lparr>tok_type := HS_TOK_ERROR\<rparr> else no_token)
        else if to = HS then do {
          p \<leftarrow> hs_trigger_meta p HS_META_END_KEY;
          let (emitted, s) = hs_stream_emit s;
          Some (p, s, emitted)
        }
        else Some (p, s, no_token));
     Some (p\<lparr>p_match_index := 0\<rparr>, s, emitted)
   }"

definition hs_match_key :: "http_parser \<Rightarrow> char \<Rightarrow> http_parser option" where
  "hs_match_key p c = do {
     pm \<leftarrow> HS_MATCH ''transfer-encoding'' HS_META_NOT_TRANSFER_ENC c (p, CHR 0x00);
     (p, m) \<leftarrow> HS_MATCH ''content-length'' HS_META_NOT_CONTENT_LEN c pm;
     Some (p\<lparr>p_match_index := i16 (p_match_index p + 1)\<rparr>)
   }"

definition hs_header_value :: "http_parser \<Rightarrow> char \<Rightarrow> http_parser option" where
  "hs_header_value p c =
     (if p_meta p = M_MCK then do {
        (p, m) \<leftarrow> HS_MATCH ''chunked'' HS_META_NOT_CHUNKED c (p, CHR 0x00);
        Some (p\<lparr>p_match_index := i16 (p_match_index p + 1)\<rparr>)
      }
      else if p_meta p = M_CLV then
        Some (p\<lparr>p_content_length := i64 (i64 (p_content_length p * 10) + (schar c - 48))\<rparr>)
      else Some p)"

definition hs_end_headers ::
  "http_parser \<Rightarrow> hs_stream \<Rightarrow> http_token \<Rightarrow> action_result option" where
  "hs_end_headers p s emitted = do {
     p \<leftarrow> (if p_meta p = M_SML \<and> \<not> hs_stream_can_contain s (p_content_length p)
           then hs_trigger_meta p HS_META_LARGE_BODY else Some p);
     let emitted = (if p_meta p = M_BIG \<or> p_meta p = M_CHK
                    then emitted\<lparr>tok_type := HS_TOK_BODY_STREAM\<rparr> else emitted);
     p \<leftarrow> hs_trigger_meta p HS_META_END_HEADERS;
     let p = (if p_content_length p = 0 \<and> p_meta p = M_BDY then p\<lparr>p_meta := M_END\<rparr> else p);
     Some (p, s, if p_meta p = M_END then emitted\<lparr>tok_type := HS_TOK_BODY\<rparr> else emitted)
   }"

definition hs_chunk_size :: "http_parser \<Rightarrow> char \<Rightarrow> http_parser option" where
  "hs_chunk_size p c = do {
     p \<leftarrow> (if c \<noteq> CHR ''0'' then hs_trigger_meta p HS_META_NON_ZERO else Some p);
     let l = i64 (p_content_length p * 16);
     Some (if 65 \<le> schar c \<and> schar c \<le> 70 then p\<lparr>p_content_length := i64 (l + (schar c - 55))\<rparr>
           else if 97 \<le> schar c \<and> schar c \<le> 102 then p\<lparr>p_content_length := i64 (l + (schar c - 87))\<rparr>
           else if 48 \<le> schar c \<and> schar c \<le> 57 then p\<lparr>p_content_length := i64 (l + (schar c - 48))\<rparr>
           else p)
   }"

definition hs_body ::
  "http_parser \<Rightarrow> hs_stream \<Rightarrow> hs_state \<Rightarrow> http_token \<Rightarrow> action_result option" where
  "hs_body p s to emitted = do {
     let s = (if p_meta p = M_STR then hs_stream_begin_token s HS_TOK_CHUNK_BODY else s);
     let body_left = i32 (i64 (p_content_length p - p_body_consumed p));
     let (enough, s) = hs_stream_jump s body_left;
     if enough then do {
       let (emitted, s) = hs_stream_emit s;
       p \<leftarrow> hs_trigger_meta p HS_META_NEXT;
       let p = (if to = CB then p\<lparr>p_state := CD\<rparr> else p);
       Some (p\<lparr>p_content_length := 0, p_body_consumed := 0\<rparr>, s, emitted)
     } else do {
       let (offset, s) = hs_stream_jumpall s;
       let p = p\<lparr>p_body_consumed := i64 (p_body_consumed p + offset)\<rparr>;
       if p_meta p = M_STR then do {
         let (emitted, s) = hs_stream_emit s;
         s \<leftarrow> hs_stream_shift s;
         Some (p, s, emitted)
       } else Some (p, s, emitted)
     }
   }"

text \<open>The \<open>switch (to)\<close> of \<open>hs_transition_action\<close>.\<close>

definition hs_state_action ::
  "http_parser \<Rightarrow> hs_stream \<Rightarrow> char \<Rightarrow> hs_state \<Rightarrow> http_token \<Rightarrow> action_result option" where
  "hs_state_action p s c to emitted =
     (if to \<in> {MS, TS} then
        let (emitted, s) = hs_stream_emit s in Some (p, s, emitted)
      else if to \<in> {RR, HR} then do {
        p \<leftarrow> hs_trigger_meta p HS_META_END_VALUE;
        let (emitted, s) = hs_stream_emit s;
        Some (p, s, emitted)
      }
      else if to = HK then map_option (\<lambda>p. (p, s, emitted)) (hs_match_key p c)
      else if to = HV then map_option (\<lambda>p. (p, s, emitted)) (hs_header_value p c)
      else if to = HN then hs_end_headers p s emitted
      else if to = CS then map_option (\<lambda>p. (p, s, emitted)) (hs_chunk_size p c)
      else if to \<in> {CB, BD} then hs_body p s to emitted
      else if to = C2 then map_option (\<lambda>p. (p, s, emitted)) (hs_trigger_meta p HS_META_END_CHUNK)
      else if to = BR then Some (p, s, emitted\<lparr>tok_type := HS_TOK_ERROR\<rparr>)
      else Some (p, s, emitted))"

definition hs_transition_action ::
  "http_parser \<Rightarrow> hs_stream \<Rightarrow> char \<Rightarrow> hs_state \<Rightarrow> hs_state \<Rightarrow> action_result option" where
  "hs_transition_action p s c from to = do {
     let s = (if from = HN then hs_stream_anchor s else s);
     (p, s, emitted) \<leftarrow>
       (if from \<noteq> to then hs_enter_state p s from to else Some (p, s, no_token));
     hs_state_action p s c to emitted
   }"

subsection \<open>The parse loop\<close>

definition hs_meta_emit :: "http_parser \<Rightarrow> (http_parser \<times> http_token) option" where
  "hs_meta_emit p =
     (if p_meta p = M_SEN then
        map_option (\<lambda>p. (p, no_token\<lparr>tok_type := HS_TOK_CHUNK_BODY\<rparr>)) (hs_trigger_meta p HS_META_NEXT)
      else if p_meta p = M_END then Some (zero_parser, no_token\<lparr>tok_type := HS_TOK_REQ_END\<rparr>)
      else Some (p, no_token))"

definition http_parse_step ::
  "platform \<Rightarrow> http_parser \<Rightarrow> hs_stream \<Rightarrow> char \<Rightarrow> action_result option" where
  "http_parse_step pf p s c = do {
     to \<leftarrow> hs_transitions (p_state p) (ctype_of c);
     let to = (if p_meta p = M_ZER \<and> p_state p = HN \<and> to = BD then CS else to);
     let from = p_state p;
     let p = p\<lparr>p_state := to\<rparr>;
     (p, s, emitted) \<leftarrow> hs_transition_action p s c from to;
     Some (p, hs_stream_consume s, emitted)
   }"

text \<open>
  The \<open>while\<close> loop of \<open>http_parse\<close>: the token it returns, or \<^const>\<open>None\<close> when the input is
  used up. The outer \<^const>\<open>None\<close> is an access outside a table or the block, or a loop that
  does not end.
\<close>

partial_function (option) http_parse_loop ::
  "platform \<Rightarrow> http_parser \<Rightarrow> hs_stream \<Rightarrow> (http_parser \<times> hs_stream \<times> http_token option) option" where
  "http_parse_loop pf p s =
     (case hs_stream_next s of
        None \<Rightarrow> None
      | Some (s, None) \<Rightarrow> Some (p, s, None)
      | Some (s, Some c) \<Rightarrow>
          (case http_parse_step pf p s c of
             None \<Rightarrow> None
           | Some (p, s, emitted) \<Rightarrow>
               if tok_type emitted \<noteq> HS_TOK_NONE then Some (p, s, Some emitted)
               else http_parse_loop pf p s))"

declare http_parse_loop.simps [code]

definition http_parse ::
  "platform \<Rightarrow> http_parser \<Rightarrow> hs_stream \<Rightarrow> action_result option" where
  "http_parse pf p s = do {
     (p, token) \<leftarrow> hs_meta_emit p;
     if tok_type token \<noteq> HS_TOK_NONE then Some (p, s, token)
     else do {
       (p, s, r) \<leftarrow> http_parse_loop pf p s;
       case r of
         Some emitted \<Rightarrow> Some (p, s, emitted)
       | None \<Rightarrow> do {
           s \<leftarrow> (if p_state p = CB then hs_stream_shift s else Some s);
           (p, token) \<leftarrow> hs_meta_emit p;
           let current = hs_stream_current_token s;
           Some (p, s,
             if tok_type current \<noteq> HS_TOK_CHUNK_BODY \<and> tok_type current \<noteq> HS_TOK_BODY \<and>
                tok_len current > HTTP_MAX_TOKEN_LENGTH
             then token\<lparr>tok_type := HS_TOK_ERROR\<rparr> else token)
         }
     }
   }"

end
