(* ===== verification/Http_Parser_Safe.thy ===== *)
theory Http_Parser_Safe
  imports Http_Parser
begin

section \<open>The request head: one step, and the absence of undefined behaviour\<close>

subsection \<open>One step, by the state it enters\<close>

text \<open>
  The equations of \<^const>\<open>http_parse_step\<close> for the states of the request line and the
  headers. \<open>to\<close> is the table's entry; the leading premise says so.
\<close>

lemmas step_defs = http_parse_step_def hs_transition_action_def hs_enter_state_def
  hs_state_action_def hs_stream_emit_def Let_def

lemma step_open:
  assumes "hs_transitions (p_state p) (ctype_of c) = Some to" "to \<in> {MT, TR, VN}" "p_state p \<noteq> to"
    "p_state p \<noteq> HN" "p_state p \<noteq> CS" "hs_token_start_states to = Some ty"
  shows "http_parse_step pf p s c = Some (p\<lparr>p_state := to, p_match_index := 0\<rparr>,
    hs_stream_consume (hs_stream_begin_token s ty), no_token)"
  using assms by (auto simp: step_defs)

lemma step_stay:
  assumes "hs_transitions (p_state p) (ctype_of c) = Some (p_state p)" "p_state p \<in> {MT, TR, VN, HS}"
  shows "http_parse_step pf p s c = Some (p, hs_stream_consume s, no_token)"
  using assms by (auto simp: step_defs)

lemma step_move:
  assumes "hs_transitions (p_state p) (ctype_of c) = Some to" "to \<in> {RN, HE, ER}" "p_state p \<noteq> to"
    "p_state p \<noteq> HN" "p_state p \<noteq> CS"
  shows "http_parse_step pf p s c =
    Some (p\<lparr>p_state := to, p_match_index := 0\<rparr>, hs_stream_consume s, no_token)"
  using assms by (auto simp: step_defs)

lemma step_emit:
  assumes "hs_transitions (p_state p) (ctype_of c) = Some to" "to \<in> {MS, TS}" "p_state p \<noteq> to"
    "p_state p \<noteq> HN" "p_state p \<noteq> CS"
  shows "http_parse_step pf p s c = Some (p\<lparr>p_state := to, p_match_index := 0\<rparr>,
    hs_stream_consume (s\<lparr>s_token := no_token\<rparr>), s_token s)"
  using assms by (auto simp: step_defs)

lemma step_end_value:
  assumes "hs_transitions (p_state p) (ctype_of c) = Some to" "to \<in> {RR, HR}" "p_state p \<noteq> to"
    "p_state p \<noteq> HN" "p_state p \<noteq> CS"
    "table_entry (hs_meta_transitions_row (p_meta p)) HS_META_END_VALUE = Some m"
  shows "http_parse_step pf p s c =
    Some (p\<lparr>p_state := to, p_match_index := 0, p_meta := m\<rparr>,
      hs_stream_consume (s\<lparr>s_token := no_token\<rparr>), s_token s)"
  using assms by (auto simp: step_defs hs_trigger_meta_def)

lemma step_end_key:
  assumes "hs_transitions (p_state p) (ctype_of c) = Some HS" "p_state p \<noteq> HS"
    "p_state p \<noteq> HN" "p_state p \<noteq> CS"
    "table_entry (hs_meta_transitions_row (p_meta p)) HS_META_END_KEY = Some m"
  shows "http_parse_step pf p s c =
    Some (p\<lparr>p_state := HS, p_meta := m, p_match_index := 0\<rparr>,
      hs_stream_consume (s\<lparr>s_token := no_token\<rparr>), s_token s)"
  using assms by (auto simp: step_defs hs_trigger_meta_def)

lemma step_bad:
  assumes "hs_transitions (p_state p) (ctype_of c) = Some BR" "p_state p \<noteq> BR" "p_state p \<noteq> HN"
  shows "http_parse_step pf p s c = None"
  using assms by (auto simp: step_defs)

lemma step_key_open:
  assumes "hs_transitions (p_state p) (ctype_of c) = Some HK" "p_state p \<noteq> HK"
    "p_state p \<noteq> HN" "p_state p \<noteq> CS"
    "hs_match_key (p\<lparr>p_state := HK, p_header_count := i16 (p_header_count p + 1), p_match_index := 0\<rparr>) c = Some p'"
  shows "http_parse_step pf p s c =
    Some (p', hs_stream_consume (hs_stream_begin_token s HS_TOK_HEADER_KEY),
      if i16 (p_header_count p + 1) > HTTP_MAX_HEADER_COUNT
      then no_token\<lparr>tok_type := HS_TOK_ERROR\<rparr> else no_token)"
  using assms by (auto simp: step_defs)

lemma step_key_stay:
  assumes "hs_transitions (p_state p) (ctype_of c) = Some HK" "p_state p = HK"
    "hs_match_key p c = Some p'"
  shows "http_parse_step pf p s c = Some (p', hs_stream_consume s, no_token)"
  using assms by (cases p) (auto simp: step_defs)

lemma step_val_open:
  assumes "hs_transitions (p_state p) (ctype_of c) = Some HV" "p_state p \<noteq> HV"
    "p_state p \<noteq> HN" "p_state p \<noteq> CS"
    "hs_header_value (p\<lparr>p_state := HV, p_match_index := 0\<rparr>) c = Some p'"
  shows "http_parse_step pf p s c =
    Some (p', hs_stream_consume (hs_stream_begin_token s HS_TOK_HEADER_VAL), no_token)"
  using assms by (auto simp: step_defs)

lemma step_val_stay:
  assumes "hs_transitions (p_state p) (ctype_of c) = Some HV" "p_state p = HV"
    "hs_header_value p c = Some p'"
  shows "http_parse_step pf p s c = Some (p', hs_stream_consume s, no_token)"
  using assms by (cases p) (auto simp: step_defs)

lemma step_end_headers:
  assumes "hs_transitions (p_state p) (ctype_of c) = Some HN" "p_state p \<noteq> HN" "p_state p \<noteq> CS"
    "hs_end_headers (p\<lparr>p_state := HN, p_match_index := 0\<rparr>) s no_token = Some (p', s, e)"
  shows "http_parse_step pf p s c = Some (p', hs_stream_consume s, e)"
  using assms by (auto simp: step_defs)

subsection \<open>The head invariant\<close>

text \<open>
  \<open>head_metas st\<close>: the meta states that can go with a lexical state while the request line,
  the headers and a body of known length are read. The states of chunked and streamed
  bodies, and \<open>BR\<close>, are not among them.
\<close>

abbreviation key_metas :: "hs_meta_state set" where
  "key_metas \<equiv> {M_WFK, M_ANY, M_MTE, M_MCL, M_SML, M_CHK}"

abbreviation value_metas :: "hs_meta_state set" where
  "value_metas \<equiv> {M_WFK, M_MCK, M_CLV, M_SML, M_CHK}"

fun head_metas :: "hs_state \<Rightarrow> hs_meta_state set" where
  "head_metas ST = {M_WFK}"
| "head_metas MT = {M_WFK}"
| "head_metas MS = {M_WFK}"
| "head_metas TR = {M_WFK}"
| "head_metas TS = {M_WFK}"
| "head_metas VN = {M_WFK}"
| "head_metas RR = {M_ANY}"
| "head_metas RN = {M_ANY}"
| "head_metas HK = key_metas"
| "head_metas HS = value_metas"
| "head_metas HV = value_metas"
| "head_metas HR = {M_ANY, M_SML, M_CHK}"
| "head_metas HE = {M_ANY, M_SML, M_CHK}"
| "head_metas ER = {M_ANY, M_SML, M_CHK}"
| "head_metas HN = {M_BDY}"
| "head_metas BD = {M_BDY}"
| "head_metas _ = {}"

definition head_wf :: "platform \<Rightarrow> http_parser \<Rightarrow> hs_stream \<Rightarrow> bool" where
  "head_wf pf p s \<longleftrightarrow> stream_wf s \<and> s_length s \<le> 32767 \<and>
     p_meta p \<in> head_metas (p_state p) \<and>
     hs_token_start_states (p_state p) = Some (tok_type (s_token s)) \<and>
     0 \<le> p_match_index p \<and> p_match_index p \<le> s_index s \<and>
     (p_state p \<noteq> ST \<longrightarrow> 0 < s_index s)"

text \<open>\<open>same_but_meta p p'\<close>: a match changed the meta state at most.\<close>

definition same_but_meta :: "http_parser \<Rightarrow> http_parser \<Rightarrow> bool" where
  "same_but_meta p p' \<longleftrightarrow> p' = p\<lparr>p_meta := p_meta p'\<rparr>"

lemma HS_MATCH_safe:
  assumes "0 \<le> p_match_index p"
    and "\<exists>m' \<in> M. table_entry (hs_meta_transitions_row (p_meta p)) event = Some m'" "p_meta p \<in> M"
  shows "\<exists>p' m'. HS_MATCH str event c (p, m) = Some (p', m') \<and> p_meta p' \<in> M \<and> same_but_meta p p'"
  using assms by (auto simp: HS_MATCH_def hs_trigger_meta_def block_read_def same_but_meta_def Let_def)

lemma key_meta_closed:
  assumes "m \<in> key_metas" and "event = 0 \<or> event = 1"
  shows "\<exists>m' \<in> key_metas. table_entry (hs_meta_transitions_row m) event = Some m'"
  using assms by (auto simp: table_entry_def)

lemma match_key_safe:
  assumes m: "p_meta p \<in> key_metas" and i: "0 \<le> p_match_index p" "p_match_index p < 32767"
  shows "\<exists>p'. hs_match_key p c = Some p' \<and> p_meta p' \<in> key_metas \<and>
     p_match_index p' = p_match_index p + 1 \<and> p_state p' = p_state p"
proof -
  obtain p1 m1 where 1: "HS_MATCH ''transfer-encoding'' 1 c (p, CHR 0x00) = Some (p1, m1)"
    "p_meta p1 \<in> key_metas" "same_but_meta p p1"
    using HS_MATCH_safe [OF i(1) key_meta_closed [OF m] m] by blast
  have i1: "0 \<le> p_match_index p1" using 1(3) i
    by (cases p; cases p1) (simp add: same_but_meta_def)
  obtain p2 m2 where 2: "HS_MATCH ''content-length'' 0 c (p1, m1) = Some (p2, m2)"
    "p_meta p2 \<in> key_metas" "same_but_meta p1 p2"
    using HS_MATCH_safe [OF i1 key_meta_closed [OF 1(2)] 1(2)] by blast
  have "p2 = p\<lparr>p_meta := p_meta p2\<rparr>" using 1(3) 2(3)
    by (cases p; cases p1; cases p2) (simp add: same_but_meta_def)
  then have "p_match_index p2 = p_match_index p" "p_state p2 = p_state p"
    by (cases p; cases p2; simp)+
  then show ?thesis using 1(1) 2(1,2) i by (simp add: hs_match_key_def)
qed

lemma header_value_safe:
  assumes m: "p_meta p \<in> value_metas" and i: "0 \<le> p_match_index p" "p_match_index p < 32767"
  shows "\<exists>p'. hs_header_value p c = Some p' \<and> p_meta p' \<in> value_metas \<and>
     0 \<le> p_match_index p' \<and> p_match_index p' \<le> p_match_index p + 1 \<and> p_state p' = p_state p"
proof (cases "p_meta p = M_MCK")
  case True
  have "\<exists>m' \<in> value_metas. table_entry (hs_meta_transitions_row (p_meta p)) 0 = Some m'"
    using True by (simp add: table_entry_def)
  from HS_MATCH_safe [OF i(1) this m] obtain p1 m1 where
    1: "HS_MATCH ''chunked'' 0 c (p, CHR 0x00) = Some (p1, m1)"
    "p_meta p1 \<in> value_metas" "same_but_meta p p1" by blast
  have "p_match_index p1 = p_match_index p" "p_state p1 = p_state p"
    using 1(3) by (cases p; cases p1; simp add: same_but_meta_def)+
  then show ?thesis using True 1 i by (simp add: hs_header_value_def)
next
  case False
  then show ?thesis using m i by (auto simp: hs_header_value_def)
qed

lemma end_headers_safe:
  assumes "p_meta p \<in> {M_ANY, M_SML, M_CHK}"
  shows "\<exists>p' e. hs_end_headers p s no_token = Some (p', s, e) \<and> p_state p' = p_state p \<and>
     p_match_index p' = p_match_index p \<and>
     (tok_type e \<in> {HS_TOK_BODY, HS_TOK_BODY_STREAM} \<and> tok_index e = 0 \<and> tok_len e = 0 \<or>
      e = no_token \<and> p_meta p' = M_BDY)"
  using assms
  by (auto simp: hs_end_headers_def Let_def hs_trigger_meta_def table_entry_def no_token_def)

text \<open>Where the table leads from a state of the head.\<close>

fun head_next :: "hs_state \<Rightarrow> hs_state set" where
  "head_next ST = {MT, BR}"
| "head_next MT = {MT, MS, BR}"
| "head_next MS = {TR, BR}"
| "head_next TR = {TR, TS, BR}"
| "head_next TS = {VN, BR}"
| "head_next VN = {VN, RR, BR}"
| "head_next RR = {RN, BR}"
| "head_next RN = {HK, BR}"
| "head_next HK = {HK, HS, BR}"
| "head_next HS = {HS, HV, BR}"
| "head_next HV = {HV, HR, BR}"
| "head_next HR = {HE, BR}"
| "head_next HE = {HK, ER, BR}"
| "head_next ER = {HN, BR}"
| "head_next HN = {BD}"
| "head_next BD = {BD}"
| "head_next _ = {}"

lemma head_transition:
  assumes "head_metas st \<noteq> {}"
  shows "\<exists>to \<in> head_next st. hs_transitions st (ctype_of c) = Some to"
  using assms by (cases st; cases "ctype_of c") (simp_all add: hs_transitions_def table_entry_def)

text \<open>
  The grammar of a head: what the table lets through from a state on until the head ends. A character
  that leads to \<open>BR\<close> is outside of it.
\<close>

fun in_grammar :: "hs_state \<Rightarrow> string \<Rightarrow> bool" where
  "in_grammar st [] = True"
| "in_grammar st (c # cs) = (case hs_transitions st (ctype_of c) of None \<Rightarrow> False
     | Some to \<Rightarrow> to \<in> {HN, BD} \<or> to \<noteq> BR \<and> in_grammar to cs)"

lemma in_grammar_body [simp]: "in_grammar HN cs" "in_grammar BD cs"
  by (cases cs; use head_transition [of HN] head_transition [of BD] in fastforce)+

lemma in_grammar_step:
  "hs_transitions st (ctype_of c) = Some to \<Longrightarrow> in_grammar st (c # cs) \<longleftrightarrow> to \<noteq> BR \<and> in_grammar to cs"
  by (auto simp del: in_grammar.simps(1))

lemma in_grammar_prefix: "in_grammar st (a @ b) \<Longrightarrow> in_grammar st a"
  by (induction a arbitrary: st) (auto split: option.splits)

text \<open>The bytes in the buffer that have not been consumed.\<close>

definition unread :: "hs_stream \<Rightarrow> string" where
  "unread s = drop (nat (s_index s)) (s_data s)"

text \<open>
  What a step of the head does: it stays in the head, emitting nothing or one of the five
  tokens of the head, which lies under the cursor; or it reports an error or the end of the
  headers.
\<close>

definition head_token :: "hs_stream \<Rightarrow> http_token \<Rightarrow> bool" where
  "head_token s e \<longleftrightarrow> e = no_token \<or>
     tok_type e \<in> {HS_TOK_METHOD, HS_TOK_TARGET, HS_TOK_VERSION, HS_TOK_HEADER_KEY, HS_TOK_HEADER_VAL} \<and>
     0 \<le> tok_index e \<and> 0 \<le> tok_len e \<and> tok_index e + tok_len e \<le> s_index s \<and>
     (tok_type e = HS_TOK_METHOD \<or> 0 < tok_index e + tok_len e)"

lemma i32_nonneg:
  assumes "- 2147483648 \<le> x" and "x < 4294967296" and "0 \<le> i32 x"
  shows "i32 x = x"
proof -
  have eq: "i32 x = (x + 2147483648) mod 4294967296 - 2147483648"
    by (simp add: i32_def signed_take_bit_eq_take_bit_shift take_bit_eq_mod)
  show ?thesis
  proof (cases "x < 2147483648")
    case True
    then show ?thesis using assms(1) by simp
  next
    case False
    then have "(x + 2147483648) mod 4294967296 = x + 2147483648 - 4294967296"
      using assms(2) by (simp add: mod_pos_geq)
    then show ?thesis using eq assms(2,3) False by linarith
  qed
qed

text \<open>
  A token after which the head is over. The length of a body token is the announced one and
  can be anything; one that is not negative and small lies under the cursor.
\<close>

definition end_token :: "int \<Rightarrow> http_token \<Rightarrow> bool" where
  "end_token n e \<longleftrightarrow> tok_type e \<in> {HS_TOK_ERROR, HS_TOK_BODY, HS_TOK_BODY_STREAM} \<and>
     0 \<le> tok_index e \<and> (tok_type e = HS_TOK_BODY \<or> tok_len e = 0) \<and>
     (0 \<le> tok_len e \<and> tok_len e \<le> 65536 \<longrightarrow> tok_index e + tok_len e \<le> n)"

lemma end_token_none [simp]: "tok_type e = HS_TOK_NONE \<Longrightarrow> \<not> end_token n e"
  by (simp add: end_token_def)

lemma end_token_no_token [simp]: "\<not> end_token n no_token"
  by (simp add: no_token_def)

lemma end_token_error [simp]: "0 \<le> n \<Longrightarrow> end_token n (no_token\<lparr>tok_type := HS_TOK_ERROR\<rparr>)"
  by (simp add: end_token_def no_token_def)

lemma end_token_type: "end_token n e \<Longrightarrow> tok_type e \<in> {HS_TOK_ERROR, HS_TOK_BODY, HS_TOK_BODY_STREAM}"
  by (simp add: end_token_def)

lemma end_token_plain: "0 \<le> n \<Longrightarrow> tok_type e \<in> {HS_TOK_ERROR, HS_TOK_BODY, HS_TOK_BODY_STREAM} \<Longrightarrow>
  tok_index e = 0 \<Longrightarrow> tok_len e = 0 \<Longrightarrow> end_token n e"
  by (simp add: end_token_def)

definition head_progress ::
  "platform \<Rightarrow> http_parser \<Rightarrow> char \<Rightarrow> hs_stream \<Rightarrow> http_parser \<times> hs_stream \<times> http_token \<Rightarrow> bool" where
  "head_progress pf p c s r \<longleftrightarrow> (case r of (p', s', e) \<Rightarrow>
     end_token (s_length s) e \<and> (tok_type e = HS_TOK_ERROR \<or> hs_transitions (p_state p) (ctype_of c) \<in> {Some HN, Some BD}) \<or>
     head_wf pf p' s' \<and> head_token s' e \<and> s_index s < s_index s' \<and>
     s_length s' = s_length s \<and> s_data s' = s_data s \<and>
     hs_transitions (p_state p) (ctype_of c) = Some (p_state p') \<and>
     (s_index s' = s_index s + 1 \<or> p_state p' = BD))"

lemma token_under_cursor:
  assumes "at_char s" and "tok_type (s_token s) \<in> {HS_TOK_METHOD, HS_TOK_TARGET, HS_TOK_VERSION,
     HS_TOK_HEADER_KEY, HS_TOK_HEADER_VAL}"
    and "tok_type (s_token s) = HS_TOK_METHOD \<or> 0 < s_index s"
  shows "head_token (hs_stream_consume (s\<lparr>s_token := no_token\<rparr>)) (s_token s)"
  using assms consume_at_char [OF emit_at_char [OF assms(1)]]
  by (auto simp: head_token_def at_char_def stream_wf_def token_wf_def)

lemma head_progressI:
  assumes "at_char s0" "s_length s0 \<le> 32767" "p_meta p' \<in> head_metas (p_state p')"
    "hs_token_start_states (p_state p') = Some (tok_type (s_token s0))"
    "0 \<le> p_match_index p'" "p_match_index p' \<le> s_index s0 + 1"
    "head_token (hs_stream_consume s0) e" "hs_transitions (p_state p) (ctype_of c) = Some (p_state p')"
    "s_index s0 = s_index s" "s_length s0 = s_length s" "s_data s0 = s_data s"
  shows "head_progress pf p c s (p', hs_stream_consume s0, e)"
  using assms consume_at_char [of s0] by (auto simp: head_progress_def head_wf_def at_char_def stream_wf_def buffer_wf_def)

lemma jumpall_safe:
  assumes "at_char s"
  defines "s' \<equiv> snd (hs_stream_jumpall s)"
  shows "stream_wf s'" "s_index s' = s_length s" "s_length s' = s_length s" "s_data s' = s_data s"
    "HTTP_FLAG_CHECK (s_flags s') HS_SF_CONSUMED" "tok_type (s_token s') = tok_type (s_token s)"
proof -
  have b: "0 \<le> s_index s" "s_index s < s_length s" "s_length s \<le> 8388608"
    using assms(1) index_small by (auto simp: at_char_def stream_wf_def)
  have len: "tok_type (s_token s) \<noteq> HS_TOK_NONE \<longrightarrow> 0 \<le> tok_len (s_token s) \<and> tok_len (s_token s) \<le> s_index s"
    using assms(1) by (auto simp: at_char_def stream_wf_def token_wf_def split: if_splits)
  note defs = s'_def hs_stream_jumpall_def grow_token_def Let_def
  show "s_index s' = s_length s" "s_length s' = s_length s" "s_data s' = s_data s"
    "tok_type (s_token s') = tok_type (s_token s)"
    using b by (simp_all add: defs s_data_def)
  show "HTTP_FLAG_CHECK (s_flags s') HS_SF_CONSUMED"
    by (simp add: defs flag_simps HS_SF_CONSUMED_def)
  show "stream_wf s'"
    using assms(1) b len
    by (auto simp: defs at_char_def stream_wf_def buffer_wf_def token_wf_def split: if_splits)
qed

lemma body_safe:
  assumes at: "at_char s" and m: "p_meta p = M_BDY" and t: "tok_type (s_token s) = HS_TOK_BODY"
  shows "\<exists>p' s' e. hs_body p s BD no_token = Some (p', s', e) \<and>
    (end_token (s_length s) e \<or>
     e = no_token \<and> p_meta p' = M_BDY \<and> p_state p' = p_state p \<and> p_match_index p' = p_match_index p \<and>
     stream_wf s' \<and> s_index s' = s_length s \<and> s_length s' = s_length s \<and> s_data s' = s_data s \<and>
     HTTP_FLAG_CHECK (s_flags s') HS_SF_CONSUMED \<and> tok_type (s_token s') = HS_TOK_BODY)"
proof -
  define left where "left = i32 (i64 (p_content_length p - p_body_consumed p))"
  obtain enough s1 where j: "hs_stream_jump s left = (enough, s1)" by fastforce
  show ?thesis
  proof (cases enough)
    case True
    have tk: "s_token s1 = grow_token (s_token s) left" "i32 (s_index s + left) \<le> s_length s"
      using j True by (auto simp: hs_stream_jump_def Let_def split: if_splits)
    have b: "0 \<le> tok_index (s_token s)" "0 \<le> tok_len (s_token s)"
      "tok_index (s_token s) + tok_len (s_token s) = s_index s" "s_index s \<le> 8388608"
      using at t index_small [of s] by (auto simp: at_char_def stream_wf_def token_wf_def)
    have "end_token (s_length s) (s_token s1)"
    proof -
      have left: "- 2147483648 \<le> left" "left \<le> 2147483647" using i32_range [of "i64 (p_content_length p - p_body_consumed p)"]
        by (simp_all add: left_def)
      have "tok_index (s_token s) + i32 (tok_len (s_token s) + left) \<le> s_length s"
        if "0 \<le> i32 (tok_len (s_token s) + left)" "i32 (tok_len (s_token s) + left) \<le> 65536"
      proof -
        have e: "i32 (tok_len (s_token s) + left) = tok_len (s_token s) + left"
          by (rule i32_nonneg [OF _ _ that(1)]) (use left b in linarith)+
        have "i32 (s_index s + left) = s_index s + left"
          by (rule i32_id) (use that e b in linarith)+
        then show ?thesis using tk(2) b(3) e by linarith
      qed
      then show ?thesis using tk(1) t b by (simp add: end_token_def grow_token_def)
    qed
    then show ?thesis using m j True
      by (simp add: hs_body_def left_def Let_def hs_stream_emit_def hs_trigger_meta_def table_entry_def)
  next
    case False
    then have s1: "s1 = s\<lparr>s_flags := HTTP_FLAG_SET (s_flags s) HS_SF_CONSUMED\<rparr>"
      using j by (auto simp: hs_stream_jump_def Let_def split: if_splits)
    have eq: "snd (hs_stream_jumpall s1) = snd (hs_stream_jumpall s)"
      by (simp add: s1 hs_stream_jumpall_def Let_def HTTP_FLAG_SET_def or.assoc)
    obtain off s2 where ja: "hs_stream_jumpall s1 = (off, s2)" by fastforce
    have s2: "s2 = snd (hs_stream_jumpall s)" using eq ja by simp
    show ?thesis
      using m j False ja t jumpall_safe [OF at] unfolding s2 [symmetric]
      by (simp add: hs_body_def left_def Let_def)
  qed
qed

lemma consume_noop: "HTTP_FLAG_CHECK (s_flags s) HS_SF_CONSUMED \<Longrightarrow> hs_stream_consume s = s"
  by (simp add: hs_stream_consume_def)

lemma head_step_body:
  assumes wf: "head_wf pf p s" and at: "at_char s" and st: "p_state p = HN \<or> p_state p = BD"
  shows "\<exists>r. http_parse_step pf p s c = Some r \<and> head_progress pf p c s r"
proof -
  define s0 where "s0 = (if p_state p = HN
    then hs_stream_begin_token (hs_stream_anchor s) HS_TOK_BODY else s)"
  define p0 where "p0 = (if p_state p = HN then p\<lparr>p_state := BD, p_match_index := 0\<rparr> else p)"
  have m: "p_meta p = M_BDY" using wf st by (auto simp: head_wf_def)
  have tr: "hs_transitions (p_state p) (ctype_of c) = Some BD"
    using head_transition [of "p_state p" c] st by auto
  have step: "http_parse_step pf p s c =
      map_option (\<lambda>(p, s, e). (p, hs_stream_consume s, e)) (hs_body p0 s0 BD no_token)"
  proof (cases "p_state p = HN")
    case True
    with tr m show ?thesis
      by (auto simp: step_defs p0_def s0_def map_option_bind Option.bind_map_option split: bind_split)
  next
    case False
    with st have "p_state p = BD" by simp
    with False tr m show ?thesis
      by (cases p) (simp add: step_defs p0_def s0_def split: bind_split)
  qed
  have at0: "at_char s0"
    using at wf by (auto simp: s0_def hs_stream_anchor_def hs_stream_begin_token_def head_wf_def
        at_char_def stream_wf_def buffer_wf_def token_wf_def)
  have s0: "tok_type (s_token s0) = HS_TOK_BODY" "s_index s0 = s_index s" "s_length s0 = s_length s"
      "s_data s0 = s_data s" and p0: "p_meta p0 = M_BDY" "p_state p0 = BD"
      "0 \<le> p_match_index p0" "p_match_index p0 \<le> s_index s"
    using wf st m at by (auto simp: s0_def p0_def head_wf_def hs_stream_anchor_def
        at_char_def stream_wf_def buffer_wf_def)
  obtain p' s' e where b: "hs_body p0 s0 BD no_token = Some (p', s', e)" and
    r: "end_token (s_length s0) e \<or>
     e = no_token \<and> p_meta p' = M_BDY \<and> p_state p' = p_state p0 \<and> p_match_index p' = p_match_index p0 \<and>
     stream_wf s' \<and> s_index s' = s_length s0 \<and> s_length s' = s_length s0 \<and> s_data s' = s_data s0 \<and>
     HTTP_FLAG_CHECK (s_flags s') HS_SF_CONSUMED \<and> tok_type (s_token s') = HS_TOK_BODY"
    using body_safe [OF at0 p0(1) s0(1)] by blast
  have "head_progress pf p c s (p', hs_stream_consume s', e)"
    using r at0 s0 p0 wf tr
    by (auto simp: head_progress_def head_wf_def head_token_def consume_noop at_char_def)
  then show ?thesis using step b by simp
qed

lemma head_wfD:
  assumes "head_wf pf p s"
  shows "p_meta p \<in> head_metas (p_state p)" "s_length s \<le> 32767"
    "hs_token_start_states (p_state p) = Some (tok_type (s_token s))"
    "0 \<le> p_match_index p" "p_match_index p \<le> s_index s" "stream_wf s"
    "p_state p \<noteq> ST \<Longrightarrow> 0 < s_index s"
  using assms by (auto simp: head_wf_def)

lemma no_token_head [simp]: "head_token s no_token"
  by (simp add: head_token_def)

lemma head_step_line:
  assumes wf: "head_wf pf p s" and at: "at_char s" and st: "p_state p \<in> {ST, MT, MS, TR, TS, VN, RR, HR, ER}"
    and tr: "hs_transitions (p_state p) (ctype_of c) = Some to" and to: "to \<in> head_next (p_state p)"
    and nb: "to \<notin> {BR, HN}"
  shows "\<exists>r. http_parse_step pf p s c = Some r \<and> head_progress pf p c s r"
proof -
  note w = head_wfD [OF wf]
  consider (opn) "to \<in> {MT, TR, VN}" "p_state p \<noteq> to" | (stay) "to \<in> {MT, TR, VN}" "p_state p = to"
    | (emit) "to \<in> {MS, TS}" | (rr) "to = RR" | (move) "to \<in> {RN, HE}"
    using st to nb by auto
  then show ?thesis
  proof cases
    case opn
    obtain ty where ty: "hs_token_start_states to = Some ty" using opn(1) by auto
    have "tok_type (s_token s) = HS_TOK_NONE" using w(3) opn st to by auto
    then have at': "at_char (hs_stream_begin_token s ty)"
      by (rule begin_token_at_char [OF at])
    have "head_progress pf p c s (p\<lparr>p_state := to, p_match_index := 0\<rparr>,
        hs_stream_consume (hs_stream_begin_token s ty), no_token)"
      by (rule head_progressI [OF at']) (use w opn st to tr ty in auto)
    then show ?thesis using step_open [OF tr opn _ _ ty, of pf s] st by auto
  next
    case stay
    show ?thesis using step_stay [of p c pf s] tr stay w
      by (auto intro!: head_progressI [OF at])
  next
    case emit
    have tk: "head_token (hs_stream_consume (s\<lparr>s_token := no_token\<rparr>)) (s_token s)"
      by (rule token_under_cursor [OF at]) (use w(3,7) st emit to in auto)
    have "head_progress pf p c s (p\<lparr>p_state := to, p_match_index := 0\<rparr>,
        hs_stream_consume (s\<lparr>s_token := no_token\<rparr>), s_token s)"
      by (rule head_progressI [OF emit_at_char [OF at]]) (use emit w st to tr tk in \<open>auto simp: no_token_def\<close>)
    then show ?thesis using step_emit [OF tr, of pf s] emit st to by auto
  next
    case rr
    have tk: "head_token (hs_stream_consume (s\<lparr>s_token := no_token\<rparr>)) (s_token s)"
      by (rule token_under_cursor [OF at]) (use w(3,7) st rr to in auto)
    have "head_progress pf p c s (p\<lparr>p_state := RR, p_match_index := 0, p_meta := M_ANY\<rparr>,
        hs_stream_consume (s\<lparr>s_token := no_token\<rparr>), s_token s)"
      by (rule head_progressI [OF emit_at_char [OF at]]) (use rr w st to tr tk in \<open>auto simp: no_token_def\<close>)
    then show ?thesis using step_end_value [OF tr, of M_ANY pf s] rr w(1) st to
      by (auto simp: table_entry_def)
  next
    case move
    have "head_progress pf p c s (p\<lparr>p_state := to, p_match_index := 0\<rparr>, hs_stream_consume s, no_token)"
      by (rule head_progressI [OF at]) (use move w st to tr in auto)
    then show ?thesis using step_move [OF tr, of pf s] move st to by auto
  qed
qed

lemma head_step_header:
  assumes wf: "head_wf pf p s" and at: "at_char s" and st: "p_state p \<in> {RN, HK, HS, HV, HE}"
    and tr: "hs_transitions (p_state p) (ctype_of c) = Some to" and to: "to \<in> head_next (p_state p)"
    and nb: "to \<noteq> BR"
  shows "\<exists>r. http_parse_step pf p s c = Some r \<and> head_progress pf p c s r"
proof -
  note w = head_wfD [OF wf]
  have small: "p_match_index p < 32767" using w at by (auto simp: at_char_def)
  have idx: "0 \<le> s_index s" using at by (auto simp: at_char_def stream_wf_def buffer_wf_def)
  consider (key) "to = HK" "p_state p \<noteq> HK" | (keys) "to = HK" "p_state p = HK"
    | (endkey) "to = HS" "p_state p \<noteq> HS" | (spc) "to = HS" "p_state p = HS"
    | (val) "to = HV" "p_state p \<noteq> HV" | (vals) "to = HV" "p_state p = HV" | (hr) "to = HR" | (er) "to = ER"
    using st to nb by auto
  then show ?thesis
  proof cases
    case key
    let ?p = "p\<lparr>p_state := HK, p_header_count := i16 (p_header_count p + 1), p_match_index := 0\<rparr>"
    have "p_meta ?p \<in> key_metas" using w(1) st key to by auto
    then obtain p' where p': "hs_match_key ?p c = Some p'" "p_meta p' \<in> key_metas"
      "p_match_index p' = 1" "p_state p' = HK"
      using match_key_safe [of ?p c] by auto
    have "tok_type (s_token s) = HS_TOK_NONE" using w(3) key st to by auto
    then have at': "at_char (hs_stream_begin_token s HS_TOK_HEADER_KEY)"
      by (rule begin_token_at_char [OF at])
    have "head_progress pf p c s (p', hs_stream_consume (hs_stream_begin_token s HS_TOK_HEADER_KEY), no_token)"
      using p' w idx tr key by (intro head_progressI [OF at']) auto
    moreover have "0 \<le> s_length s" using at idx by (simp add: at_char_def)
    ultimately show ?thesis using step_key_open [of p c p' pf s] tr key st p'(1)
      by (auto simp: head_progress_def)
  next
    case keys
    then have "p_meta p \<in> key_metas" using w(1) by simp
    then obtain p' where p': "hs_match_key p c = Some p'" "p_meta p' \<in> key_metas"
      "p_match_index p' = p_match_index p + 1" "p_state p' = HK"
      using match_key_safe [of p c] w(4) small keys by auto
    have "head_progress pf p c s (p', hs_stream_consume s, no_token)"
      using p' w keys tr by (intro head_progressI [OF at]) auto
    then show ?thesis using step_key_stay [of p c p' pf s] tr keys p'(1) by simp
  next
    case endkey
    then obtain m where m: "table_entry (hs_meta_transitions_row (p_meta p)) HS_META_END_KEY = Some m"
      "m \<in> value_metas" using w(1) st to by (auto simp: table_entry_def)
    have tk: "head_token (hs_stream_consume (s\<lparr>s_token := no_token\<rparr>)) (s_token s)"
      by (rule token_under_cursor [OF at]) (use w(3,7) st endkey to in auto)
    have "head_progress pf p c s (p\<lparr>p_state := HS, p_meta := m, p_match_index := 0\<rparr>,
        hs_stream_consume (s\<lparr>s_token := no_token\<rparr>), s_token s)"
      by (rule head_progressI [OF emit_at_char [OF at]]) (use w m idx tk tr endkey(1) in \<open>auto simp: no_token_def\<close>)
    then show ?thesis using step_end_key [of p c m pf s] tr endkey m st by auto
  next
    case spc
    then show ?thesis using step_stay [of p c pf s] tr w
      by (auto intro!: head_progressI [OF at])
  next
    case val
    let ?p = "p\<lparr>p_state := HV, p_match_index := 0\<rparr>"
    have "p_meta ?p \<in> value_metas" using w(1) st val to by auto
    then obtain p' where p': "hs_header_value ?p c = Some p'" "p_meta p' \<in> value_metas"
      "0 \<le> p_match_index p'" "p_match_index p' \<le> 1" "p_state p' = HV"
      using header_value_safe [of ?p c] by auto
    have "tok_type (s_token s) = HS_TOK_NONE" using w(3) val st to by auto
    then have at': "at_char (hs_stream_begin_token s HS_TOK_HEADER_VAL)"
      by (rule begin_token_at_char [OF at])
    have "head_progress pf p c s (p', hs_stream_consume (hs_stream_begin_token s HS_TOK_HEADER_VAL), no_token)"
      using p' w idx tr val by (intro head_progressI [OF at']) auto
    then show ?thesis using step_val_open [of p c p' pf s] tr val st p'(1) by auto
  next
    case vals
    then have "p_meta p \<in> value_metas" using w(1) by simp
    then obtain p' where p': "hs_header_value p c = Some p'" "p_meta p' \<in> value_metas"
      "0 \<le> p_match_index p'" "p_match_index p' \<le> p_match_index p + 1" "p_state p' = HV"
      using header_value_safe [of p c] w(4) small vals by auto
    have "head_progress pf p c s (p', hs_stream_consume s, no_token)"
      using p' w vals tr by (intro head_progressI [OF at]) auto
    then show ?thesis using step_val_stay [of p c p' pf s] tr vals p'(1) by simp
  next
    case hr
    then obtain m where m: "table_entry (hs_meta_transitions_row (p_meta p)) HS_META_END_VALUE = Some m"
      "m \<in> head_metas HR" using w(1) st to by (auto simp: table_entry_def)
    have tk: "head_token (hs_stream_consume (s\<lparr>s_token := no_token\<rparr>)) (s_token s)"
      by (rule token_under_cursor [OF at]) (use w(3,7) st hr to in auto)
    have "head_progress pf p c s (p\<lparr>p_state := HR, p_match_index := 0, p_meta := m\<rparr>,
        hs_stream_consume (s\<lparr>s_token := no_token\<rparr>), s_token s)"
      by (rule head_progressI [OF emit_at_char [OF at]]) (use w m idx tk tr hr(1) in \<open>auto simp: no_token_def\<close>)
    then show ?thesis using step_end_value [OF tr, of m pf s] hr m st by auto
  next
    case er
    have "head_progress pf p c s (p\<lparr>p_state := ER, p_match_index := 0\<rparr>, hs_stream_consume s, no_token)"
      by (rule head_progressI [OF at]) (use er w st to tr idx in auto)
    with er show ?thesis using step_move [OF tr, of pf s] st to by auto
  qed
qed

lemma head_step:
  assumes wf: "head_wf pf p s" and at: "at_char s"
  shows "if hs_transitions (p_state p) (ctype_of c) = Some BR then http_parse_step pf p s c = None
    else \<exists>r. http_parse_step pf p s c = Some r \<and> head_progress pf p c s r"
proof (cases "p_state p = HN \<or> p_state p = BD")
  case True
  then have "hs_transitions (p_state p) (ctype_of c) = Some BD" using head_transition [of "p_state p" c] by auto
  then show ?thesis using head_step_body [OF wf at True, of c] by simp
next
  case False
  note w = head_wfD [OF wf]
  obtain to where to: "to \<in> head_next (p_state p)" and tr: "hs_transitions (p_state p) (ctype_of c) = Some to"
    using head_transition [of "p_state p" c] w(1) by fastforce
  show ?thesis
  proof (cases "to = BR \<or> to = HN")
    case bad: True
    show ?thesis
    proof (cases "to = BR")
      case True
      have "p_state p \<noteq> BR" using w(1) by auto
      then show ?thesis using True tr step_bad [of p c pf s] False by simp
    next
      case no: False
      with bad to have er: "to = HN" "p_state p = ER" by (cases "p_state p"; simp)+
      let ?p = "p\<lparr>p_state := HN, p_match_index := 0\<rparr>"
      obtain p' e where e: "hs_end_headers ?p s no_token = Some (p', s, e)" "p_state p' = HN"
        "p_match_index p' = 0" "tok_type e \<in> {HS_TOK_BODY, HS_TOK_BODY_STREAM} \<and> tok_index e = 0 \<and> tok_len e = 0 \<or>
          e = no_token \<and> p_meta p' = M_BDY"
        using end_headers_safe [of ?p s] w(1) er by auto
      have idx: "0 \<le> s_index s" using at by (auto simp: at_char_def stream_wf_def buffer_wf_def)
      have "head_progress pf p c s (p', hs_stream_consume s, no_token)" if "p_meta p' = M_BDY"
        using that e w er idx tr by (intro head_progressI [OF at]) auto
      then have "head_progress pf p c s (p', hs_stream_consume s, e)"
        using e(4) tr er end_token_plain [of "s_length s" e] at
        by (auto simp: head_progress_def at_char_def stream_wf_def buffer_wf_def)
      then show ?thesis using step_end_headers [of p c s p' e pf] tr er e(1) by simp
    qed
  next
    case good: False
    have "p_state p \<in> {ST, MT, MS, TR, TS, VN, RR, HR, ER} \<or> p_state p \<in> {RN, HK, HS, HV, HE}"
      using w(1) False by (cases "p_state p") auto
    then have "\<exists>r. http_parse_step pf p s c = Some r \<and> head_progress pf p c s r"
      using head_step_line [OF wf at _ tr to] head_step_header [OF wf at _ tr to] good by blast
    then show ?thesis using tr good by simp
  qed
qed

subsection \<open>The loop and http\_parse\<close>

lemma head_wf_next:
  assumes "head_wf pf p s"
  defines "s1 \<equiv> s\<lparr>s_flags := HTTP_FLAG_CLEAR (s_flags s) HS_SF_CONSUMED\<rparr>"
  shows "head_wf pf p s1" "s_index s < s_length s \<Longrightarrow> at_char s1"
    "hs_stream_next s = Some (s1, if s_index s < s_length s then Some (s_data s ! nat (s_index s)) else None)"
  using assms next_at_char [of s] hs_stream_next_wf [of s]
  by (simp_all add: head_wf_def stream_wf_def buffer_wf_def token_wf_def s1_def)

definition head_outcome :: "platform \<Rightarrow> http_parser \<Rightarrow> hs_stream \<Rightarrow> http_parser \<Rightarrow> hs_stream \<Rightarrow> http_token \<Rightarrow> bool" where
  "head_outcome pf p s p' s' e \<longleftrightarrow>
     end_token (s_length s) e \<and> (tok_type e = HS_TOK_ERROR \<or> in_grammar (p_state p) (unread s)) \<or>
     head_wf pf p' s' \<and> head_token s' e \<and> s_data s' = s_data s \<and> s_index s \<le> s_index s' \<and>
     (e = no_token \<longrightarrow> s_index s' = s_length s') \<and>
     in_grammar (p_state p') (unread s') = in_grammar (p_state p) (unread s)"

lemma head_outcome_trans:
  assumes "head_outcome pf p1 s1 p' s' e" "s_data s1 = s_data s" "s_index s \<le> s_index s1" "s_length s1 = s_length s"
    "in_grammar (p_state p1) (unread s1) = in_grammar (p_state p) (unread s)"
  shows "head_outcome pf p s p' s' e"
  using assms by (auto simp: head_outcome_def)

lemma unread_next:
  assumes "buffer_wf s" "s_index s < s_length s"
  shows "unread s = s_data s ! nat (s_index s) # drop (nat (s_index s + 1)) (s_data s)"
proof -
  have "nat (s_index s) < length (s_data s)" "nat (s_index s + 1) = Suc (nat (s_index s))"
    using assms length_s_data [OF assms(1)] by (auto simp: buffer_wf_def)
  then show ?thesis by (simp add: unread_def Cons_nth_drop_Suc)
qed

lemma progress_grammar:
  assumes "head_progress pf p c s (p', s', e)" "unread s = c # drop (nat (s_index s + 1)) (s_data s)"
  shows "end_token (s_length s) e \<Longrightarrow> tok_type e \<noteq> HS_TOK_ERROR \<Longrightarrow> in_grammar (p_state p) (unread s)"
    "\<not> end_token (s_length s) e \<Longrightarrow> in_grammar (p_state p') (unread s') = in_grammar (p_state p) (unread s)"
proof -
  assume e: "end_token (s_length s) e" "tok_type e \<noteq> HS_TOK_ERROR"
  then show "in_grammar (p_state p) (unread s)"
    using assms by (auto simp: head_progress_def head_token_def dest: end_token_type)
next
  assume "\<not> end_token (s_length s) e"
  then have w: "head_wf pf p' s'" "hs_transitions (p_state p) (ctype_of c) = Some (p_state p')"
    "s_index s' = s_index s + 1 \<or> p_state p' = BD" "s_data s' = s_data s"
    using assms(1) by (auto simp: head_progress_def)
  have "p_state p' \<noteq> BR" using w(1) by (auto simp: head_wf_def)
  then show "in_grammar (p_state p') (unread s') = in_grammar (p_state p) (unread s)"
    using w(3) unfolding assms(2) in_grammar_step [OF w(2)] by (auto simp: unread_def w(4))
qed

lemma head_loop:
  assumes "head_wf pf p s"
  shows "case http_parse_loop pf p s of None \<Rightarrow> \<not> in_grammar (p_state p) (unread s)
    | Some (p', s', r) \<Rightarrow> (r \<noteq> None \<longrightarrow> tok_type (the r) \<noteq> HS_TOK_NONE) \<and>
        head_outcome pf p s p' s' (case r of None \<Rightarrow> no_token | Some e \<Rightarrow> e)"
  using assms
proof (induction "nat (s_length s - s_index s)" arbitrary: p s rule: less_induct)
  case less
  let ?s1 = "s\<lparr>s_flags := HTTP_FLAG_CLEAR (s_flags s) HS_SF_CONSUMED\<rparr>"
  note n = head_wf_next [OF less.prems]
  have bw: "buffer_wf s" and le: "s_index s \<le> s_length s" using less.prems by (simp_all add: head_wf_def stream_wf_def buffer_wf_def)
  show ?case
  proof (cases "s_index s < s_length s")
    case False
    then show ?thesis using n(1,3) le
      by (subst http_parse_loop.simps) (simp add: head_outcome_def unread_def s_data_def)
  next
    case True
    let ?c = "s_data s ! nat (s_index s)"
    have u: "unread ?s1 = unread s" by (simp add: unread_def s_data_def)
    note un = unread_next [OF bw True]
    show ?thesis
    proof (cases "hs_transitions (p_state p) (ctype_of ?c) = Some BR")
      case bad: True
      then have "http_parse_step pf p ?s1 ?c = None" using head_step [OF n(1) n(2) [OF True], of ?c] by simp
      moreover have "\<not> in_grammar (p_state p) (unread s)" unfolding un in_grammar_step [OF bad] by simp
      ultimately show ?thesis using n(3) True by (subst http_parse_loop.simps) simp
    next
      case False
      obtain p2 s2 e where step: "http_parse_step pf p ?s1 ?c = Some (p2, s2, e)"
        and prog: "head_progress pf p ?c ?s1 (p2, s2, e)"
        using head_step [OF n(1) n(2) [OF True], of ?c] False by fastforce
      have g: "end_token (s_length s) e \<Longrightarrow> tok_type e \<noteq> HS_TOK_ERROR \<Longrightarrow> in_grammar (p_state p) (unread s)"
        "\<not> end_token (s_length s) e \<Longrightarrow> in_grammar (p_state p2) (unread s2) = in_grammar (p_state p) (unread s)"
        using progress_grammar [OF prog] un unfolding u by (simp_all add: s_data_def)
      show ?thesis
      proof (cases "tok_type e = HS_TOK_NONE")
        case False
        have "head_outcome pf p s p2 s2 e"
          using prog g False by (auto simp: head_outcome_def head_progress_def no_token_def)
        then show ?thesis using n(3) step True False by (subst http_parse_loop.simps) simp
      next
        case none: True
        then have wf2: "head_wf pf p2 s2" and more: "s_index s < s_index s2" "s_length s2 = s_length s"
          "s_data s2 = s_data s" using prog by (auto simp: head_progress_def)
        have g2: "in_grammar (p_state p2) (unread s2) = in_grammar (p_state p) (unread s)" using g(2) none by simp
        have eq: "http_parse_loop pf p s = http_parse_loop pf p2 s2"
          using n(3) step none True by (subst http_parse_loop.simps) simp
        have "nat (s_length s2 - s_index s2) < nat (s_length s - s_index s)" using more True by simp
        from less.hyps [OF this wf2] show ?thesis unfolding eq
          using g2 more head_outcome_trans [of pf p2 s2 _ _ _ s p] by (auto split: option.splits)
      qed
    qed
  qed
qed

lemma head_no_meta_emit:
  "p_meta p \<in> head_metas (p_state p) \<Longrightarrow> hs_meta_emit p = Some (p, no_token)"
  by (cases "p_state p") (auto simp: hs_meta_emit_def)

lemma http_parse_head:
  assumes wf: "head_wf pf p s"
  shows "case http_parse pf p s of None \<Rightarrow> \<not> in_grammar (p_state p) (unread s)
    | Some (p', s', t) \<Rightarrow> head_outcome pf p s p' s' t"
proof -
  have m: "hs_meta_emit p = Some (p, no_token)"
    using wf by (simp add: head_wf_def head_no_meta_emit)
  show ?thesis
  proof (cases "http_parse_loop pf p s")
    case None
    then show ?thesis using head_loop [OF wf] m by (simp add: http_parse_def no_token_def)
  next
    case (Some x)
    obtain p' s' r where x: "x = (p', s', r)" by (cases x)
    have loop: "http_parse_loop pf p s = Some (p', s', r)" and rt: "r \<noteq> None \<longrightarrow> tok_type (the r) \<noteq> HS_TOK_NONE"
      and out: "head_outcome pf p s p' s' (case r of None \<Rightarrow> no_token | Some e \<Rightarrow> e)"
      using head_loop [OF wf] Some x by simp_all
    show ?thesis
    proof (cases r)
      case (Some e)
      then show ?thesis using m loop out by (simp add: http_parse_def no_token_def)
    next
      case None
      then have wf': "head_wf pf p' s'" and o: "head_outcome pf p s p' s' no_token"
        using out by (simp_all add: head_outcome_def no_token_def)
      then have e: "p_state p' \<noteq> CB" "hs_meta_emit p' = Some (p', no_token)"
        by (auto simp: head_wf_def head_no_meta_emit)
      have "0 \<le> s_length s" using wf by (auto simp: head_wf_def stream_wf_def buffer_wf_def)
      then have "head_outcome pf p s p' s' (no_token\<lparr>tok_type := HS_TOK_ERROR\<rparr>)"
        by (simp add: head_outcome_def end_token_plain no_token_def)
      then show ?thesis using m loop None e o
        by (auto simp: http_parse_def no_token_def Let_def)
    qed
  qed
qed

text \<open>The bytes in the buffer are touched only when a streamed body is shifted.\<close>

definition same_block :: "hs_stream \<Rightarrow> hs_stream \<Rightarrow> bool" where
  "same_block s s' \<longleftrightarrow> s_buf s' = s_buf s \<and> s_capacity s' = s_capacity s \<and> s_length s' = s_length s"

lemma same_block_refl [simp]: "same_block s s"
  by (simp add: same_block_def)

lemma same_block_trans: "same_block s s1 \<Longrightarrow> same_block s1 s2 \<Longrightarrow> same_block s s2"
  by (simp add: same_block_def)

lemma same_block_ops [simp]:
  "same_block s (hs_stream_consume s)" "same_block s (hs_stream_begin_token s ty)"
  "same_block s (hs_stream_anchor s)" "same_block s (snd (hs_stream_emit s))"
  "same_block s (snd (hs_stream_jump s n))" "same_block s (snd (hs_stream_jumpall s))"
  "same_block s (s\<lparr>s_flags := f\<rparr>)"
  by (simp_all add: same_block_def hs_stream_consume_def hs_stream_begin_token_def hs_stream_anchor_def
      hs_stream_emit_def hs_stream_jump_def hs_stream_jumpall_def Let_def)

lemma trigger_not_streaming:
  "hs_trigger_meta p ev = Some p' \<Longrightarrow> p_meta p \<noteq> M_STR \<Longrightarrow> ev \<in> {1, 2} \<Longrightarrow> p_meta p' \<noteq> M_STR"
  by (cases "p_meta p") (auto simp: hs_trigger_meta_def table_entry_def numeral_eq_Suc)

lemma enter_state_block:
  assumes "hs_enter_state p s from to = Some (p', s', e)" and "p_meta p \<noteq> M_STR"
  shows "same_block s s' \<and> p_meta p' \<noteq> M_STR"
proof -
  obtain ty where ty: "hs_token_start_states to = Some ty" using assms(1) by (auto simp: hs_enter_state_def bind_eq_Some_conv)
  define s1 where "s1 = (if ty \<noteq> HS_TOK_NONE then hs_stream_begin_token s ty else s)"
  have 1: "same_block s s1" by (simp add: s1_def)
  obtain p1 where p1: "(if from = CS then hs_trigger_meta p HS_META_END_CHK_SIZE else Some p) = Some p1"
    using assms(1) by (auto simp: hs_enter_state_def Let_def bind_eq_Some_conv)
  have m1: "p_meta p1 \<noteq> M_STR"
    using p1 assms(2) by (auto dest: trigger_not_streaming split: if_splits)
  have 2: "same_block s1 (snd (hs_stream_emit s1))" by simp
  show ?thesis using assms(1) p1 m1 1 same_block_trans [OF 1 2]
    by (auto simp: hs_enter_state_def ty s1_def [symmetric] Let_def bind_eq_Some_conv case_prod_unfold
        dest: trigger_not_streaming split: if_splits)
qed

lemma body_block:
  assumes "hs_body p s to e0 = Some (p', s', e)" and "p_meta p \<noteq> M_STR"
  shows "same_block s s'"
proof -
  let ?j = "hs_stream_jump s (i32 (i64 (p_content_length p - p_body_consumed p)))"
  have 1: "same_block s (snd ?j)" "same_block (snd ?j) (snd (hs_stream_emit (snd ?j)))"
    "same_block (snd ?j) (snd (hs_stream_jumpall (snd ?j)))" by simp_all
  note 2 = same_block_trans [OF 1(1,2)] same_block_trans [OF 1(1,3)]
  show ?thesis using assms 2
    by (auto simp: hs_body_def Let_def bind_eq_Some_conv case_prod_unfold split: if_splits)
qed

lemma step_block:
  assumes "http_parse_step pf p s c = Some (p', s', e)" and "p_meta p \<noteq> M_STR"
  shows "same_block s s'"
proof -
  obtain to p1 s1 e1 s2 where step:
    "hs_enter_state (p\<lparr>p_state := to\<rparr>) s1 (p_state p) to = Some (p1, s2, e1) \<or>
     (p1, s2) = (p\<lparr>p_state := to\<rparr>, s1)"
    and s1: "same_block s s1"
    and act: "\<exists>s3 p3 e3. hs_state_action p1 s2 c to e1 = Some (p3, s3, e3) \<and> s' = hs_stream_consume s3"
  proof -
    obtain to0 where to0: "hs_transitions (p_state p) (ctype_of c) = Some to0"
      using assms(1) by (auto simp: http_parse_step_def bind_eq_Some_conv)
    define to where "to = (if p_meta p = M_ZER \<and> p_state p = HN \<and> to0 = BD then CS else to0)"
    define s1 where "s1 = (if p_state p = HN then hs_stream_anchor s else s)"
    have "same_block s s1" by (simp add: s1_def)
    moreover have eq: "http_parse_step pf p s c = do {
        (p1, s2, e1) \<leftarrow> (if p_state p \<noteq> to then hs_enter_state (p\<lparr>p_state := to\<rparr>) s1 (p_state p) to
          else Some (p\<lparr>p_state := to\<rparr>, s1, no_token));
        (p3, s3, e) \<leftarrow> hs_state_action p1 s2 c to e1;
        Some (p3, hs_stream_consume s3, e)
      }"
      unfolding http_parse_step_def hs_transition_action_def to0 to_def s1_def by (simp add: Let_def case_prod_unfold)
    obtain p1 s2 e1 p3 s3 where
      "(if p_state p \<noteq> to then hs_enter_state (p\<lparr>p_state := to\<rparr>) s1 (p_state p) to
        else Some (p\<lparr>p_state := to\<rparr>, s1, no_token)) = Some (p1, s2, e1)"
      "hs_state_action p1 s2 c to e1 = Some (p3, s3, e)" "s' = hs_stream_consume s3"
      using assms(1) unfolding eq by (clarsimp simp only: bind_eq_Some_conv split_paired_Ex prod.case option.inject prod.inject)
    ultimately show thesis by (intro that [of to s1 p1 s2 e1]) (auto split: if_splits)
  qed
  have 2: "same_block s1 s2 \<and> p_meta p1 \<noteq> M_STR"
    using step enter_state_block [of "p\<lparr>p_state := to\<rparr>" s1 "p_state p" to p1 s2 e1] assms(2) by auto
  obtain p3 s3 e3 where a: "hs_state_action p1 s2 c to e1 = Some (p3, s3, e3)" "s' = hs_stream_consume s3"
    using act by blast
  have 3: "same_block s2 (snd (hs_stream_emit s2))" by simp
  have 4: "same_block s2 s3" using a(1) 2 3
    by (auto simp: hs_state_action_def hs_end_headers_def Let_def bind_eq_Some_conv case_prod_unfold
        dest: body_block split: if_splits)
  show ?thesis using s1 2 4 a(2) same_block_ops(1) same_block_trans by metis
qed

lemma head_meta_not_streaming: "p_meta p \<in> head_metas (p_state p) \<Longrightarrow> p_meta p \<noteq> M_STR \<and> p_state p \<noteq> CB"
  by (cases "p_state p") auto

lemma head_loop_block:
  assumes "head_wf pf p s" and "http_parse_loop pf p s = Some (p', s', r)"
  shows "same_block s s' \<and> (r \<noteq> None \<longrightarrow> tok_type (the r) \<in> {HS_TOK_ERROR, HS_TOK_BODY, HS_TOK_BODY_STREAM} \<or>
    s_index s < s_index s')"
  using assms
proof (induction "nat (s_length s - s_index s)" arbitrary: p s rule: less_induct)
  case less
  let ?s1 = "s\<lparr>s_flags := HTTP_FLAG_CLEAR (s_flags s) HS_SF_CONSUMED\<rparr>"
  note n = head_wf_next [OF less.prems(1)]
  have le: "s_index s \<le> s_length s" using less.prems(1) by (simp add: head_wf_def stream_wf_def buffer_wf_def)
  show ?case
  proof (cases "s_index s < s_length s")
    case False
    then show ?thesis using n(3) le less.prems(2)
      by (subst (asm) http_parse_loop.simps) (auto simp: same_block_def)
  next
    case True
    let ?c = "s_data s ! nat (s_index s)"
    have "http_parse_step pf p ?s1 ?c \<noteq> None"
      using less.prems(2) n(3) True by (subst (asm) http_parse_loop.simps) (auto split: option.splits)
    then obtain p2 s2 e where step: "http_parse_step pf p ?s1 ?c = Some (p2, s2, e)"
      and prog: "head_progress pf p ?c ?s1 (p2, s2, e)"
      using head_step [OF n(1) n(2) [OF True], of ?c] by (fastforce split: if_splits)
    have m: "p_meta p \<noteq> M_STR" using less.prems(1) head_meta_not_streaming by (auto simp: head_wf_def)
    have "same_block ?s1 s2" by (rule step_block [OF step m])
    then have blk: "same_block s s2" by (simp add: same_block_def)
    have eq: "http_parse_loop pf p s =
      (if tok_type e \<noteq> HS_TOK_NONE then Some (p2, s2, Some e) else http_parse_loop pf p2 s2)"
      using n(3) step True by (subst http_parse_loop.simps) simp
    show ?thesis
    proof (cases "tok_type e = HS_TOK_NONE")
      case False
      then show ?thesis using eq less.prems(2) blk prog by (auto simp: head_progress_def dest: end_token_type)
    next
      case none: True
      then have wf2: "head_wf pf p2 s2" and adv: "s_index s < s_index s2" "s_length s2 = s_length s"
        using prog by (auto simp: head_progress_def)
      have l: "http_parse_loop pf p2 s2 = Some (p', s', r)" using eq none less.prems(2) by simp
      have sm: "nat (s_length s2 - s_index s2) < nat (s_length s - s_index s)" using adv True by simp
      note ih = less.hyps [OF sm wf2 l]
      have "same_block s s'" by (rule same_block_trans [OF blk]) (use ih in blast)
      then show ?thesis using ih adv(1) by auto
    qed
  qed
qed

lemma http_parse_head_block:
  assumes "head_wf pf p s" and "http_parse pf p s = Some (p', s', t)"
  shows "same_block s s' \<and> (tok_type t \<in> {HS_TOK_NONE, HS_TOK_ERROR, HS_TOK_BODY, HS_TOK_BODY_STREAM} \<or>
    s_index s < s_index s')"
proof -
  have m: "hs_meta_emit p = Some (p, no_token)"
    using assms(1) by (simp add: head_wf_def head_no_meta_emit)
  obtain p1 s1 r where l: "http_parse_loop pf p s = Some (p1, s1, r)"
    using assms(2) m by (auto simp: http_parse_def no_token_def bind_eq_Some_conv)
  note b = head_loop_block [OF assms(1) l]
  show ?thesis
  proof (cases r)
    case (Some e)
    then show ?thesis using assms(2) m l b by (auto simp: http_parse_def no_token_def)
  next
    case None
    then have "head_wf pf p1 s1" using l head_loop [OF assms(1)] by (simp add: head_outcome_def no_token_def)
    then have "hs_meta_emit p1 = Some (p1, no_token)" "p_state p1 \<noteq> CB"
      using head_meta_not_streaming by (auto simp: head_wf_def head_no_meta_emit)
    then show ?thesis using assms(2) m l b None by (auto simp: http_parse_def no_token_def Let_def split: if_splits)
  qed
qed

text \<open>
  C2: the head of a request is parsed without leaving a table, a string or the buffer, unless a
  character is outside the grammar of a head. While the request line, the headers or a body of known
  length are read, and no more than 32767 bytes are buffered, \<open>http_parse\<close> ends; it is undefined only
  if the bytes it has not consumed yet leave the grammar, which is when the code reads behind its table of token
  starts. Otherwise it reports an error or, only inside the grammar, the end of the headers, or it is
  still in such a state, the bytes left are in the grammar exactly if they were before, and the token it
  returns lies within the bytes consumed; without a token it has consumed them all.
\<close>

theorem http_parse_head_safe:
  assumes wf: "head_wf pf p s"
  shows "case http_parse pf p s of None \<Rightarrow> \<not> in_grammar (p_state p) (unread s)
    | Some (p', s', t) \<Rightarrow>
        tok_type t = HS_TOK_ERROR \<or>
        tok_type t \<in> {HS_TOK_BODY, HS_TOK_BODY_STREAM} \<and> in_grammar (p_state p) (unread s) \<or>
        head_wf pf p' s' \<and> head_token s' t \<and> s_data s' = s_data s \<and> s_index s \<le> s_index s' \<and>
        (t = no_token \<longrightarrow> s_index s' = s_length s') \<and>
        in_grammar (p_state p') (unread s') = in_grammar (p_state p) (unread s)"
  using http_parse_head [OF wf] by (auto simp: head_outcome_def end_token_def split: option.splits)

definition demo_platform :: platform where
  "demo_platform = \<lparr>junk = (\<lambda>_. CHR ''?''), stray_token = (\<lambda>_. no_token)\<rparr>"

text \<open>A stream that holds the bytes \<open>str\<close>, none of them consumed.\<close>

definition stream_of :: "string \<Rightarrow> hs_stream" where
  "stream_of str = empty_stream\<lparr>s_buf := Some str, s_capacity := int (length str),
     s_length := int (length str)\<rparr>"

lemma stream_of_head_wf:
  "str \<noteq> [] \<Longrightarrow> length str \<le> 32767 \<Longrightarrow> head_wf pf zero_parser (stream_of str)"
  by (simp add: head_wf_def stream_wf_def buffer_wf_def block_wf_def token_wf_def stream_of_def
      zero_parser_def empty_stream_def no_token_def stream_consts)

theorem http_parse_head_safe_witness:
  "\<exists>p' s' t. http_parse demo_platform zero_parser (stream_of ''GET / HTTP/1.1'') = Some (p', s', t) \<and>
    (tok_type t = HS_TOK_ERROR \<or> tok_type t \<in> {HS_TOK_BODY, HS_TOK_BODY_STREAM} \<or>
     head_wf demo_platform p' s' \<and> head_token s' t \<and>
     in_grammar (p_state p') (unread s'))"
proof -
  have g: "in_grammar (p_state zero_parser) (unread (stream_of ''GET / HTTP/1.1''))" by code_simp
  have "head_wf demo_platform zero_parser (stream_of ''GET / HTTP/1.1'')" by (rule stream_of_head_wf) simp_all
  from http_parse_head_safe [OF this] g show ?thesis by (auto split: option.splits)
qed

end
