(* ===== verification/Http_Roundtrip.thy ===== *)
theory Http_Roundtrip
  imports Http_Parser_Safe
begin

section \<open>The parser against a grammar of requests\<close>

text \<open>
  A request written out by \<open>render_head\<close> is parsed into exactly its parts. Everything that
  matters about the stream is in \<open>cur s d i t\<close>: the bytes read are \<open>d\<close>, the cursor is at
  \<open>i\<close>, and \<open>t\<close> is the token being built.
\<close>

definition cur :: "hs_stream \<Rightarrow> string \<Rightarrow> nat \<Rightarrow> http_token \<Rightarrow> bool" where
  "cur s d i t \<longleftrightarrow> buffer_wf s \<and> s_data s = d \<and> s_index s = int i \<and> s_token s = t"

lemma cur_length: "cur s d i t \<Longrightarrow> s_length s = int (length d)"
  using length_s_data [of s] by (auto simp: cur_def buffer_wf_def)

lemma cur_bound:
  assumes "cur s d i t"
  shows "i \<le> length d \<and> length d \<le> 8388608"
proof -
  have "s_length s \<le> 8388608" "s_index s \<le> s_length s" "s_index s = int i"
    using assms index_small [of s] by (simp_all add: cur_def buffer_wf_def)
  then show ?thesis using cur_length [OF assms] by linarith
qed

abbreviation cleared :: "hs_stream \<Rightarrow> hs_stream" where
  "cleared s \<equiv> s\<lparr>s_flags := HTTP_FLAG_CLEAR (s_flags s) HS_SF_CONSUMED\<rparr>"

lemma loop_char:
  assumes "cur s d i t" and "d = pre @ c # rest" and "i = length pre"
    and "http_parse_step pf p (cleared s) c = Some (p', s', e)"
  shows "http_parse_loop pf p s =
    (if tok_type e = HS_TOK_NONE then http_parse_loop pf p' s' else Some (p', s', Some e))"
proof -
  have "hs_stream_next s = Some (cleared s, Some c)"
    using assms(1-3) cur_length [OF assms(1)] hs_stream_next_wf [of s] by (simp add: cur_def)
  then show ?thesis using assms(4) by (subst http_parse_loop.simps) simp
qed

text \<open>Consuming one character, with the token grown or a new one begun.\<close>

definition grown :: "http_token \<Rightarrow> nat \<Rightarrow> http_token" where
  "grown t n = t\<lparr>tok_len := (if tok_type t = HS_TOK_NONE then 0 else tok_len t + int n)\<rparr>"

lemma cur_consume:
  assumes "cur s d i t" and "i < length d"
    and "tok_len t' \<in> {0..8388608}" and "s' = (cleared s)\<lparr>s_token := t'\<rparr>"
  shows "cur (hs_stream_consume s') d (Suc i) (grown t' 1)"
  using assms cur_bound [OF assms(1)] cur_length [OF assms(1)]
  by (auto simp: cur_def hs_stream_consume_def flag_simps buffer_wf_def s_data_def grow_token_def grown_def)

lemma cleared_token: "cleared s = (cleared s)\<lparr>s_token := s_token s\<rparr>"
  by simp

lemma grown_0 [simp]: "tok_type t \<noteq> HS_TOK_NONE \<Longrightarrow> grown t 0 = t"
  by (simp add: grown_def)

lemma grown_grown [simp]: "grown (grown t a) b = grown t (a + b)"
  by (simp add: grown_def)

lemma grown_sel [simp]: "tok_type (grown t n) = tok_type t" "tok_index (grown t n) = tok_index t"
  "tok_type t \<noteq> HS_TOK_NONE \<Longrightarrow> tok_len (grown t n) = tok_len t + int n"
  by (simp_all add: grown_def)

lemma grown_no_token [simp]: "grown no_token n = no_token"
  by (simp add: grown_def no_token_def)

subsection \<open>Runs of characters that emit nothing\<close>

text \<open>
  \<open>stays p cs p'\<close>: reading \<open>cs\<close> keeps the lexical state and takes the parser from \<open>p\<close>
  to \<open>p'\<close>, without a token.
\<close>

inductive stays :: "platform \<Rightarrow> http_parser \<Rightarrow> string \<Rightarrow> http_parser \<Rightarrow> bool" for pf where
  stays_nil: "stays pf p [] p"
| stays_cons: "(\<And>s. http_parse_step pf p s c = Some (p1, hs_stream_consume s, no_token)) \<Longrightarrow>
    stays pf p1 cs p2 \<Longrightarrow> stays pf p (c # cs) p2"

lemma loop_stays:
  assumes "stays pf p cs p'" and "cur s d i t" and "d = pre @ cs @ rest" and "i = length pre"
    and "tok_type t \<noteq> HS_TOK_NONE" and "0 \<le> tok_len t" and "tok_len t \<le> int i"
  shows "\<exists>s'. http_parse_loop pf p s = http_parse_loop pf p' s' \<and>
    cur s' d (i + length cs) (grown t (length cs))"
  using assms
proof (induction arbitrary: s i t pre)
  case (stays_nil p)
  then show ?case by auto
next
  case (stays_cons p c p1 cs p2)
  have d: "d = pre @ c # (cs @ rest)" using stays_cons.prems by simp
  have bd: "i < length d" "length d \<le> 8388608"
    using d stays_cons.prems cur_bound [OF stays_cons.prems(1)] by simp_all
  have c1: "cur (hs_stream_consume (cleared s)) d (Suc i) (grown t 1)"
    by (rule cur_consume [OF stays_cons.prems(1) bd(1)]) (use stays_cons.prems bd in \<open>auto simp: cur_def\<close>)
  have "http_parse_loop pf p s = http_parse_loop pf p1 (hs_stream_consume (cleared s))"
    using loop_char [OF stays_cons.prems(1) d stays_cons.prems(3) stays_cons.hyps(1)]
    by (simp add: no_token_def)
  moreover obtain s' where "http_parse_loop pf p1 (hs_stream_consume (cleared s)) = http_parse_loop pf p2 s'"
    "cur s' d (Suc i + length cs) (grown (grown t 1) (length cs))"
    using stays_cons.IH [OF c1, of "pre @ [c]"] stays_cons.prems by auto
  ultimately show ?case by auto
qed

subsection \<open>One field: an opening character, a run, a closing character that emits\<close>

definition tok :: "hs_token \<Rightarrow> nat \<Rightarrow> string \<Rightarrow> http_token" where
  "tok ty i str = \<lparr>tok_index = int i, tok_len = int (length str), tok_type = ty\<rparr>"

lemma cur_begin:
  assumes "cur s d i no_token" and "i < length d" and "ty \<noteq> HS_TOK_NONE"
  shows "cur (hs_stream_consume (hs_stream_begin_token (cleared s) ty)) d (Suc i) (tok ty i ''x'')"
proof -
  have "hs_stream_begin_token (cleared s) ty =
      (cleared s)\<lparr>s_token := \<lparr>tok_index = int i, tok_len = 0, tok_type = ty\<rparr>\<rparr>"
    using assms(1) by (simp add: cur_def hs_stream_begin_token_def no_token_def)
  from cur_consume [OF assms(1,2) _ this] show ?thesis
    using assms(3) by (simp add: grown_def tok_def)
qed

lemma cur_emit:
  assumes "cur s d i t" and "i < length d"
  shows "cur (hs_stream_consume ((cleared s)\<lparr>s_token := no_token\<rparr>)) d (Suc i) no_token"
  using cur_consume [OF assms _ refl, of no_token] by (simp add: no_token_def grown_def)

lemma cur_plain:
  assumes "cur s d i no_token" and "i < length d"
  shows "cur (hs_stream_consume (cleared s)) d (Suc i) no_token"
  using cur_consume [OF assms _ cleared_token] assms(1) by (simp add: cur_def grown_def no_token_def)

lemma loop_skip:
  assumes "cur s d i no_token" and "d = pre @ c # rest" and "i = length pre"
    and "\<And>s. http_parse_step pf p s c = Some (p', hs_stream_consume s, no_token)"
  shows "\<exists>s'. http_parse_loop pf p s = http_parse_loop pf p' s' \<and> cur s' d (Suc i) no_token"
  using loop_char [OF assms(1-3) assms(4)] cur_plain [OF assms(1)] assms(2,3)
  by (auto simp: no_token_def)

lemma loop_field:
  assumes s: "cur s d i no_token" and d: "d = pre @ (c # cs) @ x # rest" and i: "i = length pre"
    and first: "\<And>s. http_parse_step pf p s c = Some (p1, hs_stream_consume (hs_stream_begin_token s ty), no_token)"
    and ty: "ty \<noteq> HS_TOK_NONE"
    and run: "stays pf p1 cs p2"
    and last: "\<And>s. http_parse_step pf p2 s x =
      Some (p3, hs_stream_consume (s\<lparr>s_token := no_token\<rparr>), s_token s)"
  shows "\<exists>s'. http_parse_loop pf p s = Some (p3, s', Some (tok ty i (c # cs))) \<and>
    cur s' d (i + length cs + 2) no_token"
proof -
  have len: "i + length cs + 1 < length d" using d i by simp
  let ?s1 = "hs_stream_consume (hs_stream_begin_token (cleared s) ty)"
  have l1: "http_parse_loop pf p s = http_parse_loop pf p1 ?s1"
    using loop_char [OF s _ i first, of "cs @ x # rest"] d by (simp add: no_token_def)
  have c1: "cur ?s1 d (Suc i) (tok ty i ''x'')"
    using cur_begin [OF s _ ty] len by simp
  obtain s2 where l2: "http_parse_loop pf p1 ?s1 = http_parse_loop pf p2 s2"
    and c2: "cur s2 d (Suc i + length cs) (grown (tok ty i ''x'') (length cs))"
    using loop_stays [OF run c1, of "pre @ [c]" "x # rest"] d i ty by (auto simp: tok_def)
  have tk: "s_token s2 = tok ty i (c # cs)"
    using c2 ty by (simp add: cur_def grown_def tok_def)
  let ?s3 = "hs_stream_consume ((cleared s2)\<lparr>s_token := no_token\<rparr>)"
  have "http_parse_loop pf p2 s2 = Some (p3, ?s3, Some (tok ty i (c # cs)))"
    using loop_char [OF c2 _ _ last, of "pre @ c # cs" rest] d i tk ty by (simp add: tok_def)
  moreover have "cur ?s3 d (i + length cs + 2) no_token"
    using cur_emit [OF c2] len by simp
  ultimately show ?thesis using l1 l2 by auto
qed

lemma http_parse_emits:
  assumes "http_parse_loop pf p s = Some (p', s', Some e)" and "p_meta p \<notin> {M_SEN, M_END}"
  shows "http_parse pf p s = Some (p', s', e)"
  using assms by (simp add: http_parse_def hs_meta_emit_def no_token_def)

subsection \<open>The request line\<close>

definition tchar :: "char \<Rightarrow> bool" where
  "tchar c \<longleftrightarrow> ctype_of c \<in> {HS_DIGIT, HS_HEX, HS_ALPHA, HS_TCHAR}"

definition vchar :: "char \<Rightarrow> bool" where
  "vchar c \<longleftrightarrow> tchar c \<or> ctype_of c = HS_VCHAR"

definition method_ok :: "string \<Rightarrow> bool" where
  "method_ok m \<longleftrightarrow> m \<noteq> [] \<and> list_all tchar m \<and> ctype_of (hd m) \<noteq> HS_DIGIT"

definition target_ok :: "string \<Rightarrow> bool" where
  "target_ok u \<longleftrightarrow> u \<noteq> [] \<and> vchar (hd u) \<and>
     list_all (\<lambda>c. vchar c \<or> ctype_of c \<in> {HS_COLN, HS_SCOLN}) (tl u)"

definition version_ok :: "string \<Rightarrow> bool" where
  "version_ok v \<longleftrightarrow> v \<noteq> [] \<and> list_all vchar v"

definition CRLF :: string where "CRLF = [CHR 0x0D, CHR 0x0A]"

lemma ctype_control [simp]:
  "ctype_of (CHR '' '') = HS_SPC" "ctype_of (CHR 0x0D) = HS_CR" "ctype_of (CHR 0x0A) = HS_NL"
  "ctype_of (CHR '':'') = HS_COLN"
  by (simp_all add: ctype_of_def schar_def cnum_def hs_ctype_def)

lemma stays_same:
  assumes "list_all (\<lambda>c. hs_transitions (p_state p) (ctype_of c) = Some (p_state p)) cs"
    and "p_state p \<in> {MT, TR, VN, HS}"
  shows "stays pf p cs p"
  using assms
proof (induction cs)
  case Nil
  show ?case by (rule stays_nil)
next
  case (Cons c cs)
  then show ?case using step_stay [of p c pf] by (auto intro: stays_cons)
qed

lemma table_lookup [simp]: "hs_transitions st ty = table_entry (hs_transitions_row st) (hs_char_type_index ty)"
  by (simp add: hs_transitions_def)

lemma parse_method:
  assumes s: "cur s d i no_token" and d: "d = pre @ m @ CHR '' '' # rest" and i: "i = length pre"
    and m: "method_ok m" and p: "p_state p = ST" "p_meta p = M_WFK"
  shows "\<exists>s'. http_parse pf p s =
      Some (p\<lparr>p_state := MS, p_match_index := 0\<rparr>, s', tok HS_TOK_METHOD i m) \<and>
    cur s' d (i + length m + 1) no_token"
proof -
  obtain c cs where mc: "m = c # cs" using m by (cases m) (auto simp: method_ok_def)
  let ?p = "p\<lparr>p_state := MT, p_match_index := 0\<rparr>"
  have first: "http_parse_step pf p s c = Some (?p, hs_stream_consume (hs_stream_begin_token s HS_TOK_METHOD), no_token)" for s
    using step_open [of p c MT HS_TOK_METHOD pf s] m p by (auto simp: mc method_ok_def tchar_def table_entry_def)
  have run: "stays pf ?p cs ?p"
    by (rule stays_same) (use m in \<open>auto simp: mc method_ok_def tchar_def table_entry_def list_all_iff\<close>)
  have last: "http_parse_step pf ?p s (CHR '' '') =
      Some (p\<lparr>p_state := MS, p_match_index := 0\<rparr>, hs_stream_consume (s\<lparr>s_token := no_token\<rparr>), s_token s)" for s
    using step_emit [of ?p "CHR '' ''" MS pf s] by (simp add: table_entry_def)
  show ?thesis
    using loop_field [OF s _ i first _ run last, of rest] d mc p http_parse_emits [of pf p s]
    by (fastforce simp: mc)
qed

lemma parse_target:
  assumes s: "cur s d i no_token" and d: "d = pre @ u @ CHR '' '' # rest" and i: "i = length pre"
    and u: "target_ok u" and p: "p_state p = MS" "p_meta p = M_WFK"
  shows "\<exists>s'. http_parse pf p s =
      Some (p\<lparr>p_state := TS, p_match_index := 0\<rparr>, s', tok HS_TOK_TARGET i u) \<and>
    cur s' d (i + length u + 1) no_token"
proof -
  obtain c cs where uc: "u = c # cs" using u by (cases u) (auto simp: target_ok_def)
  let ?p = "p\<lparr>p_state := TR, p_match_index := 0\<rparr>"
  have first: "http_parse_step pf p s c = Some (?p, hs_stream_consume (hs_stream_begin_token s HS_TOK_TARGET), no_token)" for s
    using step_open [of p c TR HS_TOK_TARGET pf s] u p by (auto simp: uc target_ok_def vchar_def tchar_def table_entry_def)
  have run: "stays pf ?p cs ?p"
    by (rule stays_same)
       (use u in \<open>auto simp: uc target_ok_def vchar_def tchar_def table_entry_def list_all_iff\<close>)
  have last: "http_parse_step pf ?p s (CHR '' '') =
      Some (p\<lparr>p_state := TS, p_match_index := 0\<rparr>, hs_stream_consume (s\<lparr>s_token := no_token\<rparr>), s_token s)" for s
    using step_emit [of ?p "CHR '' ''" TS pf s] by (simp add: table_entry_def)
  show ?thesis
    using loop_field [OF s _ i first _ run last, of rest] d uc p http_parse_emits [of pf p s]
    by (fastforce simp: uc)
qed

lemma parse_version:
  assumes s: "cur s d i no_token" and d: "d = pre @ v @ CHR 0x0D # rest" and i: "i = length pre"
    and v: "version_ok v" and p: "p_state p = TS" "p_meta p = M_WFK"
  shows "\<exists>s'. http_parse pf p s =
      Some (p\<lparr>p_state := RR, p_match_index := 0, p_meta := M_ANY\<rparr>, s', tok HS_TOK_VERSION i v) \<and>
    cur s' d (i + length v + 1) no_token"
proof -
  obtain c cs where vc: "v = c # cs" using v by (cases v) (auto simp: version_ok_def)
  let ?p = "p\<lparr>p_state := VN, p_match_index := 0\<rparr>"
  have first: "http_parse_step pf p s c = Some (?p, hs_stream_consume (hs_stream_begin_token s HS_TOK_VERSION), no_token)" for s
    using step_open [of p c VN HS_TOK_VERSION pf s] v p by (auto simp: vc version_ok_def vchar_def tchar_def table_entry_def)
  have run: "stays pf ?p cs ?p"
    by (rule stays_same)
       (use v in \<open>auto simp: vc version_ok_def vchar_def tchar_def table_entry_def list_all_iff\<close>)
  have last: "http_parse_step pf ?p s (CHR 0x0D) =
      Some (p\<lparr>p_state := RR, p_match_index := 0, p_meta := M_ANY\<rparr>,
        hs_stream_consume (s\<lparr>s_token := no_token\<rparr>), s_token s)" for s
    using step_end_value [of ?p "CHR 0x0D" RR M_ANY pf s] p by (simp add: table_entry_def)
  show ?thesis
    using loop_field [OF s _ i first _ run last, of rest] d vc p http_parse_emits [of pf p s]
    by (fastforce simp: vc)
qed

subsection \<open>Header keys and values: what the meta machine makes of them\<close>

text \<open>The parser's own view of a key and of a value, character by character.\<close>

fun run_key :: "http_parser \<Rightarrow> string \<Rightarrow> http_parser option" where
  "run_key p [] = Some p"
| "run_key p (c # cs) = Option.bind (hs_match_key p c) (\<lambda>p. run_key p cs)"

fun run_value :: "http_parser \<Rightarrow> string \<Rightarrow> http_parser option" where
  "run_value p [] = Some p"
| "run_value p (c # cs) = Option.bind (hs_header_value p c) (\<lambda>p. run_value p cs)"

definition key_ok :: "string \<Rightarrow> bool" where
  "key_ok k \<longleftrightarrow> k \<noteq> [] \<and> list_all tchar k"

definition value_char :: "char \<Rightarrow> bool" where
  "value_char c \<longleftrightarrow> ctype_of c \<notin> {HS_NL, HS_CR, HS_ETC}"

definition value_ok :: "string \<Rightarrow> bool" where
  "value_ok v \<longleftrightarrow> v \<noteq> [] \<and> list_all value_char v \<and> ctype_of (hd v) \<notin> {HS_SPC, HS_TAB}"

lemma trigger_same: "hs_trigger_meta p ev = Some p' \<Longrightarrow> same_but_meta p p'"
  by (auto simp: hs_trigger_meta_def same_but_meta_def)

lemma HS_MATCH_same: "HS_MATCH str ev c (p, m) = Some (p', m') \<Longrightarrow> same_but_meta p p'"
  by (auto simp: HS_MATCH_def Let_def bind_eq_Some_conv same_but_meta_def
      dest!: trigger_same split: if_splits)

lemma same_but_meta_sel:
  assumes "same_but_meta p p'"
  shows "p_state p' = p_state p" "p_content_length p' = p_content_length p"
    "p_match_index p' = p_match_index p" "p_body_consumed p' = p_body_consumed p"
    "p_header_count p' = p_header_count p"
  using assms by (cases p; cases p'; simp add: same_but_meta_def)+

lemma match_key_state:
  assumes "hs_match_key p c = Some p'"
  shows "p_state p' = p_state p"
proof -
  obtain p1 m1 p2 m2 where "HS_MATCH ''transfer-encoding'' 1 c (p, CHR 0x00) = Some (p1, m1)"
    "HS_MATCH ''content-length'' 0 c (p1, m1) = Some (p2, m2)"
    "p' = p2\<lparr>p_match_index := i16 (p_match_index p2 + 1)\<rparr>"
    using assms by (auto simp: hs_match_key_def bind_eq_Some_conv)
  then show ?thesis by (auto dest!: HS_MATCH_same simp: same_but_meta_sel)
qed

lemma header_value_state:
  assumes "hs_header_value p c = Some p'"
  shows "p_state p' = p_state p"
  using assms by (auto simp: hs_header_value_def bind_eq_Some_conv same_but_meta_sel
      dest!: HS_MATCH_same split: if_splits)

lemma run_key_stays:
  assumes "run_key p k = Some p'" and "p_state p = HK" and "list_all tchar k"
  shows "stays pf p k p' \<and> p_state p' = HK"
  using assms
proof (induction k arbitrary: p)
  case Nil
  then show ?case by (simp add: stays_nil)
next
  case (Cons c k)
  then obtain p1 where p1: "hs_match_key p c = Some p1" "run_key p1 k = Some p'"
    by (auto simp: bind_eq_Some_conv)
  have st: "p_state p1 = HK" using match_key_state [OF p1(1)] Cons.prems by simp
  have "http_parse_step pf p s c = Some (p1, hs_stream_consume s, no_token)" for s
    using step_key_stay [of p c p1 pf s] Cons.prems p1(1)
    by (auto simp: tchar_def table_entry_def)
  then show ?case using Cons.IH [OF p1(2) st] Cons.prems by (auto intro: stays_cons)
qed

lemma run_value_stays:
  assumes "run_value p v = Some p'" and "p_state p = HV" and "list_all value_char v"
  shows "stays pf p v p' \<and> p_state p' = HV"
  using assms
proof (induction v arbitrary: p)
  case Nil
  then show ?case by (simp add: stays_nil)
next
  case (Cons c v)
  then obtain p1 where p1: "hs_header_value p c = Some p1" "run_value p1 v = Some p'"
    by (auto simp: bind_eq_Some_conv)
  have st: "p_state p1 = HV" using header_value_state [OF p1(1)] Cons.prems by simp
  have "http_parse_step pf p s c = Some (p1, hs_stream_consume s, no_token)" for s
    using step_val_stay [of p c p1 pf s] Cons.prems p1(1)
    by (cases "ctype_of c") (auto simp: value_char_def table_entry_def)
  then show ?case using Cons.IH [OF p1(2) st] Cons.prems by (auto intro: stays_cons)
qed

text \<open>\<open>agrees k w\<close>: the string \<open>k\<close>, in lower case, is a prefix of \<open>w\<close>.\<close>

definition agrees :: "string \<Rightarrow> string \<Rightarrow> bool" where
  "agrees k w \<longleftrightarrow> map lower k = take (length k) w"

lemma agrees_Nil [simp]: "agrees [] w"
  by (simp add: agrees_def)

lemma agrees_length: "agrees k w \<Longrightarrow> length k \<le> length w"
  by (metis agrees_def length_map length_take min.absorb_iff1 min.commute min_def)

lemma agrees_snoc:
  "agrees (k @ [c]) w \<longleftrightarrow> agrees k w \<and> length k < length w \<and> lower c = w ! length k"
proof (cases "length k < length w")
  case True
  then show ?thesis by (simp add: agrees_def take_Suc_conv_app_nth)
next
  case False
  then show ?thesis using agrees_length [of "k @ [c]" w] by auto
qed

lemma agrees_append:
  assumes "agrees (v @ w) s"
  shows "agrees v s"
proof -
  have "take (length v) (map lower (v @ w)) = take (length v) (take (length (v @ w)) s)"
    using assms by (simp add: agrees_def)
  then show ?thesis by (simp add: agrees_def)
qed

lemma agrees_first: "agrees k w \<Longrightarrow> k \<noteq> [] \<Longrightarrow> lower (hd k) = w ! 0"
  by (cases k; cases w) (auto simp: agrees_def)

lemma agrees_single: "agrees [c] w \<longleftrightarrow> w \<noteq> [] \<and> lower c = w ! 0"
  using agrees_snoc [of "[]" c w] by simp

definition te_name :: string where "te_name = ''transfer-encoding''"
definition cl_name :: string where "cl_name = ''content-lengthing''"

text \<open>What the meta machine knows after the characters \<open>k\<close> of a key.\<close>

definition key_class :: "string \<Rightarrow> hs_meta_state" where
  "key_class k = (if k = [] then M_ANY else if agrees k te_name then M_MTE
                  else if agrees k cl_name then M_MCL else M_WFK)"

lemma lower_NUL [simp]: "lower c = CHR 0x00 \<longleftrightarrow> c = CHR 0x00"
proof -
  have "cnum (lower c) = (if 65 \<le> cnum c \<and> cnum c \<le> 90 then cnum c + 32 else cnum c)"
    by (simp add: lower_def)
  then show ?thesis using cnum_eq_iff [of "lower c" "CHR 0x00"] cnum_eq_iff [of c "CHR 0x00"]
    by (auto simp: cnum_def split: if_splits)
qed

lemma ctype_NUL [simp]: "ctype_of (CHR 0x00) = HS_ETC"
  by (simp add: ctype_of_def schar_def cnum_def hs_ctype_def)

lemma match_at:
  assumes "p_match_index p = int n"
  shows "HS_MATCH str ev c (p, m) =
    (let m' = (if n < length str then str ! n else m) in
     if lower c \<noteq> m' then map_option (\<lambda>p. (p, m')) (hs_trigger_meta p ev) else Some (p, m'))"
  using assms by (auto simp: HS_MATCH_def block_read_def Let_def map_conv_bind_option comp_def)

lemma second_name:
  assumes "n < 17"
  shows "(if n < length ''content-length'' then ''content-length'' ! n
          else (if n < length ''transfer-encoding'' then ''transfer-encoding'' ! n else m)) = cl_name ! n"
proof -
  have "n \<in> set [0..<17]" using assms by simp
  then show ?thesis by (auto simp: upt_rec cl_name_def)
qed

lemma match_key_eq:
  assumes n: "p_match_index p = int n" "n < 32767" and c: "c \<noteq> CHR 0x00"
    and m1: "(if n < 17 \<and> lower c = te_name ! n then Some (p_meta p)
              else table_entry (hs_meta_transitions_row (p_meta p)) 1) = Some a"
    and m2: "(if n < 17 \<and> lower c = cl_name ! n then Some a
              else table_entry (hs_meta_transitions_row a) 0) = Some b"
  shows "hs_match_key p c = Some (p\<lparr>p_meta := b, p_match_index := int n + 1\<rparr>)"
proof -
  have one: "HS_MATCH ''transfer-encoding'' 1 c (p, CHR 0x00) =
      Some (p\<lparr>p_meta := a\<rparr>, if n < 17 then te_name ! n else CHR 0x00)"
    using m1 c by (auto simp: match_at [OF n(1)] Let_def te_name_def hs_trigger_meta_def split: if_splits)
  have two: "HS_MATCH ''content-length'' 0 c (p\<lparr>p_meta := a\<rparr>, if n < 17 then te_name ! n else CHR 0x00) =
      Some (p\<lparr>p_meta := b\<rparr>, if n < 17 then cl_name ! n else CHR 0x00)"
    using m2 c second_name [of n "CHR 0x00"] n(1)
    by (auto simp: match_at [of _ n] Let_def te_name_def hs_trigger_meta_def split: if_splits)
  show ?thesis unfolding hs_match_key_def one bind.bind_lunit two using n by simp
qed

lemma key_class_snoc:
  assumes c: "c \<noteq> CHR 0x00" and p: "p_match_index p = int (length k)" "length k < 32767"
    "p_meta p = key_class k"
  shows "hs_match_key p c = Some (p\<lparr>p_meta := key_class (k @ [c]), p_match_index := int (length k) + 1\<rparr>)"
proof -
  have len: "length te_name = 17" "length cl_name = 17" by (simp_all add: te_name_def cl_name_def)
  have first: "te_name ! 0 = CHR ''t''" "cl_name ! 0 = CHR ''c''"
    by (simp_all add: te_name_def cl_name_def)
  have excl: "\<not> (agrees k te_name \<and> agrees k cl_name)" if "k \<noteq> []"
  proof -
    show ?thesis using agrees_first [OF _ that, of te_name] agrees_first [OF _ that, of cl_name] first
      by auto
  qed
  define a where "a = (if k = [] then if lower c = CHR ''t'' then M_ANY else M_MCL
    else if agrees (k @ [c]) te_name then M_MTE
    else if agrees k cl_name then M_MCL else M_WFK)"
  have 1: "(if length k < 17 \<and> lower c = te_name ! length k then Some (p_meta p)
      else table_entry (hs_meta_transitions_row (p_meta p)) 1) = Some a"
    using excl first p(3) len by (auto simp: key_class_def a_def agrees_snoc agrees_single table_entry_def)
  have 2: "(if length k < 17 \<and> lower c = cl_name ! length k then Some a
      else table_entry (hs_meta_transitions_row a) 0) = Some (key_class (k @ [c]))"
    proof (cases "k = []")
    case True
    then have "te_name \<noteq> []" "cl_name \<noteq> []" using len by auto
    with True first len show ?thesis
      by (auto simp: key_class_def a_def agrees_single table_entry_def)
  next
    case False
    then show ?thesis
      using excl first len by (auto simp: key_class_def a_def agrees_snoc table_entry_def)
  qed
  show ?thesis by (rule match_key_eq [OF p(1,2) c 1 2])
qed

lemma run_key_class:
  assumes "CHR 0x00 \<notin> set cs" and "p_match_index p = int (length k)" "p_meta p = key_class k"
    and "length (k @ cs) < 32767"
  shows "run_key p cs = Some (p\<lparr>p_meta := key_class (k @ cs), p_match_index := int (length (k @ cs))\<rparr>)"
  using assms
proof (induction cs arbitrary: p k)
  case Nil
  then show ?case by (cases p) simp
next
  case (Cons c cs)
  let ?p = "p\<lparr>p_meta := key_class (k @ [c]), p_match_index := int (length k) + 1\<rparr>"
  have "hs_match_key p c = Some ?p"
    using Cons.prems by (intro key_class_snoc) auto
  moreover have "run_key ?p cs = Some (?p\<lparr>p_meta := key_class ((k @ [c]) @ cs),
      p_match_index := int (length ((k @ [c]) @ cs))\<rparr>)"
    by (rule Cons.IH) (use Cons.prems in auto)
  ultimately show ?case by simp
qed

text \<open>Once a framing header has been accepted, keys no longer matter.\<close>

lemma run_key_settled:
  assumes "p_meta p = M_SML \<or> p_meta p = M_CHK" and "0 \<le> p_match_index p"
    and "p_match_index p + int (length cs) < 32767"
  shows "run_key p cs = Some (p\<lparr>p_match_index := p_match_index p + int (length cs)\<rparr>)"
  using assms
proof (induction cs arbitrary: p)
  case Nil
  then show ?case by simp
next
  case (Cons c cs)
  let ?p = "p\<lparr>p_match_index := p_match_index p + 1\<rparr>"
  obtain n where n: "p_match_index p = int n" using Cons.prems(2) nonneg_int_cases by blast
  have stay: "hs_trigger_meta p ev = Some p" if "ev \<in> {0, 1}" for ev
    using that Cons.prems(1) by (auto simp: hs_trigger_meta_def table_entry_def)
  have m: "\<exists>m'. HS_MATCH str ev c (p, m) = Some (p, m')" if "ev \<in> {0, 1}" for str ev m
    using stay [OF that] by (simp add: match_at [OF n] Let_def)
  obtain m1 where m1: "HS_MATCH ''transfer-encoding'' 1 c (p, CHR 0x00) = Some (p, m1)" using m by blast
  obtain m2 where m2: "HS_MATCH ''content-length'' 0 c (p, m1) = Some (p, m2)" using m by blast
  have "hs_match_key p c = Some ?p"
    unfolding hs_match_key_def m1 bind.bind_lunit m2 using Cons.prems by simp
  moreover have "run_key ?p cs = Some (?p\<lparr>p_match_index := p_match_index ?p + int (length cs)\<rparr>)"
    by (rule Cons.IH) (use Cons.prems in auto)
  ultimately show ?case by simp
qed

text \<open>The value of a transfer encoding, of a content length, and of any other header.\<close>

definition cl_step :: "int \<Rightarrow> char \<Rightarrow> int" where
  "cl_step n c = i64 (i64 (n * 10) + (schar c - 48))"

definition cl_value :: "string \<Rightarrow> int" where
  "cl_value v = foldl cl_step 0 v"

lemma run_value_length:
  assumes "p_meta p = M_CLV"
  shows "run_value p v = Some (p\<lparr>p_content_length := foldl cl_step (p_content_length p) v\<rparr>)"
  using assms
proof (induction v arbitrary: p)
  case Nil
  then show ?case by simp
next
  case (Cons c v)
  then show ?case by (simp add: hs_header_value_def cl_step_def)
qed

lemma run_value_other:
  assumes "p_meta p \<notin> {M_CLV, M_MCK}"
  shows "run_value p v = Some p"
  using assms by (induction v) (simp_all add: hs_header_value_def)

definition chunked_name :: string where "chunked_name = ''chunked''"

lemma run_value_chunked:
  assumes "CHR 0x00 \<notin> set cs" and "p_match_index p = int (length v)"
    and "p_meta p = (if agrees v chunked_name then M_MCK else M_WFK)" and "length (v @ cs) < 32767"
  shows "\<exists>n. run_value p cs = Some (p\<lparr>p_match_index := n,
    p_meta := if agrees (v @ cs) chunked_name then M_MCK else M_WFK\<rparr>)"
  using assms
proof (induction cs arbitrary: p v)
  case Nil
  then have "p = p\<lparr>p_match_index := p_match_index p, p_meta := if agrees v chunked_name then M_MCK else M_WFK\<rparr>"
    by simp
  then show ?case by (metis append_Nil2 run_value.simps(1))
next
  case (Cons c cs)
  show ?case
  proof (cases "agrees v chunked_name")
    case False
    then have "\<not> agrees (v @ c # cs) chunked_name" using agrees_append by blast
    with False Cons.prems show ?thesis
      using run_value_other [of p "c # cs"] by (intro exI [of _ "p_match_index p"]) simp
  next
    case True
    define p1 where "p1 = p\<lparr>p_match_index := int (length v) + 1,
      p_meta := if agrees (v @ [c]) chunked_name then M_MCK else M_WFK\<rparr>"
    have len: "length chunked_name = 7" by (simp add: chunked_name_def)
    have "hs_header_value p c = Some p1"
      using Cons.prems True len
      by (auto simp: hs_header_value_def match_at [of p "length v"] Let_def agrees_snoc p1_def
          chunked_name_def [symmetric] hs_trigger_meta_def table_entry_def)
    moreover obtain n where "run_value p1 cs = Some (p1\<lparr>p_match_index := n,
        p_meta := if agrees ((v @ [c]) @ cs) chunked_name then M_MCK else M_WFK\<rparr>)"
      using Cons.IH [of p1 "v @ [c]"] Cons.prems by (auto simp: p1_def)
    ultimately show ?thesis by (auto simp: p1_def)
  qed
qed

subsection \<open>One header\<close>

datatype framing = Unframed | Sized int | Chunked

fun meta_of :: "framing \<Rightarrow> hs_meta_state" where
  "meta_of Unframed = M_ANY"
| "meta_of (Sized n) = M_SML"
| "meta_of Chunked = M_CHK"

fun length_of :: "framing \<Rightarrow> int" where
  "length_of (Sized n) = n"
| "length_of _ = 0"

text \<open>
  What a header says about the body, as the parser reads it: the first header whose key is
  taken for one of the two names decides.
\<close>

fun header_framing :: "framing \<Rightarrow> string \<times> string \<Rightarrow> framing" where
  "header_framing Unframed (k, v) =
     (if agrees k te_name then (if agrees v chunked_name then Chunked else Unframed)
      else if agrees k cl_name then Sized (cl_value v) else Unframed)"
| "header_framing f kv = f"

definition in_state :: "http_parser \<Rightarrow> hs_state \<Rightarrow> hs_meta_state \<Rightarrow> int \<Rightarrow> int \<Rightarrow> bool" where
  "in_state p st m n h \<longleftrightarrow> p_state p = st \<and> p_meta p = m \<and> p_content_length p = n \<and>
     p_body_consumed p = 0 \<and> p_header_count p = h"

fun value_meta :: "framing \<Rightarrow> string \<Rightarrow> hs_meta_state" where
  "value_meta Unframed k = (if agrees k te_name then M_MCK else if agrees k cl_name then M_CLV else M_WFK)"
| "value_meta f k = meta_of f"

definition header_ok :: "string \<times> string \<Rightarrow> bool" where
  "header_ok kv \<longleftrightarrow> key_ok (fst kv) \<and> value_ok (snd kv) \<and> length (fst kv) < 32767 \<and> length (snd kv) < 32767"

lemma tchar_not_NUL: "list_all tchar k \<Longrightarrow> CHR 0x00 \<notin> set k"
  by (auto simp: list_all_iff tchar_def)

lemma value_not_NUL: "list_all value_char v \<Longrightarrow> CHR 0x00 \<notin> set v"
  by (auto simp: list_all_iff value_char_def)

lemma run_key_framing:
  assumes "in_state p HK (meta_of f) n h" "p_match_index p = 0" and "key_ok k" "length k < 32767"
  shows "\<exists>p' m. run_key p k = Some p' \<and> in_state p' HK m n h \<and>
    table_entry (hs_meta_transitions_row m) HS_META_END_KEY = Some (value_meta f k)"
proof (cases "f = Unframed")
  case True
  have "run_key p k = Some (p\<lparr>p_meta := key_class ([] @ k), p_match_index := int (length ([] @ k))\<rparr>)"
    by (rule run_key_class) (use assms True tchar_not_NUL in \<open>auto simp: key_ok_def key_class_def in_state_def\<close>)
  then show ?thesis using assms True
    by (auto simp: in_state_def key_class_def table_entry_def key_ok_def)
next
  case False
  then have "run_key p k = Some (p\<lparr>p_match_index := p_match_index p + int (length k)\<rparr>)"
    by (intro run_key_settled) (use assms in \<open>cases f; auto simp: in_state_def\<close>)+
  then show ?thesis using assms False by (cases f) (auto simp: in_state_def table_entry_def)
qed

lemma run_value_framing:
  assumes "in_state q HV (value_meta f k) (length_of f) h" "p_match_index q = 0"
    and "value_ok v" "length v < 32767"
  shows "\<exists>q' m. run_value q v = Some q' \<and> in_state q' HV m (length_of (header_framing f (k, v))) h \<and>
    table_entry (hs_meta_transitions_row m) HS_META_END_VALUE = Some (meta_of (header_framing f (k, v)))"
proof -
  have nul: "CHR 0x00 \<notin> set v" using assms(3) value_not_NUL by (auto simp: value_ok_def)
  consider (clv) "value_meta f k = M_CLV" | (mck) "value_meta f k = M_MCK"
    | (other) "value_meta f k \<notin> {M_CLV, M_MCK}" by blast
  then show ?thesis
  proof cases
    case clv
    then have f: "f = Unframed" "\<not> agrees k te_name" "agrees k cl_name" by (cases f; auto split: if_splits)+
    show ?thesis using run_value_length [of q v] assms clv f
      by (auto simp: in_state_def cl_value_def table_entry_def)
  next
    case mck
    then have f: "f = Unframed" "agrees k te_name" by (cases f; auto split: if_splits)+
    obtain n where "run_value q v = Some (q\<lparr>p_match_index := n,
        p_meta := if agrees ([] @ v) chunked_name then M_MCK else M_WFK\<rparr>)"
      using run_value_chunked [OF nul, of q "[]"] assms mck by (auto simp: in_state_def)
    then show ?thesis using assms f by (auto simp: in_state_def table_entry_def)
  next
    case other
    then have "run_value q v = Some q" using run_value_other [of q v] assms(1) by (simp add: in_state_def)
    moreover have "table_entry (hs_meta_transitions_row (value_meta f k)) HS_META_END_VALUE =
        Some (meta_of (header_framing f (k, v))) \<and> length_of (header_framing f (k, v)) = length_of f"
      using other by (cases f) (auto simp: table_entry_def split: if_splits)
    ultimately show ?thesis using assms(1) by (auto simp: in_state_def)
  qed
qed

lemma parse_key:
  assumes s: "cur s d i no_token" and d: "d = pre @ CHR 0x0A # k @ CHR '':'' # rest" and i: "i = length pre"
    and k: "key_ok k" "length k < 32767" and p: "in_state p st (meta_of f) n h" "st = RR \<or> st = HR"
    and h: "0 \<le> h" "h < 127"
  shows "\<exists>p' s'. http_parse pf p s = Some (p', s', tok HS_TOK_HEADER_KEY (i + 1) k) \<and>
    cur s' d (i + length k + 2) no_token \<and> in_state p' HS (value_meta f k) n (h + 1)"
proof -
  define p0 where "p0 = p\<lparr>p_state := if st = RR then RN else HE, p_match_index := 0\<rparr>"
  have "http_parse_step pf p s (CHR 0x0A) = Some (p0, hs_stream_consume s, no_token)" for s
    using step_move [of p "CHR 0x0A" "if st = RR then RN else HE" pf s] p
    by (auto simp: in_state_def p0_def table_entry_def)
  from loop_skip [OF s _ i this, of "k @ CHR '':'' # rest"] d obtain s0 where
    l0: "http_parse_loop pf p s = http_parse_loop pf p0 s0" and c0: "cur s0 d (Suc i) no_token" by auto
  obtain c cs where kc: "k = c # cs" using k by (cases k) (auto simp: key_ok_def)
  define q where "q = p0\<lparr>p_state := HK, p_header_count := i16 (p_header_count p0 + 1), p_match_index := 0\<rparr>"
  have "in_state q HK (meta_of f) n (h + 1)" "p_match_index q = 0"
    using p h by (auto simp: q_def p0_def in_state_def)
  from run_key_framing [OF this k] obtain q2 m where q2: "run_key q k = Some q2" "in_state q2 HK m n (h + 1)"
    and m: "table_entry (hs_meta_transitions_row m) HS_META_END_KEY = Some (value_meta f k)" by blast
  obtain q1 where q1: "hs_match_key q c = Some q1" "run_key q1 cs = Some q2"
    using q2(1) by (auto simp: kc bind_eq_Some_conv)
  have tc: "list_all tchar cs" "tchar c" using k by (auto simp: kc key_ok_def)
  have "p_state q1 = HK" using match_key_state [OF q1(1)] by (simp add: q_def)
  with run_key_stays [OF q1(2) _ tc(1)] have run: "stays pf q1 cs q2" by blast
  have first: "http_parse_step pf p0 s c =
      Some (q1, hs_stream_consume (hs_stream_begin_token s HS_TOK_HEADER_KEY), no_token)" for s
    using step_key_open [of p0 c q1 pf s] tc(2) q1(1) p h
    by (auto simp: q_def p0_def tchar_def table_entry_def in_state_def HTTP_MAX_HEADER_COUNT_def)
  have tr: "hs_transitions (p_state q2) (ctype_of (CHR '':'')) = Some HS"
    using q2(2) by (simp add: in_state_def table_entry_def)
  have m': "table_entry (hs_meta_transitions_row (p_meta q2)) HS_META_END_KEY = Some (value_meta f k)"
    using m q2(2) by (simp add: in_state_def)
  define p' where "p' = q2\<lparr>p_state := HS, p_meta := value_meta f k, p_match_index := 0\<rparr>"
  have last: "http_parse_step pf q2 s (CHR '':'') =
      Some (p', hs_stream_consume (s\<lparr>s_token := no_token\<rparr>), s_token s)" for s
    using step_end_key [OF tr _ _ _ m'] q2(2) by (simp add: in_state_def p'_def)
  obtain s' where "http_parse_loop pf p0 s0 = Some (p', s', Some (tok HS_TOK_HEADER_KEY (Suc i) (c # cs)))"
    "cur s' d (Suc i + length cs + 2) no_token"
    using loop_field [OF c0 _ _ first _ run last, of "pre @ [CHR 0x0A]" rest] d i by (auto simp: kc)
  moreover have "p_meta p \<notin> {M_SEN, M_END}" using p(1) by (cases f) (auto simp: in_state_def)
  moreover have "in_state p' HS (value_meta f k) n (h + 1)" using q2(2) by (simp add: p'_def in_state_def)
  ultimately show ?thesis using l0 http_parse_emits [of pf p s] by (fastforce simp: kc)
qed

lemma parse_value:
  assumes s: "cur s d i no_token" and d: "d = pre @ CHR '' '' # v @ CHR 0x0D # rest" and i: "i = length pre"
    and v: "value_ok v" "length v < 32767" and p: "in_state p HS (value_meta f k) (length_of f) h"
  shows "\<exists>p' s'. http_parse pf p s = Some (p', s', tok HS_TOK_HEADER_VAL (i + 1) v) \<and>
    cur s' d (i + length v + 2) no_token \<and>
    in_state p' HR (meta_of (header_framing f (k, v))) (length_of (header_framing f (k, v))) h"
proof -
  have "http_parse_step pf p s (CHR '' '') = Some (p, hs_stream_consume s, no_token)" for s
    using step_stay [of p "CHR '' ''" pf s] p by (simp add: in_state_def table_entry_def)
  from loop_skip [OF s _ i this, of "v @ CHR 0x0D # rest"] d obtain s0 where
    l0: "http_parse_loop pf p s = http_parse_loop pf p s0" and c0: "cur s0 d (Suc i) no_token" by auto
  obtain c cs where vc: "v = c # cs" using v by (cases v) (auto simp: value_ok_def)
  define q where "q = p\<lparr>p_state := HV, p_match_index := 0\<rparr>"
  have "in_state q HV (value_meta f k) (length_of f) h" "p_match_index q = 0"
    using p by (auto simp: q_def in_state_def)
  from run_value_framing [OF this v] obtain q2 m where q2: "run_value q v = Some q2"
    "in_state q2 HV m (length_of (header_framing f (k, v))) h"
    and m: "table_entry (hs_meta_transitions_row m) HS_META_END_VALUE = Some (meta_of (header_framing f (k, v)))"
    by blast
  obtain q1 where q1: "hs_header_value q c = Some q1" "run_value q1 cs = Some q2"
    using q2(1) by (auto simp: vc bind_eq_Some_conv)
  have tc: "list_all value_char cs" "value_char c" "ctype_of c \<notin> {HS_SPC, HS_TAB}"
    using v by (auto simp: vc value_ok_def)
  have "p_state q1 = HV" using header_value_state [OF q1(1)] by (simp add: q_def)
  with run_value_stays [OF q1(2) _ tc(1)] have run: "stays pf q1 cs q2" by blast
  have first: "http_parse_step pf p s c =
      Some (q1, hs_stream_consume (hs_stream_begin_token s HS_TOK_HEADER_VAL), no_token)" for s
    using step_val_open [of p c q1 pf s] tc(2,3) q1(1) p
    by (cases "ctype_of c") (auto simp: q_def value_char_def table_entry_def in_state_def)
  have tr: "hs_transitions (p_state q2) (ctype_of (CHR 0x0D)) = Some HR"
    using q2(2) by (simp add: in_state_def table_entry_def)
  have m': "table_entry (hs_meta_transitions_row (p_meta q2)) HS_META_END_VALUE =
      Some (meta_of (header_framing f (k, v)))"
    using m q2(2) by (simp add: in_state_def)
  define p' where "p' = q2\<lparr>p_state := HR, p_match_index := 0, p_meta := meta_of (header_framing f (k, v))\<rparr>"
  have last: "http_parse_step pf q2 s (CHR 0x0D) =
      Some (p', hs_stream_consume (s\<lparr>s_token := no_token\<rparr>), s_token s)" for s
    using step_end_value [OF tr _ _ _ _ m'] q2(2) by (simp add: in_state_def p'_def)
  obtain s' where "http_parse_loop pf p s0 = Some (p', s', Some (tok HS_TOK_HEADER_VAL (Suc i) (c # cs)))"
    "cur s' d (Suc i + length cs + 2) no_token"
    using loop_field [OF c0 _ _ first _ run last, of "pre @ [CHR '' '']" rest] d i by (auto simp: vc)
  moreover have "p_meta p \<notin> {M_SEN, M_END}" using p(1) by (cases f) (auto simp: in_state_def)
  moreover have "in_state p' HR (meta_of (header_framing f (k, v))) (length_of (header_framing f (k, v))) h"
    using q2(2) by (simp add: p'_def in_state_def)
  ultimately show ?thesis using l0 http_parse_emits [of pf p s] by (fastforce simp: vc)
qed

subsection \<open>The whole head\<close>

text \<open>\<open>n\<close> calls of \<^const>\<open>http_parse\<close> in a row, and the tokens they return.\<close>

fun parse_tokens ::
  "nat \<Rightarrow> platform \<Rightarrow> http_parser \<Rightarrow> hs_stream \<Rightarrow> (http_token list \<times> http_parser \<times> hs_stream) option" where
  "parse_tokens 0 pf p s = Some ([], p, s)"
| "parse_tokens (Suc n) pf p s = do {
     (p, s, t) \<leftarrow> http_parse pf p s;
     (ts, p, s) \<leftarrow> parse_tokens n pf p s;
     Some (t # ts, p, s)
   }"

lemma parse_tokens_append:
  "parse_tokens m pf p s = Some (ts, p1, s1) \<Longrightarrow> parse_tokens n pf p1 s1 = Some (us, p2, s2) \<Longrightarrow>
   parse_tokens (m + n) pf p s = Some (ts @ us, p2, s2)"
  by (induction m arbitrary: p s ts) (auto simp: bind_eq_Some_conv)

definition render_header :: "string \<times> string \<Rightarrow> string" where
  "render_header kv = fst kv @ '': '' @ snd kv @ CRLF"

definition render_head :: "string \<Rightarrow> string \<Rightarrow> string \<Rightarrow> (string \<times> string) list \<Rightarrow> string" where
  "render_head m u w hs = m @ '' '' @ u @ '' '' @ w @ CRLF @ concat (map render_header hs) @ CRLF"

text \<open>The same bytes, each header led by the line feed before it and without its own.\<close>

definition shifted :: "(string \<times> string) list \<Rightarrow> string" where
  "shifted hs = concat (map (\<lambda>(k, v). CHR 0x0A # k @ '': '' @ v @ [CHR 0x0D]) hs)"

lemma render_header_pair: "render_header (k, v) = k @ CHR '':'' # CHR '' '' # v @ [CHR 0x0D, CHR 0x0A]"
  by (simp add: render_header_def CRLF_def)

lemma shifted_eq: "CRLF @ concat (map render_header hs) @ CRLF = CHR 0x0D # shifted hs @ CHR 0x0A # CRLF"
proof (induction hs)
  case Nil
  then show ?case by (simp add: shifted_def CRLF_def)
next
  case (Cons kv hs)
  then have "CHR 0x0A # concat (map render_header hs) @ CRLF = shifted hs @ CHR 0x0A # CRLF"
    by (simp add: CRLF_def)
  then show ?case
    by (cases kv) (simp add: shifted_def CRLF_def render_header_pair)
qed

fun header_tokens :: "nat \<Rightarrow> (string \<times> string) list \<Rightarrow> http_token list" where
  "header_tokens i [] = []"
| "header_tokens i ((k, v) # hs) =
     tok HS_TOK_HEADER_KEY (i + 1) k # tok HS_TOK_HEADER_VAL (i + length k + 3) v #
     header_tokens (i + length k + length v + 4) hs"

definition framing_of :: "(string \<times> string) list \<Rightarrow> framing" where
  "framing_of hs = foldl header_framing Unframed hs"

lemma parse_headers:
  assumes "cur s d i no_token" and "d = pre @ shifted hs @ rest" and "i = length pre"
    and "list_all header_ok hs" and "in_state p st (meta_of f) (length_of f) h" "st = RR \<or> st = HR"
    and "0 \<le> h" "h + int (length hs) \<le> 127"
  shows "\<exists>p' s'. parse_tokens (2 * length hs) pf p s = Some (header_tokens i hs, p', s') \<and>
    cur s' d (i + length (shifted hs)) no_token \<and>
    in_state p' (if hs = [] then st else HR) (meta_of (foldl header_framing f hs))
      (length_of (foldl header_framing f hs)) (h + int (length hs))"
  using assms
proof (induction hs arbitrary: s i pre p st f h)
  case Nil
  then show ?case by (simp add: shifted_def)
next
  case (Cons kv hs)
  obtain k v where kv: "kv = (k, v)" by fastforce
  have ok: "key_ok k" "value_ok v" "length k < 32767" "length v < 32767"
    using Cons.prems(4) by (auto simp: kv header_ok_def)
  have d1: "d = pre @ CHR 0x0A # k @ CHR '':'' # (CHR '' '' # v @ CHR 0x0D # shifted hs @ rest)"
    using Cons.prems(2) by (simp add: kv shifted_def)
  obtain p1 s1 where 1: "http_parse pf p s = Some (p1, s1, tok HS_TOK_HEADER_KEY (i + 1) k)"
    "cur s1 d (i + length k + 2) no_token" "in_state p1 HS (value_meta f k) (length_of f) (h + 1)"
    using parse_key [where pf = pf, OF Cons.prems(1) d1 Cons.prems(3) ok(1,3) Cons.prems(5,6,7)] Cons.prems(8) by auto
  have d2: "d = (pre @ CHR 0x0A # k @ '':'') @ CHR '' '' # v @ CHR 0x0D # (shifted hs @ rest)"
    using d1 by simp
  obtain p2 s2 where 2: "http_parse pf p1 s1 = Some (p2, s2, tok HS_TOK_HEADER_VAL (i + length k + 3) v)"
    "cur s2 d (i + length k + length v + 4) no_token"
    "in_state p2 HR (meta_of (header_framing f (k, v))) (length_of (header_framing f (k, v))) (h + 1)"
    using parse_value [where pf = pf, OF 1(2) d2 _ ok(2,4) 1(3)] Cons.prems(3)
    by (auto simp: ac_simps eval_nat_numeral)
  have d3: "d = (pre @ CHR 0x0A # k @ '': '' @ v @ [CHR 0x0D]) @ shifted hs @ rest" using d1 by simp
  obtain p3 s3 where 3: "parse_tokens (2 * length hs) pf p2 s2 =
      Some (header_tokens (i + length k + length v + 4) hs, p3, s3)"
    "cur s3 d (i + length k + length v + 4 + length (shifted hs)) no_token"
    "in_state p3 HR (meta_of (foldl header_framing f (kv # hs)))
      (length_of (foldl header_framing f (kv # hs))) (h + 1 + int (length hs))"
    using Cons.IH [OF 2(2) d3 _ _ 2(3)] Cons.prems by (auto simp: kv)
  have len: "length (shifted ((k, v) # hs)) = length k + length v + 4 + length (shifted hs)"
    by (simp add: shifted_def)
  show ?case using 1(1) 2(1) 3 by (simp add: kv len ac_simps)
qed

definition line_tokens :: "string \<Rightarrow> string \<Rightarrow> string \<Rightarrow> http_token list" where
  "line_tokens m u w = [tok HS_TOK_METHOD 0 m, tok HS_TOK_TARGET (length m + 1) u,
     tok HS_TOK_VERSION (length m + length u + 2) w]"

definition head_ok :: "string \<Rightarrow> string \<Rightarrow> string \<Rightarrow> (string \<times> string) list \<Rightarrow> bool" where
  "head_ok m u w hs \<longleftrightarrow> method_ok m \<and> target_ok u \<and> version_ok w \<and> list_all header_ok hs \<and>
     hs \<noteq> [] \<and> length hs \<le> 127"

lemma render_head_eq:
  "render_head m u w hs = m @ CHR '' '' # u @ CHR '' '' # w @ CHR 0x0D # shifted hs @ CHR 0x0A # CRLF"
  using shifted_eq [of hs] by (simp add: render_head_def)

lemma parse_head:
  assumes s: "cur s d 0 no_token" and d: "d = render_head m u w hs @ rest" and ok: "head_ok m u w hs"
  shows "\<exists>p s'. parse_tokens (3 + 2 * length hs) pf zero_parser s =
      Some (line_tokens m u w @ header_tokens (length m + length u + length w + 3) hs, p, s') \<and>
    cur s' d (length (render_head m u w hs) - 3) no_token \<and>
    in_state p HR (meta_of (framing_of hs)) (length_of (framing_of hs)) (int (length hs))"
proof -
  let ?tail = "shifted hs @ CHR 0x0A # CRLF @ rest"
  have ok': "method_ok m" "target_ok u" "version_ok w" "list_all header_ok hs" "hs \<noteq> []" "length hs \<le> 127"
    using ok by (auto simp: head_ok_def)
  have d1: "d = [] @ m @ CHR '' '' # (u @ CHR '' '' # w @ CHR 0x0D # ?tail)"
    using d by (simp add: render_head_eq)
  obtain p1 s1 where 1: "http_parse pf zero_parser s = Some (p1, s1, tok HS_TOK_METHOD 0 m)"
    "cur s1 d (length m + 1) no_token" "in_state p1 MS M_WFK 0 0"
    using parse_method [where pf = pf, OF s d1 _ ok'(1), of zero_parser]
    by (auto simp: zero_parser_def in_state_def)
  have d2: "d = (m @ '' '') @ u @ CHR '' '' # (w @ CHR 0x0D # ?tail)" using d1 by simp
  obtain p2 s2 where 2: "http_parse pf p1 s1 = Some (p2, s2, tok HS_TOK_TARGET (length m + 1) u)"
    "cur s2 d (length m + length u + 2) no_token" "in_state p2 TS M_WFK 0 0"
    using parse_target [where pf = pf, OF 1(2) d2 _ ok'(2), of p1] 1(3) by (auto simp: in_state_def)
  have d3: "d = (m @ '' '' @ u @ '' '') @ w @ CHR 0x0D # ?tail" using d1 by simp
  obtain p3 s3 where 3: "http_parse pf p2 s2 = Some (p3, s3, tok HS_TOK_VERSION (length m + length u + 2) w)"
    "cur s3 d (length m + length u + length w + 3) no_token" "in_state p3 RR M_ANY 0 0"
    using parse_version [where pf = pf, OF 2(2) d3 _ ok'(3), of p2] 2(3)
    by (auto simp: in_state_def eval_nat_numeral)
  have d4: "d = (m @ '' '' @ u @ '' '' @ w @ [CHR 0x0D]) @ ?tail" using d1 by simp
  obtain p4 s4 where 4: "parse_tokens (2 * length hs) pf p3 s3 =
      Some (header_tokens (length m + length u + length w + 3) hs, p4, s4)"
    "cur s4 d (length m + length u + length w + 3 + length (shifted hs)) no_token"
    "in_state p4 HR (meta_of (framing_of hs)) (length_of (framing_of hs)) (int (length hs))"
    using parse_headers [where pf = pf and f = Unframed and h = 0 and st = RR, OF 3(2) d4 _ ok'(4), of p3]
      3(3) ok'(5,6) by (auto simp: framing_of_def)
  have "parse_tokens 3 pf zero_parser s = Some (line_tokens m u w, p3, s3)"
    using 1(1) 2(1) 3(1) by (simp add: numeral_3_eq_3 line_tokens_def)
  note all = parse_tokens_append [OF this 4(1)]
  have pos: "length (render_head m u w hs) - 3 = length m + length u + length w + 3 + length (shifted hs)"
    by (simp add: render_head_eq CRLF_def)
  show ?thesis unfolding pos using all 4(2,3) by blast
qed

subsection \<open>The end of the headers and the body\<close>

lemma loop_blank_line:
  assumes s: "cur s d i no_token" and d: "d = pre @ CHR 0x0A # CRLF @ rest" and i: "i = length pre"
    and p: "in_state p HR m n h"
  shows "\<exists>p' s'. http_parse_loop pf p s = http_parse_loop pf p' s' \<and> cur s' d (i + 2) no_token \<and>
    in_state p' ER m n h"
proof -
  define p1 where "p1 = p\<lparr>p_state := HE, p_match_index := 0\<rparr>"
  define p2 where "p2 = p1\<lparr>p_state := ER, p_match_index := 0\<rparr>"
  have 1: "http_parse_step pf p s (CHR 0x0A) = Some (p1, hs_stream_consume s, no_token)" for s
    using step_move [of p "CHR 0x0A" HE pf s] p by (simp add: in_state_def p1_def table_entry_def)
  have 2: "http_parse_step pf p1 s (CHR 0x0D) = Some (p2, hs_stream_consume s, no_token)" for s
    using step_move [of p1 "CHR 0x0D" ER pf s] by (simp add: p1_def p2_def table_entry_def)
  obtain s1 where s1: "http_parse_loop pf p s = http_parse_loop pf p1 s1" "cur s1 d (Suc i) no_token"
    using loop_skip [OF s d i 1] by blast
  obtain s2 where s2: "http_parse_loop pf p1 s1 = http_parse_loop pf p2 s2" "cur s2 d (Suc (Suc i)) no_token"
    using loop_skip [OF s1(2) _ _ 2, of "pre @ [CHR 0x0A]" "CHR 0x0A # rest"] d i by (auto simp: CRLF_def)
  have "in_state p2 ER m n h" using p by (simp add: p1_def p2_def in_state_def)
  then show ?thesis using s1 s2 by auto
qed

text \<open>The token that ends the headers, when there is one, and the meta state behind it.\<close>

definition no_body :: http_token where "no_body = no_token\<lparr>tok_type := HS_TOK_BODY\<rparr>"
definition stream_body :: http_token where "stream_body = no_token\<lparr>tok_type := HS_TOK_BODY_STREAM\<rparr>"
definition req_end :: http_token where "req_end = no_token\<lparr>tok_type := HS_TOK_REQ_END\<rparr>"

definition too_large :: "int \<Rightarrow> nat \<Rightarrow> bool" where
  "too_large n i \<longleftrightarrow> HTTP_MAX_REQUEST_BUF_SIZE - int i + 1 < n"

lemma end_headers_eq:
  assumes "in_state p HN (meta_of f) (length_of f) h" and "s_index s = int i"
  shows "\<exists>p'. hs_end_headers p s no_token = Some (p', s,
      case f of Unframed \<Rightarrow> no_body | Chunked \<Rightarrow> stream_body
        | Sized n \<Rightarrow> if too_large n i then stream_body else if n = 0 then no_body else no_token) \<and>
    in_state p' HN (case f of Unframed \<Rightarrow> M_END | Chunked \<Rightarrow> M_ZER
        | Sized n \<Rightarrow> if too_large n i then M_STR else if n = 0 then M_END else M_BDY) (length_of f) h"
  using assms
  by (cases f) (auto simp: hs_end_headers_def in_state_def hs_trigger_meta_def table_entry_def
      no_body_def stream_body_def too_large_def hs_stream_can_contain_def no_token_def)

text \<open>The last call of the head, up to the blank line.\<close>

lemma parse_blank_line:
  assumes s: "cur s d i no_token" and d: "d = pre @ CHR 0x0A # CRLF @ rest" and i: "i = length pre"
    and p: "in_state p HR (meta_of f) (length_of f) h"
  shows "\<exists>p' s'. cur s' d (i + 3) no_token \<and>
    in_state p' HN (case f of Unframed \<Rightarrow> M_END | Chunked \<Rightarrow> M_ZER
        | Sized n \<Rightarrow> if too_large n (i + 2) then M_STR else if n = 0 then M_END else M_BDY) (length_of f) h \<and>
    http_parse_loop pf p s =
      (case f of Unframed \<Rightarrow> Some (p', s', Some no_body) | Chunked \<Rightarrow> Some (p', s', Some stream_body)
        | Sized n \<Rightarrow> if too_large n (i + 2) then Some (p', s', Some stream_body)
            else if n = 0 then Some (p', s', Some no_body) else http_parse_loop pf p' s')"
proof -
  obtain p1 s1 where 1: "http_parse_loop pf p s = http_parse_loop pf p1 s1" "cur s1 d (i + 2) no_token"
    "in_state p1 ER (meta_of f) (length_of f) h"
    using loop_blank_line [where pf = pf, OF s d i p] by blast
  define q where "q = p1\<lparr>p_state := HN, p_match_index := 0\<rparr>"
  have q: "in_state q HN (meta_of f) (length_of f) h" using 1(3) by (simp add: q_def in_state_def)
  have "s_index (cleared s1) = int (i + 2)" using 1(2) by (simp add: cur_def)
  from end_headers_eq [OF q this] obtain p' where
    e: "hs_end_headers q (cleared s1) no_token = Some (p', cleared s1,
      case f of Unframed \<Rightarrow> no_body | Chunked \<Rightarrow> stream_body
        | Sized n \<Rightarrow> if too_large n (i + 2) then stream_body else if n = 0 then no_body else no_token)"
    and p': "in_state p' HN (case f of Unframed \<Rightarrow> M_END | Chunked \<Rightarrow> M_ZER
        | Sized n \<Rightarrow> if too_large n (i + 2) then M_STR else if n = 0 then M_END else M_BDY) (length_of f) h"
    by blast
  have tr: "hs_transitions (p_state p1) (ctype_of (CHR 0x0A)) = Some HN" "p_state p1 \<noteq> HN" "p_state p1 \<noteq> CS"
    using 1(3) by (auto simp: in_state_def table_entry_def)
  note step = step_end_headers [OF tr e [unfolded q_def], of pf]
  have d2: "d = (pre @ [CHR 0x0A, CHR 0x0D]) @ CHR 0x0A # rest" using d by (simp add: CRLF_def)
  note l = loop_char [OF 1(2) d2 _ step]
  have c: "cur (hs_stream_consume (cleared s1)) d (i + 3) no_token"
    using cur_plain [OF 1(2)] d2 i by (simp add: eval_nat_numeral)
  show ?thesis using 1(1) l c p' i
    by (intro exI [of _ p'] exI [of _ "hs_stream_consume (cleared s1)"])
       (auto simp: no_body_def stream_body_def no_token_def split: framing.splits)
qed

text \<open>A body of known length that has arrived in full is one token.\<close>

lemma parse_body:
  assumes s: "cur s d i no_token" and d: "d = pre @ b @ rest" and i: "i = length pre"
    and b: "b \<noteq> []" and p: "in_state p HN M_BDY (int (length b)) h"
  shows "\<exists>p' s'. http_parse_loop pf p s = Some (p', s', Some (tok HS_TOK_BODY i b)) \<and>
    p_meta p' = M_END \<and> cur s' d (i + length b) no_token"
proof -
  obtain c cs where bc: "b = c # cs" using b by (cases b) auto
  have bd: "i + length b \<le> length d" "length d \<le> 8388608" using d i cur_bound [OF s] by auto
  define s0 where "s0 = hs_stream_begin_token (hs_stream_anchor (cleared s)) HS_TOK_BODY"
  define s1 where "s1 = s0\<lparr>s_flags := HTTP_FLAG_SET (s_flags s0) HS_SF_CONSUMED,
    s_index := int (i + length b), s_token := no_token\<rparr>"
  define p' where "p' = p\<lparr>p_state := BD, p_match_index := 0, p_meta := M_END,
    p_content_length := 0, p_body_consumed := 0\<rparr>"
  have jump: "hs_stream_jump s0 (int (length b)) =
      (True, s1\<lparr>s_token := tok HS_TOK_BODY i b\<rparr>)"
    using s bd cur_length [OF s]
    by (simp add: hs_stream_jump_def s0_def s1_def Let_def cur_def hs_stream_begin_token_def
        hs_stream_anchor_def grow_token_def tok_def no_token_def)
  have body: "hs_body (p\<lparr>p_state := BD, p_match_index := 0\<rparr>) s0 BD no_token =
      Some (p', s1, tok HS_TOK_BODY i b)"
    using p bd jump by (simp add: hs_body_def in_state_def hs_stream_emit_def hs_trigger_meta_def
        table_entry_def p'_def s1_def)
  have cons: "hs_stream_consume s1 = s1"
    by (rule consume_noop) (simp add: s1_def flag_simps HS_SF_CONSUMED_def)
  have tr: "hs_transitions (p_state p) (ctype_of c) = Some BD"
    using p head_transition [of HN c] by (auto simp: in_state_def)
  have step: "http_parse_step pf p (cleared s) c = Some (p', s1, tok HS_TOK_BODY i b)"
    using p tr body cons
    by (simp add: step_defs in_state_def s0_def [symmetric] del: table_lookup)
  have "cur s1 d (i + length b) no_token"
    using s bd cur_length [OF s]
    by (simp add: s1_def s0_def cur_def buffer_wf_def hs_stream_begin_token_def hs_stream_anchor_def s_data_def)
  then show ?thesis
    using loop_char [OF s _ i step, of "cs @ rest"] d by (simp add: bc p'_def tok_def)
qed

text \<open>What follows the headers in the token list.\<close>

definition body_tokens :: "nat \<Rightarrow> framing \<Rightarrow> string \<Rightarrow> http_token list" where
  "body_tokens i f b = (case f of
     Sized n \<Rightarrow> [if n = 0 then no_body else tok HS_TOK_BODY i b, req_end]
   | Unframed \<Rightarrow> [no_body, req_end]
   | Chunked \<Rightarrow> [stream_body])"

definition body_ok :: "framing \<Rightarrow> string \<Rightarrow> bool" where
  "body_ok f b \<longleftrightarrow> f \<noteq> Chunked \<and> length_of f = int (length b)"

lemma parse_tail:
  assumes s: "cur s d i no_token" and d: "d = pre @ CHR 0x0A # CRLF @ b @ rest" and i: "i = length pre"
    and p: "in_state p HR (meta_of f) (length_of f) h" and b: "body_ok f b"
  shows "\<exists>s'. parse_tokens 2 pf p s = Some (body_tokens (i + 3) f b, zero_parser, s') \<and>
    cur s' d (i + 3 + length b) no_token"
proof -
  have fits: "\<not> too_large (length_of f) (i + 2)"
    using b d i cur_bound [OF s] by (auto simp: body_ok_def too_large_def CRLF_def stream_consts)
  obtain p1 s1 where c1: "cur s1 d (i + 3) no_token" and
    st: "in_state p1 HN (case f of Unframed \<Rightarrow> M_END | Chunked \<Rightarrow> M_ZER
        | Sized n \<Rightarrow> if too_large n (i + 2) then M_STR else if n = 0 then M_END else M_BDY) (length_of f) h" and
    l1: "http_parse_loop pf p s =
      (case f of Unframed \<Rightarrow> Some (p1, s1, Some no_body) | Chunked \<Rightarrow> Some (p1, s1, Some stream_body)
        | Sized n \<Rightarrow> if too_large n (i + 2) then Some (p1, s1, Some stream_body)
            else if n = 0 then Some (p1, s1, Some no_body) else http_parse_loop pf p1 s1)"
    using parse_blank_line [where pf = pf, OF s d i p] by blast
  have "\<exists>p2 s2 t. http_parse_loop pf p s = Some (p2, s2, Some t) \<and> body_tokens (i + 3) f b = [t, req_end] \<and>
      p_meta p2 = M_END \<and> cur s2 d (i + 3 + length b) no_token"
  proof (cases "b = []")
    case True
    then show ?thesis using b l1 st c1 fits
      by (cases f) (auto simp: body_ok_def body_tokens_def in_state_def)
  next
    case False
    then obtain n where f: "f = Sized n" "n = int (length b)" using b by (cases f) (auto simp: body_ok_def)
    have st': "in_state p1 HN M_BDY (int (length b)) h" using st f fits False by simp
    have d': "d = (pre @ CHR 0x0A # CRLF) @ b @ rest" using d by simp
    have i': "i + 3 = length (pre @ CHR 0x0A # CRLF)" using i by (simp add: CRLF_def)
    obtain p2 s2 where "http_parse_loop pf p1 s1 = Some (p2, s2, Some (tok HS_TOK_BODY (i + 3) b))"
      "p_meta p2 = M_END" "cur s2 d (i + 3 + length b) no_token"
      using parse_body [where pf = pf, OF c1 d' i' False st'] by blast
    then show ?thesis using l1 f fits False by (auto simp: body_tokens_def)
  qed
  then obtain p2 s2 t where 2: "http_parse_loop pf p s = Some (p2, s2, Some t)"
    "body_tokens (i + 3) f b = [t, req_end]" "p_meta p2 = M_END" "cur s2 d (i + 3 + length b) no_token" by blast
  have "p_meta p \<notin> {M_SEN, M_END}" using p by (cases f) (auto simp: in_state_def)
  then have "http_parse pf p s = Some (p2, s2, t)" by (rule http_parse_emits [OF 2(1)])
  moreover have "http_parse pf p2 s2 = Some (zero_parser, s2, req_end)"
    using 2(3) by (simp add: http_parse_def hs_meta_emit_def req_end_def)
  ultimately show ?thesis using 2 by (simp add: numeral_2_eq_2)
qed

text \<open>
  C3: a request is parsed into exactly its parts. For every well-formed request line, one to
  127 headers and a body whose length the headers announce (as the parser reads them), all
  in the buffer, the calls of \<open>http_parse\<close> return, in order and with their places in the
  buffer, the method, the target, the version, every key and value, the body and the end of
  the request; the cursor is then at the first byte behind the request and the parser is
  reset.
\<close>

theorem request_roundtrip:
  assumes "head_ok m u w hs" and "body_ok (framing_of hs) b"
    and "cur s (render_head m u w hs @ b @ rest) 0 no_token"
  shows "\<exists>s'. parse_tokens (3 + 2 * length hs + 2) pf zero_parser s =
      Some (line_tokens m u w @ header_tokens (length m + length u + length w + 3) hs @
              body_tokens (length (render_head m u w hs)) (framing_of hs) b, zero_parser, s') \<and>
    cur s' (render_head m u w hs @ b @ rest) (length (render_head m u w hs @ b)) no_token"
proof -
  let ?r = "render_head m u w hs" and ?f = "framing_of hs"
  obtain p1 s1 where 1: "parse_tokens (3 + 2 * length hs) pf zero_parser s =
      Some (line_tokens m u w @ header_tokens (length m + length u + length w + 3) hs, p1, s1)"
    "cur s1 (?r @ b @ rest) (length ?r - 3) no_token"
    "in_state p1 HR (meta_of ?f) (length_of ?f) (int (length hs))"
    using parse_head [where pf = pf, OF assms(3) refl assms(1)] by blast
  have d: "?r @ b @ rest = (m @ '' '' @ u @ '' '' @ w @ CHR 0x0D # shifted hs) @ CHR 0x0A # CRLF @ b @ rest"
    by (simp add: render_head_eq)
  have r3: "length ?r - 3 + 3 = length ?r" by (simp add: render_head_eq CRLF_def)
  obtain s2 where 2: "parse_tokens 2 pf p1 s1 = Some (body_tokens (length ?r) ?f b, zero_parser, s2)"
    "cur s2 (?r @ b @ rest) (length ?r + length b) no_token"
    using parse_tail [where pf = pf, OF 1(2) d _ 1(3) assms(2)] unfolding r3
    by (auto simp: render_head_eq CRLF_def)
  show ?thesis using parse_tokens_append [OF 1(1) 2(1)] 2(2) by simp
qed

lemma stream_of_cur: "str \<noteq> [] \<Longrightarrow> length str \<le> 8388608 \<Longrightarrow> cur (stream_of str) str 0 no_token"
  by (simp add: cur_def stream_of_def buffer_wf_def block_wf_def empty_stream_def s_data_def data_of_def stream_consts)

lemmas grammar_defs = head_ok_def method_ok_def target_ok_def version_ok_def header_ok_def key_ok_def
  value_ok_def tchar_def vchar_def value_char_def ctype_of_def schar_def cnum_def hs_ctype_def

lemma stream_of_cur_short: "str \<noteq> [] \<Longrightarrow> length str < 60 \<Longrightarrow> cur (stream_of str) str 0 no_token"
  by (rule stream_of_cur) simp_all

lemma demo_length: "length (render_head ''POST'' ''/control'' ''HTTP/1.1'' [(''Content-Length'', ''2'')] @ ''hi'' @ ''GET'') < 60"
  by (simp add: render_head_def render_header_def CRLF_def)

lemma demo_nonempty: "render_head ''POST'' ''/control'' ''HTTP/1.1'' [(''Content-Length'', ''2'')] @ ''hi'' @ ''GET'' \<noteq> []"
  by simp

lemma demo_head: "head_ok ''POST'' ''/control'' ''HTTP/1.1'' [(''Content-Length'', ''2'')]"
proof -
  have "method_ok ''POST''" "target_ok ''/control''" "version_ok ''HTTP/1.1''"
    "key_ok ''Content-Length''" "value_ok ''2''" by code_simp+
  then show ?thesis by (simp add: head_ok_def header_ok_def)
qed

lemma demo_body: "body_ok (framing_of [(''Content-Length'', ''2'')]) ''hi''"
  by code_simp

theorem request_roundtrip_witness:
  "\<exists>s'. parse_tokens (3 + 2 * length [(''Content-Length'', ''2'')] + 2) demo_platform zero_parser
      (stream_of (render_head ''POST'' ''/control'' ''HTTP/1.1'' [(''Content-Length'', ''2'')] @ ''hi'' @ ''GET'')) =
      Some (line_tokens ''POST'' ''/control'' ''HTTP/1.1'' @
              header_tokens (length ''POST'' + length ''/control'' + length ''HTTP/1.1'' + 3) [(''Content-Length'', ''2'')] @
              body_tokens (length (render_head ''POST'' ''/control'' ''HTTP/1.1'' [(''Content-Length'', ''2'')]))
                (framing_of [(''Content-Length'', ''2'')]) ''hi'', zero_parser, s') \<and>
    cur s' (render_head ''POST'' ''/control'' ''HTTP/1.1'' [(''Content-Length'', ''2'')] @ ''hi'' @ ''GET'')
      (length (render_head ''POST'' ''/control'' ''HTTP/1.1'' [(''Content-Length'', ''2'')] @ ''hi'')) no_token"
proof (rule request_roundtrip)
  show "head_ok ''POST'' ''/control'' ''HTTP/1.1'' [(''Content-Length'', ''2'')]"
    by (rule demo_head)
  show "body_ok (framing_of [(''Content-Length'', ''2'')]) ''hi''" by (rule demo_body)
  show "cur (stream_of (render_head ''POST'' ''/control'' ''HTTP/1.1'' [(''Content-Length'', ''2'')] @ ''hi'' @ ''GET''))
      (render_head ''POST'' ''/control'' ''HTTP/1.1'' [(''Content-Length'', ''2'')] @ ''hi'' @ ''GET'') 0 no_token"
    using stream_of_cur_short [OF demo_nonempty demo_length] .
qed

subsection \<open>A well-formed head keeps to the grammar\<close>

lemma in_grammar_run:
  assumes "list_all (\<lambda>c. hs_transitions st (ctype_of c) = Some st) cs" "st \<noteq> BR"
  shows "in_grammar st (cs @ r) = in_grammar st r"
  using assms by (induction cs) (auto simp: in_grammar_step simp del: in_grammar.simps table_lookup)

lemma in_grammar_field:
  assumes "hs_transitions st (ctype_of c) = Some to" "list_all (\<lambda>c. hs_transitions to (ctype_of c) = Some to) cs"
    "hs_transitions to (ctype_of e) = Some st'" "to \<noteq> BR" "st' \<noteq> BR"
  shows "in_grammar st ((c # cs) @ e # r) = in_grammar st' r"
  using assms in_grammar_run [of to cs "e # r"] in_grammar_step [OF assms(1), of "cs @ e # r"] in_grammar_step [OF assms(3), of r]
  by (simp del: in_grammar.simps table_lookup)

lemma table_char:
  "tchar c \<Longrightarrow> hs_transitions MT (ctype_of c) = Some MT" "vchar c \<Longrightarrow> hs_transitions MS (ctype_of c) = Some TR"
  "tchar c \<Longrightarrow> ctype_of c \<noteq> HS_DIGIT \<Longrightarrow> hs_transitions ST (ctype_of c) = Some MT"
  "vchar c \<or> ctype_of c \<in> {HS_COLN, HS_SCOLN} \<Longrightarrow> hs_transitions TR (ctype_of c) = Some TR"
  "vchar c \<Longrightarrow> hs_transitions TS (ctype_of c) = Some VN" "vchar c \<Longrightarrow> hs_transitions VN (ctype_of c) = Some VN"
  "tchar c \<Longrightarrow> st \<in> {RN, HK, HE} \<Longrightarrow> hs_transitions st (ctype_of c) = Some HK"
  "value_char c \<Longrightarrow> hs_transitions HV (ctype_of c) = Some HV"
  "value_char c \<Longrightarrow> ctype_of c \<notin> {HS_SPC, HS_TAB} \<Longrightarrow> hs_transitions HS (ctype_of c) = Some HV"
  by (cases "ctype_of c"; auto simp: tchar_def vchar_def value_char_def table_entry_def)+

lemma table_control:
  "hs_transitions MT (ctype_of (CHR '' '')) = Some MS" "hs_transitions TR (ctype_of (CHR '' '')) = Some TS"
  "hs_transitions VN (ctype_of (CHR 0x0D)) = Some RR" "hs_transitions RR (ctype_of (CHR 0x0A)) = Some RN"
  "hs_transitions HK (ctype_of (CHR '':'')) = Some HS" "hs_transitions HS (ctype_of (CHR '' '')) = Some HS"
  "hs_transitions HV (ctype_of (CHR 0x0D)) = Some HR" "hs_transitions HR (ctype_of (CHR 0x0A)) = Some HE"
  "hs_transitions HE (ctype_of (CHR 0x0D)) = Some ER" "hs_transitions ER (ctype_of (CHR 0x0A)) = Some HN"
  by (simp_all add: table_entry_def)

lemmas in_grammar_control = table_control [THEN in_grammar_step]

lemma header_in_grammar:
  assumes "header_ok kv" "st \<in> {RN, HE}"
  shows "in_grammar st (render_header kv @ r) = in_grammar HE r"
proof -
  obtain k v where kv: "kv = (k, v)" by fastforce
  obtain c cs d ds where k: "k = c # cs" and v: "v = d # ds"
    using assms(1) unfolding kv header_ok_def key_ok_def value_ok_def by (cases k; cases v) auto
  have kc: "tchar c" "list_all tchar cs" and vc: "value_char d" "ctype_of d \<notin> {HS_SPC, HS_TAB}" "list_all value_char ds"
    using assms(1) unfolding kv k v header_ok_def key_ok_def value_ok_def by auto
  have 1: "in_grammar st ((c # cs) @ CHR '':'' # x) = in_grammar HS x" for x
    by (rule in_grammar_field [OF table_char(7) [OF kc(1)] _ table_control(5)])
       (use assms(2) kc(2) table_char(7) in \<open>auto simp: list_all_iff simp del: table_lookup\<close>)
  have 2: "in_grammar HS ((d # ds) @ CHR 0x0D # x) = in_grammar HR x" for x
    by (rule in_grammar_field [OF table_char(9) [OF vc(1,2)] _ table_control(7)])
       (use vc(3) table_char(8) in \<open>auto simp: list_all_iff simp del: table_lookup\<close>)
  have "render_header kv @ r = (c # cs) @ CHR '':'' # CHR '' '' # (d # ds) @ CHR 0x0D # CHR 0x0A # r"
    by (simp add: render_header_def kv k v CRLF_def)
  then show ?thesis
    by (simp only: 1 2 in_grammar_control) simp
qed

lemma headers_in_grammar:
  assumes "list_all header_ok hs" "hs \<noteq> []" "st \<in> {RN, HE}"
  shows "in_grammar st (concat (map render_header hs) @ r) = in_grammar HE r"
  using assms
proof (induction hs arbitrary: st)
  case Nil
  then show ?case by simp
next
  case (Cons kv hs)
  have "in_grammar st (render_header kv @ concat (map render_header hs) @ r) = in_grammar HE (concat (map render_header hs) @ r)"
    by (rule header_in_grammar) (use Cons.prems in auto)
  then show ?case using Cons by (cases "hs = []") (auto simp del: in_grammar.simps)
qed

lemma head_in_grammar:
  assumes "head_ok m u w hs"
  shows "in_grammar ST (render_head m u w hs @ b)"
proof -
  obtain c cs d ds e es where m: "m = c # cs" and u: "u = d # ds" and w: "w = e # es"
    using assms unfolding head_ok_def method_ok_def target_ok_def version_ok_def by (cases m; cases u; cases w) auto
  have cc: "tchar c" "ctype_of c \<noteq> HS_DIGIT" "list_all tchar cs" and dc: "vchar d" "list_all (\<lambda>c. vchar c \<or> ctype_of c \<in> {HS_COLN, HS_SCOLN}) ds"
    and ec: "vchar e" "list_all vchar es" and hs: "list_all header_ok hs" "hs \<noteq> []"
    using assms unfolding m u w head_ok_def method_ok_def target_ok_def version_ok_def by (auto simp: list_all_iff)
  have 1: "in_grammar ST ((c # cs) @ CHR '' '' # x) = in_grammar MS x" for x
    by (rule in_grammar_field [OF table_char(3) [OF cc(1,2)] _ table_control(1)])
       (use cc(3) table_char(1) in \<open>auto simp: list_all_iff simp del: table_lookup\<close>)
  have 2: "in_grammar MS ((d # ds) @ CHR '' '' # x) = in_grammar TS x" for x
    by (rule in_grammar_field [OF table_char(2) [OF dc(1)] _ table_control(2)])
       (use dc(2) table_char(4) in \<open>auto simp: list_all_iff simp del: table_lookup\<close>)
  have 3: "in_grammar TS ((e # es) @ CHR 0x0D # x) = in_grammar RR x" for x
    by (rule in_grammar_field [OF table_char(5) [OF ec(1)] _ table_control(3)])
       (use ec(2) table_char(6) in \<open>auto simp: list_all_iff simp del: table_lookup\<close>)
  have "render_head m u w hs @ b = (c # cs) @ CHR '' '' # (d # ds) @ CHR '' '' # (e # es) @ CHR 0x0D # CHR 0x0A #
      concat (map render_header hs) @ CHR 0x0D # CHR 0x0A # b"
    by (simp add: render_head_def m u w CRLF_def)
  then show ?thesis
    by (simp only: 1 2 3 in_grammar_control headers_in_grammar [OF hs insertI1]) simp
qed

end
