(* ===== verification/Growing_Array.thy ===== *)
theory Growing_Array
  imports Prelude "HOL-Library.Monad_Syntax"
begin

section \<open>The interface of an array that grows by reallocation\<close>

text \<open>
  Two parts of the program keep a buffer, its capacity and a fill count, and double or
  extend the buffer when an element is appended at the end: the token array of a request
  (\<open>http_token_dyn_t\<close>) and the array list of the logging library (\<open>zc_arraylist_t\<close>).
  What their clients rely on is stated here once: an append at the end succeeds while there
  are fewer than \<open>limit\<close> elements, keeps the invariant and puts the element last.
\<close>

primrec push_all :: "('e \<Rightarrow> 'd \<Rightarrow> 'd option) \<Rightarrow> 'e list \<Rightarrow> 'd \<Rightarrow> 'd option" where
  "push_all push [] d = Some d"
| "push_all push (x # xs) d = do { d \<leftarrow> push x d; push_all push xs d }"

lemma push_all_append:
  "push_all push (xs @ ys) d = do { d \<leftarrow> push_all push xs d; push_all push ys d }"
  by (induction xs arbitrary: d) (auto split: bind_split)

locale growing_array =
  fixes push :: "'e \<Rightarrow> 'd \<Rightarrow> 'd option"
    and items :: "'d \<Rightarrow> 'e list"
    and inv :: "'d \<Rightarrow> bool"
    and limit :: nat
  assumes push_ok: "inv d \<Longrightarrow> length (items d) < limit \<Longrightarrow>
    \<exists>d'. push x d = Some d' \<and> inv d' \<and> items d' = items d @ [x]"
begin

lemma push_all_ok:
  "inv d \<Longrightarrow> length (items d) + length xs \<le> limit \<Longrightarrow>
    \<exists>d'. push_all push xs d = Some d' \<and> inv d' \<and> items d' = items d @ xs"
proof (induction xs arbitrary: d)
  case Nil
  then show ?case by simp
next
  case (Cons x xs)
  then obtain d1 where 1: "push x d = Some d1" "inv d1" "items d1 = items d @ [x]"
    using push_ok [of d x] by auto
  show ?case using Cons.IH [OF 1(2)] Cons.prems 1 by auto
qed

lemma push_inv: "inv d \<Longrightarrow> length (items d) < limit \<Longrightarrow> push x d = Some d' \<Longrightarrow> inv d'"
  using push_ok [of d x] by auto

lemma push_items: "inv d \<Longrightarrow> length (items d) < limit \<Longrightarrow> push x d = Some d' \<Longrightarrow> items d' = items d @ [x]"
  using push_ok [of d x] by auto

end

end
