(* ===== verification/Http_Request.thy ===== *)
theory Http_Request
  imports Http_Roundtrip Growing_Array
begin

section \<open>Requests: the token array and what the application asks of it\<close>

text \<open>
  The request of \<open>src/http.h\<close> (\<open>http_request_t\<close>), its token array (\<open>http_token_dyn_t\<close>)
  and the accessors the application calls. A string handed to the application
  (\<open>http_string_t\<close>) points into the stream's buffer: it is the offset there, \<^const>\<open>None\<close>
  for a null pointer, and a length. Reading outside the token array or the buffer is
  \<^const>\<open>None\<close>.
\<close>

subsection \<open>The token array\<close>

record http_token_dyn =
  td_buf :: "http_token list option"
  td_capacity :: int
  td_size :: int

definition http_token_dyn_init :: "platform \<Rightarrow> int \<Rightarrow> http_token_dyn" where
  "http_token_dyn_init pf capacity =
     \<lparr>td_buf = Some (map (stray_token pf) [0 ..< nat capacity]), td_capacity = capacity, td_size = 0\<rparr>"

definition http_token_dyn_push :: "platform \<Rightarrow> http_token \<Rightarrow> http_token_dyn \<Rightarrow> http_token_dyn option" where
  "http_token_dyn_push pf a dyn = do {
     let dyn = (if td_size dyn = td_capacity dyn then
                  let c = i32 (td_capacity dyn * 2) in
                  dyn\<lparr>td_capacity := c,
                      td_buf := Some (block_realloc (stray_token pf) (case td_buf dyn of None \<Rightarrow> [] | Some b \<Rightarrow> b) (nat c))\<rparr>
                else dyn);
     b \<leftarrow> td_buf dyn;
     b \<leftarrow> block_write b (td_size dyn) [a];
     Some (dyn\<lparr>td_buf := Some b, td_size := i32 (td_size dyn + 1)\<rparr>)
   }"

definition dyn_wf :: "http_token_dyn \<Rightarrow> bool" where
  "dyn_wf dyn \<longleftrightarrow> (case td_buf dyn of None \<Rightarrow> False | Some b \<Rightarrow>
     int (length b) = td_capacity dyn \<and> 0 < td_capacity dyn \<and> td_capacity dyn \<le> 2147483647 \<and>
     0 \<le> td_size dyn \<and> td_size dyn \<le> td_capacity dyn)"

definition dyn_items :: "http_token_dyn \<Rightarrow> http_token list" where
  "dyn_items dyn = (case td_buf dyn of None \<Rightarrow> [] | Some b \<Rightarrow> take (nat (td_size dyn)) b)"

lemma dyn_push_ok:
  assumes "dyn_wf dyn" and "length (dyn_items dyn) < 1073741824"
  shows "\<exists>d'. http_token_dyn_push pf a dyn = Some d' \<and> dyn_wf d' \<and> dyn_items d' = dyn_items dyn @ [a]"
proof -
  obtain b where b: "td_buf dyn = Some b" "int (length b) = td_capacity dyn" "0 < td_capacity dyn"
    "td_capacity dyn \<le> 2147483647" "0 \<le> td_size dyn" "td_size dyn \<le> td_capacity dyn"
    using assms(1) by (auto simp: dyn_wf_def split: option.splits)
  have lim: "td_size dyn < 1073741824"
    using assms(2) b by (simp add: dyn_items_def min_def split: if_splits)
  define n where "n = nat (td_size dyn)"
  have n: "td_size dyn = int n" using b by (simp add: n_def)
  define c where "c = (if td_size dyn = td_capacity dyn then td_capacity dyn * 2 else td_capacity dyn)"
  define g where "g = (if td_size dyn = td_capacity dyn then block_realloc (stray_token pf) b (nat c) else b)"
  have c: "c \<le> 2147483647" "n < nat c" "length g = nat c" "take n g = take n b" "int (nat c) = c"
    using b lim n by (auto simp: c_def g_def take_block_realloc)
  have w: "block_write g (int n) [a] = Some (take n g @ [a] @ drop (Suc n) g)"
    using c by (simp add: block_write_def)
  have "http_token_dyn_push pf a dyn = Some (dyn\<lparr>td_capacity := c, td_buf := Some (take n g @ [a] @ drop (Suc n) g), td_size := int n + 1\<rparr>)"
    using b n w lim by (auto simp: http_token_dyn_push_def Let_def c_def g_def)
  moreover have "nat (int n + 1) = Suc n" by simp
  ultimately show ?thesis using b c n by (auto simp: dyn_wf_def dyn_items_def)
qed

interpretation tokens: growing_array "http_token_dyn_push pf" dyn_items dyn_wf 1073741824 for pf
  by unfold_locales (rule dyn_push_ok)

lemma dyn_init_wf [simp]: "0 < c \<Longrightarrow> c \<le> 2147483647 \<Longrightarrow> dyn_wf (http_token_dyn_init pf c)"
  "dyn_items (http_token_dyn_init pf c) = []"
  by (simp_all add: dyn_wf_def dyn_items_def http_token_dyn_init_def)

subsection \<open>The request\<close>

definition HTTP_END_SESSION :: flags where "HTTP_END_SESSION = 0x2"
definition HTTP_AUTOMATIC :: flags where "HTTP_AUTOMATIC = 0x8"
definition HTTP_CHUNKED_RESPONSE :: flags where "HTTP_CHUNKED_RESPONSE = 0x20"
definition HTTP_FLG_STREAMED :: flags where "HTTP_FLG_STREAMED = 0x1"
definition HTTP_KEEP_ALIVE :: flags where "HTTP_KEEP_ALIVE = 1"

lemmas request_flags = HTTP_END_SESSION_def HTTP_AUTOMATIC_def HTTP_CHUNKED_RESPONSE_def
  HTTP_FLG_STREAMED_def HTTP_KEEP_ALIVE_def

datatype session_state = HTTP_SESSION_INIT | HTTP_SESSION_READ | HTTP_SESSION_WRITE | HTTP_SESSION_NOP

text \<open>
  \<open>rq_chunk_cb\<close> and \<open>rq_data\<close> are addresses, \<^const>\<open>None\<close> for a null pointer; \<open>rq_conn\<close> is the
  connection behind the socket; \<open>rq_wants_write\<close> says what the event loop watches it for.
\<close>

record http_request =
  rq_stream :: hs_stream
  rq_parser :: http_parser
  rq_state :: session_state
  rq_timeout :: int
  rq_tokens :: http_token_dyn
  rq_flags :: flags
  rq_chunk_cb :: "nat option"
  rq_data :: "nat option"
  rq_conn :: conn
  rq_wants_write :: bool

record http_string =
  str_buf :: "int option"
  str_len :: int

definition null_string :: http_string where
  "null_string = \<lparr>str_buf = None, str_len = 0\<rparr>"

definition token_string :: "http_token \<Rightarrow> http_string" where
  "token_string t = \<lparr>str_buf = Some (tok_index t), str_len = tok_len t\<rparr>"

text \<open>The bytes of the buffer, none behind a null pointer, and the bytes of a string.\<close>

definition request_block :: "http_request \<Rightarrow> string" where
  "request_block rq = (case s_buf (rq_stream rq) of None \<Rightarrow> [] | Some b \<Rightarrow> b)"

definition string_text :: "string \<Rightarrow> http_string \<Rightarrow> string option" where
  "string_text b str = (case str_buf str of None \<Rightarrow> None | Some i \<Rightarrow>
     if 0 \<le> i \<and> 0 \<le> str_len str \<and> i + str_len str \<le> int (length b)
     then Some (slice b i (str_len str)) else None)"

subsection \<open>Finding tokens\<close>

fun http_find_token :: "http_token list \<Rightarrow> hs_token \<Rightarrow> int \<Rightarrow> nat \<Rightarrow> http_token option option" where
  "http_find_token b ty i 0 = Some None"
| "http_find_token b ty i (Suc n) = do {
     t \<leftarrow> block_read b i;
     if tok_type t = ty then Some (Some t) else http_find_token b ty (i + 1) n
   }"

definition http_get_token_string :: "http_request \<Rightarrow> hs_token \<Rightarrow> http_string option" where
  "http_get_token_string rq ty =
     (case td_buf (rq_tokens rq) of
        None \<Rightarrow> Some null_string
      | Some b \<Rightarrow> do {
          t \<leftarrow> http_find_token b ty 0 (nat (td_size (rq_tokens rq)));
          Some (case t of None \<Rightarrow> null_string | Some t \<Rightarrow> token_string t)
        })"

definition http_request_has_flag :: "http_request \<Rightarrow> flags \<Rightarrow> bool" where
  "http_request_has_flag rq f = HTTP_FLAG_CHECK (rq_flags rq) f"

fun hs_case_insensitive_cmp :: "string \<Rightarrow> int \<Rightarrow> string \<Rightarrow> int \<Rightarrow> nat \<Rightarrow> bool option" where
  "hs_case_insensitive_cmp a i b j 0 = Some True"
| "hs_case_insensitive_cmp a i b j (Suc n) = do {
     x \<leftarrow> block_read a i;
     y \<leftarrow> block_read b j;
     if lower x \<noteq> lower y then Some False else hs_case_insensitive_cmp a (i + 1) b (j + 1) n
   }"

definition http_request_method :: "http_request \<Rightarrow> http_string option" where
  "http_request_method rq = http_get_token_string rq HS_TOK_METHOD"

definition http_request_target :: "http_request \<Rightarrow> http_string option" where
  "http_request_target rq = http_get_token_string rq HS_TOK_TARGET"

definition http_request_body :: "http_request \<Rightarrow> http_string option" where
  "http_request_body rq = http_get_token_string rq HS_TOK_BODY"

text \<open>
  The headers in turn: the new position, and the key and value unless there are no more
  (a result of zero in the code).
\<close>

definition hs_assign_iteration_headers ::
  "http_request \<Rightarrow> int \<Rightarrow> (int \<times> (http_string \<times> http_string) option) option" where
  "hs_assign_iteration_headers rq iter = do {
     b \<leftarrow> td_buf (rq_tokens rq);
     t \<leftarrow> block_read b iter;
     if tok_type t = HS_TOK_BODY then Some (iter, None)
     else do {
       u \<leftarrow> block_read b (iter + 1);
       Some (iter + 1, Some (token_string t, token_string u))
     }
   }"

fun hs_first_header ::
  "http_request \<Rightarrow> http_token list \<Rightarrow> int \<Rightarrow> nat \<Rightarrow> (int \<times> (http_string \<times> http_string) option) option" where
  "hs_first_header rq b iter 0 = Some (iter, None)"
| "hs_first_header rq b iter (Suc n) = do {
     t \<leftarrow> block_read b iter;
     if tok_type t = HS_TOK_HEADER_KEY then hs_assign_iteration_headers rq iter
     else hs_first_header rq b (iter + 1) n
   }"

definition http_request_iterate_headers ::
  "http_request \<Rightarrow> int \<Rightarrow> (int \<times> (http_string \<times> http_string) option) option" where
  "http_request_iterate_headers rq iter =
     (if iter = 0 then
        hs_first_header rq (case td_buf (rq_tokens rq) of None \<Rightarrow> [] | Some b \<Rightarrow> b) 0 (nat (td_size (rq_tokens rq)))
      else hs_assign_iteration_headers rq (iter + 1))"

fun http_find_header :: "http_token list \<Rightarrow> string \<Rightarrow> string \<Rightarrow> int \<Rightarrow> nat \<Rightarrow> http_token option option" where
  "http_find_header b s key i 0 = Some None"
| "http_find_header b s key i (Suc n) = do {
     t \<leftarrow> block_read b i;
     same \<leftarrow> (if tok_type t = HS_TOK_HEADER_KEY \<and> tok_len t = int (length key)
              then hs_case_insensitive_cmp s (tok_index t) key 0 (length key) else Some False);
     if same then map_option Some (block_read b (i + 1)) else http_find_header b s key (i + 1) n
   }"

definition http_request_header :: "http_request \<Rightarrow> string \<Rightarrow> http_string option" where
  "http_request_header rq key = do {
     t \<leftarrow> http_find_header (case td_buf (rq_tokens rq) of None \<Rightarrow> [] | Some b \<Rightarrow> b)
           (request_block rq) key 0 (nat (td_size (rq_tokens rq)));
     Some (case t of None \<Rightarrow> null_string | Some t \<Rightarrow> token_string t)
   }"

definition http_request_set_userdata :: "nat option \<Rightarrow> http_request \<Rightarrow> http_request" where
  "http_request_set_userdata data rq = rq\<lparr>rq_data := data\<rparr>"

definition http_request_userdata :: "http_request \<Rightarrow> nat option" where
  "http_request_userdata rq = rq_data rq"

subsection \<open>Keep-alive\<close>

definition hs_auto_detect_keep_alive :: "http_request \<Rightarrow> http_request option" where
  "hs_auto_detect_keep_alive rq = do {
     str \<leftarrow> http_get_token_string rq HS_TOK_VERSION;
     case str_buf str of
       None \<Rightarrow> Some rq
     | Some i \<Rightarrow> do {
         c \<leftarrow> block_read (request_block rq) (i + str_len str - 1);
         str \<leftarrow> http_request_header rq ''Connection'';
         close \<leftarrow> (if str_len str = 5
                  then (case str_buf str of
                          None \<Rightarrow> None
                        | Some j \<Rightarrow> hs_case_insensitive_cmp (request_block rq) j ''close'' 0 5)
                  else Some False);
         Some (rq\<lparr>rq_flags :=
           (if close \<or> (str_len str = 0 \<and> c \<noteq> CHR ''1'') then HTTP_FLAG_CLEAR (rq_flags rq) HTTP_KEEP_ALIVE
            else HTTP_FLAG_SET (rq_flags rq) HTTP_KEEP_ALIVE)\<rparr>)
       }
   }"

definition http_request_connection :: "int \<Rightarrow> http_request \<Rightarrow> http_request" where
  "http_request_connection directive rq =
     (if directive = 1 then
        rq\<lparr>rq_flags := HTTP_FLAG_SET (HTTP_FLAG_CLEAR (rq_flags rq) HTTP_AUTOMATIC) HTTP_KEEP_ALIVE\<rparr>
      else if directive = 0 then
        rq\<lparr>rq_flags := HTTP_FLAG_CLEAR (HTTP_FLAG_CLEAR (rq_flags rq) HTTP_AUTOMATIC) HTTP_KEEP_ALIVE\<rparr>
      else rq)"

definition http_request_chunk :: "http_request \<Rightarrow> http_string option" where
  "http_request_chunk rq = do {
     b \<leftarrow> td_buf (rq_tokens rq);
     t \<leftarrow> block_read b (td_size (rq_tokens rq) - 1);
     Some (token_string t)
   }"

subsection \<open>What the accessors find after a request is parsed\<close>

lemma block_read_mid: "i = int (length pre) \<Longrightarrow> block_read (pre @ x # post) i = Some x"
  by (simp add: block_read_def)

lemma cmp_spec:
  assumes "i = int (length pre)" and "j = int (length pre')" and "length x = length y"
  shows "hs_case_insensitive_cmp (pre @ x @ post) i (pre' @ y @ post') j (length y) =
    Some (map lower x = map lower y)"
  using assms(3,1,2)
proof (induction x y arbitrary: pre pre' i j rule: list_induct2)
  case Nil
  then show ?case by simp
next
  case (Cons a x b y)
  have "hs_case_insensitive_cmp (pre @ (a # x) @ post) (i + 1) (pre' @ (b # y) @ post') (j + 1) (length y) =
    Some (map lower x = map lower y)"
    using Cons.IH [of "i + 1" "pre @ [a]" "j + 1" "pre' @ [b]"] Cons.prems by simp
  then show ?case using Cons.prems by (simp add: block_read_mid)
qed

text \<open>The requests an application sees: the tokens \<open>ts\<close> over the bytes \<open>d\<close>.\<close>

definition shows_tokens :: "http_request \<Rightarrow> http_token list \<Rightarrow> string \<Rightarrow> bool" where
  "shows_tokens rq ts d \<longleftrightarrow> dyn_wf (rq_tokens rq) \<and> dyn_items (rq_tokens rq) = ts \<and>
     buffer_wf (rq_stream rq) \<and> s_data (rq_stream rq) = d"

lemma shows_tokensD:
  assumes "shows_tokens rq ts d"
  obtains post junk' where "td_buf (rq_tokens rq) = Some (ts @ post)"
    "td_size (rq_tokens rq) = int (length ts)" "request_block rq = d @ junk'"
proof -
  obtain b where b: "td_buf (rq_tokens rq) = Some b" "ts = take (nat (td_size (rq_tokens rq))) b"
    "0 \<le> td_size (rq_tokens rq)" "td_size (rq_tokens rq) \<le> int (length b)"
    using assms by (auto simp: shows_tokens_def dyn_wf_def dyn_items_def split: option.splits)
  have 1: "td_buf (rq_tokens rq) = Some (ts @ drop (nat (td_size (rq_tokens rq))) b)"
    using b by simp
  have 2: "td_size (rq_tokens rq) = int (length ts)" using b by simp
  have 3: "request_block rq = d @ drop (nat (s_length (rq_stream rq))) (request_block rq)"
    using assms by (auto simp: shows_tokens_def request_block_def s_data_def data_of_def split: option.splits)
  show thesis by (rule that [OF 1 2 3])
qed

lemma find_token_spec:
  "i = int (length pre) \<Longrightarrow>
   http_find_token (pre @ ts @ post) ty i (length ts) = Some (find (\<lambda>t. tok_type t = ty) ts)"
proof (induction ts arbitrary: pre i)
  case Nil
  then show ?case by simp
next
  case (Cons t ts)
  then show ?case using Cons.IH [of "i + 1" "pre @ [t]"] by (simp add: block_read_mid)
qed

lemma dyn_wfD:
  assumes "dyn_wf dyn"
  obtains post where "td_buf dyn = Some (dyn_items dyn @ post)" "td_size dyn = int (length (dyn_items dyn))"
proof -
  obtain b where b: "td_buf dyn = Some b" "0 \<le> td_size dyn" "td_size dyn \<le> int (length b)"
    using assms by (auto simp: dyn_wf_def split: option.splits)
  then have "td_buf dyn = Some (dyn_items dyn @ drop (nat (td_size dyn)) b)"
    "td_size dyn = int (length (dyn_items dyn))" by (simp_all add: dyn_items_def)
  then show thesis by (rule that)
qed

lemma get_token_string_items:
  assumes "dyn_wf (rq_tokens rq)"
  shows "http_get_token_string rq ty = Some (case find (\<lambda>t. tok_type t = ty) (dyn_items (rq_tokens rq)) of
    None \<Rightarrow> null_string | Some t \<Rightarrow> token_string t)"
proof -
  obtain post where b: "td_buf (rq_tokens rq) = Some (dyn_items (rq_tokens rq) @ post)"
    "td_size (rq_tokens rq) = int (length (dyn_items (rq_tokens rq)))"
    using assms by (rule dyn_wfD)
  show ?thesis using find_token_spec [of 0 "[]" "dyn_items (rq_tokens rq)" post ty] b
    by (simp add: http_get_token_string_def)
qed

lemma get_token_string_spec:
  assumes "shows_tokens rq ts d"
  shows "http_get_token_string rq ty =
    Some (case find (\<lambda>t. tok_type t = ty) ts of None \<Rightarrow> null_string | Some t \<Rightarrow> token_string t)"
  using get_token_string_items [of rq ty] assms by (simp add: shows_tokens_def)

lemma string_text_token:
  "i = length pre \<Longrightarrow> string_text (pre @ x @ post) (token_string (tok ty i x)) = Some x"
  by (simp add: string_text_def token_string_def tok_def slice_def)

text \<open>The token of the value that belongs to a name, as a specification.\<close>

fun value_token :: "nat \<Rightarrow> (string \<times> string) list \<Rightarrow> string \<Rightarrow> http_token option" where
  "value_token i [] key = None"
| "value_token i ((k, v) # hs) key =
     (if map lower k = map lower key then Some (tok HS_TOK_HEADER_VAL (i + length k + 3) v)
      else value_token (i + length k + length v + 4) hs key)"

definition header_value :: "(string \<times> string) list \<Rightarrow> string \<Rightarrow> string option" where
  "header_value hs key = map_option snd (find (\<lambda>kv. map lower (fst kv) = map lower key) hs)"

lemma find_header_none:
  "i = int (length pre) \<Longrightarrow> list_all (\<lambda>t. tok_type t \<noteq> HS_TOK_HEADER_KEY) ts \<Longrightarrow>
   http_find_header (pre @ ts @ post) s key i (length ts + n) =
     http_find_header (pre @ ts @ post) s key (i + int (length ts)) n"
proof (induction ts arbitrary: pre i)
  case Nil
  then show ?case by simp
next
  case (Cons t ts)
  then show ?case using Cons.IH [of "i + 1" "pre @ [t]"] by (simp add: block_read_mid algebra_simps)
qed

lemma find_header_spec:
  assumes "d = dpre @ shifted hs @ dpost" and "i = length dpre" and "j = int (length pre)"
  shows "http_find_header (pre @ header_tokens i hs @ post) d key j (length (header_tokens i hs) + n) =
    (case value_token i hs key of Some t \<Rightarrow> Some (Some t)
     | None \<Rightarrow> http_find_header (pre @ header_tokens i hs @ post) d key (j + int (length (header_tokens i hs))) n)"
  using assms
proof (induction hs arbitrary: dpre i pre j)
  case Nil
  then show ?case by simp
next
  case (Cons kv hs)
  obtain k v where kv [simp]: "kv = (k, v)" by (cases kv)
  let ?i = "i + length k + length v + 4" and ?d = "dpre @ CHR 0x0A # k @ '': '' @ v @ [CHR 0x0D]"
  define tk where "tk = tok HS_TOK_HEADER_KEY (i + 1) k"
  define tv where "tv = tok HS_TOK_HEADER_VAL (i + length k + 3) v"
  define B where "B = pre @ header_tokens i (kv # hs) @ post"
  have B: "B = pre @ tk # tv # header_tokens ?i hs @ post"
    by (simp add: B_def tk_def tv_def)
  have len: "length (header_tokens i (kv # hs)) = Suc (Suc (length (header_tokens ?i hs)))"
    by simp
  have pr: "d = ?d @ shifted hs @ dpost" "?i = length ?d" "j + 2 = int (length (pre @ [tk, tv]))"
    using Cons.prems by (simp_all add: shifted_def)
  have ih: "http_find_header B d key (j + 2) (length (header_tokens ?i hs) + n) =
    (case value_token ?i hs key of Some t \<Rightarrow> Some (Some t)
     | None \<Rightarrow> http_find_header B d key (j + 2 + int (length (header_tokens ?i hs))) n)"
    using Cons.IH [OF pr] by (simp add: B cong: option.case_cong)
  have r1: "block_read B j = Some tk" and r2: "block_read B (j + 1) = Some tv"
    using block_read_mid [of j pre] block_read_mid [of "j + 1" "pre @ [tk]"] Cons.prems by (simp_all add: B)
  have ty: "tok_type tk = HS_TOK_HEADER_KEY" "tok_len tk = int (length k)" "tok_index tk = int i + 1"
    "tok_type tv = HS_TOK_HEADER_VAL" by (simp_all add: tk_def tv_def tok_def)
  have d: "d = (dpre @ [CHR 0x0A]) @ k @ (CHR '':'' # CHR '' '' # v @ CHR 0x0D # shifted hs @ dpost)"
    using Cons.prems by (simp add: shifted_def)
  have cmp: "hs_case_insensitive_cmp d (int i + 1) key 0 (length key) = Some (map lower k = map lower key)"
    if "length k = length key"
    using cmp_spec [of "int i + 1" "dpre @ [CHR 0x0A]" 0 "[]" k key
        "CHR '':'' # CHR '' '' # v @ CHR 0x0D # shifted hs @ dpost" "[]"] that Cons.prems(2) d by simp
  have step: "http_find_header B d key j (Suc (Suc m)) =
    (if map lower k = map lower key then Some (Some tv) else http_find_header B d key (j + 2) m)" for m
    using cmp map_eq_imp_length_eq [of lower k lower key] by (auto simp: r1 r2 ty) (simp_all add: add.commute)
  show ?case unfolding B_def [symmetric] len add_Suc step ih
    by (auto simp: tv_def algebra_simps split: option.split)
qed

lemma header_value_Cons:
  "header_value ((k, v) # hs) key = (if map lower k = map lower key then Some v else header_value hs key)"
  by (simp add: header_value_def)

lemma value_token_text:
  "d = dpre @ shifted hs @ dpost \<Longrightarrow> i = length dpre \<Longrightarrow>
   (case value_token i hs key of None \<Rightarrow> header_value hs key = None
    | Some t \<Rightarrow> \<exists>v. header_value hs key = Some v \<and> string_text (d @ junk') (token_string t) = Some v)"
proof (induction hs arbitrary: dpre i)
  case Nil
  then show ?case by (simp add: header_value_def)
next
  case (Cons kv hs)
  obtain k v where kv [simp]: "kv = (k, v)" by (cases kv)
  have pr: "d = (dpre @ CHR 0x0A # k @ '': '' @ v @ [CHR 0x0D]) @ shifted hs @ dpost"
    "i + length k + length v + 4 = length (dpre @ CHR 0x0A # k @ '': '' @ v @ [CHR 0x0D])"
    using Cons.prems by (simp_all add: shifted_def)
  have "string_text ((dpre @ CHR 0x0A # k @ '': '') @ v @ (CHR 0x0D # shifted hs @ dpost @ junk'))
      (token_string (tok HS_TOK_HEADER_VAL (i + length k + 3) v)) = Some v"
    by (rule string_text_token) (use Cons.prems in simp)
  then have v: "string_text (d @ junk') (token_string (tok HS_TOK_HEADER_VAL (i + length k + 3) v)) = Some v"
    using pr by simp
  show ?case using Cons.IH [OF pr] v by (auto simp: header_value_Cons split: option.splits)
qed

lemma request_header_spec:
  assumes "shows_tokens rq (line_tokens m u w @ header_tokens (length m + length u + length w + 3) hs @ ts) d"
    and "d = render_head m u w hs @ rest"
    and "list_all (\<lambda>t. tok_type t \<noteq> HS_TOK_HEADER_KEY) ts"
  shows "case header_value hs key of
      None \<Rightarrow> http_request_header rq key = Some null_string
    | Some v \<Rightarrow> \<exists>str. http_request_header rq key = Some str \<and> string_text (request_block rq) str = Some v"
proof -
  let ?n = "length m + length u + length w + 3"
  let ?dpre = "m @ '' '' @ u @ '' '' @ w @ [CHR 0x0D]"
  obtain post junk' where b: "td_buf (rq_tokens rq) = Some ((line_tokens m u w @ header_tokens ?n hs @ ts) @ post)"
    "td_size (rq_tokens rq) = int (length (line_tokens m u w @ header_tokens ?n hs @ ts))"
    "request_block rq = d @ junk'"
    using assms(1) by (rule shows_tokensD)
  have d: "d @ junk' = ?dpre @ shifted hs @ (CHR 0x0A # CRLF @ rest @ junk')" and n: "?n = length ?dpre"
    using assms(2) by (simp_all add: render_head_eq)
  have l0: "list_all (\<lambda>t. tok_type t \<noteq> HS_TOK_HEADER_KEY) (line_tokens m u w)"
    by (simp add: line_tokens_def tok_def)
  let ?B = "line_tokens m u w @ header_tokens ?n hs @ ts @ post"
  have 1: "http_find_header ?B (d @ junk') key 0 (length (line_tokens m u w) + (length (header_tokens ?n hs) + (length ts + 0))) =
      http_find_header ?B (d @ junk') key (int (length (line_tokens m u w))) (length (header_tokens ?n hs) + (length ts + 0))"
    using find_header_none [of 0 "[]", OF _ l0] by simp
  have 2: "http_find_header ?B (d @ junk') key (int (length (line_tokens m u w))) (length (header_tokens ?n hs) + (length ts + 0)) =
    (case value_token ?n hs key of Some t \<Rightarrow> Some (Some t)
     | None \<Rightarrow> http_find_header ?B (d @ junk') key (int (length (line_tokens m u w @ header_tokens ?n hs))) (length ts + 0))"
    using find_header_spec [OF d n refl, of "line_tokens m u w" "ts @ post" key] by (simp cong: option.case_cong)
  have 3: "http_find_header ?B (d @ junk') key (int (length (line_tokens m u w @ header_tokens ?n hs))) (length ts + 0) = Some None"
    using find_header_none [OF refl assms(3), of "line_tokens m u w @ header_tokens ?n hs" post "d @ junk'" key 0] by simp
  have "nat (td_size (rq_tokens rq)) = length (line_tokens m u w) + (length (header_tokens ?n hs) + (length ts + 0))"
    using b(2) by simp
  then have r: "http_request_header rq key =
      Some (case value_token ?n hs key of None \<Rightarrow> null_string | Some t \<Rightarrow> token_string t)"
    using 1 2 3 b by (simp add: http_request_header_def split: option.splits)
  show ?thesis using value_token_text [where key = key and junk' = "[]", OF d n] r b(3) by (auto split: option.splits)
qed

text \<open>
  C4: header lookup is by name, without regard to case, and the first match wins. After a
  request has been parsed, \<open>http_request_header\<close> returns a string whose bytes are the value
  of the first header of that name, and a null string when there is none.
\<close>

theorem request_header_lookup:
  assumes "shows_tokens rq (line_tokens m u w @ header_tokens (length m + length u + length w + 3) hs @ ts) d"
    and "d = render_head m u w hs @ rest"
    and "list_all (\<lambda>t. tok_type t \<noteq> HS_TOK_HEADER_KEY) ts"
  shows "case header_value hs key of
      None \<Rightarrow> http_request_header rq key = Some null_string
    | Some v \<Rightarrow> \<exists>str. http_request_header rq key = Some str \<and> string_text (request_block rq) str = Some v"
  by (rule request_header_spec [OF assms])

subsection \<open>Lookups stay inside the token array and the buffer\<close>

text \<open>
  The tokens of a request in any order: each lies in the buffer, but for a body with a
  length of the peer's invention, and the last one is not a key, so that the token behind a key is in the array.
\<close>

definition token_in :: "string \<Rightarrow> http_token \<Rightarrow> bool" where
  "token_in b t \<longleftrightarrow> 0 \<le> tok_index t \<and>
     (tok_type t \<noteq> HS_TOK_BODY \<longrightarrow> 0 \<le> tok_len t \<and> tok_index t + tok_len t \<le> int (length b)) \<and>
     (0 \<le> tok_len t \<and> tok_len t \<le> 65536 \<longrightarrow> tok_index t + tok_len t \<le> int (length b)) \<and>
     (tok_type t = HS_TOK_VERSION \<longrightarrow> 0 < tok_index t + tok_len t)"

definition tokens_ok :: "http_request \<Rightarrow> bool" where
  "tokens_ok rq \<longleftrightarrow> dyn_wf (rq_tokens rq) \<and> dyn_items (rq_tokens rq) \<noteq> [] \<and>
     tok_type (last (dyn_items (rq_tokens rq))) \<noteq> HS_TOK_HEADER_KEY \<and>
     list_all (token_in (request_block rq)) (dyn_items (rq_tokens rq))"

lemma cmp_total:
  "0 \<le> i \<Longrightarrow> i + int n \<le> int (length a) \<Longrightarrow> 0 \<le> j \<Longrightarrow> j + int n \<le> int (length b) \<Longrightarrow>
   \<exists>r. hs_case_insensitive_cmp a i b j n = Some r"
  by (induction n arbitrary: i j) (auto simp: block_read_def)

lemma find_header_total:
  assumes "list_all (token_in s) ts" and "ts \<noteq> [] \<longrightarrow> tok_type (last ts) \<noteq> HS_TOK_HEADER_KEY"
    and "i = int (length pre)"
  shows "\<exists>r. http_find_header (pre @ ts @ post) s key i (length ts) = Some r \<and> (\<forall>t. r = Some t \<longrightarrow> t \<in> set ts)"
  using assms
proof (induction ts arbitrary: pre i)
  case Nil
  then show ?case by simp
next
  case (Cons t ts)
  have r0: "block_read (pre @ (t # ts) @ post) i = Some t"
    using block_read_mid [of i pre t "ts @ post"] Cons.prems by simp
  have last': "ts \<noteq> [] \<longrightarrow> tok_type (last ts) \<noteq> HS_TOK_HEADER_KEY" using Cons.prems(2) by auto
  obtain r where r: "http_find_header (pre @ (t # ts) @ post) s key (i + 1) (length ts) = Some r"
    "\<forall>t. r = Some t \<longrightarrow> t \<in> set ts"
    using Cons.IH [of "i + 1" "pre @ [t]"] last' Cons.prems by auto
  show ?case
  proof (cases "tok_type t = HS_TOK_HEADER_KEY \<and> tok_len t = int (length key)")
    case False
    then show ?thesis using r0 r by auto
  next
    case True
    then obtain same where same: "hs_case_insensitive_cmp s (tok_index t) key 0 (length key) = Some same"
      using cmp_total [of "tok_index t" "length key" s 0 key] Cons.prems(1) by (auto simp: token_in_def)
    have "ts \<noteq> []" using Cons.prems(2) True by auto
    then obtain u us where ts: "ts = u # us" by (cases ts) auto
    have "block_read (pre @ (t # ts) @ post) (i + 1) = Some u"
      using block_read_mid [of "i + 1" "pre @ [t]" u "us @ post"] Cons.prems(3) ts by simp
    then show ?thesis using r0 r True same ts by (cases same) auto
  qed
qed

lemma request_header_total:
  assumes "tokens_ok rq"
  shows "\<exists>str. http_request_header rq key = Some str \<and>
    (str = null_string \<or> (\<exists>t. str = token_string t \<and> token_in (request_block rq) t))"
proof -
  obtain post where b: "td_buf (rq_tokens rq) = Some (dyn_items (rq_tokens rq) @ post)"
    "td_size (rq_tokens rq) = int (length (dyn_items (rq_tokens rq)))"
    using assms by (auto simp: tokens_ok_def elim: dyn_wfD)
  obtain r where r: "http_find_header ([] @ dyn_items (rq_tokens rq) @ post) (request_block rq) key 0
      (length (dyn_items (rq_tokens rq))) = Some r" "\<forall>t. r = Some t \<longrightarrow> t \<in> set (dyn_items (rq_tokens rq))"
    using find_header_total [of "request_block rq" "dyn_items (rq_tokens rq)" 0 "[]" post key] assms
    by (auto simp: tokens_ok_def)
  then show ?thesis using b assms
    by (cases r) (auto simp: http_request_header_def tokens_ok_def list_all_iff)
qed

lemma token_string_total:
  assumes "tokens_ok rq"
  shows "\<exists>str. http_get_token_string rq ty = Some str \<and>
    (str = null_string \<or> (\<exists>t. str = token_string t \<and> token_in (request_block rq) t \<and> tok_type t = ty))"
  using assms get_token_string_items [of rq ty]
  by (auto simp: tokens_ok_def list_all_iff find_Some_iff split: option.splits)

lemma auto_detect_total:
  assumes "tokens_ok rq"
  shows "\<exists>rq'. hs_auto_detect_keep_alive rq = Some rq'"
proof -
  obtain str where str: "http_get_token_string rq HS_TOK_VERSION = Some str"
    "str = null_string \<or> (\<exists>t. str = token_string t \<and> token_in (request_block rq) t \<and> tok_type t = HS_TOK_VERSION)"
    using token_string_total [OF assms] by blast
  show ?thesis
  proof (cases "str = null_string")
    case True
    then show ?thesis using str(1) by (simp add: hs_auto_detect_keep_alive_def null_string_def)
  next
    case False
    then obtain t where t: "str = token_string t" "token_in (request_block rq) t" "tok_type t = HS_TOK_VERSION"
      using str(2) by auto
    then obtain c where c: "block_read (request_block rq) (tok_index t + tok_len t - 1) = Some c"
      by (auto simp: token_in_def block_read_def)
    obtain con where con: "http_request_header rq ''Connection'' = Some con"
      "con = null_string \<or> (\<exists>t. con = token_string t \<and> token_in (request_block rq) t)"
      using request_header_total [OF assms] by blast
    have "\<exists>b. (if str_len con = 5 then (case str_buf con of None \<Rightarrow> None
        | Some j \<Rightarrow> hs_case_insensitive_cmp (request_block rq) j ''close'' 0 5) else Some False) = Some b"
      using con(2) cmp_total [of _ 5 "request_block rq" 0 "''close''"]
      by (auto simp: null_string_def token_string_def token_in_def simp del: hs_case_insensitive_cmp.simps)
    then obtain b where b: "(if str_len con = 5 then (case str_buf con of None \<Rightarrow> None
        | Some j \<Rightarrow> hs_case_insensitive_cmp (request_block rq) j ''close'' 0 5) else Some False) = Some b"
      by blast
    have "str_buf str = Some (tok_index t)" "str_len str = tok_len t" using t by (simp_all add: token_string_def)
    then show ?thesis using str(1) c con(1) b by (simp add: hs_auto_detect_keep_alive_def)
  qed
qed

subsection \<open>Lookup by name\<close>

definition request_of :: "platform \<Rightarrow> http_token list \<Rightarrow> hs_stream \<Rightarrow> http_request option" where
  "request_of pf ts s = map_option (\<lambda>dyn.
     \<lparr>rq_stream = s, rq_parser = zero_parser, rq_state = HTTP_SESSION_NOP, rq_timeout = 20, rq_tokens = dyn,
      rq_flags = HTTP_AUTOMATIC, rq_chunk_cb = None, rq_data = None,
      rq_conn = \<lparr>c_rx = [], c_wr = [], c_tx = [], c_errno = 0\<rparr>, rq_wants_write = False\<rparr>)
     (push_all (http_token_dyn_push pf) ts (http_token_dyn_init pf 32))"

lemma request_of_shows:
  assumes "length ts \<le> 1000" and "str \<noteq> []" and "length str \<le> 1000"
  obtains rq where "request_of pf ts (stream_of str) = Some rq" "shows_tokens rq ts str" "rq_flags rq = HTTP_AUTOMATIC"
proof -
  have w: "buffer_wf (stream_of str)" "s_data (stream_of str) = str"
    using stream_of_cur [OF assms(2)] assms(3) by (simp_all add: cur_def)
  show thesis
    using tokens.push_all_ok [of "http_token_dyn_init pf 32" ts pf] assms(1) w that
    by (auto simp: request_of_def shows_tokens_def)
qed

abbreviation demo_headers :: "(string \<times> string) list" where
  "demo_headers \<equiv> [(''Host'', ''hub''), (''Content-Length'', ''2'')]"

theorem request_header_lookup_witness:
  "\<exists>rq. request_of demo_platform (line_tokens ''GET'' ''/'' ''HTTP/1.1'' @ header_tokens (length ''GET'' + length ''/'' + length ''HTTP/1.1'' + 3) demo_headers @ [req_end])
      (stream_of (render_head ''GET'' ''/'' ''HTTP/1.1'' demo_headers @ [])) = Some rq \<and>
    (\<exists>str. http_request_header rq ''content-LENGTH'' = Some str \<and> string_text (request_block rq) str = Some ''2'')"
proof -
  let ?ts = "line_tokens ''GET'' ''/'' ''HTTP/1.1'' @ header_tokens (length ''GET'' + length ''/'' + length ''HTTP/1.1'' + 3) demo_headers @ [req_end]"
  let ?d = "render_head ''GET'' ''/'' ''HTTP/1.1'' demo_headers @ []"
  have 1: "length ?ts \<le> 1000" "?d \<noteq> []" "length ?d \<le> 1000"
    by (simp_all add: line_tokens_def render_head_def render_header_def CRLF_def)
  obtain rq where rq: "request_of demo_platform ?ts (stream_of ?d) = Some rq" "shows_tokens rq ?ts ?d"
    by (rule request_of_shows [OF 1])
  have 2: "list_all (\<lambda>t. tok_type t \<noteq> HS_TOK_HEADER_KEY) [req_end]"
    by (simp add: req_end_def no_token_def)
  have 3: "header_value demo_headers ''content-LENGTH'' = Some ''2''" by code_simp
  show ?thesis
    using request_header_lookup [OF rq(2) refl 2, of "''content-LENGTH''"] rq(1) unfolding 3 by auto
qed

text \<open>The loop \<open>while (http_request_iterate_headers(\<dots>))\<close> of an application, with fuel.\<close>

fun iterate_all :: "nat \<Rightarrow> http_request \<Rightarrow> int \<Rightarrow> (http_string \<times> http_string) list option" where
  "iterate_all 0 rq iter = None"
| "iterate_all (Suc n) rq iter =
     (case http_request_iterate_headers rq iter of
        None \<Rightarrow> None
      | Some (iter, None) \<Rightarrow> Some []
      | Some (iter, Some kv) \<Rightarrow> map_option (\<lambda>r. kv # r) (iterate_all n rq iter))"

fun header_strings :: "nat \<Rightarrow> (string \<times> string) list \<Rightarrow> (http_string \<times> http_string) list" where
  "header_strings i [] = []"
| "header_strings i ((k, v) # hs) =
     (token_string (tok HS_TOK_HEADER_KEY (i + 1) k), token_string (tok HS_TOK_HEADER_VAL (i + length k + 3) v)) #
     header_strings (i + length k + length v + 4) hs"

lemma iterate_rest:
  assumes "td_buf (rq_tokens rq) = Some (pre @ header_tokens i hs @ t # post)"
    and "iter + 1 = int (length pre)" and "iter \<noteq> 0"
  shows "iterate_all k rq iter = Some (header_strings i hs) \<longleftrightarrow> tok_type t = HS_TOK_BODY \<and> length hs < k"
  using assms
proof (induction hs arbitrary: pre i iter k)
  case Nil
  then show ?case
    by (cases k) (auto simp: http_request_iterate_headers_def hs_assign_iteration_headers_def block_read_mid split: option.splits bind_splits)
next
  case (Cons kv hs)
  obtain key v where kv [simp]: "kv = (key, v)" by (cases kv)
  let ?i = "i + length key + length v + 4"
  let ?tk = "tok HS_TOK_HEADER_KEY (i + 1) key" and ?tv = "tok HS_TOK_HEADER_VAL (i + length key + 3) v"
  have "td_buf (rq_tokens rq) = Some ((pre @ [?tk, ?tv]) @ header_tokens ?i hs @ t # post)"
    using Cons.prems(1) by simp
  from Cons.IH [OF this, of "iter + 2"] Cons.prems
  have ih: "iterate_all k rq (iter + 2) = Some (header_strings ?i hs) \<longleftrightarrow> tok_type t = HS_TOK_BODY \<and> length hs < k" for k by simp
  define B where "B = pre @ ?tk # ?tv # header_tokens ?i hs @ t # post"
  have rd: "block_read B (iter + 1) = Some ?tk" "block_read B (iter + 1 + 1) = Some ?tv"
    using block_read_mid [of "iter + 1" pre] block_read_mid [of "iter + 1 + 1" "pre @ [?tk]"] Cons.prems
    by (simp_all add: B_def)
  have B: "td_buf (rq_tokens rq) = Some B" using Cons.prems(1) by (simp add: B_def)
  have ty: "tok_type ?tk \<noteq> HS_TOK_BODY" by (simp add: tok_def)
  have "http_request_iterate_headers rq iter = Some (iter + 1 + 1, Some (token_string ?tk, token_string ?tv))"
    using Cons.prems(3) by (simp only: http_request_iterate_headers_def hs_assign_iteration_headers_def B rd ty
        if_False bind.bind_lunit)
  then have "http_request_iterate_headers rq iter = Some (iter + 2, Some (token_string ?tk, token_string ?tv))"
    by simp
  then show ?case using ih by (cases k) simp_all
qed

text \<open>
  C5: iterating over the headers of a parsed request gives them all, in order, and stops exactly when a body token
  is behind them, as for a request without a body or with one that is buffered: then the application's loop ends after
  one call per header and one more. Behind the headers of a streamed or chunked
  request is a token of another type, which is taken for a key: the loop reads on into what follows
  and never comes back with the headers.
\<close>

theorem iterate_headers_complete:
  assumes "shows_tokens rq (line_tokens m u w @ header_tokens n hs @ t # ts) d" and "hs \<noteq> []"
  shows "iterate_all k rq 0 = Some (header_strings n hs) \<longleftrightarrow> tok_type t = HS_TOK_BODY \<and> length hs < k"
proof -
  obtain key v hs' where hs: "hs = (key, v) # hs'" using assms(2) by (cases hs) auto
  let ?i = "n + length key + length v + 4"
  let ?tk = "tok HS_TOK_HEADER_KEY (n + 1) key" and ?tv = "tok HS_TOK_HEADER_VAL (n + length key + 3) v"
  obtain post where b: "td_buf (rq_tokens rq) = Some ((line_tokens m u w @ header_tokens n hs @ t # ts) @ post)"
    "td_size (rq_tokens rq) = int (length (line_tokens m u w @ header_tokens n hs @ t # ts))"
    using assms(1) by (rule shows_tokensD)
  define B where "B = (line_tokens m u w @ [?tk, ?tv]) @ header_tokens ?i hs' @ t # (ts @ post)"
  have B: "td_buf (rq_tokens rq) = Some B" using b by (simp add: hs B_def)
  have rest: "iterate_all k rq 4 = Some (header_strings ?i hs') \<longleftrightarrow> tok_type t = HS_TOK_BODY \<and> length hs' < k" for k
    by (rule iterate_rest [OF B [unfolded B_def]]) (simp_all add: line_tokens_def)
  have rd: "block_read B 0 = Some (tok HS_TOK_METHOD 0 m)" "block_read B 1 = Some (tok HS_TOK_TARGET (length m + 1) u)"
    "block_read B 2 = Some (tok HS_TOK_VERSION (length m + length u + 2) w)"
    "block_read B 3 = Some ?tk" "block_read B 4 = Some ?tv"
    by (simp_all add: block_read_def line_tokens_def B_def)
  have ty: "tok_type (tok ty' x y) = ty'" for ty' x y by (simp add: tok_def)
  have sz: "nat (td_size (rq_tokens rq)) = Suc (Suc (Suc (Suc (length (header_tokens ?i hs') + length ts + 2))))"
    using b by (simp add: hs line_tokens_def)
  have "hs_first_header rq B 0 (Suc (Suc (Suc (Suc n)))) = hs_assign_iteration_headers rq 3" for n
    by (simp add: rd ty)
  then have "http_request_iterate_headers rq 0 = hs_assign_iteration_headers rq 3"
    unfolding http_request_iterate_headers_def B sz by simp
  moreover have "hs_assign_iteration_headers rq 3 = Some (4, Some (token_string ?tk, token_string ?tv))"
    unfolding hs_assign_iteration_headers_def B by (simp add: rd ty)
  ultimately show ?thesis using rest hs by (cases k) simp_all
qed

theorem iterate_headers_complete_witness:
  "\<exists>rq. request_of demo_platform (line_tokens ''GET'' ''/'' ''HTTP/1.1'' @ header_tokens 16 demo_headers @ no_body # [req_end])
      (stream_of (render_head ''GET'' ''/'' ''HTTP/1.1'' demo_headers)) = Some rq \<and>
    iterate_all (Suc (length demo_headers)) rq 0 = Some (header_strings 16 demo_headers)"
proof -
  let ?ts = "line_tokens ''GET'' ''/'' ''HTTP/1.1'' @ header_tokens 16 demo_headers @ no_body # [req_end]"
  let ?d = "render_head ''GET'' ''/'' ''HTTP/1.1'' demo_headers"
  have 1: "length ?ts \<le> 1000" "?d \<noteq> []" "length ?d \<le> 1000"
    by (simp_all add: line_tokens_def render_head_def render_header_def CRLF_def)
  obtain rq where rq: "request_of demo_platform ?ts (stream_of ?d) = Some rq" "shows_tokens rq ?ts ?d"
    by (rule request_of_shows [OF 1])
  have 2: "demo_headers \<noteq> []" "tok_type no_body = HS_TOK_BODY" by (simp_all add: no_body_def)
  show ?thesis using iterate_headers_complete [OF rq(2) 2(1), of "Suc (length demo_headers)"] 2(2) rq(1) by auto
qed

end
