(* ===== verification/Http_Response.thy ===== *)
theory Http_Response
  imports Http_Request
begin

section \<open>Responses and the buffer they are printed into\<close>

text \<open>
  The response of \<open>src/http.h\<close> (\<open>http_response_t\<close>), the growing print buffer
  \<open>grwprintf_t\<close> and the functions that print status line and headers into it. The print
  buffer's pointer to the server's memory account is the second component that its
  operations take and return. A formatted text is computed first and then stored the way
  \<open>vsnprintf\<close> stores it: as many characters as fit, and a NUL.
\<close>

subsection \<open>The response under construction\<close>

definition HTTP_RESPONSE_BUF_SIZE :: int where "HTTP_RESPONSE_BUF_SIZE = 1024"

record http_response =
  rs_headers :: "(string \<times> string) list"
  rs_body :: "string option"
  rs_content_length :: int
  rs_status :: int

definition http_response_init :: http_response where
  "http_response_init = \<lparr>rs_headers = [], rs_body = None, rs_content_length = 0, rs_status = 200\<rparr>"

definition http_response_header :: "string \<Rightarrow> string \<Rightarrow> http_response \<Rightarrow> http_response" where
  "http_response_header key value rs = rs\<lparr>rs_headers := (key, value) # rs_headers rs\<rparr>"

definition http_response_status :: "int \<Rightarrow> http_response \<Rightarrow> http_response" where
  "http_response_status status rs = rs\<lparr>rs_status := (if status > 599 \<or> status < 100 then 500 else status)\<rparr>"

definition http_response_body :: "string \<Rightarrow> int \<Rightarrow> http_response \<Rightarrow> http_response" where
  "http_response_body body len rs = rs\<lparr>rs_body := Some body, rs_content_length := len\<rparr>"

text \<open>
  The table of reason phrases, as the compiler reads it: the row of status 505 has no comma
  behind its last string, which is therefore joined with the first of the next row.
\<close>

definition status_row :: "string list \<Rightarrow> nat \<Rightarrow> string list" where
  "status_row names blanks = names @ replicate blanks []"

definition hs_status_text :: "string list" where
  "hs_status_text =
     status_row [] 100 @
     status_row [''Continue'', ''Switching Protocols''] 98 @
     status_row [''OK'', ''Created'', ''Accepted'', ''Non-Authoritative Information'', ''No Content'',
       ''Reset Content'', ''Partial Content''] 93 @
     status_row [''Multiple Choices'', ''Moved Permanently'', ''Found'', ''See Other'', ''Not Modified'',
       ''Use Proxy'', [], ''Temporary Redirect''] 92 @
     status_row [''Bad Request'', ''Unauthorized'', ''Payment Required'', ''Forbidden'', ''Not Found'',
       ''Method Not Allowed'', ''Not Acceptable'', ''Proxy Authentication Required'',
       ''Request Timeout'', ''Conflict'', ''Gone'', ''Length Required'', [], ''Payload Too Large''] 86 @
     status_row [''Internal Server Error'', ''Not Implemented'', ''Bad Gateway'', ''Service Unavailable'',
       ''Gateway Timeout''] 4 @ [[] @ []] @ replicate 89 []"

subsection \<open>Printing\<close>

record grwprintf_t =
  gw_buf :: string
  gw_capacity :: int
  gw_size :: int

definition grwprintf_init :: "(nat \<Rightarrow> char) \<Rightarrow> int \<Rightarrow> int \<Rightarrow> grwprintf_t \<times> int" where
  "grwprintf_init fresh capacity m =
     (\<lparr>gw_buf = map fresh [0 ..< nat capacity], gw_capacity = capacity, gw_size = 0\<rparr>, m + capacity)"

definition grwmemcpy ::
  "(nat \<Rightarrow> char) \<Rightarrow> string \<Rightarrow> int \<Rightarrow> grwprintf_t \<times> int \<Rightarrow> (grwprintf_t \<times> int) option" where
  "grwmemcpy fresh src sz cm =
     (let (ctx, m) = cm;
          (ctx, m) =
            (if gw_size ctx + sz > gw_capacity ctx then
               let c = i32 (gw_size ctx + sz) in
               (ctx\<lparr>gw_capacity := c, gw_buf := block_realloc fresh (gw_buf ctx) (nat c)\<rparr>, m - gw_capacity ctx + c)
             else (ctx, m))
      in if sz < 0 \<or> sz > int (length src) then None
         else do {
           b \<leftarrow> block_write (gw_buf ctx) (gw_size ctx) (take (nat sz) src);
           Some (ctx\<lparr>gw_buf := b, gw_size := i32 (gw_size ctx + sz)\<rparr>, m)
         })"

definition vsnprintf :: "string \<Rightarrow> int \<Rightarrow> int \<Rightarrow> string \<Rightarrow> string option" where
  "vsnprintf b off n text =
     (if n < 0 then None
      else if n = 0 then Some b
      else block_write b off (take (nat (n - 1)) text @ [CHR 0x00]))"

text \<open>
  \<open>while (bytes + ctx->size > ctx->capacity) ctx->capacity *= 2\<close>; a capacity that is not
  positive, or that doubles past the type, never gets there.
\<close>

function grwprintf_grow :: "int \<Rightarrow> int \<Rightarrow> int option" where
  "grwprintf_grow need capacity =
     (if need \<le> capacity then Some capacity
      else if capacity \<le> 0 \<or> capacity > 1073741823 then None
      else grwprintf_grow need (capacity * 2))"
  by pat_completeness auto
termination
  by (relation "measure (\<lambda>(need, capacity). nat (need - capacity))") auto

declare grwprintf_grow.simps [simp del]

text \<open>
  \<open>grwprintf\<close>, called with a format that prints \<open>text\<close>; \<open>args\<close> says whether the format has conversions. When the
  buffer has to grow, the format is printed again from the same \<open>va_list\<close>, without \<open>va_copy\<close>: if the first
  \<open>vsnprintf\<close> has taken arguments from it, its value is indeterminate and the second call is undefined.
\<close>

definition grwprintf ::
  "(nat \<Rightarrow> char) \<Rightarrow> bool \<Rightarrow> string \<Rightarrow> grwprintf_t \<times> int \<Rightarrow> (grwprintf_t \<times> int) option" where
  "grwprintf fresh args text cm = do {
     let (ctx, m) = cm;
     let bytes = int (length text);
     b \<leftarrow> vsnprintf (gw_buf ctx) (gw_size ctx) (gw_capacity ctx - gw_size ctx) text;
     if bytes + gw_size ctx > gw_capacity ctx then do {
       c \<leftarrow> grwprintf_grow (bytes + gw_size ctx) (gw_capacity ctx);
       b \<leftarrow> (if args then None else vsnprintf (block_realloc fresh b (nat c)) (gw_size ctx) (c - gw_size ctx) text);
       let bytes = bytes + bytes;
       Some (\<lparr>gw_buf = b, gw_capacity = c, gw_size = i32 (gw_size ctx + bytes)\<rparr>, m - gw_capacity ctx + c)
     } else Some (ctx\<lparr>gw_buf := b, gw_size := i32 (gw_size ctx + bytes)\<rparr>, m)
   }"

text \<open>The conversions \<open>%d\<close> and \<open>%X\<close>.\<close>

fun digits :: "nat \<Rightarrow> nat \<Rightarrow> string" where
  "digits base n =
     (if base < 2 \<or> n < base then [''0123456789ABCDEF'' ! (n mod 16)]
      else digits base (n div base) @ [''0123456789ABCDEF'' ! (n mod base mod 16)])"

declare digits.simps [simp del]

definition print_d :: "int \<Rightarrow> string" where
  "print_d i = (if i < 0 then CHR ''-'' # digits 10 (nat (- i)) else digits 10 (nat i))"

definition print_X :: "int \<Rightarrow> string" where
  "print_X i = digits 16 (nat (i mod 4294967296))"

definition header_line :: "string \<times> string \<Rightarrow> string" where
  "header_line kv = fst kv @ '': '' @ snd kv @ CRLF"

fun http_print_headers ::
  "(nat \<Rightarrow> char) \<Rightarrow> (string \<times> string) list \<Rightarrow> grwprintf_t \<times> int \<Rightarrow> (grwprintf_t \<times> int) option" where
  "http_print_headers fresh [] cm = Some cm"
| "http_print_headers fresh (kv # hs) cm = do {
     cm \<leftarrow> grwprintf fresh True (header_line kv) cm;
     http_print_headers fresh hs cm
   }"

definition http_buffer_headers ::
  "(nat \<Rightarrow> char) \<Rightarrow> http_request \<Rightarrow> http_response \<Rightarrow> grwprintf_t \<times> int \<Rightarrow> (grwprintf_t \<times> int) option" where
  "http_buffer_headers fresh rq rs cm = do {
     cm \<leftarrow> http_print_headers fresh (rs_headers rs) cm;
     cm \<leftarrow> (if \<not> HTTP_FLAG_CHECK (rq_flags rq) HTTP_CHUNKED_RESPONSE
           then grwprintf fresh True (''Content-Length: '' @ print_d (rs_content_length rs) @ CRLF) cm else Some cm);
     grwprintf fresh False CRLF cm
   }"

definition status_line :: "int \<Rightarrow> string \<Rightarrow> string \<Rightarrow> string" where
  "status_line status text date =
     ''HTTP/1.1 '' @ print_d status @ '' '' @ text @ CRLF @ ''Date: '' @ date @ CRLF"

definition http_respond_headers ::
  "(nat \<Rightarrow> char) \<Rightarrow> string \<Rightarrow> http_request \<Rightarrow> http_response \<Rightarrow> grwprintf_t \<times> int \<Rightarrow>
   (http_request \<times> http_response \<times> grwprintf_t \<times> int) option" where
  "http_respond_headers fresh date rq rs cm = do {
     rq \<leftarrow> (if HTTP_FLAG_CHECK (rq_flags rq) HTTP_AUTOMATIC then hs_auto_detect_keep_alive rq else Some rq);
     let rs = http_response_header ''Connection''
       (if HTTP_FLAG_CHECK (rq_flags rq) HTTP_KEEP_ALIVE then ''keep-alive'' else ''close'') rs;
     text \<leftarrow> block_read hs_status_text (rs_status rs);
     cm \<leftarrow> grwprintf fresh True (status_line (rs_status rs) text date) cm;
     (ctx, m) \<leftarrow> http_buffer_headers fresh rq rs cm;
     Some (rq, rs, ctx, m)
   }"

subsection \<open>What the print buffer holds\<close>

definition gw_wf :: "grwprintf_t \<Rightarrow> bool" where
  "gw_wf ctx \<longleftrightarrow> int (length (gw_buf ctx)) = gw_capacity ctx \<and> 0 < gw_capacity ctx \<and>
     gw_capacity ctx \<le> 2147483647 \<and> 0 \<le> gw_size ctx \<and> gw_size ctx \<le> gw_capacity ctx"

definition gw_text :: "grwprintf_t \<Rightarrow> string" where
  "gw_text ctx = take (nat (gw_size ctx)) (gw_buf ctx)"

text \<open>\<open>printed ctx m str ctx' m'\<close>: \<open>str\<close> was appended, and the account follows the capacity.\<close>

definition printed :: "grwprintf_t \<times> int \<Rightarrow> string \<Rightarrow> (grwprintf_t \<times> int) option \<Rightarrow> bool" where
  "printed cm str r \<longleftrightarrow> (case r of None \<Rightarrow> False | Some cm' \<Rightarrow>
     gw_wf (fst cm') \<and> gw_text (fst cm') = gw_text (fst cm) @ str \<and>
     snd cm' - gw_capacity (fst cm') = snd cm - gw_capacity (fst cm) \<and>
     gw_capacity (fst cm') = max (gw_capacity (fst cm)) (gw_size (fst cm')))"

lemma gw_text_length: "gw_wf ctx \<Longrightarrow> int (length (gw_text ctx)) = gw_size ctx"
  by (auto simp: gw_wf_def gw_text_def min_def)

lemma vsnprintf_writes:
  assumes "0 < r" and "int n + r \<le> int (length b)"
  shows "vsnprintf b (int n) r text = Some (take n b @ (take (nat (r - 1)) text @ [CHR 0x00]) @
    drop (n + length (take (nat (r - 1)) text @ [CHR 0x00])) b)"
proof -
  have "length (take (nat (r - 1)) text @ [CHR 0x00]) \<le> nat r"
    using assms(1) by simp
  then have "int n + int (length (take (nat (r - 1)) text @ [CHR 0x00])) \<le> int (length b)"
    using assms by linarith
  then show ?thesis using assms(1) by (simp add: vsnprintf_def block_write_def)
qed

lemma grwprintf_fits:
  assumes "gw_wf ctx" and "int (length text) + gw_size ctx < gw_capacity ctx"
  shows "printed (ctx, m) text (grwprintf fresh args text (ctx, m)) \<and>
    map_option (\<lambda>r. gw_capacity (fst r)) (grwprintf fresh args text (ctx, m)) = Some (gw_capacity ctx)"
proof -
  define n where "n = nat (gw_size ctx)"
  have n: "gw_size ctx = int n" using assms by (simp add: n_def gw_wf_def)
  have "take (nat (gw_capacity ctx - gw_size ctx - 1)) text = text"
    using assms by (simp add: gw_wf_def)
  then have v: "vsnprintf (gw_buf ctx) (gw_size ctx) (gw_capacity ctx - gw_size ctx) text =
      Some (take n (gw_buf ctx) @ (text @ [CHR 0x00]) @ drop (Suc (n + length text)) (gw_buf ctx))"
    using assms n by (simp add: vsnprintf_def block_write_def gw_wf_def)
  have "nat (int n + int (length text)) = n + length text" by simp
  then show ?thesis using assms v n
    by (auto simp: grwprintf_def Let_def printed_def gw_wf_def gw_text_def)
qed

lemma grwmemcpy_prints:
  assumes "gw_wf ctx" and "0 \<le> sz" "sz \<le> int (length src)" and "gw_size ctx + sz \<le> 2147483647"
  shows "printed (ctx, m) (take (nat sz) src) (grwmemcpy fresh src sz (ctx, m))"
proof -
  define n k where "n = nat (gw_size ctx)" and "k = nat sz"
  have n: "gw_size ctx = int n" "sz = int k" using assms by (simp_all add: n_def k_def gw_wf_def)
  define c where "c = max (gw_capacity ctx) (gw_size ctx + sz)"
  define g where "g = (if gw_size ctx + sz > gw_capacity ctx then block_realloc fresh (gw_buf ctx) (nat c) else gw_buf ctx)"
  have g: "int (length g) = c" "take n g = take n (gw_buf ctx)"
    using assms n by (auto simp: g_def c_def gw_wf_def take_block_realloc)
  have "c = int (n + k) \<or> c = gw_capacity ctx" "n + k \<le> nat c" "c \<le> 2147483647" using assms n by (auto simp: c_def gw_wf_def)
  moreover from this have w: "block_write g (int n) (take k src) = Some (take n g @ take k src @ drop (n + k) g)"
    using assms g n by (simp add: block_write_def min_def)
  moreover have "nat (int n + int k) = n + k" by simp
  ultimately show ?thesis using assms g n
    by (auto simp: grwmemcpy_def Let_def printed_def gw_wf_def gw_text_def c_def g_def max_def split: if_splits)
qed


text \<open>A text that fills the buffer to its end loses its last character to the zero.\<close>

lemma grwprintf_fills:
  assumes "gw_wf ctx" and "int (length text) + gw_size ctx = gw_capacity ctx"
  shows "\<exists>ctx'. grwprintf fresh args text (ctx, m) = Some (ctx', m) \<and> gw_wf ctx' \<and> gw_capacity ctx' = gw_capacity ctx \<and>
    gw_text ctx' = gw_text ctx @ (if text = [] then [] else butlast text @ [CHR 0x00])"
proof (cases "text = []")
  case True
  then show ?thesis using assms by (auto simp: grwprintf_def Let_def vsnprintf_def gw_wf_def gw_text_def)
next
  case False
  define n where "n = nat (gw_size ctx)"
  have n: "gw_size ctx = int n" using assms by (simp add: n_def gw_wf_def)
  have "nat (gw_capacity ctx - gw_size ctx - 1) = length text - 1" using assms(2) by linarith
  then have t: "take (nat (gw_capacity ctx - gw_size ctx - 1)) text = butlast text" "int (length (butlast text)) = int (length text) - 1"
    using False by (simp_all only: butlast_conv_take length_butlast) (simp add: Suc_leI of_nat_diff)
  have "length (butlast text @ [CHR 0x00]) = length text" using False by simp
  then have v: "vsnprintf (gw_buf ctx) (gw_size ctx) (gw_capacity ctx - gw_size ctx) text =
      Some (take n (gw_buf ctx) @ butlast text @ [CHR 0x00])"
    using assms n t False by (simp add: vsnprintf_def block_write_def gw_wf_def)
  have "int (length (take n (gw_buf ctx) @ butlast text @ [CHR 0x00])) = gw_capacity ctx"
    using assms n t(2) by (simp add: gw_wf_def)
  moreover have "nat (int n + int (length text)) = n + length text" by simp
  ultimately show ?thesis using assms v n t(2) False
    by (simp add: grwprintf_def Let_def gw_wf_def gw_text_def)
qed

text \<open>A text that does not fit, printed without arguments, is stored in the grown buffer and counted twice.\<close>

lemma grwprintf_grow_gives:
  "0 < c \<Longrightarrow> need \<le> 1073741824 \<Longrightarrow> \<exists>c'. grwprintf_grow need c = Some c' \<and> need \<le> c' \<and> c \<le> c' \<and> c' \<le> max c 2147483646"
proof (induction need c rule: grwprintf_grow.induct)
  case (1 need c)
  then show ?case by (subst grwprintf_grow.simps) (auto simp: not_le)
qed

lemma grwprintf_overcounts:
  assumes "gw_wf ctx" and "gw_capacity ctx < int (length text) + gw_size ctx"
    and "2 * int (length text) + gw_size ctx \<le> 1073741824"
  shows "\<exists>ctx' m'. grwprintf fresh False text (ctx, m) = Some (ctx', m') \<and>
    gw_size ctx' = gw_size ctx + 2 * int (length text) \<and>
    take (nat (gw_size ctx) + length text - 1) (gw_buf ctx') = gw_text ctx @ butlast text"
proof -
  define n l where "n = nat (gw_size ctx)" and "l = length text"
  have n: "gw_size ctx = int n" "gw_wf ctx" "gw_capacity ctx < int l + int n" "length text = l" "0 < l"
    using assms by (auto simp: n_def l_def gw_wf_def)
  have b: "int (length (gw_buf ctx)) = gw_capacity ctx" "n \<le> length (gw_buf ctx)" "0 < gw_capacity ctx"
    using n by (auto simp: gw_wf_def)
  let ?r = "gw_capacity ctx - int n"
  obtain b1 where b1: "vsnprintf (gw_buf ctx) (int n) ?r text = Some b1" "length b1 = length (gw_buf ctx)"
    "take n b1 = take n (gw_buf ctx)"
  proof (cases "?r = 0")
    case True
    then show thesis using that by (simp add: vsnprintf_def)
  next
    case False
    then have "0 < ?r" "int n + ?r \<le> int (length (gw_buf ctx))" using b n by (auto simp: gw_wf_def)
    note w = vsnprintf_writes [OF this, of "text"]
    have "length (take n (gw_buf ctx) @ (take (nat (?r - 1)) text @ [CHR 0x00]) @
        drop (n + length (take (nat (?r - 1)) text @ [CHR 0x00])) (gw_buf ctx)) = length (gw_buf ctx)"
      using w by (simp only: vsnprintf_def split: if_splits) (auto dest: block_write_length)
    then show thesis using that w b by simp
  qed
  obtain c where c: "grwprintf_grow (int l + int n) (gw_capacity ctx) = Some c" "int l + int n \<le> c"
    using grwprintf_grow_gives [of "gw_capacity ctx" "int l + int n"] b assms n by auto
  let ?g = "block_realloc fresh b1 (nat c)" and ?t = "take (nat (c - int n - 1)) text @ [CHR 0x00]"
  have g: "take n ?g = take n (gw_buf ctx)" "length ?g = nat c"
    using b1 b c by (simp_all add: take_block_realloc)
  have w: "vsnprintf ?g (int n) (c - int n) text = Some (take n ?g @ ?t @ drop (n + length ?t) ?g)"
    by (rule vsnprintf_writes) (use c g n in simp_all)
  have k: "nat (c - int n - 1) \<ge> l - 1" using c by simp
  have pre: "take (n + l - 1) (take n ?g @ ?t @ d) = gw_text ctx @ butlast text" for d
  proof -
    have "length (take n ?g) = n" using g b by simp
    then have "take (n + l - 1) (take n ?g @ ?t @ d) = take n ?g @ take (l - 1) (?t @ d)" using n by simp
    also have "take (l - 1) (?t @ d) = take (l - 1) text" using k n by (auto simp: min_def)
    finally show ?thesis using g n by (simp add: gw_text_def butlast_conv_take)
  qed
  have r: "grwprintf fresh False text (ctx, m) = Some (\<lparr>gw_buf = take n ?g @ ?t @ drop (n + length ?t) ?g,
      gw_capacity = c, gw_size = gw_size ctx + 2 * int l\<rparr>, m - gw_capacity ctx + c)"
    using assms b1(1) c(1) w n by (simp add: grwprintf_def Let_def)
  show ?thesis using r pre n by simp
qed

lemma grwprintf_undefined:
  assumes "gw_capacity ctx < int (length text) + gw_size ctx"
  shows "grwprintf fresh True text (ctx, m) = None"
  using assms by (simp add: grwprintf_def Let_def split: bind_split)



text \<open>
  The table of reason phrases is one entry short. Of the statuses a response can have
  (100 to 599), all but 599 index an entry, and 599 reads behind the table.
\<close>

theorem status_text_short:
  "length hs_status_text = 599 \<and>
   (\<forall>st. block_read hs_status_text (rs_status (http_response_status st rs)) = None \<longleftrightarrow> st = 599)"
proof -
  have l: "length hs_status_text = 599" by (simp add: hs_status_text_def status_row_def)
  then show ?thesis by (auto simp: http_response_status_def block_read_def)
qed

subsection \<open>A response whose head fits the first buffer\<close>

text \<open>\<open>holds ctx str\<close>: a print buffer that has not grown, with the text \<open>str\<close> in it.\<close>

definition holds :: "grwprintf_t \<Rightarrow> string \<Rightarrow> bool" where
  "holds ctx str \<longleftrightarrow> gw_wf ctx \<and> gw_capacity ctx = HTTP_RESPONSE_BUF_SIZE \<and> gw_text ctx = str"

lemma holds_size: "holds ctx str \<Longrightarrow> gw_size ctx = int (length str)"
  using gw_text_length [of ctx] by (simp add: holds_def)

lemma holds_init:
  "\<exists>ctx. grwprintf_init fresh HTTP_RESPONSE_BUF_SIZE m = (ctx, m + HTTP_RESPONSE_BUF_SIZE) \<and> holds ctx []"
  by (simp add: grwprintf_init_def holds_def gw_wf_def gw_text_def HTTP_RESPONSE_BUF_SIZE_def)

lemma holds_printf:
  assumes "holds ctx a" and "length a + length b < 1024"
  shows "\<exists>ctx'. grwprintf fresh args b (ctx, m) = Some (ctx', m) \<and> holds ctx' (a @ b)"
  using grwprintf_fits [of ctx b m fresh args] assms holds_size [OF assms(1)]
  by (auto simp: holds_def printed_def HTTP_RESPONSE_BUF_SIZE_def split: option.splits)

lemma holds_headers:
  assumes "holds ctx a" and "length a + length (concat (map header_line hs)) < 1024"
  shows "\<exists>ctx'. http_print_headers fresh hs (ctx, m) = Some (ctx', m) \<and>
    holds ctx' (a @ concat (map header_line hs))"
  using assms
proof (induction hs arbitrary: ctx a)
  case Nil
  then show ?case by simp
next
  case (Cons kv hs)
  obtain c1 where c1: "grwprintf fresh True (header_line kv) (ctx, m) = Some (c1, m)" "holds c1 (a @ header_line kv)"
    using holds_printf [OF Cons.prems(1), of "header_line kv" fresh True m] Cons.prems(2) by auto
  show ?case using Cons.IH [OF c1(2)] Cons.prems(2) c1(1) by auto
qed

text \<open>The head of a response as a text, and the whole response.\<close>

definition response_head :: "string \<Rightarrow> string \<Rightarrow> bool \<Rightarrow> http_response \<Rightarrow> string" where
  "response_head text date keep rs =
     status_line (rs_status rs) text date @
     concat (map header_line ((''Connection'', if keep then ''keep-alive'' else ''close'') # rs_headers rs)) @
     ''Content-Length: '' @ print_d (rs_content_length rs) @ CRLF @ CRLF"

definition response_text :: "string \<Rightarrow> string \<Rightarrow> bool \<Rightarrow> http_response \<Rightarrow> string" where
  "response_text text date keep rs = response_head text date keep rs @
     (case rs_body rs of None \<Rightarrow> [] | Some body \<Rightarrow> take (nat (rs_content_length rs)) body)"

definition detected :: "http_request \<Rightarrow> http_request option" where
  "detected rq = (if HTTP_FLAG_CHECK (rq_flags rq) HTTP_AUTOMATIC then hs_auto_detect_keep_alive rq else Some rq)"

lemma respond_headers_prints:
  assumes "detected rq = Some rq1" and "\<not> HTTP_FLAG_CHECK (rq_flags rq1) HTTP_CHUNKED_RESPONSE"
    and "block_read hs_status_text (rs_status rs) = Some text"
    and "length (response_head text date (HTTP_FLAG_CHECK (rq_flags rq1) HTTP_KEEP_ALIVE) rs) < 1024"
    and "holds ctx []"
  shows "\<exists>ctx' rs'. http_respond_headers fresh date rq rs (ctx, m) = Some (rq1, rs', ctx', m) \<and>
    rs_body rs' = rs_body rs \<and> rs_content_length rs' = rs_content_length rs \<and>
    holds ctx' (response_head text date (HTTP_FLAG_CHECK (rq_flags rq1) HTTP_KEEP_ALIVE) rs)"
proof -
  let ?keep = "HTTP_FLAG_CHECK (rq_flags rq1) HTTP_KEEP_ALIVE"
  let ?rs = "http_response_header ''Connection'' (if ?keep then ''keep-alive'' else ''close'') rs"
  let ?hs = "(''Connection'', if ?keep then ''keep-alive'' else ''close'') # rs_headers rs"
  let ?st = "status_line (rs_status rs) text date"
  let ?cl = "''Content-Length: '' @ print_d (rs_content_length rs) @ CRLF"
  have len: "length ?st + (length (concat (map header_line ?hs)) + (length ?cl + length CRLF)) < 1024"
    using assms(4) by (simp add: response_head_def del: concat.simps list.map length_concat)
  have f: "rs_headers ?rs = ?hs" "rs_status ?rs = rs_status rs" "rs_content_length ?rs = rs_content_length rs"
    "rs_body ?rs = rs_body rs" by (simp_all add: http_response_header_def)
  obtain c1 where c1: "grwprintf fresh True ?st (ctx, m) = Some (c1, m)" "holds c1 ?st"
    using holds_printf [OF assms(5), of ?st fresh True m] len by auto
  obtain c2 where c2: "http_print_headers fresh ?hs (c1, m) = Some (c2, m)" "holds c2 (?st @ concat (map header_line ?hs))"
    using holds_headers [OF c1(2), of ?hs] len by (auto simp del: concat.simps list.map)
  obtain c3 where c3: "grwprintf fresh True ?cl (c2, m) = Some (c3, m)" "holds c3 ((?st @ concat (map header_line ?hs)) @ ?cl)"
    using holds_printf [OF c2(2), of ?cl fresh True m] len by (auto simp del: concat.simps list.map)
  obtain c4 where c4: "grwprintf fresh False CRLF (c3, m) = Some (c4, m)" "holds c4 (((?st @ concat (map header_line ?hs)) @ ?cl) @ CRLF)"
    using holds_printf [OF c3(2), of CRLF fresh False m] len by (auto simp del: concat.simps list.map)
  have "http_respond_headers fresh date rq rs (ctx, m) = Some (rq1, ?rs, c4, m)"
    using assms(1-3) c1(1) c2(1) c3(1) c4(1)
    by (simp add: http_respond_headers_def http_buffer_headers_def detected_def [symmetric] f Let_def
        del: http_print_headers.simps)
  then show ?thesis using c4(2) f by (simp add: response_head_def del: concat.simps list.map)
qed

end
