(* ===== verification/Http_Session.thy ===== *)
theory Http_Session
  imports Http_Response
begin

section \<open>Sessions: the request state machine and the event loop (\<open>src/http.h\<close>)\<close>

text \<open>
  A session is one connection's \<open>http_request_t\<close> together with the server it belongs to;
  the operations take and return the pair. The application is two parameters: \<open>handler\<close>,
  what the server calls for a complete request, and \<open>cbs\<close>, what stands behind the address
  of a chunk callback; a call through a null pointer is \<^const>\<open>None\<close>. \<open>sv_errno\<close> is the errno
  of the thread that runs all sessions.
\<close>

definition HTTP_REQUEST_TIMEOUT :: int where "HTTP_REQUEST_TIMEOUT = 20"
definition HTTP_KEEP_ALIVE_TIMEOUT :: int where "HTTP_KEEP_ALIVE_TIMEOUT = 120"
definition HTTP_MAX_TOTAL_EST_MEM_USAGE :: int where "HTTP_MAX_TOTAL_EST_MEM_USAGE = 4294967296"

record http_server =
  sv_memused :: int
  sv_port :: int
  sv_date :: string
  sv_data :: "nat option"
  sv_errno :: int

type_synonym session = "http_request \<times> http_server"
type_synonym handler = "session \<Rightarrow> session option"
type_synonym callbacks = "nat \<Rightarrow> session \<Rightarrow> session option"

definition http_server_set_userdata :: "nat option \<Rightarrow> http_server \<Rightarrow> http_server" where
  "http_server_set_userdata data sv = sv\<lparr>sv_data := data\<rparr>"

definition http_request_server_userdata :: "session \<Rightarrow> nat option" where
  "http_request_server_userdata ss = sv_data (snd ss)"

subsection \<open>Writing, freeing, ending\<close>

definition hs_write_client_socket :: "http_request \<Rightarrow> (bool \<times> http_request) option" where
  "hs_write_client_socket rq =
     (let s = rq_stream rq; n = s_length s - s_total_bytes s in
      if n < 0 \<or> (0 < n \<and> (s_total_bytes s < 0 \<or> int (length (request_block rq)) < s_length s)) then None
      else
        let (bytes, k) = sock_write (slice (request_block rq) (s_total_bytes s) n) (rq_conn rq);
            s = (if bytes > 0 then s\<lparr>s_total_bytes := i64 (s_total_bytes s + bytes)\<rparr> else s)
        in Some (c_errno k \<noteq> EPIPE, rq\<lparr>rq_stream := s, rq_conn := k\<rparr>))"

definition hs_free_buffer :: "session \<Rightarrow> session" where
  "hs_free_buffer ss = (let (rq, sv) = ss in
     case s_buf (rq_stream rq) of
       None \<Rightarrow> (rq, sv)
     | Some _ \<Rightarrow> (rq\<lparr>rq_stream := (rq_stream rq)\<lparr>s_buf := None\<rparr>\<rparr>,
                  sv\<lparr>sv_memused := sv_memused sv - s_capacity (rq_stream rq)\<rparr>))"

definition http_request_free_buffer :: "session \<Rightarrow> session" where
  "http_request_free_buffer ss = hs_free_buffer ss"

definition hs_init_session :: "platform \<Rightarrow> http_request \<Rightarrow> http_request" where
  "hs_init_session pf rq = rq\<lparr>rq_flags := HTTP_AUTOMATIC, rq_parser := zero_parser,
     rq_stream := empty_stream, rq_tokens := http_token_dyn_init pf 32\<rparr>"

definition hs_end_session :: "session \<Rightarrow> session" where
  "hs_end_session ss = (let (rq, sv) = hs_free_buffer ss in
     (rq\<lparr>rq_tokens := (rq_tokens rq)\<lparr>td_buf := None\<rparr>\<rparr>, sv))"

definition hs_reset_timeout :: "int \<Rightarrow> http_request \<Rightarrow> http_request" where
  "hs_reset_timeout time rq = rq\<lparr>rq_timeout := time\<rparr>"

definition hs_add_write_event :: "http_request \<Rightarrow> http_request" where
  "hs_add_write_event rq = rq\<lparr>rq_wants_write := True\<rparr>"

definition set_flag :: "flags \<Rightarrow> http_request \<Rightarrow> http_request" where
  "set_flag f rq = rq\<lparr>rq_flags := HTTP_FLAG_SET (rq_flags rq) f\<rparr>"

definition call_chunk_cb :: "callbacks \<Rightarrow> session \<Rightarrow> session option" where
  "call_chunk_cb cbs ss = (case rq_chunk_cb (fst ss) of None \<Rightarrow> None | Some f \<Rightarrow> cbs f ss)"

definition hs_write_response :: "callbacks \<Rightarrow> session \<Rightarrow> session option" where
  "hs_write_response cbs ss = do {
     let (rq, sv) = ss;
     (ok, rq) \<leftarrow> hs_write_client_socket rq;
     if \<not> ok then Some (set_flag HTTP_END_SESSION rq, sv)
     else if s_total_bytes (rq_stream rq) \<noteq> s_length (rq_stream rq) then
       Some (hs_reset_timeout HTTP_REQUEST_TIMEOUT ((hs_add_write_event rq)\<lparr>rq_state := HTTP_SESSION_WRITE\<rparr>), sv)
     else if HTTP_FLAG_CHECK (rq_flags rq) HTTP_CHUNKED_RESPONSE then
       call_chunk_cb cbs
         (hs_free_buffer (hs_reset_timeout HTTP_REQUEST_TIMEOUT (rq\<lparr>rq_state := HTTP_SESSION_WRITE\<rparr>), sv))
     else if HTTP_FLAG_CHECK (rq_flags rq) HTTP_KEEP_ALIVE then
       let (rq, sv) = hs_free_buffer (rq\<lparr>rq_state := HTTP_SESSION_INIT\<rparr>, sv) in
       Some (hs_reset_timeout HTTP_KEEP_ALIVE_TIMEOUT rq, sv)
     else Some (set_flag HTTP_END_SESSION rq, sv)
   }"

subsection \<open>Responding\<close>

definition http_end_response :: "callbacks \<Rightarrow> grwprintf_t \<times> int \<Rightarrow> session \<Rightarrow> session option" where
  "http_end_response cbs cm ss = (let (rq, sv) = ss; (ctx, m) = cm;
     (rq, sv) = hs_free_buffer (rq, sv\<lparr>sv_memused := m\<rparr>) in
     hs_write_response cbs
       (rq\<lparr>rq_stream := (rq_stream rq)\<lparr>s_buf := Some (gw_buf ctx), s_total_bytes := 0,
             s_length := gw_size ctx, s_capacity := gw_capacity ctx\<rparr>,
           rq_state := HTTP_SESSION_WRITE\<rparr>, sv))"

definition http_respond :: "platform \<Rightarrow> callbacks \<Rightarrow> http_response \<Rightarrow> session \<Rightarrow> session option" where
  "http_respond pf cbs rs ss = do {
     let (rq, sv) = ss;
     let cm = grwprintf_init (junk pf) HTTP_RESPONSE_BUF_SIZE (sv_memused sv);
     (rq, rs, ctx, m) \<leftarrow> http_respond_headers (junk pf) (sv_date sv) rq rs cm;
     cm \<leftarrow> (case rs_body rs of
             None \<Rightarrow> Some (ctx, m)
           | Some body \<Rightarrow> grwmemcpy (junk pf) body (rs_content_length rs) (ctx, m));
     http_end_response cbs cm (rq, sv)
   }"

definition http_respond_chunk ::
  "platform \<Rightarrow> callbacks \<Rightarrow> nat option \<Rightarrow> http_response \<Rightarrow> session \<Rightarrow> session option" where
  "http_respond_chunk pf cbs cb rs ss = do {
     let (rq, sv) = ss;
     let (ctx, m) = grwprintf_init (junk pf) HTTP_RESPONSE_BUF_SIZE (sv_memused sv);
     (rq, rs, ctx, m) \<leftarrow>
       (if \<not> HTTP_FLAG_CHECK (rq_flags rq) HTTP_CHUNKED_RESPONSE then
          http_respond_headers (junk pf) (sv_date sv) (set_flag HTTP_CHUNKED_RESPONSE rq)
            (http_response_header ''Transfer-Encoding'' ''chunked'' rs) (ctx, m)
        else Some (rq, rs, ctx, m));
     let rq = rq\<lparr>rq_chunk_cb := cb\<rparr>;
     cm \<leftarrow> grwprintf (junk pf) True (print_X (rs_content_length rs) @ CRLF) (ctx, m);
     cm \<leftarrow> grwmemcpy (junk pf) (case rs_body rs of None \<Rightarrow> [] | Some b \<Rightarrow> b) (rs_content_length rs) cm;
     cm \<leftarrow> grwprintf (junk pf) False CRLF cm;
     http_end_response cbs cm (rq, sv)
   }"

definition http_respond_chunk_end ::
  "platform \<Rightarrow> callbacks \<Rightarrow> http_response \<Rightarrow> session \<Rightarrow> session option" where
  "http_respond_chunk_end pf cbs rs ss = do {
     let (rq, sv) = ss;
     let cm = grwprintf_init (junk pf) HTTP_RESPONSE_BUF_SIZE (sv_memused sv);
     cm \<leftarrow> grwprintf (junk pf) False (''0'' @ CRLF) cm;
     cm \<leftarrow> http_buffer_headers (junk pf) rq rs cm;
     cm \<leftarrow> grwprintf (junk pf) False CRLF cm;
     http_end_response cbs cm
       (rq\<lparr>rq_flags := HTTP_FLAG_CLEAR (rq_flags rq) HTTP_CHUNKED_RESPONSE\<rparr>, sv)
   }"

definition hs_error_response ::
  "platform \<Rightarrow> callbacks \<Rightarrow> int \<Rightarrow> string \<Rightarrow> session \<Rightarrow> session option" where
  "hs_error_response pf cbs code message ss = do {
     let rs = http_response_body message (int (length message))
       (http_response_header ''Content-Type'' ''text/plain'' (http_response_status code http_response_init));
     ss \<leftarrow> http_respond pf cbs rs ss;
     hs_write_response cbs ss
   }"

subsection \<open>Reading and dispatching tokens\<close>

definition hs_dispatch_token ::
  "platform \<Rightarrow> handler \<Rightarrow> callbacks \<Rightarrow> hs_token \<Rightarrow> session \<Rightarrow> session option" where
  "hs_dispatch_token pf handler cbs ty ss =
     (let (rq, sv) = ss in
      if ty = HS_TOK_ERROR then hs_error_response pf cbs 400 ''Bad Request'' (rq, sv)
      else if ty \<in> {HS_TOK_BODY, HS_TOK_BODY_STREAM} then
        let rq = (if ty = HS_TOK_BODY_STREAM then set_flag HTTP_FLG_STREAMED rq else rq) in
        handler (rq\<lparr>rq_state := HTTP_SESSION_NOP\<rparr>, sv)
      else if ty = HS_TOK_CHUNK_BODY then call_chunk_cb cbs (rq\<lparr>rq_state := HTTP_SESSION_NOP\<rparr>, sv)
      else Some (rq, sv))"

partial_function (option) hs_process_tokens ::
  "platform \<Rightarrow> handler \<Rightarrow> callbacks \<Rightarrow> session \<Rightarrow> session option" where
  "hs_process_tokens pf handler cbs ss = do {
     (p, s, t) \<leftarrow> http_parse pf (rq_parser (fst ss)) (rq_stream (fst ss));
     dyn \<leftarrow> (if tok_type t \<noteq> HS_TOK_NONE then http_token_dyn_push pf t (rq_tokens (fst ss))
            else Some (rq_tokens (fst ss)));
     ss \<leftarrow> hs_dispatch_token pf handler cbs (tok_type t)
       ((fst ss)\<lparr>rq_parser := p, rq_stream := s, rq_tokens := dyn\<rparr>, snd ss);
     if tok_type t \<noteq> HS_TOK_NONE \<and> rq_state (fst ss) = HTTP_SESSION_READ
     then hs_process_tokens pf handler cbs ss else Some ss
   }"

declare hs_process_tokens.simps [code]

definition hs_read_and_process_request ::
  "platform \<Rightarrow> handler \<Rightarrow> callbacks \<Rightarrow> session \<Rightarrow> session option" where
  "hs_read_and_process_request pf handler cbs ss = do {
     let (rq, sv) = ss;
     let rq = hs_reset_timeout HTTP_REQUEST_TIMEOUT (rq\<lparr>rq_state := HTTP_SESSION_READ\<rparr>);
     (rc, s, k, m) \<leftarrow> hs_stream_read_socket (junk pf) (rq_stream rq) (rq_conn rq) (sv_memused sv);
     let rq = rq\<lparr>rq_stream := s, rq_conn := k\<rparr>;
     let sv = sv\<lparr>sv_memused := m\<rparr>;
     if rc = 0 then Some (set_flag HTTP_END_SESSION rq, sv)
     else hs_process_tokens pf handler cbs (rq, sv)
   }"

definition http_request_read_chunk ::
  "platform \<Rightarrow> handler \<Rightarrow> callbacks \<Rightarrow> nat option \<Rightarrow> session \<Rightarrow> session option" where
  "http_request_read_chunk pf handler cbs cb ss =
     hs_read_and_process_request pf handler cbs ((fst ss)\<lparr>rq_chunk_cb := cb\<rparr>, snd ss)"

text \<open>
  The state machine. The result says whether the session lives on; a session that has ended
  is returned with its memory released.
\<close>

definition end_if_flagged :: "session \<Rightarrow> bool \<times> session" where
  "end_if_flagged ss =
     (if HTTP_FLAG_CHECK (rq_flags (fst ss)) HTTP_END_SESSION then (False, hs_end_session ss) else (True, ss))"

definition http_session ::
  "platform \<Rightarrow> handler \<Rightarrow> callbacks \<Rightarrow> session \<Rightarrow> (bool \<times> session) option" where
  "http_session pf handler cbs ss = (let (rq, sv) = ss in
     case rq_state rq of
       HTTP_SESSION_INIT \<Rightarrow>
         let rq = (hs_init_session pf rq)\<lparr>rq_state := HTTP_SESSION_READ\<rparr> in
         if sv_memused sv > HTTP_MAX_TOTAL_EST_MEM_USAGE
         then map_option (Pair True) (hs_error_response pf cbs 503 ''Service Unavailable'' (rq, sv))
         else map_option end_if_flagged (hs_read_and_process_request pf handler cbs (rq, sv))
     | HTTP_SESSION_READ \<Rightarrow> map_option end_if_flagged (hs_read_and_process_request pf handler cbs (rq, sv))
     | HTTP_SESSION_WRITE \<Rightarrow> map_option end_if_flagged (hs_write_response cbs (rq, sv))
     | HTTP_SESSION_NOP \<Rightarrow> Some (end_if_flagged (rq, sv)))"

subsection \<open>Accepting and the event loop\<close>

definition new_session :: "conn \<Rightarrow> http_request" where
  "new_session k = \<lparr>rq_stream = empty_stream, rq_parser = zero_parser, rq_state = HTTP_SESSION_INIT,
     rq_timeout = HTTP_REQUEST_TIMEOUT, rq_tokens = \<lparr>td_buf = None, td_capacity = 0, td_size = 0\<rparr>,
     rq_flags = 0, rq_chunk_cb = None, rq_data = None, rq_conn = k, rq_wants_write = False\<rparr>"

record world =
  w_server :: http_server
  w_sessions :: "nat \<Rightarrow> http_request option"
  w_next :: nat

text \<open>One session runs: errno is the thread's, and the session is dropped when it has ended.\<close>

definition run_session ::
  "(session \<Rightarrow> (bool \<times> session) option) \<Rightarrow> nat \<Rightarrow> http_request \<Rightarrow> world \<Rightarrow> world option" where
  "run_session f i rq w = do {
     (alive, rq, sv) \<leftarrow> f (rq\<lparr>rq_conn := (rq_conn rq)\<lparr>c_errno := sv_errno (w_server w)\<rparr>\<rparr>, w_server w);
     Some (w\<lparr>w_server := sv\<lparr>sv_errno := c_errno (rq_conn rq)\<rparr>,
             w_sessions := (w_sessions w)(i := (if alive then Some rq else None))\<rparr>)
   }"

text \<open>
  What \<open>epoll_wait\<close> reports, in the order it does: the listening socket with the
  connections that \<open>accept\<close> then returns, a session's socket with what has arrived on it
  and how its writes will go, and the ticks of the timers.
\<close>

datatype event =
    Listen "conn list"
  | Io nat "segment list" "write_event list"
  | Request_timer nat
  | Server_timer string

fun hs_accept_connections ::
  "platform \<Rightarrow> handler \<Rightarrow> callbacks \<Rightarrow> conn list \<Rightarrow> world \<Rightarrow> world option" where
  "hs_accept_connections pf handler cbs [] w = Some w"
| "hs_accept_connections pf handler cbs (k # ks) w = do {
     w \<leftarrow> run_session (http_session pf handler cbs) (w_next w) (new_session k) (w\<lparr>w_next := Suc (w_next w)\<rparr>);
     hs_accept_connections pf handler cbs ks w
   }"

definition hs_request_timer_cb :: "session \<Rightarrow> (bool \<times> session) option" where
  "hs_request_timer_cb ss = (let (rq, sv) = ss; rq = rq\<lparr>rq_timeout := i32 (rq_timeout rq - 1)\<rparr> in
     Some (if rq_timeout rq = 0 then (False, hs_end_session (rq, sv)) else (True, rq, sv)))"

definition hs_server_timer_cb :: "string \<Rightarrow> http_server \<Rightarrow> http_server" where
  "hs_server_timer_cb date sv = sv\<lparr>sv_date := date\<rparr>"

text \<open>An event of a session that is gone is never delivered: its descriptors are closed.\<close>

definition http_server_step ::
  "platform \<Rightarrow> handler \<Rightarrow> callbacks \<Rightarrow> event \<Rightarrow> world \<Rightarrow> world option" where
  "http_server_step pf handler cbs ev w =
     (case ev of
        Listen ks \<Rightarrow> hs_accept_connections pf handler cbs ks w
      | Io i segs wr \<Rightarrow>
          (case w_sessions w i of
             None \<Rightarrow> Some w
           | Some rq \<Rightarrow> run_session (http_session pf handler cbs) i
               (rq\<lparr>rq_conn := (rq_conn rq)\<lparr>c_rx := c_rx (rq_conn rq) @ segs, c_wr := wr\<rparr>\<rparr>) w)
      | Request_timer i \<Rightarrow>
          (case w_sessions w i of None \<Rightarrow> Some w | Some rq \<Rightarrow> run_session hs_request_timer_cb i rq w)
      | Server_timer date \<Rightarrow> Some (w\<lparr>w_server := hs_server_timer_cb date (w_server w)\<rparr>))"

fun http_server_run ::
  "platform \<Rightarrow> handler \<Rightarrow> callbacks \<Rightarrow> event list \<Rightarrow> world \<Rightarrow> world option" where
  "http_server_run pf handler cbs [] w = Some w"
| "http_server_run pf handler cbs (ev # evs) w = do {
     w \<leftarrow> http_server_step pf handler cbs ev w;
     http_server_run pf handler cbs evs w
   }"

definition http_server_init :: "int \<Rightarrow> string \<Rightarrow> http_server" where
  "http_server_init port date = \<lparr>sv_memused = 0, sv_port = port, sv_date = date, sv_data = None, sv_errno = 0\<rparr>"

definition init_world :: "http_server \<Rightarrow> world" where
  "init_world sv = \<lparr>w_server = sv, w_sessions = (\<lambda>_. None), w_next = 0\<rparr>"

end
