(* ===== verification/Rest_Api.thy ===== *)
theory Rest_Api
  imports Http_Session
begin

section \<open>The gateway's REST interface (\<open>src/RestApi.cpp\<close>)\<close>

text \<open>
  The request handler the gateway gives to the server, and the theorems on the responses it
  sends. The gateway registers no chunk callback.
\<close>

definition no_callbacks :: callbacks where
  "no_callbacks = (\<lambda>_ _. None)"

definition request_target_is :: "http_request \<Rightarrow> string \<Rightarrow> bool option" where
  "request_target_is rq target = do {
     url \<leftarrow> http_request_target rq;
     if int (length target) = str_len url
     then map_option (\<lambda>bytes. bytes = target) (string_text (request_block rq) url)
     else Some False
   }"

definition control_reply :: string where
  "control_reply = ''{'' @ [CHR 0x22] @ ''status'' @ [CHR 0x22] @ '': '' @ [CHR 0x22] @ ''OK'' @ [CHR 0x22] @ ''}''"

definition handle_request :: "platform \<Rightarrow> callbacks \<Rightarrow> handler" where
  "handle_request pf cbs ss = do {
     let rq = http_request_connection 8 (fst ss);
     control \<leftarrow> request_target_is rq ''/control'';
     let rs = (if control
       then http_response_body control_reply (int (length control_reply))
              (http_response_header ''Content-Type'' ''text/plain'' http_response_init)
       else http_response_init);
     http_respond pf cbs rs (rq, snd ss)
   }"

definition restapi_init :: "int \<Rightarrow> int" where
  "restapi_init pthread_result = (if pthread_result < 0 then - 1 else 0)"

abbreviation gateway_session :: "platform \<Rightarrow> session \<Rightarrow> (bool \<times> session) option" where
  "gateway_session pf \<equiv> http_session pf (handle_request pf no_callbacks) no_callbacks"

abbreviation gateway_step :: "platform \<Rightarrow> event \<Rightarrow> world \<Rightarrow> world option" where
  "gateway_step pf \<equiv> http_server_step pf (handle_request pf no_callbacks) no_callbacks"

abbreviation gateway_run :: "platform \<Rightarrow> event list \<Rightarrow> world \<Rightarrow> world option" where
  "gateway_run pf \<equiv> http_server_run pf (handle_request pf no_callbacks) no_callbacks"

lemma request_connection_automatic [simp]: "http_request_connection 8 rq = rq"
  by (simp add: http_request_connection_def)

subsection \<open>Writing a response\<close>

text \<open>The memory a session holds on the server's account.\<close>

definition held :: "http_request \<Rightarrow> int" where
  "held rq = (if s_buf (rq_stream rq) = None then 0 else s_capacity (rq_stream rq))"

definition account :: "session \<Rightarrow> int" where
  "account ss = sv_memused (snd ss) - held (fst ss)"

lemma free_buffer_account [simp]: "account (hs_free_buffer ss) = account ss"
  by (auto simp: account_def held_def hs_free_buffer_def split: prod.split option.split)

lemma free_buffer_held [simp]: "held (fst (hs_free_buffer ss)) = 0" "s_buf (rq_stream (fst (hs_free_buffer ss))) = None"
  by (auto simp: held_def hs_free_buffer_def split: prod.split option.split)

lemma free_buffer_frame [simp]:
  "rq_state (fst (hs_free_buffer ss)) = rq_state (fst ss)" "rq_flags (fst (hs_free_buffer ss)) = rq_flags (fst ss)"
  "rq_conn (fst (hs_free_buffer ss)) = rq_conn (fst ss)" "rq_tokens (fst (hs_free_buffer ss)) = rq_tokens (fst ss)"
  "rq_timeout (fst (hs_free_buffer ss)) = rq_timeout (fst ss)" "rq_wants_write (fst (hs_free_buffer ss)) = rq_wants_write (fst ss)"
  "rq_chunk_cb (fst (hs_free_buffer ss)) = rq_chunk_cb (fst ss)" "rq_parser (fst (hs_free_buffer ss)) = rq_parser (fst ss)"
  "sv_date (snd (hs_free_buffer ss)) = sv_date (snd ss)" "sv_errno (snd (hs_free_buffer ss)) = sv_errno (snd ss)"
  "s_length (rq_stream (fst (hs_free_buffer ss))) = s_length (rq_stream (fst ss))"
  "s_total_bytes (rq_stream (fst (hs_free_buffer ss))) = s_total_bytes (rq_stream (fst ss))"
  by (auto simp: hs_free_buffer_def split: prod.split option.split)

text \<open>A session whose buffer holds a response, written up to \<open>s_total_bytes\<close>.\<close>

definition writing :: "http_request \<Rightarrow> bool" where
  "writing rq \<longleftrightarrow> \<not> HTTP_FLAG_CHECK (rq_flags rq) HTTP_CHUNKED_RESPONSE \<and>
     0 \<le> s_total_bytes (rq_stream rq) \<and> s_total_bytes (rq_stream rq) \<le> s_length (rq_stream rq) \<and>
     s_length (rq_stream rq) \<le> 2147483647 \<and>
     (s_total_bytes (rq_stream rq) < s_length (rq_stream rq) \<longrightarrow>
        s_length (rq_stream rq) \<le> int (length (request_block rq)))"

text \<open>What the rest of the response is.\<close>

definition unsent :: "http_request \<Rightarrow> string" where
  "unsent rq = slice (request_block rq) (s_total_bytes (rq_stream rq))
     (s_length (rq_stream rq) - s_total_bytes (rq_stream rq))"

lemma length_unsent:
  "writing rq \<Longrightarrow> int (length (unsent rq)) = s_length (rq_stream rq) - s_total_bytes (rq_stream rq)"
  by (auto simp: writing_def unsent_def slice_def min_def)

lemma write_client_socket_spec:
  assumes "writing rq"
  shows "\<exists>ok n k. hs_write_client_socket rq =
      Some (ok, rq\<lparr>rq_stream := (rq_stream rq)\<lparr>s_total_bytes := s_total_bytes (rq_stream rq) + int n\<rparr>, rq_conn := k\<rparr>) \<and>
    n \<le> length (unsent rq) \<and> (ok \<longleftrightarrow> c_errno k \<noteq> EPIPE) \<and> c_tx k = c_tx (rq_conn rq) @ take n (unsent rq) \<and>
    c_rx k = c_rx (rq_conn rq)"
proof -
  let ?s = "rq_stream rq"
  let ?n = "s_length ?s - s_total_bytes ?s"
  obtain r k where w: "sock_write (unsent rq) (rq_conn rq) = (r, k)" by fastforce
  have len: "int (length (unsent rq)) = ?n" by (rule length_unsent [OF assms])
  have rx: "c_rx k = c_rx (rq_conn rq)"
    using w by (auto simp: sock_write_def split: list.splits write_event.splits)
  have neg: "\<not> 0 \<le> r \<Longrightarrow> c_tx k = c_tx (rq_conn rq)"
    using w by (auto simp: sock_write_def split: list.splits write_event.splits)
  define n where "n = (if 0 < r then nat r else 0)"
  have n: "n \<le> length (unsent rq)" "c_tx k = c_tx (rq_conn rq) @ take n (unsent rq)"
    using sock_write_count [OF w] neg by (cases "r = 0"; auto simp: n_def)+
  have sz: "s_total_bytes ?s + int n \<le> 2147483647" "0 \<le> s_total_bytes ?s"
    using n(1) len assms by (auto simp: writing_def)
  have "hs_write_client_socket rq =
      Some (c_errno k \<noteq> EPIPE, rq\<lparr>rq_stream := ?s\<lparr>s_total_bytes := s_total_bytes ?s + int n\<rparr>, rq_conn := k\<rparr>)"
    using assms w sz by (auto simp: hs_write_client_socket_def writing_def unsent_def Let_def n_def)
  then show ?thesis using n rx by blast
qed

text \<open>A session after its response was printed: being written, or done and reset.\<close>

definition responded :: "http_request \<Rightarrow> bool" where
  "responded rq \<longleftrightarrow> writing rq \<and>
     (rq_state rq = HTTP_SESSION_WRITE \<or>
      rq_state rq = HTTP_SESSION_INIT \<and> s_buf (rq_stream rq) = None \<and>
        s_total_bytes (rq_stream rq) = s_length (rq_stream rq))"

lemma writing_cong:
  "writing rq \<Longrightarrow> rq_stream rq' = rq_stream rq \<Longrightarrow>
   HTTP_FLAG_CHECK (rq_flags rq') HTTP_CHUNKED_RESPONSE = HTTP_FLAG_CHECK (rq_flags rq) HTTP_CHUNKED_RESPONSE \<Longrightarrow>
   writing rq'"
  by (simp add: writing_def request_block_def)

lemma write_response_spec:
  assumes "responded rq"
  shows "\<exists>rq' sv' n. hs_write_response cbs (rq, sv) = Some (rq', sv') \<and> responded rq' \<and>
    account (rq', sv') = account (rq, sv) \<and> sv_date sv' = sv_date sv \<and> n \<le> length (unsent rq) \<and>
    c_tx (rq_conn rq') = c_tx (rq_conn rq) @ take n (unsent rq) \<and> c_rx (rq_conn rq') = c_rx (rq_conn rq)"
proof -
  let ?s = "rq_stream rq"
  have wr: "writing rq" using assms by (simp add: responded_def)
  obtain ok n k where w: "hs_write_client_socket rq =
      Some (ok, rq\<lparr>rq_stream := ?s\<lparr>s_total_bytes := s_total_bytes ?s + int n\<rparr>, rq_conn := k\<rparr>)"
    and n: "n \<le> length (unsent rq)" and tx: "c_tx k = c_tx (rq_conn rq) @ take n (unsent rq)"
    and rx: "c_rx k = c_rx (rq_conn rq)"
    using write_client_socket_spec [OF wr] by blast
  let ?rq = "rq\<lparr>rq_stream := ?s\<lparr>s_total_bytes := s_total_bytes ?s + int n\<rparr>, rq_conn := k\<rparr>"
  have le: "s_total_bytes ?s + int n \<le> s_length ?s" using n length_unsent [OF wr] by linarith
  have n0: "s_total_bytes ?s = s_length ?s \<Longrightarrow> n = 0" using n length_unsent [OF wr] by simp
  have wr1: "writing ?rq" using wr le by (auto simp: writing_def request_block_def)
  have chk: "\<not> HTTP_FLAG_CHECK (rq_flags rq) HTTP_CHUNKED_RESPONSE" using wr by (simp add: writing_def)
  have acc: "account (?rq, sv) = account (rq, sv)" by (simp add: account_def held_def)
  have end_flag: "writing (set_flag HTTP_END_SESSION ?rq)"
    by (rule writing_cong [OF wr1]) (simp_all add: set_flag_def flag_simps request_flags)
  have st: "rq_state rq = HTTP_SESSION_WRITE \<or> rq_state rq = HTTP_SESSION_INIT \<and>
      s_buf ?s = None \<and> s_total_bytes ?s = s_length ?s"
    using assms by (simp add: responded_def)
  consider (fail) "\<not> ok \<or> (ok \<and> s_total_bytes ?s + int n = s_length ?s \<and> \<not> HTTP_FLAG_CHECK (rq_flags rq) HTTP_KEEP_ALIVE)"
    | (partial) "ok" "s_total_bytes ?s + int n \<noteq> s_length ?s"
    | (keep) "ok" "s_total_bytes ?s + int n = s_length ?s" "HTTP_FLAG_CHECK (rq_flags rq) HTTP_KEEP_ALIVE"
    by blast
  then show ?thesis
  proof cases
    case fail
    then have "hs_write_response cbs (rq, sv) = Some (set_flag HTTP_END_SESSION ?rq, sv)"
      using w chk by (auto simp: hs_write_response_def)
    moreover have "responded (set_flag HTTP_END_SESSION ?rq)"
      using end_flag st n0 by (auto simp: responded_def set_flag_def)
    ultimately show ?thesis using n tx rx
      by (auto simp: set_flag_def account_def held_def intro!: exI [of _ n])
  next
    case partial
    let ?q = "hs_reset_timeout HTTP_REQUEST_TIMEOUT ((hs_add_write_event ?rq)\<lparr>rq_state := HTTP_SESSION_WRITE\<rparr>)"
    have "hs_write_response cbs (rq, sv) = Some (?q, sv)"
      using w partial by (simp add: hs_write_response_def)
    moreover have "responded ?q"
      using writing_cong [OF wr1, of ?q] by (simp add: responded_def hs_reset_timeout_def hs_add_write_event_def)
    ultimately show ?thesis using n tx rx
      by (auto simp: account_def held_def hs_reset_timeout_def hs_add_write_event_def intro!: exI [of _ n])
  next
    case keep
    let ?f = "hs_free_buffer (?rq\<lparr>rq_state := HTTP_SESSION_INIT\<rparr>, sv)"
    let ?q = "hs_reset_timeout HTTP_KEEP_ALIVE_TIMEOUT (fst ?f)"
    have r: "hs_write_response cbs (rq, sv) = Some (?q, snd ?f)"
      using w keep chk by (simp add: hs_write_response_def case_prod_unfold Let_def)
    have "writing (fst ?f)" using wr1 keep(2) by (simp add: writing_def)
    then have "responded ?q"
      using keep(2) by (simp add: responded_def hs_reset_timeout_def writing_def request_block_def)
    moreover have "account (?q, snd ?f) = account (rq, sv)"
      using free_buffer_account [of "(?rq\<lparr>rq_state := HTTP_SESSION_INIT\<rparr>, sv)"]
      by (simp add: account_def held_def hs_reset_timeout_def)
    ultimately show ?thesis using r n tx rx
      by (auto simp: hs_reset_timeout_def intro!: exI [of _ n])
  qed
qed

subsection \<open>The response printed\<close>

lemma auto_detect_flags:
  assumes "hs_auto_detect_keep_alive rq = Some rq1"
  shows "rq1 = rq \<or> rq1 = rq\<lparr>rq_flags := HTTP_FLAG_CLEAR (rq_flags rq) HTTP_KEEP_ALIVE\<rparr> \<or>
    rq1 = rq\<lparr>rq_flags := HTTP_FLAG_SET (rq_flags rq) HTTP_KEEP_ALIVE\<rparr>"
proof -
  obtain str where str: "http_get_token_string rq HS_TOK_VERSION = Some str"
    using assms by (cases "http_get_token_string rq HS_TOK_VERSION") (simp_all add: hs_auto_detect_keep_alive_def)
  show ?thesis
  proof (cases "str_buf str")
    case None
    then show ?thesis using assms str by (simp add: hs_auto_detect_keep_alive_def)
  next
    case (Some i)
    obtain c where c: "block_read (request_block rq) (i + str_len str - 1) = Some c"
      using assms str Some
      by (cases "block_read (request_block rq) (i + str_len str - 1)") (simp_all add: hs_auto_detect_keep_alive_def)
    obtain con where con: "http_request_header rq ''Connection'' = Some con"
      using assms str Some c
      by (cases "http_request_header rq ''Connection''") (simp_all add: hs_auto_detect_keep_alive_def)
    show ?thesis using assms str Some c con
      by (auto simp: hs_auto_detect_keep_alive_def bind_eq_Some_conv simp del: hs_case_insensitive_cmp.simps)
  qed
qed

lemma detected_frame:
  assumes "detected rq = Some rq1"
  shows "rq1 = rq\<lparr>rq_flags := rq_flags rq1\<rparr> \<and>
   (HTTP_FLAG_CHECK (rq_flags rq1) HTTP_CHUNKED_RESPONSE \<longleftrightarrow> HTTP_FLAG_CHECK (rq_flags rq) HTTP_CHUNKED_RESPONSE)"
proof (cases "HTTP_FLAG_CHECK (rq_flags rq) HTTP_AUTOMATIC")
  case True
  then have "hs_auto_detect_keep_alive rq = Some rq1" using assms by (simp add: detected_def)
  from auto_detect_flags [OF this] show ?thesis
    by (elim disjE) (simp_all add: flag_simps request_flags)
next
  case False
  then show ?thesis using assms by (simp add: detected_def)
qed

definition body_given :: "http_response \<Rightarrow> bool" where
  "body_given rs \<longleftrightarrow> (case rs_body rs of None \<Rightarrow> True
     | Some body \<Rightarrow> 0 \<le> rs_content_length rs \<and> rs_content_length rs \<le> int (length body) \<and> rs_content_length rs \<le> 1073741824)"

lemma http_respond_spec:
  assumes det: "detected rq = Some rq1" and chk: "\<not> HTTP_FLAG_CHECK (rq_flags rq) HTTP_CHUNKED_RESPONSE"
    and status: "block_read hs_status_text (rs_status rs) = Some text"
    and fits: "length (response_head text (sv_date sv) (HTTP_FLAG_CHECK (rq_flags rq1) HTTP_KEEP_ALIVE) rs) < 1024"
    and body: "body_given rs"
  shows "\<exists>rq2 sv2. http_respond pf cbs rs (rq, sv) = hs_write_response cbs (rq2, sv2) \<and>
    responded rq2 \<and> unsent rq2 = response_text text (sv_date sv) (HTTP_FLAG_CHECK (rq_flags rq1) HTTP_KEEP_ALIVE) rs \<and>
    account (rq2, sv2) = account (rq, sv) \<and> sv_date sv2 = sv_date sv \<and> rq_conn rq2 = rq_conn rq \<and>
    rq_flags rq2 = rq_flags rq1"
proof -
  let ?keep = "HTTP_FLAG_CHECK (rq_flags rq1) HTTP_KEEP_ALIVE"
  let ?head = "response_head text (sv_date sv) ?keep rs" and ?m = "sv_memused sv + HTTP_RESPONSE_BUF_SIZE"
  have chk1: "\<not> HTTP_FLAG_CHECK (rq_flags rq1) HTTP_CHUNKED_RESPONSE" and rq1: "rq1 = rq\<lparr>rq_flags := rq_flags rq1\<rparr>"
    using detected_frame [OF det] chk by auto
  obtain c0 where c0: "grwprintf_init (junk pf) HTTP_RESPONSE_BUF_SIZE (sv_memused sv) = (c0, ?m)" "holds c0 []"
    using holds_init [of "junk pf" "sv_memused sv"] by auto
  obtain c1 rs1 where c1: "http_respond_headers (junk pf) (sv_date sv) rq rs (c0, ?m) = Some (rq1, rs1, c1, ?m)"
    "rs_body rs1 = rs_body rs" "rs_content_length rs1 = rs_content_length rs" "holds c1 ?head"
    using respond_headers_prints [OF det chk1 status fits c0(2), of "junk pf" ?m] by blast
  obtain c2 m2 where c2: "(case rs_body rs1 of None \<Rightarrow> Some (c1, ?m)
      | Some body \<Rightarrow> grwmemcpy (junk pf) body (rs_content_length rs1) (c1, ?m)) = Some (c2, m2)"
    and wf2: "gw_wf c2" and text2: "gw_text c2 = response_text text (sv_date sv) ?keep rs"
    and m2: "m2 - gw_capacity c2 = sv_memused sv"
  proof (cases "rs_body rs")
    case None
    then show thesis using that [of c1 ?m] c1 by (simp add: response_text_def holds_def)
  next
    case (Some b)
    have "printed (c1, ?m) (take (nat (rs_content_length rs)) b) (grwmemcpy (junk pf) b (rs_content_length rs) (c1, ?m))"
      by (rule grwmemcpy_prints) (use c1(4) Some body fits holds_size [OF c1(4)] in \<open>auto simp: holds_def body_given_def\<close>)
    then show thesis using that c1 Some
      by (auto simp: printed_def response_text_def holds_def split: option.splits)
  qed
  have sz: "gw_size c2 = int (length (gw_text c2))" using gw_text_length [OF wf2] by simp
  obtain rq0 sv2 where f: "hs_free_buffer (rq1, sv\<lparr>sv_memused := m2\<rparr>) = (rq0, sv2)" by fastforce
  define rq2 where "rq2 = rq0\<lparr>rq_stream := (rq_stream rq0)\<lparr>s_buf := Some (gw_buf c2), s_total_bytes := 0,
     s_length := gw_size c2, s_capacity := gw_capacity c2\<rparr>, rq_state := HTTP_SESSION_WRITE\<rparr>"
  have r: "http_respond pf cbs rs (rq, sv) = hs_write_response cbs (rq2, sv2)"
    using c0(1) c1(1) c2 f
    by (simp add: http_respond_def http_end_response_def rq2_def cong: option.case_cong)
  have fr: "rq_flags rq0 = rq_flags rq1" "rq_conn rq0 = rq_conn rq1" "sv_date sv2 = sv_date sv"
    "sv_memused sv2 = m2 - held rq1"
    using free_buffer_frame(2,3,9) [of "(rq1, sv\<lparr>sv_memused := m2\<rparr>)"] free_buffer_held(1) [of "(rq1, sv\<lparr>sv_memused := m2\<rparr>)"]
      free_buffer_account [of "(rq1, sv\<lparr>sv_memused := m2\<rparr>)"]
    unfolding f by (simp_all add: account_def)
  have rq1': "held rq1 = held rq" "rq_conn rq1 = rq_conn rq" by (subst rq1, simp add: held_def)+
  have resp: "responded rq2"
    using wf2 chk1 fr by (simp add: responded_def writing_def request_block_def gw_wf_def rq2_def)
  have "unsent rq2 = gw_text c2"
    by (simp add: unsent_def request_block_def slice_def gw_text_def rq2_def)
  moreover have "account (rq2, sv2) = account (rq, sv)"
    using m2 fr rq1' by (simp add: account_def held_def rq2_def)
  moreover have "rq_conn rq2 = rq_conn rq" "rq_flags rq2 = rq_flags rq1" using fr rq1' by (simp_all add: rq2_def)
  ultimately show ?thesis using r resp text2 fr(3) by auto
qed

subsection \<open>The responses the gateway sends\<close>

definition error_reply :: "int \<Rightarrow> string \<Rightarrow> http_response" where
  "error_reply code message = http_response_body message (int (length message))
     (http_response_header ''Content-Type'' ''text/plain'' (http_response_status code http_response_init))"

definition control_response :: "bool \<Rightarrow> http_response" where
  "control_response control = (if control
     then http_response_body control_reply (int (length control_reply))
            (http_response_header ''Content-Type'' ''text/plain'' http_response_init)
     else http_response_init)"

definition gateway_replies :: "http_response set" where
  "gateway_replies = {control_response True, control_response False,
     error_reply 400 ''Bad Request'', error_reply 503 ''Service Unavailable''}"

lemmas response_defs = http_response_body_def http_response_header_def http_response_status_def http_response_init_def

lemma numbers_printed: "print_d 0 = ''0''" "print_d 11 = ''11''" "print_d 16 = ''16''" "print_d 19 = ''19''"
  "print_d 200 = ''200''" "print_d 400 = ''400''" "print_d 503 = ''503''"
  by code_simp+

lemma reply_fields:
  "rs \<in> gateway_replies \<Longrightarrow> rs_status rs \<in> {200, 400, 503} \<and> rs_content_length rs \<in> {0, 11, 16, 19} \<and>
    rs_headers rs \<in> {[], [(''Content-Type'', ''text/plain'')]} \<and> body_given rs"
  by (auto simp: gateway_replies_def control_response_def error_reply_def response_defs control_reply_def body_given_def)

definition reason :: "int \<Rightarrow> string" where
  "reason st = (if st = 200 then ''OK'' else if st = 400 then ''Bad Request'' else ''Service Unavailable'')"

lemma reason_found: "st \<in> {200, 400, 503} \<Longrightarrow> block_read hs_status_text st = Some (reason st)"
proof -
  have "block_read hs_status_text 200 = Some (reason 200)" "block_read hs_status_text 400 = Some (reason 400)"
    "block_read hs_status_text 503 = Some (reason 503)"
    by (simp_all add: block_read_def hs_status_text_def status_row_def reason_def nth_append)
  then show "st \<in> {200, 400, 503} \<Longrightarrow> ?thesis" by auto
qed

lemma reply_fits:
  assumes "rs \<in> gateway_replies" and "length date \<le> 31"
  shows "length (response_head (reason (rs_status rs)) date keep rs) < 1024"
  using reply_fields [OF assms(1)] assms(2)
  by (auto simp: response_head_def status_line_def header_line_def CRLF_def numbers_printed reason_def)

definition gateway_reply :: "string \<Rightarrow> bool \<Rightarrow> http_response \<Rightarrow> string" where
  "gateway_reply date keep rs = response_text (reason (rs_status rs)) date keep rs"

lemma respond_reply:
  assumes "rs \<in> gateway_replies" and "length (sv_date sv) \<le> 31" and "detected rq = Some rq1"
    and "\<not> HTTP_FLAG_CHECK (rq_flags rq) HTTP_CHUNKED_RESPONSE"
  shows "\<exists>rq2 sv2. http_respond pf cbs rs (rq, sv) = hs_write_response cbs (rq2, sv2) \<and>
    responded rq2 \<and> unsent rq2 = gateway_reply (sv_date sv) (HTTP_FLAG_CHECK (rq_flags rq1) HTTP_KEEP_ALIVE) rs \<and>
    account (rq2, sv2) = account (rq, sv) \<and> sv_date sv2 = sv_date sv \<and> rq_conn rq2 = rq_conn rq \<and>
    rq_flags rq2 = rq_flags rq1"
  unfolding gateway_reply_def
  by (rule http_respond_spec [OF assms(3,4) reason_found reply_fits [OF assms(1,2)]])
     (use reply_fields [OF assms(1)] in auto)

text \<open>Whatever the tokens are, a reply is printed and its writing begins.\<close>

definition same_server :: "session \<Rightarrow> session \<Rightarrow> bool" where
  "same_server ss ss' \<longleftrightarrow> account ss' = account ss \<and> sv_date (snd ss') = sv_date (snd ss) \<and>
     c_rx (rq_conn (fst ss')) = c_rx (rq_conn (fst ss))"

lemma detected_total: "tokens_ok rq \<Longrightarrow> \<exists>rq1. detected rq = Some rq1"
  using auto_detect_total [of rq] by (simp add: detected_def)

lemma respond_total:
  assumes "rs \<in> gateway_replies" and "length (sv_date sv) \<le> 31" and "\<exists>rq1. detected rq = Some rq1"
    and "\<not> HTTP_FLAG_CHECK (rq_flags rq) HTTP_CHUNKED_RESPONSE"
  shows "\<exists>ss'. http_respond pf cbs rs (rq, sv) = Some ss' \<and> responded (fst ss') \<and> same_server (rq, sv) ss'"
proof -
  obtain rq1 where "detected rq = Some rq1" using assms(3) by blast
  from respond_reply [OF assms(1,2) this assms(4), of pf cbs]
  obtain rq2 sv2 where 2: "http_respond pf cbs rs (rq, sv) = hs_write_response cbs (rq2, sv2)" "responded rq2"
    "account (rq2, sv2) = account (rq, sv)" "sv_date sv2 = sv_date sv" "rq_conn rq2 = rq_conn rq" by blast
  show ?thesis using write_response_spec [OF 2(2), of cbs sv2] 2 by (auto simp: same_server_def)
qed

lemma handle_request_eq:
  "request_target_is (fst ss) ''/control'' = Some control \<Longrightarrow>
   handle_request pf cbs ss = http_respond pf cbs (control_response control) ss"
  by (simp add: handle_request_def control_response_def)

lemma target_total:
  assumes "tokens_ok rq" and "target \<noteq> []"
  shows "\<exists>c. request_target_is rq target = Some c"
proof -
  obtain str where str: "http_get_token_string rq HS_TOK_TARGET = Some str"
    "str = null_string \<or> (\<exists>t. str = token_string t \<and> token_in (request_block rq) t \<and> tok_type t = HS_TOK_TARGET)"
    using token_string_total [OF assms(1)] by blast
  then show ?thesis using assms(2)
    by (elim disjE) (auto simp: request_target_is_def http_request_target_def null_string_def string_text_def
        token_string_def token_in_def)
qed

lemma handle_request_total:
  assumes "tokens_ok rq" and "length (sv_date sv) \<le> 31" and "\<not> HTTP_FLAG_CHECK (rq_flags rq) HTTP_CHUNKED_RESPONSE"
  shows "\<exists>ss'. handle_request pf cbs (rq, sv) = Some ss' \<and> responded (fst ss') \<and> same_server (rq, sv) ss'"
proof -
  obtain c where c: "request_target_is rq ''/control'' = Some c" using target_total [OF assms(1)] by blast
  have "control_response c \<in> gateway_replies" by (cases c) (simp_all add: gateway_replies_def)
  from respond_total [OF this assms(2) detected_total [OF assms(1)] assms(3)] show ?thesis
    using handle_request_eq [of "(rq, sv)"] c by simp
qed

lemma error_response_total:
  assumes "(code, message) \<in> {(400, ''Bad Request''), (503, ''Service Unavailable'')}"
    and "length (sv_date sv) \<le> 31" and "\<exists>rq1. detected rq = Some rq1"
    and "\<not> HTTP_FLAG_CHECK (rq_flags rq) HTTP_CHUNKED_RESPONSE"
  shows "\<exists>ss'. hs_error_response pf cbs code message (rq, sv) = Some ss' \<and> responded (fst ss') \<and> same_server (rq, sv) ss'"
proof -
  have g: "error_reply code message \<in> gateway_replies" using assms(1) by (auto simp: gateway_replies_def)
  obtain rq1 sv1 where 1: "http_respond pf cbs (error_reply code message) (rq, sv) = Some (rq1, sv1)"
    "responded rq1" "same_server (rq, sv) (rq1, sv1)"
    using respond_total [OF g assms(2-4), of pf cbs] by auto
  show ?thesis using write_response_spec [OF 1(2), of cbs sv1] 1
    by (auto simp: hs_error_response_def error_reply_def same_server_def)
qed

subsection \<open>The reply to a request\<close>

text \<open>Whether the connection stays open, from the version and the headers.\<close>

definition keep_alive :: "string \<Rightarrow> (string \<times> string) list \<Rightarrow> bool" where
  "keep_alive w hs = (case header_value hs ''Connection'' of
     None \<Rightarrow> last w = CHR ''1''
   | Some v \<Rightarrow> if v = [] then last w = CHR ''1'' else map lower v \<noteq> ''close'')"

lemma string_text_cmp:
  assumes "string_text b str = Some v" and "str_buf str = Some i" and "length v = length key"
  shows "hs_case_insensitive_cmp b i key 0 (length key) = Some (map lower v = map lower key)"
proof -
  have i: "0 \<le> i" "0 \<le> str_len str" "i + str_len str \<le> int (length b)" "v = slice b i (str_len str)"
    using assms(1,2) by (auto simp: string_text_def split: if_splits)
  define n k where "n = nat i" and "k = nat (str_len str)"
  have b: "b = take n b @ v @ drop (n + k) b"
    using i by (simp add: n_def k_def slice_def) (metis append_take_drop_id drop_drop add.commute)
  have "hs_case_insensitive_cmp (take n b @ v @ drop (n + k) b) i ([] @ key @ []) 0 (length key) =
      Some (map lower v = map lower key)"
    by (rule cmp_spec) (use i assms(3) n_def in auto)
  then show ?thesis using b by simp
qed

lemma string_text_len: "string_text b str = Some v \<Longrightarrow> str_len str = int (length v)"
  by (auto simp: string_text_def slice_def min_def split: option.splits if_splits)

lemma target_spec:
  assumes "shows_tokens rq (line_tokens m u w @ ts) d" and "d = render_head m u w hs @ rest"
  shows "request_target_is rq target = Some (u = target)"
proof -
  obtain junk' where j: "request_block rq = d @ junk'" using assms(1) by (rule shows_tokensD)
  have t: "http_request_target rq = Some (token_string (tok HS_TOK_TARGET (length m + 1) u))"
    using get_token_string_spec [OF assms(1), of HS_TOK_TARGET]
    by (simp add: http_request_target_def line_tokens_def tok_def)
  have "string_text ((m @ '' '') @ u @ ('' '' @ w @ CRLF @ concat (map render_header hs) @ CRLF @ rest @ junk'))
      (token_string (tok HS_TOK_TARGET (length m + 1) u)) = Some u"
    by (rule string_text_token) simp
  then have "string_text (request_block rq) (token_string (tok HS_TOK_TARGET (length m + 1) u)) = Some u"
    using assms(2) j by (simp add: render_head_def)
  then show ?thesis using t by (auto simp: request_target_is_def token_string_def tok_def)
qed

lemma close_text: "length ''close'' = 5" "map lower ''close'' = ''close''"
  by code_simp+

lemma auto_detect_spec:
  assumes "shows_tokens rq (line_tokens m u w @ header_tokens (length m + length u + length w + 3) hs @ ts) d"
    and "d = render_head m u w hs @ rest"
    and "list_all (\<lambda>t. tok_type t \<noteq> HS_TOK_HEADER_KEY) ts" and "w \<noteq> []"
  shows "hs_auto_detect_keep_alive rq = Some (rq\<lparr>rq_flags :=
    (if keep_alive w hs then HTTP_FLAG_SET (rq_flags rq) HTTP_KEEP_ALIVE
     else HTTP_FLAG_CLEAR (rq_flags rq) HTTP_KEEP_ALIVE)\<rparr>)"
proof -
  let ?v = "tok HS_TOK_VERSION (length m + length u + 2) w"
  obtain junk' where j: "request_block rq = d @ junk'" using assms(1) by (rule shows_tokensD)
  have t: "http_get_token_string rq HS_TOK_VERSION = Some (token_string ?v)"
    using get_token_string_spec [OF assms(1), of HS_TOK_VERSION] by (simp add: line_tokens_def tok_def)
  let ?pre = "m @ '' '' @ u @ '' '' @ butlast w"
  have "block_read (?pre @ last w # (CRLF @ concat (map render_header hs) @ CRLF @ rest @ junk'))
      (int (length m + length u + 2) + int (length w) - 1) = Some (last w)"
    by (rule block_read_mid) (use assms(4) in \<open>cases w rule: rev_cases; simp\<close>)
  moreover have "request_block rq = ?pre @ last w # (CRLF @ concat (map render_header hs) @ CRLF @ rest @ junk')"
    using assms(2,4) j by (simp add: render_head_def)
  ultimately have c: "block_read (request_block rq) (int (length m + length u + 2) + int (length w) - 1) = Some (last w)"
    by simp
  have v: "str_buf (token_string ?v) = Some (int (length m + length u + 2))" "str_len (token_string ?v) = int (length w)"
    by (simp_all add: token_string_def tok_def)
  note h = request_header_spec [OF assms(1-3), of "''Connection''"]
  show ?thesis
  proof (cases "header_value hs ''Connection''")
    case None
    then have "http_request_header rq ''Connection'' = Some null_string" using h by simp
    then show ?thesis using t c v None
      by (simp add: hs_auto_detect_keep_alive_def null_string_def keep_alive_def)
  next
    case (Some val)
    then obtain str where str: "http_request_header rq ''Connection'' = Some str"
      "string_text (request_block rq) str = Some val" using h by auto
    then obtain i where i: "str_buf str = Some i" by (auto simp: string_text_def split: option.splits)
    have len: "str_len str = int (length val)" by (rule string_text_len [OF str(2)])
    have cmp: "length val = 5 \<Longrightarrow> hs_case_insensitive_cmp (request_block rq) i ''close'' 0 5 = Some (map lower val = ''close'')"
      using string_text_cmp [OF str(2) i, of "''close''"] unfolding close_text by simp
    have l5: "map lower val = ''close'' \<Longrightarrow> length val = 5"
      by (drule arg_cong [where f = length]) simp
    show ?thesis using t c v Some str i len cmp l5
      by (auto simp: hs_auto_detect_keep_alive_def keep_alive_def simp del: hs_case_insensitive_cmp.simps)
  qed
qed

text \<open>A peer that takes everything gets the whole response at once.\<close>

lemma write_all:
  assumes "responded rq" and "rq_state rq = HTTP_SESSION_WRITE" and "c_wr (rq_conn rq) = []"
    and "c_errno (rq_conn rq) \<noteq> EPIPE"
  shows "\<exists>rq' sv'. hs_write_response cbs (rq, sv) = Some (rq', sv') \<and>
    c_tx (rq_conn rq') = c_tx (rq_conn rq) @ unsent rq \<and>
    (if HTTP_FLAG_CHECK (rq_flags rq) HTTP_KEEP_ALIVE then rq_state rq' = HTTP_SESSION_INIT \<and> s_buf (rq_stream rq') = None \<and> rq_timeout rq' = 120
     else HTTP_FLAG_CHECK (rq_flags rq') HTTP_END_SESSION)"
proof -
  let ?s = "rq_stream rq"
  have wr: "writing rq" and chk: "\<not> HTTP_FLAG_CHECK (rq_flags rq) HTTP_CHUNKED_RESPONSE"
    using assms(1) by (auto simp: responded_def writing_def)
  let ?n = "s_length ?s - s_total_bytes ?s"
  have len: "int (length (unsent rq)) = ?n" by (rule length_unsent [OF wr])
  have w: "sock_write (unsent rq) (rq_conn rq) = (?n, (rq_conn rq)\<lparr>c_tx := c_tx (rq_conn rq) @ unsent rq\<rparr>)"
    using assms(3) len by (simp add: sock_write_def)
  let ?rq = "rq\<lparr>rq_stream := ?s\<lparr>s_total_bytes := s_length ?s\<rparr>, rq_conn := (rq_conn rq)\<lparr>c_tx := c_tx (rq_conn rq) @ unsent rq\<rparr>\<rparr>"
  have b: "0 \<le> s_total_bytes ?s" "s_total_bytes ?s \<le> s_length ?s" "s_length ?s \<le> 2147483647"
    "s_total_bytes ?s < s_length ?s \<Longrightarrow> s_length ?s \<le> int (length (request_block rq))"
    using wr by (auto simp: writing_def)
  have same: "s_total_bytes ?s = s_length ?s \<Longrightarrow> rq\<lparr>rq_stream := ?s\<lparr>s_total_bytes := s_length ?s\<rparr>\<rparr> = rq"
    by (cases rq; cases ?s) simp
  have ws: "hs_write_client_socket rq = Some (True, ?rq)"
    using b w assms(4) unfolding unsent_def
    by (cases "s_total_bytes ?s = s_length ?s") (auto simp: hs_write_client_socket_def Let_def unsent_def)
  show ?thesis
  proof (cases "HTTP_FLAG_CHECK (rq_flags rq) HTTP_KEEP_ALIVE")
    case True
    then show ?thesis using ws chk
      by (simp add: hs_write_response_def case_prod_unfold Let_def hs_reset_timeout_def HTTP_KEEP_ALIVE_TIMEOUT_def)
  next
    case False
    then show ?thesis using ws chk
      by (simp add: hs_write_response_def set_flag_def flag_simps request_flags)
  qed
qed

text \<open>
  C7: the reply to a request. For a parsed request whose tokens lie over its bytes, the
  gateway's handler sends, to a peer that takes it all, exactly one response: status 200,
  the date, \<open>Connection\<close> as version and headers ask, and for the target \<open>/control\<close> the
  JSON text with its type and length, for any other target an empty body. Afterwards the
  session waits for the next request with an empty buffer, or is marked to end.
\<close>

theorem gateway_replies_exactly:
  assumes "shows_tokens rq (line_tokens m u w @ header_tokens (length m + length u + length w + 3) hs @ ts) d"
    and "d = render_head m u w hs @ rest"
    and "list_all (\<lambda>t. tok_type t \<noteq> HS_TOK_HEADER_KEY) ts" and "w \<noteq> []"
    and "rq_flags rq = HTTP_AUTOMATIC" and "length (sv_date sv) \<le> 31"
    and "c_wr (rq_conn rq) = []" and "c_errno (rq_conn rq) \<noteq> EPIPE"
  shows "\<exists>rq' sv'. handle_request pf no_callbacks (rq, sv) = Some (rq', sv') \<and>
    c_tx (rq_conn rq') = c_tx (rq_conn rq) @
      gateway_reply (sv_date sv) (keep_alive w hs) (control_response (u = ''/control'')) \<and>
    (if keep_alive w hs then rq_state rq' = HTTP_SESSION_INIT \<and> s_buf (rq_stream rq') = None \<and> rq_timeout rq' = 120
     else HTTP_FLAG_CHECK (rq_flags rq') HTTP_END_SESSION)"
proof -
  let ?f = "if keep_alive w hs then HTTP_FLAG_SET (rq_flags rq) HTTP_KEEP_ALIVE else HTTP_FLAG_CLEAR (rq_flags rq) HTTP_KEEP_ALIVE"
  let ?rq1 = "rq\<lparr>rq_flags := ?f\<rparr>"
  have c: "request_target_is rq ''/control'' = Some (u = ''/control'')" by (rule target_spec [OF assms(1,2)])
  have det: "detected rq = Some ?rq1"
    using auto_detect_spec [OF assms(1-4)] assms(5) by (simp add: detected_def request_flags HTTP_FLAG_CHECK_def)
  have keep: "HTTP_FLAG_CHECK (rq_flags ?rq1) HTTP_KEEP_ALIVE \<longleftrightarrow> keep_alive w hs"
    by (simp add: flag_simps request_flags)
  have chk: "\<not> HTTP_FLAG_CHECK (rq_flags rq) HTTP_CHUNKED_RESPONSE"
    using assms(5) by (simp add: request_flags HTTP_FLAG_CHECK_def)
  have g: "control_response (u = ''/control'') \<in> gateway_replies"
    by (cases "u = ''/control''") (simp_all add: gateway_replies_def)
  obtain rq2 sv2 where 2: "http_respond pf no_callbacks (control_response (u = ''/control'')) (rq, sv) =
      hs_write_response no_callbacks (rq2, sv2)" "responded rq2"
    "unsent rq2 = gateway_reply (sv_date sv) (keep_alive w hs) (control_response (u = ''/control''))"
    "rq_conn rq2 = rq_conn rq" "rq_flags rq2 = rq_flags ?rq1"
    using respond_reply [OF g assms(6) det chk, of pf no_callbacks] unfolding keep by blast
  have ne: "unsent rq2 \<noteq> []" using 2(3) by (simp add: gateway_reply_def response_text_def response_head_def status_line_def)
  have st: "rq_state rq2 = HTTP_SESSION_WRITE"
  proof (rule ccontr)
    assume "rq_state rq2 \<noteq> HTTP_SESSION_WRITE"
    then have "s_total_bytes (rq_stream rq2) = s_length (rq_stream rq2)" using 2(2) by (simp add: responded_def)
    then show False using ne by (simp add: unsent_def slice_def)
  qed
  show ?thesis
    using write_all [OF 2(2) st, of no_callbacks sv2] assms(7,8) 2 keep handle_request_eq [of "(rq, sv)"] c by auto
qed

abbreviation demo_date :: string where "demo_date \<equiv> ''Mon, 06 Jul 2020 08:00:00 GMT''"

theorem gateway_replies_exactly_witness:
  "\<exists>rq. request_of demo_platform (line_tokens ''GET'' ''/control'' ''HTTP/1.1'' @
        header_tokens (length ''GET'' + length ''/control'' + length ''HTTP/1.1'' + 3) demo_headers @ [no_body])
      (stream_of (render_head ''GET'' ''/control'' ''HTTP/1.1'' demo_headers @ [])) = Some rq \<and>
    (\<exists>rq' sv'. handle_request demo_platform no_callbacks (rq, http_server_init 8080 demo_date) = Some (rq', sv') \<and>
      c_tx (rq_conn rq') = c_tx (rq_conn rq) @ gateway_reply demo_date True (control_response True) \<and>
      rq_state rq' = HTTP_SESSION_INIT)"
proof -
  let ?ts = "line_tokens ''GET'' ''/control'' ''HTTP/1.1'' @
    header_tokens (length ''GET'' + length ''/control'' + length ''HTTP/1.1'' + 3) demo_headers @ [no_body]"
  let ?d = "render_head ''GET'' ''/control'' ''HTTP/1.1'' demo_headers @ []"
  have 1: "length ?ts \<le> 1000" "?d \<noteq> []" "length ?d \<le> 1000"
    by (simp_all add: line_tokens_def render_head_def render_header_def CRLF_def)
  obtain rq where rq: "request_of demo_platform ?ts (stream_of ?d) = Some rq" "shows_tokens rq ?ts ?d" "rq_flags rq = HTTP_AUTOMATIC"
    by (rule request_of_shows [OF 1])
  have conn: "c_wr (rq_conn rq) = []" "c_errno (rq_conn rq) \<noteq> EPIPE"
    using rq(1) by (auto simp: request_of_def EPIPE_def)
  have 2: "list_all (\<lambda>t. tok_type t \<noteq> HS_TOK_HEADER_KEY) [no_body]" by (simp add: no_body_def)
  have 3: "keep_alive ''HTTP/1.1'' demo_headers" by code_simp
  have 4: "sv_date (http_server_init 8080 demo_date) = demo_date" "length (sv_date (http_server_init 8080 demo_date)) \<le> 31"
    by (simp_all add: http_server_init_def)
  have 5: "''HTTP/1.1'' \<noteq> []" by simp
  show ?thesis
    using gateway_replies_exactly [OF rq(2) refl 2 5 rq(3) 4(2) conn, of demo_platform] rq(1) 3 unfolding 4(1) by auto
qed

end
