(* ===== verification/Gateway_Safe.thy ===== *)
theory Gateway_Safe
  imports Rest_Api
begin

section \<open>The gateway's server as a whole\<close>

text \<open>
  The event loop of \<open>src/http.h\<close> with the gateway's handler: an invariant of every session
  between events, and what follows for every sequence of events. No access leaves a table
  or a block, no call goes through a null pointer, every loop ends, and the server's account
  of memory is the memory its sessions hold. The bound is on the bytes a session has read
  but not yet answered, at most 32767: the parser's 16-bit match index wraps beyond it.
\<close>

subsection \<open>The invariant of a session\<close>

definition reading :: "platform \<Rightarrow> http_request \<Rightarrow> bool" where
  "reading pf rq \<longleftrightarrow> rq_flags rq = HTTP_AUTOMATIC \<and> head_wf pf (rq_parser rq) (rq_stream rq) \<and>
     dyn_wf (rq_tokens rq) \<and> list_all (token_in (s_data (rq_stream rq))) (dyn_items (rq_tokens rq)) \<and>
     int (length (dyn_items (rq_tokens rq))) \<le> s_index (rq_stream rq)"

definition session_ok :: "platform \<Rightarrow> http_request \<Rightarrow> bool" where
  "session_ok pf rq \<longleftrightarrow> (case rq_state rq of
     HTTP_SESSION_INIT \<Rightarrow> s_buf (rq_stream rq) = None
   | HTTP_SESSION_READ \<Rightarrow> reading pf rq
   | HTTP_SESSION_WRITE \<Rightarrow> writing rq
   | HTTP_SESSION_NOP \<Rightarrow> False)"

lemma responded_ok: "responded rq \<Longrightarrow> session_ok pf rq"
  by (auto simp: responded_def session_ok_def)

lemma token_in_mono: "token_in b t \<Longrightarrow> length b \<le> length b' \<Longrightarrow> token_in b' t"
  by (auto simp: token_in_def)

lemma token_in_append: "token_in b t \<Longrightarrow> token_in (b @ c) t"
  by (auto simp: token_in_def)

lemma same_server_trans: "same_server a b \<Longrightarrow> account c = account b \<Longrightarrow> sv_date (snd c) = sv_date (snd b) \<Longrightarrow>
  c_rx (rq_conn (fst c)) = c_rx (rq_conn (fst b)) \<Longrightarrow> same_server a c"
  by (simp add: same_server_def)

subsection \<open>Reading and parsing\<close>

abbreviation gateway_tokens :: "platform \<Rightarrow> session \<Rightarrow> session option" where
  "gateway_tokens pf \<equiv> hs_process_tokens pf (handle_request pf no_callbacks) no_callbacks"

lemma head_block:
  assumes "head_wf pf p s"
  shows "int (length (s_data s)) = s_length s" "s_length s \<le> 32767" "0 \<le> s_index s" "s_index s \<le> s_length s"
    "length (s_data s) \<le> length (case s_buf s of None \<Rightarrow> [] | Some b \<Rightarrow> b)"
proof -
  have b: "buffer_wf s" "s_length s \<le> 32767" using assms by (auto simp: head_wf_def stream_wf_def)
  then show "int (length (s_data s)) = s_length s" "s_length s \<le> 32767" "0 \<le> s_index s" "s_index s \<le> s_length s"
    using length_s_data [OF b(1)] by (auto simp: buffer_wf_def)
  show "length (s_data s) \<le> length (case s_buf s of None \<Rightarrow> [] | Some b \<Rightarrow> b)"
    by (auto simp: s_data_def data_of_def split: option.split)
qed

lemma head_token_in: "head_token s t \<Longrightarrow> t \<noteq> no_token \<Longrightarrow> s_index s \<le> int (length b) \<Longrightarrow> token_in b t"
  by (auto simp: head_token_def token_in_def)

lemma end_token_in:
  "end_token n t \<Longrightarrow> n \<le> int (length b) \<Longrightarrow> tok_type t = HS_TOK_BODY \<or> tok_len t \<le> 65536 \<Longrightarrow> token_in b t"
  by (auto simp: end_token_def token_in_def)

lemma same_block_data: "same_block s s' \<Longrightarrow> s_data s' = s_data s"
  by (simp add: same_block_def s_data_def)

text \<open>What one token does to a session that is reading.\<close>

lemma dispatch_end:
  assumes "ty \<in> {HS_TOK_ERROR, HS_TOK_BODY, HS_TOK_BODY_STREAM}" and "tokens_ok rq" and "rq_flags rq = HTTP_AUTOMATIC"
    and "length (sv_date sv) \<le> 31"
  shows "\<exists>ss'. hs_dispatch_token pf (handle_request pf no_callbacks) no_callbacks ty (rq, sv) = Some ss' \<and>
    responded (fst ss') \<and> same_server (rq, sv) ss'"
proof (cases "ty = HS_TOK_ERROR")
  case True
  then show ?thesis
    using error_response_total [of 400 "''Bad Request''" sv rq pf no_callbacks] detected_total [OF assms(2)] assms(3,4)
    by (simp add: hs_dispatch_token_def request_flags HTTP_FLAG_CHECK_def)
next
  case False
  define rq1 where "rq1 = (if ty = HS_TOK_BODY_STREAM then set_flag HTTP_FLG_STREAMED rq else rq)\<lparr>rq_state := HTTP_SESSION_NOP\<rparr>"
  have "tokens_ok rq1" using assms(2) by (simp add: rq1_def set_flag_def tokens_ok_def request_block_def)
  moreover have "\<not> HTTP_FLAG_CHECK (rq_flags rq1) HTTP_CHUNKED_RESPONSE"
    using assms(3) by (auto simp: rq1_def set_flag_def request_flags HTTP_FLAG_CHECK_def HTTP_FLAG_SET_def)
  ultimately obtain ss' where "handle_request pf no_callbacks (rq1, sv) = Some ss'" "responded (fst ss')" "same_server (rq1, sv) ss'"
    using handle_request_total [OF _ assms(4)] by blast
  moreover have "same_server (rq1, sv) ss' \<longleftrightarrow> same_server (rq, sv) ss'"
    by (cases "ty = HS_TOK_BODY_STREAM") (simp_all add: same_server_def rq1_def set_flag_def account_def held_def)
  ultimately show ?thesis using assms(1) False
    by (auto simp: hs_dispatch_token_def rq1_def)
qed

lemma process_tokens_safe:
  assumes "reading pf rq" and "rq_state rq = HTTP_SESSION_READ" and "length (sv_date sv) \<le> 31"
    and "in_grammar (p_state (rq_parser rq)) (unread (rq_stream rq))"
  shows "\<exists>ss'. gateway_tokens pf (rq, sv) = Some ss' \<and> same_server (rq, sv) ss' \<and>
    (rq_state (fst ss') = HTTP_SESSION_READ \<and> reading pf (fst ss') \<or> responded (fst ss'))"
  using assms
proof (induction "nat (s_length (rq_stream rq) - s_index (rq_stream rq))" arbitrary: rq rule: less_induct)
  case less
  let ?s = "rq_stream rq"
  have wf: "head_wf pf (rq_parser rq) ?s" and dyn: "dyn_wf (rq_tokens rq)"
    and ti: "list_all (token_in (s_data ?s)) (dyn_items (rq_tokens rq))"
    and ni: "int (length (dyn_items (rq_tokens rq))) \<le> s_index ?s" and fl: "rq_flags rq = HTTP_AUTOMATIC"
    using less.prems(1) by (auto simp: reading_def)
  note hb = head_block [OF wf]
  obtain p' s' t where parse: "http_parse pf (rq_parser rq) ?s = Some (p', s', t)"
    and out: "head_outcome pf (rq_parser rq) ?s p' s' t"
    using http_parse_head [OF wf] less.prems(4) by (auto split: option.splits)
  have blk: "same_block ?s s'" and adv: "tok_type t \<in> {HS_TOK_NONE, HS_TOK_ERROR, HS_TOK_BODY, HS_TOK_BODY_STREAM} \<or>
    s_index ?s < s_index s'" using http_parse_head_block [OF wf parse] by auto
  have data: "s_data s' = s_data ?s" by (rule same_block_data [OF blk])
  define push where "push = (if tok_type t \<noteq> HS_TOK_NONE then http_token_dyn_push pf t (rq_tokens rq) else Some (rq_tokens rq))"
  have lim: "length (dyn_items (rq_tokens rq)) < 1073741824" using ni hb by linarith
  obtain dyn' where dyn': "push = Some dyn'" "dyn_wf dyn'"
    "dyn_items dyn' = dyn_items (rq_tokens rq) @ (if tok_type t \<noteq> HS_TOK_NONE then [t] else [])"
    using dyn_push_ok [OF dyn lim, of pf t] dyn by (cases "tok_type t = HS_TOK_NONE") (auto simp: push_def)
  let ?rq = "rq\<lparr>rq_parser := p', rq_stream := s', rq_tokens := dyn'\<rparr>"
  have eq: "gateway_tokens pf (rq, sv) = do {
      ss \<leftarrow> hs_dispatch_token pf (handle_request pf no_callbacks) no_callbacks (tok_type t) (?rq, sv);
      if tok_type t \<noteq> HS_TOK_NONE \<and> rq_state (fst ss) = HTTP_SESSION_READ then gateway_tokens pf ss else Some ss }"
    using parse dyn'(1) by (subst hs_process_tokens.simps, cases "tok_type t = HS_TOK_NONE") (simp_all add: push_def)
  have srv: "same_server (rq, sv) (?rq, sv)"
    using blk by (simp add: same_server_def account_def held_def same_block_def)
  have rb: "request_block ?rq = (case s_buf ?s of None \<Rightarrow> [] | Some b \<Rightarrow> b)"
    using blk by (simp add: request_block_def same_block_def)
  consider (stop) "end_token (s_length ?s) t" | (none) "t = no_token" "head_wf pf p' s'"
    | (tok) "head_wf pf p' s'" "head_token s' t" "t \<noteq> no_token" "in_grammar (p_state p') (unread s')"
    using out less.prems(4) by (auto simp: head_outcome_def)
  then show ?case
  proof cases
    case stop
    have ty: "tok_type t \<in> {HS_TOK_ERROR, HS_TOK_BODY, HS_TOK_BODY_STREAM}" by (rule end_token_type [OF stop])
    have small: "tok_type t = HS_TOK_BODY \<or> tok_len t \<le> 65536"
      using stop by (auto simp: end_token_def)
    have "token_in (request_block ?rq) t"
      by (rule end_token_in [OF stop _ small]) (use hb(1,5) in \<open>unfold rb, linarith\<close>)
    then have "tokens_ok ?rq"
      using dyn' ti ty hb(5) rb by (auto simp: tokens_ok_def list_all_iff elim: token_in_mono)
    from dispatch_end [OF ty this _ less.prems(3), of pf] fl obtain ss' where
      d: "hs_dispatch_token pf (handle_request pf no_callbacks) no_callbacks (tok_type t) (?rq, sv) = Some ss'"
      "responded (fst ss')" "same_server (?rq, sv) ss'" by auto
    have "rq_state (fst ss') \<noteq> HTTP_SESSION_READ" using d(2) by (auto simp: responded_def)
    then have "gateway_tokens pf (rq, sv) = Some ss'" using eq d(1) by simp
    then show ?thesis using d same_server_trans [OF srv, of ss'] by (simp add: same_server_def)
  next
    case none
    have "head_wf pf p' s'" by (rule none(2))
    then have "reading pf ?rq"
      using fl dyn' ti ni data none out by (auto simp: reading_def head_outcome_def no_token_def)
    moreover have "gateway_tokens pf (rq, sv) = Some (?rq, sv)"
      using eq none by (simp add: hs_dispatch_token_def no_token_def)
    ultimately show ?thesis using srv less.prems(2) by simp
  next
    case tok
    have ty: "tok_type t \<in> {HS_TOK_METHOD, HS_TOK_TARGET, HS_TOK_VERSION, HS_TOK_HEADER_KEY, HS_TOK_HEADER_VAL}"
      using tok by (auto simp: head_token_def)
    have less': "s_index ?s < s_index s'" using adv ty by auto
    have "s_index s' \<le> int (length (s_data s'))" using head_block [OF tok(1)] by linarith
    then have tin: "token_in (s_data s') t" by (rule head_token_in [OF tok(2,3)])
    have rd: "reading pf ?rq"
      using fl dyn' ti ni data tok(1) tin less' ty by (auto simp: reading_def)
    have d: "hs_dispatch_token pf (handle_request pf no_callbacks) no_callbacks (tok_type t) (?rq, sv) = Some (?rq, sv)"
      using ty by (auto simp: hs_dispatch_token_def)
    have step: "gateway_tokens pf (rq, sv) = gateway_tokens pf (?rq, sv)"
      using eq d ty less.prems(2) by auto
    have "nat (s_length (rq_stream ?rq) - s_index (rq_stream ?rq)) < nat (s_length ?s - s_index ?s)"
      using less' blk head_block [OF tok(1)] by (auto simp: same_block_def)
    from less.hyps [OF this rd _ less.prems(3)] less.prems(2) tok(4) obtain ss' where
      ss': "gateway_tokens pf (?rq, sv) = Some ss'" "same_server (?rq, sv) ss'"
      "rq_state (fst ss') = HTTP_SESSION_READ \<and> reading pf (fst ss') \<or> responded (fst ss')" by auto
    then show ?thesis using step same_server_trans [OF srv, of ss'] by (simp add: same_server_def)
  qed
qed

text \<open>
  The bytes a session has not parsed yet, those that wait in its socket among them, and the state of the
  grammar in which the parser comes to them.
\<close>

definition grammatical :: "http_request \<Rightarrow> bool" where
  "grammatical rq \<longleftrightarrow>
     (if rq_state rq = HTTP_SESSION_READ then in_grammar (p_state (rq_parser rq)) (unread (rq_stream rq) @ rx_bytes (c_rx (rq_conn rq)))
      else in_grammar ST (rx_bytes (c_rx (rq_conn rq))))"

lemma unread_append:
  assumes "buffer_wf s" "s_data s' = s_data s @ new" "s_index s' = s_index s"
  shows "unread s' = unread s @ new"
  using assms length_s_data [OF assms(1)] by (auto simp: unread_def buffer_wf_def)

lemma held_conn [simp]: "held (rq\<lparr>rq_conn := k\<rparr>) = held rq"
  by (simp add: held_def)

lemma account_flag [simp]: "account (set_flag f rq, sv) = account (rq, sv)"
  by (simp add: account_def held_def set_flag_def)

lemma head_wf_more:
  assumes "head_wf pf p s" and "stream_wf s'" and "s_length s' \<le> 32767" and "s_index s' = s_index s"
    and "s_token s' = s_token s"
  shows "head_wf pf p s'"
  using assms by (simp add: head_wf_def)

lemma stream_wf_held: "stream_wf (rq_stream rq) \<Longrightarrow> held rq = s_capacity (rq_stream rq)"
  by (auto simp: held_def stream_wf_def buffer_wf_def block_wf_def)

text \<open>The bytes a session has read and those that wait in its socket.\<close>

definition pending :: "http_request \<Rightarrow> nat" where
  "pending rq = (if rq_state rq = HTTP_SESSION_READ then length (s_data (rq_stream rq)) else 0) +
     length (rx_bytes (c_rx (rq_conn rq)))"

abbreviation balanced :: "session \<Rightarrow> session \<Rightarrow> bool" where
  "balanced ss ss' \<equiv> account ss' = account ss \<and> sv_date (snd ss') = sv_date (snd ss)"

lemma read_process_safe:
  assumes rd: "reading pf rq" and lim: "length (s_data (rq_stream rq)) + length (rx_bytes (c_rx (rq_conn rq))) \<le> 32767"
    and date: "length (sv_date sv) \<le> 31"
    and gr: "in_grammar (p_state (rq_parser rq)) (unread (rq_stream rq) @ rx_bytes (c_rx (rq_conn rq)))"
  shows "\<exists>ss'. hs_read_and_process_request pf (handle_request pf no_callbacks) no_callbacks (rq, sv) = Some ss' \<and>
    balanced (rq, sv) ss' \<and> (HTTP_FLAG_CHECK (rq_flags (fst ss')) HTTP_END_SESSION \<or> session_ok pf (fst ss'))"
proof -
  let ?s = "rq_stream rq"
  let ?rq = "hs_reset_timeout HTTP_REQUEST_TIMEOUT (rq\<lparr>rq_state := HTTP_SESSION_READ\<rparr>)"
  have wf: "head_wf pf (rq_parser rq) ?s" "stream_wf ?s" using rd by (auto simp: reading_def head_wf_def)
  obtain rc s' k' m' new where r: "hs_stream_read_socket (junk pf) ?s (rq_conn rq) (sv_memused sv) = Some (rc, s', k', m')"
    and s': "stream_wf s'" "s_data s' = s_data ?s @ new" "rx_bytes (c_rx (rq_conn rq)) = new @ rx_bytes (c_rx k')"
    "s_index s' = s_index ?s" "s_token s' = s_token ?s" "m' - sv_memused sv = s_capacity s' - s_capacity ?s"
    using read_socket_spec [OF wf(2), of "junk pf" "rq_conn rq" "sv_memused sv"] by blast
  let ?rq1 = "?rq\<lparr>rq_stream := s', rq_conn := k'\<rparr>" and ?sv1 = "sv\<lparr>sv_memused := m'\<rparr>"
  have eq: "hs_read_and_process_request pf (handle_request pf no_callbacks) no_callbacks (rq, sv) =
      (if rc = 0 then Some (set_flag HTTP_END_SESSION ?rq1, ?sv1) else gateway_tokens pf (?rq1, ?sv1))"
    using r by (simp add: hs_read_and_process_request_def hs_reset_timeout_def)
  have h: "held ?rq1 = s_capacity s'" "held rq = s_capacity ?s"
    using stream_wf_held [of ?rq1] stream_wf_held [of rq] s'(1) wf(2) by simp_all
  have acc: "account (?rq1, ?sv1) = account (rq, sv)" using s'(6) h by (simp add: account_def)
  show ?thesis
  proof (cases "rc = 0")
    case True
    then have "hs_read_and_process_request pf (handle_request pf no_callbacks) no_callbacks (rq, sv) =
        Some (set_flag HTTP_END_SESSION ?rq1, ?sv1)" using eq by simp
    moreover have "HTTP_FLAG_CHECK (rq_flags (set_flag HTTP_END_SESSION ?rq1)) HTTP_END_SESSION"
      by (simp add: set_flag_def flag_simps request_flags)
    ultimately show ?thesis using acc by simp
  next
    case False
    have "int (length (s_data s')) = s_length s'"
      using s'(1) length_s_data [of s'] by (auto simp: stream_wf_def buffer_wf_def)
    moreover have "length (s_data s') \<le> 32767" using lim s'(2,3) by simp
    ultimately have len: "s_length s' \<le> 32767" by linarith
    have "reading pf ?rq1"
      using rd head_wf_more [OF wf(1) s'(1) len s'(4,5)] s'(2,4)
      by (auto simp: reading_def hs_reset_timeout_def list_all_iff intro: token_in_append)
    moreover have "unread s' = unread ?s @ new"
      by (rule unread_append [OF _ s'(2,4)]) (use wf(2) in \<open>simp add: stream_wf_def\<close>)
    then have "in_grammar (p_state (rq_parser ?rq1)) (unread (rq_stream ?rq1))"
      using gr in_grammar_prefix [of _ "unread ?s @ new" "rx_bytes (c_rx k')"] s'(3) by (simp add: hs_reset_timeout_def)
    moreover have "rq_state ?rq1 = HTTP_SESSION_READ" by (simp add: hs_reset_timeout_def)
    ultimately obtain ss' where ss': "gateway_tokens pf (?rq1, ?sv1) = Some ss'" "same_server (?rq1, ?sv1) ss'"
      "rq_state (fst ss') = HTTP_SESSION_READ \<and> reading pf (fst ss') \<or> responded (fst ss')"
      using process_tokens_safe [of pf ?rq1 ?sv1] date by auto
    have "session_ok pf (fst ss')" using ss'(3)
    proof
      assume "rq_state (fst ss') = HTTP_SESSION_READ \<and> reading pf (fst ss')"
      then show ?thesis by (simp add: session_ok_def)
    qed (rule responded_ok)
    then show ?thesis using eq False ss' acc by (auto simp: same_server_def)
  qed
qed

lemma end_session_account: "balanced ss (hs_end_session ss) \<and> held (fst (hs_end_session ss)) = 0"
proof -
  obtain rq sv where f: "hs_free_buffer ss = (rq, sv)" by fastforce
  have "account (rq, sv) = account ss" "held rq = 0" "sv_date sv = sv_date (snd ss)"
    using free_buffer_account [of ss] free_buffer_held(1) [of ss] free_buffer_frame(9) [of ss] unfolding f by simp_all
  then show ?thesis using f by (auto simp: hs_end_session_def account_def held_def split: if_splits)
qed

lemma fresh_reading: "reading pf ((hs_init_session pf rq)\<lparr>rq_state := HTTP_SESSION_READ\<rparr>)"
  using empty_stream_wf
  by (simp add: reading_def hs_init_session_def head_wf_def zero_parser_def empty_stream_def no_token_def)

lemma session_step_safe:
  assumes ok: "session_ok pf rq" and date: "length (sv_date sv) \<le> 31" and lim: "pending rq \<le> 32767"
    and gr: "grammatical rq"
  shows "\<exists>alive ss'. gateway_session pf (rq, sv) = Some (alive, ss') \<and> balanced (rq, sv) ss' \<and>
    (if alive then session_ok pf (fst ss') else held (fst ss') = 0)"
proof -
  have fin: "\<exists>alive ss'. map_option end_if_flagged r = Some (alive, ss') \<and> balanced (rq, sv) ss' \<and>
      (if alive then session_ok pf (fst ss') else held (fst ss') = 0)"
    if r: "r = Some ss1" "balanced (rq, sv) ss1" "HTTP_FLAG_CHECK (rq_flags (fst ss1)) HTTP_END_SESSION \<or> session_ok pf (fst ss1)"
    for r ss1
  proof (cases "HTTP_FLAG_CHECK (rq_flags (fst ss1)) HTTP_END_SESSION")
    case True
    then have "map_option end_if_flagged r = Some (False, hs_end_session ss1)" using r(1) by (simp add: end_if_flagged_def)
    moreover have "account (hs_end_session ss1) = account (rq, sv)" "sv_date (snd (hs_end_session ss1)) = sv_date (snd (rq, sv))"
      using end_session_account [of ss1] r(2) by metis+
    ultimately show ?thesis using end_session_account [of ss1] by (intro exI [of _ False] exI [of _ "hs_end_session ss1"]) simp
  next
    case False
    then have "map_option end_if_flagged r = Some (True, ss1)" using r(1) by (simp add: end_if_flagged_def)
    then show ?thesis using r(2,3) False by (intro exI [of _ True] exI [of _ ss1]) simp
  qed
  show ?thesis
  proof (cases "rq_state rq")
    case HTTP_SESSION_INIT
    let ?rq = "(hs_init_session pf rq)\<lparr>rq_state := HTTP_SESSION_READ\<rparr>"
    have b: "s_buf (rq_stream rq) = None" using ok HTTP_SESSION_INIT by (simp add: session_ok_def)
    have acc: "balanced (rq, sv) (?rq, sv)"
      using b by (simp add: account_def held_def hs_init_session_def empty_stream_def)
    show ?thesis
    proof (cases "sv_memused sv > HTTP_MAX_TOTAL_EST_MEM_USAGE")
      case True
      have "http_get_token_string ?rq HS_TOK_VERSION = Some null_string"
        using get_token_string_items [of ?rq HS_TOK_VERSION] by (simp add: hs_init_session_def)
      then have "detected ?rq = Some ?rq"
        by (simp add: detected_def hs_auto_detect_keep_alive_def null_string_def)
      moreover have "\<not> HTTP_FLAG_CHECK (rq_flags ?rq) HTTP_CHUNKED_RESPONSE"
        by (simp add: hs_init_session_def request_flags HTTP_FLAG_CHECK_def)
      ultimately obtain ss' where "hs_error_response pf no_callbacks 503 ''Service Unavailable'' (?rq, sv) = Some ss'"
        "responded (fst ss')" "same_server (?rq, sv) ss'"
        using error_response_total [of 503 "''Service Unavailable''" sv ?rq pf no_callbacks] date by auto
      then show ?thesis using True HTTP_SESSION_INIT acc
        by (auto simp: http_session_def same_server_def intro: responded_ok)
    next
      case False
      have "length (s_data (rq_stream ?rq)) + length (rx_bytes (c_rx (rq_conn ?rq))) \<le> 32767"
        using lim HTTP_SESSION_INIT
        by (simp add: pending_def hs_init_session_def s_data_def data_of_def empty_stream_def)
      moreover have "in_grammar (p_state (rq_parser ?rq)) (unread (rq_stream ?rq) @ rx_bytes (c_rx (rq_conn ?rq)))"
        using gr HTTP_SESSION_INIT
        by (simp add: grammatical_def hs_init_session_def unread_def s_data_def data_of_def empty_stream_def zero_parser_def)
      ultimately obtain ss1 where
        "hs_read_and_process_request pf (handle_request pf no_callbacks) no_callbacks (?rq, sv) = Some ss1"
        "balanced (?rq, sv) ss1" "HTTP_FLAG_CHECK (rq_flags (fst ss1)) HTTP_END_SESSION \<or> session_ok pf (fst ss1)"
        using read_process_safe [OF fresh_reading _ date] by blast
      from fin [OF this(1) _ this(3)] this(2) acc show ?thesis using False HTTP_SESSION_INIT by (simp add: http_session_def)
    qed
  next
    case HTTP_SESSION_READ
    then have "reading pf rq" using ok by (simp add: session_ok_def)
    from read_process_safe [OF this _ date] lim gr HTTP_SESSION_READ obtain ss1 where
      "hs_read_and_process_request pf (handle_request pf no_callbacks) no_callbacks (rq, sv) = Some ss1"
      "balanced (rq, sv) ss1" "HTTP_FLAG_CHECK (rq_flags (fst ss1)) HTTP_END_SESSION \<or> session_ok pf (fst ss1)"
      by (auto simp: pending_def grammatical_def)
    from fin [OF this] show ?thesis using HTTP_SESSION_READ by (simp add: http_session_def)
  next
    case HTTP_SESSION_WRITE
    then have "responded rq" using ok by (simp add: session_ok_def responded_def)
    from write_response_spec [OF this, of no_callbacks sv] obtain rq' sv' where
      w: "hs_write_response no_callbacks (rq, sv) = Some (rq', sv')" "responded rq'"
      "account (rq', sv') = account (rq, sv)" "sv_date sv' = sv_date sv" by blast
    then show ?thesis using HTTP_SESSION_WRITE fin [of "hs_write_response no_callbacks (rq, sv)" "(rq', sv')"] responded_ok
      by (simp add: http_session_def)
  next
    case HTTP_SESSION_NOP
    then show ?thesis using ok by (simp add: session_ok_def)
  qed
qed

subsection \<open>The server\<close>

definition session_memory :: "world \<Rightarrow> nat \<Rightarrow> int" where
  "session_memory w i = (case w_sessions w i of None \<Rightarrow> 0 | Some rq \<Rightarrow> held rq)"

definition memory :: "world \<Rightarrow> int" where
  "memory w = (\<Sum>i<w_next w. session_memory w i)"

definition world_ok :: "platform \<Rightarrow> world \<Rightarrow> bool" where
  "world_ok pf w \<longleftrightarrow> (\<forall>i rq. w_sessions w i = Some rq \<longrightarrow> i < w_next w \<and> session_ok pf rq) \<and>
     sv_memused (w_server w) = memory w \<and> length (sv_date (w_server w)) \<le> 31"

definition steps_well :: "platform \<Rightarrow> session \<Rightarrow> (bool \<times> session) option \<Rightarrow> bool" where
  "steps_well pf ss r \<longleftrightarrow> (case r of None \<Rightarrow> False
     | Some (alive, ss') \<Rightarrow> balanced ss ss' \<and> (if alive then session_ok pf (fst ss') else held (fst ss') = 0))"

lemma session_ok_conn [simp]: "session_ok pf (rq\<lparr>rq_conn := k\<rparr>) = session_ok pf rq"
  by (simp add: session_ok_def reading_def writing_def request_block_def split: session_state.split)

lemma session_steps_well:
  assumes "session_ok pf rq" and "length (sv_date sv) \<le> 31" and "pending rq \<le> 32767" and "grammatical rq"
  shows "steps_well pf (rq, sv) (gateway_session pf (rq, sv))"
  using session_step_safe [OF assms] by (auto simp: steps_well_def)

lemma timer_steps_well:
  assumes "session_ok pf rq"
  shows "steps_well pf (rq, sv) (hs_request_timer_cb (rq, sv))"
proof -
  let ?rq = "rq\<lparr>rq_timeout := i32 (rq_timeout rq - 1)\<rparr>"
  have "balanced (rq, sv) (?rq, sv)" by (simp add: account_def held_def)
  moreover have "session_ok pf ?rq"
    using assms by (simp add: session_ok_def reading_def writing_def request_block_def split: session_state.splits)
  ultimately show ?thesis using end_session_account [of "(?rq, sv)"]
    by (auto simp: steps_well_def hs_request_timer_cb_def Let_def)
qed

lemma run_session_safe:
  assumes w: "world_ok pf w" and i: "i < w_next w" and m: "session_memory w i = held rq"
    and f: "steps_well pf (rq\<lparr>rq_conn := (rq_conn rq)\<lparr>c_errno := sv_errno (w_server w)\<rparr>\<rparr>, w_server w)
      (f (rq\<lparr>rq_conn := (rq_conn rq)\<lparr>c_errno := sv_errno (w_server w)\<rparr>\<rparr>, w_server w))"
  shows "\<exists>w'. run_session f i rq w = Some w' \<and> world_ok pf w' \<and> w_next w' = w_next w"
proof -
  let ?rq = "rq\<lparr>rq_conn := (rq_conn rq)\<lparr>c_errno := sv_errno (w_server w)\<rparr>\<rparr>"
  obtain alive rq' sv' where r: "f (?rq, w_server w) = Some (alive, rq', sv')"
    "account (rq', sv') = account (?rq, w_server w)" "sv_date sv' = sv_date (w_server w)"
    "if alive then session_ok pf rq' else held rq' = 0"
    using f by (auto simp: steps_well_def split: option.splits cong: if_cong)
  let ?w = "w\<lparr>w_server := sv'\<lparr>sv_errno := c_errno (rq_conn rq')\<rparr>,
    w_sessions := (w_sessions w)(i := (if alive then Some rq' else None))\<rparr>"
  have run: "run_session f i rq w = Some ?w" using r(1) by (simp add: run_session_def)
  have mem': "session_memory ?w i = held rq'" using r(4) by (auto simp: session_memory_def)
  have rest: "session_memory ?w j = session_memory w j" if "j \<noteq> i" for j
    using that by (simp add: session_memory_def)
  have "memory ?w = session_memory ?w i + (\<Sum>j\<in>{..<w_next w} - {i}. session_memory ?w j)"
    using i by (simp add: memory_def sum.remove)
  also have "(\<Sum>j\<in>{..<w_next w} - {i}. session_memory ?w j) = (\<Sum>j\<in>{..<w_next w} - {i}. session_memory w j)"
    using rest by (intro sum.cong) auto
  also have "\<dots> = memory w - session_memory w i"
    using i by (simp add: memory_def sum.remove)
  finally have "memory ?w = memory w + held rq' - held rq" unfolding mem' m by (simp only: algebra_simps)
  moreover have "sv_memused sv' = sv_memused (w_server w) + held rq' - held rq"
    using r(2) by (simp add: account_def)
  ultimately have "sv_memused (w_server ?w) = memory ?w" using w by (simp add: world_ok_def)
  moreover have "\<forall>j q. w_sessions ?w j = Some q \<longrightarrow> j < w_next ?w \<and> session_ok pf q"
    using w i r(4) by (auto simp: world_ok_def split: if_splits)
  ultimately have "world_ok pf ?w" using w r(3) by (simp add: world_ok_def)
  then show ?thesis using run by simp
qed

lemma accept_safe:
  assumes "world_ok pf w" and "list_all (\<lambda>k. length (rx_bytes (c_rx k)) \<le> 32767 \<and> in_grammar ST (rx_bytes (c_rx k))) ks"
  shows "\<exists>w'. hs_accept_connections pf (handle_request pf no_callbacks) no_callbacks ks w = Some w' \<and> world_ok pf w'"
  using assms
proof (induction ks arbitrary: w)
  case Nil
  then show ?case by simp
next
  case (Cons k ks)
  let ?w = "w\<lparr>w_next := Suc (w_next w)\<rparr>"
  have none: "w_sessions w (w_next w) = None"
    using Cons.prems(1) by (cases "w_sessions w (w_next w)") (auto simp: world_ok_def)
  have sm: "session_memory ?w = session_memory w" by (simp add: session_memory_def fun_eq_iff)
  have ok: "world_ok pf ?w"
    using Cons.prems(1) none by (auto simp: world_ok_def memory_def sm session_memory_def [of w "w_next w"] less_Suc_eq)
  have m: "session_memory ?w (w_next w) = held (new_session k)"
    using none by (simp add: session_memory_def held_def new_session_def empty_stream_def)
  have "steps_well pf ((new_session k)\<lparr>rq_conn := (rq_conn (new_session k))\<lparr>c_errno := sv_errno (w_server ?w)\<rparr>\<rparr>, w_server ?w)
      (gateway_session pf ((new_session k)\<lparr>rq_conn := (rq_conn (new_session k))\<lparr>c_errno := sv_errno (w_server ?w)\<rparr>\<rparr>, w_server ?w))"
    by (rule session_steps_well)
       (use Cons.prems in \<open>simp_all add: session_ok_def new_session_def empty_stream_def world_ok_def pending_def grammatical_def\<close>)
  from run_session_safe [where f = "gateway_session pf" and rq = "new_session k", OF ok _ m this] obtain w1 where
    "run_session (gateway_session pf) (w_next w) (new_session k) ?w = Some w1" "world_ok pf w1" by auto
  then show ?case using Cons.IH Cons.prems(2) by simp
qed

text \<open>
  What an event may bring, and all events of a run: bytes that keep to the grammar of a head (what
  follows the head is not restricted), and at most 32767 that have not been answered.
\<close>

fun fits :: "event \<Rightarrow> world \<Rightarrow> bool" where
  "fits (Listen ks) w = list_all (\<lambda>k. length (rx_bytes (c_rx k)) \<le> 32767 \<and> in_grammar ST (rx_bytes (c_rx k))) ks"
| "fits (Io i segs wr) w = (case w_sessions w i of None \<Rightarrow> True
     | Some rq \<Rightarrow> let rq = rq\<lparr>rq_conn := (rq_conn rq)\<lparr>c_rx := c_rx (rq_conn rq) @ segs, c_wr := wr\<rparr>\<rparr> in
         pending rq \<le> 32767 \<and> grammatical rq)"
| "fits (Request_timer i) w = True"
| "fits (Server_timer date) w = (length date \<le> 31)"

fun limited :: "platform \<Rightarrow> event list \<Rightarrow> world \<Rightarrow> bool" where
  "limited pf [] w = True"
| "limited pf (ev # evs) w = (fits ev w \<and>
     (case gateway_step pf ev w of None \<Rightarrow> True | Some w' \<Rightarrow> limited pf evs w'))"

lemma step_safe:
  assumes w: "world_ok pf w" and ev: "fits ev w"
  shows "\<exists>w'. gateway_step pf ev w = Some w' \<and> world_ok pf w'"
proof (cases ev)
  case (Listen ks)
  then show ?thesis using accept_safe [OF w, of ks] ev by (simp add: http_server_step_def)
next
  case (Io i segs wr)
  show ?thesis
  proof (cases "w_sessions w i")
    case None
    then show ?thesis using Io w by (simp add: http_server_step_def)
  next
    case (Some rq)
    let ?rq = "rq\<lparr>rq_conn := (rq_conn rq)\<lparr>c_rx := c_rx (rq_conn rq) @ segs, c_wr := wr\<rparr>\<rparr>"
    have i: "i < w_next w" and ok: "session_ok pf rq" and date: "length (sv_date (w_server w)) \<le> 31"
      using w Some by (auto simp: world_ok_def)
    have m: "session_memory w i = held ?rq" using Some by (simp add: session_memory_def held_def)
    have "steps_well pf (?rq\<lparr>rq_conn := (rq_conn ?rq)\<lparr>c_errno := sv_errno (w_server w)\<rparr>\<rparr>, w_server w)
      (gateway_session pf (?rq\<lparr>rq_conn := (rq_conn ?rq)\<lparr>c_errno := sv_errno (w_server w)\<rparr>\<rparr>, w_server w))"
      by (rule session_steps_well) (use ok date ev Io Some in \<open>auto simp: pending_def grammatical_def Let_def split: if_splits\<close>)
    from run_session_safe [where f = "gateway_session pf" and rq = ?rq, OF w i m this] show ?thesis
      using Io Some by (auto simp: http_server_step_def)
  qed
next
  case (Request_timer i)
  show ?thesis
  proof (cases "w_sessions w i")
    case None
    then show ?thesis using Request_timer w by (simp add: http_server_step_def)
  next
    case (Some rq)
    have i: "i < w_next w" and ok: "session_ok pf rq" using w Some by (auto simp: world_ok_def)
    have m: "session_memory w i = held rq" using Some by (simp add: session_memory_def)
    have "steps_well pf (rq\<lparr>rq_conn := (rq_conn rq)\<lparr>c_errno := sv_errno (w_server w)\<rparr>\<rparr>, w_server w)
      (hs_request_timer_cb (rq\<lparr>rq_conn := (rq_conn rq)\<lparr>c_errno := sv_errno (w_server w)\<rparr>\<rparr>, w_server w))"
      by (rule timer_steps_well) (use ok in simp)
    from run_session_safe [where f = hs_request_timer_cb and rq = rq, OF w i m this] show ?thesis
      using Request_timer Some by (auto simp: http_server_step_def)
  qed
next
  case (Server_timer date)
  then show ?thesis using w ev
    by (auto simp: http_server_step_def hs_server_timer_cb_def world_ok_def memory_def session_memory_def)
qed

lemma run_safe:
  "world_ok pf w \<Longrightarrow> limited pf evs w \<Longrightarrow> \<exists>w'. gateway_run pf evs w = Some w' \<and> world_ok pf w'"
proof (induction evs arbitrary: w)
  case Nil
  then show ?case by simp
next
  case (Cons ev evs)
  then obtain w1 where "gateway_step pf ev w = Some w1" "world_ok pf w1"
    using step_safe [of pf w ev] by auto
  then show ?case using Cons by simp
qed

text \<open>
  C8: the server is safe and accounts for its memory. From the start, for every sequence of
  events (connections accepted, bytes arriving in any pieces, errors, partial writes, timer
  ticks) in which no session sends a byte outside the grammar of a request head or has more than
  32767 bytes unanswered, every handler of the gateway's server returns: no access outside a table or a block, no call
  through a null pointer, no endless loop. Afterwards \<open>memused\<close> is exactly the capacity of the buffers
  that the live sessions hold. (A byte outside the grammar makes the parser read behind a table.)
\<close>

theorem gateway_server_safe:
  assumes "length date \<le> 31" and "limited pf evs (init_world (http_server_init port date))"
  shows "\<exists>w'. gateway_run pf evs (init_world (http_server_init port date)) = Some w' \<and>
    sv_memused (w_server w') = memory w'"
proof -
  have "world_ok pf (init_world (http_server_init port date))"
    using assms(1) by (simp add: world_ok_def init_world_def http_server_init_def memory_def)
  from run_safe [OF this assms(2)] show ?thesis by (auto simp: world_ok_def)
qed

theorem gateway_server_safe_witness:
  "\<exists>w'. gateway_run demo_platform
      [Listen [\<lparr>c_rx = [Bytes (render_head ''GET'' ''/control'' ''HTTP/1.1'' demo_headers)], c_wr = [], c_tx = '''', c_errno = 0\<rparr>],
       Server_timer demo_date, Request_timer 0]
      (init_world (http_server_init 8080 demo_date)) = Some w' \<and>
    sv_memused (w_server w') = memory w'"
proof (rule gateway_server_safe)
  have "method_ok ''GET''" "target_ok ''/control''" "version_ok ''HTTP/1.1''" "key_ok ''Host''" "value_ok ''hub''"
    "key_ok ''Content-Length''" "value_ok ''2''" by code_simp+
  then have "head_ok ''GET'' ''/control'' ''HTTP/1.1'' demo_headers" by (simp add: head_ok_def header_ok_def)
  then have g: "in_grammar ST (render_head ''GET'' ''/control'' ''HTTP/1.1'' demo_headers)" using head_in_grammar [where b = "[]"] by simp
  have l: "length (render_head ''GET'' ''/control'' ''HTTP/1.1'' demo_headers) \<le> 32767" by code_simp
  show date: "length demo_date \<le> 31" by code_simp
  have "fits ev w \<Longrightarrow> (\<And>w. limited demo_platform evs w) \<Longrightarrow> limited demo_platform (ev # evs) w" for ev evs w
    by (auto split: option.split)
  note more = this
  show "limited demo_platform
      [Listen [\<lparr>c_rx = [Bytes (render_head ''GET'' ''/control'' ''HTTP/1.1'' demo_headers)], c_wr = [], c_tx = '''', c_errno = 0\<rparr>],
       Server_timer demo_date, Request_timer 0]
      (init_world (http_server_init 8080 demo_date))"
    by (intro more) (use g l date in simp_all)
qed

end
