(* ===== verification/Zc_Arraylist.thy ===== *)
theory Zc_Arraylist
  imports Growing_Array "HOL-Library.Multiset"
begin

section \<open>The array list of the logging library\<close>

text \<open>
  \<open>zc_arraylist_t\<close> of \<open>src/deps/zlog/src/zc_arraylist.c\<close>: an array of pointers that grows
  on demand. A pointer is an option, \<open>NULL\<close> is \<^const>\<open>None\<close>. The \<open>del\<close> callback is kept as
  whether there is one and the list of elements it has been called on so far. The
  allocator is an argument: \<open>alloc n\<close> says whether it can serve \<open>n\<close> bytes, \<open>junk\<close> what a
  block grown by \<open>realloc\<close> holds. An operation returns \<^const>\<open>None\<close> when it reads or writes
  outside the array, and otherwise the code's return value (0 or -1) and the list.
\<close>

definition ARRAY_LIST_DEFAULT_SIZE :: int where "ARRAY_LIST_DEFAULT_SIZE = 32"

record 'a zc_arraylist =
  al_array :: "'a option list"
  al_len :: int
  al_size :: int
  al_del :: bool
  al_deleted :: "'a list"

type_synonym alloc = "int \<Rightarrow> bool"

text \<open>The size in bytes of \<open>n\<close> pointers, an \<open>int\<close> converted to \<open>size_t\<close>.\<close>

definition pointers :: "int \<Rightarrow> int" where "pointers n = (n * 8) mod 2 ^ 64"

definition zc_arraylist_new :: "alloc \<Rightarrow> bool \<Rightarrow> 'a zc_arraylist option" where
  "zc_arraylist_new alloc del =
     (if \<not> alloc 32 then None
      else if \<not> alloc (pointers ARRAY_LIST_DEFAULT_SIZE) then None
      else Some \<lparr>al_array = replicate (nat ARRAY_LIST_DEFAULT_SIZE) None, al_len = 0,
        al_size = ARRAY_LIST_DEFAULT_SIZE, al_del = del, al_deleted = []\<rparr>)"

text \<open>What deleting the list leaves behind: the calls of \<open>del\<close>, for each non-null element below \<open>len\<close>.\<close>

definition zc_arraylist_del :: "'a zc_arraylist option \<Rightarrow> 'a list" where
  "zc_arraylist_del al = (case al of None \<Rightarrow> [] | Some al \<Rightarrow>
     al_deleted al @ (if al_del al then List.map_filter id (take (nat (al_len al)) (al_array al)) else []))"

definition zc_arraylist_expand_inner ::
  "alloc \<Rightarrow> (nat \<Rightarrow> 'a option) \<Rightarrow> 'a zc_arraylist \<Rightarrow> int \<Rightarrow> (int \<times> 'a zc_arraylist) option" where
  "zc_arraylist_expand_inner alloc junk al mx =
     (let new_size = max (i32 (al_size al * 2)) mx in
      if \<not> alloc (pointers new_size) then Some (-1, al)
      else
        let arr = block_realloc junk (al_array al) (nat (pointers new_size div 8));
            diff_size = i32 (new_size - al_size al) in
        do {
          arr \<leftarrow> (if diff_size \<noteq> 0
                 then block_write arr (al_size al) (replicate (nat (pointers diff_size div 8)) None) else Some arr);
          Some (0, al\<lparr>al_array := arr, al_size := new_size\<rparr>)
        })"

definition zc_arraylist_set ::
  "alloc \<Rightarrow> (nat \<Rightarrow> 'a option) \<Rightarrow> 'a zc_arraylist \<Rightarrow> int \<Rightarrow> 'a option \<Rightarrow> (int \<times> 'a zc_arraylist) option" where
  "zc_arraylist_set alloc junk al idx data = do {
     (rc, al) \<leftarrow> (if idx > al_size al - 1 then zc_arraylist_expand_inner alloc junk al idx else Some (0, al));
     if rc \<noteq> 0 then Some (-1, al)
     else do {
       old \<leftarrow> block_read (al_array al) idx;
       arr \<leftarrow> block_write (al_array al) idx [data];
       Some (0, al\<lparr>al_array := arr,
         al_deleted := al_deleted al @ (case old of None \<Rightarrow> [] | Some x \<Rightarrow> if al_del al then [x] else []),
         al_len := (if al_len al \<le> idx then i32 (idx + 1) else al_len al)\<rparr>)
     }
   }"

definition zc_arraylist_add ::
  "alloc \<Rightarrow> (nat \<Rightarrow> 'a option) \<Rightarrow> 'a zc_arraylist \<Rightarrow> 'a option \<Rightarrow> (int \<times> 'a zc_arraylist) option" where
  "zc_arraylist_add alloc junk al data = zc_arraylist_set alloc junk al (al_len al) data"

text \<open>\<open>memmove\<close> of the elements from \<open>idx\<close> on by one place.\<close>

definition zc_arraylist_insert_inner ::
  "alloc \<Rightarrow> (nat \<Rightarrow> 'a option) \<Rightarrow> 'a zc_arraylist \<Rightarrow> int \<Rightarrow> 'a option \<Rightarrow> (int \<times> 'a zc_arraylist) option" where
  "zc_arraylist_insert_inner alloc junk al idx data = do {
     old \<leftarrow> block_read (al_array al) idx;
     if old = None then do {
       arr \<leftarrow> block_write (al_array al) idx [data];
       Some (0, al\<lparr>al_array := arr\<rparr>)
     } else do {
       (rc, al) \<leftarrow> (if al_len al > al_size al - 1 then zc_arraylist_expand_inner alloc junk al 0 else Some (0, al));
       if rc \<noteq> 0 then Some (-1, al)
       else do {
         arr \<leftarrow> block_write (al_array al) (idx + 1) (slice (al_array al) idx (al_len al - idx));
         arr \<leftarrow> block_write arr idx [data];
         Some (0, al\<lparr>al_array := arr, al_len := i32 (al_len al + 1)\<rparr>)
       }
     }
   }"

text \<open>The search of \<open>zc_arraylist_sortadd\<close>: the first index from \<open>i\<close> on whose element compares greater.\<close>

function zc_arraylist_find ::
  "('a option \<Rightarrow> 'a option \<Rightarrow> int) \<Rightarrow> 'a option \<Rightarrow> 'a zc_arraylist \<Rightarrow> int \<Rightarrow> int option" where
  "zc_arraylist_find cmp data al i =
     (if i < al_len al then
        (case block_read (al_array al) i of
           None \<Rightarrow> None
         | Some x \<Rightarrow> if cmp x data > 0 then Some i else zc_arraylist_find cmp data al (i + 1))
      else Some i)"
  by pat_completeness auto
termination by (relation "measure (\<lambda>(_, _, al, i). nat (al_len al - i))") auto

declare zc_arraylist_find.simps [simp del]

definition zc_arraylist_sortadd ::
  "alloc \<Rightarrow> (nat \<Rightarrow> 'a option) \<Rightarrow> 'a zc_arraylist \<Rightarrow> ('a option \<Rightarrow> 'a option \<Rightarrow> int) \<Rightarrow> 'a option \<Rightarrow>
   (int \<times> 'a zc_arraylist) option" where
  "zc_arraylist_sortadd alloc junk al cmp data = do {
     i \<leftarrow> zc_arraylist_find cmp data al 0;
     if i = al_len al then zc_arraylist_add alloc junk al data
     else zc_arraylist_insert_inner alloc junk al i data
   }"

definition zc_arraylist_len :: "'a zc_arraylist \<Rightarrow> int" where
  "zc_arraylist_len al = al_len al"

definition zc_arraylist_get :: "'a zc_arraylist \<Rightarrow> int \<Rightarrow> 'a option option" where
  "zc_arraylist_get al i = (if i \<ge> al_len al then Some None else block_read (al_array al) i)"

subsection \<open>What the list holds, and its invariant\<close>

definition al_items :: "'a zc_arraylist \<Rightarrow> 'a option list" where
  "al_items al = take (nat (al_len al)) (al_array al)"

definition al_wf :: "'a zc_arraylist \<Rightarrow> bool" where
  "al_wf al \<longleftrightarrow> 0 \<le> al_len al \<and> al_len al \<le> al_size al \<and> 0 < al_size al \<and> al_size al < 2 ^ 31 \<and>
     int (length (al_array al)) = al_size al \<and> (\<forall>x\<in>set (drop (nat (al_len al)) (al_array al)). x = None)"

lemma al_wfD [dest]:
  assumes "al_wf al"
  shows "0 \<le> al_len al" "al_len al \<le> al_size al" "0 < al_size al" "al_size al < 2147483648"
    "int (length (al_array al)) = al_size al"
    "drop (nat (al_len al)) (al_array al) = replicate (nat (al_size al - al_len al)) None"
proof -
  show "drop (nat (al_len al)) (al_array al) = replicate (nat (al_size al - al_len al)) None"
    using assms by (intro replicate_eqI) (auto simp: al_wf_def)
qed (use assms in \<open>simp_all add: al_wf_def\<close>)

lemma length_al_items [simp]: "al_wf al \<Longrightarrow> length (al_items al) = nat (al_len al)"
  by (auto simp: al_wf_def al_items_def)

lemma al_array_split:
  "al_wf al \<Longrightarrow> al_array al = al_items al @ replicate (nat (al_size al - al_len al)) None"
  unfolding al_items_def using al_wfD(6) [of al] append_take_drop_id [of "nat (al_len al)" "al_array al"] by simp

lemma al_wf_intro:
  assumes "al_array al = xs @ replicate k None" "al_len al = int (length xs)" "al_size al = int (length xs + k)"
    "0 < al_size al" "al_size al < 2 ^ 31"
  shows "al_wf al" "al_items al = xs"
  using assms by (auto simp: al_wf_def al_items_def)

lemma new_wf: "zc_arraylist_new alloc del = Some al \<Longrightarrow> al_wf al \<and> al_items al = [] \<and> al_deleted al = []"
  by (auto simp: zc_arraylist_new_def al_wf_def al_items_def ARRAY_LIST_DEFAULT_SIZE_def split: if_splits)

lemma pointers_id: "0 \<le> n \<Longrightarrow> n < 2 ^ 31 \<Longrightarrow> pointers n = n * 8"
  by (simp add: pointers_def)

lemma expand_spec:
  assumes wf: "al_wf al" and big: "al_size al < 2 ^ 30" "mx < 2 ^ 31" and ok: "alloc (pointers (max (al_size al * 2) mx))"
  shows "zc_arraylist_expand_inner alloc junk al mx = Some (0, al\<lparr>
    al_array := al_array al @ replicate (nat (max (al_size al * 2) mx - al_size al)) None,
    al_size := max (al_size al * 2) mx\<rparr>)"
proof -
  let ?n = "max (al_size al * 2) mx"
  have s: "i32 (al_size al * 2) = al_size al * 2" using al_wfD(3) [OF wf] big by simp
  have p: "pointers ?n = ?n * 8" using al_wfD(3) [OF wf] big by (intro pointers_id) auto
  have d: "i32 (?n - al_size al) = ?n - al_size al" "0 < ?n - al_size al"
    using al_wfD(3) [OF wf] big by auto
  have pd: "pointers (?n - al_size al) = (?n - al_size al) * 8" using d(2) al_wfD(3) [OF wf] big by (intro pointers_id) auto
  have r: "block_realloc junk (al_array al) (nat ?n) = al_array al @ map junk [nat (al_size al) ..< nat ?n]"
    using al_wfD(3) [OF wf] by (simp add: block_realloc_def flip: al_wfD(5) [OF wf])
  have l: "length (al_array al) = nat (al_size al)" using al_wfD(5) [OF wf] by simp
  have len: "nat (?n - al_size al) = nat ?n - nat (al_size al)"
    using al_wfD(3) [OF wf] by (simp add: nat_diff_distrib)
  have w: "block_write (al_array al @ map junk [nat (al_size al) ..< nat ?n]) (al_size al)
      (replicate (nat (?n - al_size al)) None) = Some (al_array al @ replicate (nat (?n - al_size al)) None)"
    using block_write_append [of "al_array al" "map junk [nat (al_size al) ..< nat ?n]" "replicate (nat (?n - al_size al)) None"]
    by (simp add: al_wfD(5) [OF wf] len)
  show ?thesis unfolding zc_arraylist_expand_inner_def Let_def s
    using ok d by (simp add: p pd r w del: max_less_iff_conj)
qed

lemma expand_items:
  assumes "al_wf al" "al_size al < 2 ^ 30" "mx < 2 ^ 31" "alloc (pointers (max (al_size al * 2) mx))"
  shows "\<exists>al'. zc_arraylist_expand_inner alloc junk al mx = Some (0, al') \<and> al_wf al' \<and>
    al_items al' = al_items al \<and> al_len al' = al_len al \<and> al_size al' = max (al_size al * 2) mx \<and>
    al_deleted al' = al_deleted al \<and> al_del al' = al_del al"
proof -
  let ?n = "max (al_size al * 2) mx"
  let ?al = "al\<lparr>al_array := al_array al @ replicate (nat (?n - al_size al)) None, al_size := ?n\<rparr>"
  have "al_array ?al = al_items al @ replicate (nat (?n - al_len al)) None"
    using al_wfD(1-3) [OF assms(1)] unfolding zc_arraylist.simps al_array_split [OF assms(1)] append_assoc replicate_add [symmetric]
    by (simp add: nat_add_distrib [symmetric] max_def)
  moreover have "al_len ?al = int (length (al_items al))"
    using assms(1) al_wfD(1) [OF assms(1)] by simp
  moreover have "al_size ?al = int (length (al_items al) + nat (?n - al_len al))"
    using assms(1) al_wfD(1-3) [OF assms(1)] by simp
  moreover have "0 < al_size ?al" "al_size ?al < 2 ^ 31" using assms(2,3) al_wfD(3) [OF assms(1)] by auto
  ultimately have "al_wf ?al" "al_items ?al = al_items al" by (rule al_wf_intro)+
  then show ?thesis using expand_spec [of al mx alloc junk] assms by simp
qed

text \<open>Storing below \<open>size\<close>: in place, or behind the last element with null pointers between.\<close>

definition stored :: "'a option list \<Rightarrow> int \<Rightarrow> 'a option \<Rightarrow> 'a option list" where
  "stored xs i x = (if i < int (length xs) then xs[nat i := x]
     else xs @ replicate (nat i - length xs) None @ [x])"

definition replaced :: "'a zc_arraylist \<Rightarrow> int \<Rightarrow> 'a list" where
  "replaced al i = (if i < al_len al \<and> al_del al
     then (case al_items al ! nat i of None \<Rightarrow> [] | Some x \<Rightarrow> [x]) else [])"

lemma block_write_single:
  "0 \<le> i \<Longrightarrow> i < int (length b) \<Longrightarrow> block_write b i [x] = Some (b[nat i := x])"
  by (auto simp: block_write_def upd_conv_take_nth_drop)

lemma set_in_place:
  assumes wf: "al_wf al" and i: "0 \<le> idx" "idx < al_size al"
  shows "\<exists>al'. zc_arraylist_set alloc junk al idx x = Some (0, al') \<and> al_wf al' \<and>
    al_items al' = stored (al_items al) idx x \<and> al_size al' = al_size al \<and>
    al_deleted al' = al_deleted al @ replaced al idx \<and> al_del al' = al_del al"
proof -
  let ?old = "al_array al ! nat idx"
  let ?al = "al\<lparr>al_array := (al_array al)[nat idx := x],
    al_deleted := al_deleted al @ (case ?old of None \<Rightarrow> [] | Some x \<Rightarrow> if al_del al then [x] else []),
    al_len := (if al_len al \<le> idx then i32 (idx + 1) else al_len al)\<rparr>"
  note d = al_wfD(1-5) [OF wf]
  let ?n = "length (al_items al)" and ?k = "nat (al_size al - al_len al)"
  have n: "int ?n = al_len al" using wf d by simp
  have arr: "al_array al = al_items al @ replicate ?k None" by (rule al_array_split [OF wf])
  have run: "zc_arraylist_set alloc junk al idx x = Some (0, ?al)"
    using i d by (simp add: zc_arraylist_set_def block_read_def block_write_single)
  have old: "(case ?old of None \<Rightarrow> [] | Some x \<Rightarrow> if al_del al then [x] else []) = replaced al idx"
    using i d n by (auto simp: arr nth_append replaced_def split: option.split)
  have "al_wf ?al \<and> al_items ?al = stored (al_items al) idx x"
  proof (cases "idx < al_len al")
    case True
    have "al_array ?al = (al_items al)[nat idx := x] @ replicate ?k None"
      using True i n unfolding zc_arraylist.simps arr by (auto simp: list_update_append)
    moreover have "al_len ?al = int (length ((al_items al)[nat idx := x]))" using True n by simp
    moreover have "al_size ?al = int (length ((al_items al)[nat idx := x]) + ?k)" using n d by simp
    ultimately have "al_wf ?al" "al_items ?al = (al_items al)[nat idx := x]"
      by (rule al_wf_intro; use d in simp)+
    then show ?thesis using True n by (simp add: stored_def)
  next
    case False
    define j where "j = nat (idx - al_len al)"
    have idx: "nat idx = ?n + j" "j < ?k" using False i n d unfolding j_def by auto
    let ?xs = "al_items al @ replicate j None @ [x]"
    have "(replicate ?k None)[j := x] = replicate j None @ [x] @ replicate (?k - Suc j) None"
      using idx(2) by (simp add: upd_conv_take_nth_drop min_def)
    then have "al_array ?al = ?xs @ replicate (?k - Suc j) None"
      unfolding zc_arraylist.simps arr idx(1) by (simp add: list_update_append)
    moreover have "al_len ?al = int (length ?xs)" using False i d n idx by simp
    moreover have "al_size ?al = int (length ?xs + (?k - Suc j))" using d n idx(2) by (simp add: of_nat_diff)
    ultimately have "al_wf ?al" "al_items ?al = ?xs"
      by (rule al_wf_intro; use d in simp)+
    moreover have "stored (al_items al) idx x = ?xs" using False n idx by (simp add: stored_def)
    ultimately show ?thesis by simp
  qed
  then show ?thesis using run old by simp
qed

lemma set_spec:
  assumes wf: "al_wf al" and i: "0 \<le> idx" "idx < al_size al * 2"
    and room: "idx < al_size al \<or> al_size al < 2 ^ 30 \<and> alloc (pointers (al_size al * 2))"
  shows "\<exists>al'. zc_arraylist_set alloc junk al idx x = Some (0, al') \<and> al_wf al' \<and>
    al_items al' = stored (al_items al) idx x \<and>
    al_deleted al' = al_deleted al @ replaced al idx \<and> al_del al' = al_del al"
proof (cases "idx < al_size al")
  case True
  then show ?thesis using set_in_place [OF wf i(1)] by blast
next
  case False
  have mx: "max (al_size al * 2) idx = al_size al * 2" using i by simp
  obtain al1 where e: "zc_arraylist_expand_inner alloc junk al idx = Some (0, al1)" "al_wf al1"
    "al_items al1 = al_items al" "al_len al1 = al_len al" "al_size al1 = al_size al * 2"
    "al_deleted al1 = al_deleted al" "al_del al1 = al_del al"
    using expand_items [OF wf, of idx alloc junk] room False i(2) unfolding mx by force
  have "zc_arraylist_set alloc junk al idx x = zc_arraylist_set alloc junk al1 idx x"
    using False i(2) e by (simp add: zc_arraylist_set_def)
  moreover have "replaced al1 idx = replaced al idx" using e by (simp add: replaced_def)
  ultimately show ?thesis using set_in_place [OF e(2) i(1), of alloc junk x] e i(2) by auto
qed

lemma set_out_of_bounds:
  assumes wf: "al_wf al" and i: "al_size al * 2 \<le> idx" "idx < 2 ^ 31" and ok: "alloc (pointers idx)"
  shows "zc_arraylist_set alloc junk al idx x = None"
proof -
  have mx: "max (al_size al * 2) idx = idx" using i by simp
  obtain al1 where e: "zc_arraylist_expand_inner alloc junk al idx = Some (0, al1)" "al_wf al1" "al_size al1 = idx"
    using expand_items [OF wf, of idx alloc junk] i ok unfolding mx by force
  have "idx > al_size al - 1" using i al_wfD(3) [OF wf] by simp
  moreover have "block_read (al_array al1) idx = None" using e al_wfD(5) [OF e(2)] by (simp add: block_read_def)
  ultimately show ?thesis using e by (simp add: zc_arraylist_set_def)
qed

lemma set_no_memory:
  assumes "al_wf al" "al_size al \<le> idx" "\<forall>n. \<not> alloc n"
  shows "zc_arraylist_set alloc junk al idx x = Some (-1, al)"
  using assms by (simp add: zc_arraylist_set_def zc_arraylist_expand_inner_def)

subsection \<open>Appending: the interface of a growing array\<close>

definition al_push :: "'a option \<Rightarrow> 'a zc_arraylist \<Rightarrow> 'a zc_arraylist option" where
  "al_push x al = (case zc_arraylist_add (\<lambda>_. True) (\<lambda>_. None) al x of
     Some (rc, al') \<Rightarrow> if rc = 0 then Some al' else None | None \<Rightarrow> None)"

lemma add_spec:
  assumes "al_wf al" "al_len al < al_size al \<or> al_size al < 2 ^ 30 \<and> alloc (pointers (al_size al * 2))"
  shows "\<exists>al'. zc_arraylist_add alloc junk al x = Some (0, al') \<and> al_wf al' \<and>
    al_items al' = al_items al @ [x] \<and> al_deleted al' = al_deleted al \<and> al_del al' = al_del al"
proof -
  have "stored (al_items al) (al_len al) x = al_items al @ [x]" "replaced al (al_len al) = []"
    using assms(1) al_wfD(1) [OF assms(1)] by (simp_all add: stored_def replaced_def)
  then show ?thesis unfolding zc_arraylist_add_def
    using set_spec [OF assms(1), of "al_len al" alloc junk x] assms(2) al_wfD(1-3) [OF assms(1)] by auto
qed

interpretation al: growing_array al_push al_items al_wf 1073741824
proof
  fix d :: "'a zc_arraylist" and x
  assume "al_wf d" and "length (al_items d) < 1073741824"
  then show "\<exists>d'. al_push x d = Some d' \<and> al_wf d' \<and> al_items d' = al_items d @ [x]"
    using add_spec [of d "\<lambda>_. True" "\<lambda>_. None" x] al_wfD(1,2) [of d]
    by (force simp: al_push_def)
qed

subsection \<open>Sorted insertion\<close>

text \<open>What \<open>zc_arraylist_sortadd\<close> is to compute: insertion behind the elements that do not compare greater.\<close>

fun insert_behind :: "('a \<Rightarrow> 'a \<Rightarrow> int) \<Rightarrow> 'a \<Rightarrow> 'a list \<Rightarrow> 'a list" where
  "insert_behind cmp x [] = [x]"
| "insert_behind cmp x (y # ys) = (if cmp y x > 0 then x # y # ys else y # insert_behind cmp x ys)"

definition place :: "('a \<Rightarrow> 'a \<Rightarrow> int) \<Rightarrow> 'a \<Rightarrow> 'a list \<Rightarrow> nat" where
  "place cmp x xs = length (takeWhile (\<lambda>y. \<not> cmp y x > 0) xs)"

lemma insert_behind_place:
  "insert_behind cmp x xs = take (place cmp x xs) xs @ x # drop (place cmp x xs) xs"
  by (induction xs) (auto simp: place_def)

lemma place_le: "place cmp x xs \<le> length xs"
  by (simp add: place_def length_takeWhile_le)

lemma mset_insert_behind: "mset (insert_behind cmp x xs) = add_mset x (mset xs)"
  by (induction xs) auto

lemma sorted_insert_behind:
  assumes total: "\<And>a b. cmp a b > 0 \<Longrightarrow> cmp b a \<le> 0"
    and trans: "\<And>a b c. cmp a b \<le> 0 \<Longrightarrow> cmp b c \<le> 0 \<Longrightarrow> cmp a c \<le> 0"
  shows "sorted_wrt (\<lambda>a b. cmp a b \<le> 0) xs \<Longrightarrow> sorted_wrt (\<lambda>a b. cmp a b \<le> 0) (insert_behind cmp x xs)"
proof (induction xs)
  case (Cons y ys)
  have set: "set (insert_behind cmp x ys) = insert x (set ys)"
    using mset_insert_behind [of cmp x ys] by (metis set_mset_mset set_mset_add_mset_insert)
  show ?case
  proof (cases "cmp y x > 0")
    case True
    then have xy: "cmp x y \<le> 0" by (rule total)
    then have "\<forall>b\<in>set ys. cmp x b \<le> 0" using Cons.prems trans [OF xy] by simp
    then show ?thesis using Cons.prems True xy by simp
  next
    case False
    then show ?thesis using Cons by (simp add: set not_less)
  qed
qed simp

lemma find_spec:
  assumes wf: "al_wf al"
  shows "n \<le> length (al_items al) \<Longrightarrow> zc_arraylist_find cmp x al (int n) =
    Some (int (n + place cmp x (drop n (al_items al))))"
proof (induction "length (al_items al) - n" arbitrary: n)
  case 0
  then show ?case using wf al_wfD(1) [OF wf]
    by (subst zc_arraylist_find.simps) (auto simp: place_def)
next
  case (Suc k)
  then have n: "n < length (al_items al)" by simp
  have r: "block_read (al_array al) (int n) = Some (al_items al ! n)"
    using n wf al_wfD(1,2) [OF wf] al_wfD(5) [OF wf] by (simp add: block_read_def al_items_def)
  have d: "drop n (al_items al) = al_items al ! n # drop (Suc n) (al_items al)" by (rule Cons_nth_drop_Suc [OF n, symmetric])
  have ih: "zc_arraylist_find cmp x al (int (Suc n)) = Some (int (Suc n + place cmp x (drop (Suc n) (al_items al))))"
    using Suc n by (intro Suc(1)) auto
  have less: "int n < al_len al" using n wf by simp
  show ?case unfolding zc_arraylist_find.simps [of _ _ _ "int n"] d
    using r less ih by (simp add: place_def add.commute)
qed

lemma insert_inner_spec:
  assumes wf: "al_wf al" and i: "i < length (al_items al)" and nn: "al_items al ! i \<noteq> None"
    and room: "al_len al < al_size al \<or> al_size al < 2 ^ 30 \<and> alloc (pointers (al_size al * 2))"
  shows "\<exists>al'. zc_arraylist_insert_inner alloc junk al (int i) x = Some (0, al') \<and> al_wf al' \<and>
    al_items al' = take i (al_items al) @ x # drop i (al_items al) \<and>
    al_deleted al' = al_deleted al \<and> al_del al' = al_del al"
proof -
  note d = al_wfD(1-3) [OF wf]
  obtain y where r: "block_read (al_array al) (int i) = Some (Some y)"
    using i nn wf al_wfD(1,2,5) [OF wf] that by (fastforce simp: block_read_def al_items_def)
  obtain al1 where e: "al_wf al1" "al_items al1 = al_items al" "al_len al1 = al_len al" "al_len al1 < al_size al1"
      "al_deleted al1 = al_deleted al" "al_del al1 = al_del al"
    and run: "(if al_len al > al_size al - 1 then zc_arraylist_expand_inner alloc junk al 0 else Some (0, al)) = Some (0, al1)"
  proof (cases "al_len al > al_size al - 1")
    case True
    have mx: "max (al_size al * 2) 0 = al_size al * 2" using d by simp
    show ?thesis using expand_items [OF wf, of 0 alloc junk] True room d that unfolding mx by force
  next
    case False
    then show ?thesis using wf that by force
  qed
  let ?xs = "al_items al" and ?k = "nat (al_size al1 - al_len al1)"
  obtain m where k: "?k = Suc m" using e(4) by (metis diff_gt_0_iff_gt gr0_implies_Suc zero_less_nat_eq)
  have n: "length ?xs = nat (al_len al1)" using wf e(3) by simp
  have a: "al_array al1 = ?xs @ replicate ?k None" using al_array_split [OF e(1)] e(2) by simp
  have s: "slice (al_array al1) (int i) (al_len al1 - int i) = drop i ?xs"
    using i n by (simp add: slice_def a nat_diff_distrib)
  have w1: "block_write (al_array al1) (int i + 1) (drop i ?xs) =
      Some (take (Suc i) ?xs @ drop i ?xs @ replicate m None)"
    using i n k by (simp add: block_write_def a nat_add_distrib Suc_diff_le)
  have w2: "block_write (take (Suc i) ?xs @ drop i ?xs @ replicate m None) (int i) [x] =
      Some ((take i ?xs @ x # drop i ?xs) @ replicate m None)"
    using i by (simp add: block_write_def min_def)
  let ?al = "al1\<lparr>al_array := (take i ?xs @ x # drop i ?xs) @ replicate m None, al_len := i32 (al_len al1 + 1)\<rparr>"
  have "al_len ?al = int (length (take i ?xs @ x # drop i ?xs))"
    using i n e(4) al_wfD(1,4) [OF e(1)] by simp
  moreover have "al_size ?al = int (length (take i ?xs @ x # drop i ?xs) + m)"
    using i n k al_wfD(1) [OF e(1)] by (simp add: of_nat_diff)
  ultimately have "al_wf ?al" "al_items ?al = take i ?xs @ x # drop i ?xs"
    by (rule al_wf_intro [rotated]; use al_wfD(3,4) [OF e(1)] in simp)+
  moreover have "zc_arraylist_insert_inner alloc junk al (int i) x = Some (0, ?al)"
    using r by (simp add: zc_arraylist_insert_inner_def run s w1 w2)
  ultimately show ?thesis using e by auto
qed

lemma sortadd_spec:
  assumes wf: "al_wf al" and nn: "None \<notin> set (al_items al)"
    and room: "al_len al < al_size al \<or> al_size al < 2 ^ 30 \<and> alloc (pointers (al_size al * 2))"
  shows "\<exists>al'. zc_arraylist_sortadd alloc junk al cmp x = Some (0, al') \<and> al_wf al' \<and>
    al_items al' = insert_behind cmp x (al_items al) \<and>
    al_deleted al' = al_deleted al \<and> al_del al' = al_del al"
proof -
  let ?i = "place cmp x (al_items al)"
  have f: "zc_arraylist_find cmp x al 0 = Some (int ?i)" using find_spec [OF wf, of 0 cmp x] by simp
  show ?thesis
  proof (cases "?i = length (al_items al)")
    case True
    then have "insert_behind cmp x (al_items al) = al_items al @ [x]" by (simp add: insert_behind_place)
    then show ?thesis using add_spec [of al alloc junk x] room True wf al_wfD(1) [OF wf] by (simp add: zc_arraylist_sortadd_def f)
  next
    case False
    then have i: "?i < length (al_items al)" using place_le [of cmp x "al_items al"] by simp
    then have "al_items al ! ?i \<noteq> None" using nn by (metis nth_mem)
    moreover have "int ?i \<noteq> al_len al" using False wf al_wfD(1) [OF wf] by auto
    ultimately show ?thesis
      using insert_inner_spec [OF wf i, of alloc junk x] room i wf False by (simp add: zc_arraylist_sortadd_def f insert_behind_place)
  qed
qed

subsection \<open>Properties\<close>

text \<open>
  \<open>zc_arraylist_set\<close> stores at any index below twice the size, growing the array when it
  must: the element is there, the gap in front of it is null pointers, all others are kept, and
  the element that was replaced is the only one deleted. When memory runs out it reports -1 and
  changes nothing.
\<close>

theorem arraylist_set_stores:
  assumes "al_wf al" and "0 \<le> idx" and "idx < al_size al * 2" and "al_size al < 2 ^ 30"
  shows "(\<exists>al'. zc_arraylist_set (\<lambda>_. True) junk al idx x = Some (0, al') \<and> al_wf al' \<and>
      al_items al' = stored (al_items al) idx x \<and>
      al_deleted al' = al_deleted al @ replaced al idx) \<and>
    (al_size al \<le> idx \<longrightarrow> zc_arraylist_set (\<lambda>_. False) junk al idx x = Some (-1, al))"
  using set_spec [OF assms(1-3), of "\<lambda>_. True" junk x] set_no_memory [OF assms(1), of idx "\<lambda>_. False" junk x] assms(4)
  by auto

theorem arraylist_set_stores_witness:
  "al_items (the (zc_arraylist_new (\<lambda>_. True) True)) = ([] :: nat option list) \<and>
   (\<exists>al'. zc_arraylist_set (\<lambda>_. True) (\<lambda>_. None) (the (zc_arraylist_new (\<lambda>_. True) True)) 40 (Some (7 :: nat)) = Some (0, al') \<and>
     al_items al' = replicate 40 None @ [Some 7])"
proof -
  obtain al :: "nat zc_arraylist" where al: "zc_arraylist_new (\<lambda>_. True) True = Some al" "al_size al = 32"
    by (simp add: zc_arraylist_new_def ARRAY_LIST_DEFAULT_SIZE_def)
  have wf: "al_wf al" "al_items al = []" using new_wf [OF al(1)] by auto
  show ?thesis
    using arraylist_set_stores [OF wf(1), of 40 "\<lambda>_. None" "Some 7"] al wf by (auto simp: stored_def)
qed

text \<open>
  An index of at least twice the size is written out of bounds. The growth is computed as
  room for \<open>idx\<close> elements where \<open>idx + 1\<close> are needed, so the store is behind the array.
\<close>

theorem arraylist_set_overruns:
  assumes "al_wf al" and "al_size al * 2 \<le> idx" and "idx < 2 ^ 31"
  shows "zc_arraylist_set (\<lambda>_. True) junk al idx x = None"
  by (rule set_out_of_bounds [OF assms]) simp

theorem arraylist_set_overruns_witness:
  "zc_arraylist_set (\<lambda>_. True) (\<lambda>_. None) (the (zc_arraylist_new (\<lambda>_. True) False)) 64 (Some ()) = None"
proof -
  obtain al :: "unit zc_arraylist" where al: "zc_arraylist_new (\<lambda>_. True) False = Some al" "al_size al = 32"
    by (simp add: zc_arraylist_new_def ARRAY_LIST_DEFAULT_SIZE_def)
  show ?thesis using arraylist_set_overruns [of al 64] new_wf [OF al(1)] al by simp
qed

text \<open>
  sorted insertion. With a comparison that is a total preorder, \<open>zc_arraylist_sortadd\<close> on
  a sorted list of non-null elements yields the sorted list with the new element behind its
  equals, deletes nothing, and loses nothing.
\<close>

theorem arraylist_sortadd_sorts:
  assumes "al_wf al" and "None \<notin> set (al_items al)" and "al_size al < 2 ^ 30"
    and "\<And>a b. cmp a b > 0 \<Longrightarrow> cmp b a \<le> 0"
    and "\<And>a b c. cmp a b \<le> 0 \<Longrightarrow> cmp b c \<le> 0 \<Longrightarrow> cmp a c \<le> 0"
    and "sorted_wrt (\<lambda>a b. cmp a b \<le> 0) (al_items al)"
  shows "\<exists>al'. zc_arraylist_sortadd (\<lambda>_. True) junk al cmp x = Some (0, al') \<and> al_wf al' \<and>
    sorted_wrt (\<lambda>a b. cmp a b \<le> 0) (al_items al') \<and> mset (al_items al') = add_mset x (mset (al_items al)) \<and>
    al_items al' = insert_behind cmp x (al_items al) \<and> al_deleted al' = al_deleted al"
proof -
  have "sorted_wrt (\<lambda>a b. cmp a b \<le> 0) (insert_behind cmp x (al_items al))"
    by (rule sorted_insert_behind) (fact assms)+
  then show ?thesis
    using sortadd_spec [OF assms(1,2), of "\<lambda>_. True" junk cmp x] assms(3) mset_insert_behind [of cmp x "al_items al"]
    by auto
qed

theorem arraylist_sortadd_sorts_witness:
  "\<exists>al'. zc_arraylist_sortadd (\<lambda>_. True) (\<lambda>_. None) (the (zc_arraylist_new (\<lambda>_. True) False))
      (\<lambda>a b. the a - the b) (Some (5 :: int)) = Some (0, al') \<and> al_items al' = [Some 5]"
proof -
  obtain al :: "int zc_arraylist" where al: "zc_arraylist_new (\<lambda>_. True) False = Some al" "al_size al = 32"
    by (simp add: zc_arraylist_new_def ARRAY_LIST_DEFAULT_SIZE_def)
  show ?thesis
    using arraylist_sortadd_sorts [of al "\<lambda>a b. the a - the b" "\<lambda>_. None" "Some 5"] new_wf [OF al(1)] al by auto
qed

end
