(* ===== verification/Zc_Hashtable.thy ===== *)
theory Zc_Hashtable
  imports Prelude "HOL-Library.Monad_Syntax" "HOL-Library.Multiset"
begin

section \<open>The hash table of the logging library\<close>

text \<open>
  \<open>zc_hashtable_t\<close> of \<open>src/deps/zlog/src/zc_hashtable.c\<close>: separate chaining with doubly
  linked chains. A chain is the list of its entries from the bucket's head along \<open>next\<close>; the
  \<open>prev\<close> and \<open>next\<close> links of an entry are its neighbours in that list, and linking an entry
  in or out is the list operation the pointer assignments perform. A pointer to an entry is
  its place: bucket and position. The callbacks \<open>key_del\<close> and \<open>value_del\<close> are kept as
  whether they are there and the keys and values they have been called on. Sizes are
  \<^typ>\<open>nat\<close>: they count objects in memory, so \<open>size_t\<close> cannot wrap. A table of size 0 makes
  every lookup divide by zero, which is the result \<^const>\<open>None\<close>.
\<close>

record ('k, 'v) zc_hashtable_entry =
  he_hash_key :: "32 word"
  he_key :: 'k
  he_value :: 'v

record ('k, 'v) zc_hashtable =
  ht_nelem :: nat
  ht_tab :: "('k, 'v) zc_hashtable_entry list list"
  ht_tab_size :: nat
  ht_hash :: "'k \<Rightarrow> 32 word"
  ht_equal :: "'k \<Rightarrow> 'k \<Rightarrow> bool"
  ht_key_del :: bool
  ht_value_del :: bool
  ht_deleted_keys :: "'k list"
  ht_deleted_values :: "'v list"

text \<open>Whether the allocator serves a request for so many objects of a kind.\<close>

type_synonym calloc = "nat \<Rightarrow> bool"

definition zc_hashtable_new ::
  "calloc \<Rightarrow> nat \<Rightarrow> ('k \<Rightarrow> 32 word) \<Rightarrow> ('k \<Rightarrow> 'k \<Rightarrow> bool) \<Rightarrow> bool \<Rightarrow> bool \<Rightarrow> ('k, 'v) zc_hashtable option" where
  "zc_hashtable_new calloc a_size hash equal key_del value_del =
     (if \<not> calloc 1 then None else if \<not> calloc a_size then None
      else Some \<lparr>ht_nelem = 0, ht_tab = replicate a_size [], ht_tab_size = a_size, ht_hash = hash,
        ht_equal = equal, ht_key_del = key_del, ht_value_del = value_del,
        ht_deleted_keys = [], ht_deleted_values = []\<rparr>)"

text \<open>Calling the callbacks on an entry.\<close>

definition delete_kv :: "('k, 'v) zc_hashtable_entry \<Rightarrow> ('k, 'v) zc_hashtable \<Rightarrow> ('k, 'v) zc_hashtable" where
  "delete_kv p t = t\<lparr>
     ht_deleted_keys := ht_deleted_keys t @ (if ht_key_del t then [he_key p] else []),
     ht_deleted_values := ht_deleted_values t @ (if ht_value_del t then [he_value p] else [])\<rparr>"

definition zc_hashtable_clean :: "('k, 'v) zc_hashtable \<Rightarrow> ('k, 'v) zc_hashtable" where
  "zc_hashtable_clean t = (fold delete_kv (concat (ht_tab t)) t)
     \<lparr>ht_tab := map (\<lambda>_. []) (ht_tab t), ht_nelem := 0\<rparr>"

text \<open>What deleting the table leaves: the keys and the values given to the callbacks.\<close>

definition zc_hashtable_del :: "('k, 'v) zc_hashtable option \<Rightarrow> 'k list \<times> 'v list" where
  "zc_hashtable_del a_table = (case a_table of None \<Rightarrow> ([], [])
     | Some t \<Rightarrow> let t = fold delete_kv (concat (ht_tab t)) t in (ht_deleted_keys t, ht_deleted_values t))"

primrec rehash_into ::
  "nat \<Rightarrow> ('k, 'v) zc_hashtable_entry list \<Rightarrow> ('k, 'v) zc_hashtable_entry list list \<Rightarrow>
   ('k, 'v) zc_hashtable_entry list list" where
  "rehash_into n [] tab = tab"
| "rehash_into n (p # ps) tab = (let j = unat (he_hash_key p) mod n in rehash_into n ps (tab[j := p # tab ! j]))"

definition zc_hashtable_rehash :: "calloc \<Rightarrow> ('k, 'v) zc_hashtable \<Rightarrow> int \<times> ('k, 'v) zc_hashtable" where
  "zc_hashtable_rehash calloc t = (let tab_size = 2 * ht_tab_size t in
     if \<not> calloc tab_size then (-1, t)
     else (0, t\<lparr>ht_tab := rehash_into tab_size (concat (ht_tab t)) (replicate tab_size []),
                ht_tab_size := tab_size\<rparr>))"

text \<open>The bucket of a key, and the search along a chain: the position of the first equal key.\<close>

definition bucket_of :: "('k, 'v) zc_hashtable \<Rightarrow> 'k \<Rightarrow> nat option" where
  "bucket_of t k = (if ht_tab_size t = 0 then None else Some (unat (ht_hash t k) mod ht_tab_size t))"

primrec chain_find :: "('k \<Rightarrow> 'k \<Rightarrow> bool) \<Rightarrow> 'k \<Rightarrow> ('k, 'v) zc_hashtable_entry list \<Rightarrow> nat option" where
  "chain_find equal k [] = None"
| "chain_find equal k (p # ps) = (if equal k (he_key p) then Some 0 else map_option Suc (chain_find equal k ps))"

definition zc_hashtable_get_entry :: "('k, 'v) zc_hashtable \<Rightarrow> 'k \<Rightarrow> ('k, 'v) zc_hashtable_entry option option" where
  "zc_hashtable_get_entry t k = do {
     i \<leftarrow> bucket_of t k;
     Some (map_option (\<lambda>n. ht_tab t ! i ! n) (chain_find (ht_equal t) k (ht_tab t ! i)))
   }"

definition zc_hashtable_get :: "('k, 'v) zc_hashtable \<Rightarrow> 'k \<Rightarrow> 'v option option" where
  "zc_hashtable_get t k = do {
     i \<leftarrow> bucket_of t k;
     Some (map_option (\<lambda>n. he_value (ht_tab t ! i ! n)) (chain_find (ht_equal t) k (ht_tab t ! i)))
   }"

definition zc_hashtable_put ::
  "calloc \<Rightarrow> ('k, 'v) zc_hashtable \<Rightarrow> 'k \<Rightarrow> 'v \<Rightarrow> (int \<times> ('k, 'v) zc_hashtable) option" where
  "zc_hashtable_put calloc t k v = do {
     i \<leftarrow> bucket_of t k;
     case chain_find (ht_equal t) k (ht_tab t ! i) of
       Some n \<Rightarrow>
         let p = ht_tab t ! i ! n; t = delete_kv p t in
         Some (0, t\<lparr>ht_tab := (ht_tab t)[i := (ht_tab t ! i)[n := p\<lparr>he_key := k, he_value := v\<rparr>]]\<rparr>)
     | None \<Rightarrow>
         let (rc, t) = (if 10 * ht_nelem t > 13 * ht_tab_size t then zc_hashtable_rehash calloc t else (0, t)) in
         if rc \<noteq> 0 then Some (-1, t)
         else if \<not> calloc 1 then Some (-1, t)
         else
           let p = \<lparr>he_hash_key = ht_hash t k, he_key = k, he_value = v\<rparr>;
               i = unat (he_hash_key p) mod ht_tab_size t in
           Some (0, t\<lparr>ht_tab := (ht_tab t)[i := p # ht_tab t ! i], ht_nelem := ht_nelem t + 1\<rparr>)
   }"

definition zc_hashtable_remove ::
  "('k, 'v) zc_hashtable option \<Rightarrow> 'k option \<Rightarrow> ('k, 'v) zc_hashtable option option" where
  "zc_hashtable_remove a_table a_key = (case (a_table, a_key) of
     (Some t, Some k) \<Rightarrow> do {
       i \<leftarrow> bucket_of t k;
       case chain_find (ht_equal t) k (ht_tab t ! i) of
         None \<Rightarrow> Some (Some t)
       | Some n \<Rightarrow>
           let t = delete_kv (ht_tab t ! i ! n) t in
           Some (Some (t\<lparr>ht_tab := (ht_tab t)[i := take n (ht_tab t ! i) @ drop (Suc n) (ht_tab t ! i)],
             ht_nelem := ht_nelem t - 1\<rparr>))
     }
   | _ \<Rightarrow> Some a_table)"

text \<open>Iteration: a place is a bucket and a position in its chain.\<close>

definition first_from :: "('k, 'v) zc_hashtable \<Rightarrow> nat \<Rightarrow> (nat \<times> nat) option" where
  "first_from t i = map_option (\<lambda>j. (j, 0)) (List.find (\<lambda>j. ht_tab t ! j \<noteq> []) [i ..< ht_tab_size t])"

definition zc_hashtable_begin :: "('k, 'v) zc_hashtable \<Rightarrow> (nat \<times> nat) option" where
  "zc_hashtable_begin t = first_from t 0"

definition zc_hashtable_next :: "('k, 'v) zc_hashtable \<Rightarrow> nat \<times> nat \<Rightarrow> (nat \<times> nat) option" where
  "zc_hashtable_next t = (\<lambda>(b, n).
     if Suc n < length (ht_tab t ! b) then Some (b, Suc n)
     else first_from t (unat (he_hash_key (ht_tab t ! b ! n)) mod ht_tab_size t + 1))"

text \<open>\<open>zc_hashtable_foreach\<close>: the entries its body sees, while there is fuel.\<close>

fun zc_hashtable_foreach ::
  "nat \<Rightarrow> ('k, 'v) zc_hashtable \<Rightarrow> (nat \<times> nat) option \<Rightarrow> ('k, 'v) zc_hashtable_entry list option" where
  "zc_hashtable_foreach fuel t None = Some []"
| "zc_hashtable_foreach 0 t (Some p) = None"
| "zc_hashtable_foreach (Suc fuel) t (Some p) =
     map_option ((#) (ht_tab t ! fst p ! snd p)) (zc_hashtable_foreach fuel t (zc_hashtable_next t p))"

text \<open>Keys that are strings: \<open>hash * 33 + c\<close> over the signed characters, in 32 bits.\<close>

primrec str_hash_from :: "32 word \<Rightarrow> string \<Rightarrow> 32 word" where
  "str_hash_from h [] = h"
| "str_hash_from h (c # cs) = str_hash_from ((push_bit 5 h + h) + word_of_int (schar c)) cs"

definition zc_hashtable_str_hash :: "string \<Rightarrow> 32 word" where
  "zc_hashtable_str_hash s = str_hash_from 5381 s"

definition zc_hashtable_str_equal :: "string \<Rightarrow> string \<Rightarrow> bool" where
  "zc_hashtable_str_equal a b \<longleftrightarrow> a = b"

subsection \<open>The interface its clients rely on\<close>

text \<open>
  A store of values under keys, up to the equality \<open>eq\<close> of keys: a lookup after an insertion
  or a deletion sees it under every equal key and nothing else changes.
\<close>

primrec insert_all :: "('k \<Rightarrow> 'v \<Rightarrow> 't \<Rightarrow> 't option) \<Rightarrow> ('k \<times> 'v) list \<Rightarrow> 't \<Rightarrow> 't option" where
  "insert_all put [] t = Some t"
| "insert_all put (kv # kvs) t = Option.bind (put (fst kv) (snd kv) t) (insert_all put kvs)"

locale keyed_store =
  fixes lookup :: "'t \<Rightarrow> 'k \<Rightarrow> 'v option"
    and insert :: "'k \<Rightarrow> 'v \<Rightarrow> 't \<Rightarrow> 't option"
    and delete :: "'k \<Rightarrow> 't \<Rightarrow> 't option"
    and inv :: "'t \<Rightarrow> bool"
    and eq :: "'k \<Rightarrow> 'k \<Rightarrow> bool"
  assumes insert_ok: "inv t \<Longrightarrow> \<exists>t'. insert k v t = Some t' \<and> inv t' \<and>
      (\<forall>k'. lookup t' k' = (if eq k' k then Some v else lookup t k'))"
    and delete_ok: "inv t \<Longrightarrow> \<exists>t'. delete k t = Some t' \<and> inv t' \<and>
      (\<forall>k'. lookup t' k' = (if eq k' k then None else lookup t k'))"
begin

lemma insert_all_ok:
  "inv t \<Longrightarrow> \<exists>t'. insert_all insert kvs t = Some t' \<and> inv t' \<and>
    (\<forall>k'. lookup t' k' = (case List.find (\<lambda>kv. eq k' (fst kv)) (rev kvs) of
       Some kv \<Rightarrow> Some (snd kv) | None \<Rightarrow> lookup t k'))"
proof (induction kvs arbitrary: t)
  case Nil
  then show ?case by simp
next
  case (Cons kv kvs)
  obtain t1 where 1: "insert (fst kv) (snd kv) t = Some t1" "inv t1"
    "\<forall>k'. lookup t1 k' = (if eq k' (fst kv) then Some (snd kv) else lookup t k')"
    using insert_ok [OF Cons.prems] by blast
  obtain t2 where 2: "insert_all insert kvs t1 = Some t2" "inv t2"
    "\<forall>k'. lookup t2 k' = (case List.find (\<lambda>kv. eq k' (fst kv)) (rev kvs) of
       Some kv \<Rightarrow> Some (snd kv) | None \<Rightarrow> lookup t1 k')"
    using Cons.IH [OF 1(2)] by blast
  have app: "List.find P (xs @ [y]) = (case List.find P xs of None \<Rightarrow> if P y then Some y else None | Some x \<Rightarrow> Some x)"
    for P :: "'k \<times> 'v \<Rightarrow> bool" and xs y by (induction xs) auto
  show ?case using 1 2 by (auto simp: app split: option.splits if_splits)
qed

end

subsection \<open>Invariant and contents\<close>

definition keys_ok :: "('k, 'v) zc_hashtable \<Rightarrow> bool" where
  "keys_ok t \<longleftrightarrow> equivp (ht_equal t) \<and> (\<forall>a b. ht_equal t a b \<longrightarrow> ht_hash t a = ht_hash t b)"

definition entries :: "('k, 'v) zc_hashtable \<Rightarrow> ('k, 'v) zc_hashtable_entry multiset" where
  "entries t = mset (concat (ht_tab t))"

definition distinct_chain :: "('k \<Rightarrow> 'k \<Rightarrow> bool) \<Rightarrow> ('k, 'v) zc_hashtable_entry list \<Rightarrow> bool" where
  "distinct_chain equal ps = sorted_wrt (\<lambda>p q. \<not> equal (he_key p) (he_key q)) ps"

definition chain_ok :: "('k, 'v) zc_hashtable \<Rightarrow> nat \<Rightarrow> nat \<Rightarrow> ('k, 'v) zc_hashtable_entry list \<Rightarrow> bool" where
  "chain_ok t n i ps \<longleftrightarrow> distinct_chain (ht_equal t) ps \<and>
     (\<forall>p\<in>set ps. he_hash_key p = ht_hash t (he_key p) \<and> unat (he_hash_key p) mod n = i)"

definition tab_ok :: "('k, 'v) zc_hashtable \<Rightarrow> nat \<Rightarrow> ('k, 'v) zc_hashtable_entry list list \<Rightarrow> bool" where
  "tab_ok t n tab \<longleftrightarrow> length tab = n \<and> 0 < n \<and> (\<forall>i<n. chain_ok t n i (tab ! i))"

definition ht_wf :: "('k, 'v) zc_hashtable \<Rightarrow> bool" where
  "ht_wf t \<longleftrightarrow> keys_ok t \<and> tab_ok t (ht_tab_size t) (ht_tab t) \<and> ht_nelem t = length (concat (ht_tab t))"

lemma in_concat_nth: "p \<in> set (concat xss) \<longleftrightarrow> (\<exists>i<length xss. p \<in> set (xss ! i))"
  by (metis UN_iff in_set_conv_nth set_concat)

lemma concat_split:
  "i < length xss \<Longrightarrow> concat (xss[i := ys]) = concat (take i xss) @ ys @ concat (drop (Suc i) xss)"
  by (simp add: upd_conv_take_nth_drop)

lemma mset_concat_update:
  assumes "i < length xss"
  shows "\<exists>R. mset (concat xss) = mset (xss ! i) + R \<and> (\<forall>ys. mset (concat (xss[i := ys])) = mset ys + R)"
proof -
  have "concat xss = concat (take i xss) @ xss ! i @ concat (drop (Suc i) xss)"
    using concat_split [OF assms, of "xss ! i"] by simp
  then show ?thesis
    by (intro exI [of _ "mset (concat (take i xss)) + mset (concat (drop (Suc i) xss))"])
       (simp add: concat_split [OF assms] del: concat.simps)
qed

lemma chain_find_Some:
  "chain_find equal k ps = Some n \<Longrightarrow> n < length ps \<and> equal k (he_key (ps ! n))"
  by (induction ps arbitrary: n) (auto split: if_splits)

lemma chain_find_None: "chain_find equal k ps = None \<longleftrightarrow> (\<forall>p\<in>set ps. \<not> equal k (he_key p))"
  by (induction ps) auto

lemma keys_okD:
  assumes "keys_ok t"
  shows "ht_equal t a a" "ht_equal t a b \<Longrightarrow> ht_equal t b a"
    "ht_equal t a b \<Longrightarrow> ht_equal t b c \<Longrightarrow> ht_equal t a c" "ht_equal t a b \<Longrightarrow> ht_hash t a = ht_hash t b"
  using assms by (auto simp: keys_ok_def intro: equivp_reflp equivp_symp equivp_transp)

text \<open>The members of the table with a key equal to \<open>k\<close>: at most one, and the chain search finds it.\<close>

lemma distinct_chain_unique:
  assumes "keys_ok t" "distinct_chain (ht_equal t) ps" "p \<in> set ps" "q \<in> set ps" "ht_equal t (he_key p) (he_key q)"
  shows "p = q"
  using assms(2-5)
proof (induction ps)
  case (Cons x ps)
  then show ?case using keys_okD(2) [OF assms(1)] by (auto simp: distinct_chain_def)
qed simp

lemma get_entry_iff:
  assumes wf: "ht_wf t"
  shows "\<exists>r. zc_hashtable_get_entry t k = Some r \<and> zc_hashtable_get t k = Some (map_option he_value r) \<and>
    (\<forall>p. r = Some p \<longleftrightarrow> p \<in># entries t \<and> ht_equal t k (he_key p))"
proof -
  let ?n = "ht_tab_size t" and ?i = "unat (ht_hash t k) mod ht_tab_size t"
  have keys: "keys_ok t" and n: "0 < ?n" "length (ht_tab t) = ?n"
    and chains: "\<And>i. i < ?n \<Longrightarrow> chain_ok t ?n i (ht_tab t ! i)"
    using wf by (auto simp: ht_wf_def tab_ok_def)
  have i: "?i < ?n" using n by simp
  let ?ps = "ht_tab t ! ?i"
  let ?r = "map_option (\<lambda>n. ?ps ! n) (chain_find (ht_equal t) k ?ps)"
  have mem: "p \<in> set ?ps" if in_t: "p \<in># entries t" and eq: "ht_equal t k (he_key p)" for p
  proof -
    obtain j where j: "j < ?n" "p \<in> set (ht_tab t ! j)"
      using in_t n unfolding entries_def set_mset_mset in_concat_nth by auto
    then have "unat (ht_hash t (he_key p)) mod ?n = j" using chains [OF j(1)] by (auto simp: chain_ok_def)
    then show ?thesis using j(2) keys_okD(4) [OF keys eq] by simp
  qed
  have sub: "p \<in># entries t" if "p \<in> set ?ps" for p
    unfolding entries_def set_mset_mset in_concat_nth n(2) using that i by blast
  have "?r = Some p \<longleftrightarrow> p \<in># entries t \<and> ht_equal t k (he_key p)" for p
  proof
    assume "?r = Some p"
    then show "p \<in># entries t \<and> ht_equal t k (he_key p)" by (auto dest!: chain_find_Some intro: sub)
  next
    assume p: "p \<in># entries t \<and> ht_equal t k (he_key p)"
    then have p': "p \<in> set ?ps" using mem by blast
    then obtain m where m: "chain_find (ht_equal t) k ?ps = Some m"
      using p chain_find_None [of "ht_equal t" k ?ps] by (cases "chain_find (ht_equal t) k ?ps") auto
    have mm: "?ps ! m \<in> set ?ps" "ht_equal t k (he_key (?ps ! m))" using chain_find_Some [OF m] by simp_all
    have dc: "distinct_chain (ht_equal t) ?ps" using chains [OF i] by (simp only: chain_ok_def)
    have "ht_equal t (he_key (?ps ! m)) (he_key p)"
      using mm(2) p keys_okD(2,3) [OF keys] by blast
    from distinct_chain_unique [OF keys dc mm(1) p' this] have "?ps ! m = p" .
    then show "?r = Some p" using m by simp
  qed
  moreover have "zc_hashtable_get_entry t k = Some ?r" "zc_hashtable_get t k = Some (map_option he_value ?r)"
    using n(1) by (simp_all add: zc_hashtable_get_entry_def zc_hashtable_get_def bucket_of_def option.map_comp comp_def)
  ultimately show ?thesis by blast
qed

lemma rehash_into_ok:
  assumes keys: "keys_ok t" and n: "0 < n"
  shows "tab_ok t n tab \<Longrightarrow> (\<forall>p\<in>set ps. he_hash_key p = ht_hash t (he_key p)) \<Longrightarrow>
    distinct_chain (ht_equal t) ps \<Longrightarrow>
    (\<forall>p\<in>set ps. \<forall>q\<in>set (concat tab). \<not> ht_equal t (he_key p) (he_key q)) \<Longrightarrow>
    tab_ok t n (rehash_into n ps tab) \<and> mset (concat (rehash_into n ps tab)) = mset ps + mset (concat tab)"
proof (induction ps arbitrary: tab)
  case Nil
  then show ?case by simp
next
  case (Cons p ps)
  let ?j = "unat (he_hash_key p) mod n" and ?tab = "tab[unat (he_hash_key p) mod n := p # tab ! (unat (he_hash_key p) mod n)]"
  have j: "?j < n" "length tab = n" using n Cons.prems(1) by (auto simp: tab_ok_def)
  have sub: "set (tab ! ?j) \<subseteq> set (concat tab)" using j unfolding in_concat_nth subset_iff by blast
  have "chain_ok t n ?j (tab ! ?j)" using Cons.prems(1) j(1) unfolding tab_ok_def by blast
  then have "chain_ok t n ?j (p # tab ! ?j)"
    using Cons.prems(2,4) sub unfolding chain_ok_def distinct_chain_def sorted_wrt.simps by auto
  then have ok: "tab_ok t n ?tab"
    using Cons.prems(1) j by (simp add: tab_ok_def nth_list_update)
  obtain R where "mset (concat tab) = mset (tab ! ?j) + R" "\<forall>ys. mset (concat (tab[?j := ys])) = mset ys + R"
    using mset_concat_update [of ?j tab] j by auto
  then have m: "mset (concat ?tab) = add_mset p (mset (concat tab))" by simp
  then have s: "set (concat ?tab) = insert p (set (concat tab))" by (metis set_mset_mset set_mset_add_mset_insert)
  have "\<forall>q\<in>set ps. \<forall>r\<in>set (concat ?tab). \<not> ht_equal t (he_key q) (he_key r)"
    unfolding s using Cons.prems(3,4) keys_okD(2) [OF keys] by (auto simp: distinct_chain_def)
  then show ?case using Cons.IH [OF ok] Cons.prems(2,3) m by (simp add: distinct_chain_def Let_def)
qed

lemma distinct_all:
  assumes "ht_wf t"
  shows "distinct_chain (ht_equal t) (concat (ht_tab t))"
proof -
  let ?n = "ht_tab_size t"
  have keys: "keys_ok t" and tab: "length (ht_tab t) = ?n" "\<And>i. i < ?n \<Longrightarrow> chain_ok t ?n i (ht_tab t ! i)"
    using assms by (auto simp: ht_wf_def tab_ok_def)
  have "k \<le> ?n \<Longrightarrow> distinct_chain (ht_equal t) (concat (take k (ht_tab t)))" for k
  proof (induction k)
    case (Suc k)
    have 1: "\<forall>p\<in>set (ht_tab t ! k). unat (ht_hash t (he_key p)) mod ?n = k"
      using tab(2) [of k] Suc.prems by (auto simp: chain_ok_def)
    have 2: "\<forall>q\<in>set (concat (take k (ht_tab t))). unat (ht_hash t (he_key q)) mod ?n < k"
    proof
      fix q assume "q \<in> set (concat (take k (ht_tab t)))"
      then obtain j where "j < k" "q \<in> set (ht_tab t ! j)"
        using Suc.prems tab(1) unfolding in_concat_nth by auto
      then show "unat (ht_hash t (he_key q)) mod ?n < k" using tab(2) [of j] Suc.prems by (auto simp: chain_ok_def)
    qed
    have "\<forall>q\<in>set (concat (take k (ht_tab t))). \<forall>p\<in>set (ht_tab t ! k). \<not> ht_equal t (he_key q) (he_key p)"
      using 1 2 keys_okD(4) [OF keys] by (metis less_irrefl)
    then show ?case using Suc tab by (auto simp: distinct_chain_def take_Suc_conv_app_nth sorted_wrt_append chain_ok_def)
  qed (simp add: distinct_chain_def)
  from this [of ?n] show ?thesis using tab(1) by simp
qed

lemma rehash_ok:
  assumes wf: "ht_wf t" and ok: "calloc (2 * ht_tab_size t)"
  shows "\<exists>t'. zc_hashtable_rehash calloc t = (0, t') \<and> ht_wf t' \<and> entries t' = entries t \<and>
    ht_tab_size t' = 2 * ht_tab_size t \<and> ht_equal t' = ht_equal t \<and> ht_hash t' = ht_hash t"
proof -
  let ?n = "2 * ht_tab_size t"
  let ?tab = "rehash_into ?n (concat (ht_tab t)) (replicate ?n [])"
  have keys: "keys_ok t" and n: "0 < ?n" "length (ht_tab t) = ht_tab_size t" using wf by (auto simp: ht_wf_def tab_ok_def)
  have hash: "\<forall>p. p \<in> set (concat (ht_tab t)) \<longrightarrow> he_hash_key p = ht_hash t (he_key p)"
    using wf unfolding in_concat_nth ht_wf_def tab_ok_def chain_ok_def by metis
  have "tab_ok t ?n (replicate ?n [])" using n by (simp add: tab_ok_def chain_ok_def distinct_chain_def)
  from rehash_into_ok [OF keys n(1) this _ distinct_all [OF wf]] hash
  have r: "tab_ok t ?n ?tab" "mset (concat ?tab) = mset (concat (ht_tab t))" by auto
  let ?t = "t\<lparr>ht_tab := ?tab, ht_tab_size := ?n\<rparr>"
  have same: "tab_ok ?t = tab_ok t" "keys_ok ?t = keys_ok t"
    by (simp_all add: tab_ok_def chain_ok_def keys_ok_def fun_eq_iff)
  have "length (concat ?tab) = length (concat (ht_tab t))" using r(2) by (metis size_mset)
  then have "ht_wf ?t" using r wf by (simp add: ht_wf_def same)
  then show ?thesis using ok r(2) by (simp add: zc_hashtable_rehash_def Let_def entries_def)
qed

lemma delete_kv_simps [simp]:
  "ht_tab (delete_kv p t) = ht_tab t" "ht_nelem (delete_kv p t) = ht_nelem t"
  "ht_tab_size (delete_kv p t) = ht_tab_size t" "ht_hash (delete_kv p t) = ht_hash t"
  "ht_equal (delete_kv p t) = ht_equal t" "ht_key_del (delete_kv p t) = ht_key_del t"
  "ht_value_del (delete_kv p t) = ht_value_del t"
  by (simp_all add: delete_kv_def)

text \<open>What counts for the invariant of a table that shares its functions with another.\<close>

lemma ht_wf_cong:
  assumes "ht_hash t' = ht_hash t" "ht_equal t' = ht_equal t"
  shows "keys_ok t' = keys_ok t" "chain_ok t' = chain_ok t" "tab_ok t' = tab_ok t"
proof -
  show "keys_ok t' = keys_ok t" unfolding keys_ok_def assms ..
  show c: "chain_ok t' = chain_ok t" by (intro ext) (simp only: chain_ok_def assms)
  show "tab_ok t' = tab_ok t" by (intro ext) (simp only: tab_ok_def c)
qed

lemma ht_wfD:
  assumes "ht_wf t"
  shows "keys_ok t" "0 < ht_tab_size t" "length (ht_tab t) = ht_tab_size t"
    "i < ht_tab_size t \<Longrightarrow> chain_ok t (ht_tab_size t) i (ht_tab t ! i)" "ht_nelem t = size (entries t)"
  using assms by (auto simp: ht_wf_def tab_ok_def entries_def)

lemma chain_entries:
  assumes "ht_wf t" "i < ht_tab_size t" "p \<in> set (ht_tab t ! i)"
  shows "p \<in># entries t"
  unfolding entries_def set_mset_mset in_concat_nth ht_wfD(3) [OF assms(1)] using assms(2,3) by blast

lemma ht_wf_update:
  assumes wf: "ht_wf t" and i: "i < ht_tab_size t" and ok: "chain_ok t (ht_tab_size t) i ps"
    and t': "ht_tab t' = (ht_tab t)[i := ps]" "ht_tab_size t' = ht_tab_size t" "ht_hash t' = ht_hash t" "ht_equal t' = ht_equal t"
    and n: "ht_nelem t' + length (ht_tab t ! i) = ht_nelem t + length ps"
  shows "ht_wf t' \<and> entries t' + mset (ht_tab t ! i) = entries t + mset ps"
proof -
  obtain R where R: "mset (concat (ht_tab t)) = mset (ht_tab t ! i) + R"
      "\<forall>ys. mset (concat ((ht_tab t)[i := ys])) = mset ys + R"
    using mset_concat_update [of i "ht_tab t"] i ht_wfD(3) [OF wf] by auto
  have "length (concat (ht_tab t)) = length (ht_tab t ! i) + size R"
    "length (concat (ht_tab t')) = length ps + size R"
    using R t'(1) by (metis size_mset size_union)+
  then have "ht_nelem t' = length (concat (ht_tab t'))" using n wf by (simp add: ht_wf_def)
  moreover have "tab_ok t (ht_tab_size t) ((ht_tab t)[i := ps])"
    using wf i ok by (simp add: ht_wf_def tab_ok_def nth_list_update)
  ultimately have "ht_wf t'" using wf t' ht_wf_cong [OF t'(3,4)] by (simp add: ht_wf_def)
  then show ?thesis using R t'(1) by (simp add: entries_def)
qed

definition others :: "('k, 'v) zc_hashtable \<Rightarrow> 'k \<Rightarrow> ('k, 'v) zc_hashtable_entry multiset" where
  "others t k = filter_mset (\<lambda>p. \<not> ht_equal t k (he_key p)) (entries t)"

lemma filter_distinct:
  assumes "keys_ok t"
  shows "distinct_chain (ht_equal t) ps \<Longrightarrow> p \<in> set ps \<Longrightarrow> ht_equal t k (he_key p) \<Longrightarrow>
    mset ps = add_mset p (filter_mset (\<lambda>q. \<not> ht_equal t k (he_key q)) (mset ps))"
proof (induction ps)
  case (Cons q ps)
  have noeq: "\<not> ht_equal t k (he_key r)" if "r \<in> set ps" "ht_equal t k (he_key q)" for r
    using Cons.prems(1) that keys_okD(2,3) [OF assms] unfolding distinct_chain_def sorted_wrt.simps by blast
  show ?case
  proof (cases "p = q")
    case True
    then have "filter_mset (\<lambda>q. \<not> ht_equal t k (he_key q)) (mset ps) = mset ps"
      using noeq Cons.prems(3) by (auto simp: filter_mset_eq_conv)
    then show ?thesis using True Cons.prems(3) by simp
  next
    case False
    then have "\<not> ht_equal t k (he_key q)" using noeq Cons.prems(2,3) by auto
    then show ?thesis using Cons False by (simp add: distinct_chain_def)
  qed
qed simp

lemma entries_split:
  assumes "ht_wf t" "p \<in># entries t" "ht_equal t k (he_key p)"
  shows "entries t = add_mset p (others t k)"
  using filter_distinct [OF ht_wfD(1) distinct_all, OF assms(1,1), of p k] assms(2,3)
  by (simp add: entries_def others_def)

lemma distinct_chain_update:
  assumes "keys_ok t" "distinct_chain (ht_equal t) ps" "n < length ps"
    "ht_equal t (he_key (ps ! n)) (he_key q)"
  shows "distinct_chain (ht_equal t) (ps[n := q])"
  using assms(2-4)
proof (induction ps arbitrary: n)
  case (Cons x ps)
  show ?case
  proof (cases n)
    case 0
    have "\<not> ht_equal t (he_key q) (he_key y)" if "y \<in> set ps" for y
      using Cons.prems(1,3) 0 that keys_okD(3) [OF assms(1), of "he_key x" "he_key q" "he_key y"]
      by (simp add: distinct_chain_def) blast
    then show ?thesis using Cons.prems 0 by (simp add: distinct_chain_def)
  next
    case (Suc m)
    have x: "\<not> ht_equal t (he_key x) (he_key y)" if "y \<in> set ps" for y
      using Cons.prems(1) that by (simp add: distinct_chain_def)
    have "\<not> ht_equal t (he_key x) (he_key q)"
      using x [of "ps ! m"] Cons.prems(2,3) Suc
        keys_okD(3) [OF assms(1), of "he_key x" "he_key q" "he_key (ps ! m)"] keys_okD(2) [OF assms(1), of "he_key (ps ! m)" "he_key q"]
      by auto
    then have "\<forall>y\<in>set (ps[m := q]). \<not> ht_equal t (he_key x) (he_key y)"
      using x set_update_subset_insert [of ps m q] by blast
    then show ?thesis using Cons Suc by (simp add: distinct_chain_def)
  qed
qed simp

lemma mset_update_nth: "n < length ps \<Longrightarrow> mset (ps[n := q]) + {#ps ! n#} = mset ps + {#q#}"
  by (simp add: mset_update)

lemma mset_cancel:
  fixes a :: "'a multiset"
  assumes "a + b = c + d" and "d + x = b + y"
  shows "a + x = c + y"
proof -
  have "(a + x) + b = c + (d + x)" using assms(1) by (metis add.assoc add.commute)
  also have "\<dots> = (c + y) + b" unfolding assms(2) by (simp add: ac_simps)
  finally show ?thesis by simp
qed

lemma mset_swap:
  fixes a :: "'a multiset"
  assumes "a + {#x#} = c + {#y#}" and "c = add_mset x d"
  shows "a = add_mset y d"
  using assms by (simp add: add_mset_commute [of x y])

lemma put_spec:
  assumes wf: "ht_wf t"
  shows "\<exists>rc t'. zc_hashtable_put calloc t k v = Some (rc, t') \<and> ht_wf t' \<and>
    (rc = 0 \<and> entries t' = add_mset \<lparr>he_hash_key = ht_hash t k, he_key = k, he_value = v\<rparr> (others t k) \<or>
     rc = -1 \<and> entries t' = entries t \<and> \<not> (\<forall>n. calloc n)) \<and>
    ht_equal t' = ht_equal t \<and> ht_hash t' = ht_hash t"
proof -
  let ?i = "unat (ht_hash t k) mod ht_tab_size t"
  let ?p = "\<lparr>he_hash_key = ht_hash t k, he_key = k, he_value = v\<rparr>"
  have keys: "keys_ok t" using ht_wfD(1) [OF wf] .
  have i: "?i < ht_tab_size t" using ht_wfD(2) [OF wf] by simp
  have b: "bucket_of t k = Some ?i" using ht_wfD(2) [OF wf] by (simp add: bucket_of_def)
  note co = ht_wfD(4) [OF wf i]
  show ?thesis
  proof (cases "chain_find (ht_equal t) k (ht_tab t ! ?i)")
    case (Some n)
    let ?ps = "ht_tab t ! ?i" and ?o = "ht_tab t ! ?i ! n"
    note n = chain_find_Some [OF Some]
    have "?o \<in> set ?ps" using n by simp
    then have inn: "?o \<in># entries t" and hk: "he_hash_key ?o = ht_hash t (he_key ?o)"
      using i ht_wfD(3) [OF wf] co unfolding entries_def set_mset_mset in_concat_nth chain_ok_def by auto
    have same: "?o\<lparr>he_key := k, he_value := v\<rparr> = ?p"
      using hk keys_okD(4) [OF keys, of k "he_key ?o"] n by (cases ?o) simp
    let ?t = "(delete_kv ?o t)\<lparr>ht_tab := (ht_tab t)[?i := ?ps[n := ?p]]\<rparr>"
    have "distinct_chain (ht_equal t) (?ps[n := ?p])"
      by (rule distinct_chain_update [OF keys]) (use co n keys_okD(2) [OF keys, of k] in \<open>simp_all add: chain_ok_def\<close>)
    then have "chain_ok t (ht_tab_size t) ?i (?ps[n := ?p])"
      using co set_update_subset_insert [of ?ps n ?p] unfolding chain_ok_def by auto
    from ht_wf_update [OF wf i this, of ?t]
    have u: "ht_wf ?t" "entries ?t + mset ?ps = entries t + mset (?ps[n := ?p])" by simp_all
    have "entries ?t + {#?o#} = entries t + {#?p#}"
      by (rule mset_cancel [OF u(2) mset_update_nth]) (use n in simp)
    then have "entries ?t = add_mset ?p (others t k)"
      by (rule mset_swap) (rule entries_split [OF wf inn], use n in simp)
    then show ?thesis using u(1) by (simp add: zc_hashtable_put_def b Some Let_def same)
  next
    case None
    define big where "big = (10 * ht_nelem t > 13 * ht_tab_size t)"
    have none: "\<forall>p\<in>#entries t. \<not> ht_equal t k (he_key p)"
      using get_entry_iff [OF wf, of k] None b by (auto simp: zc_hashtable_get_entry_def)
    show ?thesis
    proof (cases "big \<and> \<not> calloc (2 * ht_tab_size t)")
      case True
      then show ?thesis using wf by (auto simp: zc_hashtable_put_def b None big_def zc_hashtable_rehash_def Let_def)
    next
      case False
      obtain t1 where t1: "(if big then zc_hashtable_rehash calloc t else (0, t)) = (0, t1)"
        and wf1: "ht_wf t1" "entries t1 = entries t" "ht_equal t1 = ht_equal t" "ht_hash t1 = ht_hash t"
        using rehash_ok [OF wf, of calloc] False wf by (cases big) auto
      let ?j = "unat (ht_hash t k) mod ht_tab_size t1"
      let ?t = "t1\<lparr>ht_tab := (ht_tab t1)[?j := ?p # ht_tab t1 ! ?j], ht_nelem := ht_nelem t1 + 1\<rparr>"
      have run: "zc_hashtable_put calloc t k v = (if \<not> calloc 1 then Some (-1, t1) else Some (0, ?t))"
        using t1 wf1 by (simp add: zc_hashtable_put_def b None big_def Let_def split: prod.split)
      have j: "?j < ht_tab_size t1" using ht_wfD(2) [OF wf1(1)] by simp
      have "set (ht_tab t1 ! ?j) \<subseteq> set_mset (entries t1)" using chain_entries [OF wf1(1) j] by blast
      then have "chain_ok t1 (ht_tab_size t1) ?j (?p # ht_tab t1 ! ?j)"
        using ht_wfD(4) [OF wf1(1) j] none wf1 by (auto simp: chain_ok_def distinct_chain_def)
      from ht_wf_update [OF wf1(1) j this, of ?t]
      have u: "ht_wf ?t" "entries ?t + mset (ht_tab t1 ! ?j) = entries t1 + mset (?p # ht_tab t1 ! ?j)" by simp_all
      then have "entries ?t = add_mset ?p (entries t)" using wf1(2) by simp
      moreover have "others t k = entries t" using none by (simp add: others_def filter_mset_eq_conv)
      ultimately show ?thesis using u(1) wf1 run by auto
    qed
  qed
qed

lemma remove_spec:
  assumes wf: "ht_wf t"
  shows "\<exists>t'. zc_hashtable_remove (Some t) (Some k) = Some (Some t') \<and> ht_wf t' \<and>
    entries t' = others t k \<and> ht_equal t' = ht_equal t \<and> ht_hash t' = ht_hash t"
proof -
  let ?i = "unat (ht_hash t k) mod ht_tab_size t"
  have keys: "keys_ok t" using ht_wfD(1) [OF wf] .
  have i: "?i < ht_tab_size t" using ht_wfD(2) [OF wf] by simp
  have b: "bucket_of t k = Some ?i" using ht_wfD(2) [OF wf] by (simp add: bucket_of_def)
  note co = ht_wfD(4) [OF wf i]
  show ?thesis
  proof (cases "chain_find (ht_equal t) k (ht_tab t ! ?i)")
    case None
    then have "\<forall>p\<in>#entries t. \<not> ht_equal t k (he_key p)"
      using get_entry_iff [OF wf, of k] b by (auto simp: zc_hashtable_get_entry_def)
    then have "others t k = entries t" by (simp add: others_def filter_mset_eq_conv)
    then show ?thesis using wf b None by (simp add: zc_hashtable_remove_def)
  next
    case (Some n)
    let ?ps = "ht_tab t ! ?i" and ?o = "ht_tab t ! ?i ! n"
    note n = chain_find_Some [OF Some]
    have split: "?ps = take n ?ps @ ?o # drop (Suc n) ?ps" using n by (simp add: id_take_nth_drop [symmetric])
    have inn: "?o \<in># entries t"
      using i n ht_wfD(3) [OF wf] unfolding entries_def set_mset_mset in_concat_nth by (metis nth_mem)
    let ?t = "(delete_kv ?o t)\<lparr>ht_tab := (ht_tab t)[?i := take n ?ps @ drop (Suc n) ?ps], ht_nelem := ht_nelem t - 1\<rparr>"
    have ch: "chain_ok t (ht_tab_size t) ?i (take n ?ps @ drop (Suc n) ?ps)"
    proof -
      have "sorted_wrt (\<lambda>p q. \<not> ht_equal t (he_key p) (he_key q)) (take n ?ps @ ?o # drop (Suc n) ?ps)"
        using co split by (simp add: chain_ok_def distinct_chain_def)
      moreover have "set (take n ?ps @ drop (Suc n) ?ps) \<subseteq> set ?ps"
        by (auto dest: in_set_takeD in_set_dropD)
      ultimately show ?thesis
        using co unfolding chain_ok_def distinct_chain_def sorted_wrt_append by auto
    qed
    have pos: "0 < ht_nelem t" using inn ht_wfD(5) [OF wf] by (metis nonempty_has_size multi_member_last empty_iff set_mset_empty)
    from ht_wf_update [OF wf i ch, of ?t] n pos
    have u: "ht_wf ?t" "entries ?t + mset ?ps = entries t + mset (take n ?ps @ drop (Suc n) ?ps)" by auto
    have "mset ?ps = add_mset ?o (mset (take n ?ps @ drop (Suc n) ?ps))"
      by (subst split) simp
    then have "add_mset ?o (entries ?t) = entries t" using u(2) by simp
    then have "entries ?t = others t k" using entries_split [OF wf inn, of k] n by (metis add_mset_add_single add_right_imp_eq)
    then show ?thesis using u(1) by (simp add: zc_hashtable_remove_def b Some Let_def)
  qed
qed

lemma lookup_unique:
  assumes "ht_wf t" "p \<in># entries t" "ht_equal t k (he_key p)"
  shows "zc_hashtable_get t k = Some (Some (he_value p))"
  using get_entry_iff [OF assms(1), of k] assms(2,3) by auto

lemma lookup_none:
  assumes "ht_wf t" "\<forall>p\<in>#entries t. \<not> ht_equal t k (he_key p)"
  shows "zc_hashtable_get t k = Some None"
  using get_entry_iff [OF assms(1), of k] assms(2) by (metis not_None_eq option.map_disc_iff)

text \<open>Two tables with the same members under every key give the same answer.\<close>

lemma lookup_cong:
  assumes "ht_wf t" "ht_wf t'" "\<And>p. p \<in># entries t \<and> ht_equal t k (he_key p) \<longleftrightarrow> p \<in># entries t' \<and> ht_equal t' k (he_key p)"
  shows "zc_hashtable_get t k = zc_hashtable_get t' k"
proof -
  obtain r r' where "zc_hashtable_get t k = Some (map_option he_value r)" "zc_hashtable_get t' k = Some (map_option he_value r')"
    "\<forall>p. r = Some p \<longleftrightarrow> p \<in># entries t \<and> ht_equal t k (he_key p)"
    "\<forall>p. r' = Some p \<longleftrightarrow> p \<in># entries t' \<and> ht_equal t' k (he_key p)"
    using get_entry_iff [OF assms(1), of k] get_entry_iff [OF assms(2), of k] by auto
  moreover from this have "r = r'" using assms(3) by (metis option.exhaust)
  ultimately show ?thesis by simp
qed

lemma get_put:
  assumes wf: "ht_wf t" and wf': "ht_wf t'" and e: "ht_equal t' = ht_equal t"
    and en: "entries t' = add_mset \<lparr>he_hash_key = h, he_key = k, he_value = v\<rparr> (others t k)"
  shows "zc_hashtable_get t' k' = (if ht_equal t k' k then Some (Some v) else zc_hashtable_get t k')"
proof (cases "ht_equal t k' k")
  case True
  then show ?thesis using lookup_unique [OF wf', of "\<lparr>he_hash_key = h, he_key = k, he_value = v\<rparr>" k'] en e by simp
next
  case False
  have "p \<in># entries t' \<and> ht_equal t' k' (he_key p) \<longleftrightarrow> p \<in># entries t \<and> ht_equal t k' (he_key p)" for p
    using False en e keys_okD(2,3) [OF ht_wfD(1) [OF wf], of k "he_key p"]
      keys_okD(3) [OF ht_wfD(1) [OF wf], of k' "he_key p" k] by (auto simp: others_def)
  from lookup_cong [OF wf' wf this] show ?thesis using False by simp
qed

lemma get_remove:
  assumes wf: "ht_wf t" and wf': "ht_wf t'" and e: "ht_equal t' = ht_equal t" and en: "entries t' = others t k"
  shows "zc_hashtable_get t' k' = (if ht_equal t k' k then Some None else zc_hashtable_get t k')"
proof (cases "ht_equal t k' k")
  case True
  have "\<not> ht_equal t' k' (he_key p)" if "p \<in># entries t'" for p
    using that True en e keys_okD(2) [OF ht_wfD(1) [OF wf], of k' k]
      keys_okD(3) [OF ht_wfD(1) [OF wf], of k k' "he_key p"] by (auto simp: others_def)
  then show ?thesis using lookup_none [OF wf', of k'] True by simp
next
  case False
  have "p \<in># entries t' \<and> ht_equal t' k' (he_key p) \<longleftrightarrow> p \<in># entries t \<and> ht_equal t k' (he_key p)" for p
    using False en e keys_okD(2) [OF ht_wfD(1) [OF wf], of k "he_key p"]
      keys_okD(3) [OF ht_wfD(1) [OF wf], of k' "he_key p" k] by (auto simp: others_def)
  from lookup_cong [OF wf' wf this] show ?thesis using False by simp
qed

subsection \<open>String tables provide a keyed store\<close>

definition ht_lookup :: "(string, 'v) zc_hashtable \<Rightarrow> string \<Rightarrow> 'v option" where
  "ht_lookup t k = Option.bind (zc_hashtable_get t k) id"

definition ht_insert :: "string \<Rightarrow> 'v \<Rightarrow> (string, 'v) zc_hashtable \<Rightarrow> (string, 'v) zc_hashtable option" where
  "ht_insert k v t = (case zc_hashtable_put (\<lambda>_. True) t k v of
     Some (rc, t') \<Rightarrow> if rc = 0 then Some t' else None | None \<Rightarrow> None)"

definition ht_delete :: "string \<Rightarrow> (string, 'v) zc_hashtable \<Rightarrow> (string, 'v) zc_hashtable option" where
  "ht_delete k t = Option.bind (zc_hashtable_remove (Some t) (Some k)) id"

definition string_table :: "(string, 'v) zc_hashtable \<Rightarrow> bool" where
  "string_table t \<longleftrightarrow> ht_wf t \<and> ht_equal t = zc_hashtable_str_equal"

interpretation ht: keyed_store ht_lookup ht_insert ht_delete string_table zc_hashtable_str_equal
proof
  fix t :: "(string, 'v) zc_hashtable" and k v
  assume t: "string_table t"
  then have wf: "ht_wf t" by (simp add: string_table_def)
  obtain t' where "zc_hashtable_put (\<lambda>_. True) t k v = Some (0, t')" "ht_wf t'" "ht_equal t' = ht_equal t"
    "entries t' = add_mset \<lparr>he_hash_key = ht_hash t k, he_key = k, he_value = v\<rparr> (others t k)"
    using put_spec [OF wf, of "\<lambda>_. True" k v] by auto
  then show "\<exists>t'. ht_insert k v t = Some t' \<and> string_table t' \<and>
      (\<forall>k'. ht_lookup t' k' = (if zc_hashtable_str_equal k' k then Some v else ht_lookup t k'))"
    using t get_put [OF wf] by (simp add: ht_insert_def ht_lookup_def string_table_def)
next
  fix t :: "(string, 'v) zc_hashtable" and k
  assume t: "string_table t"
  then have wf: "ht_wf t" by (simp add: string_table_def)
  obtain t' where "zc_hashtable_remove (Some t) (Some k) = Some (Some t')" "ht_wf t'" "entries t' = others t k"
    "ht_equal t' = ht_equal t"
    using remove_spec [OF wf, of k] by auto
  then show "\<exists>t'. ht_delete k t = Some t' \<and> string_table t' \<and>
      (\<forall>k'. ht_lookup t' k' = (if zc_hashtable_str_equal k' k then None else ht_lookup t k'))"
    using t get_remove [OF wf] by (simp add: ht_delete_def ht_lookup_def string_table_def)
qed

lemma new_table:
  assumes "zc_hashtable_new calloc n zc_hashtable_str_hash zc_hashtable_str_equal kd vd = Some t" "0 < n"
  shows "string_table t" "ht_lookup t k = None" "entries t = {#}"
proof -
  have eq: "zc_hashtable_str_equal = (=)" by (intro ext) (simp add: zc_hashtable_str_equal_def)
  have t: "t = \<lparr>ht_nelem = 0, ht_tab = replicate n [], ht_tab_size = n, ht_hash = zc_hashtable_str_hash,
      ht_equal = (=), ht_key_del = kd, ht_value_del = vd, ht_deleted_keys = [], ht_deleted_values = []\<rparr>"
    using assms by (simp add: zc_hashtable_new_def eq split: if_splits)
  have wf: "ht_wf t" using assms(2)
    by (simp add: t ht_wf_def keys_ok_def identity_equivp tab_ok_def chain_ok_def distinct_chain_def)
  then show "string_table t" by (simp add: string_table_def t eq)
  show "entries t = {#}" by (simp add: entries_def t)
  then show "ht_lookup t k = None" using lookup_none [OF wf, of k] by (simp add: ht_lookup_def)
qed

subsection \<open>Iteration\<close>

definition rest :: "('k, 'v) zc_hashtable \<Rightarrow> nat \<times> nat \<Rightarrow> ('k, 'v) zc_hashtable_entry list" where
  "rest t p = drop (snd p) (ht_tab t ! fst p) @ concat (drop (Suc (fst p)) (ht_tab t))"

definition at_entry :: "('k, 'v) zc_hashtable \<Rightarrow> nat \<times> nat \<Rightarrow> bool" where
  "at_entry t p \<longleftrightarrow> fst p < ht_tab_size t \<and> snd p < length (ht_tab t ! fst p)"

definition rest_from :: "('k, 'v) zc_hashtable \<Rightarrow> (nat \<times> nat) option \<Rightarrow> ('k, 'v) zc_hashtable_entry list" where
  "rest_from t q = (case q of None \<Rightarrow> [] | Some p \<Rightarrow> rest t p)"

lemma first_from_rest:
  assumes "length (ht_tab t) = ht_tab_size t"
  shows "i \<le> ht_tab_size t \<Longrightarrow> rest_from t (first_from t i) = concat (drop i (ht_tab t)) \<and>
    (\<forall>p. first_from t i = Some p \<longrightarrow> at_entry t p)"
proof (induction "ht_tab_size t - i" arbitrary: i)
  case 0
  then show ?case using assms by (simp add: first_from_def rest_from_def)
next
  case (Suc d)
  then have i: "i < ht_tab_size t" "[i ..< ht_tab_size t] = i # [Suc i ..< ht_tab_size t]"
    by (simp_all add: upt_conv_Cons)
  have d: "drop i (ht_tab t) = ht_tab t ! i # drop (Suc i) (ht_tab t)"
    using i assms by (simp add: Cons_nth_drop_Suc)
  have ih: "rest_from t (first_from t (Suc i)) = concat (drop (Suc i) (ht_tab t)) \<and>
    (\<forall>p. first_from t (Suc i) = Some p \<longrightarrow> at_entry t p)" using Suc i by (intro Suc(1)) auto
  show ?case
  proof (cases "ht_tab t ! i = []")
    case True
    then have "first_from t i = first_from t (Suc i)" by (simp add: first_from_def i(2))
    then show ?thesis using ih True d by simp
  next
    case False
    then have "first_from t i = Some (i, 0)" by (simp add: first_from_def i(2))
    then show ?thesis using False i d by (simp add: rest_from_def rest_def at_entry_def)
  qed
qed

lemma next_rest:
  assumes wf: "ht_wf t" and p: "at_entry t p"
  shows "rest t p = ht_tab t ! fst p ! snd p # rest_from t (zc_hashtable_next t p)"
    "zc_hashtable_next t p = Some q \<Longrightarrow> at_entry t q"
proof -
  obtain b n where bn: "p = (b, n)" by (cases p)
  have b: "b < ht_tab_size t" "n < length (ht_tab t ! b)" using p by (auto simp: at_entry_def bn)
  have h: "unat (he_hash_key (ht_tab t ! b ! n)) mod ht_tab_size t = b"
    using ht_wfD(4) [OF wf b(1)] nth_mem [OF b(2)] unfolding chain_ok_def by blast
  note f = first_from_rest [OF ht_wfD(3) [OF wf], of "Suc b"]
  show "rest t p = ht_tab t ! fst p ! snd p # rest_from t (zc_hashtable_next t p)"
  proof (cases "Suc n < length (ht_tab t ! b)")
    case True
    then show ?thesis using b by (simp add: bn zc_hashtable_next_def rest_from_def rest_def Cons_nth_drop_Suc)
  next
    case False
    then have "drop n (ht_tab t ! b) = [ht_tab t ! b ! n]" using b(2) by (simp add: Cons_nth_drop_Suc [symmetric])
    then show ?thesis using False f b by (simp add: bn zc_hashtable_next_def h rest_def)
  qed
  show "zc_hashtable_next t p = Some q \<Longrightarrow> at_entry t q"
    using f b by (cases q) (auto simp: bn zc_hashtable_next_def h at_entry_def split: if_splits)
qed

lemma foreach_rest:
  assumes wf: "ht_wf t"
  shows "(\<forall>q. p = Some q \<longrightarrow> at_entry t q) \<Longrightarrow> length (rest_from t p) \<le> fuel \<Longrightarrow>
    zc_hashtable_foreach fuel t p = Some (rest_from t p)"
proof (induction fuel arbitrary: p)
  case 0
  then show ?case using next_rest(1) [OF wf] by (cases p) (auto simp: rest_from_def)
next
  case (Suc fuel)
  show ?case
  proof (cases p)
    case None
    then show ?thesis by (simp add: rest_from_def)
  next
    case (Some q)
    then have q: "at_entry t q" using Suc.prems(1) by simp
    have "zc_hashtable_foreach fuel t (zc_hashtable_next t q) = Some (rest_from t (zc_hashtable_next t q))"
      using Suc.prems(2) next_rest(1,2) [OF wf q] Some by (intro Suc.IH) (auto simp: rest_from_def)
    then show ?thesis using next_rest(1) [OF wf q] Some by (simp add: rest_from_def)
  qed
qed

lemma foreach_all:
  assumes wf: "ht_wf t"
  shows "zc_hashtable_foreach (ht_nelem t) t (zc_hashtable_begin t) = Some (concat (ht_tab t))"
  using foreach_rest [OF wf, of "zc_hashtable_begin t" "ht_nelem t"] first_from_rest [OF ht_wfD(3) [OF wf], of 0] wf
  by (simp add: zc_hashtable_begin_def ht_wf_def)

subsection \<open>Properties\<close>

text \<open>
  C9: the hash table is a map. Putting any list of pairs into a new table of strings succeeds
  (whatever rehashes happen on the way), and a lookup then gives the value put last under
  that string, or none.
\<close>

theorem hashtable_is_map:
  assumes "zc_hashtable_new (\<lambda>_. True) n zc_hashtable_str_hash zc_hashtable_str_equal kd vd = Some t" and "0 < n"
  shows "\<exists>t'. insert_all ht_insert kvs t = Some t' \<and>
    (\<forall>k. zc_hashtable_get t' k = Some (map_option snd (List.find (\<lambda>kv. fst kv = k) (rev kvs))))"
proof -
  note t = new_table [OF assms]
  obtain t' where t': "insert_all ht_insert kvs t = Some t'" "string_table t'"
    "\<forall>k'. ht_lookup t' k' = (case List.find (\<lambda>kv. zc_hashtable_str_equal k' (fst kv)) (rev kvs) of
       Some kv \<Rightarrow> Some (snd kv) | None \<Rightarrow> ht_lookup t k')"
    using ht.insert_all_ok [OF t(1), of kvs] by blast
  have eq: "(\<lambda>kv. zc_hashtable_str_equal k (fst kv)) = (\<lambda>kv. fst kv = k)" for k
    by (auto simp: zc_hashtable_str_equal_def)
  have "zc_hashtable_get t' k = Some (map_option snd (List.find (\<lambda>kv. fst kv = k) (rev kvs)))" for k
  proof -
    obtain r where r: "zc_hashtable_get t' k = Some r"
      using t'(2) get_entry_iff [of t' k] by (auto simp: string_table_def)
    then have "r = ht_lookup t' k" by (simp add: ht_lookup_def)
    then show ?thesis using r t'(3) t(2) by (simp add: eq split: option.split)
  qed
  then show ?thesis using t'(1) by blast
qed

theorem hashtable_is_map_witness:
  "\<exists>t'. insert_all ht_insert [(''a'', 1 :: nat), (''b'', 2), (''a'', 3)]
      (the (zc_hashtable_new (\<lambda>_. True) 20 zc_hashtable_str_hash zc_hashtable_str_equal False False)) = Some t' \<and>
    zc_hashtable_get t' ''a'' = Some (Some 3)"
proof -
  obtain t :: "(string, nat) zc_hashtable" where
    t: "zc_hashtable_new (\<lambda>_. True) 20 zc_hashtable_str_hash zc_hashtable_str_equal False False = Some t"
    by (simp add: zc_hashtable_new_def)
  show ?thesis using hashtable_is_map [OF t, of "[(''a'', 1), (''b'', 2), (''a'', 3)]"] t by auto
qed

text \<open>
  C10: putting keeps the table's invariant (every entry in the bucket of its hash, no two equal
  keys, a true count), rehash or not. It replaces the entry with an equal key or adds one;
  when memory runs out it reports -1 and the table holds what it held.
\<close>

theorem hashtable_put_invariant:
  assumes "ht_wf t"
  shows "\<exists>rc t'. zc_hashtable_put calloc t k v = Some (rc, t') \<and> ht_wf t' \<and>
    (rc = 0 \<and> entries t' = add_mset \<lparr>he_hash_key = ht_hash t k, he_key = k, he_value = v\<rparr> (others t k) \<or>
     rc = -1 \<and> entries t' = entries t \<and> \<not> (\<forall>n. calloc n))"
  using put_spec [OF assms, of calloc k v] by blast

theorem hashtable_put_invariant_witness:
  "\<exists>rc t'. zc_hashtable_put (\<lambda>n. n < 40)
     (the (zc_hashtable_new (\<lambda>_. True) 20 zc_hashtable_str_hash zc_hashtable_str_equal False False)) ''k'' (5 :: nat) =
     Some (rc, t') \<and> ht_wf t'"
proof -
  obtain t :: "(string, nat) zc_hashtable" where
    t: "zc_hashtable_new (\<lambda>_. True) 20 zc_hashtable_str_hash zc_hashtable_str_equal False False = Some t"
    by (simp add: zc_hashtable_new_def)
  then have "ht_wf t" using new_table(1) [OF t] by (simp add: string_table_def)
  from hashtable_put_invariant [OF this, of "\<lambda>n. n < 40" "''k''" 5] show ?thesis using t by auto
qed

text \<open>
  removing takes out the entry with an equal key and no other, and keeps the invariant;
  an absent key changes nothing.
\<close>

theorem hashtable_remove_exact:
  assumes "ht_wf t"
  shows "\<exists>t'. zc_hashtable_remove (Some t) (Some k) = Some (Some t') \<and> ht_wf t' \<and> entries t' = others t k \<and>
    (\<forall>k'. zc_hashtable_get t' k' = (if ht_equal t k' k then Some None else zc_hashtable_get t k'))"
  using remove_spec [OF assms, of k] get_remove [OF assms] by metis

theorem hashtable_remove_exact_witness:
  "\<exists>t'. zc_hashtable_remove (zc_hashtable_new (\<lambda>_. True) 20 zc_hashtable_str_hash zc_hashtable_str_equal False False)
     (Some ''k'') = Some (Some t') \<and> ht_wf (t' :: (string, nat) zc_hashtable)"
proof -
  obtain t :: "(string, nat) zc_hashtable" where
    t: "zc_hashtable_new (\<lambda>_. True) 20 zc_hashtable_str_hash zc_hashtable_str_equal False False = Some t"
    by (simp add: zc_hashtable_new_def)
  then have "ht_wf t" using new_table(1) [OF t] by (simp add: string_table_def)
  from hashtable_remove_exact [OF this, of "''k''"] show ?thesis using t by auto
qed

text \<open>
  C11: the loop over a table ends after as many steps as there are entries and sees every
  entry exactly once.
\<close>

theorem hashtable_foreach_complete:
  assumes "ht_wf t"
  shows "\<exists>ps. zc_hashtable_foreach (ht_nelem t) t (zc_hashtable_begin t) = Some ps \<and> mset ps = entries t \<and>
    length ps = ht_nelem t"
  using foreach_all [OF assms] assms by (simp add: entries_def ht_wf_def)

theorem hashtable_foreach_complete_witness:
  "\<exists>t ps. zc_hashtable_put (\<lambda>_. True)
      (the (zc_hashtable_new (\<lambda>_. True) 20 zc_hashtable_str_hash zc_hashtable_str_equal False False))
      ''k'' (5 :: nat) = Some (0, t) \<and>
    zc_hashtable_foreach 1 t (zc_hashtable_begin t) = Some ps \<and> map he_value ps = [5]"
proof -
  obtain t0 :: "(string, nat) zc_hashtable" where
    t0: "zc_hashtable_new (\<lambda>_. True) 20 zc_hashtable_str_hash zc_hashtable_str_equal False False = Some t0"
    by (simp add: zc_hashtable_new_def)
  then have "ht_wf t0" "entries t0 = {#}" using new_table(1,3) [OF t0] by (simp_all add: string_table_def)
  then obtain t where t: "zc_hashtable_put (\<lambda>_. True) t0 ''k'' 5 = Some (0, t)" "ht_wf t"
    "entries t = {#\<lparr>he_hash_key = ht_hash t0 ''k'', he_key = ''k'', he_value = 5\<rparr>#}"
    using put_spec [of t0 "\<lambda>_. True" "''k''" 5] by (auto simp: others_def)
  then have n: "ht_nelem t = 1" using ht_wfD(5) [OF t(2)] by simp
  from hashtable_foreach_complete [OF t(2)] obtain ps where
    ps: "zc_hashtable_foreach 1 t (zc_hashtable_begin t) = Some ps" "mset ps = entries t" unfolding n by auto
  then have "map he_value ps = [5]" using t(3) by (simp add: mset_single_iff)
  then show ?thesis using t0 t(1) ps(1) by auto
qed

end
