(* ===== verification/Zlog_Buf.thy ===== *)
theory Zlog_Buf
  imports Prelude "HOL-Library.Monad_Syntax"
begin

section \<open>The message buffer of the logging library\<close>

text \<open>
  \<open>zlog_buf_t\<close> of \<open>src/deps/zlog/src/buf.c\<close>: a block that grows up to a configured limit, a
  tail where text is appended, and the text that marks a truncated message. The pointers
  \<open>tail\<close>, \<open>end\<close> and \<open>end_plus_1\<close> are offsets from \<open>start\<close>; after a failed \<open>realloc\<close> the
  block is \<^const>\<open>None\<close> and the offsets are 0. Sizes are integers: they are sizes of
  objects, so the sums the code forms do not wrap. An operation returns \<^const>\<open>None\<close> when it
  leaves the block, the digits' scratch array or its source, and otherwise the code's return
  value (0 done, 1 truncated, -1 failed) and the buffer. \<open>alloc n\<close> says whether the
  allocator can serve \<open>n\<close> bytes, \<open>junk\<close> what a block grown by \<open>realloc\<close> holds.
\<close>

definition MAXLEN_PATH :: int where "MAXLEN_PATH = 1024"
definition ZLOG_INT32_LEN :: nat where "ZLOG_INT32_LEN = length ''-2147483648''"
definition ZLOG_INT64_LEN :: nat where "ZLOG_INT64_LEN = length ''-9223372036854775808''"
definition ZLOG_MAX_UINT32_VALUE :: int where "ZLOG_MAX_UINT32_VALUE = 0xffffffff"

record zlog_buf =
  b_start :: "string option"
  b_tail :: int
  b_end :: int
  b_end_plus_1 :: int
  b_size_min :: int
  b_size_max :: int
  b_size_real :: int
  b_truncate_str :: string

definition zlog_buf_new :: "(int \<Rightarrow> bool) \<Rightarrow> int \<Rightarrow> int \<Rightarrow> string option \<Rightarrow> zlog_buf option" where
  "zlog_buf_new alloc buf_size_min buf_size_max truncate_str =
     (if buf_size_min = 0 then None
      else if buf_size_max \<noteq> 0 \<and> buf_size_max < buf_size_min then None
      else if \<not> alloc 1 then None
      else
        let ts = (case truncate_str of None \<Rightarrow> [] | Some s \<Rightarrow> s) in
        if int (length ts) > MAXLEN_PATH then None
        else if \<not> alloc buf_size_min then None
        else Some \<lparr>b_start = Some (replicate (nat buf_size_min) (CHR 0x00)), b_tail = 0, b_end = buf_size_min - 1,
          b_end_plus_1 = buf_size_min, b_size_min = buf_size_min, b_size_max = buf_size_max,
          b_size_real = buf_size_min, b_truncate_str = ts\<rparr>)"

definition zlog_buf_restart :: "zlog_buf \<Rightarrow> zlog_buf" where
  "zlog_buf_restart b = b\<lparr>b_tail := 0\<rparr>"

definition zlog_buf_len :: "zlog_buf \<Rightarrow> int" where
  "zlog_buf_len b = b_tail b"

text \<open>A store at an offset, \<open>if (n) memset\<close>, and the first \<open>n\<close> bytes of a source.\<close>

definition b_write :: "int \<Rightarrow> string \<Rightarrow> zlog_buf \<Rightarrow> zlog_buf option" where
  "b_write i xs b = do { d \<leftarrow> b_start b; d \<leftarrow> block_write d i xs; Some (b\<lparr>b_start := Some d\<rparr>) }"

definition b_fill :: "int \<Rightarrow> char \<Rightarrow> int \<Rightarrow> zlog_buf \<Rightarrow> zlog_buf option" where
  "b_fill i c n b = (if n \<noteq> 0 then b_write i (replicate (nat n) c) b else Some b)"

definition mem_read :: "string \<Rightarrow> int \<Rightarrow> string option" where
  "mem_read xs n = (if 0 \<le> n \<and> n \<le> int (length xs) then Some (take (nat n) xs) else None)"

definition zlog_buf_seal :: "zlog_buf \<Rightarrow> zlog_buf option" where
  "zlog_buf_seal b = b_write (b_tail b) [CHR 0x00] b"

definition zlog_buf_truncate :: "zlog_buf \<Rightarrow> zlog_buf option" where
  "zlog_buf_truncate b =
     (if b_truncate_str b = [] then Some b
      else
        let p = b_tail b - int (length (b_truncate_str b));
            p = (if p < 0 then 0 else p);
            len = b_tail b - p in
        do { s \<leftarrow> mem_read (b_truncate_str b) len; b_write p s b })"

definition zlog_buf_resize :: "(int \<Rightarrow> bool) \<Rightarrow> (nat \<Rightarrow> char) \<Rightarrow> int \<Rightarrow> zlog_buf \<Rightarrow> int \<times> zlog_buf" where
  "zlog_buf_resize alloc junk increment b =
     (if b_size_max b \<noteq> 0 \<and> b_size_real b \<ge> b_size_max b then (1, b)
      else
        let (rc, new_size) =
          (if b_size_max b = 0 then (0, b_size_real b + 3 * increment div 2)
           else if b_size_real b + increment \<le> b_size_max b then (0, b_size_real b + increment)
           else (1, b_size_max b));
            len = b_tail b in
        if \<not> alloc new_size then
          (-1, b\<lparr>b_start := None, b_tail := 0, b_end := 0, b_end_plus_1 := 0\<rparr>)
        else
          (rc, b\<lparr>b_start := Some (block_realloc junk (case b_start b of None \<Rightarrow> [] | Some d \<Rightarrow> d) (nat new_size)),
                 b_tail := len, b_size_real := new_size, b_end_plus_1 := new_size, b_end := new_size - 1\<rparr>))"

text \<open>
  \<open>vsnprintf\<close> on \<open>size_left\<close> bytes at the tail: \<open>text\<close> is what the format and its arguments
  give, \<^const>\<open>None\<close> for an encoding error. A result above \<open>INT_MAX\<close> is an error as well.
\<close>

definition vsnprintf_at_tail :: "string option \<Rightarrow> int \<Rightarrow> zlog_buf \<Rightarrow> (int \<times> zlog_buf) option" where
  "vsnprintf_at_tail text size_left b = (case text of None \<Rightarrow> Some (-1, b)
     | Some s \<Rightarrow>
         if int (length s) > 2147483647 then Some (-1, b)
         else if size_left \<le> 0 then Some (int (length s), b)
         else do { b \<leftarrow> b_write (b_tail b) (take (nat (size_left - 1)) s @ [CHR 0x00]) b; Some (int (length s), b) })"

definition zlog_buf_vprintf ::
  "(int \<Rightarrow> bool) \<Rightarrow> (nat \<Rightarrow> char) \<Rightarrow> string option \<Rightarrow> zlog_buf \<Rightarrow> (int \<times> zlog_buf) option" where
  "zlog_buf_vprintf alloc junk text b =
     (if b_start b = None then Some (-1, b)
      else do {
        let size_left = b_end_plus_1 b - b_tail b;
        (nwrite, b) \<leftarrow> vsnprintf_at_tail text size_left b;
        if 0 \<le> nwrite \<and> nwrite < size_left then Some (0, b\<lparr>b_tail := b_tail b + nwrite\<rparr>)
        else if nwrite < 0 then Some (-1, b)
        else do {
          let (rc, b) = zlog_buf_resize alloc junk (nwrite - size_left + 1) b;
          if rc > 0 then do {
            let size_left = b_end_plus_1 b - b_tail b;
            (_, b) \<leftarrow> vsnprintf_at_tail text size_left b;
            b \<leftarrow> zlog_buf_truncate (b\<lparr>b_tail := b_tail b + (size_left - 1)\<rparr>);
            Some (1, b)
          } else if rc < 0 then Some (-1, b)
          else do {
            let size_left = b_end_plus_1 b - b_tail b;
            (nwrite, b) \<leftarrow> vsnprintf_at_tail text size_left b;
            if nwrite < 0 then Some (-1, b)
            else Some (0, b\<lparr>b_tail := b_tail b + nwrite\<rparr>)
          }
        }
      })"

text \<open>The digit loops: written backwards into an array with room for so many characters.\<close>

definition hex :: string where "hex = ''0123456789abcdef''"

fun print_digits :: "nat \<Rightarrow> nat \<Rightarrow> nat \<Rightarrow> string \<Rightarrow> string option" where
  "print_digits base 0 n acc = None"
| "print_digits base (Suc room) n acc =
     (let acc = hex ! (n mod base) # acc in
      if n div base = 0 then Some acc else print_digits base room (n div base) acc)"

text \<open>
  What the three number printers do with their digits: pad with zeros to the width, grow the
  buffer when the number does not fit, and cut it off where the limit does not allow that.
  The width is an \<open>int\<close> compared as a \<open>size_t\<close>.
\<close>

definition zlog_buf_put_num ::
  "(int \<Rightarrow> bool) \<Rightarrow> (nat \<Rightarrow> char) \<Rightarrow> string \<Rightarrow> int \<Rightarrow> zlog_buf \<Rightarrow> (int \<times> zlog_buf) option" where
  "zlog_buf_put_num alloc junk p width b =
     (let num_len = int (length p);
          width = width mod 2 ^ 64;
          (zero_len, out_len) = (if width > num_len then (width - num_len, width) else (0, num_len)) in
      if b_tail b + out_len > b_end b then
        let (rc, b) = zlog_buf_resize alloc junk (out_len - (b_end b - b_tail b)) b in
        if rc > 0 then do {
          let len_left = b_end b - b_tail b;
          let (zero_len, num_len) = (if len_left \<le> zero_len then (len_left, 0) else (zero_len, len_left - zero_len));
          b \<leftarrow> b_fill (b_tail b) (CHR ''0'') zero_len b;
          s \<leftarrow> mem_read p num_len;
          b \<leftarrow> b_write (b_tail b + zero_len) s b;
          b \<leftarrow> zlog_buf_truncate (b\<lparr>b_tail := b_tail b + len_left\<rparr>);
          Some (1, b)
        } else if rc < 0 then Some (-1, b)
        else do {
          b \<leftarrow> b_fill (b_tail b) (CHR ''0'') zero_len b;
          b \<leftarrow> b_write (b_tail b + zero_len) p b;
          Some (0, b\<lparr>b_tail := b_tail b + out_len\<rparr>)
        }
      else do {
        b \<leftarrow> b_fill (b_tail b) (CHR ''0'') zero_len b;
        b \<leftarrow> b_write (b_tail b + zero_len) p b;
        Some (0, b\<lparr>b_tail := b_tail b + out_len\<rparr>)
      })"

definition zlog_buf_printf_dec32 ::
  "(int \<Rightarrow> bool) \<Rightarrow> (nat \<Rightarrow> char) \<Rightarrow> 32 word \<Rightarrow> int \<Rightarrow> zlog_buf \<Rightarrow> (int \<times> zlog_buf) option" where
  "zlog_buf_printf_dec32 alloc junk ui32 width b =
     (if b_start b = None then Some (-1, b)
      else do {
        p \<leftarrow> print_digits 10 ZLOG_INT32_LEN (unat ui32) [];
        zlog_buf_put_num alloc junk p width b
      })"

definition zlog_buf_printf_dec64 ::
  "(int \<Rightarrow> bool) \<Rightarrow> (nat \<Rightarrow> char) \<Rightarrow> 64 word \<Rightarrow> int \<Rightarrow> zlog_buf \<Rightarrow> (int \<times> zlog_buf) option" where
  "zlog_buf_printf_dec64 alloc junk ui64 width b =
     (if b_start b = None then Some (-1, b)
      else do {
        p \<leftarrow> (if uint ui64 \<le> ZLOG_MAX_UINT32_VALUE
             then let ui32 = (ucast ui64 :: 32 word) in print_digits 10 ZLOG_INT64_LEN (unat ui32) []
             else print_digits 10 ZLOG_INT64_LEN (unat ui64) []);
        zlog_buf_put_num alloc junk p width b
      })"

definition zlog_buf_printf_hex ::
  "(int \<Rightarrow> bool) \<Rightarrow> (nat \<Rightarrow> char) \<Rightarrow> 32 word \<Rightarrow> int \<Rightarrow> zlog_buf \<Rightarrow> (int \<times> zlog_buf) option" where
  "zlog_buf_printf_hex alloc junk ui32 width b =
     (if b_start b = None then Some (-1, b)
      else do {
        p \<leftarrow> print_digits 16 ZLOG_INT32_LEN (unat ui32) [];
        zlog_buf_put_num alloc junk p width b
      })"

definition zlog_buf_append ::
  "(int \<Rightarrow> bool) \<Rightarrow> (nat \<Rightarrow> char) \<Rightarrow> string \<Rightarrow> int \<Rightarrow> zlog_buf \<Rightarrow> (int \<times> zlog_buf) option" where
  "zlog_buf_append alloc junk str str_len b =
     (if b_tail b + str_len > b_end b then
        let (rc, b) = zlog_buf_resize alloc junk (str_len - (b_end b - b_tail b)) b in
        if rc > 0 then do {
          let len_left = b_end b - b_tail b;
          s \<leftarrow> mem_read str len_left;
          b \<leftarrow> b_write (b_tail b) s b;
          b \<leftarrow> zlog_buf_truncate (b\<lparr>b_tail := b_tail b + len_left\<rparr>);
          Some (1, b)
        } else if rc < 0 then Some (-1, b)
        else do {
          s \<leftarrow> mem_read str str_len;
          b \<leftarrow> b_write (b_tail b) s b;
          Some (0, b\<lparr>b_tail := b_tail b + str_len\<rparr>)
        }
      else do {
        s \<leftarrow> mem_read str str_len;
        b \<leftarrow> b_write (b_tail b) s b;
        Some (0, b\<lparr>b_tail := b_tail b + str_len\<rparr>)
      })"

definition zlog_buf_put_adjusted ::
  "string \<Rightarrow> bool \<Rightarrow> bool \<Rightarrow> int \<Rightarrow> int \<Rightarrow> int \<Rightarrow> zlog_buf \<Rightarrow> zlog_buf option" where
  "zlog_buf_put_adjusted str left_adjust zero_pad source_len space_len append_len b = do {
     s \<leftarrow> mem_read str source_len;
     b \<leftarrow> (if left_adjust then do {
            b \<leftarrow> b_fill (b_tail b + source_len) (CHR '' '') space_len b;
            b_write (b_tail b) s b
          } else do {
            b \<leftarrow> b_fill (b_tail b) (if zero_pad then CHR ''0'' else CHR '' '') space_len b;
            b_write (b_tail b + space_len) s b
          });
     Some (b\<lparr>b_tail := b_tail b + append_len\<rparr>)
   }"

definition zlog_buf_adjust_append ::
  "(int \<Rightarrow> bool) \<Rightarrow> (nat \<Rightarrow> char) \<Rightarrow> string \<Rightarrow> int \<Rightarrow> bool \<Rightarrow> bool \<Rightarrow> int \<Rightarrow> int \<Rightarrow> zlog_buf \<Rightarrow> (int \<times> zlog_buf) option" where
  "zlog_buf_adjust_append alloc junk str str_len left_adjust zero_pad in_width out_width b =
     (if b_start b = None then Some (-1, b)
      else
        let source_len = (if out_width = 0 \<or> str_len < out_width then str_len else out_width);
            (append_len, space_len) =
              (if in_width = 0 \<or> source_len \<ge> in_width then (source_len, 0) else (in_width, in_width - source_len)) in
        if append_len > b_end b - b_tail b then
          let (rc, b) = zlog_buf_resize alloc junk (append_len - (b_end b - b_tail b)) b in
          if rc > 0 then do {
            let append_len = b_end b - b_tail b;
            let (source_len, space_len) =
              (if left_adjust then
                 (if source_len < append_len then (source_len, append_len - source_len) else (append_len, 0))
               else
                 (if space_len < append_len then (append_len - space_len, space_len) else (0, append_len)));
            b \<leftarrow> zlog_buf_put_adjusted str left_adjust zero_pad source_len space_len append_len b;
            b \<leftarrow> zlog_buf_truncate b;
            Some (1, b)
          } else if rc < 0 then Some (-1, b)
          else map_option (Pair 0) (zlog_buf_put_adjusted str left_adjust zero_pad source_len space_len append_len b)
        else map_option (Pair 0) (zlog_buf_put_adjusted str left_adjust zero_pad source_len space_len append_len b))"

subsection \<open>Invariant and contents\<close>

definition buf_wf :: "zlog_buf \<Rightarrow> bool" where
  "buf_wf b \<longleftrightarrow> (\<exists>d. b_start b = Some d \<and> int (length d) = b_size_real b) \<and>
     0 \<le> b_tail b \<and> b_tail b \<le> b_end b \<and> b_end b = b_size_real b - 1 \<and> b_end_plus_1 b = b_size_real b \<and>
     (b_size_max b \<noteq> 0 \<longrightarrow> b_size_real b \<le> b_size_max b)"

definition content :: "zlog_buf \<Rightarrow> string" where
  "content b = take (nat (b_tail b)) (the (b_start b))"

text \<open>The abstract buffer: a text with a limit, and a mark that overwrites the end of a text cut off.\<close>

definition overlay :: "string \<Rightarrow> string \<Rightarrow> string" where
  "overlay mark cs = (let k = min (length mark) (length cs) in take (length cs - k) cs @ take k mark)"

definition appended :: "zlog_buf \<Rightarrow> string \<Rightarrow> int \<times> string" where
  "appended b s =
     (let cs = content b @ s in
      if b_size_max b = 0 \<or> int (length cs) < b_size_max b then (0, cs)
      else (1, overlay (b_truncate_str b) (take (nat (b_size_max b - 1)) cs)))"

definition appends :: "zlog_buf \<Rightarrow> string \<Rightarrow> (int \<times> zlog_buf) option \<Rightarrow> bool" where
  "appends b s r \<longleftrightarrow> (\<exists>rc b'. r = Some (rc, b') \<and> buf_wf b' \<and> (rc, content b') = appended b s \<and>
     b_size_max b' = b_size_max b \<and> b_truncate_str b' = b_truncate_str b)"

lemma buf_wfE:
  assumes "buf_wf b"
  obtains d where "b_start b = Some d" "int (length d) = b_size_real b" "0 \<le> b_tail b" "b_tail b < b_size_real b"
    "b_end b = b_size_real b - 1" "b_end_plus_1 b = b_size_real b" "b_size_max b \<noteq> 0 \<Longrightarrow> b_size_real b \<le> b_size_max b"
  using assms by (auto simp: buf_wf_def)

lemma length_content: "buf_wf b \<Longrightarrow> int (length (content b)) = b_tail b"
  by (erule buf_wfE) (simp add: content_def)

text \<open>Writing at the tail and moving it.\<close>

lemma put_wf:
  assumes wf: "buf_wf b" and fit: "b_tail b + int (length s) \<le> b_end b"
  shows "\<exists>b1. b_write (b_tail b) s b = Some b1 \<and> b1 = b\<lparr>b_start := b_start b1\<rparr> \<and>
    buf_wf (b1\<lparr>b_tail := b_tail b + int (length s)\<rparr>) \<and>
    content (b1\<lparr>b_tail := b_tail b + int (length s)\<rparr>) = content b @ s"
proof -
  obtain d where d: "b_start b = Some d" "int (length d) = b_size_real b" "0 \<le> b_tail b"
    "b_end b = b_size_real b - 1" using wf by (auto elim: buf_wfE)
  let ?d = "take (nat (b_tail b)) d @ s @ drop (nat (b_tail b) + length s) d"
  have t: "nat (b_tail b) + length s < length d" using fit d by linarith
  have w: "block_write d (b_tail b) s = Some ?d" using d(3) t by (simp add: block_write_def)
  have "length ?d = length d" using t by simp
  then show ?thesis using wf d w t
    by (auto simp: b_write_def buf_wf_def content_def nat_add_distrib)
qed

text \<open>Two writes side by side, in either order, are one.\<close>

lemma block_write_two:
  assumes "0 \<le> i" "i + int (length xs + length ys) \<le> int (length d)"
  shows "\<exists>d1. block_write d i xs = Some d1 \<and> block_write d1 (i + int (length xs)) ys = block_write d i (xs @ ys)"
    and "\<exists>d1. block_write d (i + int (length xs)) ys = Some d1 \<and> block_write d1 i xs = block_write d i (xs @ ys)"
proof -
  obtain k where i: "i = int k" using assms(1) nonneg_int_cases by blast
  have k: "k + (length xs + length ys) \<le> length d" using assms(2) i by linarith
  define u v w where "u = take k d" and "v = take (length xs) (drop k d)" and "w = drop (k + length xs) d"
  have d: "d = u @ v @ w" unfolding u_def v_def w_def by (metis append_take_drop_id drop_drop add.commute)
  have l: "length u = k" "length v = length xs" "length ys \<le> length w" using k by (simp_all add: u_def v_def w_def)
  have 1: "block_write d i xs = Some (u @ xs @ w)" using l by (simp add: d i block_write_def)
  have 2: "block_write d i (xs @ ys) = Some (u @ xs @ ys @ drop (length ys) w)" using l by (simp add: d i block_write_def)
  have 3: "block_write (u @ xs @ w) (i + int (length xs)) ys = Some (u @ xs @ ys @ drop (length ys) w)"
    using block_write_append [of "u @ xs" w ys] l by (simp add: i)
  show "\<exists>d1. block_write d i xs = Some d1 \<and> block_write d1 (i + int (length xs)) ys = block_write d i (xs @ ys)"
    using 1 2 3 by simp
  have 4: "block_write d (i + int (length xs)) ys = Some (u @ v @ ys @ drop (length ys) w)"
    using block_write_append [of "u @ v" w ys] l by (simp add: d i)
  have 5: "block_write (u @ v @ ys @ drop (length ys) w) i xs = Some (u @ xs @ ys @ drop (length ys) w)"
    using l by (simp add: i block_write_def)
  show "\<exists>d1. block_write d (i + int (length xs)) ys = Some d1 \<and> block_write d1 i xs = block_write d i (xs @ ys)"
    using 2 4 5 by simp
qed

lemma b_write_two:
  assumes "buf_wf b" "b_tail b + int (length xs + length ys) \<le> b_end b"
  shows "\<exists>b1. b_write (b_tail b) xs b = Some b1 \<and> b_tail b1 = b_tail b \<and>
      b_write (b_tail b + int (length xs)) ys b1 = b_write (b_tail b) (xs @ ys) b"
    and "\<exists>b1. b_write (b_tail b + int (length xs)) ys b = Some b1 \<and> b_tail b1 = b_tail b \<and>
      b_write (b_tail b) xs b1 = b_write (b_tail b) (xs @ ys) b"
proof -
  obtain d where d: "b_start b = Some d" "0 \<le> b_tail b" "b_tail b + int (length xs + length ys) \<le> int (length d)"
    using assms by (auto elim: buf_wfE)
  show "\<exists>b1. b_write (b_tail b) xs b = Some b1 \<and> b_tail b1 = b_tail b \<and>
      b_write (b_tail b + int (length xs)) ys b1 = b_write (b_tail b) (xs @ ys) b"
    using block_write_two(1) [OF d(2,3)] d(1) by (auto simp: b_write_def)
  show "\<exists>b1. b_write (b_tail b + int (length xs)) ys b = Some b1 \<and> b_tail b1 = b_tail b \<and>
      b_write (b_tail b) xs b1 = b_write (b_tail b) (xs @ ys) b"
    using block_write_two(2) [OF d(2,3)] d(1) by (auto simp: b_write_def)
qed

lemma truncate_wf:
  assumes wf: "buf_wf b"
  shows "\<exists>b1. zlog_buf_truncate b = Some b1 \<and> buf_wf b1 \<and> content b1 = overlay (b_truncate_str b) (content b) \<and>
    b_size_max b1 = b_size_max b \<and> b_truncate_str b1 = b_truncate_str b"
proof (cases "b_truncate_str b = []")
  case True
  then show ?thesis using wf by (simp add: zlog_buf_truncate_def overlay_def)
next
  case False
  let ?m = "b_truncate_str b"
  obtain d where d: "b_start b = Some d" "int (length d) = b_size_real b" "0 \<le> b_tail b" "b_tail b < b_size_real b"
    using wf by (auto elim: buf_wfE)
  obtain t where t: "b_tail b = int t" using d(3) nonneg_int_cases by blast
  have tl: "t < length d" using d t by linarith
  define k where "k = min (length ?m) t"
  have p: "(if b_tail b - int (length ?m) < 0 then 0 else b_tail b - int (length ?m)) = int (t - k)"
    by (auto simp: t k_def)
  have len: "b_tail b - int (t - k) = int k" by (simp add: t k_def)
  let ?d = "take (t - k) d @ take k ?m @ drop t d"
  have w: "block_write d (int (t - k)) (take k ?m) = Some ?d"
  proof -
    have "k \<le> t" "length (take k ?m) = k" by (simp_all add: k_def)
    then show ?thesis using tl unfolding block_write_def by (simp add: nat_diff_distrib)
  qed
  have r: "mem_read ?m (int k) = Some (take k ?m)" by (simp add: mem_read_def k_def)
  have run: "zlog_buf_truncate b = Some (b\<lparr>b_start := Some ?d\<rparr>)"
    unfolding zlog_buf_truncate_def Let_def p len using False r w d(1) by (simp add: b_write_def)
  have "length ?d = length d" using tl by (simp add: k_def)
  moreover have "take t ?d = overlay ?m (take t d)"
  proof -
    have k: "k \<le> t" "length (take k ?m) = k" "length (take (t - k) d) = t - k" and lt: "length (take t d) = t"
      using tl by (simp_all add: k_def)
    have "overlay ?m (take t d) = take (t - k) (take t d) @ take k ?m"
      unfolding overlay_def Let_def lt k_def by (rule refl)
    also have "\<dots> = take (t - k) d @ take k ?m" by (simp add: min_absorb1)
    also have "\<dots> = take t ((take (t - k) d @ take k ?m) @ drop t d)"
      using k by (subst take_append) simp
    finally show ?thesis by simp
  qed
  ultimately show ?thesis using run wf d by (auto simp: buf_wf_def content_def t)
qed

lemma resize_spec:
  assumes wf: "buf_wf b" and inc: "0 < inc" and ok: "\<forall>n. alloc n"
  shows "\<exists>rc b1. zlog_buf_resize alloc junk inc b = (rc, b1) \<and> buf_wf b1 \<and> content b1 = content b \<and> b_tail b1 = b_tail b \<and>
    b_size_max b1 = b_size_max b \<and> b_truncate_str b1 = b_truncate_str b \<and>
    (if b_size_max b = 0 \<or> b_size_real b + inc \<le> b_size_max b then rc = 0 \<and> b_end b + inc \<le> b_end b1
     else rc = 1 \<and> b_end b1 = b_size_max b - 1)"
proof -
  obtain d where d: "b_start b = Some d" "int (length d) = b_size_real b" "0 \<le> b_tail b" "b_tail b < b_size_real b"
    "b_end b = b_size_real b - 1" "b_size_max b \<noteq> 0 \<longrightarrow> b_size_real b \<le> b_size_max b"
    using wf by (auto simp: buf_wf_def)
  define n where "n = (if b_size_max b = 0 then b_size_real b + 3 * inc div 2
    else if b_size_real b + inc \<le> b_size_max b then b_size_real b + inc else b_size_max b)"
  let ?b = "b\<lparr>b_start := Some (block_realloc junk d (nat n)), b_tail := b_tail b, b_size_real := n, b_end_plus_1 := n, b_end := n - 1\<rparr>"
  have n: "b_size_real b \<le> n" "b_size_max b = 0 \<or> b_size_real b + inc \<le> b_size_max b \<Longrightarrow> b_size_real b + inc \<le> n"
    "b_size_max b \<noteq> 0 \<Longrightarrow> n \<le> b_size_max b"
    using inc d(6) by (auto simp: n_def)
  have c: "buf_wf ?b" "content ?b = content b"
    using n wf d by (auto simp: buf_wf_def content_def take_block_realloc)
  show ?thesis
  proof (cases "b_size_max b \<noteq> 0 \<and> b_size_real b \<ge> b_size_max b")
    case True
    then show ?thesis using wf d inc by (auto simp: zlog_buf_resize_def)
  next
    case False
    then have "zlog_buf_resize alloc junk inc b =
        ((if b_size_max b = 0 \<or> b_size_real b + inc \<le> b_size_max b then 0 else 1), ?b)"
      using ok d(1) by (auto simp: zlog_buf_resize_def n_def)
    then show ?thesis using c n d by (auto simp: n_def)
  qed
qed

text \<open>The three ways an operation that adds a text ends: it fits, it fits after growing, it is cut off.\<close>

lemma end_fits:
  assumes wf: "buf_wf b" and b1: "buf_wf b1" "content b1 = content b" "b_tail b1 = b_tail b"
      "b_size_max b1 = b_size_max b" "b_truncate_str b1 = b_truncate_str b"
    and fit: "b_tail b1 + int (length s) \<le> b_end b1"
  shows "\<exists>b2. b_write (b_tail b1) s b1 = Some b2 \<and>
    appends b s (Some (0, b2\<lparr>b_tail := b_tail b2 + int (length s)\<rparr>))"
proof -
  obtain b2 where b2: "b_write (b_tail b1) s b1 = Some b2" "b2 = b1\<lparr>b_start := b_start b2\<rparr>"
    "buf_wf (b2\<lparr>b_tail := b_tail b1 + int (length s)\<rparr>)"
    "content (b2\<lparr>b_tail := b_tail b1 + int (length s)\<rparr>) = content b1 @ s"
    using put_wf [OF b1(1) fit] by blast
  have "b_size_max b = 0 \<or> int (length (content b @ s)) < b_size_max b"
    using b1 fit length_content [OF wf] by (auto elim!: buf_wfE)
  then have "appended b s = (0, content b @ s)" unfolding appended_def Let_def by (rule if_P)
  moreover have "b_tail b2 = b_tail b1" "b_size_max b2 = b_size_max b1" "b_truncate_str b2 = b_truncate_str b1"
    by (subst b2(2), simp)+
  ultimately show ?thesis using b1 b2 by (simp add: appends_def)
qed

lemma end_cut:
  assumes wf: "buf_wf b" and b1: "buf_wf b1" "content b1 = content b" "b_tail b1 = b_tail b"
      "b_size_max b1 = b_size_max b" "b_truncate_str b1 = b_truncate_str b"
    and cut: "b_size_max b \<noteq> 0" "b_end b1 = b_size_max b - 1" "b_end b1 < b_tail b1 + int (length s)"
    and s': "s' = take (nat (b_end b1 - b_tail b1)) s"
  shows "int (length s') = b_end b1 - b_tail b1 \<and> (\<exists>b2 b3. b_write (b_tail b1) s' b1 = Some b2 \<and> b_tail b2 = b_tail b1 \<and>
    zlog_buf_truncate (b2\<lparr>b_tail := b_tail b1 + (b_end b1 - b_tail b1)\<rparr>) = Some b3 \<and> appends b s (Some (1, b3)))"
proof -
  have le: "b_tail b1 \<le> b_end b1" using b1(1) by (auto elim: buf_wfE)
  have l: "int (length s') = b_end b1 - b_tail b1" using le cut(3) by (simp add: s')
  obtain b2 where b2: "b_write (b_tail b1) s' b1 = Some b2" "b2 = b1\<lparr>b_start := b_start b2\<rparr>"
    "buf_wf (b2\<lparr>b_tail := b_tail b1 + int (length s')\<rparr>)"
    "content (b2\<lparr>b_tail := b_tail b1 + int (length s')\<rparr>) = content b1 @ s'"
    using put_wf [OF b1(1), of s'] l by auto
  have same: "b_tail b2 = b_tail b1" "b_size_max b2 = b_size_max b1" "b_truncate_str b2 = b_truncate_str b1"
    by (subst b2(2), simp)+
  let ?b = "b2\<lparr>b_tail := b_tail b1 + (b_end b1 - b_tail b1)\<rparr>"
  obtain b3 where b3: "zlog_buf_truncate ?b = Some b3" "buf_wf b3" "content b3 = overlay (b_truncate_str b2) (content ?b)"
    "b_size_max b3 = b_size_max b2" "b_truncate_str b3 = b_truncate_str b2"
    using truncate_wf [OF b2(3)] unfolding l by auto
  have c: "nat (b_size_max b - 1) = length (content b) + nat (b_end b1 - b_tail b1)"
    using length_content [OF wf] b1(3) cut(2) le by linarith
  have "content ?b = take (nat (b_size_max b - 1)) (content b @ s)"
    using b2(4) b1(2) l by (simp add: c s')
  moreover have "\<not> int (length (content b @ s)) < b_size_max b"
    using length_content [OF wf] b1(3) cut by simp
  ultimately have "appended b s = (1, content b3)" using cut(1) b3(3) same b1 by (simp add: appended_def)
  then show ?thesis using l b2(1) b3 same b1 by (auto simp: appends_def)
qed

lemma room_cases:
  assumes wf: "buf_wf b" and ok: "\<forall>n. alloc n" and no: "b_end b < b_tail b + n"
  obtains b1 where "zlog_buf_resize alloc junk (n - (b_end b - b_tail b)) b = (0, b1)" "buf_wf b1" "content b1 = content b"
      "b_tail b1 = b_tail b" "b_size_max b1 = b_size_max b" "b_truncate_str b1 = b_truncate_str b" "b_tail b1 + n \<le> b_end b1"
  | b1 where "zlog_buf_resize alloc junk (n - (b_end b - b_tail b)) b = (1, b1)" "buf_wf b1" "content b1 = content b"
      "b_tail b1 = b_tail b" "b_size_max b1 = b_size_max b" "b_truncate_str b1 = b_truncate_str b"
      "b_size_max b \<noteq> 0" "b_end b1 = b_size_max b - 1" "b_end b1 < b_tail b1 + n"
proof -
  let ?inc = "n - (b_end b - b_tail b)"
  obtain rc b1 where r: "zlog_buf_resize alloc junk ?inc b = (rc, b1)" "buf_wf b1" "content b1 = content b"
      "b_tail b1 = b_tail b" "b_size_max b1 = b_size_max b" "b_truncate_str b1 = b_truncate_str b"
    "if b_size_max b = 0 \<or> b_size_real b + ?inc \<le> b_size_max b then rc = 0 \<and> b_end b + ?inc \<le> b_end b1
     else rc = 1 \<and> b_end b1 = b_size_max b - 1"
    using resize_spec [OF wf _ ok, of ?inc junk] no by force
  have e: "b_end b = b_size_real b - 1" using wf by (auto elim: buf_wfE)
  show ?thesis
  proof (cases "b_size_max b = 0 \<or> b_size_real b + ?inc \<le> b_size_max b")
    case True
    then show ?thesis using that(1) [of b1] r by auto
  next
    case False
    then show ?thesis using that(2) [of b1] r e by auto
  qed
qed

lemma append_spec:
  assumes wf: "buf_wf b" and ok: "\<forall>n. alloc n"
  shows "appends b s (zlog_buf_append alloc junk s (int (length s)) b)"
proof (cases "b_tail b + int (length s) > b_end b")
  case False
  then show ?thesis using end_fits [OF wf wf, of s] by (auto simp: zlog_buf_append_def mem_read_def)
next
  case True
  then show ?thesis
  proof (cases rule: room_cases [OF wf ok, of "int (length s)" junk])
    case (2 b1)
    then show ?thesis using end_fits [OF wf 2(2-6), of s] True by (auto simp: zlog_buf_append_def mem_read_def)
  next
    case (3 b1)
    from end_cut [OF wf 3(2-9) refl] obtain b2 b3 where
      c: "int (length (take (nat (b_end b1 - b_tail b1)) s)) = b_end b1 - b_tail b1"
      "b_write (b_tail b1) (take (nat (b_end b1 - b_tail b1)) s) b1 = Some b2" "b_tail b2 = b_tail b1"
      "zlog_buf_truncate (b2\<lparr>b_tail := b_tail b1 + (b_end b1 - b_tail b1)\<rparr>) = Some b3" "appends b s (Some (1, b3))" by blast
    have "b_tail b1 \<le> b_end b1" using 3(2) by (auto elim: buf_wfE)
    then have "mem_read s (b_end b1 - b_tail b1) = Some (take (nat (b_end b1 - b_tail b1)) s)"
      using 3(9) by (simp add: mem_read_def)
    then show ?thesis using 3(1) True c by (simp add: zlog_buf_append_def Let_def)
  qed (use True in simp)
qed

subsection \<open>Numbers\<close>

text \<open>The digits of a number, most significant first, and the number a digit string denotes.\<close>

function digits :: "nat \<Rightarrow> nat \<Rightarrow> string" where
  "digits base n = (if base < 2 \<or> n < base then [hex ! (n mod base)] else digits base (n div base) @ [hex ! (n mod base)])"
  by pat_completeness auto
termination by (relation "measure snd") (auto intro: div_less_dividend)

declare digits.simps [simp del]

definition digit_value :: "char \<Rightarrow> nat" where
  "digit_value c = (if cnum c < 58 then cnum c - 48 else cnum c - 87)"

definition number_of_digits :: "nat \<Rightarrow> string \<Rightarrow> nat" where
  "number_of_digits base s = foldl (\<lambda>a c. a * base + digit_value c) 0 s"

lemma digit_value_hex: "n < 16 \<Longrightarrow> digit_value (hex ! n) = n"
proof -
  have "\<forall>n\<in>{0..<16}. digit_value (hex ! n) = n" by code_simp
  then show "n < 16 \<Longrightarrow> digit_value (hex ! n) = n" by simp
qed

lemma number_of_digits_digits: "2 \<le> base \<Longrightarrow> base \<le> 16 \<Longrightarrow> number_of_digits base (digits base n) = n"
proof (induction base n rule: digits.induct)
  case (1 base n)
  have m: "digit_value (hex ! (n mod base)) = n mod base"
  proof (rule digit_value_hex)
    have "n mod base < base" using 1(2) by simp
    then show "n mod base < 16" using 1(3) by simp
  qed
  show ?case
  proof (cases "n < base")
    case True
    then show ?thesis using m by (simp add: digits.simps [of base n] number_of_digits_def)
  next
    case False
    then have "digits base n = digits base (n div base) @ [hex ! (n mod base)]"
      using 1(2) by (simp add: digits.simps [of base n])
    then show ?thesis using 1 m False by (simp add: number_of_digits_def)
  qed
qed

lemma print_digits_spec:
  assumes "2 \<le> base"
  shows "n < base ^ Suc room \<Longrightarrow> print_digits base (Suc room) n acc = Some (digits base n @ acc)"
proof (induction room arbitrary: n acc)
  case 0
  then show ?case using assms by (simp add: Let_def digits.simps [of base n])
next
  case (Suc room)
  show ?case
  proof (cases "n < base")
    case True
    then show ?thesis using assms by (simp add: Let_def digits.simps [of base n])
  next
    case False
    then have "n div base \<noteq> 0" using assms by (simp add: div_eq_0_iff)
    moreover have "n div base < base ^ Suc room"
      using Suc.prems assms by (simp add: less_mult_imp_div_less mult.commute mult.left_commute)
    ultimately show ?thesis using Suc.IH [of "n div base"] assms False
      by (simp add: Let_def digits.simps [of base n] del: print_digits.simps(2)) (simp add: Let_def)
  qed
qed

definition zero_padded :: "int \<Rightarrow> string \<Rightarrow> string" where
  "zero_padded width p = replicate (nat width - length p) (CHR ''0'') @ p"

lemma put_zeros:
  assumes "buf_wf b" "b_tail b + int (z + length p) \<le> b_end b"
  shows "\<exists>b1. b_fill (b_tail b) c (int z) b = Some b1 \<and> b_tail b1 = b_tail b \<and>
    b_write (b_tail b1 + int z) p b1 = b_write (b_tail b) (replicate z c @ p) b"
  using b_write_two(1) [of b "replicate z c" p] assms by (auto simp: b_fill_def)

lemma put_num_spec:
  assumes wf: "buf_wf b" and ok: "\<forall>n. alloc n" and w: "0 \<le> width" "width < 2 ^ 64"
  shows "appends b (zero_padded width p) (zlog_buf_put_num alloc junk p width b)"
proof -
  let ?s = "zero_padded width p"
  define z where "z = nat width - length p"
  have s: "?s = replicate z (CHR ''0'') @ p" by (simp add: zero_padded_def z_def)
  have wm: "width mod 18446744073709551616 = width" using w by simp
  have zl: "(if width > int (length p) then (width - int (length p), width) else (0, int (length p))) = (int z, int (length ?s))"
    by (auto simp: z_def zero_padded_def)
  show ?thesis
  proof (cases "b_tail b + int (length ?s) > b_end b")
    case False
    then have fit: "b_tail b + int (z + length p) \<le> b_end b" by (simp add: s)
    obtain b1 b2 where "b_fill (b_tail b) (CHR ''0'') (int z) b = Some b1" "b_tail b1 = b_tail b"
        "b_write (b_tail b1 + int z) p b1 = Some b2" "appends b ?s (Some (0, b2\<lparr>b_tail := b_tail b2 + int (length ?s)\<rparr>))"
      using put_zeros [OF wf fit, of "CHR ''0''"] end_fits [OF wf wf, of ?s] False s by auto
    then show ?thesis using False zl wm by (simp add: zlog_buf_put_num_def)
  next
    case True
    show ?thesis
    proof (cases rule: room_cases [OF wf ok, of "int (length ?s)" junk])
      case (2 b1)
      then have fit: "b_tail b1 + int (z + length p) \<le> b_end b1" by (simp add: s)
      obtain b2 b3 where "b_fill (b_tail b1) (CHR ''0'') (int z) b1 = Some b2" "b_tail b2 = b_tail b1"
          "b_write (b_tail b2 + int z) p b2 = Some b3" "appends b ?s (Some (0, b3\<lparr>b_tail := b_tail b3 + int (length ?s)\<rparr>))"
        using put_zeros [OF 2(2) fit, of "CHR ''0''"] end_fits [OF wf 2(2-6), of ?s] 2(7) s by auto
      then show ?thesis using True zl wm 2(1) by (simp add: zlog_buf_put_num_def)
    next
      case (3 b1)
      define l where "l = nat (b_end b1 - b_tail b1)"
      have l: "b_end b1 - b_tail b1 = int l" using 3(2) by (auto elim: buf_wfE simp: l_def)
      define z' p' where "z' = min l z" and "p' = take (l - z) p"
      have t: "take l ?s = replicate z' (CHR ''0'') @ p'" by (simp add: s z'_def p'_def)
      have zl': "(if int l \<le> int z then (int l, 0) else (int z, int l - int z)) = (int z', int (length p'))"
        using 3(9) l by (auto simp: z'_def p'_def s of_nat_diff)
      have fit: "b_tail b1 + int (z' + length p') \<le> b_end b1" using l by (simp add: z'_def p'_def)
      have r: "mem_read p (int (length p')) = Some p'" by (simp add: mem_read_def p'_def min_def)
      from end_cut [OF wf 3(2-9) refl] obtain b3 b4 where
        c: "b_write (b_tail b1) (replicate z' (CHR ''0'') @ p') b1 = Some b3" "b_tail b3 = b_tail b1"
          "zlog_buf_truncate (b3\<lparr>b_tail := b_tail b1 + int l\<rparr>) = Some b4" "appends b ?s (Some (1, b4))"
        unfolding l by (auto simp: t)
      obtain b2 where "b_fill (b_tail b1) (CHR ''0'') (int z') b1 = Some b2" "b_tail b2 = b_tail b1"
          "b_write (b_tail b2 + int z') p' b2 = Some b3"
        using put_zeros [OF 3(2) fit, of "CHR ''0''"] c(1) by auto
      note run = this True zl wm 3(1) c(2-4)
      show ?thesis
      proof (cases "l \<le> z")
        case True
        then have "z' = l" "length p' = 0" by (simp_all add: z'_def p'_def)
        then show ?thesis using run True r by (simp add: zlog_buf_put_num_def Let_def l)
      next
        case False
        then have "z' = z" "int (length p') = int l - int z" using zl' by simp_all
        then show ?thesis using run False r by (simp add: zlog_buf_put_num_def Let_def l)
      qed
    qed (use True in simp)
  qed
qed

lemma int32_len: "ZLOG_INT32_LEN = Suc 10" by (simp add: ZLOG_INT32_LEN_def)

lemma dec32_spec:
  assumes wf: "buf_wf b" and ok: "\<forall>n. alloc n" and w: "0 \<le> width" "width < 2 ^ 64"
  shows "appends b (zero_padded width (digits 10 (unat ui32))) (zlog_buf_printf_dec32 alloc junk ui32 width b)"
proof -
  have "unat ui32 < 2 ^ LENGTH(32)" by (rule unsigned_less)
  then have "unat ui32 < 10 ^ Suc 10" by simp
  then have "print_digits 10 ZLOG_INT32_LEN (unat ui32) [] = Some (digits 10 (unat ui32))"
    unfolding int32_len using print_digits_spec [of 10 "unat ui32" 10 "[]"] by (simp only: append_Nil2)
  then show ?thesis using put_num_spec [OF assms] wf by (auto simp: zlog_buf_printf_dec32_def buf_wf_def)
qed

lemma hex_spec:
  assumes wf: "buf_wf b" and ok: "\<forall>n. alloc n" and w: "0 \<le> width" "width < 2 ^ 64"
  shows "appends b (zero_padded width (digits 16 (unat ui32))) (zlog_buf_printf_hex alloc junk ui32 width b)"
proof -
  have "unat ui32 < 2 ^ LENGTH(32)" by (rule unsigned_less)
  then have "unat ui32 < 16 ^ Suc 10" by simp
  then have "print_digits 16 ZLOG_INT32_LEN (unat ui32) [] = Some (digits 16 (unat ui32))"
    unfolding int32_len using print_digits_spec [of 16 "unat ui32" 10 "[]"] by (simp only: append_Nil2)
  then show ?thesis using put_num_spec [OF assms] wf by (auto simp: zlog_buf_printf_hex_def buf_wf_def)
qed

text \<open>The 32-bit path of the 64-bit printer gives the same digits.\<close>

lemma dec64_spec:
  assumes wf: "buf_wf b" and ok: "\<forall>n. alloc n" and w: "0 \<le> width" "width < 2 ^ 64"
  shows "appends b (zero_padded width (digits 10 (unat ui64))) (zlog_buf_printf_dec64 alloc junk ui64 width b)"
proof -
  have d: "print_digits 10 ZLOG_INT64_LEN n [] = Some (digits 10 n)" if "n < 10 ^ Suc 19" for n
  proof -
    have l: "ZLOG_INT64_LEN = Suc 19" by (simp add: ZLOG_INT64_LEN_def)
    show ?thesis unfolding l using print_digits_spec [of 10 n 19 "[]"] that by (simp only: append_Nil2)
  qed
  have "unat ui64 < 2 ^ LENGTH(64)" by (rule unsigned_less)
  then have "unat ui64 < 10 ^ Suc 19" by simp
  moreover have "unat (ucast ui64 :: 32 word) = unat ui64" if "uint ui64 \<le> ZLOG_MAX_UINT32_VALUE"
  proof -
    have "unat ui64 < 2 ^ 32" 
    proof -
      have "nat (uint ui64) < nat (2 ^ 32)"
        using that by (subst nat_less_eq_zless) (simp_all add: ZLOG_MAX_UINT32_VALUE_def)
      then show ?thesis by (simp add: unat_eq_nat_uint del: nat_uint_eq)
    qed
    then show ?thesis by (simp add: unsigned_ucast_eq take_bit_nat_eq_self)
  qed
  ultimately show ?thesis using put_num_spec [OF assms] wf d
    by (auto simp: zlog_buf_printf_dec64_def buf_wf_def)
qed

subsection \<open>Formatted and adjusted text\<close>

lemma vsnprintf_fits:
  assumes wf: "buf_wf b" and fit: "b_tail b + int (length s) \<le> b_end b" and small: "int (length s) \<le> 2147483647"
  shows "\<exists>b1. vsnprintf_at_tail (Some s) (b_end_plus_1 b - b_tail b) b = Some (int (length s), b1) \<and>
    b1 = b\<lparr>b_start := b_start b1\<rparr> \<and> buf_wf (b1\<lparr>b_tail := b_tail b + int (length s)\<rparr>) \<and>
    content (b1\<lparr>b_tail := b_tail b + int (length s)\<rparr>) = content b @ s"
proof -
  obtain d where d: "b_start b = Some d" "int (length d) = b_size_real b" "0 \<le> b_tail b" "b_tail b < b_size_real b"
    "b_end b = b_size_real b - 1" "b_end_plus_1 b = b_size_real b" using wf by (auto simp: buf_wf_def)
  have t: "nat (b_tail b) + Suc (length s) \<le> length d" using fit d by linarith
  let ?d = "take (nat (b_tail b)) d @ (s @ [CHR 0x00]) @ drop (nat (b_tail b) + Suc (length s)) d"
  have w: "block_write d (b_tail b) (s @ [CHR 0x00]) = Some ?d" using d(3) t by (simp add: block_write_def)
  have l: "length s \<le> nat (b_end_plus_1 b - b_tail b - 1)" "0 < b_end_plus_1 b - b_tail b" using fit d by linarith+
  have "vsnprintf_at_tail (Some s) (b_end_plus_1 b - b_tail b) b = Some (int (length s), b\<lparr>b_start := Some ?d\<rparr>)"
    using l small w d(1) by (simp add: vsnprintf_at_tail_def b_write_def)
  moreover have "length ?d = length d" using t by simp
  ultimately show ?thesis using wf d t
    by (auto simp: buf_wf_def content_def nat_add_distrib)
qed

lemma vsnprintf_cut:
  assumes wf: "buf_wf b" and cut: "b_end b < b_tail b + int (length s)" and small: "int (length s) \<le> 2147483647"
  shows "\<exists>b1. vsnprintf_at_tail (Some s) (b_end_plus_1 b - b_tail b) b = Some (int (length s), b1) \<and>
    b1 = b\<lparr>b_start := b_start b1\<rparr> \<and> buf_wf b1 \<and> content b1 = content b \<and> buf_wf (b1\<lparr>b_tail := b_end b\<rparr>) \<and>
    content (b1\<lparr>b_tail := b_end b\<rparr>) = content b @ take (nat (b_end b - b_tail b)) s"
proof -
  obtain d where d: "b_start b = Some d" "int (length d) = b_size_real b" "0 \<le> b_tail b" "b_tail b < b_size_real b"
    "b_end b = b_size_real b - 1" "b_end_plus_1 b = b_size_real b" using wf by (auto simp: buf_wf_def)
  obtain t k where t: "b_tail b = int t" "length d = t + Suc k" "b_end b = int (t + k)"
    using d by (metis add_Suc_right diff_add_cancel int_ops(4) less_imp_Suc_add nonneg_int_cases of_nat_Suc of_nat_less_iff add_diff_cancel_right')
  let ?s = "take k s @ [CHR 0x00]"
  have l: "k \<le> length s" using cut t by simp
  let ?d = "take t d @ ?s"
  have w: "block_write d (int t) ?s = Some ?d" using l t by (simp add: block_write_def)
  have n: "b_end_plus_1 b - b_tail b = int (Suc k)" using d t by simp
  have "vsnprintf_at_tail (Some s) (b_end_plus_1 b - b_tail b) b = Some (int (length s), b\<lparr>b_start := Some ?d\<rparr>)"
    unfolding n using l small w d(1) t(1) by (simp add: vsnprintf_at_tail_def b_write_def)
  moreover have "length ?d = length d" using l t by simp
  moreover have "nat (b_end b) = t + k" "nat (b_end b - b_tail b) = k" using t by simp_all
  ultimately show ?thesis using wf d t l
    by (auto simp: buf_wf_def content_def)
qed

lemma vprintf_spec:
  assumes wf: "buf_wf b" and ok: "\<forall>n. alloc n" and small: "int (length s) \<le> 2147483647"
  shows "appends b s (zlog_buf_vprintf alloc junk (Some s) b)"
proof -
  have start: "b_start b \<noteq> None" and e: "b_end_plus_1 b = b_end b + 1" "b_tail b \<le> b_end b"
    using wf by (auto simp: buf_wf_def)
  show ?thesis
  proof (cases "b_tail b + int (length s) > b_end b")
    case False
    then have fit: "b_tail b + int (length s) \<le> b_end b" by simp
    obtain b1 where b1: "vsnprintf_at_tail (Some s) (b_end_plus_1 b - b_tail b) b = Some (int (length s), b1)"
      "b1 = b\<lparr>b_start := b_start b1\<rparr>" "buf_wf (b1\<lparr>b_tail := b_tail b + int (length s)\<rparr>)"
      "content (b1\<lparr>b_tail := b_tail b + int (length s)\<rparr>) = content b @ s"
      using vsnprintf_fits [OF wf fit small] by blast
    have same: "b_tail b1 = b_tail b" "b_size_max b1 = b_size_max b" "b_truncate_str b1 = b_truncate_str b"
      by (subst b1(2), simp)+
    have "b_size_max b = 0 \<or> int (length (content b @ s)) < b_size_max b"
      using fit wf length_content [OF wf] by (auto simp: buf_wf_def)
    then have "appended b s = (0, content b @ s)" unfolding appended_def Let_def by (rule if_P)
    then show ?thesis using start e fit b1 same by (simp add: zlog_buf_vprintf_def appends_def Let_def)
  next
    case True
    obtain b1 where b1: "vsnprintf_at_tail (Some s) (b_end_plus_1 b - b_tail b) b = Some (int (length s), b1)"
      "b1 = b\<lparr>b_start := b_start b1\<rparr>" "buf_wf b1" "content b1 = content b"
      using vsnprintf_cut [OF wf True small] by blast
    have same: "b_tail b1 = b_tail b" "b_size_max b1 = b_size_max b" "b_truncate_str b1 = b_truncate_str b" "b_end b1 = b_end b"
      by (subst b1(2), simp)+
    have ap: "appended b1 = appended b" by (intro ext) (simp only: appended_def b1(4) same)
    have no: "b_end b1 < b_tail b1 + int (length s)" using True same by simp
    have inc: "int (length s) - (b_end_plus_1 b - b_tail b) + 1 = int (length s) - (b_end b1 - b_tail b1)" using e same by simp
    show ?thesis
    proof (cases rule: room_cases [OF b1(3) ok no, where junk = junk])
      case (1 b2)
      obtain b3 where b3: "vsnprintf_at_tail (Some s) (b_end_plus_1 b2 - b_tail b2) b2 = Some (int (length s), b3)"
        "b3 = b2\<lparr>b_start := b_start b3\<rparr>" "buf_wf (b3\<lparr>b_tail := b_tail b2 + int (length s)\<rparr>)"
        "content (b3\<lparr>b_tail := b_tail b2 + int (length s)\<rparr>) = content b2 @ s"
        using vsnprintf_fits [OF 1(2,7) small] by blast
      have same3: "b_tail b3 = b_tail b2" "b_size_max b3 = b_size_max b2" "b_truncate_str b3 = b_truncate_str b2"
        by (subst b3(2), simp)+
      have "b_size_max b1 = 0 \<or> int (length (content b1 @ s)) < b_size_max b1"
        using 1 length_content [OF b1(3)] by (auto simp: buf_wf_def)
      then have "appended b1 s = (0, content b1 @ s)" unfolding appended_def Let_def by (rule if_P)
      moreover have "zlog_buf_resize alloc junk (int (length s) - (b_end_plus_1 b - b_tail b) + 1) b1 = (0, b2)"
        unfolding inc by (rule 1(1))
      ultimately show ?thesis using start e(2) e(1) True b1(1,4) b3 same same3 1(2-6) ap by (simp add: zlog_buf_vprintf_def appends_def Let_def)
    next
      case (2 b2)
      have cut: "b_end b2 < b_tail b2 + int (length s)" using 2(4,9) by simp
      obtain b3 where b3: "vsnprintf_at_tail (Some s) (b_end_plus_1 b2 - b_tail b2) b2 = Some (int (length s), b3)"
        "b3 = b2\<lparr>b_start := b_start b3\<rparr>" "buf_wf (b3\<lparr>b_tail := b_end b2\<rparr>)"
        "content (b3\<lparr>b_tail := b_end b2\<rparr>) = content b2 @ take (nat (b_end b2 - b_tail b2)) s"
        using vsnprintf_cut [OF 2(2) cut small] by blast
      have same3: "b_tail b3 = b_tail b2" "b_size_max b3 = b_size_max b2" "b_truncate_str b3 = b_truncate_str b2"
        by (subst b3(2), simp)+
      obtain b4 where b4: "zlog_buf_truncate (b3\<lparr>b_tail := b_end b2\<rparr>) = Some b4" "buf_wf b4"
        "content b4 = overlay (b_truncate_str b3) (content (b3\<lparr>b_tail := b_end b2\<rparr>))"
        "b_size_max b4 = b_size_max b3" "b_truncate_str b4 = b_truncate_str b3"
        using truncate_wf [OF b3(3)] by auto
      have e2: "b_tail b2 \<le> b_end b2" "b_end_plus_1 b2 = b_end b2 + 1" using 2(2) by (auto simp: buf_wf_def)
      have c: "nat (b_size_max b1 - 1) = length (content b1) + nat (b_end b2 - b_tail b2)"
        using length_content [OF b1(3)] 2(4,8) e2 by linarith
      have "\<not> int (length (content b1 @ s)) < b_size_max b1" using length_content [OF b1(3)] 2 by simp
      moreover have "content (b3\<lparr>b_tail := b_end b2\<rparr>) = take (nat (b_size_max b1 - 1)) (content b1 @ s)"
        using b3(4) 2(3) by (simp add: c)
      ultimately have a: "appended b1 s = (1, content b4)" using 2(7) b4(3) same3 2(6) by (simp add: appended_def)
      have t: "b_tail b3 + (b_end_plus_1 b2 - b_tail b2 - 1) = b_end b2" using same3 e2 by simp
      have s: "b_tail b2 + (b_end_plus_1 b2 - b_tail b2 - 1) = b_end b2" using e2 by simp
      have r: "zlog_buf_resize alloc junk (int (length s) - (b_end_plus_1 b - b_tail b) + 1) b1 = (1, b2)"
        unfolding inc by (rule 2(1))
      show ?thesis using start e True b1(1,4) b3(1) b4 same same3 2(2-6) ap a t s r
        by (simp add: zlog_buf_vprintf_def appends_def Let_def)
    qed
  qed
qed

text \<open>What \<open>zlog_buf_adjust_append\<close> appends: at most \<open>out_width\<close> characters, padded to \<open>in_width\<close>.\<close>

definition adjusted :: "string \<Rightarrow> bool \<Rightarrow> bool \<Rightarrow> nat \<Rightarrow> nat \<Rightarrow> string" where
  "adjusted str left_adjust zero_pad in_width out_width =
     (let s = (if out_width = 0 then str else take out_width str); n = in_width - length s in
      if left_adjust then s @ replicate n (CHR '' '')
      else replicate n (if zero_pad then CHR ''0'' else CHR '' '') @ s)"

lemma put_adjusted:
  assumes wf: "buf_wf b" and fit: "b_tail b + int (n + length s) \<le> b_end b" and s: "mem_read str (int (length s)) = Some s"
    and x: "x = (if left then s @ replicate n (CHR '' '') else replicate n (if zero then CHR ''0'' else CHR '' '') @ s)"
  shows "zlog_buf_put_adjusted str left zero (int (length s)) (int n) (int (length x)) b =
    map_option (\<lambda>b1. b1\<lparr>b_tail := b_tail b1 + int (length x)\<rparr>) (b_write (b_tail b) x b)"
proof -
  have fit': "b_tail b + int (length s + length (replicate n (CHR '' ''))) \<le> b_end b" using fit by simp
  show ?thesis
  proof (cases left)
    case True
    obtain b1 where "b_fill (b_tail b + int (length s)) (CHR '' '') (int n) b = Some b1" "b_tail b1 = b_tail b"
      "b_write (b_tail b) s b1 = b_write (b_tail b) x b"
      using b_write_two(2) [OF wf fit'] True by (cases "n = 0") (auto simp: b_fill_def x)
    then show ?thesis using True s by (cases "b_write (b_tail b) x b") (auto simp: zlog_buf_put_adjusted_def)
  next
    case False
    obtain b1 where "b_fill (b_tail b) (if zero then CHR ''0'' else CHR '' '') (int n) b = Some b1" "b_tail b1 = b_tail b"
      "b_write (b_tail b1 + int n) s b1 = b_write (b_tail b) x b"
      using put_zeros [OF wf fit, of "if zero then CHR ''0'' else CHR '' ''"] False x by auto
    then show ?thesis using False s by (cases "b_write (b_tail b) x b") (auto simp: zlog_buf_put_adjusted_def)
  qed
qed

lemma adjust_append_spec:
  assumes wf: "buf_wf b" and ok: "\<forall>n. alloc n"
  shows "appends b (adjusted str left zero in_width out_width)
    (zlog_buf_adjust_append alloc junk str (int (length str)) left zero (int in_width) (int out_width) b)"
proof -
  define s where "s = (if out_width = 0 then str else take out_width str)"
  define n where "n = in_width - length s"
  define x where "x = adjusted str left zero in_width out_width"
  have x: "x = (if left then s @ replicate n (CHR '' '') else replicate n (if zero then CHR ''0'' else CHR '' '') @ s)"
    by (simp add: x_def adjusted_def s_def n_def Let_def)
  have lx: "length x = n + length s" by (simp add: x)
  have sl: "(if int out_width = 0 \<or> int (length str) < int out_width then int (length str) else int out_width) = int (length s)"
    by (auto simp: s_def)
  have al: "(if int in_width = 0 \<or> int (length s) \<ge> int in_width then (int (length s), 0)
      else (int in_width, int in_width - int (length s))) = (int (length x), int n)"
    by (auto simp: lx n_def of_nat_diff)
  have src: "mem_read str (int (length s)) = Some s" by (auto simp: mem_read_def s_def min_def)
  obtain d where start: "b_start b = Some d" using wf by (auto simp: buf_wf_def)
  show ?thesis unfolding x_def [symmetric]
  proof (cases "b_tail b + int (length x) > b_end b")
    case False
    then have fit: "b_tail b + int (n + length s) \<le> b_end b" by (simp add: lx)
    obtain b2 where "b_write (b_tail b) x b = Some b2" "appends b x (Some (0, b2\<lparr>b_tail := b_tail b2 + int (length x)\<rparr>))"
      using end_fits [OF wf wf, of x] False by auto
    then show "appends b x (zlog_buf_adjust_append alloc junk str (int (length str)) left zero (int in_width) (int out_width) b)"
      unfolding zlog_buf_adjust_append_def sl Let_def al using False put_adjusted [OF wf fit src x] start by simp
  next
    case True
    have no: "b_end b - b_tail b < int (length x)" using True by simp
    show "appends b x (zlog_buf_adjust_append alloc junk str (int (length str)) left zero (int in_width) (int out_width) b)"
    proof (cases rule: room_cases [OF wf ok True, where junk = junk])
      case (1 b1)
      then have fit: "b_tail b1 + int (n + length s) \<le> b_end b1" by (simp add: lx)
      obtain b2 where "b_write (b_tail b1) x b1 = Some b2" "appends b x (Some (0, b2\<lparr>b_tail := b_tail b2 + int (length x)\<rparr>))"
        using end_fits [OF wf 1(2-7)] by auto
      then show ?thesis unfolding zlog_buf_adjust_append_def sl Let_def al
        using no put_adjusted [OF 1(2) fit src x] start 1(1) by simp
    next
      case (2 b1)
      define l where "l = nat (b_end b1 - b_tail b1)"
      have l: "b_end b1 - b_tail b1 = int l" using 2(2) by (auto elim: buf_wfE simp: l_def)
      have short: "l < length x" using 2(9) 2(4) l by simp
      define s' n' where "s' = (if left then take l s else take (l - n) s)"
        and "n' = (if left then l - length s else min n l)"
      have x': "take l x = (if left then s' @ replicate n' (CHR '' '') else replicate n' (if zero then CHR ''0'' else CHR '' '') @ s')"
        using short by (auto simp: x s'_def n'_def lx)
      have l': "length (take l x) = l" using short by simp
      have sum: "n' + length s' = l" using l' unfolding x' by (auto split: if_splits)
      have src': "mem_read str (int (length s')) = Some s'"
        by (auto simp: mem_read_def s'_def s_def min_def)
      have fit: "b_tail b1 + int (n' + length s') \<le> b_end b1" using l sum by simp
      have pair: "(if left then (if int (length s) < int l then (int (length s), int l - int (length s)) else (int l, 0))
          else (if int n < int l then (int l - int n, int n) else (0, int l))) = (int (length s'), int n')"
        using sum short by (auto simp: s'_def n'_def lx of_nat_diff)
      from end_cut [OF wf 2(2-9) refl] obtain b2 b3 where
        "b_write (b_tail b1) (take l x) b1 = Some b2" "b_tail b2 = b_tail b1"
        "zlog_buf_truncate (b2\<lparr>b_tail := b_tail b1 + int l\<rparr>) = Some b3" "appends b x (Some (1, b3))"
        unfolding l by auto
      moreover have "zlog_buf_adjust_append alloc junk str (int (length str)) left zero (int in_width) (int out_width) b =
          do { b \<leftarrow> zlog_buf_put_adjusted str left zero (int (length s')) (int n') (int l) b1;
               b \<leftarrow> zlog_buf_truncate b; Some (1, b) }"
        unfolding zlog_buf_adjust_append_def sl Let_def al
        by (simp only: start option.distinct if_False prod.case no if_True 2(1) zero_less_one l pair)
      ultimately show ?thesis
        using put_adjusted [OF 2(2) fit src' x'] unfolding l' by simp
    qed
  qed
qed

lemma same_appends:
  "appends b s r1 \<Longrightarrow> appends b s r2 \<Longrightarrow>
    \<exists>rc b1 b2. r1 = Some (rc, b1) \<and> r2 = Some (rc, b2) \<and> content b1 = content b2"
  unfolding appends_def by (metis prod.inject)

subsection \<open>Properties\<close>

text \<open>
  C12: appending refines a text with a limit. On a sound buffer \<open>zlog_buf_append\<close> adds the whole
  text and reports 0 while it fits the configured maximum; when it does not, the buffer ends
  with as much as fits, its last characters overwritten by the truncation mark, and 1 is
  reported. No access leaves the block and the buffer stays sound.
\<close>

theorem buf_append_refines:
  assumes "buf_wf b" and "\<forall>n. alloc n"
  shows "\<exists>rc b'. zlog_buf_append alloc junk s (int (length s)) b = Some (rc, b') \<and> buf_wf b' \<and>
    (rc, content b') = appended b s"
  using append_spec [OF assms, of s junk] by (auto simp: appends_def)

definition demo_buf :: zlog_buf where
  "demo_buf = the (zlog_buf_new (\<lambda>_. True) 4 8 (Some ''..''))"

lemma demo_buf: "buf_wf demo_buf" "content demo_buf = []" "b_size_max demo_buf = 8" "b_truncate_str demo_buf = ''..''"
  by (simp_all add: demo_buf_def zlog_buf_new_def MAXLEN_PATH_def buf_wf_def content_def)

theorem buf_append_refines_witness:
  "\<exists>rc b'. zlog_buf_append (\<lambda>_. True) (\<lambda>_. CHR ''?'') ''hello world'' 11 demo_buf = Some (rc, b') \<and>
    rc = 1 \<and> content b' = ''hello..''"
  using buf_append_refines [OF demo_buf(1), of "\<lambda>_. True" "\<lambda>_. CHR ''?''" "''hello world''"]
  by (auto simp: appended_def demo_buf overlay_def)

text \<open>
  C13: the number printers append the zero-padded digits, and the digits read back as the number:
  decimal of 32 and of 64 bits (on its fast 32-bit path too) and hexadecimal. The scratch
  array always has room for the digits.
\<close>

theorem buf_prints_numbers:
  assumes "buf_wf b" and "\<forall>n. alloc n" and "0 \<le> width" and "width < 2 ^ 31"
  shows "appends b (zero_padded width (digits 10 (unat x))) (zlog_buf_printf_dec32 alloc junk x width b) \<and>
    appends b (zero_padded width (digits 10 (unat y))) (zlog_buf_printf_dec64 alloc junk y width b) \<and>
    appends b (zero_padded width (digits 16 (unat x))) (zlog_buf_printf_hex alloc junk x width b) \<and>
    number_of_digits 10 (digits 10 (unat x)) = unat x \<and> number_of_digits 10 (digits 10 (unat y)) = unat y \<and>
    number_of_digits 16 (digits 16 (unat x)) = unat x"
  using dec32_spec [OF assms(1-3), of x junk] dec64_spec [OF assms(1-3), of y junk] hex_spec [OF assms(1-3), of x junk] assms(4)
  by (simp add: number_of_digits_digits)

theorem buf_prints_numbers_witness:
  "appends demo_buf (zero_padded 3 (digits 10 (unat (7 :: 32 word))))
     (zlog_buf_printf_dec32 (\<lambda>_. True) (\<lambda>_. CHR ''?'') 7 3 demo_buf) \<and>
   zero_padded 3 (digits 10 (unat (7 :: 32 word))) = ''007''"
proof -
  have "zero_padded 3 (digits 10 (unat (7 :: 32 word))) = ''007''" by code_simp
  then show ?thesis
    using buf_prints_numbers [OF demo_buf(1), of "\<lambda>_. True" 3 7 "\<lambda>_. CHR ''?''" 0] by simp
qed

text \<open>
  C14: formatting and adjusting are appending. \<open>zlog_buf_vprintf\<close> leaves the buffer as
  appending the formatted text does, and \<open>zlog_buf_adjust_append\<close> as appending the text
  cut to \<open>out_width\<close> and padded to \<open>in_width\<close> on the side asked for, truncation included.
\<close>

theorem buf_formats_as_append:
  assumes "buf_wf b" and "\<forall>n. alloc n" and "int (length s) < 2 ^ 31"
  shows "(\<exists>rc b1 b2. zlog_buf_vprintf alloc junk (Some s) b = Some (rc, b1) \<and>
      zlog_buf_append alloc junk s (int (length s)) b = Some (rc, b2) \<and> content b1 = content b2) \<and>
    (\<exists>rc b1 b2. zlog_buf_adjust_append alloc junk s (int (length s)) left zero (int iw) (int ow) b = Some (rc, b1) \<and>
      zlog_buf_append alloc junk (adjusted s left zero iw ow) (int (length (adjusted s left zero iw ow))) b = Some (rc, b2) \<and>
      content b1 = content b2)"
proof -
  have "appends b s (zlog_buf_vprintf alloc junk (Some s) b)" using vprintf_spec [OF assms(1,2)] assms(3) by simp
  then show ?thesis
    using same_appends append_spec [OF assms(1,2)] adjust_append_spec [OF assms(1,2), of s left zero iw ow junk] by blast
qed

theorem buf_formats_as_append_witness:
  "\<exists>rc b1 b2. zlog_buf_adjust_append (\<lambda>_. True) (\<lambda>_. CHR ''?'') ''warn'' 4 False False 6 0 demo_buf = Some (rc, b1) \<and>
     zlog_buf_append (\<lambda>_. True) (\<lambda>_. CHR ''?'') ''  warn'' 6 demo_buf = Some (rc, b2) \<and> content b1 = content b2"
proof -
  have a: "adjusted ''warn'' False False 6 0 = ''  warn''" by code_simp
  show ?thesis
    using buf_formats_as_append [OF demo_buf(1), of "\<lambda>_. True" "''warn''" "\<lambda>_. CHR ''?''" False False 6 0]
    unfolding a by simp
qed

end
