(* ===== verification/Zlog_Level.thy ===== *)
theory Zlog_Level
  imports Zc_Arraylist
begin

section \<open>Levels of the logging library\<close>

text \<open>
  \<open>src/deps/zlog/src/level.c\<close> and \<open>level_list.c\<close>. A level is parsed from a line of the
  configuration, as in \<open>TRACE = 10, LOG_ERR\<close>; the list of levels is an array list with the level
  of number \<open>n\<close> at index \<open>n\<close>. A C string is the list of its characters before the
  terminating zero. Diagnostic output is left out. \<open>sscanf\<close> is written out for its format; a
  number that is no \<open>int\<close> is undefined in C and taken as it is here.
\<close>

definition MAXLEN_NAME :: nat where "MAXLEN_NAME = 1024"

record zlog_level =
  int_level :: int
  str_uppercase :: string
  str_lowercase :: string
  str_len :: nat
  syslog_level :: int

subsection \<open>Characters\<close>

definition upper :: "char \<Rightarrow> char" where
  "upper c = (if 97 \<le> cnum c \<and> cnum c \<le> 122 then char_of (cnum c - 32) else c)"

definition is_space :: "char \<Rightarrow> bool" where
  "is_space c \<longleftrightarrow> cnum c = 32 \<or> 9 \<le> cnum c \<and> cnum c \<le> 13"

definition is_digit :: "char \<Rightarrow> bool" where
  "is_digit c \<longleftrightarrow> 48 \<le> cnum c \<and> cnum c \<le> 57"

definition STRICMP :: "string \<Rightarrow> string \<Rightarrow> bool" where
  "STRICMP a b \<longleftrightarrow> map lower a = map lower b"

subsection \<open>Parsing a level\<close>

definition read_number :: "string \<Rightarrow> (int \<times> string) option" where
  "read_number cs =
     (let (neg, ds) = (case cs of c # r \<Rightarrow> if c = CHR ''-'' then (True, r) else if c = CHR ''+'' then (False, r) else (False, cs)
                      | [] \<Rightarrow> (False, []));
          digits = takeWhile is_digit ds;
          n = foldl (\<lambda>a c. 10 * a + int (cnum c - 48)) 0 digits
      in if digits = [] then None else Some (if neg then - n else n, dropWhile is_digit ds))"

text \<open>\<open>sscanf(line, " %[^= \t] = %d ,%s", str, &l, sl)\<close>: the number of conversions and their results.\<close>

definition name_char :: "char \<Rightarrow> bool" where
  "name_char c \<longleftrightarrow> c \<noteq> CHR ''='' \<and> c \<noteq> CHR '' '' \<and> cnum c \<noteq> 9"

definition scan_level :: "string \<Rightarrow> nat \<times> string \<times> int \<times> string" where
  "scan_level line =
     (let cs = dropWhile is_space line; str = takeWhile name_char cs; cs = dropWhile is_space (dropWhile name_char cs) in
      if str = [] then (0, [], 0, [])
      else if cs = [] \<or> hd cs \<noteq> CHR ''='' then (1, str, 0, [])
      else case read_number (dropWhile is_space (tl cs)) of
        None \<Rightarrow> (1, str, 0, [])
      | Some (l, cs) \<Rightarrow>
          let cs = dropWhile is_space cs in
          if cs = [] \<or> hd cs \<noteq> CHR '','' then (2, str, l, [])
          else let sl = takeWhile (\<lambda>c. \<not> is_space c) (dropWhile is_space (tl cs)) in
            (if sl = [] then 2 else 3, str, l, sl))"

definition syslog_level_atoi :: "string \<Rightarrow> int" where
  "syslog_level_atoi str =
     (if STRICMP str ''LOG_EMERG'' then 0 else if STRICMP str ''LOG_ALERT'' then 1
      else if STRICMP str ''LOG_CRIT'' then 2 else if STRICMP str ''LOG_ERR'' then 3
      else if STRICMP str ''LOG_WARNING'' then 4 else if STRICMP str ''LOG_NOTICE'' then 5
      else if STRICMP str ''LOG_INFO'' then 6 else if STRICMP str ''LOG_DEBUG'' then 7 else -187)"

definition zlog_level_new :: "alloc \<Rightarrow> string \<Rightarrow> zlog_level option" where
  "zlog_level_new alloc line =
     (let (nscan, str, l, sl) = scan_level line in
      if nscan < 2 then None
      else if l < 0 \<or> l > 255 then None
      else if str = [] then None
      else if \<not> alloc 2072 then None
      else let syslog = (if sl = [] then 7 else syslog_level_atoi sl) in
        if syslog = -187 then None
        else if length str > MAXLEN_NAME then None
        else Some \<lparr>int_level = l, str_uppercase = map upper str, str_lowercase = map lower str, str_len = length str,
          syslog_level = syslog\<rparr>)"

subsection \<open>The list of levels\<close>

definition zlog_level_list_set ::
  "alloc \<Rightarrow> (nat \<Rightarrow> zlog_level option) \<Rightarrow> zlog_level zc_arraylist \<Rightarrow> string \<Rightarrow> (int \<times> zlog_level zc_arraylist) option" where
  "zlog_level_list_set alloc junk levels line =
     (case zlog_level_new alloc line of
        None \<Rightarrow> Some (-1, levels)
      | Some a_level \<Rightarrow> do {
          (rc, levels) \<leftarrow> zc_arraylist_set alloc junk levels (int_level a_level) (Some a_level);
          Some (if rc \<noteq> 0 then -1 else 0, levels)
        })"

fun set_lines ::
  "alloc \<Rightarrow> (nat \<Rightarrow> zlog_level option) \<Rightarrow> string list \<Rightarrow> zlog_level zc_arraylist \<Rightarrow> (bool \<times> zlog_level zc_arraylist) option" where
  "set_lines alloc junk [] levels = Some (False, levels)"
| "set_lines alloc junk (line # lines) levels = do {
     (rc, levels) \<leftarrow> zlog_level_list_set alloc junk levels line;
     if rc \<noteq> 0 then Some (True, levels) else set_lines alloc junk lines levels
   }"

definition default_lines :: "string list" where
  "default_lines = [''* = 0, LOG_INFO'', ''DEBUG = 20, LOG_DEBUG'', ''INFO = 40, LOG_INFO'', ''NOTICE = 60, LOG_NOTICE'',
     ''WARN = 80, LOG_WARNING'', ''ERROR = 100, LOG_ERR'', ''FATAL = 120, LOG_ALERT'', ''UNKNOWN = 254, LOG_ERR'',
     ''! = 255, LOG_INFO'']"

definition zlog_level_list_new :: "alloc \<Rightarrow> (nat \<Rightarrow> zlog_level option) \<Rightarrow> zlog_level zc_arraylist option option" where
  "zlog_level_list_new alloc junk =
     (case zc_arraylist_new alloc True of
        None \<Rightarrow> Some None
      | Some levels \<Rightarrow> do {
          (failed, levels) \<leftarrow> set_lines alloc junk default_lines levels;
          Some (if failed then None else Some levels)
        })"

definition zlog_level_list_get :: "zlog_level zc_arraylist \<Rightarrow> int \<Rightarrow> zlog_level option option" where
  "zlog_level_list_get levels l = do {
     a_level \<leftarrow> zc_arraylist_get levels l;
     if a_level \<noteq> None then Some a_level else zc_arraylist_get levels 254
   }"

fun atoi_from :: "zlog_level option list \<Rightarrow> int \<Rightarrow> string \<Rightarrow> int" where
  "atoi_from [] i str = -1"
| "atoi_from (x # xs) i str =
     (case x of Some a_level \<Rightarrow> if STRICMP str (str_uppercase a_level) then i else atoi_from xs (i + 1) str
      | None \<Rightarrow> atoi_from xs (i + 1) str)"

definition zlog_level_list_atoi :: "zlog_level zc_arraylist \<Rightarrow> string \<Rightarrow> int" where
  "zlog_level_list_atoi levels str = (if str = [] then -1 else atoi_from (al_items levels) 0 str)"

text \<open>A list as the configuration leaves it: every level sits at its own number, and the array is large enough for all.\<close>

fun levels_at :: "int \<Rightarrow> zlog_level option list \<Rightarrow> bool" where
  "levels_at i [] \<longleftrightarrow> True"
| "levels_at i (x # xs) \<longleftrightarrow> (case x of Some a \<Rightarrow> int_level a = i \<and> str_uppercase a \<noteq> [] | None \<Rightarrow> True) \<and> levels_at (i + 1) xs"

definition levels_ok :: "zlog_level zc_arraylist \<Rightarrow> bool" where
  "levels_ok levels \<longleftrightarrow> al_wf levels \<and> length (al_items levels) = 256 \<and> levels_at 0 (al_items levels)"

lemma levels_at_update:
  "levels_at i xs \<Longrightarrow> int_level a = i + int n \<Longrightarrow> str_uppercase a \<noteq> [] \<Longrightarrow> levels_at i (xs[n := Some a])"
proof (induction xs arbitrary: i n)
  case (Cons x xs)
  then show ?case by (cases n) auto
qed simp

lemma level_new_range:
  "zlog_level_new alloc line = Some a \<Longrightarrow> 0 \<le> int_level a \<and> int_level a \<le> 255 \<and> str_uppercase a \<noteq> []"
  by (auto simp: zlog_level_new_def Let_def split: prod.splits if_splits)

lemma level_list_set_ok:
  assumes ok: "levels_ok levels"
  shows "\<exists>rc levels'. zlog_level_list_set alloc junk levels line = Some (rc, levels') \<and> levels_ok levels'"
proof (cases "zlog_level_new alloc line")
  case None
  then show ?thesis using ok by (simp add: zlog_level_list_set_def)
next
  case (Some a)
  note a = level_new_range [OF Some]
  have wf: "al_wf levels" and len: "length (al_items levels) = 256" using ok by (simp_all add: levels_ok_def)
  have "al_len levels = 256" using wf len al_wfD(1) [OF wf] by simp
  then have "int_level a < al_size levels" using a al_wfD(2) [OF wf] by simp
  then obtain al' where al': "zc_arraylist_set alloc junk levels (int_level a) (Some a) = Some (0, al')" "al_wf al'"
    "al_items al' = stored (al_items levels) (int_level a) (Some a)"
    using set_in_place [OF wf] a by blast
  moreover have "stored (al_items levels) (int_level a) (Some a) = (al_items levels)[nat (int_level a) := Some a]"
    using a len by (simp add: stored_def)
  ultimately have "levels_ok al'" using ok a len by (simp add: levels_ok_def levels_at_update)
  then show ?thesis using Some al' by (simp add: zlog_level_list_set_def)
qed

subsection \<open>The default levels\<close>

lemma set_grow:
  assumes wf: "al_wf al" and i: "al_size al \<le> idx" "idx < al_size al * 2" and small: "al_size al < 2 ^ 30" and mem: "\<And>n. alloc n"
  shows "\<exists>al'. zc_arraylist_set alloc junk al idx x = Some (0, al') \<and> al_wf al' \<and>
    al_items al' = stored (al_items al) idx x \<and> al_size al' = al_size al * 2"
proof -
  have mx: "max (al_size al * 2) idx = al_size al * 2" using i by simp
  obtain al1 where e: "zc_arraylist_expand_inner alloc junk al idx = Some (0, al1)" "al_wf al1"
    "al_items al1 = al_items al" "al_size al1 = al_size al * 2"
    using expand_items [OF wf, of idx alloc junk] i small mem unfolding mx by force
  have "zc_arraylist_set alloc junk al idx x = zc_arraylist_set alloc junk al1 idx x"
    using i e by (simp add: zc_arraylist_set_def)
  moreover have "0 \<le> idx" using al_wfD(3) [OF wf] i by simp
  ultimately show ?thesis using set_in_place [OF e(2), of idx alloc junk x] e i(2) by auto
qed

lemma levels_at_append: "levels_at i (xs @ ys) \<longleftrightarrow> levels_at i xs \<and> levels_at (i + int (length xs)) ys"
  by (induction xs arbitrary: i) (auto simp: algebra_simps)

lemma levels_at_stored:
  assumes "levels_at 0 xs" "0 \<le> int_level a" "str_uppercase a \<noteq> []"
  shows "levels_at 0 (stored xs (int_level a) (Some a))"
proof -
  have none: "levels_at i (replicate n None)" for i n by (induction n arbitrary: i) auto
  show ?thesis using assms by (auto simp: stored_def levels_at_update levels_at_append none of_nat_diff)
qed

text \<open>Room for the levels of some lines, one after the other, from a size and a length on.\<close>

fun room :: "int \<Rightarrow> int \<Rightarrow> int list \<Rightarrow> int option" where
  "room n k [] = Some k"
| "room n k (i # is) = (if 0 \<le> i \<and> i < 2 * n \<and> n < 2 ^ 20 then room (if i < n then n else 2 * n) (max k (i + 1)) is else None)"

lemma length_stored: "0 \<le> i \<Longrightarrow> int (length (stored xs i x)) = max (int (length xs)) (i + 1)"
  by (auto simp: stored_def)

lemma set_lines_ok:
  assumes mem: "\<And>n. alloc n"
  shows "\<lbrakk>al_wf levels; levels_at 0 (al_items levels); list_all (\<lambda>l. zlog_level_new alloc l \<noteq> None) lines;
      room (al_size levels) (int (length (al_items levels))) (map (\<lambda>l. int_level (the (zlog_level_new alloc l))) lines) = Some k\<rbrakk>
   \<Longrightarrow> \<exists>levels'. set_lines alloc junk lines levels = Some (False, levels') \<and> al_wf levels' \<and> levels_at 0 (al_items levels')
      \<and> int (length (al_items levels')) = k"
proof (induction lines arbitrary: levels)
  case (Cons line lines)
  obtain a where a: "zlog_level_new alloc line = Some a" using Cons.prems(3) by auto
  have r: "0 \<le> int_level a" "int_level a < 2 * al_size levels" "al_size levels < 2 ^ 20"
    "room (if int_level a < al_size levels then al_size levels else 2 * al_size levels) (max (int (length (al_items levels))) (int_level a + 1))
       (map (\<lambda>l. int_level (the (zlog_level_new alloc l))) lines) = Some k"
    using Cons.prems(4) a by (simp_all split: if_splits)
  have "\<exists>al'. zc_arraylist_set alloc junk levels (int_level a) (Some a) = Some (0, al') \<and> al_wf al' \<and>
    al_items al' = stored (al_items levels) (int_level a) (Some a) \<and> al_size al' = (if int_level a < al_size levels then al_size levels else 2 * al_size levels)"
  proof (cases "int_level a < al_size levels")
    case True
    then show ?thesis using set_in_place [OF Cons.prems(1) r(1) True, of alloc junk "Some a"] by auto
  next
    case False
    then show ?thesis using set_grow [OF Cons.prems(1), of "int_level a" alloc junk "Some a"] r mem by auto
  qed
  then obtain al' where al': "zc_arraylist_set alloc junk levels (int_level a) (Some a) = Some (0, al')" "al_wf al'"
    "al_items al' = stored (al_items levels) (int_level a) (Some a)"
    "al_size al' = (if int_level a < al_size levels then al_size levels else 2 * al_size levels)" by blast
  have "levels_at 0 (al_items al')" using levels_at_stored [OF Cons.prems(2) r(1)] level_new_range [OF a] al'(3) by simp
  moreover have "int (length (al_items al')) = max (int (length (al_items levels))) (int_level a + 1)"
    using length_stored [OF r(1)] al'(3) by simp
  ultimately have "\<exists>levels'. set_lines alloc junk lines al' = Some (False, levels') \<and> al_wf levels' \<and> levels_at 0 (al_items levels')
      \<and> int (length (al_items levels')) = k"
    using Cons.IH [of al'] Cons.prems(3) r(4) al' by simp
  then show ?case using a al'(1) by (simp add: zlog_level_list_set_def)
qed simp

lemma level_list_new_ok: "\<exists>levels. zlog_level_list_new (\<lambda>_. True) junk = Some (Some levels) \<and> levels_ok levels"
proof -
  obtain al :: "zlog_level zc_arraylist" where new: "zc_arraylist_new (\<lambda>_. True) True = Some al" by (simp add: zc_arraylist_new_def)
  then have al: "al_wf al" "al_items al = []" "al_size al = 32"
    using new_wf [OF new] by (auto simp: zc_arraylist_new_def ARRAY_LIST_DEFAULT_SIZE_def)
  have lv: "map (\<lambda>l. map_option int_level (zlog_level_new (\<lambda>_. True) l)) default_lines = map Some [0, 20, 40, 60, 80, 100, 120, 254, 255]"
    by (simp add: default_lines_def zlog_level_new_def scan_level_def read_number_def name_char_def is_space_def is_digit_def
        syslog_level_atoi_def STRICMP_def lower_def cnum_def MAXLEN_NAME_def Let_def)
  then have "list_all (\<lambda>l. zlog_level_new (\<lambda>_. True) l \<noteq> None) default_lines" by (auto simp: default_lines_def)
  moreover have "map (\<lambda>l. int_level (the (zlog_level_new (\<lambda>_. True) l))) default_lines = [0, 20, 40, 60, 80, 100, 120, 254, 255]"
    using lv by (auto simp: default_lines_def)
  then have "room 32 0 (map (\<lambda>l. int_level (the (zlog_level_new (\<lambda>_. True) l))) default_lines) = Some 256" by simp
  ultimately obtain levels where "set_lines (\<lambda>_. True) junk default_lines al = Some (False, levels)" "al_wf levels"
    "levels_at 0 (al_items levels)" "length (al_items levels) = 256"
    using set_lines_ok [of "\<lambda>_. True" al default_lines 256 junk] al by auto
  then show ?thesis using new by (simp add: zlog_level_list_new_def levels_ok_def)
qed

lemma atoi_from_range: "atoi_from xs i str = -1 \<or> i \<le> atoi_from xs i str \<and> atoi_from xs i str < i + int (length xs)"
  by (induction xs i str rule: atoi_from.induct) (auto split: option.split)

lemma atoi_range:
  assumes "length (al_items levels) \<le> 256"
  shows "-1 \<le> zlog_level_list_atoi levels str" "zlog_level_list_atoi levels str \<le> 255"
  using assms atoi_from_range [of "al_items levels" 0 str] by (auto simp: zlog_level_list_atoi_def)

end
