(* ===== verification/Zlog_Category.thy ===== *)
theory Zlog_Category
  imports Zlog_Level Zc_Hashtable "HOL-Library.Word" "HOL-Library.Signed_Division"
begin

unbundle bit_operations_syntax

section \<open>Rules, categories and the reload of the configuration\<close>

text \<open>
  The part of \<open>src/deps/zlog/src/rule.c\<close> that selects what a rule logs, \<open>category.c\<close>,
  \<open>category_table.c\<close>, and \<open>zlog_reload\<close> of \<open>zlog.c\<close>. A rule does not change once it is made, so a pointer
  to it is the rule; \<open>ru_conf\<close> names the configuration whose memory it lives in, and following the
  pointer after \<open>zlog_conf_del\<close> is \<^const>\<open>None\<close>. What a rule does with a message, \<open>ru_output\<close>, is the part of the
  line behind the selector; here it is only called. Diagnostic output is left out.
\<close>

record zlog_rule =
  ru_category :: string
  ru_compare_char :: char
  ru_level :: int
  ru_level_bitmap :: "8 word list"
  ru_output :: nat
  ru_conf :: nat

record zlog_category =
  ct_name :: string
  ct_level_bitmap :: "8 word list"
  ct_level_bitmap_backup :: "8 word list"
  ct_fit_rules :: "zlog_rule zc_arraylist option"
  ct_fit_rules_backup :: "zlog_rule zc_arraylist option"

subsection \<open>The selector of a rule\<close>

definition isalnum :: "char \<Rightarrow> bool" where
  "isalnum c \<longleftrightarrow> is_digit c \<or> 65 \<le> cnum c \<and> cnum c \<le> 90 \<or> 97 \<le> cnum c \<and> cnum c \<le> 122"

definition category_char :: "char \<Rightarrow> bool" where
  "category_char c \<longleftrightarrow> isalnum c \<or> c = CHR ''_'' \<or> c = CHR ''-'' \<or> c = CHR ''*'' \<or> c = CHR ''!''"

text \<open>The two \<open>sscanf\<close> of the selector: the first word, cut at its first dot.\<close>

definition scan_selector :: "string \<Rightarrow> (string \<times> string) option" where
  "scan_selector line =
     (let selector = takeWhile (\<lambda>c. \<not> is_space c) (dropWhile is_space line);
          category = takeWhile (\<lambda>c. c \<noteq> CHR ''.'') selector; level = drop (length category + 1) selector
      in if selector = [] \<or> category = [] \<or> level = [] then None else Some (category, level))"

definition compare_of :: "string \<Rightarrow> char \<times> string" where
  "compare_of level =
     (if hd level = CHR ''='' then (CHR ''='', tl level)
      else if hd level = CHR ''!'' then (CHR ''!'', tl level)
      else if hd level = CHR ''*'' then (CHR ''*'', level)
      else (CHR ''.'', level))"

definition fill :: "8 word \<Rightarrow> 8 word list" where "fill b = replicate 32 b"

definition update_byte :: "(8 word \<Rightarrow> 8 word) \<Rightarrow> int \<Rightarrow> 8 word list \<Rightarrow> 8 word list option" where
  "update_byte f i bm = do { b \<leftarrow> block_read bm i; block_write bm i [f b] }"

definition bitmap_from :: "int \<Rightarrow> 8 word list option" where
  "bitmap_from level = do {
     bm \<leftarrow> update_byte (\<lambda>b. b OR NOT (push_bit (nat (8 - level smod 8)) 0xFF)) (level sdiv 8) (fill 0);
     block_write bm (level sdiv 8 + 1) (replicate (nat (32 - level sdiv 8 - 1)) 0xFF)
   }"

definition rule_bitmap :: "char \<Rightarrow> int \<Rightarrow> 8 word list option" where
  "rule_bitmap cmp level =
     (if cmp = CHR ''='' then update_byte (\<lambda>b. b OR push_bit (nat (7 - level smod 8)) 1) (level sdiv 8) (fill 0)
      else if cmp = CHR ''!'' then update_byte (\<lambda>b. b AND NOT (push_bit (nat (7 - level smod 8)) 1)) (level sdiv 8) (fill (-1))
      else if cmp = CHR ''*'' then Some (fill (-1))
      else bitmap_from level)"

text \<open>What \<open>zlog_rule_new\<close> makes of the selector; the action is \<open>output\<close>. \<open>Some None\<close>: the line is refused.\<close>

definition zlog_rule_new ::
  "zlog_level zc_arraylist \<Rightarrow> string \<Rightarrow> nat \<Rightarrow> nat \<Rightarrow> zlog_rule option option" where
  "zlog_rule_new levels line output conf =
     (case scan_selector line of
        None \<Rightarrow> Some None
      | Some (category, level) \<Rightarrow>
          if \<not> list_all category_char category then Some None
          else let (cmp, p) = compare_of level; l = zlog_level_list_atoi levels p in do {
            bm \<leftarrow> rule_bitmap cmp l;
            Some (Some \<lparr>ru_category = category, ru_compare_char = cmp, ru_level = l, ru_level_bitmap = bm, ru_output = output, ru_conf = conf\<rparr>)
          })"

definition zlog_rule_output :: "zlog_rule \<Rightarrow> int \<Rightarrow> nat option" where
  "zlog_rule_output r lv =
     (if ru_compare_char r = CHR ''*'' then Some (ru_output r)
      else if ru_compare_char r = CHR ''.'' then (if lv \<ge> ru_level r then Some (ru_output r) else None)
      else if ru_compare_char r = CHR ''='' then (if lv = ru_level r then Some (ru_output r) else None)
      else if ru_compare_char r = CHR ''!'' then (if lv \<noteq> ru_level r then Some (ru_output r) else None)
      else None)"

definition zlog_rule_is_wastebin :: "zlog_rule \<Rightarrow> bool" where
  "zlog_rule_is_wastebin r \<longleftrightarrow> ru_category r = ''!''"

definition zlog_rule_match_category :: "zlog_rule \<Rightarrow> string \<Rightarrow> bool option" where
  "zlog_rule_match_category r name =
     (if ru_category r = ''*'' then Some True
      else if ru_category r = name then Some True
      else do {
        c \<leftarrow> block_read (ru_category r) (int (length (ru_category r)) - 1);
        if c = CHR ''_'' then
          let len = length (ru_category r); len = (if length name = len - 1 then len - 1 else len)
          in Some (take len (ru_category r) = take len name)
        else Some False
      })"

subsection \<open>A category\<close>

definition zlog_category_overlap_bitmap :: "zlog_category \<Rightarrow> zlog_rule \<Rightarrow> zlog_category" where
  "zlog_category_overlap_bitmap c r = c\<lparr>ct_level_bitmap := map2 (\<lambda>a b. a OR b) (ct_level_bitmap c) (ru_level_bitmap r)\<rparr>"

text \<open>Adding a rule to the fitting ones; the flag says that memory ran out.\<close>

definition fit_rule :: "alloc \<Rightarrow> zlog_rule \<Rightarrow> zlog_category \<Rightarrow> (bool \<times> zlog_category) option" where
  "fit_rule alloc r c = do {
     al \<leftarrow> ct_fit_rules c;
     (rc, al) \<leftarrow> zc_arraylist_add alloc (\<lambda>_. None) al (Some r);
     let c = c\<lparr>ct_fit_rules := Some al\<rparr>;
     Some (if rc \<noteq> 0 then (True, c) else (False, zlog_category_overlap_bitmap c r))
   }"

fun match_rules ::
  "alloc \<Rightarrow> zlog_rule list \<Rightarrow> nat \<Rightarrow> zlog_rule option \<Rightarrow> zlog_category \<Rightarrow> (bool \<times> nat \<times> zlog_rule option \<times> zlog_category) option" where
  "match_rules alloc [] n wastebin c = Some (False, n, wastebin, c)"
| "match_rules alloc (r # rs) n wastebin c = do {
     fit \<leftarrow> zlog_rule_match_category r (ct_name c);
     (failed, c) \<leftarrow> (if fit then fit_rule alloc r c else Some (False, c));
     if failed then Some (True, n, wastebin, c)
     else match_rules alloc rs (if fit then n + 1 else n) (if zlog_rule_is_wastebin r then Some r else wastebin) c
   }"

definition zlog_category_obtain_rules :: "alloc \<Rightarrow> zlog_rule list \<Rightarrow> zlog_category \<Rightarrow> (int \<times> zlog_category) option" where
  "zlog_category_obtain_rules alloc rules c =
     (let c = c\<lparr>ct_level_bitmap := fill 0, ct_fit_rules := zc_arraylist_new alloc False\<rparr> in
      if ct_fit_rules c = None then Some (-1, c)
      else do {
        (failed, n, wastebin, c) \<leftarrow> match_rules alloc rules 0 None c;
        (failed, c) \<leftarrow> (if \<not> failed \<and> n = 0 then
             case wastebin of Some r \<Rightarrow> fit_rule alloc r c | None \<Rightarrow> Some (False, c)
           else Some (failed, c));
        Some (if failed then (-1, c\<lparr>ct_fit_rules := None\<rparr>) else (0, c))
      })"

definition zlog_category_new :: "alloc \<Rightarrow> string \<Rightarrow> zlog_rule list \<Rightarrow> zlog_category option option" where
  "zlog_category_new alloc name rules =
     (if length name > MAXLEN_NAME then Some None
      else if \<not> alloc 1120 then Some None
      else do {
        (rc, c) \<leftarrow> zlog_category_obtain_rules alloc rules \<lparr>ct_name = name, ct_level_bitmap = fill 0,
          ct_level_bitmap_backup = fill 0, ct_fit_rules = None, ct_fit_rules_backup = None\<rparr>;
        Some (if rc \<noteq> 0 then None else Some c)
      })"

definition zlog_category_update_rules :: "alloc \<Rightarrow> zlog_rule list \<Rightarrow> zlog_category \<Rightarrow> (int \<times> zlog_category) option" where
  "zlog_category_update_rules alloc rules c = do {
     let c = c\<lparr>ct_fit_rules_backup := ct_fit_rules c, ct_fit_rules := None, ct_level_bitmap_backup := ct_level_bitmap c\<rparr>;
     (rc, c) \<leftarrow> zlog_category_obtain_rules alloc rules c;
     Some (if rc \<noteq> 0 then (-1, c\<lparr>ct_fit_rules := None\<rparr>) else (0, c))
   }"

definition zlog_category_commit_rules :: "zlog_category \<Rightarrow> zlog_category" where
  "zlog_category_commit_rules c =
     (if ct_fit_rules_backup c = None then c
      else c\<lparr>ct_fit_rules_backup := None, ct_level_bitmap_backup := fill 0\<rparr>)"

definition zlog_category_rollback_rules :: "zlog_category \<Rightarrow> zlog_category" where
  "zlog_category_rollback_rules c =
     (if ct_fit_rules_backup c = None then c
      else c\<lparr>ct_fit_rules := ct_fit_rules_backup c, ct_fit_rules_backup := None,
             ct_level_bitmap := ct_level_bitmap_backup c, ct_level_bitmap_backup := fill 0\<rparr>)"

text \<open>The bit test of the macro: \<open>True\<close> if the level needs no output. A level outside the bitmap is \<^const>\<open>None\<close>.\<close>

definition zlog_category_needless_level :: "zlog_category \<Rightarrow> int \<Rightarrow> bool option" where
  "zlog_category_needless_level c lv = do {
     b \<leftarrow> block_read (ct_level_bitmap c) (lv sdiv 8);
     Some (drop_bit (nat (7 - lv smod 8)) b AND 1 = 0)
   }"

definition zlog_level_switch :: "int \<Rightarrow> zlog_category \<Rightarrow> zlog_category option" where
  "zlog_level_switch level c = do { bm \<leftarrow> bitmap_from level; Some (c\<lparr>ct_level_bitmap := bm\<rparr>) }"

text \<open>\<open>zlog_category_output\<close>: the outputs it calls, in order; \<open>alive\<close> says whose memory has not been freed.\<close>

definition zlog_category_output :: "(nat \<Rightarrow> bool) \<Rightarrow> zlog_category \<Rightarrow> int \<Rightarrow> nat list option" where
  "zlog_category_output alive c lv = do {
     al \<leftarrow> ct_fit_rules c;
     let rules = List.map_filter id (al_items al);
     if list_all (\<lambda>r. alive (ru_conf r)) rules then Some (List.map_filter (\<lambda>r. zlog_rule_output r lv) rules) else None
   }"

subsection \<open>The bitmap of a rule\<close>

definition bit_at :: "8 word list \<Rightarrow> int \<Rightarrow> bool" where
  "bit_at bm lv \<longleftrightarrow> drop_bit (nat (7 - lv mod 8)) (bm ! nat (lv div 8)) AND 1 \<noteq> 0"

lemma sdiv_nonneg: "0 \<le> l \<Longrightarrow> l sdiv 8 = l div 8" "0 \<le> l \<Longrightarrow> l smod 8 = l mod 8" for l :: int
  by (cases "l = 0"; simp add: signed_divide_int_def signed_modulo_int_def)+

lemma needless_bit: "length (ct_level_bitmap c) = 32 \<Longrightarrow> 0 \<le> lv \<Longrightarrow> lv \<le> 255
    \<Longrightarrow> zlog_category_needless_level c lv = Some (\<not> bit_at (ct_level_bitmap c) lv)"
  by (simp add: zlog_category_needless_level_def bit_at_def block_read_def sdiv_nonneg) presburger

text \<open>The three kinds of bytes, on all positions.\<close>

lemma byte_bits:
  assumes "r < 8"
  shows "drop_bit (7 - r) (0xFF :: 8 word) AND 1 \<noteq> 0" "drop_bit (7 - r) (0 :: 8 word) AND 1 = 0"
    "k < 9 \<Longrightarrow> drop_bit (7 - r) (NOT (push_bit (9 - k) (0xFF :: 8 word))) AND 1 \<noteq> 0 \<longleftrightarrow> k \<le> r + 1"
    "k < 9 \<Longrightarrow> drop_bit (7 - r) (push_bit (8 - k) (1 :: 8 word)) AND 1 \<noteq> 0 \<longleftrightarrow> k = r + 1"
    "k < 9 \<Longrightarrow> drop_bit (7 - r) (NOT (push_bit (8 - k) (1 :: 8 word))) AND 1 \<noteq> 0 \<longleftrightarrow> k \<noteq> r + 1"
proof -
  have all: "\<forall>r\<in>set [0..<8]. drop_bit (7 - r) (0xFF :: 8 word) AND 1 \<noteq> 0 \<and> drop_bit (7 - r) (0 :: 8 word) AND 1 = 0 \<and>
     (\<forall>k\<in>set [0..<9]. (drop_bit (7 - r) (NOT (push_bit (9 - k) (0xFF :: 8 word))) AND 1 \<noteq> 0 \<longleftrightarrow> k \<le> r + 1) \<and>
       (drop_bit (7 - r) (push_bit (8 - k) (1 :: 8 word)) AND 1 \<noteq> 0 \<longleftrightarrow> k = r + 1) \<and>
       (drop_bit (7 - r) (NOT (push_bit (8 - k) (1 :: 8 word))) AND 1 \<noteq> 0 \<longleftrightarrow> k \<noteq> r + 1))"
    by code_simp
  have r: "r \<in> set [0..<8]" and k: "k < 9 \<Longrightarrow> k \<in> set [0..<9]" using assms by simp_all
  note b = bspec [OF all r]
  show "drop_bit (7 - r) (0xFF :: 8 word) AND 1 \<noteq> 0" "drop_bit (7 - r) (0 :: 8 word) AND 1 = 0" using b by blast+
  show "drop_bit (7 - r) (NOT (push_bit (9 - k) (0xFF :: 8 word))) AND 1 \<noteq> 0 \<longleftrightarrow> k \<le> r + 1"
    "drop_bit (7 - r) (push_bit (8 - k) (1 :: 8 word)) AND 1 \<noteq> 0 \<longleftrightarrow> k = r + 1"
    "drop_bit (7 - r) (NOT (push_bit (8 - k) (1 :: 8 word))) AND 1 \<noteq> 0 \<longleftrightarrow> k \<noteq> r + 1" if "k < 9"
    using b k [OF that] by blast+
qed

text \<open>The byte and the bit of a level, -1 (an unknown name) included.\<close>

lemma level_split:
  fixes level :: int
  assumes "-1 \<le> level" "level \<le> 255"
  obtains i k where "level = 8 * int i + int k - 1" "i < 32" "k < 9" "k = 0 \<longrightarrow> i = 0" "level sdiv 8 = int i"
    "nat (8 - level smod 8) = 9 - k" "nat (7 - level smod 8) = 8 - k"
proof (cases "level = -1")
  case True
  then have "level sdiv 8 = 0" "level smod 8 = -1" by (simp_all add: signed_divide_int_def signed_modulo_int_def)
  then show ?thesis using True that [of 0 0] by simp
next
  case False
  then have l: "0 \<le> level" using assms(1) by simp
  define i k where "i = nat (level div 8)" and "k = nat (level mod 8)"
  have ik: "level div 8 = int i" "level mod 8 = int k" "i < 32" "k < 8"
    using l assms(2) by (simp_all add: i_def k_def)
  moreover have "level = 8 * int i + int k" using ik mult_div_mod_eq [of 8 level] by simp
  ultimately show ?thesis using that [of i "k + 1"] sdiv_nonneg [OF l] by simp
qed

lemma bit_at_split: "r < 8 \<Longrightarrow> bit_at bm (8 * int i + int r) \<longleftrightarrow> drop_bit (7 - r) (bm ! i) AND 1 \<noteq> 0"
  by (simp add: bit_at_def nat_diff_distrib)

lemma update_byte_ok: "i < 32 \<Longrightarrow> update_byte f (int i) (fill b) = Some ((fill b)[i := f b])"
  by (simp add: update_byte_def block_read_def fill_def block_write_single)

lemma bitmap_from_ok:
  assumes "i < 32" "level sdiv 8 = int i"
  shows "bitmap_from level = Some (replicate i 0 @ [NOT (push_bit (nat (8 - level smod 8)) 0xFF)] @ replicate (31 - i) 0xFF)"
proof -
  have n: "int i + 1 = int (Suc i)" "nat (32 - int i - 1) = 31 - i" "nat (1 + int i) = Suc i" using assms(1) by simp_all
  show ?thesis using assms(1) unfolding bitmap_from_def assms(2) update_byte_ok [OF assms(1)] n(1,2)
    by (simp add: n(3) block_write_def fill_def min_def upd_conv_take_nth_drop)
qed

lemma rule_bitmap_exact:
  assumes level: "-1 \<le> level" "level \<le> 255" and lv: "0 \<le> lv" "lv \<le> 255"
    and r: "rule_bitmap (ru_compare_char r) level = Some bm" "ru_level r = level" "ru_compare_char r \<in> {CHR ''='', CHR ''!'', CHR ''*'', CHR ''.''}"
  shows "bit_at bm lv \<longleftrightarrow> zlog_rule_output r lv \<noteq> None" "length bm = 32"
proof -
  obtain i k where l: "level = 8 * int i + int k - 1" "i < 32" "k < 9" "k = 0 \<longrightarrow> i = 0" "level sdiv 8 = int i"
    "nat (8 - level smod 8) = 9 - k" "nat (7 - level smod 8) = 8 - k"
    by (rule level_split [OF level])
  define j p where "j = nat (lv div 8)" and "p = nat (lv mod 8)"
  have "lv div 8 = int j" "lv mod 8 = int p" and jp0: "j < 32" "p < 8" using lv by (simp_all add: j_def p_def)
  then have jp: "lv = 8 * int j + int p" "j < 32" "p < 8" using mult_div_mod_eq [of 8 lv] by simp_all
  note byte = byte_bits [OF jp(3)] byte_bits(3-5) [OF jp(3) l(3)]
  have ge: "level \<le> lv \<longleftrightarrow> i < j \<or> i = j \<and> k \<le> p + 1" and eq: "lv = level \<longleftrightarrow> i = j \<and> k = p + 1"
  proof -
    consider "i < j" | "i = j" | "j < i" by linarith
    then have "(level \<le> lv \<longleftrightarrow> i < j \<or> i = j \<and> k \<le> p + 1) \<and> (lv = level \<longleftrightarrow> i = j \<and> k = p + 1)"
    proof cases
      case 1
      then have "level < lv" using l(1,3) jp(1) by linarith
      then show ?thesis using 1 by simp
    next
      case 2
      then show ?thesis using l(1) jp(1) by auto
    next
      case 3
      then have "k \<noteq> 0" using l(4) by auto
      then have "lv < level" using 3 l(1) jp(1,3) by linarith
      then show ?thesis using 3 by simp
    qed
    then show "level \<le> lv \<longleftrightarrow> i < j \<or> i = j \<and> k \<le> p + 1" "lv = level \<longleftrightarrow> i = j \<and> k = p + 1" by blast+
  qed
  have at: "bit_at bm lv \<longleftrightarrow> drop_bit (7 - p) (bm ! j) AND 1 \<noteq> 0" unfolding jp(1) by (rule bit_at_split [OF jp(3)])
  have "(bit_at bm lv \<longleftrightarrow> zlog_rule_output r lv \<noteq> None) \<and> length bm = 32"
  proof (cases "ru_compare_char r = CHR ''.''")
    case True
    then have bm: "bm = replicate i 0 @ [NOT (push_bit (9 - k) 0xFF)] @ replicate (31 - i) 0xFF"
      using r(1) bitmap_from_ok [OF l(2,5)] by (simp add: rule_bitmap_def l(6))
    have nth: "bm ! j = (if j < i then 0 else if j = i then NOT (push_bit (9 - k) 0xFF) else 0xFF)"
      using jp(2) l(2) by (auto simp: bm nth_append nth_Cons split: nat.split)
    have len: "length bm = 32" using l(2) by (simp add: bm)
    have "drop_bit (7 - p) (bm ! j) AND 1 \<noteq> 0 \<longleftrightarrow> i < j \<or> i = j \<and> k \<le> p + 1"
      using byte(1,2,3) l(3) by (simp add: nth)
    then show ?thesis using True r(2) ge len by (simp add: at zlog_rule_output_def)
  next
    case False
    then consider (Eq) "ru_compare_char r = CHR ''=''" | (Ne) "ru_compare_char r = CHR ''!''" | (All) "ru_compare_char r = CHR ''*''"
      using r(3) by auto
    then show ?thesis
    proof cases
      case Eq
      then have bm: "bm = (fill 0)[i := 0 OR push_bit (8 - k) 1]" using r(1) l(2) by (simp add: rule_bitmap_def l(5,7) update_byte_ok)
      have len: "length bm = 32" and nth: "bm ! j = (if j = i then push_bit (8 - k) 1 else 0)"
        using jp(2) l(2) by (simp_all add: bm fill_def nth_list_update)
      have "drop_bit (7 - p) (bm ! j) AND 1 \<noteq> 0 \<longleftrightarrow> i = j \<and> k = p + 1" using byte(2,4) l(3) by (auto simp: nth)
      then show ?thesis using Eq r(2) eq len by (simp add: at zlog_rule_output_def)
    next
      case Ne
      then have bm: "bm = (fill (-1))[i := (-1) AND NOT (push_bit (8 - k) 1)]" using r(1) l(2) by (simp add: rule_bitmap_def l(5,7) update_byte_ok)
      have len: "length bm = 32" and nth: "bm ! j = (if j = i then NOT (push_bit (8 - k) 1) else 0xFF)"
        using jp(2) l(2) by (simp_all add: bm fill_def nth_list_update)
      have "drop_bit (7 - p) (bm ! j) AND 1 \<noteq> 0 \<longleftrightarrow> \<not> (i = j \<and> k = p + 1)" using byte(1,5) l(3) by (auto simp: nth)
      then show ?thesis using Ne r(2) eq len by (simp add: at zlog_rule_output_def)
    next
      case All
      then have "bm ! j = 0xFF" "length bm = 32" using r(1) jp(2) by (auto simp: rule_bitmap_def fill_def)
      then show ?thesis using All byte(1) by (simp add: at zlog_rule_output_def)
    qed
  qed
  then show "bit_at bm lv \<longleftrightarrow> zlog_rule_output r lv \<noteq> None" "length bm = 32" by simp_all
qed

text \<open>A rule the configuration can make.\<close>

definition rule_ok :: "zlog_rule \<Rightarrow> bool" where
  "rule_ok r \<longleftrightarrow> length (ru_level_bitmap r) = 32 \<and> ru_category r \<noteq> []
     \<and> (\<forall>lv. 0 \<le> lv \<and> lv \<le> 255 \<longrightarrow> bit_at (ru_level_bitmap r) lv = (zlog_rule_output r lv \<noteq> None))"

lemma rule_new_ok:
  assumes "length (al_items levels) \<le> 256"
  shows "\<exists>r. zlog_rule_new levels line out conf = Some r \<and> (\<forall>r'. r = Some r' \<longrightarrow> rule_ok r' \<and> ru_output r' = out \<and> ru_conf r' = conf)"
proof (cases "scan_selector line")
  case None
  then show ?thesis by (simp add: zlog_rule_new_def)
next
  case (Some cl)
  obtain category level where cl: "cl = (category, level)" by (cases cl)
  obtain cmp q where cmp: "compare_of level = (cmp, q)" by (cases "compare_of level")
  define l where "l = zlog_level_list_atoi levels q"
  have l: "-1 \<le> l" "l \<le> 255" using atoi_range [OF assms] by (simp_all add: l_def)
  obtain i k where s: "i < 32" "l sdiv 8 = int i" by (rule level_split [OF l])
  have c: "cmp \<in> {CHR ''='', CHR ''!'', CHR ''*'', CHR ''.''}" using cmp by (auto simp: compare_of_def split: if_splits)
  have "rule_bitmap cmp l \<noteq> None" using s(1) by (simp add: rule_bitmap_def s(2) update_byte_ok bitmap_from_ok [OF s])
  then obtain bm where bm: "rule_bitmap cmp l = Some bm" by blast
  let ?r = "\<lparr>ru_category = category, ru_compare_char = cmp, ru_level = l, ru_level_bitmap = bm, ru_output = out, ru_conf = conf\<rparr>"
  have "category \<noteq> []" using Some cl by (auto simp: scan_selector_def Let_def split: if_splits)
  moreover have b: "(bit_at bm lv \<longleftrightarrow> zlog_rule_output ?r lv \<noteq> None) \<and> length bm = 32" if "0 \<le> lv" "lv \<le> 255" for lv
    using rule_bitmap_exact [OF l that, of ?r bm] bm c by simp
  then have "length bm = 32" using b [of 0] by simp
  ultimately have "rule_ok ?r" using b by (simp only: rule_ok_def zlog_rule.simps) blast
  then show ?thesis using Some cl cmp bm by (simp add: zlog_rule_new_def flip: l_def)
qed

subsection \<open>Which rules fit a category\<close>

definition selects :: "string \<Rightarrow> string \<Rightarrow> bool" where
  "selects cat name \<longleftrightarrow> cat = ''*'' \<or> cat = name \<or> (\<exists>p. cat = p @ ''_'' \<and> (name = p \<or> (\<exists>q. name = p @ ''_'' @ q)))"

lemma match_selects:
  assumes "ru_category r \<noteq> []"
  shows "zlog_rule_match_category r name = Some (selects (ru_category r) name)"
proof -
  obtain p c where cat: "ru_category r = p @ [c]" using assms by (metis append_butlast_last_id)
  have c: "block_read (ru_category r) (int (length (ru_category r)) - 1) = Some c"
    by (simp add: cat block_read_def nth_append)
  have pre: "take (length p + 1) (p @ [c]) = take (length p + 1) name \<longleftrightarrow> (\<exists>q. name = p @ [c] @ q)"
  proof
    assume "take (length p + 1) (p @ [c]) = take (length p + 1) name"
    then have "name = (p @ [c]) @ drop (length p + 1) name" using append_take_drop_id [of "length p + 1" name] by simp
    then show "\<exists>q. name = p @ [c] @ q" by auto
  qed auto
  show ?thesis
  proof (cases "c = CHR ''_'' \<and> ru_category r \<noteq> ''*'' \<and> ru_category r \<noteq> name")
    case True
    define n where "n = (if length name = length p then length p else length p + 1)"
    have "zlog_rule_match_category r name = Some (take n (p @ [c]) = take n name)"
      using True c by (auto simp: zlog_rule_match_category_def cat n_def)
    moreover have "take n (p @ [c]) = take n name \<longleftrightarrow> name = p \<or> (\<exists>q. name = p @ [c] @ q)"
      using pre by (auto simp: n_def)
    ultimately show ?thesis using True by (auto simp: selects_def cat)
  next
    case False
    then show ?thesis using c by (auto simp: zlog_rule_match_category_def selects_def cat)
  qed
qed

subsection \<open>The rules of a category\<close>

definition holds_rules :: "zlog_category \<Rightarrow> zlog_rule list \<Rightarrow> bool" where
  "holds_rules c rs \<longleftrightarrow> (\<exists>al. ct_fit_rules c = Some al \<and> al_wf al \<and> al_items al = map Some rs) \<and> length (ct_level_bitmap c) = 32
     \<and> (\<forall>lv. 0 \<le> lv \<and> lv \<le> 255 \<longrightarrow> bit_at (ct_level_bitmap c) lv = (\<exists>r\<in>set rs. zlog_rule_output r lv \<noteq> None))"

definition same_but_fit :: "zlog_category \<Rightarrow> zlog_category \<Rightarrow> bool" where
  "same_but_fit c c' \<longleftrightarrow> ct_name c' = ct_name c \<and> ct_level_bitmap_backup c' = ct_level_bitmap_backup c
     \<and> ct_fit_rules_backup c' = ct_fit_rules_backup c"

lemma same_but_fit_trans: "same_but_fit a b \<Longrightarrow> same_but_fit b c \<Longrightarrow> same_but_fit a c"
  by (simp add: same_but_fit_def)

lemma bit_at_or:
  assumes "length a = 32" "length b = 32" "0 \<le> lv" "lv \<le> 255"
  shows "bit_at (map2 (\<lambda>a b. a OR b) a b) lv \<longleftrightarrow> bit_at a lv \<or> bit_at b lv"
proof -
  have "nat (lv div 8) < 32" using assms(3,4) by simp
  then have "map2 (\<lambda>a b. a OR b) a b ! nat (lv div 8) = a ! nat (lv div 8) OR b ! nat (lv div 8)" using assms by simp
  then show ?thesis by (simp add: bit_at_def bit.conj_disj_distrib2 or_eq_0_iff)
qed

lemma add_cases:
  assumes wf: "al_wf al" and small: "length (al_items al) < 2 ^ 29"
  shows "zc_arraylist_add alloc junk al x = Some (-1, al) \<or>
    (\<exists>al'. zc_arraylist_add alloc junk al x = Some (0, al') \<and> al_wf al' \<and> al_items al' = al_items al @ [x])"
proof -
  have len: "al_len al < 2 ^ 29" using wf small al_wfD(1,2) [OF wf] by simp
  consider "al_len al < al_size al" | "al_len al = al_size al" "alloc (pointers (al_size al * 2))"
    | "al_len al = al_size al" "\<not> alloc (pointers (al_size al * 2))"
    using al_wfD(2) [OF wf] by linarith
  then show ?thesis
  proof cases
    case 3
    have "max (i32 (al_size al * 2)) (al_len al) = al_size al * 2" using 3 len al_wfD(3) [OF wf] by (simp add: i32_id)
    then show ?thesis using 3 by (simp add: zc_arraylist_add_def zc_arraylist_set_def zc_arraylist_expand_inner_def)
  next
    case 1
    then show ?thesis using add_spec [OF wf, of alloc junk x] by blast
  next
    case 2
    then have "al_size al < 2 ^ 30" using len by simp
    then show ?thesis using 2 add_spec [OF wf, of alloc junk x] by blast
  qed
qed

lemma fit_rule_ok:
  assumes c: "holds_rules c rs" and r: "rule_ok r" and small: "length rs < 2 ^ 29"
  shows "\<exists>failed c'. fit_rule alloc r c = Some (failed, c') \<and> same_but_fit c c' \<and> (\<not> failed \<longrightarrow> holds_rules c' (rs @ [r]))"
proof -
  obtain al where al: "ct_fit_rules c = Some al" "al_wf al" "al_items al = map Some rs" using c by (auto simp: holds_rules_def)
  consider "zc_arraylist_add alloc (\<lambda>_. None) al (Some r) = Some (-1, al)"
    | al' where "zc_arraylist_add alloc (\<lambda>_. None) al (Some r) = Some (0, al')" "al_wf al'" "al_items al' = al_items al @ [Some r]"
    using add_cases [OF al(2), of alloc "\<lambda>_. None" "Some r"] al(3) small by auto
  then show ?thesis
  proof cases
    case 1
    then show ?thesis using al(1) by (intro exI [of _ True]) (simp add: fit_rule_def same_but_fit_def)
  next
    case 2
    have "holds_rules (zlog_category_overlap_bitmap (c\<lparr>ct_fit_rules := Some al'\<rparr>) r) (rs @ [r])"
      using c r 2 al(3) by (auto simp: holds_rules_def zlog_category_overlap_bitmap_def rule_ok_def bit_at_or)
    then show ?thesis using 2 al(1) by (intro exI [of _ False]) (simp add: fit_rule_def same_but_fit_def zlog_category_overlap_bitmap_def)
  qed
qed

text \<open>The rules that fit, and the last wastebin rule.\<close>

definition matching :: "string \<Rightarrow> zlog_rule list \<Rightarrow> zlog_rule list" where
  "matching name rules = filter (\<lambda>r. selects (ru_category r) name) rules"

definition fitting :: "string \<Rightarrow> zlog_rule list \<Rightarrow> zlog_rule list" where
  "fitting name rules =
     (if matching name rules \<noteq> [] then matching name rules
      else let bins = filter zlog_rule_is_wastebin rules in if bins = [] then [] else [last bins])"

lemma match_rules_ok:
  "\<lbrakk>holds_rules c rs; \<forall>r\<in>set rules. rule_ok r; length rs + length rules < 2 ^ 29\<rbrakk>
   \<Longrightarrow> \<exists>failed n' w' c'. match_rules alloc rules n w c = Some (failed, n', w', c') \<and> same_but_fit c c' \<and>
     (\<not> failed \<longrightarrow> holds_rules c' (rs @ matching (ct_name c) rules) \<and> n' = n + length (matching (ct_name c) rules)
        \<and> w' = (let bins = filter zlog_rule_is_wastebin rules in if bins = [] then w else Some (last bins)))"
proof (induction rules arbitrary: rs n w c)
  case Nil
  then show ?case by (intro exI [of _ False]) (simp add: matching_def same_but_fit_def)
next
  case (Cons r rules)
  have r: "rule_ok r" using Cons.prems(2) by simp
  have m: "zlog_rule_match_category r (ct_name c) = Some (selects (ru_category r) (ct_name c))"
    using r by (intro match_selects) (simp add: rule_ok_def)
  let ?w = "if zlog_rule_is_wastebin r then Some r else w"
  have last: "(let bins = filter zlog_rule_is_wastebin rules in if bins = [] then ?w else Some (last bins))
    = (let bins = filter zlog_rule_is_wastebin (r # rules) in if bins = [] then w else Some (last bins))"
    by (simp add: Let_def)
  show ?case
  proof (cases "selects (ru_category r) (ct_name c)")
    case False
    have "\<exists>failed n' w' c'. match_rules alloc rules n ?w c = Some (failed, n', w', c') \<and> same_but_fit c c' \<and>
     (\<not> failed \<longrightarrow> holds_rules c' (rs @ matching (ct_name c) rules) \<and> n' = n + length (matching (ct_name c) rules)
        \<and> w' = (let bins = filter zlog_rule_is_wastebin rules in if bins = [] then ?w else Some (last bins)))"
      by (rule Cons.IH) (use Cons.prems in simp_all)
    then show ?thesis using m False last by (simp add: matching_def)
  next
    case True
    obtain failed c1 where f: "fit_rule alloc r c = Some (failed, c1)" "same_but_fit c c1" "\<not> failed \<Longrightarrow> holds_rules c1 (rs @ [r])"
      using fit_rule_ok [OF Cons.prems(1) r, of alloc] Cons.prems(3) by auto
    show ?thesis
    proof (cases failed)
      case True
      then show ?thesis using m \<open>selects _ _\<close> f by (intro exI [of _ True]) simp
    next
      case False
      have "\<exists>failed n' w' c'. match_rules alloc rules (n + 1) ?w c1 = Some (failed, n', w', c') \<and> same_but_fit c1 c' \<and>
       (\<not> failed \<longrightarrow> holds_rules c' ((rs @ [r]) @ matching (ct_name c1) rules) \<and> n' = n + 1 + length (matching (ct_name c1) rules)
          \<and> w' = (let bins = filter zlog_rule_is_wastebin rules in if bins = [] then ?w else Some (last bins)))"
        by (rule Cons.IH) (use Cons.prems f(3) False in simp_all)
      moreover have "ct_name c1 = ct_name c" using f(2) by (simp add: same_but_fit_def)
      ultimately show ?thesis using m True False f(1) last same_but_fit_trans [OF f(2)]
        by (auto simp: matching_def)
    qed
  qed
qed

lemma obtain_rules_ok:
  assumes rules: "\<forall>r\<in>set rules. rule_ok r" and small: "length rules < 2 ^ 28"
  shows "\<exists>rc c'. zlog_category_obtain_rules alloc rules c = Some (rc, c') \<and> same_but_fit c c' \<and>
    (rc = 0 \<and> holds_rules c' (fitting (ct_name c) rules) \<or> rc = -1 \<and> ct_fit_rules c' = None)"
proof -
  let ?c = "c\<lparr>ct_level_bitmap := fill 0, ct_fit_rules := zc_arraylist_new alloc False\<rparr>"
  show ?thesis
  proof (cases "zc_arraylist_new alloc False :: zlog_rule zc_arraylist option")
    case None
    then show ?thesis by (simp add: zlog_category_obtain_rules_def same_but_fit_def)
  next
    case (Some al)
    have "\<not> bit_at (fill 0) lv" if "0 \<le> lv" "lv \<le> 255" for lv
    proof -
      have "nat (lv div 8) < 32" using that by simp
      then show ?thesis by (simp add: bit_at_def fill_def)
    qed
    then have c: "holds_rules ?c []" using new_wf [OF Some] Some by (simp add: holds_rules_def) (simp add: fill_def)
    obtain failed n w c1 where m: "match_rules alloc rules 0 None ?c = Some (failed, n, w, c1)" "same_but_fit ?c c1"
      "\<not> failed \<Longrightarrow> holds_rules c1 (matching (ct_name c) rules) \<and> n = length (matching (ct_name c) rules)
        \<and> w = (let bins = filter zlog_rule_is_wastebin rules in if bins = [] then None else Some (last bins))"
      using match_rules_ok [OF c rules, of alloc 0 None] small by auto
    have same: "same_but_fit c c1" using m(2) by (simp add: same_but_fit_def)
    consider "failed" | "\<not> failed" "n \<noteq> 0 \<or> w = None" | r where "\<not> failed" "n = 0" "w = Some r" by (cases w) auto
    then show ?thesis
    proof cases
      case 1
      then show ?thesis using Some m(1) same by (simp add: zlog_category_obtain_rules_def same_but_fit_def)
    next
      case 2
      then have "holds_rules c1 (fitting (ct_name c) rules)" using m(3) by (auto simp: fitting_def Let_def split: if_splits)
      then show ?thesis using 2 Some m(1) same by (cases "n = 0") (auto simp: zlog_category_obtain_rules_def)
    next
      case 3
      then have r: "fitting (ct_name c) rules = [r]" "r \<in> set rules" "holds_rules c1 []"
        using m(3) last_in_set [of "filter zlog_rule_is_wastebin rules"] by (auto simp: fitting_def Let_def split: if_splits)
      then obtain failed' c2 where f: "fit_rule alloc r c1 = Some (failed', c2)" "same_but_fit c1 c2" "\<not> failed' \<longrightarrow> holds_rules c2 [r]"
        using fit_rule_ok [OF r(3), of r alloc] rules by auto
      have "same_but_fit c c2" by (rule same_but_fit_trans [OF same f(2)])
      then show ?thesis using 3 Some m(1) f r(1) by (auto simp: zlog_category_obtain_rules_def same_but_fit_def)
    qed
  qed
qed

text \<open>The invariant of a category between two reloads.\<close>

definition settled :: "zlog_rule list \<Rightarrow> zlog_category \<Rightarrow> bool" where
  "settled rules c \<longleftrightarrow> holds_rules c (fitting (ct_name c) rules) \<and> ct_fit_rules_backup c = None \<and> ct_level_bitmap_backup c = fill 0"

lemma category_new_ok:
  assumes "\<forall>r\<in>set rules. rule_ok r" "length rules < 2 ^ 28"
  shows "\<exists>c. zlog_category_new alloc name rules = Some c \<and> (\<forall>c'. c = Some c' \<longrightarrow> settled rules c' \<and> ct_name c' = name)"
proof (cases "length name > MAXLEN_NAME \<or> \<not> alloc 1120")
  case True
  then show ?thesis by (auto simp: zlog_category_new_def)
next
  case False
  let ?c = "\<lparr>ct_name = name, ct_level_bitmap = fill 0, ct_level_bitmap_backup = fill 0, ct_fit_rules = None, ct_fit_rules_backup = None\<rparr>"
  show ?thesis
    using obtain_rules_ok [OF assms, of alloc ?c] False
    by (auto simp: zlog_category_new_def settled_def same_but_fit_def)
qed

lemma update_rules_ok:
  assumes "\<forall>r\<in>set rules. rule_ok r" "length rules < 2 ^ 28"
  shows "\<exists>rc c'. zlog_category_update_rules alloc rules c = Some (rc, c') \<and> ct_name c' = ct_name c
    \<and> ct_fit_rules_backup c' = ct_fit_rules c \<and> ct_level_bitmap_backup c' = ct_level_bitmap c
    \<and> (rc = 0 \<and> holds_rules c' (fitting (ct_name c) rules) \<or> rc = -1 \<and> ct_fit_rules c' = None)"
  using obtain_rules_ok [OF assms(1,2), of alloc "c\<lparr>ct_fit_rules_backup := ct_fit_rules c, ct_fit_rules := None, ct_level_bitmap_backup := ct_level_bitmap c\<rparr>"]
  by (auto simp: zlog_category_update_rules_def same_but_fit_def)

lemma output_exact:
  assumes c: "holds_rules c rs" and alive: "\<forall>r\<in>set rs. alive (ru_conf r)"
  shows "zlog_category_output alive c lv = Some (List.map_filter (\<lambda>r. zlog_rule_output r lv) rs)"
proof -
  have "List.map_filter id (map Some rs) = rs" by (induction rs) (simp_all add: List.map_filter_simps)
  then show ?thesis using c alive by (auto simp: holds_rules_def zlog_category_output_def list_all_iff)
qed

lemma needless_exact:
  assumes c: "holds_rules c rs" and lv: "0 \<le> lv" "lv \<le> 255"
  shows "zlog_category_needless_level c lv = Some (List.map_filter (\<lambda>r. zlog_rule_output r lv) rs = [])"
proof -
  have "List.map_filter f xs = [] \<longleftrightarrow> (\<forall>x\<in>set xs. f x = None)" for f :: "zlog_rule \<Rightarrow> nat option" and xs
    by (induction xs) (auto simp: List.map_filter_simps split: option.split)
  then show ?thesis using c lv needless_bit [OF _ lv, of c] by (auto simp: holds_rules_def)
qed

end
