(* ===== verification/Zlog_Reload.thy ===== *)
theory Zlog_Reload
  imports Zlog_Category
begin

section \<open>The table of categories, logging and reload\<close>

text \<open>
  \<open>src/deps/zlog/src/category_table.c\<close>, and of \<open>zlog.c\<close> the way of a message to the outputs and the
  reload of the configuration. A category is an object at an address of the store; the table maps names
  to addresses. A configuration is its rules and its reload period; \<open>env_freed\<close> lists those that
  \<open>zlog_conf_del\<close> has freed. Reading the configuration is an argument, its result or \<^const>\<open>None\<close>;
  the function \<open>allocs\<close> gives the allocator's answers while the category at an address is worked on.
  The locks keep every operation atomic.
\<close>

record zlog_conf =
  cf_id :: nat
  cf_rules :: "zlog_rule list"
  cf_reload_conf_period :: nat

type_synonym category_table = "(string, nat) zc_hashtable"
type_synonym category_store = "nat \<Rightarrow> zlog_category"

record zlog_env =
  env_is_init :: bool
  env_init_version :: nat
  env_conf :: zlog_conf
  env_reload_conf_count :: nat
  env_categories :: category_table
  env_store :: category_store
  env_freed :: "nat list"

subsection \<open>The table\<close>

definition zlog_category_table_new :: "calloc \<Rightarrow> category_table option" where
  "zlog_category_table_new calloc = zc_hashtable_new calloc 20 zc_hashtable_str_hash zc_hashtable_str_equal False True"

definition table_addresses :: "category_table \<Rightarrow> nat list option" where
  "table_addresses t = map_option (map he_value) (zc_hashtable_foreach (ht_nelem t) t (zc_hashtable_begin t))"

fun update_all :: "(nat \<Rightarrow> alloc) \<Rightarrow> zlog_rule list \<Rightarrow> nat list \<Rightarrow> category_store \<Rightarrow> (int \<times> category_store) option" where
  "update_all allocs rules [] st = Some (0, st)"
| "update_all allocs rules (a # ads) st = do {
     (rc, c) \<leftarrow> zlog_category_update_rules (allocs a) rules (st a);
     if rc \<noteq> 0 then Some (-1, st(a := c)) else update_all allocs rules ads (st(a := c))
   }"

definition zlog_category_table_update_rules ::
  "(nat \<Rightarrow> alloc) \<Rightarrow> zlog_rule list \<Rightarrow> category_table \<Rightarrow> category_store \<Rightarrow> (int \<times> category_store) option" where
  "zlog_category_table_update_rules allocs rules t st = do { ads \<leftarrow> table_addresses t; update_all allocs rules ads st }"

definition zlog_category_table_commit_rules :: "category_table \<Rightarrow> category_store \<Rightarrow> category_store option" where
  "zlog_category_table_commit_rules t st = do {
     ads \<leftarrow> table_addresses t;
     Some (foldl (\<lambda>st a. st(a := zlog_category_commit_rules (st a))) st ads)
   }"

definition zlog_category_table_rollback_rules :: "category_table \<Rightarrow> category_store \<Rightarrow> category_store option" where
  "zlog_category_table_rollback_rules t st = do {
     ads \<leftarrow> table_addresses t;
     Some (foldl (\<lambda>st a. st(a := zlog_category_rollback_rules (st a))) st ads)
   }"

definition zlog_category_table_fetch_category ::
  "alloc \<Rightarrow> calloc \<Rightarrow> nat \<Rightarrow> string \<Rightarrow> zlog_rule list \<Rightarrow> category_table \<Rightarrow> category_store
   \<Rightarrow> (nat option \<times> category_table \<times> category_store) option" where
  "zlog_category_table_fetch_category alloc calloc fresh name rules t st = do {
     found \<leftarrow> zc_hashtable_get t name;
     case found of
       Some a \<Rightarrow> Some (Some a, t, st)
     | None \<Rightarrow> do {
         c \<leftarrow> zlog_category_new alloc name rules;
         case c of
           None \<Rightarrow> Some (None, t, st)
         | Some c \<Rightarrow> do {
             (rc, t) \<leftarrow> zc_hashtable_put calloc t (ct_name c) fresh;
             Some (if rc \<noteq> 0 then (None, t, st) else (Some fresh, t, st(fresh := c)))
           }
       }
   }"

subsection \<open>Getting a category, logging, reloading\<close>

definition zlog_get_category :: "alloc \<Rightarrow> calloc \<Rightarrow> nat \<Rightarrow> string \<Rightarrow> zlog_env \<Rightarrow> (nat option \<times> zlog_env) option" where
  "zlog_get_category alloc calloc fresh name env =
     (if \<not> env_is_init env then Some (None, env)
      else do {
        (r, t, st) \<leftarrow> zlog_category_table_fetch_category alloc calloc fresh name (cf_rules (env_conf env)) (env_categories env) (env_store env);
        Some (r, env\<lparr>env_categories := t, env_store := st\<rparr>)
      })"

text \<open>
  The outputs called for a message, in order, and whether a reload is due; \<open>failed\<close> says that the last
  output reports a failure.
\<close>

definition vzlog :: "bool \<Rightarrow> nat \<Rightarrow> int \<Rightarrow> zlog_env \<Rightarrow> (nat list \<times> bool \<times> zlog_env) option" where
  "vzlog failed a level env = do {
     needless \<leftarrow> zlog_category_needless_level (env_store env a) level;
     if needless then Some ([], False, env)
     else if \<not> env_is_init env then Some ([], False, env)
     else do {
       outs \<leftarrow> zlog_category_output (\<lambda>i. i \<notin> set (env_freed env)) (env_store env a) level;
       if failed then Some (outs, False, env)
       else if cf_reload_conf_period (env_conf env) \<noteq> 0 then
         let n = env_reload_conf_count env + 1
         in Some (outs, n > cf_reload_conf_period (env_conf env), env\<lparr>env_reload_conf_count := n\<rparr>)
       else Some (outs, False, env)
     }
   }"

datatype reload_arg = Last_file | If_due | New_file

definition zlog_reload :: "(nat \<Rightarrow> alloc) \<Rightarrow> reload_arg \<Rightarrow> zlog_conf option \<Rightarrow> zlog_env \<Rightarrow> (int \<times> zlog_env) option" where
  "zlog_reload allocs arg new_conf env =
     (if \<not> env_is_init env then Some (0, env)
      else if arg = If_due \<and> \<not> env_reload_conf_count env > cf_reload_conf_period (env_conf env) then Some (0, env)
      else let env = env\<lparr>env_reload_conf_count := 0\<rparr> in
        case new_conf of
          None \<Rightarrow> Some (-1, env)
        | Some conf \<Rightarrow> do {
            (rc, st) \<leftarrow> zlog_category_table_update_rules allocs (cf_rules conf) (env_categories env) (env_store env);
            if rc \<noteq> 0 then Some (-1, env\<lparr>env_store := st, env_freed := env_freed env @ [cf_id conf]\<rparr>)
            else do {
              st \<leftarrow> zlog_category_table_commit_rules (env_categories env) st;
              Some (0, env\<lparr>env_store := st, env_init_version := env_init_version env + 1,
                env_freed := env_freed env @ [cf_id (env_conf env)], env_conf := conf\<rparr>)
            }
          })"

definition zlog_level_enabled :: "nat option \<Rightarrow> int \<Rightarrow> zlog_env \<Rightarrow> bool option" where
  "zlog_level_enabled category level env =
     (case category of None \<Rightarrow> Some False
      | Some a \<Rightarrow> map_option Not (zlog_category_needless_level (env_store env a) level))"

subsection \<open>Updating all categories\<close>

definition rules_ok :: "zlog_rule list \<Rightarrow> bool" where
  "rules_ok rules \<longleftrightarrow> (\<forall>r\<in>set rules. rule_ok r) \<and> length rules < 2 ^ 28"

text \<open>A category \<open>c\<close> with its rules and bitmap moved to the backup, and with the new rules in their place.\<close>

definition backed_up :: "zlog_category \<Rightarrow> zlog_category \<Rightarrow> bool" where
  "backed_up c c' \<longleftrightarrow> ct_fit_rules_backup c' = ct_fit_rules c \<and> ct_level_bitmap_backup c' = ct_level_bitmap c"

definition updated :: "zlog_rule list \<Rightarrow> zlog_category \<Rightarrow> zlog_category \<Rightarrow> bool" where
  "updated rules c c' \<longleftrightarrow> backed_up c c' \<and> holds_rules c' (fitting (ct_name c) rules)"

text \<open>
  Nothing is asked of the categories as they are. The update reaches the end, or stops at the first
  category for which memory runs out.
\<close>

lemma update_all_ok:
  "\<lbrakk>distinct ads; rules_ok rules\<rbrakk>
   \<Longrightarrow> \<exists>rc st'. update_all allocs rules ads st = Some (rc, st') \<and> (\<forall>x. ct_name (st' x) = ct_name (st x)) \<and>
     (rc = 0 \<and> (\<forall>x. x \<notin> set ads \<longrightarrow> st' x = st x) \<and> (\<forall>x\<in>set ads. updated rules (st x) (st' x))
      \<or> rc = -1 \<and> (\<exists>us a vs. ads = us @ a # vs \<and> (\<forall>x. x \<notin> set us \<and> x \<noteq> a \<longrightarrow> st' x = st x)
        \<and> (\<forall>x\<in>set us. updated rules (st x) (st' x)) \<and> backed_up (st a) (st' a) \<and> ct_fit_rules (st' a) = None))"
proof (induction ads arbitrary: st)
  case (Cons a ads)
  obtain rc c where u: "zlog_category_update_rules (allocs a) rules (st a) = Some (rc, c)" "ct_name c = ct_name (st a)" "backed_up (st a) c"
    "rc = 0 \<and> holds_rules c (fitting (ct_name (st a)) rules) \<or> rc = -1 \<and> ct_fit_rules c = None"
    using update_rules_ok [of rules "allocs a" "st a"] Cons.prems(2) by (auto simp: rules_ok_def backed_up_def)
  show ?case
  proof (cases "rc = 0")
    case False
    then have "update_all allocs rules (a # ads) st = Some (-1, st(a := c))" using u(1) by simp
    moreover have "\<exists>us b vs. a # ads = us @ b # vs \<and> (\<forall>x. x \<notin> set us \<and> x \<noteq> b \<longrightarrow> (st(a := c)) x = st x)
        \<and> (\<forall>x\<in>set us. updated rules (st x) ((st(a := c)) x)) \<and> backed_up (st b) ((st(a := c)) b) \<and> ct_fit_rules ((st(a := c)) b) = None"
      by (rule exI [of _ "[]"]) (use False u(3,4) in auto)
    ultimately show ?thesis using u(2) by auto
  next
    case True
    then have c: "updated rules (st a) c" using u(3,4) by (auto simp: updated_def)
    have na: "a \<notin> set ads" and d: "distinct ads" using Cons.prems(1) by auto
    obtain rc' st' where ih: "update_all allocs rules ads (st(a := c)) = Some (rc', st')" "\<forall>x. ct_name (st' x) = ct_name ((st(a := c)) x)"
      "rc' = 0 \<and> (\<forall>x. x \<notin> set ads \<longrightarrow> st' x = (st(a := c)) x) \<and> (\<forall>x\<in>set ads. updated rules ((st(a := c)) x) (st' x))
       \<or> rc' = -1 \<and> (\<exists>us b vs. ads = us @ b # vs \<and> (\<forall>x. x \<notin> set us \<and> x \<noteq> b \<longrightarrow> st' x = (st(a := c)) x)
        \<and> (\<forall>x\<in>set us. updated rules ((st(a := c)) x) (st' x)) \<and> backed_up ((st(a := c)) b) (st' b) \<and> ct_fit_rules (st' b) = None)"
      using Cons.IH [OF d Cons.prems(2), of "st(a := c)"] by blast
    have run: "update_all allocs rules (a # ads) st = Some (rc', st')" using True u(1) ih(1) by simp
    have name: "\<forall>x. ct_name (st' x) = ct_name (st x)" using ih(2) u(2) by simp
    show ?thesis
    proof (cases "rc' = 0")
      case True
      have "(st(a := c)) x = st x" if "x \<in> set ads" for x using na that by auto
      then have "\<forall>x\<in>set (a # ads). updated rules (st x) (st' x)" using True ih(3) c na by auto
      then show ?thesis using True run name ih(3) by auto
    next
      case False
      then obtain us b vs where f: "rc' = -1" "ads = us @ b # vs" "\<forall>x. x \<notin> set us \<and> x \<noteq> b \<longrightarrow> st' x = (st(a := c)) x"
        "\<forall>x\<in>set us. updated rules ((st(a := c)) x) (st' x)" "backed_up ((st(a := c)) b) (st' b)" "ct_fit_rules (st' b) = None"
        using ih(3) by blast
      have ab: "a \<noteq> b" "a \<notin> set us" using na f(2) by auto
      then have us: "\<forall>x\<in>set us. (st(a := c)) x = st x" by auto
      have "st' a = c" using f(3) ab by simp
      then have "a # ads = (a # us) @ b # vs" "\<forall>x. x \<notin> set (a # us) \<and> x \<noteq> b \<longrightarrow> st' x = st x"
        "\<forall>x\<in>set (a # us). updated rules (st x) (st' x)" "backed_up (st b) (st' b)"
        using f c ab us by auto
      then show ?thesis using run name f(1,6) by blast
    qed
  qed
qed simp

lemma foldl_update:
  "distinct ads \<Longrightarrow> foldl (\<lambda>st a. st(a := f (st a))) st ads = (\<lambda>x. if x \<in> set ads then f (st x) else st x)"
proof (induction ads arbitrary: st)
  case (Cons a ads)
  then show ?case by (auto simp: fun_eq_iff)
qed simp

subsection \<open>The environment\<close>

text \<open>A configuration: its rules are made from lines, by a list of at most 256 levels.\<close>

definition conf_ok :: "zlog_conf \<Rightarrow> bool" where
  "conf_ok cf \<longleftrightarrow> length (cf_rules cf) < 2 ^ 28
     \<and> (\<forall>r\<in>set (cf_rules cf). \<exists>levels line out. length (al_items levels) \<le> 256 \<and> zlog_rule_new levels line out (cf_id cf) = Some (Some r))"

lemma conf_rules_ok: "conf_ok cf \<Longrightarrow> rules_ok (cf_rules cf) \<and> (\<forall>r\<in>set (cf_rules cf). ru_conf r = cf_id cf)"
proof -
  assume cf: "conf_ok cf"
  have "rule_ok r \<and> ru_conf r = cf_id cf" if r: "r \<in> set (cf_rules cf)" for r
  proof -
    obtain levels line out where "length (al_items levels) \<le> 256" "zlog_rule_new levels line out (cf_id cf) = Some (Some r)"
      using cf r unfolding conf_ok_def by blast
    then show ?thesis using rule_new_ok [of levels line out "cf_id cf"] by auto
  qed
  then show ?thesis using cf by (simp add: conf_ok_def rules_ok_def)
qed

definition addresses :: "category_table \<Rightarrow> nat list" where
  "addresses t = map he_value (concat (ht_tab t))"

lemma table_addresses_ok: "ht_wf t \<Longrightarrow> table_addresses t = Some (addresses t)"
  by (simp add: table_addresses_def addresses_def foreach_all)

text \<open>
  The environment as every operation leaves it; and in service, with the rules of the configuration
  in every category, which is not so when a reload has failed half-way.
\<close>

definition env_base :: "zlog_env \<Rightarrow> bool" where
  "env_base env \<longleftrightarrow> string_table (env_categories env) \<and> distinct (addresses (env_categories env)) \<and> conf_ok (env_conf env)
     \<and> cf_id (env_conf env) \<notin> set (env_freed env) \<and> (\<forall>e\<in>#entries (env_categories env). ct_name (env_store env (he_value e)) = he_key e)"

definition serves :: "zlog_rule list \<Rightarrow> zlog_category \<Rightarrow> bool" where
  "serves rules c \<longleftrightarrow> holds_rules c (fitting (ct_name c) rules) \<and> ct_fit_rules_backup c = None"

definition in_service :: "zlog_env \<Rightarrow> bool" where
  "in_service env \<longleftrightarrow> (\<forall>a\<in>set (addresses (env_categories env)). serves (cf_rules (env_conf env)) (env_store env a))"

lemma address_entry: "a \<in> set (addresses t) \<longleftrightarrow> (\<exists>e\<in>#entries t. he_value e = a)"
  by (auto simp: addresses_def entries_def)

lemma commit_serves: "updated rules c c' \<Longrightarrow> ct_name c' = ct_name c \<Longrightarrow> serves rules (zlog_category_commit_rules c')"
  by (auto simp: updated_def serves_def holds_rules_def zlog_category_commit_rules_def)

lemma commit_name [simp]: "ct_name (zlog_category_commit_rules c) = ct_name c"
  by (simp add: zlog_category_commit_rules_def)

text \<open>A reload that updates all categories, and one that fails in one of them.\<close>

definition half_way :: "zlog_conf \<Rightarrow> zlog_env \<Rightarrow> zlog_env \<Rightarrow> nat list \<Rightarrow> nat \<Rightarrow> nat list \<Rightarrow> bool" where
  "half_way cf env env' us a vs \<longleftrightarrow> addresses (env_categories env) = us @ a # vs \<and> env_conf env' = env_conf env \<and>
     env_freed env' = env_freed env @ [cf_id cf] \<and> (\<forall>x. x \<notin> set us \<and> x \<noteq> a \<longrightarrow> env_store env' x = env_store env x) \<and>
     (\<forall>x\<in>set us. updated (cf_rules cf) (env_store env x) (env_store env' x)) \<and>
     backed_up (env_store env a) (env_store env' a) \<and> ct_fit_rules (env_store env' a) = None"

lemma reload_cases:
  assumes ok: "env_base env" and cf: "conf_ok cf" "cf_id cf \<notin> set (env_freed env)" "cf_id cf \<noteq> cf_id (env_conf env)"
    and init: "env_is_init env" and due: "arg \<noteq> If_due"
  shows "\<exists>rc env'. zlog_reload allocs arg (Some cf) env = Some (rc, env') \<and> env_base env' \<and> env_is_init env' \<and> env_categories env' = env_categories env \<and>
     (rc = 0 \<and> in_service env' \<and> env_conf env' = cf \<or> rc = -1 \<and> (\<exists>us a vs. half_way cf env env' us a vs))"
proof -
  let ?t = "env_categories env" and ?ads = "addresses (env_categories env)"
  have wf: "ht_wf ?t" and d: "distinct ?ads" using ok by (auto simp: env_base_def string_table_def)
  obtain rc st where u: "update_all allocs (cf_rules cf) ?ads (env_store env) = Some (rc, st)" "\<forall>x. ct_name (st x) = ct_name (env_store env x)"
    "rc = 0 \<and> (\<forall>x. x \<notin> set ?ads \<longrightarrow> st x = env_store env x) \<and> (\<forall>x\<in>set ?ads. updated (cf_rules cf) (env_store env x) (st x))
     \<or> rc = -1 \<and> (\<exists>us a vs. ?ads = us @ a # vs \<and> (\<forall>x. x \<notin> set us \<and> x \<noteq> a \<longrightarrow> st x = env_store env x)
        \<and> (\<forall>x\<in>set us. updated (cf_rules cf) (env_store env x) (st x)) \<and> backed_up (env_store env a) (st a) \<and> ct_fit_rules (st a) = None)"
    using update_all_ok [OF d, of "cf_rules cf" allocs "env_store env"] conf_rules_ok [OF cf(1)] by blast
  have upd: "zlog_category_table_update_rules allocs (cf_rules cf) ?t (env_store env) = Some (rc, st)"
    using u(1) table_addresses_ok [OF wf] by (simp add: zlog_category_table_update_rules_def)
  show ?thesis
  proof (cases "rc = 0")
    case False
    let ?env = "env\<lparr>env_reload_conf_count := 0, env_store := st, env_freed := env_freed env @ [cf_id cf]\<rparr>"
    have "zlog_reload allocs arg (Some cf) env = Some (-1, ?env)" using False u(3) upd init due by (simp add: zlog_reload_def)
    moreover have "env_base ?env" using ok cf(3) u(2) by (simp add: env_base_def)
    moreover have "\<exists>us a vs. half_way cf env ?env us a vs" using False u(3) by (auto simp: half_way_def)
    ultimately show ?thesis using init by auto
  next
    case True
    let ?st = "\<lambda>x. if x \<in> set ?ads then zlog_category_commit_rules (st x) else st x"
    have com: "zlog_category_table_commit_rules ?t st = Some ?st"
      using table_addresses_ok [OF wf] by (simp add: zlog_category_table_commit_rules_def foldl_update [OF d])
    let ?env = "env\<lparr>env_reload_conf_count := 0, env_store := ?st, env_init_version := env_init_version env + 1,
      env_freed := env_freed env @ [cf_id (env_conf env)], env_conf := cf\<rparr>"
    have "zlog_reload allocs arg (Some cf) env = Some (0, ?env)" using True upd com init due by (simp add: zlog_reload_def)
    moreover have "env_base ?env" using ok cf u(2) by (simp add: env_base_def)
    moreover have "in_service ?env" using True u(2,3) commit_serves by (auto simp: in_service_def)
    ultimately show ?thesis using init by auto
  qed
qed

lemma get_category_ok:
  assumes ok: "env_base env" and fresh: "fresh \<notin> set (addresses (env_categories env))"
  shows "\<exists>r env'. zlog_get_category alloc calloc fresh name env = Some (r, env') \<and> env_base env' \<and> env_is_init env' = env_is_init env \<and>
    (in_service env \<longrightarrow> in_service env') \<and>
    (\<forall>a. r = Some a \<longrightarrow> a \<in> set (addresses (env_categories env')) \<and> ct_name (env_store env' a) = name)"
proof (cases "env_is_init env")
  case False
  then show ?thesis using ok by (simp add: zlog_get_category_def)
next
  case init: True
  let ?t = "env_categories env" and ?rules = "cf_rules (env_conf env)"
  have tab: "ht_wf ?t" "ht_equal ?t = zc_hashtable_str_equal" and d: "distinct (addresses ?t)"
    and e: "\<forall>e\<in>#entries ?t. ct_name (env_store env (he_value e)) = he_key e"
    using ok by (auto simp: env_base_def string_table_def)
  obtain r where r: "zc_hashtable_get ?t name = Some (map_option he_value r)"
    "\<And>p. r = Some p \<longleftrightarrow> p \<in># entries ?t \<and> ht_equal ?t name (he_key p)"
    using get_entry_iff [OF tab(1), of name] by auto
  show ?thesis
  proof (cases r)
    case (Some p)
    then have "p \<in># entries ?t" "he_key p = name" using r(2) [of p] tab(2) by (simp_all add: zc_hashtable_str_equal_def)
    then show ?thesis using Some r(1) init ok e
      by (auto simp: zlog_get_category_def zlog_category_table_fetch_category_def address_entry)
  next
    case None
    have absent: "\<not> ht_equal ?t name (he_key p)" if "p \<in># entries ?t" for p using r(2) [of p] None that by simp
    then have oth: "others ?t name = entries ?t" by (auto simp: others_def filter_mset_eq_conv)
    obtain c where c: "zlog_category_new alloc name ?rules = Some c" "\<forall>c'. c = Some c' \<longrightarrow> settled ?rules c' \<and> ct_name c' = name"
      using category_new_ok [of ?rules alloc name] conf_rules_ok [of "env_conf env"] ok by (auto simp: env_base_def rules_ok_def)
    show ?thesis
    proof (cases c)
      case None
      then show ?thesis using \<open>r = None\<close> r(1) init ok c(1)
        by (simp add: zlog_get_category_def zlog_category_table_fetch_category_def)
    next
      case (Some c')
      obtain rc t where p: "zc_hashtable_put calloc ?t name fresh = Some (rc, t)" "ht_wf t" "ht_equal t = ht_equal ?t"
        "rc = 0 \<and> entries t = add_mset \<lparr>he_hash_key = ht_hash ?t name, he_key = name, he_value = fresh\<rparr> (entries ?t)
         \<or> rc = -1 \<and> entries t = entries ?t"
        using put_spec [OF tab(1), of calloc name fresh] oth by auto
      have m: "mset (addresses t) = image_mset he_value (entries t)" for t by (simp add: addresses_def entries_def)
      have run: "zlog_get_category alloc calloc fresh name env = Some (if rc \<noteq> 0 then (None, env\<lparr>env_categories := t\<rparr>)
         else (Some fresh, env\<lparr>env_categories := t, env_store := (env_store env)(fresh := c')\<rparr>))"
        using \<open>r = None\<close> r(1) init c Some p(1) by (simp add: zlog_get_category_def zlog_category_table_fetch_category_def)
      show ?thesis
      proof (cases "rc = 0")
        case False
        then have "entries t = entries ?t" using p(4) by simp
        moreover from this have a: "mset (addresses t) = mset (addresses ?t)" using m [of t] m [of ?t] by simp
        then have "distinct (addresses t)" "set (addresses t) = set (addresses ?t)"
          using d mset_eq_imp_distinct_iff mset_eq_setD by blast+
        ultimately show ?thesis using False run ok p(2,3) tab by (simp add: env_base_def in_service_def string_table_def)
      next
        case True
        then have en: "entries t = add_mset \<lparr>he_hash_key = ht_hash ?t name, he_key = name, he_value = fresh\<rparr> (entries ?t)" using p(4) by simp
        then have "mset (addresses t) = mset (fresh # addresses ?t)" using m [of t] m [of ?t] by simp
        note same = mset_eq_imp_distinct_iff [OF this] mset_eq_setD [OF this]
        then have a: "distinct (addresses t)" "set (addresses t) = insert fresh (set (addresses ?t))" using d fresh by simp_all
        have nf: "he_value e \<noteq> fresh" if "e \<in># entries ?t" for e using fresh that by (auto simp: address_entry)
        have c': "settled ?rules c'" "ct_name c' = name" using c(2) Some by simp_all
        let ?env = "env\<lparr>env_categories := t, env_store := (env_store env)(fresh := c')\<rparr>"
        have "\<forall>e\<in>#entries t. ct_name (((env_store env)(fresh := c')) (he_value e)) = he_key e" unfolding en using e c'(2) nf by simp
        then have "env_base ?env" using ok p(2,3) a(1) by (simp add: env_base_def string_table_def)
        moreover have "in_service env \<longrightarrow> in_service ?env"
          using a(2) c'(1) fresh by (auto simp: in_service_def serves_def settled_def)
        ultimately show ?thesis using True run a(2) c'(2) by simp
      qed
    qed
  qed
qed

lemma fitting_subset: "set (fitting name rules) \<subseteq> set rules"
  using last_in_set [of "filter zlog_rule_is_wastebin rules"] by (auto simp: fitting_def matching_def Let_def)

lemma fitting_conf: "conf_ok cf \<Longrightarrow> r \<in> set (fitting name (cf_rules cf)) \<Longrightarrow> ru_conf r = cf_id cf"
  using conf_rules_ok [of cf] subsetD [OF fitting_subset] by blast

lemma map_filter_some [simp]: "List.map_filter id (map Some xs) = xs"
  by (induction xs) (simp_all add: List.map_filter_simps)

lemma vzlog_served:
  assumes init: "env_is_init env" and c: "holds_rules (env_store env a) rs" and alive: "\<forall>r\<in>set rs. ru_conf r \<notin> set (env_freed env)"
    and lv: "0 \<le> lv" "lv \<le> 255"
  shows "\<exists>due env'. vzlog failed a lv env = Some (List.map_filter (\<lambda>r. zlog_rule_output r lv) rs, due, env')"
  using needless_exact [OF c lv] output_exact [OF c, of "\<lambda>i. i \<notin> set (env_freed env)" lv] alive init
  by (cases "List.map_filter (\<lambda>r. zlog_rule_output r lv) rs = []") (auto simp: vzlog_def Let_def)

lemma vzlog_env:
  assumes "vzlog failed a lv env = Some (outs, due, env')"
  shows "\<exists>n. env' = env\<lparr>env_reload_conf_count := n\<rparr>"
proof -
  have "env' = env \<or> (\<exists>n. env' = env\<lparr>env_reload_conf_count := n\<rparr>)"
    using assms by (auto simp: vzlog_def Let_def split: bind_splits if_splits)
  then show ?thesis by (metis (full_types) zlog_env.surjective zlog_env.update_convs(4))
qed

lemma vzlog_ok:
  assumes ok: "env_base env" "in_service env" and a: "a \<in> set (addresses (env_categories env))" and lv: "0 \<le> lv" "lv \<le> 255" and init: "env_is_init env"
  shows "\<exists>due env'. vzlog failed a lv env = Some
     (List.map_filter (\<lambda>r. zlog_rule_output r lv) (fitting (ct_name (env_store env a)) (cf_rules (env_conf env))), due, env')"
proof -
  have "holds_rules (env_store env a) (fitting (ct_name (env_store env a)) (cf_rules (env_conf env)))"
    using ok(2) a by (simp add: in_service_def serves_def)
  moreover have "\<forall>r\<in>set (fitting (ct_name (env_store env a)) (cf_rules (env_conf env))). ru_conf r \<notin> set (env_freed env)"
    using ok(1) fitting_conf [of "env_conf env"] by (auto simp: env_base_def)
  ultimately show ?thesis using vzlog_served [OF init _ _ lv] by blast
qed

lemma half_way_logs:
  assumes ok: "env_base env" "in_service env" and h: "half_way cf env env' us a vs" and cf: "conf_ok cf" "cf_id cf \<noteq> cf_id (env_conf env)"
    and init: "env_is_init env'" and lv: "0 \<le> lv" "lv \<le> 255"
  shows "\<forall>u\<in>set us. vzlog failed u lv env' =
      (if List.map_filter (\<lambda>r. zlog_rule_output r lv) (fitting (ct_name (env_store env u)) (cf_rules cf)) = [] then Some ([], False, env') else None)"
    "vzlog failed a lv env' \<in> {None, Some ([], False, env')}"
    "\<forall>v\<in>set vs. \<exists>due env''. vzlog failed v lv env' = Some
      (List.map_filter (\<lambda>r. zlog_rule_output r lv) (fitting (ct_name (env_store env v)) (cf_rules (env_conf env))), due, env'')"
proof -
  have fr: "env_freed env' = env_freed env @ [cf_id cf]" using h by (simp add: half_way_def)
  show "\<forall>u\<in>set us. vzlog failed u lv env' =
      (if List.map_filter (\<lambda>r. zlog_rule_output r lv) (fitting (ct_name (env_store env u)) (cf_rules cf)) = [] then Some ([], False, env') else None)"
  proof
    fix u assume u: "u \<in> set us"
    let ?rs = "fitting (ct_name (env_store env u)) (cf_rules cf)"
    have c: "holds_rules (env_store env' u) ?rs" using h u by (auto simp: half_way_def updated_def)
    then obtain al where al: "ct_fit_rules (env_store env' u) = Some al" "al_items al = map Some ?rs" by (auto simp: holds_rules_def)
    have dead: "\<forall>r\<in>set ?rs. ru_conf r \<in> set (env_freed env')" using fitting_conf [OF cf(1)] fr by simp
    have "zlog_category_output (\<lambda>i. i \<notin> set (env_freed env')) (env_store env' u) lv = None" if "?rs \<noteq> []"
      using al dead that by (cases ?rs) (auto simp: zlog_category_output_def)
    then show "vzlog failed u lv env' = (if List.map_filter (\<lambda>r. zlog_rule_output r lv) ?rs = [] then Some ([], False, env') else None)"
      using needless_exact [OF c lv] init by (cases "?rs = []") (simp_all add: vzlog_def List.map_filter_simps)
  qed
  have "ct_fit_rules (env_store env' a) = None" using h by (simp add: half_way_def)
  then have "zlog_category_output alive (env_store env' a) lv = None" for alive by (simp add: zlog_category_output_def)
  then show "vzlog failed a lv env' \<in> {None, Some ([], False, env')}"
    using init by (cases "zlog_category_needless_level (env_store env' a) lv") (auto simp: vzlog_def)
  show "\<forall>v\<in>set vs. \<exists>due env''. vzlog failed v lv env' = Some
      (List.map_filter (\<lambda>r. zlog_rule_output r lv) (fitting (ct_name (env_store env v)) (cf_rules (env_conf env))), due, env'')"
  proof
    fix v assume v: "v \<in> set vs"
    let ?rs = "fitting (ct_name (env_store env v)) (cf_rules (env_conf env))"
    have "distinct (us @ a # vs)" "v \<in> set (addresses (env_categories env))" using ok(1) h v by (auto simp: half_way_def env_base_def)
    then have "env_store env' v = env_store env v" "holds_rules (env_store env v) ?rs"
      using h v ok(2) by (auto simp: half_way_def in_service_def serves_def)
    moreover have "\<forall>r\<in>set ?rs. ru_conf r \<notin> set (env_freed env')"
      using fitting_conf [of "env_conf env"] ok(1) cf(2) fr by (auto simp: env_base_def)
    ultimately show "\<exists>due env''. vzlog failed v lv env' = Some (List.map_filter (\<lambda>r. zlog_rule_output r lv) ?rs, due, env'')"
      using vzlog_served [OF init _ _ lv, of v ?rs failed] by simp
  qed
qed

lemma rollback_restores:
  assumes ok: "env_base env" "in_service env" and h: "half_way cf env env' us a vs"
  shows "\<exists>st. zlog_category_table_rollback_rules (env_categories env) (env_store env') = Some st \<and>
      (\<forall>x. ct_fit_rules (st x) = ct_fit_rules (env_store env x) \<and> ct_level_bitmap (st x) = ct_level_bitmap (env_store env x))"
proof -
  let ?ads = "addresses (env_categories env)"
  have wf: "ht_wf (env_categories env)" "distinct ?ads" using ok(1) by (auto simp: env_base_def string_table_def)
  let ?st = "\<lambda>x. if x \<in> set ?ads then zlog_category_rollback_rules (env_store env' x) else env_store env' x"
  have run: "zlog_category_table_rollback_rules (env_categories env) (env_store env') = Some ?st"
    using table_addresses_ok [OF wf(1)] by (simp add: zlog_category_table_rollback_rules_def foldl_update [OF wf(2)])
  have "ct_fit_rules (?st x) = ct_fit_rules (env_store env x) \<and> ct_level_bitmap (?st x) = ct_level_bitmap (env_store env x)" for x
  proof (cases "x \<in> set us \<or> x = a")
    case True
    then have x: "x \<in> set ?ads" "backed_up (env_store env x) (env_store env' x)" using h by (auto simp: half_way_def updated_def)
    then have "ct_fit_rules (env_store env x) \<noteq> None" using ok(2) by (auto simp: in_service_def serves_def holds_rules_def)
    then show ?thesis using x by (auto simp: backed_up_def zlog_category_rollback_rules_def)
  next
    case False
    then have e: "env_store env' x = env_store env x" using h by (auto simp: half_way_def)
    have "ct_fit_rules_backup (env_store env x) = None" if "x \<in> set ?ads" using ok(2) that by (auto simp: in_service_def serves_def)
    then show ?thesis using e by (simp add: zlog_category_rollback_rules_def)
  qed
  then show ?thesis using run by blast
qed

subsection \<open>Histories\<close>

definition zlog_started :: "zlog_conf \<Rightarrow> category_table \<Rightarrow> category_store \<Rightarrow> zlog_env" where
  "zlog_started cf t st = \<lparr>env_is_init = True, env_init_version = 2, env_conf = cf, env_reload_conf_count = 0,
     env_categories = t, env_store = st, env_freed = []\<rparr>"

text \<open>
  What a program does after \<open>zlog_init\<close>: get categories, log, and reload, with whatever memory there is.
  The flag of \<open>zlog_run\<close> says that no reload has run out of memory half-way since the last one that
  succeeded; a reload that finds no configuration, or is not due, does not change it.
\<close>

inductive zlog_run :: "bool \<Rightarrow> zlog_env \<Rightarrow> bool" where
  run_start: "conf_ok cf \<Longrightarrow> zlog_category_table_new calloc = Some t \<Longrightarrow> zlog_run True (zlog_started cf t st)"
| run_get: "zlog_run w env \<Longrightarrow> fresh \<notin> set (addresses (env_categories env))
    \<Longrightarrow> zlog_get_category alloc calloc fresh name env = Some (r, env') \<Longrightarrow> zlog_run w env'"
| run_log: "zlog_run w env \<Longrightarrow> vzlog failed a lv env = Some (outs, due, env') \<Longrightarrow> zlog_run w env'"
| run_reload: "zlog_run w env \<Longrightarrow> conf_ok cf \<Longrightarrow> cf_id cf \<notin> set (env_freed env) \<Longrightarrow> cf_id cf \<noteq> cf_id (env_conf env)
    \<Longrightarrow> zlog_reload allocs arg (Some cf) env = Some (rc, env') \<Longrightarrow> zlog_run (if rc \<noteq> 0 then False else if env_conf env' = cf then True else w) env'"
| run_no_conf: "zlog_run w env \<Longrightarrow> zlog_reload allocs arg None env = Some (rc, env') \<Longrightarrow> zlog_run w env'"

lemma reload_not_due: "\<not> env_reload_conf_count env > cf_reload_conf_period (env_conf env) \<Longrightarrow> zlog_reload allocs If_due cf env = Some (0, env)"
  by (simp add: zlog_reload_def)

lemma env_count [simp]:
  "env_base (env\<lparr>env_reload_conf_count := n\<rparr>) = env_base env" "in_service (env\<lparr>env_reload_conf_count := n\<rparr>) = in_service env"
  by (simp_all add: env_base_def in_service_def)

lemma run_ok: "zlog_run w env \<Longrightarrow> env_base env \<and> env_is_init env \<and> (w \<longrightarrow> in_service env)"
proof (induction rule: zlog_run.induct)
  case (run_start cf calloc t st)
  have t: "string_table t" "entries t = {#}"
    using new_table [OF run_start(2) [unfolded zlog_category_table_new_def]] by simp_all
  then have "addresses t = []" by (simp add: addresses_def entries_def)
  then show ?case using run_start(1) t by (simp add: env_base_def in_service_def zlog_started_def)
next
  case (run_get w env fresh alloc calloc name r env')
  then show ?case using get_category_ok [of env fresh alloc calloc name] by auto
next
  case (run_log w env failed a lv outs due env')
  then show ?case using vzlog_env [OF run_log.hyps(2)] by auto
next
  case (run_reload w env cf allocs arg rc env')
  show ?case
  proof (cases "arg = If_due \<and> \<not> env_reload_conf_count env > cf_reload_conf_period (env_conf env)")
    case True
    then have "env' = env" "rc = 0" using run_reload.hyps(5) reload_not_due [of env allocs "Some cf"] by auto
    then show ?thesis using run_reload by auto
  next
    case False
    then have "zlog_reload allocs arg (Some cf) env = zlog_reload allocs Last_file (Some cf) env" by (auto simp: zlog_reload_def)
    then show ?thesis using run_reload reload_cases [of env cf Last_file allocs] by (auto split: if_splits)
  qed
next
  case (run_no_conf w env allocs arg rc env')
  then show ?case by (auto simp: zlog_reload_def Let_def split: if_splits)
qed

subsection \<open>Properties\<close>

definition sample_rule :: zlog_rule where
  "sample_rule = the (the (zlog_rule_new \<lparr>al_array = [], al_len = 0, al_size = 1, al_del = False, al_deleted = []\<rparr> ''gateway_.* stdout'' 7 1))"

definition sample_conf :: zlog_conf where
  "sample_conf = \<lparr>cf_id = 1, cf_rules = [sample_rule], cf_reload_conf_period = 0\<rparr>"

definition sample_start :: zlog_env where
  "sample_start = zlog_started sample_conf (the (zlog_category_table_new (\<lambda>_. True))) (\<lambda>_. undefined)"

definition sample_env :: zlog_env where
  "sample_env = snd (the (zlog_get_category (\<lambda>_. True) (\<lambda>_. True) 0 ''gateway'' sample_start))"

lemma sample_conf_ok: "conf_ok sample_conf"
proof -
  let ?l = "\<lparr>al_array = [], al_len = 0, al_size = 1, al_del = False, al_deleted = []\<rparr> :: zlog_level zc_arraylist"
  have "zlog_rule_new ?l ''gateway_.* stdout'' 7 1 \<noteq> None" "the (zlog_rule_new ?l ''gateway_.* stdout'' 7 1) \<noteq> None" by code_simp+
  then have "zlog_rule_new ?l ''gateway_.* stdout'' 7 1 = Some (Some sample_rule)" by (auto simp: sample_rule_def)
  moreover have "length (al_items ?l) \<le> 256" by (simp add: al_items_def)
  ultimately have "\<exists>levels line out. length (al_items levels) \<le> 256 \<and> zlog_rule_new levels line out 1 = Some (Some sample_rule)" by blast
  then show ?thesis by (simp add: conf_ok_def sample_conf_def)
qed

lemma sample_category: "map_option (map_option ct_name) (zlog_category_new (\<lambda>_. True) ''gateway'' [sample_rule]) = Some (Some ''gateway'')"
  by code_simp

lemma sample_has: "\<exists>env. zlog_get_category (\<lambda>_. True) (\<lambda>_. True) 0 ''gateway'' sample_start = Some (Some 0, env)"
proof -
  define t where "t = the (zlog_category_table_new (\<lambda>_. True))"
  have new: "zlog_category_table_new (\<lambda>_. True) = Some t" by (simp add: t_def zlog_category_table_new_def zc_hashtable_new_def)
  have t: "ht_wf t" "entries t = {#}"
    using new_table [OF new [unfolded zlog_category_table_new_def]] by (simp_all add: string_table_def)
  obtain c where c: "zlog_category_new (\<lambda>_. True) ''gateway'' [sample_rule] = Some (Some c)" "ct_name c = ''gateway''"
    using sample_category by (auto simp: map_option_case split: option.splits)
  obtain t' where "zc_hashtable_put (\<lambda>_. True) t ''gateway'' 0 = Some (0, t')" using put_spec [OF t(1), of "\<lambda>_. True" "''gateway''" 0] by auto
  then show ?thesis using lookup_none [OF t(1), of "''gateway''"] t(2) c
    by (simp add: zlog_get_category_def sample_start_def zlog_started_def sample_conf_def zlog_category_table_fetch_category_def flip: t_def)
qed

lemma sample_run: "zlog_run True sample_env" "0 \<in> set (addresses (env_categories sample_env))" "ct_name (env_store sample_env 0) = ''gateway''"
proof -
  obtain env where g: "zlog_get_category (\<lambda>_. True) (\<lambda>_. True) 0 ''gateway'' sample_start = Some (Some 0, env)" using sample_has by blast
  then have env: "sample_env = env" by (simp add: sample_env_def)
  have "zlog_category_table_new (\<lambda>_. True) = Some (the (zlog_category_table_new (\<lambda>_. True)))"
    by (simp add: zlog_category_table_new_def zc_hashtable_new_def)
  from run_start [OF sample_conf_ok this] have start: "zlog_run True sample_start" by (simp add: sample_start_def)
  have fresh: "0 \<notin> set (addresses (env_categories sample_start))"
    by (simp add: sample_start_def zlog_started_def zlog_category_table_new_def zc_hashtable_new_def addresses_def)
  show "zlog_run True sample_env" unfolding env by (rule run_get [OF start fresh g])
  show "0 \<in> set (addresses (env_categories sample_env))" "ct_name (env_store sample_env 0) = ''gateway''"
    using get_category_ok [of sample_start 0 "\<lambda>_. True" "\<lambda>_. True" "''gateway''"] run_ok [OF start] fresh g env by auto
qed

text \<open>
  C15: in any history of getting categories, logging and reloading, unless the last reload that had a
  configuration ran out of memory half-way, a message of a level the library knows is given to exactly the
  outputs of the rules that fit its category, in their order: those whose pattern is the name, a star or a
  prefix ending in an underscore, or else the wastebin rule, as far as their level condition holds. The
  bitmap test that is made first never suppresses an output, and no memory of a configuration that has been
  freed is read. A reload that succeeds repairs what the failed ones before it have left.
\<close>

theorem zlog_logs_exactly:
  assumes "zlog_run True env" "a \<in> set (addresses (env_categories env))" "0 \<le> lv" "lv \<le> 255"
  shows "\<exists>due env'. vzlog failed a lv env = Some
     (List.map_filter (\<lambda>r. zlog_rule_output r lv) (fitting (ct_name (env_store env a)) (cf_rules (env_conf env))), due, env')"
  using vzlog_ok [of env a lv failed] run_ok [OF assms(1)] assms(2-4) by blast

lemma zlog_logs_exactly_witness: "\<exists>outs due env'. vzlog False 0 40 sample_env = Some (outs, due, env')"
  using zlog_logs_exactly [OF sample_run(1,2), of 40 False] by fastforce

text \<open>
  C16: what a reload that runs out of memory leaves of the categories, for which the old configuration is
  said to go on. Those it had updated refer to the rules of the new configuration, which it frees: a message
  that they have an output for reads freed memory. The one it stopped at has no rules: its messages are
  dropped, or read a null pointer. Only the categories behind it still log as before. The rollback
  that is never called (its flag is set to 0 before the failure) would restore the rules and the bitmap of
  every category.
\<close>

theorem reload_failure_dangles:
  assumes "zlog_run True env" "conf_ok cf" "cf_id cf \<notin> set (env_freed env)" "cf_id cf \<noteq> cf_id (env_conf env)"
    and "zlog_reload allocs New_file (Some cf) env = Some (-1, env')" "0 \<le> lv" "lv \<le> 255"
  shows "\<exists>us a vs. addresses (env_categories env) = us @ a # vs \<and>
    (\<forall>u\<in>set us. vzlog failed u lv env' =
       (if List.map_filter (\<lambda>r. zlog_rule_output r lv) (fitting (ct_name (env_store env u)) (cf_rules cf)) = [] then Some ([], False, env') else None)) \<and>
    vzlog failed a lv env' \<in> {None, Some ([], False, env')} \<and>
    (\<forall>v\<in>set vs. \<exists>due env''. vzlog failed v lv env' = Some
       (List.map_filter (\<lambda>r. zlog_rule_output r lv) (fitting (ct_name (env_store env v)) (cf_rules (env_conf env))), due, env'')) \<and>
    (\<exists>st. zlog_category_table_rollback_rules (env_categories env) (env_store env') = Some st \<and>
      (\<forall>x. ct_fit_rules (st x) = ct_fit_rules (env_store env x) \<and> ct_level_bitmap (st x) = ct_level_bitmap (env_store env x)))"
proof -
  have ok: "env_base env" "in_service env" "env_is_init env" using run_ok [OF assms(1)] by simp_all
  obtain us a vs where h: "half_way cf env env' us a vs" "env_is_init env'"
    using reload_cases [OF ok(1) assms(2-4) ok(3), of New_file allocs] assms(5) by auto
  have "addresses (env_categories env) = us @ a # vs" using h(1) by (simp add: half_way_def)
  then show ?thesis
    using half_way_logs [OF ok(1,2) h(1) assms(2,4) h(2) assms(6,7), of failed] rollback_restores [OF ok(1,2) h(1)] by blast
qed

lemma update_no_memory: "ads \<noteq> [] \<Longrightarrow> \<exists>st'. update_all (\<lambda>_ _. False) rules ads st = Some (-1, st')"
  by (cases ads) (simp_all add: zlog_category_update_rules_def zlog_category_obtain_rules_def zc_arraylist_new_def)

lemma reload_failure_dangles_witness:
  "\<exists>env' a. zlog_reload (\<lambda>_ _. False) New_file (Some \<lparr>cf_id = 2, cf_rules = [], cf_reload_conf_period = 0\<rparr>) sample_env = Some (-1, env') \<and>
     a \<in> set (addresses (env_categories sample_env)) \<and> vzlog False a 40 env' \<in> {None, Some ([], False, env')}"
proof -
  let ?cf = "\<lparr>cf_id = 2, cf_rules = [], cf_reload_conf_period = 0\<rparr>"
  have ok: "env_base sample_env" "env_is_init sample_env" using run_ok [OF sample_run(1)] by simp_all
  then have wf: "ht_wf (env_categories sample_env)" by (simp add: env_base_def string_table_def)
  have conf: "env_conf sample_env = sample_conf" "env_freed sample_env = []"
  proof -
    obtain env where "zlog_get_category (\<lambda>_. True) (\<lambda>_. True) 0 ''gateway'' sample_start = Some (Some 0, env)" using sample_has by blast
    then show "env_conf sample_env = sample_conf" "env_freed sample_env = []"
      by (auto simp: sample_env_def zlog_get_category_def sample_start_def zlog_started_def split: bind_splits)
  qed
  have "addresses (env_categories sample_env) \<noteq> []" using sample_run(2) by auto
  then obtain st where "update_all (\<lambda>_ _. False) [] (addresses (env_categories sample_env)) (env_store sample_env) = Some (-1, st)"
    using update_no_memory by blast
  then obtain env' where r: "zlog_reload (\<lambda>_ _. False) New_file (Some ?cf) sample_env = Some (-1, env')"
    using ok(2) by (simp add: zlog_reload_def zlog_category_table_update_rules_def table_addresses_ok [OF wf])
  moreover have "conf_ok ?cf" by (simp add: conf_ok_def)
  ultimately obtain us a vs where "addresses (env_categories sample_env) = us @ a # vs" "vzlog False a 40 env' \<in> {None, Some ([], False, env')}"
    using reload_failure_dangles [OF sample_run(1), of ?cf "\<lambda>_ _. False" env' 40 False] conf by (auto simp: sample_conf_def)
  then show ?thesis using r by auto
qed

end
