(* ===== verification/Zlog_Rotater.thy ===== *)
theory Zlog_Rotater
  imports Zlog_Level Zlog_Buf
begin

section \<open>Rotation of log files\<close>

text \<open>
  \<open>src/deps/zlog/src/rotater.c\<close>: a log file that has become too large is moved to an archive,
  and the archives are renumbered (\<open>ROLLING\<close>) or numbered on (\<open>SEQUENCE\<close>). The file system is the
  list of its files with their contents, in the order of the directory, and the list of its
  directories. What the system refuses is an argument, as is the memory. Paths are C strings,
  the characters before the terminating zero. Diagnostic output is left out.
\<close>

subsection \<open>The file system\<close>

record fs =
  fs_files :: "(string \<times> string) list"
  fs_dirs :: "string list"

type_synonym get = "string \<Rightarrow> string option"

definition fs_get :: "fs \<Rightarrow> string \<Rightarrow> string option" where
  "fs_get fs = map_of (fs_files fs)"

record zlog_os =
  os_alloc :: alloc
  os_refuse :: "string \<Rightarrow> bool"
  os_glob_err :: bool
  os_lock :: bool

definition unlink :: "zlog_os \<Rightarrow> string \<Rightarrow> fs \<Rightarrow> int \<times> fs" where
  "unlink os path fs =
     (if fs_get fs path = None \<or> os_refuse os path then (-1, fs)
      else (0, fs\<lparr>fs_files := filter (\<lambda>f. fst f \<noteq> path) (fs_files fs)\<rparr>))"

definition rename :: "zlog_os \<Rightarrow> string \<Rightarrow> string \<Rightarrow> fs \<Rightarrow> int \<times> fs" where
  "rename os p q fs =
     (case fs_get fs p of
        None \<Rightarrow> (-1, fs)
      | Some c \<Rightarrow>
          if os_refuse os p \<or> os_refuse os q \<or> q \<in> set (fs_dirs fs) then (-1, fs)
          else if p = q then (0, fs)
          else (0, fs\<lparr>fs_files := (q, c) # filter (\<lambda>f. fst f \<noteq> p \<and> fst f \<noteq> q) (fs_files fs)\<rparr>))"

text \<open>
  \<open>glob\<close> with \<open>GLOB_ERR | GLOB_MARK | GLOB_NOSORT\<close>. A wildcard matches no slash and no period in
  front of a name. Bracket expressions have characters and ranges; named classes are left out.
\<close>

fun bracket_items :: "bool \<Rightarrow> string \<Rightarrow> (string \<times> string) option" where
  "bracket_items first [] = None"
| "bracket_items first (p # ps) =
     (if p = CHR '']'' \<and> \<not> first then Some ([], ps)
      else if p = CHR ''/'' then None
      else map_option (\<lambda>(items, rest). (p # items, rest)) (bracket_items False ps))"

fun in_items :: "string \<Rightarrow> char \<Rightarrow> bool" where
  "in_items [] c = False"
| "in_items [a] c = (c = a)"
| "in_items [a, m] c = (c = a \<or> c = m)"
| "in_items (a # m # b # r) c =
     (if m = CHR ''-'' then cnum a \<le> cnum c \<and> cnum c \<le> cnum b \<or> in_items r c
      else c = a \<or> in_items (m # b # r) c)"

lemma bracket_items_shorter: "bracket_items first ps = Some (items, rest) \<Longrightarrow> length rest < length ps"
  by (induction ps arbitrary: first items) (auto split: if_splits intro: less_SucI)

function (sequential) glob_match :: "bool \<Rightarrow> string \<Rightarrow> string \<Rightarrow> bool" where
  "glob_match start [] cs = (cs = [])"
| "glob_match start (p # ps) cs =
     (let hidden = start \<and> cs \<noteq> [] \<and> hd cs = CHR ''.'' in
      if p = CHR ''*'' then
        \<not> hidden \<and> (glob_match False ps cs \<or>
          (case cs of [] \<Rightarrow> False | c # cs' \<Rightarrow> c \<noteq> CHR ''/'' \<and> glob_match False (p # ps) cs'))
      else if p = CHR ''?'' then
        \<not> hidden \<and> cs \<noteq> [] \<and> hd cs \<noteq> CHR ''/'' \<and> glob_match False ps (tl cs)
      else if p = CHR ''['' then
        (let neg = ps \<noteq> [] \<and> (hd ps = CHR ''!'' \<or> hd ps = CHR ''^'') in
         case bracket_items True (if neg then tl ps else ps) of
           None \<Rightarrow> cs \<noteq> [] \<and> hd cs = p \<and> glob_match False ps (tl cs)
         | Some (items, rest) \<Rightarrow>
             \<not> hidden \<and> cs \<noteq> [] \<and> hd cs \<noteq> CHR ''/'' \<and> in_items items (hd cs) \<noteq> neg \<and> glob_match False rest (tl cs))
      else if p = CHR 0x5C \<and> ps \<noteq> [] then
        cs \<noteq> [] \<and> hd cs = hd ps \<and> glob_match (hd ps = CHR ''/'') (tl ps) (tl cs)
      else cs \<noteq> [] \<and> hd cs = p \<and> glob_match (p = CHR ''/'') ps (tl cs))"
  by pat_completeness auto
termination
  by (relation "measure (\<lambda>(start, ps, cs). length ps + length cs)")
    (auto dest: bracket_items_shorter simp: neq_Nil_conv split: if_splits)

datatype glob_result = GLOB_NOMATCH | GLOB_ABORTED | GLOB_OK "string list"

definition glob :: "zlog_os \<Rightarrow> string \<Rightarrow> fs \<Rightarrow> glob_result" where
  "glob os pat fs =
     (if os_glob_err os then GLOB_ABORTED
      else let pathv = filter (glob_match True pat) (map fst (fs_files fs)) @
             map (\<lambda>d. d @ ''/'') (filter (glob_match True pat) (fs_dirs fs))
        in if pathv = [] then GLOB_NOMATCH else GLOB_OK pathv)"

subsection \<open>Names of archives\<close>

datatype mv_type = NO_MOVE | ROLLING | SEQUENCE

record zlog_file =
  zf_index :: int
  zf_path :: string

record zlog_rotater =
  lock_mutex :: bool
  base_path :: "string option"
  archive_path :: "string option"
  glob_path :: string
  num_start_len :: nat
  num_end_len :: nat
  num_width :: int
  mv_type :: mv_type
  max_count :: int
  files :: "zlog_file zc_arraylist option"

definition PATH_SIZE :: nat where "PATH_SIZE = 1025"

text \<open>\<open>snprintf\<close> into an array of \<open>n\<close> bytes: the value returned and the string in the array.\<close>

definition snprintf :: "nat \<Rightarrow> string \<Rightarrow> int \<times> string" where
  "snprintf n text = (int (length text), take (n - 1) text)"

text \<open>The string from an offset on, in an array of \<open>PATH_SIZE\<close> bytes that is zero behind its string.\<close>

definition cstr_at :: "string \<Rightarrow> nat \<Rightarrow> string option" where
  "cstr_at s k = (if k < PATH_SIZE then Some (drop k s) else None)"

text \<open>\<open>sscanf\<close> of \<open>"%d%n"\<close>, the number being read as a \<open>long\<close> and cut to an \<open>int\<close>: the number and the characters read.\<close>

definition scan_int :: "string \<Rightarrow> (int \<times> nat) option" where
  "scan_int cs =
     (case read_number (dropWhile is_space cs) of
        None \<Rightarrow> None
      | Some (n, rest) \<Rightarrow> Some (i32 (max (- (2 ^ 63)) (min (2 ^ 63 - 1) n)), length cs - length rest))"

text \<open>\<open>%0*d\<close>: a negative width adjusts to the left and pads with spaces.\<close>

definition format_0d :: "int \<Rightarrow> int \<Rightarrow> string" where
  "format_0d w n =
     (let sign = (if n < 0 then ''-'' else []); ds = digits 10 (nat \<bar>n\<bar>) in
      if w < 0 then sign @ ds @ replicate (nat \<bar>w\<bar> - length (sign @ ds)) (CHR '' '')
      else sign @ replicate (nat w - length (sign @ ds)) (CHR ''0'') @ ds)"

definition new_path :: "zlog_rotater \<Rightarrow> int \<Rightarrow> (int \<times> string) option" where
  "new_path rot n = do {
     suffix \<leftarrow> cstr_at (glob_path rot) (num_end_len rot);
     let (nwrite, path) = snprintf PATH_SIZE (take (num_start_len rot) (glob_path rot) @ format_0d (num_width rot) n @ suffix);
     Some (if nwrite \<ge> int PATH_SIZE then -1 else 0, path)
   }"

definition zlog_rotater_parse_archive_path :: "zlog_rotater \<Rightarrow> (int \<times> zlog_rotater) option" where
  "zlog_rotater_parse_archive_path rot = do {
     base \<leftarrow> base_path rot;
     archive \<leftarrow> archive_path rot;
     if archive = [] then
       let (nwrite, path) = snprintf PATH_SIZE (base @ ''.*''); rot = rot\<lparr>glob_path := path\<rparr> in
       if nwrite > int PATH_SIZE then Some (-1, rot)
       else Some (0, rot\<lparr>mv_type := ROLLING, num_width := 0, num_start_len := length base + 1, num_end_len := length base + 2\<rparr>)
     else
       let len = length (takeWhile (\<lambda>c. c \<noteq> CHR ''#'') archive); p = drop len archive in
       if p = [] then Some (-1, rot)
       else
         let (rot, nread) = (case scan_int (tl p) of None \<Rightarrow> (rot, 1) | Some (w, k) \<Rightarrow> (rot\<lparr>num_width := w\<rparr>, k + 1));
             q = drop nread p in
         if q = [] \<or> hd q \<noteq> CHR ''r'' \<and> hd q \<noteq> CHR ''s'' then Some (-1, rot)
         else
           let rot = rot\<lparr>mv_type := (if hd q = CHR ''r'' then ROLLING else SEQUENCE)\<rparr> in
           if len > PATH_SIZE - 1 then Some (-1, rot)
           else
             let (nwrite, rest) = snprintf (PATH_SIZE - len) (CHR ''*'' # tl q); rot = rot\<lparr>glob_path := take len archive @ rest\<rparr> in
             if nwrite > int (PATH_SIZE - len) then Some (-1, rot)
             else Some (0, rot\<lparr>num_start_len := len, num_end_len := len + 1\<rparr>)
   }"

subsection \<open>The archives of a log file\<close>

definition zlog_file_check_new :: "zlog_os \<Rightarrow> zlog_rotater \<Rightarrow> string \<Rightarrow> zlog_file option" where
  "zlog_file_check_new os rot path =
     (if base_path rot = Some path then None
      else if path \<noteq> [] \<and> last path = CHR ''/'' then None
      else if \<not> os_alloc os 1032 then None
      else let (nwrite, p) = snprintf PATH_SIZE path in
        if nwrite \<ge> int PATH_SIZE then None
        else let (index, nread) = (case scan_int (drop (num_start_len rot) p) of None \<Rightarrow> (0, 0) | Some r \<Rightarrow> r) in
          if num_width rot \<noteq> 0 \<and> int nread < num_width rot then None
          else Some \<lparr>zf_index = index, zf_path = p\<rparr>)"

definition zlog_file_cmp :: "zlog_file option \<Rightarrow> zlog_file option \<Rightarrow> int" where
  "zlog_file_cmp a b = (if zf_index (the a) > zf_index (the b) then 1 else 0)"

fun add_files ::
  "zlog_os \<Rightarrow> (nat \<Rightarrow> zlog_file option) \<Rightarrow> zlog_rotater \<Rightarrow> string list \<Rightarrow> zlog_file zc_arraylist \<Rightarrow>
   (int \<times> zlog_file zc_arraylist) option" where
  "add_files os junk rot [] al = Some (0, al)"
| "add_files os junk rot (path # pathv) al =
     (case zlog_file_check_new os rot path of
        None \<Rightarrow> add_files os junk rot pathv al
      | Some f \<Rightarrow> do {
          (rc, al) \<leftarrow> zc_arraylist_sortadd (os_alloc os) junk al zlog_file_cmp (Some f);
          if rc \<noteq> 0 then Some (-1, al) else add_files os junk rot pathv al
        })"

definition zlog_rotater_add_archive_files ::
  "zlog_os \<Rightarrow> (nat \<Rightarrow> zlog_file option) \<Rightarrow> fs \<Rightarrow> zlog_rotater \<Rightarrow> (int \<times> zlog_rotater) option" where
  "zlog_rotater_add_archive_files os junk fs rot =
     (case zc_arraylist_new (os_alloc os) True of
        None \<Rightarrow> Some (-1, rot\<lparr>files := None\<rparr>)
      | Some al \<Rightarrow>
          (case glob os (glob_path rot) fs of
             GLOB_NOMATCH \<Rightarrow> Some (0, rot\<lparr>files := Some al\<rparr>)
           | GLOB_ABORTED \<Rightarrow> Some (-1, rot\<lparr>files := Some al\<rparr>)
           | GLOB_OK pathv \<Rightarrow> do {
               (rc, al) \<leftarrow> add_files os junk rot pathv al;
               Some (rc, rot\<lparr>files := Some al\<rparr>)
             }))"

subsection \<open>Moving the files\<close>

fun seq_unlink :: "zlog_os \<Rightarrow> int \<Rightarrow> int \<Rightarrow> int \<Rightarrow> zlog_file option list \<Rightarrow> fs \<Rightarrow> (int \<times> fs) option" where
  "seq_unlink os mx len i [] fs = Some (0, fs)"
| "seq_unlink os mx len i (x # xs) fs =
     (if mx > 0 \<and> i < len - mx then do {
        f \<leftarrow> x;
        let (rc, fs) = unlink os (zf_path f) fs;
        if rc \<noteq> 0 then Some (-1, fs) else seq_unlink os mx len (i + 1) xs fs
      } else seq_unlink os mx len (i + 1) xs fs)"

definition move_base :: "zlog_os \<Rightarrow> zlog_rotater \<Rightarrow> int \<Rightarrow> fs \<Rightarrow> (int \<times> fs) option" where
  "move_base os rot n fs = do {
     (rc, path) \<leftarrow> new_path rot n;
     if rc \<noteq> 0 then Some (-1, fs)
     else do {
       base \<leftarrow> base_path rot;
       let (rc, fs) = rename os base path fs;
       Some (if rc \<noteq> 0 then -1 else 0, fs)
     }
   }"

definition zlog_rotater_seq_files :: "zlog_os \<Rightarrow> zlog_rotater \<Rightarrow> fs \<Rightarrow> (int \<times> fs) option" where
  "zlog_rotater_seq_files os rot fs = do {
     al \<leftarrow> files rot;
     (rc, fs) \<leftarrow> seq_unlink os (max_count rot) (zc_arraylist_len al) 0 (al_items al) fs;
     if rc \<noteq> 0 then Some (-1, fs)
     else if zc_arraylist_len al > 0 then do {
       x \<leftarrow> zc_arraylist_get al (zc_arraylist_len al - 1);
       (case x of
          None \<Rightarrow> Some (-1, fs)
        | Some f \<Rightarrow> move_base os rot (i32 (max (zc_arraylist_len al - 1) (zf_index f) + 1)) fs)
     } else move_base os rot 0 fs
   }"

fun roll_loop :: "zlog_os \<Rightarrow> zlog_rotater \<Rightarrow> zlog_file zc_arraylist \<Rightarrow> nat \<Rightarrow> fs \<Rightarrow> (int \<times> fs) option" where
  "roll_loop os rot al 0 fs = Some (0, fs)"
| "roll_loop os rot al (Suc i) fs = do {
     x \<leftarrow> zc_arraylist_get al (int i);
     (case x of
        None \<Rightarrow> Some (-1, fs)
      | Some f \<Rightarrow>
          if max_count rot > 0 \<and> int i \<ge> max_count rot - 1 then
            let (rc, fs) = unlink os (zf_path f) fs in
            if rc \<noteq> 0 then Some (-1, fs) else roll_loop os rot al i fs
          else do {
            (rc, path) \<leftarrow> new_path rot (int i + 1);
            if rc \<noteq> 0 then Some (-1, fs)
            else let (rc, fs) = rename os (zf_path f) path fs in
              if rc \<noteq> 0 then Some (-1, fs) else roll_loop os rot al i fs
          })
   }"

definition zlog_rotater_roll_files :: "zlog_os \<Rightarrow> zlog_rotater \<Rightarrow> fs \<Rightarrow> (int \<times> fs) option" where
  "zlog_rotater_roll_files os rot fs = do {
     al \<leftarrow> files rot;
     (rc, fs) \<leftarrow> roll_loop os rot al (nat (zc_arraylist_len al)) fs;
     if rc \<noteq> 0 then Some (-1, fs) else move_base os rot 0 fs
   }"

definition zlog_rotater_clean :: "zlog_rotater \<Rightarrow> zlog_rotater" where
  "zlog_rotater_clean rot =
     \<lparr>lock_mutex = lock_mutex rot, base_path = None, archive_path = None, glob_path = [], num_start_len = 0,
      num_end_len = 0, num_width = 0, mv_type = NO_MOVE, max_count = 0, files = None\<rparr>"

definition zlog_rotater_lsmv ::
  "zlog_os \<Rightarrow> (nat \<Rightarrow> zlog_file option) \<Rightarrow> zlog_rotater \<Rightarrow> string \<Rightarrow> string option \<Rightarrow> int \<Rightarrow> fs \<Rightarrow>
   (int \<times> zlog_rotater \<times> fs) option" where
  "zlog_rotater_lsmv os junk rot base archive mx fs = do {
     (rc, rot) \<leftarrow> zlog_rotater_parse_archive_path (rot\<lparr>base_path := Some base, archive_path := archive, max_count := mx\<rparr>);
     if rc \<noteq> 0 then Some (-1, zlog_rotater_clean rot, fs)
     else do {
       (rc, rot) \<leftarrow> zlog_rotater_add_archive_files os junk fs rot;
       if rc \<noteq> 0 then Some (-1, zlog_rotater_clean rot, fs)
       else do {
         (rc, fs) \<leftarrow> (case mv_type rot of
            ROLLING \<Rightarrow> zlog_rotater_roll_files os rot fs
          | SEQUENCE \<Rightarrow> zlog_rotater_seq_files os rot fs
          | NO_MOVE \<Rightarrow> Some (0, fs));
         Some (if rc \<noteq> 0 then -1 else 0, zlog_rotater_clean rot, fs)
       }
     }
   }"

subsection \<open>Locking and the decision to rotate\<close>

definition zlog_rotater_new :: "alloc \<Rightarrow> bool \<Rightarrow> zlog_rotater option" where
  "zlog_rotater_new alloc opened =
     (if \<not> alloc 1168 then None
      else if \<not> opened then None
      else Some \<lparr>lock_mutex = False, base_path = None, archive_path = None, glob_path = [], num_start_len = 0,
        num_end_len = 0, num_width = 0, mv_type = NO_MOVE, max_count = 0, files = None\<rparr>)"

definition zlog_rotater_trylock :: "zlog_os \<Rightarrow> zlog_rotater \<Rightarrow> int \<times> zlog_rotater" where
  "zlog_rotater_trylock os rot =
     (if lock_mutex rot then (-1, rot)
      else if \<not> os_lock os then (-1, rot)
      else (0, rot\<lparr>lock_mutex := True\<rparr>))"

definition zlog_rotater_unlock :: "zlog_rotater \<Rightarrow> zlog_rotater" where
  "zlog_rotater_unlock rot = rot\<lparr>lock_mutex := False\<rparr>"

definition zlog_rotater_rotate ::
  "zlog_os \<Rightarrow> (nat \<Rightarrow> zlog_file option) \<Rightarrow> zlog_rotater \<Rightarrow> string \<Rightarrow> int \<Rightarrow> string option \<Rightarrow> int \<Rightarrow> int \<Rightarrow> fs \<Rightarrow>
   (int \<times> zlog_rotater \<times> fs) option" where
  "zlog_rotater_rotate os junk rot base msg_len archive archive_max_size archive_max_count fs =
     (let (rc, rot) = zlog_rotater_trylock os rot in
      if rc \<noteq> 0 then Some (0, rot, fs)
      else (case fs_get fs base of
         None \<Rightarrow> Some (-1, zlog_rotater_unlock rot, fs)
       | Some c \<Rightarrow>
           if (int (length c) + msg_len) mod 2 ^ 64 \<le> archive_max_size mod 2 ^ 64 then Some (0, zlog_rotater_unlock rot, fs)
           else do {
             (rc, rot, fs) \<leftarrow> zlog_rotater_lsmv os junk rot base archive archive_max_count fs;
             Some (if rc \<noteq> 0 then -1 else 0, zlog_rotater_unlock rot, fs)
           }))"

end
