(* ===== verification/Zlog_Rotation.thy ===== *)
theory Zlog_Rotation
  imports Zlog_Rotater
begin

section \<open>What a rotation does to the archives\<close>

text \<open>
  Names of archives are proved to read back as their numbers, the listing to be the sorted list of
  the archives whatever the order of the directory, and the moves to act on the file system as
  updates of a map. From these follow the two kinds of rotation, and what goes wrong in rolling.
\<close>

declare glob_match.simps [simp del] roll_loop.simps [simp del]

subsection \<open>Numbers in names\<close>

lemma hex_digit: "n < 10 \<Longrightarrow> is_digit (hex ! n) \<and> cnum (hex ! n) = 48 + n"
proof -
  have "\<forall>n\<in>{0..<10}. is_digit (hex ! n) \<and> cnum (hex ! n) = 48 + n" by code_simp
  then show "n < 10 \<Longrightarrow> is_digit (hex ! n) \<and> cnum (hex ! n) = 48 + n" by simp
qed

lemma digits10_step: "digits 10 n = (if n < 10 then [hex ! n] else digits 10 (n div 10) @ [hex ! (n mod 10)])"
  by (subst digits.simps) simp

lemma digits10_are_digits: "c \<in> set (digits 10 n) \<Longrightarrow> is_digit c"
proof (induction n rule: less_induct)
  case (less n)
  show ?case
  proof (cases "n < 10")
    case True
    then show ?thesis using less.prems hex_digit [of n] digits10_step [of n] by simp
  next
    case False
    then show ?thesis
      using less.prems less.IH [of "n div 10"] hex_digit [of "n mod 10"] digits10_step [of n] by auto
  qed
qed

lemma digits10_nonempty: "digits 10 n \<noteq> []"
  by (subst digits10_step) simp

lemma digits10_value: "foldl (\<lambda>a c. 10 * a + int (cnum c - 48)) 0 (digits 10 n) = int n"
proof (induction n rule: less_induct)
  case (less n)
  show ?case
  proof (cases "n < 10")
    case True
    then show ?thesis using hex_digit [of n] by (simp add: digits10_step [of n])
  next
    case False
    moreover have "10 * int (n div 10) + int (n mod 10) = int n" by presburger
    ultimately show ?thesis using less [of "n div 10"] hex_digit [of "n mod 10"] by (simp add: digits10_step [of n])
  qed
qed

lemma padded_value:
  "foldl (\<lambda>a c. 10 * a + int (cnum c - 48)) 0 (replicate z (CHR ''0'') @ digits 10 n) = int n"
proof -
  have "foldl (\<lambda>a c. 10 * a + int (cnum c - 48)) 0 (replicate z (CHR ''0'')) = 0"
    by (induction z) (simp_all add: cnum_def)
  then show ?thesis by (simp add: digits10_value)
qed

lemma digit_not_special: "is_digit c \<Longrightarrow> \<not> is_space c \<and> c \<noteq> CHR ''-'' \<and> c \<noteq> CHR ''+'' \<and> c \<noteq> CHR ''/'' \<and> c \<noteq> CHR ''.'' \<and> c \<noteq> CHR ''#''"
  by (auto simp: is_digit_def is_space_def cnum_def)

text \<open>What \<open>%0*d\<close> writes for a width and a number that are not negative.\<close>

definition padded :: "nat \<Rightarrow> nat \<Rightarrow> string" where
  "padded w i = replicate (w - length (digits 10 i)) (CHR ''0'') @ digits 10 i"

lemma format_0d_numeral: "format_0d (int w) (int i) = padded w i"
  by (simp add: format_0d_def padded_def Let_def)

lemma numeral_digits: "c \<in> set (padded w i) \<Longrightarrow> is_digit c"
  using digits10_are_digits by (auto simp: padded_def is_digit_def cnum_def)

lemma numeral_nonempty [simp]: "padded w i \<noteq> []"
  by (simp add: padded_def digits10_nonempty)

lemma numeral_width: "w \<le> length (padded w i)"
  by (simp add: padded_def)

lemma read_numeral:
  assumes "b = [] \<or> \<not> is_digit (hd b)"
  shows "read_number (padded w i @ b) = Some (int i, b)"
proof -
  obtain c r where cr: "padded w i = c # r" using numeral_nonempty by (metis neq_Nil_conv)
  then have c: "is_digit c" using numeral_digits [of c w i] by simp
  have t: "takeWhile is_digit (padded w i @ b) = padded w i" "dropWhile is_digit (padded w i @ b) = b"
    using assms numeral_digits by (simp_all add: takeWhile_append dropWhile_append) (cases b; auto)+
  have "(case padded w i @ b of [] \<Rightarrow> (False, []) | c # r \<Rightarrow> if c = CHR ''-'' then (True, r) else if c = CHR ''+'' then (False, r)
      else (False, padded w i @ b)) = (False, padded w i @ b)"
    using digit_not_special [OF c] by (simp add: cr)
  then show ?thesis using t padded_value [of "w - length (digits 10 i)" i] numeral_nonempty [of w i]
    unfolding padded_def [symmetric] by (simp add: read_number_def)
qed

lemma scan_numeral:
  assumes "b = [] \<or> \<not> is_digit (hd b)" and "i < 2 ^ 31"
  shows "scan_int (padded w i @ b) = Some (int i, length (padded w i))"
proof -
  obtain c r where cr: "padded w i = c # r" using numeral_nonempty by (metis neq_Nil_conv)
  then have "\<not> is_space c" using numeral_digits [of c w i] digit_not_special by simp
  then have "dropWhile is_space (padded w i @ b) = padded w i @ b" by (simp add: cr)
  then show ?thesis using read_numeral [OF assms(1), of w i] assms(2) by (simp add: scan_int_def)
qed

definition archive_name :: "string \<Rightarrow> nat \<Rightarrow> string \<Rightarrow> nat \<Rightarrow> string" where
  "archive_name a w b i = a @ padded w i @ b"

lemma inj_archive_name: "inj (archive_name a w b)"
proof (rule injI)
  fix i j assume "archive_name a w b i = archive_name a w b j"
  then have "read_number (padded w i) = read_number (padded w j)" by (simp add: archive_name_def)
  then show "i = j" using read_numeral [of "[]" w i] read_numeral [of "[]" w j] by simp
qed

subsection \<open>Patterns with one star\<close>

definition plain :: "string \<Rightarrow> bool" where
  "plain s \<longleftrightarrow> list_all (\<lambda>c. c \<noteq> CHR ''*'' \<and> c \<noteq> CHR ''?'' \<and> c \<noteq> CHR ''['' \<and> c \<noteq> CHR 0x5C) s"

lemma match_plain: "plain b \<Longrightarrow> glob_match start b b"
  by (induction b arbitrary: start) (auto simp: plain_def glob_match.simps)

lemma match_star: "plain b \<Longrightarrow> CHR ''/'' \<notin> set m \<Longrightarrow> glob_match False (CHR ''*'' # b) (m @ b)"
  by (induction m) (auto simp: glob_match.simps(2) match_plain)

lemma match_numeral:
  assumes "plain a" "plain b"
  shows "glob_match start (a @ CHR ''*'' # b) (a @ padded w i @ b)"
  using assms(1)
proof (induction a arbitrary: start)
  case Nil
  obtain c r where cr: "padded w i = c # r" using numeral_nonempty by (metis neq_Nil_conv)
  have d: "\<forall>x\<in>set (c # r). is_digit x" using numeral_digits [of _ w i] by (simp add: cr)
  then have "CHR ''/'' \<notin> set r" "c \<noteq> CHR ''/''" "c \<noteq> CHR ''.''" using digit_not_special by auto
  then show ?case using match_star [OF assms(2), of r] by (simp add: cr glob_match.simps(2))
next
  case (Cons x a)
  then show ?case by (auto simp: plain_def glob_match.simps(2))
qed


subsection \<open>The operations on the file system as updates of a map\<close>

lemma map_of_filter: "map_of (filter (\<lambda>f. P (fst f)) xs) = (\<lambda>p. if P p then map_of xs p else None)"
  by (induction xs) (auto simp: fun_eq_iff)

definition fs_ok :: "fs \<Rightarrow> bool" where
  "fs_ok fs \<longleftrightarrow> distinct (map fst (fs_files fs))"

lemma distinct_filter_fst: "distinct (map fst xs) \<Longrightarrow> distinct (map fst (filter P xs))"
  by (induction xs) auto

text \<open>What every step leaves: sound files, the same directories, no more files than before.\<close>

definition keeps :: "fs \<Rightarrow> fs \<Rightarrow> bool" where
  "keeps fs fs' \<longleftrightarrow> fs_ok fs' \<and> fs_dirs fs' = fs_dirs fs \<and> length (fs_files fs') \<le> length (fs_files fs)"

lemma keeps_trans: "keeps fs fs1 \<Longrightarrow> keeps fs1 fs' \<Longrightarrow> keeps fs fs'"
  by (simp add: keeps_def)

lemma keepsD: "keeps fs fs' \<Longrightarrow> fs_dirs fs' = fs_dirs fs" "keeps fs fs' \<Longrightarrow> fs_ok fs'"
  by (simp_all add: keeps_def)

definition calm :: "zlog_os \<Rightarrow> bool" where
  "calm os \<longleftrightarrow> (\<forall>n. os_alloc os n) \<and> (\<forall>p. \<not> os_refuse os p) \<and> \<not> os_glob_err os \<and> os_lock os"

lemma unlink_spec:
  assumes "calm os" "fs_get fs p = Some c" "fs_ok fs"
  shows "\<exists>fs'. unlink os p fs = (0, fs') \<and> fs_get fs' = (fs_get fs)(p := None) \<and> keeps fs fs'"
  using assms map_of_filter [of "\<lambda>q. q \<noteq> p" "fs_files fs"]
  by (auto simp: unlink_def calm_def fs_get_def fs_ok_def keeps_def distinct_filter_fst fun_eq_iff)

lemma rename_spec:
  assumes "calm os" "fs_get fs p = Some c" "fs_ok fs" "q \<notin> set (fs_dirs fs)" "p \<noteq> q"
  shows "\<exists>fs'. rename os p q fs = (0, fs') \<and> fs_get fs' = (fs_get fs)(p := None, q := Some c) \<and> keeps fs fs'"
proof -
  have "(p, c) \<in> set (fs_files fs)" using assms(2) by (simp add: fs_get_def map_of_SomeD)
  then have "length (filter (\<lambda>f. fst f \<noteq> p \<and> fst f \<noteq> q) (fs_files fs)) < length (fs_files fs)"
    by (rule length_filter_less) simp
  then show ?thesis using assms map_of_filter [of "\<lambda>r. r \<noteq> p \<and> r \<noteq> q" "fs_files fs"]
    by (auto simp: rename_def calm_def fs_get_def fs_ok_def keeps_def distinct_filter_fst fun_eq_iff)
qed

lemma fs_get_None_iff: "fs_get fs p = None \<longleftrightarrow> p \<notin> fst ` set (fs_files fs)"
  by (simp add: fs_get_def map_of_eq_None_iff)

subsection \<open>Listing the archives\<close>

lemma file_cmp_le: "zlog_file_cmp x y \<le> 0 \<longleftrightarrow> zf_index (the x) \<le> zf_index (the y)"
  by (simp add: zlog_file_cmp_def)

lemma file_cmp_preorder:
  "zlog_file_cmp x y > 0 \<Longrightarrow> zlog_file_cmp y x \<le> 0"
  "zlog_file_cmp x y \<le> 0 \<Longrightarrow> zlog_file_cmp y z \<le> 0 \<Longrightarrow> zlog_file_cmp x z \<le> 0"
  by (auto simp: zlog_file_cmp_def split: if_splits)

lemma add_files_spec:
  assumes "calm os" and "al_wf al" and "None \<notin> set (al_items al)"
    and "sorted_wrt (\<lambda>a b. zlog_file_cmp a b \<le> 0) (al_items al)" and "length (al_items al) + length pathv < 2 ^ 30"
  shows "\<exists>al'. add_files os junk rot pathv al = Some (0, al') \<and> al_wf al' \<and> None \<notin> set (al_items al') \<and>
    sorted_wrt (\<lambda>a b. zlog_file_cmp a b \<le> 0) (al_items al') \<and>
    mset (al_items al') = mset (al_items al) + mset (map Some (List.map_filter (zlog_file_check_new os rot) pathv))"
  using assms(2-)
proof (induction pathv arbitrary: al)
  case (Cons p pathv)
  show ?case
  proof (cases "zlog_file_check_new os rot p")
    case None
    then show ?thesis using Cons.IH [OF Cons.prems(1-3)] Cons.prems(4) by (simp add: List.map_filter_def)
  next
    case (Some f)
    have len: "al_len al = int (length (al_items al))" using Cons.prems(1) al_wfD(1) [OF Cons.prems(1)] by simp
    have room: "al_len al < al_size al \<or> al_size al < 2 ^ 30 \<and> os_alloc os (pointers (al_size al * 2))"
      using Cons.prems(4) len assms(1) al_wfD(2) [OF Cons.prems(1)] by (auto simp: calm_def)
    obtain al' where al': "zc_arraylist_sortadd (os_alloc os) junk al zlog_file_cmp (Some f) = Some (0, al')" "al_wf al'"
      "al_items al' = insert_behind zlog_file_cmp (Some f) (al_items al)"
      using sortadd_spec [where alloc = "os_alloc os", OF Cons.prems(1,2) room, of junk zlog_file_cmp "Some f"] by blast
    have ms: "mset (al_items al') = add_mset (Some f) (mset (al_items al))" using al'(3) by (simp add: mset_insert_behind)
    have "length (al_items al') = Suc (length (al_items al))" using ms by (metis size_add_mset size_mset)
    moreover have "None \<notin> set (al_items al')" using ms Cons.prems(2) by (metis insert_iff option.distinct(1) set_mset_add_mset_insert set_mset_mset)
    moreover have "sorted_wrt (\<lambda>a b. zlog_file_cmp a b \<le> 0) (al_items al')"
      unfolding al'(3) by (rule sorted_insert_behind [OF file_cmp_preorder Cons.prems(3)])
    ultimately obtain al'' where al'': "add_files os junk rot pathv al' = Some (0, al'')" "al_wf al''" "None \<notin> set (al_items al'')"
      "sorted_wrt (\<lambda>a b. zlog_file_cmp a b \<le> 0) (al_items al'')"
      "mset (al_items al'') = mset (al_items al') + mset (map Some (List.map_filter (zlog_file_check_new os rot) pathv))"
      using Cons.IH [OF al'(2)] Cons.prems(4) by auto
    then show ?thesis using Some al'(1) ms by (simp add: List.map_filter_def)
  qed
qed (simp add: List.map_filter_def)

lemma sorted_files_unique:
  assumes "sorted_wrt (\<lambda>a b. zlog_file_cmp a b \<le> 0) xs" and "mset xs = mset (map (\<lambda>i. Some (file i)) is)"
    and "\<And>i. i \<in> set is \<Longrightarrow> zf_index (file i) = int i" and "sorted_wrt (<) is"
  shows "xs = map (\<lambda>i. Some (file i)) is"
proof -
  have s: "set xs = (\<lambda>i. Some (file i)) ` set is" using assms(2) by (metis image_set set_mset_mset)
  have "length xs = length is" using assms(2) by (metis length_map size_mset)
  have "sorted (map (\<lambda>x. zf_index (the x)) xs)"
    using assms(1) by (simp add: sorted_map file_cmp_le)
  moreover have "mset (map (\<lambda>x. zf_index (the x)) xs) = mset (map int is)"
  proof -
    have "mset (map (\<lambda>x. zf_index (the x)) xs) = image_mset (\<lambda>x. zf_index (the x)) (mset (map (\<lambda>i. Some (file i)) is))"
      using assms(2) by simp
    also have "\<dots> = mset (map (\<lambda>i. zf_index (file i)) is)" by (simp add: image_mset.compositionality comp_def)
    also have "map (\<lambda>i. zf_index (file i)) is = map int is" using assms(3) by simp
    finally show ?thesis .
  qed
  moreover have "sorted (map int is)" using assms(4) by (simp add: sorted_map strict_sorted_iff)
  ultimately have "map (\<lambda>x. zf_index (the x)) xs = map int is" by (metis properties_for_sort)
  moreover have "x = Some (file (nat (zf_index (the x))))" if "x \<in> set xs" for x
    using that s assms(3) by auto
  then have "xs = map (\<lambda>n. Some (file (nat n))) (map (\<lambda>x. zf_index (the x)) xs)" by (simp add: map_idI comp_def)
  ultimately show ?thesis by (simp add: comp_def)
qed


subsection \<open>From a path with a number to the archives\<close>

text \<open>
  The archive path \<open>ap\<close> of a log file \<open>base\<close> says that its archives are called \<open>a\<close>, a number of at
  least \<open>w\<close> digits, \<open>b\<close>, as in \<open>aa.#2r.log\<close>; without a path they are \<open>base.0\<close>, \<open>base.1\<close> and so on.
\<close>

definition archive_form :: "mv_type \<Rightarrow> string \<Rightarrow> string \<Rightarrow> nat \<Rightarrow> string \<Rightarrow> string \<Rightarrow> bool" where
  "archive_form k base a w b ap \<longleftrightarrow>
     (k = ROLLING \<and> ap = [] \<and> a = base @ ''.'' \<and> w = 0 \<and> b = [] \<or>
      k \<noteq> NO_MOVE \<and> CHR ''#'' \<notin> set a \<and>
        ap = a @ ''#'' @ (if w = 0 then [] else digits 10 w) @ (if k = ROLLING then ''r'' else ''s'') @ b) \<and>
     plain a \<and> plain b \<and> (b = [] \<or> \<not> is_digit (hd b) \<and> last b \<noteq> CHR ''/'') \<and> w < 2 ^ 31 \<and> length a + 1 + length b < PATH_SIZE"

lemma parse_archive_path:
  assumes "archive_form k base a w b ap" and "base_path rot = Some base" and "archive_path rot = Some ap" and "num_width rot = 0"
  shows "zlog_rotater_parse_archive_path rot =
    Some (0, rot\<lparr>glob_path := a @ ''*'' @ b, num_start_len := length a, num_end_len := length a + 1,
      num_width := int w, mv_type := k\<rparr>)"
proof (cases "ap = []")
  case True
  then have e: "k = ROLLING" "a = base @ ''.''" "w = 0" "b = []" "length base < 1023"
    using assms(1) by (auto simp: archive_form_def PATH_SIZE_def)
  then show ?thesis using assms True
    by (simp add: zlog_rotater_parse_archive_path_def snprintf_def PATH_SIZE_def Let_def)
next
  case False
  define ws where "ws = (if w = 0 then [] else digits 10 w)"
  define c where "c = (if k = ROLLING then CHR ''r'' else CHR ''s'')"
  have f: "k \<noteq> NO_MOVE" "CHR ''#'' \<notin> set a" "ap = a @ CHR ''#'' # ws @ c # b" "w < 2 ^ 31" "length a + 1 + length b < PATH_SIZE"
    using assms(1) False by (auto simp: archive_form_def ws_def c_def)
  have len: "takeWhile (\<lambda>c. c \<noteq> CHR ''#'') ap = a" using f(2,3) by (simp add: takeWhile_append)
  have c: "c = CHR ''r'' \<or> c = CHR ''s''" "(if c = CHR ''r'' then ROLLING else SEQUENCE) = k"
    using f(1) by (cases k; simp add: c_def)+
  then have nd: "\<not> is_digit c \<and> \<not> is_space c \<and> c \<noteq> CHR ''-'' \<and> c \<noteq> CHR ''+''"
    by (auto simp: is_digit_def is_space_def cnum_def)
  have scan: "scan_int (ws @ c # b) = (if w = 0 then None else Some (int w, length ws))"
  proof (cases "w = 0")
    case True
    then show ?thesis using nd by (simp add: ws_def scan_int_def read_number_def Let_def)
  next
    case False
    have "padded 0 w = digits 10 w" by (simp add: padded_def)
    then show ?thesis using False nd f(4) scan_numeral [of "c # b" w 0] by (simp add: ws_def)
  qed
  have d: "(case scan_int (ws @ c # b) of None \<Rightarrow> (rot, 1) | Some (w, k) \<Rightarrow> (rot\<lparr>num_width := w\<rparr>, k + 1)) =
      (rot\<lparr>num_width := int w\<rparr>, length ws + 1)"
    using assms(4) unfolding scan by (simp add: ws_def)
  have q: "drop (length ws + 1) (CHR ''#'' # ws @ c # b) = c # b" by simp
  have p: "drop (length a) ap = CHR ''#'' # ws @ c # b" "take (length a) ap = a" "\<not> length ap \<le> length a" using f(3) by simp_all
  have out: "snprintf (PATH_SIZE - length a) (CHR ''*'' # b) = (int (Suc (length b)), CHR ''*'' # b)" "\<not> length a > PATH_SIZE - 1"
    "\<not> int (Suc (length b)) > int (PATH_SIZE - length a)"
    using f(5) by (auto simp: snprintf_def)
  show ?thesis
    using False out c
    by (simp add: zlog_rotater_parse_archive_path_def assms(2,3) len p d q Let_def del: of_nat_Suc)
qed

definition file_of :: "string \<Rightarrow> nat \<Rightarrow> string \<Rightarrow> nat \<Rightarrow> zlog_file" where
  "file_of a w b i = \<lparr>zf_index = int i, zf_path = archive_name a w b i\<rparr>"

lemma check_new_archive:
  assumes "calm os" and "base_path rot = Some base" and "num_start_len rot = length a" and "num_width rot = int w"
    and "b = [] \<or> \<not> is_digit (hd b) \<and> last b \<noteq> CHR ''/''"
    and "archive_name a w b i \<noteq> base" and "length (archive_name a w b i) < PATH_SIZE" and "i < 2 ^ 31"
  shows "zlog_file_check_new os rot (archive_name a w b i) = Some (file_of a w b i)"
proof -
  have "is_digit (last (padded w i))" using numeral_digits [of "last (padded w i)" w i] by simp
  then have l: "last (padded w i) \<noteq> CHR ''/''" using digit_not_special by blast
  have "last (archive_name a w b i) \<noteq> CHR ''/''" using assms(5) l by (cases b) (auto simp: archive_name_def)
  moreover have "drop (length a) (archive_name a w b i) = padded w i @ b" by (simp add: archive_name_def)
  moreover have "scan_int (padded w i @ b) = Some (int i, length (padded w i))"
    using scan_numeral [of b i w] assms(5,8) by blast
  ultimately show ?thesis
    using assms(1-4,6,7) numeral_width [of w i] by (auto simp: zlog_file_check_new_def calm_def snprintf_def file_of_def)
qed

lemma new_path_archive:
  assumes "glob_path rot = a @ ''*'' @ b" "num_start_len rot = length a" "num_end_len rot = length a + 1" "num_width rot = int w"
    and "length (archive_name a w b i) < PATH_SIZE"
  shows "new_path rot (int i) = Some (0, archive_name a w b i)"
proof -
  have "1 \<le> length (padded w i)" by (simp add: Suc_le_eq)
  then have "length a + 1 < PATH_SIZE" using assms(5) by (simp add: archive_name_def)
  then show ?thesis using assms by (simp add: new_path_def cstr_at_def snprintf_def archive_name_def format_0d_numeral)
qed


subsection \<open>Rolling\<close>

text \<open>A rotater that knows its archives: \<open>names_ok\<close> for the numbers up to \<open>n\<close>.\<close>

definition names_ok :: "zlog_rotater \<Rightarrow> fs \<Rightarrow> string \<Rightarrow> nat \<Rightarrow> string \<Rightarrow> nat \<Rightarrow> bool" where
  "names_ok rot fs a w b n \<longleftrightarrow> glob_path rot = a @ ''*'' @ b \<and> num_start_len rot = length a \<and>
     num_end_len rot = length a + 1 \<and> num_width rot = int w \<and>
     (\<forall>i\<le>n. length (archive_name a w b i) < PATH_SIZE \<and> archive_name a w b i \<notin> set (fs_dirs fs))"

lemma names_ok_path: "names_ok rot fs a w b n \<Longrightarrow> i \<le> n \<Longrightarrow> new_path rot (int i) = Some (0, archive_name a w b i)"
  unfolding names_ok_def by (rule new_path_archive) auto

lemma arraylist_get_items:
  assumes "al_wf al" and "i < length (al_items al)"
  shows "zc_arraylist_get al (int i) = Some (al_items al ! i)"
  using assms al_wfD(1,2,5) [OF assms(1)] by (auto simp: zc_arraylist_get_def block_read_def al_items_def)

definition shifted :: "int \<Rightarrow> string list \<Rightarrow> nat \<Rightarrow> string option" where
  "shifted mx cs i = (if 0 < i \<and> (mx \<le> 0 \<or> int i < mx) then Some (cs ! (i - 1)) else None)"

lemma roll_loop_spec:
  assumes "calm os" and "names_ok rot fs a w b n" and "al_wf al"
    and "al_items al = map (\<lambda>i. Some (file_of a w b i)) [0..<n]" and "fs_ok fs"
    and "k \<le> n" and "\<forall>i<k. fs_get fs (archive_name a w b i) = Some (cs ! i)" and "fs_get fs (archive_name a w b k) = None"
  shows "\<exists>fs'. roll_loop os rot al k fs = Some (0, fs') \<and> keeps fs fs' \<and>
    (\<forall>i. fs_get fs' (archive_name a w b i) =
       (if i \<le> k then shifted (max_count rot) cs i else fs_get fs (archive_name a w b i))) \<and>
    (\<forall>p. p \<notin> range (archive_name a w b) \<longrightarrow> fs_get fs' p = fs_get fs p)"
  using assms(2,5-8)
proof (induction k arbitrary: fs)
  case 0
  then show ?case by (auto simp: roll_loop.simps shifted_def keeps_def)
next
  case (Suc k)
  let ?arch = "archive_name a w b"
  note inj = inj_archive_name [of a w b, THEN injD]
  have x: "zc_arraylist_get al (int k) = Some (Some (file_of a w b k))"
    using Suc.prems(3) arraylist_get_items [OF assms(3), of k] by (simp add: assms(4))
  have get: "fs_get fs (?arch k) = Some (cs ! k)" using Suc.prems(4) by simp
  show ?case
  proof (cases "max_count rot > 0 \<and> int k \<ge> max_count rot - 1")
    case True
    obtain fs1 where u: "unlink os (?arch k) fs = (0, fs1)" "fs_get fs1 = (fs_get fs)(?arch k := None)" "keeps fs fs1"
      using unlink_spec [OF assms(1) get Suc.prems(2)] by blast
    have "names_ok rot fs1 a w b n" using Suc.prems(1) keepsD [OF u(3)] by (simp add: names_ok_def)
    moreover have "\<forall>i<k. fs_get fs1 (?arch i) = Some (cs ! i)" using Suc.prems(4) u(2) inj by fastforce
    moreover have "fs_get fs1 (?arch k) = None" using u(2) by simp
    ultimately obtain fs' where fs': "roll_loop os rot al k fs1 = Some (0, fs')" "keeps fs1 fs'"
      "\<forall>i. fs_get fs' (?arch i) = (if i \<le> k then shifted (max_count rot) cs i else fs_get fs1 (?arch i))"
      "\<forall>p. p \<notin> range ?arch \<longrightarrow> fs_get fs' p = fs_get fs1 p"
      using Suc.IH [of fs1] Suc.prems(3) keepsD [OF u(3)] by auto
    have "fs_get fs' (?arch i) = (if i \<le> Suc k then shifted (max_count rot) cs i else fs_get fs (?arch i))" for i
      using fs'(3) u(2) True Suc.prems(5) inj [of i k] by (cases "i = Suc k") (auto simp: shifted_def)
    moreover have "roll_loop os rot al (Suc k) fs = Some (0, fs')"
      using x True u(1) fs'(1) by (simp add: roll_loop.simps file_of_def)
    ultimately show ?thesis using fs'(2,4) u(2) keeps_trans [OF u(3)] by auto
  next
    case False
    have q: "new_path rot (int k + 1) = Some (0, ?arch (Suc k))" "?arch (Suc k) \<notin> set (fs_dirs fs)"
      using names_ok_path [OF Suc.prems(1), of "Suc k"] Suc.prems(1,3) by (simp_all add: names_ok_def add.commute)
    have ne: "?arch k \<noteq> ?arch (Suc k)" using inj [of k "Suc k"] by auto
    obtain fs1 where u: "rename os (?arch k) (?arch (Suc k)) fs = (0, fs1)"
      "fs_get fs1 = (fs_get fs)(?arch k := None, ?arch (Suc k) := Some (cs ! k))" "keeps fs fs1"
      using rename_spec [OF assms(1) get Suc.prems(2) q(2) ne] by blast
    have "names_ok rot fs1 a w b n" using Suc.prems(1) keepsD [OF u(3)] by (simp add: names_ok_def)
    moreover have "\<forall>i<k. fs_get fs1 (?arch i) = Some (cs ! i)" using Suc.prems(4) u(2) inj by fastforce
    moreover have "fs_get fs1 (?arch k) = None" using u(2) ne by simp
    ultimately obtain fs' where fs': "roll_loop os rot al k fs1 = Some (0, fs')" "keeps fs1 fs'"
      "\<forall>i. fs_get fs' (?arch i) = (if i \<le> k then shifted (max_count rot) cs i else fs_get fs1 (?arch i))"
      "\<forall>p. p \<notin> range ?arch \<longrightarrow> fs_get fs' p = fs_get fs1 p"
      using Suc.IH [of fs1] Suc.prems(3) keepsD [OF u(3)] by auto
    have "fs_get fs' (?arch i) = (if i \<le> Suc k then shifted (max_count rot) cs i else fs_get fs (?arch i))" for i
      using fs'(3) u(2) False inj [of i k] inj [of i "Suc k"] by (cases "i = Suc k") (auto simp: shifted_def)
    moreover have "roll_loop os rot al (Suc k) fs = Some (0, fs')"
      using x False u(1) fs'(1) q by (auto simp: roll_loop.simps file_of_def)
    ultimately show ?thesis using fs'(2,4) u(2) keeps_trans [OF u(3)] by auto
  qed
qed

lemma move_base_spec:
  assumes "calm os" and "names_ok rot fs a w b n" and "j \<le> n" and "base_path rot = Some base" and "fs_ok fs"
    and "fs_get fs base = Some c" and "base \<noteq> archive_name a w b j"
  shows "\<exists>fs'. move_base os rot (int j) fs = Some (0, fs') \<and> keeps fs fs' \<and>
    fs_get fs' = (fs_get fs)(base := None, archive_name a w b j := Some c)"
proof -
  have "archive_name a w b j \<notin> set (fs_dirs fs)" using assms(2,3) by (simp add: names_ok_def)
  then show ?thesis
    using rename_spec [OF assms(1,6,5) _ assms(7)] names_ok_path [OF assms(2,3)] assms(4) by (auto simp: move_base_def)
qed


text \<open>The archives of \<open>base\<close> are the only files the pattern finds, and \<open>is\<close> are their numbers.\<close>

definition archives_are :: "fs \<Rightarrow> string \<Rightarrow> string \<Rightarrow> nat \<Rightarrow> string \<Rightarrow> nat list \<Rightarrow> bool" where
  "archives_are fs base a w b is \<longleftrightarrow> fs_ok fs \<and> sorted_wrt (<) is \<and>
     (\<forall>i. i \<in> set is \<longleftrightarrow> fs_get fs (archive_name a w b i) \<noteq> None) \<and> base \<notin> range (archive_name a w b) \<and>
     (\<forall>p. fs_get fs p \<noteq> None \<and> p \<noteq> base \<and> glob_match True (a @ ''*'' @ b) p \<longrightarrow> p \<in> range (archive_name a w b)) \<and>
     length (fs_files fs) + length (fs_dirs fs) < 2 ^ 30"

lemma map_filter_distinct:
  assumes "distinct xs" and "\<And>x y z. f x = Some z \<Longrightarrow> f y = Some z \<Longrightarrow> x = y"
  shows "distinct (List.map_filter f xs)"
  using assms(1) by (induction xs) (auto simp: List.map_filter_def dest: assms(2) split: option.splits)

lemma set_map_filter: "set (List.map_filter f xs) = {y. \<exists>x\<in>set xs. f x = Some y}"
  by (force simp: List.map_filter_def)

lemma check_new_path: "zlog_file_check_new os rot p = Some f \<Longrightarrow> zf_path f = p"
  by (auto simp: zlog_file_check_new_def snprintf_def Let_def split: if_splits prod.splits)

lemma list_archives:
  assumes "calm os" and "names_ok rot fs a w b n" and "base_path rot = Some base" and "plain a" and "plain b"
    and "b = [] \<or> \<not> is_digit (hd b) \<and> last b \<noteq> CHR ''/''" and "archives_are fs base a w b is"
    and "\<forall>i\<in>set is. i \<le> n" and "n < 2 ^ 31"
  shows "\<exists>al. zlog_rotater_add_archive_files os junk fs rot = Some (0, rot\<lparr>files := Some al\<rparr>) \<and> al_wf al \<and>
    al_items al = map (\<lambda>i. Some (file_of a w b i)) is"
proof -
  let ?arch = "archive_name a w b" and ?check = "zlog_file_check_new os rot"
  define names where "names = filter (glob_match True (glob_path rot)) (map fst (fs_files fs))"
  define dirs where "dirs = map (\<lambda>d. d @ ''/'') (filter (glob_match True (glob_path rot)) (fs_dirs fs))"
  have g: "glob_path rot = a @ ''*'' @ b" "num_start_len rot = length a" "num_width rot = int w" using assms(2) by (auto simp: names_ok_def)
  note ar = assms(7) [unfolded archives_are_def]
  obtain al0 :: "zlog_file zc_arraylist" where al0: "zc_arraylist_new (os_alloc os) True = Some al0"
    using assms(1) by (simp add: zc_arraylist_new_def calm_def)
  have new: "al_wf al0" "al_items al0 = []" using new_wf [OF al0] by auto
  have chk: "?check (?arch i) = Some (file_of a w b i)" if "i \<in> set is" for i
    using that assms(2,8,9) ar check_new_archive [OF assms(1,3) g(2,3) assms(6), of i] by (fastforce simp: names_ok_def)
  have nm: "p \<in> set names \<longleftrightarrow> glob_match True (a @ ''*'' @ b) p \<and> fs_get fs p \<noteq> None" for p
    unfolding names_def g(1) using fs_get_None_iff [of fs p] by auto
  have filt: "List.map_filter ?check (names @ dirs) = List.map_filter ?check names"
    by (auto simp: List.map_filter_def dirs_def zlog_file_check_new_def)
  have mem: "set (List.map_filter ?check names) = file_of a w b ` set is"
  proof (intro equalityI subsetI)
    fix f assume "f \<in> set (List.map_filter ?check names)"
    then obtain p where p: "p \<in> set names" "?check p = Some f" by (auto simp: set_map_filter)
    then have "p \<noteq> base" using assms(3) by (auto simp: zlog_file_check_new_def)
    then obtain i where i: "p = ?arch i" using p(1) ar nm by blast
    then have "i \<in> set is" using p(1) ar nm by blast
    then show "f \<in> file_of a w b ` set is" using chk p(2) i by auto
  next
    fix f assume "f \<in> file_of a w b ` set is"
    then obtain i where i: "i \<in> set is" "f = file_of a w b i" by blast
    have "?arch i \<in> set names" using i(1) ar nm match_numeral [OF assms(4,5)] by (simp add: archive_name_def)
    then show "f \<in> set (List.map_filter ?check names)" using chk [OF i(1)] i(2) by (auto simp: set_map_filter)
  qed
  have "distinct (List.map_filter ?check names)"
  proof (rule map_filter_distinct)
    show "distinct names" using ar by (simp add: names_def fs_ok_def)
  qed (use check_new_path in metis)
  moreover have "distinct (map (file_of a w b) is)"
    using ar by (simp add: distinct_map strict_sorted_iff inj_on_def file_of_def)
  ultimately have ms: "mset (List.map_filter ?check names) = mset (map (file_of a w b) is)"
    using mem by (metis set_eq_iff_mset_eq_distinct set_map)
  have len: "length (al_items al0) + length (names @ dirs) < 2 ^ 30"
  proof -
    have "length names \<le> length (fs_files fs)" unfolding names_def by (metis length_filter_le length_map)
    moreover have "length dirs \<le> length (fs_dirs fs)" by (simp add: dirs_def)
    ultimately show ?thesis using ar new(2) by simp
  qed
  obtain al where al: "add_files os junk rot (names @ dirs) al0 = Some (0, al)" "al_wf al"
    "sorted_wrt (\<lambda>a b. zlog_file_cmp a b \<le> 0) (al_items al)"
    "mset (al_items al) = mset (map Some (List.map_filter ?check (names @ dirs)))"
    using add_files_spec [OF assms(1) new(1) _ _ len, of junk rot] new(2) by auto
  have "mset (al_items al) = mset (map (\<lambda>i. Some (file_of a w b i)) is)"
    using al(4) ms unfolding filt by (metis (no_types, lifting) list.map_comp mset_map comp_def map_eq_conv)
  then have items: "al_items al = map (\<lambda>i. Some (file_of a w b i)) is"
    using sorted_files_unique [OF al(3)] ar by (auto simp: file_of_def)
  have "glob os (glob_path rot) fs = (if names @ dirs = [] then GLOB_NOMATCH else GLOB_OK (names @ dirs))"
    using assms(1) by (simp add: glob_def calm_def names_def dirs_def Let_def)
  then show ?thesis using al0 al(1,2) items by (auto simp: zlog_rotater_add_archive_files_def)
qed


lemma seq_unlink_spec:
  assumes "calm os" and "fs_ok fs" and "distinct xs" and "\<forall>j\<in>set xs. fs_get fs (archive_name a w b j) \<noteq> None" and "0 < mx"
  shows "\<exists>fs'. seq_unlink os mx len i (map (\<lambda>j. Some (file_of a w b j)) xs) fs = Some (0, fs') \<and> keeps fs fs' \<and>
    fs_get fs' = (\<lambda>p. if p \<in> archive_name a w b ` set (take (nat (len - mx - i)) xs) then None else fs_get fs p)"
  using assms(2-4)
proof (induction xs arbitrary: i fs)
  case (Cons x xs)
  let ?arch = "archive_name a w b"
  note inj = inj_archive_name [of a w b, THEN injD]
  show ?case
  proof (cases "i < len - mx")
    case True
    obtain c where "fs_get fs (?arch x) = Some c" using Cons.prems(3) by auto
    then obtain fs1 where u: "unlink os (?arch x) fs = (0, fs1)" "fs_get fs1 = (fs_get fs)(?arch x := None)" "keeps fs fs1"
      using unlink_spec [OF assms(1) _ Cons.prems(1)] by blast
    have "fs_get fs1 (?arch j) \<noteq> None" if "j \<in> set xs" for j using that Cons.prems(2,3) u(2) inj [of j x] by auto
    then obtain fs' where fs': "seq_unlink os mx len (i + 1) (map (\<lambda>j. Some (file_of a w b j)) xs) fs1 = Some (0, fs')" "keeps fs1 fs'"
      "fs_get fs' = (\<lambda>p. if p \<in> ?arch ` set (take (nat (len - mx - (i + 1))) xs) then None else fs_get fs1 p)"
      using Cons.IH [of fs1 "i + 1"] Cons.prems(2) keepsD [OF u(3)] by auto
    have "nat (len - mx - i) = Suc (nat (len - mx - (i + 1)))" using True by simp
    then show ?thesis using True assms(5) u fs' keeps_trans [OF u(3) fs'(2)] by (auto simp: file_of_def fun_eq_iff)
  next
    case False
    then have "nat (len - mx - i) = 0" "nat (len - mx - (i + 1)) = 0" by simp_all
    then show ?thesis using False Cons.IH [of fs "i + 1"] Cons.prems by simp
  qed
qed (simp add: keeps_def)

lemma seq_unlink_none: "\<not> 0 < mx \<Longrightarrow> seq_unlink os mx len i xs fs = Some (0, fs)"
  by (induction xs arbitrary: i) auto

subsection \<open>A whole rotation\<close>

definition idle :: "zlog_rotater \<Rightarrow> bool" where
  "idle rot \<longleftrightarrow> zlog_rotater_clean rot = rot \<and> \<not> lock_mutex rot"

definition room_for :: "fs \<Rightarrow> string \<Rightarrow> nat \<Rightarrow> string \<Rightarrow> nat \<Rightarrow> bool" where
  "room_for fs a w b n \<longleftrightarrow> n < 2 ^ 31 \<and> (\<forall>i\<le>n. length (archive_name a w b i) < PATH_SIZE \<and> archive_name a w b i \<notin> set (fs_dirs fs))"

lemma clean_idle: "idle rot \<Longrightarrow> zlog_rotater_clean (rot\<lparr>lock_mutex := l, base_path := x1, archive_path := x2, glob_path := x3,
    num_start_len := x4, num_end_len := x5, num_width := x6, mv_type := x7, max_count := x8, files := x9\<rparr>) = rot\<lparr>lock_mutex := l\<rparr>"
  unfolding idle_def zlog_rotater_clean_def by (cases rot) simp

lemma rotate_reduces:
  assumes "calm os" and "idle rot" and "archive_form k base a w b ap" and "archives_are fs base a w b is"
    and "\<forall>i\<in>set is. i \<le> n" and "room_for fs a w b n" and "fs_get fs base = Some c"
    and "archive_max_size mod 2 ^ 64 < (int (length c) + msg_len) mod 2 ^ 64"
  shows "\<exists>rot' al. al_wf al \<and> al_items al = map (\<lambda>i. Some (file_of a w b i)) is \<and> names_ok rot' fs a w b n \<and>
    base_path rot' = Some base \<and> max_count rot' = mx \<and> files rot' = Some al \<and>
    zlog_rotater_rotate os junk rot base msg_len (Some ap) archive_max_size mx fs = do {
      (rc, fs) \<leftarrow> (case k of ROLLING \<Rightarrow> zlog_rotater_roll_files os rot' fs | SEQUENCE \<Rightarrow> zlog_rotater_seq_files os rot' fs
        | NO_MOVE \<Rightarrow> Some (0, fs));
      Some (if rc \<noteq> 0 then -1 else 0, rot, fs) }"
proof -
  note form = assms(3) [unfolded archive_form_def]
  define rot0 where "rot0 = rot\<lparr>lock_mutex := True, base_path := Some base, archive_path := Some ap, max_count := mx\<rparr>"
  define rot1 where "rot1 = rot0\<lparr>glob_path := a @ ''*'' @ b, num_start_len := length a, num_end_len := length a + 1,
      num_width := int w, mv_type := k\<rparr>"
  have w0: "num_width rot = 0" "\<not> lock_mutex rot" using assms(2) by (auto simp: idle_def zlog_rotater_clean_def)
  have parse: "zlog_rotater_parse_archive_path rot0 = Some (0, rot1)"
    using parse_archive_path [OF assms(3), of rot0] w0 by (simp add: rot0_def rot1_def)
  have names: "names_ok rot1 fs a w b n" using assms(6) by (simp add: names_ok_def room_for_def rot1_def)
  obtain al where al: "zlog_rotater_add_archive_files os junk fs rot1 = Some (0, rot1\<lparr>files := Some al\<rparr>)" "al_wf al"
    "al_items al = map (\<lambda>i. Some (file_of a w b i)) is"
    using list_archives [OF assms(1) names _ _ _ _ assms(4,5), of junk] form assms(6) by (auto simp: rot1_def rot0_def room_for_def)
  define rot2 where "rot2 = rot1\<lparr>files := Some al\<rparr>"
  have fields: "names_ok rot2 fs a w b n" "base_path rot2 = Some base" "max_count rot2 = mx" "files rot2 = Some al" "mv_type rot2 = k"
    using names by (simp_all add: rot2_def rot1_def rot0_def names_ok_def)
  have clean: "zlog_rotater_clean rot2 = rot\<lparr>lock_mutex := True\<rparr>"
    unfolding rot2_def rot1_def rot0_def using clean_idle [OF assms(2)] by (cases rot) simp
  have lsmv: "zlog_rotater_lsmv os junk (rot\<lparr>lock_mutex := True\<rparr>) base (Some ap) mx fs = do {
      (rc, fs) \<leftarrow> (case k of ROLLING \<Rightarrow> zlog_rotater_roll_files os rot2 fs | SEQUENCE \<Rightarrow> zlog_rotater_seq_files os rot2 fs
        | NO_MOVE \<Rightarrow> Some (0, fs));
      Some (if rc \<noteq> 0 then -1 else 0, rot\<lparr>lock_mutex := True\<rparr>, fs) }"
    using parse al(1) unfolding zlog_rotater_lsmv_def rot0_def [symmetric] rot2_def [symmetric]
    by (simp add: rot0_def [symmetric] rot2_def [symmetric] clean fields(5))
  have unlock: "zlog_rotater_unlock (rot\<lparr>lock_mutex := True\<rparr>) = rot" using w0(2) by (cases rot) (simp add: zlog_rotater_unlock_def)
  have "zlog_rotater_trylock os rot = (0, rot\<lparr>lock_mutex := True\<rparr>)"
    using w0(2) assms(1) by (simp add: zlog_rotater_trylock_def calm_def)
  then show ?thesis using fields al(2,3) assms(7,8)
    by (intro exI [of _ rot2] exI [of _ al]) (auto simp: zlog_rotater_rotate_def lsmv unlock split: Option.bind_split)
qed


definition kept :: "int \<Rightarrow> string list \<Rightarrow> string list" where
  "kept mx cs = (if mx > 0 then take (nat mx) cs else cs)"

definition holds_archives :: "fs \<Rightarrow> string \<Rightarrow> string \<Rightarrow> nat \<Rightarrow> string \<Rightarrow> string list \<Rightarrow> bool" where
  "holds_archives fs base a w b cs \<longleftrightarrow> archives_are fs base a w b [0..<length cs] \<and>
     (\<forall>i<length cs. fs_get fs (archive_name a w b i) = Some (cs ! i))"

lemma archives_after:
  assumes "archives_are fs base a w b is" and "keeps fs fs'" and "sorted_wrt (<) is'"
    and "\<forall>i. i \<in> set is' \<longleftrightarrow> fs_get fs' (archive_name a w b i) \<noteq> None"
    and "\<forall>p. p \<notin> range (archive_name a w b) \<and> p \<noteq> base \<longrightarrow> fs_get fs' p = fs_get fs p"
  shows "archives_are fs' base a w b is'"
  unfolding archives_are_def
proof (intro conjI)
  note ar = assms(1) [unfolded archives_are_def] and k = assms(2) [unfolded keeps_def]
  show "fs_ok fs'" "length (fs_files fs') + length (fs_dirs fs') < 2 ^ 30" "base \<notin> range (archive_name a w b)"
    using ar k by simp_all
  show "\<forall>p. fs_get fs' p \<noteq> None \<and> p \<noteq> base \<and> glob_match True (a @ ''*'' @ b) p \<longrightarrow> p \<in> range (archive_name a w b)"
    using ar assms(5) by metis
qed (use assms(3,4) in simp_all)

lemma roll_rotation:
  assumes "calm os" and "idle rot" and "archive_form ROLLING base a w b ap" and "holds_archives fs base a w b cs"
    and "room_for fs a w b (length cs)" and "fs_get fs base = Some c"
    and "archive_max_size mod 2 ^ 64 < (int (length c) + msg_len) mod 2 ^ 64"
  shows "\<exists>fs'. zlog_rotater_rotate os junk rot base msg_len (Some ap) archive_max_size mx fs = Some (0, rot, fs') \<and>
    holds_archives fs' base a w b (kept mx (c # cs)) \<and> fs_get fs' base = None \<and> keeps fs fs' \<and>
    (\<forall>p. p \<notin> range (archive_name a w b) \<and> p \<noteq> base \<longrightarrow> fs_get fs' p = fs_get fs p)"
proof -
  let ?arch = "archive_name a w b" and ?n = "length cs"
  note inj = inj_archive_name [of a w b, THEN injD]
  have ar: "archives_are fs base a w b [0..<?n]" "\<forall>i<?n. fs_get fs (?arch i) = Some (cs ! i)"
    using assms(4) by (simp_all add: holds_archives_def)
  have beyond: "fs_get fs (?arch i) = None" if "?n \<le> i" for i
    using that ar(1) unfolding archives_are_def by (metis atLeastLessThan_iff not_less set_upt)
  have base: "base \<notin> range ?arch" "fs_ok fs" using ar(1) by (auto simp: archives_are_def)
  obtain rot' al where r: "al_wf al" "al_items al = map (\<lambda>i. Some (file_of a w b i)) [0..<?n]" "names_ok rot' fs a w b ?n"
    "base_path rot' = Some base" "max_count rot' = mx" "files rot' = Some al"
    "zlog_rotater_rotate os junk rot base msg_len (Some ap) archive_max_size mx fs = do {
      (rc, fs) \<leftarrow> zlog_rotater_roll_files os rot' fs; Some (if rc \<noteq> 0 then -1 else 0, rot, fs) }"
    using rotate_reduces [OF assms(1-3) ar(1) _ assms(5-7), of mx junk] by auto
  obtain fs1 where fs1: "roll_loop os rot' al ?n fs = Some (0, fs1)" "keeps fs fs1"
    "\<forall>i. fs_get fs1 (?arch i) = (if i \<le> ?n then shifted mx cs i else fs_get fs (?arch i))"
    "\<forall>p. p \<notin> range ?arch \<longrightarrow> fs_get fs1 p = fs_get fs p"
    using roll_loop_spec [OF assms(1) r(3,1,2) base(2) order_refl ar(2) beyond [OF order_refl]] r(5) by auto
  have names1: "names_ok rot' fs1 a w b ?n" using r(3) keepsD [OF fs1(2)] by (simp add: names_ok_def)
  have "fs_get fs1 base = Some c" using fs1(4) base(1) assms(6) by simp
  then obtain fs' where fs': "move_base os rot' 0 fs1 = Some (0, fs')" "keeps fs1 fs'"
    "fs_get fs' = (fs_get fs1)(base := None, ?arch 0 := Some c)"
    using move_base_spec [OF assms(1) names1 le0 r(4) keepsD(2) [OF fs1(2)]] base(1) unfolding keeps_def by fastforce
  have len: "nat (al_len al) = ?n" using r(1,2) length_al_items [OF r(1)] by simp
  have get: "fs_get fs' (?arch i) = (if i < length (kept mx (c # cs)) then Some (kept mx (c # cs) ! i) else None)" for i
  proof (cases i)
    case 0
    then show ?thesis using fs'(3) by (auto simp: kept_def)
  next
    case (Suc j)
    have "fs_get fs' (?arch i) = fs_get fs1 (?arch i)" using fs'(3) base(1) inj [of i 0] Suc by auto
    then show ?thesis using fs1(3) Suc beyond [of i] by (auto simp: shifted_def kept_def)
  qed
  have frame: "fs_get fs' p = fs_get fs p" if "p \<notin> range ?arch" "p \<noteq> base" for p
    using that fs'(3) fs1(4) by auto
  have k: "keeps fs fs'" using keeps_trans [OF fs1(2) fs'(2)] .
  have "archives_are fs' base a w b [0..<length (kept mx (c # cs))]"
    by (rule archives_after [OF ar(1) k]) (use get frame in auto)
  moreover have "fs_get fs' base = None" using fs'(3) base(1) by auto
  moreover have "zlog_rotater_roll_files os rot' fs = Some (0, fs')"
    using fs1(1) fs'(1) r(6) len by (simp add: zlog_rotater_roll_files_def zc_arraylist_len_def)
  ultimately show ?thesis using r(7) get frame k by (auto simp: holds_archives_def)
qed

text \<open>The number the next archive of a sequence gets.\<close>

definition next_number :: "nat list \<Rightarrow> nat" where
  "next_number is = (if is = [] then 0 else max (length is - 1) (last is) + 1)"

lemma seq_rotation:
  assumes "calm os" and "idle rot" and "archive_form SEQUENCE base a w b ap" and "archives_are fs base a w b is"
    and "room_for fs a w b (next_number is)" and "fs_get fs base = Some c"
    and "archive_max_size mod 2 ^ 64 < (int (length c) + msg_len) mod 2 ^ 64"
  shows "\<exists>fs'. zlog_rotater_rotate os junk rot base msg_len (Some ap) archive_max_size mx fs = Some (0, rot, fs') \<and>
    archives_are fs' base a w b ((if mx > 0 then drop (length is - nat mx) is else is) @ [next_number is]) \<and>
    fs_get fs' (archive_name a w b (next_number is)) = Some c \<and> fs_get fs' base = None \<and> keeps fs fs' \<and>
    (\<forall>p. p \<noteq> base \<and> p \<noteq> archive_name a w b (next_number is) \<and>
      p \<notin> archive_name a w b ` set (take (length is - nat mx) (if mx > 0 then is else [])) \<longrightarrow> fs_get fs' p = fs_get fs p)"
proof -
  let ?arch = "archive_name a w b" and ?j = "next_number is" and ?old = "take (length is - nat mx) (if mx > 0 then is else [])"
  note inj = inj_archive_name [of a w b, THEN injD]
  note ar = assms(4) [unfolded archives_are_def]
  have srt: "sorted is" "distinct is" using ar by (simp_all add: strict_sorted_iff)
  have le: "\<forall>i\<in>set is. i \<le> last is" using srt(1) by (cases "is" rule: rev_cases) (auto simp: sorted_append)
  then have lt: "\<forall>i\<in>set is. i < ?j" by (fastforce simp: next_number_def)
  have base: "base \<notin> range ?arch" "fs_ok fs" using ar by auto
  obtain rot' al where r: "al_wf al" "al_items al = map (\<lambda>i. Some (file_of a w b i)) is" "names_ok rot' fs a w b ?j"
    "base_path rot' = Some base" "max_count rot' = mx" "files rot' = Some al"
    "zlog_rotater_rotate os junk rot base msg_len (Some ap) archive_max_size mx fs = do {
      (rc, fs) \<leftarrow> zlog_rotater_seq_files os rot' fs; Some (if rc \<noteq> 0 then -1 else 0, rot, fs) }"
    using rotate_reduces [OF assms(1-4) _ assms(5-7), of mx junk] lt by (auto dest: order.strict_implies_order)
  have len: "al_len al = int (length is)" using r(1,2) length_al_items [OF r(1)] al_wfD(1) [OF r(1)] by simp
  obtain fs1 where fs1: "seq_unlink os mx (al_len al) 0 (al_items al) fs = Some (0, fs1)" "keeps fs fs1"
    "fs_get fs1 = (\<lambda>p. if p \<in> ?arch ` set ?old then None else fs_get fs p)"
  proof (cases "0 < mx")
    case True
    have "nat (al_len al - mx - 0) = length is - nat mx" using len True by simp
    then show ?thesis
      using seq_unlink_spec [OF assms(1) base(2) srt(2) _ True, of a w b "al_len al" 0] ar True that unfolding r(2) by auto
  next
    case False
    then show ?thesis using seq_unlink_none [OF False] base(2) that by (auto simp: keeps_def)
  qed
  have names1: "names_ok rot' fs1 a w b ?j" using r(3) keepsD [OF fs1(2)] by (simp add: names_ok_def)
  have "fs_get fs1 base = Some c" using fs1(3) base(1) assms(6) by auto
  then obtain fs' where fs': "move_base os rot' (int ?j) fs1 = Some (0, fs')" "keeps fs1 fs'"
    "fs_get fs' = (fs_get fs1)(base := None, ?arch ?j := Some c)"
    using move_base_spec [OF assms(1) names1 order_refl r(4) keepsD(2) [OF fs1(2)]] base(1) unfolding keeps_def by fastforce
  have run: "zlog_rotater_seq_files os rot' fs = Some (0, fs')"
  proof (cases "is = []")
    case True
    then show ?thesis using fs1(1) fs'(1) r(6,5) len by (simp add: zlog_rotater_seq_files_def zc_arraylist_len_def next_number_def)
  next
    case False
    have "zc_arraylist_get al (int (length is - 1)) = Some (al_items al ! (length is - 1))"
      by (rule arraylist_get_items [OF r(1)]) (use r(2) False in simp)
    then have x: "zc_arraylist_get al (int (length is) - 1) = Some (Some (file_of a w b (last is)))"
      using r(2) False by (simp add: last_conv_nth of_nat_diff Suc_leI)
    have "int (length is) - 1 = int (length is - 1)" using False by (cases "is") simp_all
    then have "max (int (length is) - 1) (int (last is)) + 1 = int ?j" using False by (simp only: next_number_def of_nat_max if_False of_nat_add of_nat_1)
    then have "i32 (max (int (length is) - 1) (int (last is)) + 1) = int ?j" using assms(5) by (simp add: room_for_def)
    then show ?thesis using False fs1(1) fs'(1) r(5,6) len x
      by (simp add: zlog_rotater_seq_files_def zc_arraylist_len_def file_of_def)
  qed
  have old: "set ?old \<subseteq> set is" using set_take_subset [of "length is - nat mx" "if mx > 0 then is else []"] by (auto split: if_splits)
  have sub: "i \<in> set is - set ?old \<longleftrightarrow> i \<in> set (if mx > 0 then drop (length is - nat mx) is else is)" for i
  proof (cases "0 < mx")
    case True
    have "set (take k is) \<inter> set (drop k is) = {}" "set is = set (take k is) \<union> set (drop k is)" for k
      using srt(2) append_take_drop_id [of k "is"] by (metis distinct_append, metis set_append)
    then show ?thesis using True by (metis (mono_tags) Diff_iff Un_iff disjoint_iff)
  qed simp
  have get: "fs_get fs' (?arch i) \<noteq> None \<longleftrightarrow> i = ?j \<or> i \<in> set is - set ?old" for i
    using fs'(3) fs1(3) base(1) ar inj [of i ?j] by (auto dest: inj)
  have frame: "fs_get fs' p = fs_get fs p" if "p \<noteq> base" "p \<noteq> ?arch ?j" "p \<notin> ?arch ` set ?old" for p
    using that fs'(3) fs1(3) by auto
  have k: "keeps fs fs'" using keeps_trans [OF fs1(2) fs'(2)] .
  have "archives_are fs' base a w b ((if mx > 0 then drop (length is - nat mx) is else is) @ [?j])"
  proof (rule archives_after [OF assms(4) k])
    show "sorted_wrt (<) ((if mx > 0 then drop (length is - nat mx) is else is) @ [?j])"
      using ar lt by (auto simp: sorted_wrt_append sorted_wrt_drop dest: in_set_dropD)
    show "\<forall>p. p \<notin> range ?arch \<and> p \<noteq> base \<longrightarrow> fs_get fs' p = fs_get fs p" by (auto intro!: frame)
  qed (use get sub in auto)
  moreover have "fs_get fs' base = None" "fs_get fs' (?arch ?j) = Some c" using fs'(3) base(1) by auto
  ultimately show ?thesis using r(7) run frame k by auto
qed


lemma rotate_small:
  assumes "calm os" and "idle rot" and "fs_get fs base = Some c"
    and "\<not> archive_max_size mod 2 ^ 64 < (int (length c) + msg_len) mod 2 ^ 64"
  shows "zlog_rotater_rotate os junk rot base msg_len ap archive_max_size mx fs = Some (0, rot, fs)"
proof -
  have "\<not> lock_mutex rot" "os_lock os" using assms(1,2) by (auto simp: idle_def calm_def)
  moreover from this have "zlog_rotater_unlock (rot\<lparr>lock_mutex := True\<rparr>) = rot" by (cases rot) (simp add: zlog_rotater_unlock_def)
  ultimately show ?thesis using assms(3,4) by (simp add: zlog_rotater_rotate_def zlog_rotater_trylock_def)
qed

definition calm_os :: zlog_os where
  "calm_os = \<lparr>os_alloc = (\<lambda>_. True), os_refuse = (\<lambda>_. False), os_glob_err = False, os_lock = True\<rparr>"

definition idle_rotater :: zlog_rotater where
  "idle_rotater = the (zlog_rotater_new (\<lambda>_. True) True)"

lemma calm_os: "calm calm_os"
  by (simp add: calm_def calm_os_def)

lemma idle_rotater: "idle idle_rotater"
  by (simp add: idle_def idle_rotater_def zlog_rotater_new_def zlog_rotater_clean_def)

subsection \<open>Properties\<close>

text \<open>
  C23: rolling. The archives of a log file are a list of contents, newest first. When the file is
  too large a rotation puts its contents in front of that list and cuts the list to the configured
  number (0 keeps all); the log file itself is gone, and no other file is touched. Otherwise
  nothing changes. In both cases the rotater is back in its idle state, its lock released.
\<close>

theorem rolling_keeps_newest:
  assumes "calm os" and "idle rot" and "archive_form ROLLING base a w b ap" and "holds_archives fs base a w b cs"
    and "room_for fs a w b (length cs)" and "fs_get fs base = Some c"
  shows "\<exists>fs'. zlog_rotater_rotate os junk rot base msg_len (Some ap) archive_max_size mx fs = Some (0, rot, fs') \<and>
    (if archive_max_size mod 2 ^ 64 < (int (length c) + msg_len) mod 2 ^ 64
     then holds_archives fs' base a w b (kept mx (c # cs)) \<and> fs_get fs' base = None \<and>
       (\<forall>p. p \<notin> range (archive_name a w b) \<and> p \<noteq> base \<longrightarrow> fs_get fs' p = fs_get fs p)
     else fs' = fs)"
  using roll_rotation [OF assms, of archive_max_size msg_len junk mx]
    rotate_small [OF assms(1,2,6), of archive_max_size msg_len junk "Some ap" mx]
  by (cases "archive_max_size mod 2 ^ 64 < (int (length c) + msg_len) mod 2 ^ 64") auto

definition sample_fs :: fs where
  "sample_fs = \<lparr>fs_files = [(''aa'', ''new''), (''other'', ''x''), (''aa.0'', ''old'')], fs_dirs = []\<rparr>"

lemma sample_name: "archive_name ''aa.'' 0 [] i = ''aa.'' @ digits 10 i"
  by (simp add: archive_name_def padded_def)

lemma name_0: "archive_name a 0 [] 0 = a @ ''0''"
  by (simp add: archive_name_def padded_def digits10_step hex_def)

lemma sample_eq: "archive_name ''aa.'' 0 [] i = ''aa.0'' \<longleftrightarrow> i = 0"
  using inj_archive_name [of "''aa.''" 0 "[]", THEN injD, of i 0] name_0 [of "''aa.''"] by auto

lemma sample_fs: "holds_archives sample_fs ''aa'' ''aa.'' 0 [] [''old'']" "room_for sample_fs ''aa.'' 0 [] 1"
proof -
  have ne: "archive_name ''aa.'' 0 [] i \<noteq> ''aa''" "archive_name ''aa.'' 0 [] i \<noteq> ''other''" for i by (simp_all add: archive_name_def)
  have get: "fs_get sample_fs p = (if p = ''aa'' then Some ''new'' else if p = ''other'' then Some ''x''
      else if p = ''aa.0'' then Some ''old'' else None)" for p by (simp add: fs_get_def sample_fs_def)
  have nm: "\<not> glob_match True (''aa.'' @ ''*'' @ []) ''other''" by (simp add: glob_match.simps)
  have "''aa.0'' \<in> range (archive_name ''aa.'' 0 [])" using sample_eq [of 0] by (metis rangeI)
  moreover have "''aa'' \<notin> range (archive_name ''aa.'' 0 [])" using ne(1) by (metis rangeE)
  ultimately have "archives_are sample_fs ''aa'' ''aa.'' 0 [] [0..<length [''old'']]"
    using nm unfolding archives_are_def get by (auto simp: fs_ok_def sample_fs_def sample_eq ne)
  then show "holds_archives sample_fs ''aa'' ''aa.'' 0 [] [''old'']"
    unfolding holds_archives_def get by (simp add: sample_eq ne)
  have "length (archive_name ''aa.'' 0 [] 0) < PATH_SIZE" "length (archive_name ''aa.'' 0 [] 1) < PATH_SIZE"
    by (simp_all add: sample_name PATH_SIZE_def digits10_step)
  then have "length (archive_name ''aa.'' 0 [] i) < PATH_SIZE" if "i \<le> 1" for i using that by (cases i) auto
  then show "room_for sample_fs ''aa.'' 0 [] 1" by (simp add: room_for_def sample_fs_def)
qed

theorem rolling_keeps_newest_witness:
  "\<exists>fs'. zlog_rotater_rotate calm_os (\<lambda>_. None) idle_rotater ''aa'' 10 (Some []) 5 0 sample_fs = Some (0, idle_rotater, fs') \<and>
    fs_get fs' ''aa.0'' = Some ''new''"
proof -
  have form: "archive_form ROLLING ''aa'' ''aa.'' 0 [] []" by (simp add: archive_form_def plain_def PATH_SIZE_def)
  have get: "fs_get sample_fs ''aa'' = Some ''new''" by (simp add: fs_get_def sample_fs_def)
  have room: "room_for sample_fs ''aa.'' 0 [] (length [''old''])" using sample_fs(2) by simp
  obtain fs' where fs': "zlog_rotater_rotate calm_os (\<lambda>_. None) idle_rotater ''aa'' 10 (Some []) 5 0 sample_fs = Some (0, idle_rotater, fs')"
    "holds_archives fs' ''aa'' ''aa.'' 0 [] (kept 0 [''new'', ''old''])"
    using rolling_keeps_newest [OF calm_os idle_rotater form sample_fs(1) room get, of "\<lambda>_. None" 10 5 0] by auto
  then have "fs_get fs' (archive_name ''aa.'' 0 [] 0) = Some ''new''" by (auto simp: holds_archives_def kept_def)
  then show ?thesis using fs'(1) name_0 [of "''aa.''"] by auto
qed

text \<open>
  C24: numbering on. The log file becomes the archive with the next number, which is larger than all
  others, so no archive is overwritten; the oldest ones are removed down to the configured number
  before the new one is added, so that one archive more than configured is kept.
\<close>

theorem sequence_keeps_one_more:
  assumes "calm os" and "idle rot" and "archive_form SEQUENCE base a w b ap" and "archives_are fs base a w b is"
    and "room_for fs a w b (next_number is)" and "fs_get fs base = Some c"
    and "archive_max_size mod 2 ^ 64 < (int (length c) + msg_len) mod 2 ^ 64"
  shows "\<exists>fs'. zlog_rotater_rotate os junk rot base msg_len (Some ap) archive_max_size mx fs = Some (0, rot, fs') \<and>
    archives_are fs' base a w b ((if mx > 0 then drop (length is - nat mx) is else is) @ [next_number is]) \<and>
    fs_get fs' (archive_name a w b (next_number is)) = Some c \<and> fs_get fs' base = None \<and>
    (\<forall>p. p \<noteq> base \<and> p \<noteq> archive_name a w b (next_number is) \<and>
      p \<notin> archive_name a w b ` set (take (length is - nat mx) (if mx > 0 then is else [])) \<longrightarrow> fs_get fs' p = fs_get fs p)"
  using seq_rotation [OF assms, of junk mx] by blast

theorem sequence_keeps_one_more_witness:
  "\<exists>fs'. zlog_rotater_rotate calm_os (\<lambda>_. None) idle_rotater ''aa'' 10 (Some ''aa.#s'') 5 1
      \<lparr>fs_files = [(''aa'', ''new'')], fs_dirs = []\<rparr> = Some (0, idle_rotater, fs') \<and> fs_get fs' ''aa.0'' = Some ''new''"
proof -
  let ?fs = "\<lparr>fs_files = [(''aa'', ''new'')], fs_dirs = []\<rparr>"
  have form: "archive_form SEQUENCE ''aa'' ''aa.'' 0 [] ''aa.#s''" by (simp add: archive_form_def plain_def PATH_SIZE_def)
  have ne: "archive_name ''aa.'' 0 [] i \<noteq> ''aa''" for i by (simp add: archive_name_def)
  then have "''aa'' \<notin> range (archive_name ''aa.'' 0 [])" by (metis rangeE)
  then have ar: "archives_are ?fs ''aa'' ''aa.'' 0 [] []" using ne by (auto simp: archives_are_def fs_get_def fs_ok_def)
  have room: "room_for ?fs ''aa.'' 0 [] (next_number [])" by (simp add: room_for_def next_number_def name_0 PATH_SIZE_def)
  show ?thesis
    using sequence_keeps_one_more [OF calm_os idle_rotater form ar room, of "''new''" 5 10 "\<lambda>_. None" 1] name_0 [of "''aa.''"]
    by (auto simp: fs_get_def next_number_def)
qed

lemma step_add:
  assumes "al_wf al" and "al_items al = xs" and "list_all (\<lambda>x. x \<noteq> None) xs" and "length xs < 5"
    and "zlog_file_check_new calm_os rot p = Some f"
  shows "\<exists>al'. add_files calm_os junk rot (p # ps) al = add_files calm_os junk rot ps al' \<and> al_wf al' \<and>
    al_items al' = insert_behind zlog_file_cmp (Some f) xs"
proof -
  have "al_len al < 5" using assms(1,2,4) al_wfD(1) [OF assms(1)] length_al_items [OF assms(1)] by simp
  then have "al_len al < al_size al \<or> al_size al < 2 ^ 30 \<and> os_alloc calm_os (pointers (al_size al * 2))"
    by (auto simp: calm_os_def)
  moreover have "None \<notin> set (al_items al)" using assms(2,3) by (auto simp: list_all_iff)
  ultimately obtain al' where "zc_arraylist_sortadd (os_alloc calm_os) junk al zlog_file_cmp (Some f) = Some (0, al')" "al_wf al'"
    "al_items al' = insert_behind zlog_file_cmp (Some f) (al_items al)"
    using sortadd_spec [where alloc = "os_alloc calm_os", OF assms(1), of junk zlog_file_cmp "Some f"] by blast
  then show ?thesis using assms(2,5) by auto
qed

lemma add_list:
  assumes "al_wf al" and "list_all (\<lambda>x. x \<noteq> None) (al_items al)" and "length (al_items al) + length ps < 5"
    and "map (zlog_file_check_new calm_os rot) ps = map Some fs"
  shows "\<exists>al'. add_files calm_os junk rot ps al = Some (0, al') \<and> al_wf al' \<and>
    al_items al' = fold (\<lambda>f. insert_behind zlog_file_cmp (Some f)) fs (al_items al)"
  using assms
proof (induction ps arbitrary: al fs)
  case (Cons p ps)
  then obtain f fs' where f: "fs = f # fs'" "zlog_file_check_new calm_os rot p = Some f"
    "map (zlog_file_check_new calm_os rot) ps = map Some fs'" by (cases fs) auto
  obtain al' where al': "add_files calm_os junk rot (p # ps) al = add_files calm_os junk rot ps al'" "al_wf al'"
    "al_items al' = insert_behind zlog_file_cmp (Some f) (al_items al)"
    using step_add [OF Cons.prems(1) refl Cons.prems(2) _ f(2)] Cons.prems(3) by fastforce
  have ms: "mset (al_items al') = add_mset (Some f) (mset (al_items al))" using al'(3) by (simp add: mset_insert_behind)
  have "length (al_items al') = Suc (length (al_items al))" using ms by (metis size_add_mset size_mset)
  moreover have "list_all (\<lambda>x. x \<noteq> None) (al_items al')"
  proof -
    have "set (al_items al') = insert (Some f) (set (al_items al))" using ms by (metis set_mset_add_mset_insert set_mset_mset)
    then show ?thesis using Cons.prems(2) by (simp add: list_all_iff)
  qed
  ultimately show ?case using Cons.IH [OF al'(2) _ _ f(3)] Cons.prems(3) al'(1,3) f(1) by auto
qed simp

definition gap_fs :: "string \<Rightarrow> string \<Rightarrow> string \<Rightarrow> fs" where
  "gap_fs x y z = \<lparr>fs_files = [(''a'', ''new''), (''a.0'', x), (''a.3'', y), (''a.4'', z)], fs_dirs = []\<rparr>"

definition rolling_rotater :: "int \<Rightarrow> zlog_file zc_arraylist option \<Rightarrow> zlog_rotater" where
  "rolling_rotater mx al = \<lparr>lock_mutex = True, base_path = Some ''a'', archive_path = Some [], glob_path = ''a.*'',
     num_start_len = 2, num_end_len = 3, num_width = 0, mv_type = ROLLING, max_count = mx, files = al\<rparr>"

lemma rotate_sample:
  assumes "fs_get fs ''a'' = Some ''new''" and "zlog_rotater_add_archive_files calm_os junk fs (rolling_rotater mx None) = Some (0, rolling_rotater mx (Some al))"
    and "zlog_rotater_roll_files calm_os (rolling_rotater mx (Some al)) fs = Some (0, fs')"
  shows "zlog_rotater_rotate calm_os junk idle_rotater ''a'' 6 (Some []) 5 mx fs = Some (0, idle_rotater, fs')"
proof -
  have idle: "idle_rotater = \<lparr>lock_mutex = False, base_path = None, archive_path = None, glob_path = [], num_start_len = 0,
      num_end_len = 0, num_width = 0, mv_type = NO_MOVE, max_count = 0, files = None\<rparr>"
    by (simp add: idle_rotater_def zlog_rotater_new_def)
  have parse: "zlog_rotater_parse_archive_path (idle_rotater\<lparr>lock_mutex := True, base_path := Some ''a'', archive_path := Some [],
      max_count := mx\<rparr>) = Some (0, rolling_rotater mx None)"
    by (simp add: zlog_rotater_parse_archive_path_def snprintf_def PATH_SIZE_def idle rolling_rotater_def)
  have "zlog_rotater_lsmv calm_os junk (idle_rotater\<lparr>lock_mutex := True\<rparr>) ''a'' (Some []) mx fs =
      Some (0, idle_rotater\<lparr>lock_mutex := True\<rparr>, fs')"
    using assms(2,3) parse
    by (simp add: zlog_rotater_lsmv_def rolling_rotater_def zlog_rotater_clean_def idle)
  moreover have "zlog_rotater_trylock calm_os idle_rotater = (0, idle_rotater\<lparr>lock_mutex := True\<rparr>)"
    by (simp add: zlog_rotater_trylock_def calm_os_def idle)
  moreover have "zlog_rotater_unlock (idle_rotater\<lparr>lock_mutex := True\<rparr>) = idle_rotater" by (simp add: zlog_rotater_unlock_def idle)
  ultimately show ?thesis using assms(1) by (simp add: zlog_rotater_rotate_def)
qed

lemma check_sample:
  "zlog_file_check_new calm_os (rolling_rotater mx None) ''a'' = None"
  "zlog_file_check_new calm_os (rolling_rotater mx None) ''a.0'' = Some \<lparr>zf_index = 0, zf_path = ''a.0''\<rparr>"
  "zlog_file_check_new calm_os (rolling_rotater mx None) ''a.3'' = Some \<lparr>zf_index = 3, zf_path = ''a.3''\<rparr>"
  "zlog_file_check_new calm_os (rolling_rotater mx None) ''a.4'' = Some \<lparr>zf_index = 4, zf_path = ''a.4''\<rparr>"
  "zlog_file_check_new calm_os (rolling_rotater mx None) ''a.conf'' = Some \<lparr>zf_index = 0, zf_path = ''a.conf''\<rparr>"
  by (simp_all add: zlog_file_check_new_def calm_os_def rolling_rotater_def snprintf_def PATH_SIZE_def scan_int_def
      read_number_def is_space_def is_digit_def cnum_def Let_def)

lemma roll_gap:
  assumes "al_wf al" and "al_items al = map Some [\<lparr>zf_index = 0, zf_path = ''a.0''\<rparr>, \<lparr>zf_index = 3, zf_path = ''a.3''\<rparr>, \<lparr>zf_index = 4, zf_path = ''a.4''\<rparr>]"
  shows "\<exists>fs'. zlog_rotater_roll_files calm_os (rolling_rotater 0 (Some al)) (gap_fs x y z) = Some (0, fs') \<and>
    set (fs_files fs') = {(''a.0'', ''new''), (''a.1'', x), (''a.2'', z)}"
proof -
  have len: "al_len al = 3" using assms al_wfD(1) [OF assms(1)] length_al_items [OF assms(1)] by simp
  have g: "zc_arraylist_get al 0 = Some (Some \<lparr>zf_index = 0, zf_path = ''a.0''\<rparr>)"
    "zc_arraylist_get al 1 = Some (Some \<lparr>zf_index = 3, zf_path = ''a.3''\<rparr>)"
    "zc_arraylist_get al 2 = Some (Some \<lparr>zf_index = 4, zf_path = ''a.4''\<rparr>)"
    using arraylist_get_items [OF assms(1), of 0] arraylist_get_items [OF assms(1), of 1] arraylist_get_items [OF assms(1), of 2] assms(2)
    by simp_all
  have p: "new_path (rolling_rotater 0 (Some al)) 0 = Some (0, ''a.0'')" "new_path (rolling_rotater 0 (Some al)) 1 = Some (0, ''a.1'')"
    "new_path (rolling_rotater 0 (Some al)) 2 = Some (0, ''a.2'')" "new_path (rolling_rotater 0 (Some al)) 3 = Some (0, ''a.3'')"
    by (simp_all add: new_path_def rolling_rotater_def cstr_at_def PATH_SIZE_def snprintf_def format_0d_def digits10_step hex_def Let_def)
  have f: "max_count (rolling_rotater 0 (Some al)) = 0" "base_path (rolling_rotater 0 (Some al)) = Some ''a''"
    "files (rolling_rotater 0 (Some al)) = Some al" by (simp_all add: rolling_rotater_def)
  show ?thesis
    using g p
    by (simp add: zlog_rotater_roll_files_def zc_arraylist_len_def len f eval_nat_numeral roll_loop.simps gap_fs_def rename_def fs_get_def
        calm_os_def move_base_def)
qed

lemma roll_foreign:
  assumes "al_wf al" and "al_items al = [Some \<lparr>zf_index = 0, zf_path = ''a.conf''\<rparr>]"
  shows "\<exists>fs'. zlog_rotater_roll_files calm_os (rolling_rotater 1 (Some al))
      \<lparr>fs_files = [(''a'', ''new''), (''a.conf'', x)], fs_dirs = []\<rparr> = Some (0, fs') \<and>
    set (fs_files fs') = {(''a.0'', ''new'')}"
proof -
  have len: "al_len al = 1" using assms al_wfD(1) [OF assms(1)] length_al_items [OF assms(1)] by simp
  have g: "zc_arraylist_get al 0 = Some (Some \<lparr>zf_index = 0, zf_path = ''a.conf''\<rparr>)"
    using arraylist_get_items [OF assms(1), of 0] assms(2) by simp
  have p: "new_path (rolling_rotater 1 (Some al)) 0 = Some (0, ''a.0'')"
    by (simp_all add: new_path_def rolling_rotater_def cstr_at_def PATH_SIZE_def snprintf_def format_0d_def digits10_step hex_def Let_def)
  have f: "max_count (rolling_rotater 1 (Some al)) = 1" "base_path (rolling_rotater 1 (Some al)) = Some ''a''"
    "files (rolling_rotater 1 (Some al)) = Some al" by (simp_all add: rolling_rotater_def)
  show ?thesis
    using g p
    by (simp add: zlog_rotater_roll_files_def zc_arraylist_len_def len f roll_loop.simps unlink_def rename_def fs_get_def
        calm_os_def move_base_def)
qed

lemma add_sample:
  assumes "glob calm_os ''a.*'' fs = GLOB_OK pathv" and "length pathv < 5"
    and "map (zlog_file_check_new calm_os (rolling_rotater mx None)) pathv = map Some items"
  shows "\<exists>al. zlog_rotater_add_archive_files calm_os junk fs (rolling_rotater mx None) = Some (0, rolling_rotater mx (Some al)) \<and>
    al_wf al \<and> al_items al = fold (\<lambda>f. insert_behind zlog_file_cmp (Some f)) items []"
proof -
  obtain al0 :: "zlog_file zc_arraylist" where al0: "zc_arraylist_new (os_alloc calm_os) True = Some al0"
    by (simp add: zc_arraylist_new_def calm_os_def)
  have "al_wf al0" "al_items al0 = []" using new_wf [OF al0] by auto
  then obtain al where "add_files calm_os junk (rolling_rotater mx None) pathv al0 = Some (0, al)" "al_wf al"
    "al_items al = fold (\<lambda>f. insert_behind zlog_file_cmp (Some f)) items []"
    using add_list [of al0 pathv "rolling_rotater mx None" items junk] assms(2,3) by auto
  then show ?thesis using al0 assms(1) by (auto simp: zlog_rotater_add_archive_files_def rolling_rotater_def)
qed

text \<open>
  Two directories in which rolling loses files. The files found are renumbered by their position in the list, not by
  their number: with archives 0, 3 and 4 one is overwritten although all are to be kept.
  And without an archive path every file whose name begins with that of the log file and a period
  is taken for an archive: an unrelated \<open>a.conf\<close> is deleted.
\<close>

lemma rolling_loses_files:
  "(\<exists>fs'. zlog_rotater_rotate calm_os (\<lambda>_. None) idle_rotater ''a'' 6 (Some []) 5 0 (gap_fs x y z) = Some (0, idle_rotater, fs') \<and>
    set (fs_files fs') = {(''a.0'', ''new''), (''a.1'', x), (''a.2'', z)}) \<and>
   (\<exists>fs'. zlog_rotater_rotate calm_os (\<lambda>_. None) idle_rotater ''a'' 6 (Some []) 5 1
      \<lparr>fs_files = [(''a'', ''new''), (''a.conf'', x)], fs_dirs = []\<rparr> = Some (0, idle_rotater, fs') \<and>
    set (fs_files fs') = {(''a.0'', ''new'')})"
proof
  let ?items = "[\<lparr>zf_index = 0, zf_path = ''a.0''\<rparr>, \<lparr>zf_index = 3, zf_path = ''a.3''\<rparr>, \<lparr>zf_index = 4, zf_path = ''a.4''\<rparr>]"
  have "glob calm_os ''a.*'' (gap_fs x y z) = GLOB_OK [''a.0'', ''a.3'', ''a.4'']"
    by (simp add: glob_def calm_os_def gap_fs_def glob_match.simps Let_def)
  then obtain al where al: "zlog_rotater_add_archive_files calm_os (\<lambda>_. None) (gap_fs x y z) (rolling_rotater 0 None) =
      Some (0, rolling_rotater 0 (Some al))" "al_wf al" "al_items al = map Some ?items"
    using add_sample [of "gap_fs x y z" "[''a.0'', ''a.3'', ''a.4'']" 0 ?items "\<lambda>_. None"] by (auto simp: check_sample zlog_file_cmp_def)
  show "\<exists>fs'. zlog_rotater_rotate calm_os (\<lambda>_. None) idle_rotater ''a'' 6 (Some []) 5 0 (gap_fs x y z) = Some (0, idle_rotater, fs') \<and>
    set (fs_files fs') = {(''a.0'', ''new''), (''a.1'', x), (''a.2'', z)}"
    using roll_gap [OF al(2,3), of x y z] rotate_sample [OF _ al(1)] by (auto simp: gap_fs_def fs_get_def)
next
  let ?fs = "\<lparr>fs_files = [(''a'', ''new''), (''a.conf'', x)], fs_dirs = []\<rparr>"
  have "glob calm_os ''a.*'' ?fs = GLOB_OK [''a.conf'']"
    by (simp add: glob_def calm_os_def glob_match.simps Let_def)
  then obtain al where al: "zlog_rotater_add_archive_files calm_os (\<lambda>_. None) ?fs (rolling_rotater 1 None) =
      Some (0, rolling_rotater 1 (Some al))" "al_wf al" "al_items al = [Some \<lparr>zf_index = 0, zf_path = ''a.conf''\<rparr>]"
    using add_sample [of ?fs "[''a.conf'']" 1 "[\<lparr>zf_index = 0, zf_path = ''a.conf''\<rparr>]" "\<lambda>_. None"] by (auto simp: check_sample zlog_file_cmp_def)
  show "\<exists>fs'. zlog_rotater_rotate calm_os (\<lambda>_. None) idle_rotater ''a'' 6 (Some []) 5 1 ?fs = Some (0, idle_rotater, fs') \<and>
    set (fs_files fs') = {(''a.0'', ''new'')}"
    using roll_foreign [OF al(2,3), of x] rotate_sample [OF _ al(1)] by (auto simp: fs_get_def)
qed

text \<open>
  A log file whose path has 1023 characters and no archive path: the pattern does not fit its
  array, but its length is compared with \<open>>\<close> where \<open>\<ge>\<close> is needed, and the name of the archive is
  read from behind the array.
\<close>

theorem rotate_long_path:
  assumes "length base = 1023"
  shows "zlog_rotater_rotate calm_os junk idle_rotater base 6 (Some []) 5 mx \<lparr>fs_files = [(base, ''new'')], fs_dirs = []\<rparr> = None"
proof -
  let ?fs = "\<lparr>fs_files = [(base, ''new'')], fs_dirs = []\<rparr>"
  define rot where "rot = idle_rotater\<lparr>lock_mutex := True, base_path := Some base, archive_path := Some [], max_count := mx,
      glob_path := base @ ''.'', mv_type := ROLLING, num_width := 0, num_start_len := 1024, num_end_len := 1025\<rparr>"
  have idle: "idle_rotater = \<lparr>lock_mutex = False, base_path = None, archive_path = None, glob_path = [], num_start_len = 0,
      num_end_len = 0, num_width = 0, mv_type = NO_MOVE, max_count = 0, files = None\<rparr>"
    by (simp add: idle_rotater_def zlog_rotater_new_def)
  have parse: "zlog_rotater_parse_archive_path (idle_rotater\<lparr>lock_mutex := True, base_path := Some base, archive_path := Some [],
      max_count := mx\<rparr>) = Some (0, rot)"
    using assms by (simp add: zlog_rotater_parse_archive_path_def snprintf_def PATH_SIZE_def idle rot_def)
  obtain al0 :: "zlog_file zc_arraylist" where al0: "zc_arraylist_new (os_alloc calm_os) True = Some al0"
    by (simp add: zc_arraylist_new_def calm_os_def)
  have "al_wf al0" "al_items al0 = []" using new_wf [OF al0] by auto
  then have len: "al_len al0 = 0" using length_al_items [of al0] al_wfD(1) [of al0] by simp
  have skip: "zlog_file_check_new calm_os rot base = None" by (simp add: zlog_file_check_new_def rot_def)
  have add: "zlog_rotater_add_archive_files calm_os junk ?fs rot = Some (0, rot\<lparr>files := Some al0\<rparr>)"
    using al0 skip by (simp add: zlog_rotater_add_archive_files_def glob_def calm_os_def Let_def)
  have "zlog_rotater_roll_files calm_os (rot\<lparr>files := Some al0\<rparr>) ?fs = None"
    using len by (simp add: zlog_rotater_roll_files_def zc_arraylist_len_def roll_loop.simps move_base_def new_path_def cstr_at_def
        PATH_SIZE_def rot_def)
  then have "zlog_rotater_lsmv calm_os junk (idle_rotater\<lparr>lock_mutex := True\<rparr>) base (Some []) mx ?fs = None"
    using parse add by (simp add: zlog_rotater_lsmv_def rot_def)
  then show ?thesis
    by (simp add: zlog_rotater_rotate_def zlog_rotater_trylock_def calm_os_def idle fs_get_def)
qed

theorem rotate_long_path_witness:
  "zlog_rotater_rotate calm_os (\<lambda>_. None) idle_rotater (replicate 1023 (CHR ''a'')) 6 (Some []) 5 0
     \<lparr>fs_files = [(replicate 1023 (CHR ''a''), ''new'')], fs_dirs = []\<rparr> = None"
  by (rule rotate_long_path) simp

end
