(* ===== verification/Zlog_Event.thy ===== *)
theory Zlog_Event
  imports Zlog_Level Zlog_Buf Zc_Hashtable
begin

section \<open>Events, contexts and the buffers of a thread\<close>

text \<open>
  \<open>src/deps/zlog/src/mdc.c\<close>, \<open>event.c\<close> and \<open>thread.c\<close>: what a message is made of. The mapped
  diagnostic context of a thread is a hash table from keys to values, each value in an array of
  \<open>MAXLEN_PATH + 1\<close> bytes. An event is one call of the logging interface; the thread keeps it and
  its buffers from one call to the next. What the system answers is an argument.
\<close>

definition NAME_SIZE :: nat where "NAME_SIZE = 1025"

subsection \<open>The mapped diagnostic context\<close>

record zlog_mdc_kv =
  kv_key :: string
  kv_value :: string
  kv_value_len :: int

type_synonym zlog_mdc = "(string, zlog_mdc_kv) zc_hashtable"

text \<open>
  The value is the whole array: \<open>snprintf\<close> stores what text_fits and a zero, the rest is zero from
  \<open>calloc\<close>; its result, kept as the length, counts what did not fit as well.
\<close>

definition zlog_mdc_kv_new :: "calloc \<Rightarrow> string \<Rightarrow> string \<Rightarrow> zlog_mdc_kv option" where
  "zlog_mdc_kv_new calloc key val =
     (if \<not> calloc 1 then None
      else Some \<lparr>kv_key = take (NAME_SIZE - 1) key,
        kv_value = take (NAME_SIZE - 1) val @ replicate (NAME_SIZE - length (take (NAME_SIZE - 1) val)) (CHR 0x00),
        kv_value_len = int (length val)\<rparr>)"

definition zlog_mdc_new :: "calloc \<Rightarrow> zlog_mdc option" where
  "zlog_mdc_new calloc =
     (if \<not> calloc 1 then None
      else zc_hashtable_new calloc 20 zc_hashtable_str_hash zc_hashtable_str_equal False True)"

definition zlog_mdc_put :: "calloc \<Rightarrow> zlog_mdc \<Rightarrow> string \<Rightarrow> string \<Rightarrow> (int \<times> zlog_mdc) option" where
  "zlog_mdc_put calloc mdc key val =
     (case zlog_mdc_kv_new calloc key val of
        None \<Rightarrow> Some (-1, mdc)
      | Some kv \<Rightarrow> do {
          (rc, mdc) \<leftarrow> zc_hashtable_put calloc mdc (kv_key kv) kv;
          Some (if rc \<noteq> 0 then -1 else 0, mdc)
        })"

definition zlog_mdc_clean :: "zlog_mdc \<Rightarrow> zlog_mdc" where
  "zlog_mdc_clean mdc = zc_hashtable_clean mdc"

definition zlog_mdc_get_kv :: "zlog_mdc \<Rightarrow> string \<Rightarrow> zlog_mdc_kv option option" where
  "zlog_mdc_get_kv mdc key = zc_hashtable_get mdc key"

definition zlog_mdc_get :: "zlog_mdc \<Rightarrow> string \<Rightarrow> string option option" where
  "zlog_mdc_get mdc key = map_option (map_option kv_value) (zc_hashtable_get mdc key)"

definition zlog_mdc_remove :: "zlog_mdc \<Rightarrow> string \<Rightarrow> zlog_mdc option" where
  "zlog_mdc_remove mdc key = do { t \<leftarrow> zc_hashtable_remove (Some mdc) (Some key); t }"

subsection \<open>Events\<close>

datatype zlog_event_cmd = ZLOG_FMT | ZLOG_HEX

record zlog_time_cache =
  tc_str :: string
  tc_len :: int
  tc_sec :: int

type_synonym tm = "int list"

text \<open>
  \<open>ev_str_format\<close> is the format with its arguments as \<open>vsnprintf\<close> renders it (\<^const>\<open>None\<close> inside for an
  error), or no format at all.
\<close>

record zlog_event =
  ev_category_name :: string
  ev_host_name :: string
  ev_file :: "string option"
  ev_file_len :: int
  ev_func :: "string option"
  ev_func_len :: int
  ev_line :: int
  ev_level :: int
  ev_hex_buf :: "string option"
  ev_hex_buf_len :: int
  ev_str_format :: "string option option"
  ev_generate_cmd :: zlog_event_cmd
  ev_tv_sec :: int
  ev_tv_usec :: int
  ev_time_local_sec :: int
  ev_time_local :: tm
  ev_time_caches :: "zlog_time_cache list"
  ev_pid :: int
  ev_last_pid :: int
  ev_pid_str :: string
  ev_tid_str :: string
  ev_tid_hex_str :: string
  ev_ktid_str :: string

text \<open>What the system answers while a message is made, and the levels of the configuration in force.\<close>

record zlog_ctx =
  cx_alloc :: "int \<Rightarrow> bool"
  cx_junk :: "nat \<Rightarrow> char"
  cx_levels :: "zlog_level zc_arraylist"
  cx_now :: "int \<times> int"
  cx_localtime :: "int \<Rightarrow> tm"
  cx_strftime :: "string \<Rightarrow> tm \<Rightarrow> string"
  cx_getpid :: int

text \<open>The names of the host and the thread as the system gives them; \<^const>\<open>None\<close> for a failing \<open>gethostname\<close>.\<close>

definition zlog_event_new :: "calloc \<Rightarrow> string option \<Rightarrow> nat \<Rightarrow> nat \<Rightarrow> int \<Rightarrow> zlog_event option" where
  "zlog_event_new calloc hostname tid ktid time_cache_count =
     (if \<not> calloc 1 then None
      else if \<not> calloc (nat time_cache_count) then None
      else case hostname of None \<Rightarrow> None
      | Some h \<Rightarrow> Some \<lparr>ev_category_name = [], ev_host_name = take 256 h, ev_file = None, ev_file_len = 0, ev_func = None,
          ev_func_len = 0, ev_line = 0, ev_level = 0, ev_hex_buf = None, ev_hex_buf_len = 0, ev_str_format = None,
          ev_generate_cmd = ZLOG_FMT, ev_tv_sec = 0, ev_tv_usec = 0, ev_time_local_sec = 0, ev_time_local = [],
          ev_time_caches = replicate (nat time_cache_count) \<lparr>tc_str = [], tc_len = 0, tc_sec = 0\<rparr>,
          ev_pid = 0, ev_last_pid = 0, ev_pid_str = [], ev_tid_str = digits 10 tid,
          ev_tid_hex_str = digits 16 (tid mod 2 ^ 32), ev_ktid_str = digits 10 (ktid mod 2 ^ 32)\<rparr>)"

definition zlog_event_set_fmt ::
  "string \<Rightarrow> string option \<Rightarrow> int \<Rightarrow> string option \<Rightarrow> int \<Rightarrow> int \<Rightarrow> int \<Rightarrow> string option option \<Rightarrow> zlog_event \<Rightarrow> zlog_event" where
  "zlog_event_set_fmt category file file_len func func_len line level text ev =
     ev\<lparr>ev_category_name := category, ev_file := file, ev_file_len := file_len, ev_func := func, ev_func_len := func_len,
       ev_line := line, ev_level := level, ev_generate_cmd := ZLOG_FMT, ev_str_format := text, ev_pid := 0, ev_tv_sec := 0\<rparr>"

definition zlog_event_set_hex ::
  "string \<Rightarrow> string option \<Rightarrow> int \<Rightarrow> string option \<Rightarrow> int \<Rightarrow> int \<Rightarrow> int \<Rightarrow> string option \<Rightarrow> int \<Rightarrow> zlog_event \<Rightarrow> zlog_event" where
  "zlog_event_set_hex category file file_len func func_len line level buf buf_len ev =
     ev\<lparr>ev_category_name := category, ev_file := file, ev_file_len := file_len, ev_func := func, ev_func_len := func_len,
       ev_line := line, ev_level := level, ev_generate_cmd := ZLOG_HEX, ev_hex_buf := buf, ev_hex_buf_len := buf_len,
       ev_pid := 0, ev_tv_sec := 0\<rparr>"

subsection \<open>The buffers of a thread\<close>

record zlog_thread =
  th_init_version :: int
  th_mdc :: zlog_mdc
  th_event :: zlog_event
  th_pre_path_buf :: zlog_buf
  th_path_buf :: zlog_buf
  th_archive_path_buf :: zlog_buf
  th_pre_msg_buf :: zlog_buf
  th_msg_buf :: zlog_buf

definition buf_mark :: string where "buf_mark = ''...'' @ [CHR 0x0A]"

definition path_buf_new :: "(int \<Rightarrow> bool) \<Rightarrow> zlog_buf option" where
  "path_buf_new alloc = zlog_buf_new alloc (MAXLEN_PATH + 1) (MAXLEN_PATH + 1) None"

definition zlog_thread_new ::
  "(int \<Rightarrow> bool) \<Rightarrow> calloc \<Rightarrow> string option \<Rightarrow> nat \<Rightarrow> nat \<Rightarrow> int \<Rightarrow> int \<Rightarrow> int \<Rightarrow> int \<Rightarrow> zlog_thread option" where
  "zlog_thread_new alloc calloc hostname tid ktid init_version buf_size_min buf_size_max time_cache_count =
     (if \<not> calloc 1 then None
      else do {
        mdc \<leftarrow> zlog_mdc_new calloc;
        event \<leftarrow> zlog_event_new calloc hostname tid ktid time_cache_count;
        pre_path \<leftarrow> path_buf_new alloc;
        path \<leftarrow> path_buf_new alloc;
        archive_path \<leftarrow> path_buf_new alloc;
        pre_msg \<leftarrow> zlog_buf_new alloc buf_size_min buf_size_max (Some buf_mark);
        msg \<leftarrow> zlog_buf_new alloc buf_size_min buf_size_max (Some buf_mark);
        Some \<lparr>th_init_version = init_version, th_mdc = mdc, th_event = event, th_pre_path_buf = pre_path, th_path_buf = path,
          th_archive_path_buf = archive_path, th_pre_msg_buf = pre_msg, th_msg_buf = msg\<rparr>
      })"

definition zlog_thread_rebuild_msg_buf :: "(int \<Rightarrow> bool) \<Rightarrow> int \<Rightarrow> int \<Rightarrow> zlog_thread \<Rightarrow> int \<times> zlog_thread" where
  "zlog_thread_rebuild_msg_buf alloc buf_size_min buf_size_max th =
     (if b_size_min (th_msg_buf th) = buf_size_min \<and> b_size_max (th_msg_buf th) = buf_size_max then (0, th)
      else case zlog_buf_new alloc buf_size_min buf_size_max (Some buf_mark) of
        None \<Rightarrow> (-1, th)
      | Some pre \<Rightarrow>
          (case zlog_buf_new alloc buf_size_min buf_size_max (Some buf_mark) of
             None \<Rightarrow> (-1, th)
           | Some msg \<Rightarrow> (0, th\<lparr>th_pre_msg_buf := pre, th_msg_buf := msg\<rparr>)))"

definition zlog_thread_rebuild_event :: "calloc \<Rightarrow> string option \<Rightarrow> nat \<Rightarrow> nat \<Rightarrow> int \<Rightarrow> zlog_thread \<Rightarrow> int \<times> zlog_thread" where
  "zlog_thread_rebuild_event calloc hostname tid ktid time_cache_count th =
     (case zlog_event_new calloc hostname tid ktid time_cache_count of
        None \<Rightarrow> (-1, th)
      | Some ev \<Rightarrow> (0, th\<lparr>th_event := ev\<rparr>))"

end
