(* ===== verification/Zlog_Spec.thy ===== *)
theory Zlog_Spec
  imports Zlog_Event Zlog_Category
begin

section \<open>Conversion specifications\<close>

text \<open>
  \<open>src/deps/zlog/src/spec.c\<close>: a pattern such as \<open>%d %-6V %m%n\<close> is cut into specifications, each a
  constant text or a conversion with a width; each knows how to write itself to a buffer. The
  function pointers of a specification are names. Texts are C strings, the characters before the
  terminating zero; a conversion of \<open>sscanf\<close> that does not fit its array is \<^const>\<open>None\<close>.
\<close>

definition LINE_SIZE :: nat where "LINE_SIZE = 4097"

datatype write_fn = Write_time | Write_ms | Write_us | Write_mdc | Write_str | Write_category | Write_srcfile
  | Write_srcfile_neat | Write_srcline | Write_srcfunc | Write_hostname | Write_newline | Write_cr | Write_percent
  | Write_pid | Write_tid_hex | Write_tid_long | Write_ktid | Write_level_lowercase | Write_level_uppercase | Write_usrmsg

text \<open>\<open>gen_msg\<close>, \<open>gen_path\<close> and \<open>gen_archive_path\<close> are all direct or all reformatting.\<close>

record zlog_spec =
  sp_str :: string
  sp_len :: nat
  sp_time_fmt :: string
  sp_time_cache_index :: nat
  sp_mdc_key :: string
  sp_print_fmt :: string
  sp_left_adjust :: bool
  sp_left_fill_zeros :: bool
  sp_max_width :: int
  sp_min_width :: int
  sp_write_buf :: write_fn
  sp_reformat :: bool

subsection \<open>Writing one specification\<close>

type_synonym written = "(int \<times> zlog_event \<times> zlog_buf) option"

definition write_text :: "zlog_ctx \<Rightarrow> string \<Rightarrow> zlog_event \<Rightarrow> zlog_buf \<Rightarrow> written" where
  "write_text cx s ev b = do {
     (rc, b) \<leftarrow> zlog_buf_append (cx_alloc cx) (cx_junk cx) s (int (length s)) b;
     Some (rc, ev, b)
   }"

text \<open>A pointer and a length, the pointer possibly null.\<close>

definition write_bytes :: "zlog_ctx \<Rightarrow> string option \<Rightarrow> int \<Rightarrow> zlog_event \<Rightarrow> zlog_buf \<Rightarrow> written" where
  "write_bytes cx p n ev b = do {
     s \<leftarrow> (case p of None \<Rightarrow> if n = 0 then Some [] else None | Some s \<Rightarrow> Some s);
     (rc, b) \<leftarrow> zlog_buf_append (cx_alloc cx) (cx_junk cx) s n b;
     Some (rc, ev, b)
   }"

definition take_time :: "zlog_ctx \<Rightarrow> zlog_event \<Rightarrow> zlog_event" where
  "take_time cx ev =
     (if ev_tv_sec ev = 0 then ev\<lparr>ev_tv_sec := fst (cx_now cx), ev_tv_usec := snd (cx_now cx)\<rparr> else ev)"

definition zlog_spec_write_time :: "zlog_ctx \<Rightarrow> zlog_spec \<Rightarrow> zlog_event \<Rightarrow> zlog_buf \<Rightarrow> written" where
  "zlog_spec_write_time cx s ev b =
     (let ev = take_time cx ev; now_sec = ev_tv_sec ev;
          ev = (if ev_time_local_sec ev \<noteq> now_sec
                then ev\<lparr>ev_time_local := cx_localtime cx now_sec, ev_time_local_sec := now_sec\<rparr> else ev) in do {
        cache \<leftarrow> block_read (ev_time_caches ev) (int (sp_time_cache_index s));
        let cache = (if tc_sec cache \<noteq> now_sec
             then let t = cx_strftime cx (sp_time_fmt s) (ev_time_local ev) in
               \<lparr>tc_str = take (LINE_SIZE - 1) t, tc_len = (if length t < LINE_SIZE then int (length t) else 0), tc_sec = now_sec\<rparr>
             else cache);
        let ev = ev\<lparr>ev_time_caches := (ev_time_caches ev)[sp_time_cache_index s := cache]\<rparr>;
        write_bytes cx (Some (tc_str cache)) (tc_len cache) ev b
      })"

definition zlog_spec_write_ms :: "zlog_ctx \<Rightarrow> zlog_event \<Rightarrow> zlog_buf \<Rightarrow> written" where
  "zlog_spec_write_ms cx ev b =
     (let ev = take_time cx ev in do {
        (rc, b) \<leftarrow> zlog_buf_printf_dec32 (cx_alloc cx) (cx_junk cx) (word_of_int (ev_tv_usec ev div 1000)) 3 b;
        Some (rc, ev, b)
      })"

definition zlog_spec_write_us :: "zlog_ctx \<Rightarrow> zlog_event \<Rightarrow> zlog_buf \<Rightarrow> written" where
  "zlog_spec_write_us cx ev b =
     (let ev = take_time cx ev in do {
        (rc, b) \<leftarrow> zlog_buf_printf_dec32 (cx_alloc cx) (cx_junk cx) (word_of_int (ev_tv_usec ev)) 6 b;
        Some (rc, ev, b)
      })"

definition zlog_spec_write_mdc :: "zlog_ctx \<Rightarrow> zlog_mdc \<Rightarrow> zlog_spec \<Rightarrow> zlog_event \<Rightarrow> zlog_buf \<Rightarrow> written" where
  "zlog_spec_write_mdc cx mdc s ev b = do {
     kv \<leftarrow> zlog_mdc_get_kv mdc (sp_mdc_key s);
     (case kv of None \<Rightarrow> Some (0, ev, b) | Some kv \<Rightarrow> write_bytes cx (Some (kv_value kv)) (kv_value_len kv) ev b)
   }"

definition zlog_spec_write_str :: "zlog_ctx \<Rightarrow> zlog_spec \<Rightarrow> zlog_event \<Rightarrow> zlog_buf \<Rightarrow> written" where
  "zlog_spec_write_str cx s ev b = write_bytes cx (Some (sp_str s)) (int (sp_len s)) ev b"

definition zlog_spec_write_srcfile :: "zlog_ctx \<Rightarrow> zlog_event \<Rightarrow> zlog_buf \<Rightarrow> written" where
  "zlog_spec_write_srcfile cx ev b =
     (if ev_file ev = None then write_text cx ''(file=null)'' ev b else write_bytes cx (ev_file ev) (ev_file_len ev) ev b)"

text \<open>\<open>strrchr\<close> of a null pointer is undefined.\<close>

definition zlog_spec_write_srcfile_neat :: "zlog_ctx \<Rightarrow> zlog_event \<Rightarrow> zlog_buf \<Rightarrow> written" where
  "zlog_spec_write_srcfile_neat cx ev b = do {
     file \<leftarrow> ev_file ev;
     if CHR ''/'' \<in> set file then
       let name = rev (takeWhile (\<lambda>c. c \<noteq> CHR ''/'') (rev file)); p = length file - length name in
       write_bytes cx (Some name) (ev_file_len ev - int p) ev b
     else write_bytes cx (Some file) (ev_file_len ev) ev b
   }"

definition zlog_spec_write_srcline :: "zlog_ctx \<Rightarrow> zlog_event \<Rightarrow> zlog_buf \<Rightarrow> written" where
  "zlog_spec_write_srcline cx ev b = do {
     (rc, b) \<leftarrow> zlog_buf_printf_dec64 (cx_alloc cx) (cx_junk cx) (word_of_int (ev_line ev)) 0 b;
     Some (rc, ev, b)
   }"

definition zlog_spec_write_srcfunc :: "zlog_ctx \<Rightarrow> zlog_event \<Rightarrow> zlog_buf \<Rightarrow> written" where
  "zlog_spec_write_srcfunc cx ev b =
     (if ev_file ev = None then write_text cx ''(func=null)'' ev b else write_bytes cx (ev_func ev) (ev_func_len ev) ev b)"

definition zlog_spec_write_pid :: "zlog_ctx \<Rightarrow> zlog_event \<Rightarrow> zlog_buf \<Rightarrow> written" where
  "zlog_spec_write_pid cx ev b =
     (let ev = (if ev_pid ev = 0 then
            let ev = ev\<lparr>ev_pid := cx_getpid cx\<rparr> in
            if ev_pid ev \<noteq> ev_last_pid ev then ev\<lparr>ev_last_pid := ev_pid ev, ev_pid_str := digits 10 (nat (ev_pid ev mod 2 ^ 32))\<rparr>
            else ev
          else ev)
      in write_text cx (ev_pid_str ev) ev b)"

definition write_level :: "(zlog_level \<Rightarrow> string) \<Rightarrow> zlog_ctx \<Rightarrow> zlog_event \<Rightarrow> zlog_buf \<Rightarrow> written" where
  "write_level name cx ev b = do {
     a_level \<leftarrow> zlog_level_list_get (cx_levels cx) (ev_level ev);
     l \<leftarrow> a_level;
     write_bytes cx (Some (name l)) (int (str_len l)) ev b
   }"

definition zlog_spec_write_level_lowercase :: "zlog_ctx \<Rightarrow> zlog_event \<Rightarrow> zlog_buf \<Rightarrow> written" where
  "zlog_spec_write_level_lowercase = write_level str_lowercase"

definition zlog_spec_write_level_uppercase :: "zlog_ctx \<Rightarrow> zlog_event \<Rightarrow> zlog_buf \<Rightarrow> written" where
  "zlog_spec_write_level_uppercase = write_level str_uppercase"

subsection \<open>The message of the caller\<close>

definition ZLOG_HEX_HEAD :: string where
  "ZLOG_HEX_HEAD = CHR 0x0A # ''             0  1  2  3  4  5  6  7  8  9  A  B  C  D  E  F    0123456789ABCDEF''"

text \<open>A writer that goes on only after a writer that returned 0, as the jumps to the end of the dump do.\<close>

type_synonym writer = "zlog_buf \<Rightarrow> (int \<times> zlog_buf) option"

definition and_then :: "writer \<Rightarrow> writer \<Rightarrow> writer" where
  "and_then f g b = do { (rc, b) \<leftarrow> f b; if rc \<noteq> 0 then Some (rc, b) else g b }"

definition put_str :: "zlog_ctx \<Rightarrow> string \<Rightarrow> writer" where
  "put_str cx s = zlog_buf_append (cx_alloc cx) (cx_junk cx) s (int (length s))"

fun write_in_turn :: "writer list \<Rightarrow> writer" where
  "write_in_turn [] b = Some (0, b)"
| "write_in_turn (f # fs) b = and_then f (write_in_turn fs) b"

definition hex_byte :: "zlog_ctx \<Rightarrow> string \<Rightarrow> int \<Rightarrow> int \<Rightarrow> writer" where
  "hex_byte cx buf n i b =
     (if i < n then do {
        c \<leftarrow> block_read buf i;
        and_then (zlog_buf_printf_hex (cx_alloc cx) (cx_junk cx) (word_of_nat (cnum c)) 2) (put_str cx '' '') b
      } else put_str cx ''   '' b)"

definition text_byte :: "zlog_ctx \<Rightarrow> string \<Rightarrow> int \<Rightarrow> int \<Rightarrow> writer" where
  "text_byte cx buf n i b =
     (if i < n then do {
        c \<leftarrow> block_read buf i;
        put_str cx (if 32 \<le> cnum c \<and> cnum c \<le> 126 then [c] else ''.'') b
      } else put_str cx '' '' b)"

definition hex_line :: "zlog_ctx \<Rightarrow> string \<Rightarrow> int \<Rightarrow> int \<Rightarrow> writer" where
  "hex_line cx buf n line = write_in_turn
     ([put_str cx [CHR 0x0A], zlog_buf_printf_dec64 (cx_alloc cx) (cx_junk cx) (word_of_int (line + 1)) 10, put_str cx ''   ''] @
      map (\<lambda>k. hex_byte cx buf n (line * 16 + int k)) [0..<16] @ [put_str cx ''  ''] @
      map (\<lambda>k. text_byte cx buf n (line * 16 + int k)) [0..<16])"

function hex_lines :: "zlog_ctx \<Rightarrow> string \<Rightarrow> int \<Rightarrow> int \<Rightarrow> writer" where
  "hex_lines cx buf n line b =
     (case hex_line cx buf n line b of
        None \<Rightarrow> None
      | Some (rc, b) \<Rightarrow>
          if rc \<noteq> 0 then Some (rc, b)
          else if line * 16 + 16 \<ge> n then Some (0, b)
          else hex_lines cx buf n (line + 1) b)"
  by pat_completeness auto
termination by (relation "measure (\<lambda>(cx, buf, n, line, b). nat (n - line * 16))") auto

declare hex_lines.simps [simp del]

definition zlog_spec_write_usrmsg :: "zlog_ctx \<Rightarrow> zlog_event \<Rightarrow> zlog_buf \<Rightarrow> written" where
  "zlog_spec_write_usrmsg cx ev b =
     (case ev_generate_cmd ev of
        ZLOG_FMT \<Rightarrow>
          (case ev_str_format ev of
             Some text \<Rightarrow> do { (rc, b) \<leftarrow> zlog_buf_vprintf (cx_alloc cx) (cx_junk cx) text b; Some (rc, ev, b) }
           | None \<Rightarrow> write_text cx ''format=(null)'' ev b)
      | ZLOG_HEX \<Rightarrow> do {
          (rc, b) \<leftarrow> (case ev_hex_buf ev of
             None \<Rightarrow> put_str cx ''buf=(null)'' b
           | Some buf \<Rightarrow> and_then (put_str cx ZLOG_HEX_HEAD) (hex_lines cx buf (ev_hex_buf_len ev) 0) b);
          Some (if rc < 0 then -1 else if rc > 0 then 1 else 0, ev, b)
        })"

definition write_spec :: "zlog_ctx \<Rightarrow> zlog_mdc \<Rightarrow> zlog_spec \<Rightarrow> zlog_event \<Rightarrow> zlog_buf \<Rightarrow> written" where
  "write_spec cx mdc s ev b =
     (case sp_write_buf s of
        Write_time \<Rightarrow> zlog_spec_write_time cx s ev b
      | Write_ms \<Rightarrow> zlog_spec_write_ms cx ev b
      | Write_us \<Rightarrow> zlog_spec_write_us cx ev b
      | Write_mdc \<Rightarrow> zlog_spec_write_mdc cx mdc s ev b
      | Write_str \<Rightarrow> zlog_spec_write_str cx s ev b
      | Write_category \<Rightarrow> write_text cx (ev_category_name ev) ev b
      | Write_srcfile \<Rightarrow> zlog_spec_write_srcfile cx ev b
      | Write_srcfile_neat \<Rightarrow> zlog_spec_write_srcfile_neat cx ev b
      | Write_srcline \<Rightarrow> zlog_spec_write_srcline cx ev b
      | Write_srcfunc \<Rightarrow> zlog_spec_write_srcfunc cx ev b
      | Write_hostname \<Rightarrow> write_text cx (ev_host_name ev) ev b
      | Write_newline \<Rightarrow> write_text cx [CHR 0x0A] ev b
      | Write_cr \<Rightarrow> write_text cx [CHR 0x0D] ev b
      | Write_percent \<Rightarrow> write_text cx ''%'' ev b
      | Write_pid \<Rightarrow> zlog_spec_write_pid cx ev b
      | Write_tid_hex \<Rightarrow> write_text cx (ev_tid_hex_str ev) ev b
      | Write_tid_long \<Rightarrow> write_text cx (ev_tid_str ev) ev b
      | Write_ktid \<Rightarrow> write_text cx (ev_ktid_str ev) ev b
      | Write_level_lowercase \<Rightarrow> zlog_spec_write_level_lowercase cx ev b
      | Write_level_uppercase \<Rightarrow> zlog_spec_write_level_uppercase cx ev b
      | Write_usrmsg \<Rightarrow> zlog_spec_write_usrmsg cx ev b)"

subsection \<open>Generating a message or a path\<close>

definition gen_direct :: "zlog_ctx \<Rightarrow> zlog_mdc \<Rightarrow> zlog_spec \<Rightarrow> zlog_event \<Rightarrow> zlog_buf \<Rightarrow> zlog_buf \<Rightarrow>
    (int \<times> zlog_event \<times> zlog_buf \<times> zlog_buf) option" where
  "gen_direct cx mdc s ev pre out = do { (rc, ev, out) \<leftarrow> write_spec cx mdc s ev out; Some (rc, ev, pre, out) }"

definition gen_reformat :: "zlog_ctx \<Rightarrow> zlog_mdc \<Rightarrow> zlog_spec \<Rightarrow> zlog_event \<Rightarrow> zlog_buf \<Rightarrow> zlog_buf \<Rightarrow>
    (int \<times> zlog_event \<times> zlog_buf \<times> zlog_buf) option" where
  "gen_reformat cx mdc s ev pre out = do {
     (rc, ev, pre) \<leftarrow> write_spec cx mdc s ev (zlog_buf_restart pre);
     if rc < 0 then Some (-1, ev, pre, out)
     else do {
       str \<leftarrow> b_start pre;
       (rc, out) \<leftarrow> zlog_buf_adjust_append (cx_alloc cx) (cx_junk cx) str (zlog_buf_len pre)
         (sp_left_adjust s) (sp_left_fill_zeros s) (sp_min_width s) (sp_max_width s) out;
       Some (rc, ev, pre, out)
     }
   }"

definition gen_spec :: "zlog_ctx \<Rightarrow> zlog_mdc \<Rightarrow> zlog_spec \<Rightarrow> zlog_event \<Rightarrow> zlog_buf \<Rightarrow> zlog_buf \<Rightarrow>
    (int \<times> zlog_event \<times> zlog_buf \<times> zlog_buf) option" where
  "gen_spec cx mdc s = (if sp_reformat s then gen_reformat cx mdc s else gen_direct cx mdc s)"

definition zlog_spec_gen_msg :: "zlog_ctx \<Rightarrow> zlog_spec \<Rightarrow> zlog_thread \<Rightarrow> (int \<times> zlog_thread) option" where
  "zlog_spec_gen_msg cx s th = do {
     (rc, ev, pre, out) \<leftarrow> gen_spec cx (th_mdc th) s (th_event th) (th_pre_msg_buf th) (th_msg_buf th);
     Some (rc, th\<lparr>th_event := ev, th_pre_msg_buf := pre, th_msg_buf := out\<rparr>)
   }"

definition zlog_spec_gen_path :: "zlog_ctx \<Rightarrow> zlog_spec \<Rightarrow> zlog_thread \<Rightarrow> (int \<times> zlog_thread) option" where
  "zlog_spec_gen_path cx s th = do {
     (rc, ev, pre, out) \<leftarrow> gen_spec cx (th_mdc th) s (th_event th) (th_pre_path_buf th) (th_path_buf th);
     Some (rc, th\<lparr>th_event := ev, th_pre_path_buf := pre, th_path_buf := out\<rparr>)
   }"

definition zlog_spec_gen_archive_path :: "zlog_ctx \<Rightarrow> zlog_spec \<Rightarrow> zlog_thread \<Rightarrow> (int \<times> zlog_thread) option" where
  "zlog_spec_gen_archive_path cx s th = do {
     (rc, ev, pre, out) \<leftarrow> gen_spec cx (th_mdc th) s (th_event th) (th_pre_path_buf th) (th_archive_path_buf th);
     Some (rc, th\<lparr>th_event := ev, th_pre_path_buf := pre, th_archive_path_buf := out\<rparr>)
   }"

end
