(* ===== verification/Zlog_Format.thy ===== *)
theory Zlog_Format
  imports Zlog_Spec
begin

section \<open>Patterns and formats\<close>

text \<open>
  Cutting a pattern into specifications (\<open>zlog_spec_new\<close> of \<open>spec.c\<close>), formats and messages
  (\<open>format.c\<close>), and references to the environment in a pattern (\<open>zc_str_replace_env\<close> of
  \<open>zc_util.c\<close>), the latter on the bytes of the array, since it goes on reading behind the end of
  the text.
\<close>

subsection \<open>Environment variables\<close>

definition fmt_char :: "char \<Rightarrow> bool" where
  "fmt_char c \<longleftrightarrow> c = CHR ''.'' \<or> is_digit c \<or> c = CHR ''-''"

definition number :: "string \<Rightarrow> nat" where
  "number ds = foldl (\<lambda>a c. 10 * a + (cnum c - 48)) 0 ds"

text \<open>
  \<open>snprintf\<close> of a string under \<open>%\<close>, the flags, width and precision \<open>f\<close>, and \<open>s\<close>. What is no such
  format is undefined, and so is the flag 0.
\<close>

definition format_s :: "string \<Rightarrow> string \<Rightarrow> string option" where
  "format_s f v =
     (let left = f \<noteq> [] \<and> hd f = CHR ''-''; r = dropWhile (\<lambda>c. c = CHR ''-'') f;
          width = takeWhile is_digit r; r = dropWhile is_digit r in
      if width \<noteq> [] \<and> hd width = CHR ''0'' then None
      else if r \<noteq> [] \<and> (hd r \<noteq> CHR ''.'' \<or> \<not> list_all is_digit (tl r)) then None
      else
        let t = (if r = [] then v else take (number (tl r)) v); pad = replicate (number width - length t) (CHR '' '') in
        Some (if left then t @ pad else pad @ t))"

definition cstr :: "string \<Rightarrow> nat \<Rightarrow> string option" where
  "cstr blk q =
     (let s = takeWhile (\<lambda>c. c \<noteq> CHR 0x00) (drop q blk) in if q + length s < length blk then Some s else None)"

text \<open>\<open>sscanf(q, "E(%[^)])%n", env_key, &nread)\<close>: the result, the key and \<open>nread\<close>.\<close>

definition scan_env :: "string \<Rightarrow> nat \<Rightarrow> int \<times> string \<times> nat" where
  "scan_env s nread =
     (if s = [] then (-1, [], nread)
      else if hd s \<noteq> CHR ''E'' then (0, [], nread)
      else if tl s = [] then (-1, [], nread)
      else if hd (tl s) \<noteq> CHR ''('' then (0, [], nread)
      else if drop 2 s = [] then (-1, [], nread)
      else let key = takeWhile (\<lambda>c. c \<noteq> CHR '')'') (drop 2 s) in
        if key = [] then (0, [], nread)
        else (1, key, if drop (length key) (drop 2 s) \<noteq> [] then length key + 3 else nread))"

text \<open>One replacement: the bytes from \<open>p\<close> to \<open>q\<close> give way to \<open>v\<close>, and what follows moves.\<close>

definition replace_bytes :: "string \<Rightarrow> nat \<Rightarrow> nat \<Rightarrow> string \<Rightarrow> string option" where
  "replace_bytes blk p q v = do {
     rest \<leftarrow> cstr blk q;
     blk \<leftarrow> block_write blk (int (p + length v)) (rest @ [CHR 0x00]);
     block_write blk (int p) v
   }"

lemma replace_bytes_length: "replace_bytes blk p q v = Some blk' \<Longrightarrow> length blk' = length blk"
  by (auto simp: replace_bytes_def split: bind_splits) (metis block_write_length)

lemma cstr_bound: "cstr blk q = Some s \<Longrightarrow> q + length s < length blk"
  by (auto simp: cstr_def Let_def split: if_splits)

text \<open>
  One turn of the loop. The length kept so far is an \<open>int\<close>, compared with the unsigned size of the
  array: a negative one is too big.
\<close>

datatype env_next = Finished int string | Next string nat int

definition env_step :: "(string \<Rightarrow> string option) \<Rightarrow> string \<Rightarrow> nat \<Rightarrow> int \<Rightarrow> env_next option" where
  "env_step getenv blk q slen = do {
     s \<leftarrow> cstr blk q;
     let k = length (takeWhile (\<lambda>c. c \<noteq> CHR ''%'') s);
     if k = length s then Some (Finished 0 blk)
     else do {
       let p = q + k;
       let r = drop (k + 1) s;
       let f = takeWhile fmt_char r;
       let q = p + 1 + length f;
       let (nscan, key, nread) = scan_env (drop (length f) r) (length f);
       if length f + 2 \<ge> LINE_SIZE then None
       else if nscan = 0 then Some (Next blk q slen)
       else do {
         let q = q + nread;
         c \<leftarrow> block_read blk (int q - 1);
         if c \<noteq> CHR '')'' then Some (Finished (-1) blk)
         else do {
           var \<leftarrow> getenv key;
           v \<leftarrow> format_s f var;
           let slen = slen - int (q - p) + int (length v);
           if length v \<ge> LINE_SIZE \<or> slen < 0 \<or> slen > int (length blk) - 1 then Some (Finished (-1) blk)
           else do {
             blk \<leftarrow> replace_bytes blk p q v;
             Some (Next blk q slen)
           }
         }
       }
     }
   }"

lemma env_step_progress:
  assumes "env_step getenv blk q slen = Some (Next blk' q' slen')"
  shows "length blk' = length blk \<and> q < q' \<and> q < length blk"
proof -
  obtain s where "cstr blk q = Some s" using assms by (auto simp: env_step_def split: bind_splits)
  then have "q < length blk" using cstr_bound [of blk q s] by simp
  then show ?thesis using assms replace_bytes_length
    by (auto simp: env_step_def Let_def split: bind_splits if_splits prod.splits)
qed

function env_loop :: "(string \<Rightarrow> string option) \<Rightarrow> string \<Rightarrow> nat \<Rightarrow> int \<Rightarrow> (int \<times> string) option" where
  "env_loop getenv blk q slen =
     (case env_step getenv blk q slen of
        None \<Rightarrow> None
      | Some (Finished rc blk) \<Rightarrow> Some (rc, blk)
      | Some (Next blk q slen) \<Rightarrow> env_loop getenv blk q slen)"
  by pat_completeness auto
termination
  by (relation "measure (\<lambda>(getenv, blk, q, slen). length blk - q)") (auto dest: env_step_progress)

declare env_loop.simps [simp del]

definition zc_str_replace_env :: "(string \<Rightarrow> string option) \<Rightarrow> string \<Rightarrow> (int \<times> string) option" where
  "zc_str_replace_env getenv blk = do { s \<leftarrow> cstr blk 0; env_loop getenv blk 0 (int (length s)) }"

subsection \<open>Cutting a pattern\<close>

definition scan_long :: "string \<Rightarrow> int" where
  "scan_long cs = (case read_number (dropWhile is_space cs) of None \<Rightarrow> 0 | Some (n, _) \<Rightarrow> max (- (2 ^ 63)) (min (2 ^ 63 - 1) n))"

definition zlog_spec_parse_print_fmt :: "zlog_spec \<Rightarrow> zlog_spec" where
  "zlog_spec_parse_print_fmt s =
     (let f = sp_print_fmt s; left = f \<noteq> [] \<and> hd f = CHR ''-''; p = (if left then tl f else f);
          q = dropWhile (\<lambda>c. c \<noteq> CHR ''.'') p;
          i = scan_long p; j = (if q = [] then 0 else scan_long (tl q)) in
      s\<lparr>sp_left_adjust := left, sp_left_fill_zeros := (if \<not> left \<and> f \<noteq> [] \<and> hd f = CHR ''0'' then True else sp_left_fill_zeros s),
        sp_min_width := i mod 2 ^ 64, sp_max_width := j mod 2 ^ 64\<rparr>)"

text \<open>
  \<open>sscanf(p, "x(%[^)])%n", key, &nread)\<close> behind its first letter: the key, when the one conversion
  succeeds, and the characters read, 0 when the parenthesis is not closed.
\<close>

definition scan_paren :: "string \<Rightarrow> (string \<times> nat) option" where
  "scan_paren p =
     (if tl p = [] \<or> hd (tl p) \<noteq> CHR ''('' then None
      else let key = takeWhile (\<lambda>c. c \<noteq> CHR '')'') (drop 2 p) in
        if key = [] then None
        else Some (key, if drop (length key) (drop 2 p) \<noteq> [] then length key + 3 else 0))"

definition ZLOG_DEFAULT_TIME_FMT :: string where "ZLOG_DEFAULT_TIME_FMT = ''%F %T''"

definition conversion :: "char \<Rightarrow> write_fn option" where
  "conversion c =
     map_of [(CHR ''c'', Write_category), (CHR ''D'', Write_time), (CHR ''F'', Write_srcfile), (CHR ''f'', Write_srcfile_neat),
       (CHR ''H'', Write_hostname), (CHR ''k'', Write_ktid), (CHR ''L'', Write_srcline), (CHR ''m'', Write_usrmsg),
       (CHR ''n'', Write_newline), (CHR ''r'', Write_cr), (CHR ''p'', Write_pid), (CHR ''U'', Write_srcfunc),
       (CHR ''v'', Write_level_lowercase), (CHR ''V'', Write_level_uppercase), (CHR ''t'', Write_tid_hex),
       (CHR ''T'', Write_tid_long), (CHR ''%'', Write_percent)] c"

text \<open>
  The result: undefined when a key or a time format is longer than its array, a failure, or the
  specification with its length, the rest of the pattern and the count of the time caches.
\<close>

type_synonym new_spec = "(zlog_spec \<times> string \<times> nat) option option"

definition finish_spec :: "zlog_spec \<Rightarrow> nat \<Rightarrow> nat \<Rightarrow> new_spec" where
  "finish_spec s k cnt = Some (Some (s\<lparr>sp_len := k\<rparr>, drop k (sp_str s), cnt))"

definition spec_time :: "zlog_spec \<Rightarrow> nat \<Rightarrow> string \<Rightarrow> nat \<Rightarrow> new_spec" where
  "spec_time s k p cnt =
     (let s = s\<lparr>sp_time_cache_index := cnt, sp_write_buf := Write_time\<rparr> in
      if tl p = [] \<or> hd (tl p) \<noteq> CHR ''('' then finish_spec (s\<lparr>sp_time_fmt := ZLOG_DEFAULT_TIME_FMT\<rparr>) (k + 1) (cnt + 1)
      else if take 3 p = ''d()'' then finish_spec (s\<lparr>sp_time_fmt := ZLOG_DEFAULT_TIME_FMT\<rparr>) (k + 3) (cnt + 1)
      else case scan_paren p of
        None \<Rightarrow> Some None
      | Some (key, nread) \<Rightarrow>
          if length key \<ge> LINE_SIZE then None
          else if nread = 0 then Some None
          else finish_spec (s\<lparr>sp_time_fmt := key\<rparr>) (k + nread) (cnt + 1))"

definition spec_mdc :: "zlog_spec \<Rightarrow> nat \<Rightarrow> string \<Rightarrow> nat \<Rightarrow> new_spec" where
  "spec_mdc s k p cnt =
     (let s = s\<lparr>sp_write_buf := Write_mdc\<rparr> in
      case scan_paren p of
        None \<Rightarrow> if take 3 p = ''M()'' then finish_spec s (k + 3) cnt else Some None
      | Some (key, nread) \<Rightarrow>
          if length key \<ge> NAME_SIZE then None
          else if nread = 0 then Some None
          else finish_spec (s\<lparr>sp_mdc_key := key\<rparr>) (k + nread) cnt)"

definition zlog_spec_new :: "bool \<Rightarrow> string \<Rightarrow> nat \<Rightarrow> new_spec" where
  "zlog_spec_new calloc_ok pattern_start cnt =
     (if \<not> calloc_ok then Some None
      else
        let s = \<lparr>sp_str = pattern_start, sp_len = 0, sp_time_fmt = [], sp_time_cache_index = 0, sp_mdc_key = [], sp_print_fmt = [],
              sp_left_adjust = False, sp_left_fill_zeros = False, sp_max_width = 0, sp_min_width = 0,
              sp_write_buf = Write_str, sp_reformat = False\<rparr> in
        if pattern_start \<noteq> [] \<and> hd pattern_start = CHR ''%'' then
          let f = takeWhile fmt_char (tl pattern_start);
              s = (if f \<noteq> [] then zlog_spec_parse_print_fmt (s\<lparr>sp_print_fmt := f, sp_reformat := True\<rparr>) else s);
              k = 1 + length f; p = drop k pattern_start in
          if length f \<ge> LINE_SIZE then None
          else if p = [] then Some None
          else if hd p = CHR ''d'' then spec_time s k p cnt
          else if hd p = CHR ''M'' then spec_mdc s k p cnt
          else if take 2 p = ''ms'' then finish_spec (s\<lparr>sp_write_buf := Write_ms\<rparr>) (k + 2) cnt
          else if take 2 p = ''us'' then finish_spec (s\<lparr>sp_write_buf := Write_us\<rparr>) (k + 2) cnt
          else case conversion (hd p) of
            None \<Rightarrow> Some None
          | Some Write_time \<Rightarrow> finish_spec (s\<lparr>sp_time_fmt := ZLOG_DEFAULT_TIME_FMT, sp_time_cache_index := cnt, sp_write_buf := Write_time\<rparr>)
              (k + 1) (cnt + 1)
          | Some w \<Rightarrow> finish_spec (s\<lparr>sp_write_buf := w\<rparr>) (k + 1) cnt
        else finish_spec s (length (takeWhile (\<lambda>c. c \<noteq> CHR ''%'') pattern_start)) cnt)"

lemma finish_spec_shorter:
  "finish_spec s k cnt = Some (Some (s', q, cnt')) \<Longrightarrow> 0 < k \<Longrightarrow> sp_str s \<noteq> [] \<Longrightarrow> length q < length (sp_str s)"
  by (auto simp: finish_spec_def)

lemma parse_print_fmt_str [simp]: "sp_str (zlog_spec_parse_print_fmt s) = sp_str s"
  by (simp add: zlog_spec_parse_print_fmt_def Let_def)

lemma spec_new_shorter:
  assumes "zlog_spec_new ok p cnt = Some (Some (s, q, cnt'))" and "p \<noteq> []"
  shows "length q < length p"
proof (cases "hd p = CHR ''%''")
  case True
  then show ?thesis using assms
    by (auto simp: zlog_spec_new_def spec_time_def spec_mdc_def Let_def finish_spec_def split: if_splits option.splits write_fn.splits)
next
  case False
  then have "takeWhile (\<lambda>c. c \<noteq> CHR ''%'') p \<noteq> []" using assms(2) by (cases p) auto
  then show ?thesis using assms False by (auto simp: zlog_spec_new_def Let_def finish_spec_def split: if_splits)
qed

subsection \<open>Formats\<close>

text \<open>The loop over a pattern, shared by formats and dynamic paths.\<close>

function specs_loop ::
  "(int \<Rightarrow> bool) \<Rightarrow> (nat \<Rightarrow> zlog_spec option) \<Rightarrow> string \<Rightarrow> nat \<Rightarrow> zlog_spec zc_arraylist \<Rightarrow> (bool \<times> nat \<times> zlog_spec zc_arraylist) option" where
  "specs_loop alloc junk p cnt specs =
     (if p = [] then Some (True, cnt, specs)
      else case zlog_spec_new (alloc 9296) p cnt of
        None \<Rightarrow> None
      | Some None \<Rightarrow> Some (False, cnt, specs)
      | Some (Some (s, q, cnt)) \<Rightarrow>
          (case zc_arraylist_add alloc junk specs (Some s) of
             None \<Rightarrow> None
           | Some (rc, specs) \<Rightarrow> if rc \<noteq> 0 then Some (False, cnt, specs) else specs_loop alloc junk q cnt specs))"
  by pat_completeness auto
termination
  by (relation "measure (\<lambda>(alloc, junk, p, cnt, specs). length p)") (auto dest: spec_new_shorter)

declare specs_loop.simps [simp del]

record zlog_format =
  fm_name :: string
  fm_pattern :: string
  fm_pattern_specs :: "zlog_spec zc_arraylist"

definition name_valid :: "string \<Rightarrow> bool" where
  "name_valid name \<longleftrightarrow> list_all (\<lambda>c. isalnum c \<or> c = CHR ''_'') name"

text \<open>The text between the first character of \<open>s\<close>, a quotation mark, and its last quotation mark.\<close>

definition quoted :: "string \<Rightarrow> string option" where
  "quoted s = (if CHR 0x22 \<in> set (tl s) then Some (rev (tl (dropWhile (\<lambda>c. c \<noteq> CHR 0x22) (rev (tl s))))) else None)"

definition zlog_format_new ::
  "(int \<Rightarrow> bool) \<Rightarrow> (nat \<Rightarrow> zlog_spec option) \<Rightarrow> (string \<Rightarrow> string option) \<Rightarrow> string \<Rightarrow> nat \<Rightarrow> (zlog_format option \<times> nat) option" where
  "zlog_format_new alloc junk getenv line cnt =
     (if \<not> alloc 8208 then Some (None, cnt)
      else
        let cs = dropWhile is_space line; name = takeWhile name_char cs; r = dropWhile is_space (dropWhile name_char cs);
            p = (if r \<noteq> [] \<and> hd r = CHR ''='' then dropWhile is_space (tl r) else line) in
        if name = [] then Some (None, cnt)
        else if length name \<ge> LINE_SIZE then None
        else if p = [] \<or> hd p \<noteq> CHR 0x22 then Some (None, cnt)
        else if \<not> name_valid name then Some (None, cnt)
        else case quoted p of
          None \<Rightarrow> Some (None, cnt)
        | Some pattern \<Rightarrow>
            if length pattern > LINE_SIZE - 1 then Some (None, cnt)
            else do {
              (rc, blk) \<leftarrow> zc_str_replace_env getenv (pattern @ replicate (LINE_SIZE - length pattern) (CHR 0x00));
              if rc \<noteq> 0 then Some (None, cnt)
              else do {
                pattern \<leftarrow> cstr blk 0;
                (case zc_arraylist_new alloc True of
                   None \<Rightarrow> Some (None, cnt)
                 | Some specs \<Rightarrow> do {
                     (ok, cnt, specs) \<leftarrow> specs_loop alloc junk pattern cnt specs;
                     Some (if ok then Some \<lparr>fm_name = name, fm_pattern = pattern, fm_pattern_specs = specs\<rparr> else None, cnt)
                   })
              }
            })"

fun gen_msg_loop :: "zlog_ctx \<Rightarrow> zlog_spec option list \<Rightarrow> zlog_thread \<Rightarrow> (int \<times> zlog_thread) option" where
  "gen_msg_loop cx [] th = Some (0, th)"
| "gen_msg_loop cx (x # xs) th = do {
     s \<leftarrow> x;
     (rc, th) \<leftarrow> zlog_spec_gen_msg cx s th;
     if rc = 0 then gen_msg_loop cx xs th else Some (-1, th)
   }"

definition zlog_format_gen_msg :: "zlog_ctx \<Rightarrow> zlog_format \<Rightarrow> zlog_thread \<Rightarrow> (int \<times> zlog_thread) option" where
  "zlog_format_gen_msg cx a_format th =
     gen_msg_loop cx (al_items (fm_pattern_specs a_format)) (th\<lparr>th_msg_buf := zlog_buf_restart (th_msg_buf th)\<rparr>)"

end
