(* ===== verification/Zlog_Output.thy ===== *)
theory Zlog_Output
  imports Zlog_Format Zlog_Rotater
begin

section \<open>What a rule does with a message\<close>

text \<open>
  The outputs of \<open>src/deps/zlog/src/rule.c\<close>: files, fixed or with a path made for each message,
  single or rotated, a pipe, the system log, the standard streams and the functions of the user.
  \<open>zlog_action\<close> is the half of a \<open>zlog_rule_t\<close> that \<open>zlog_rule\<close> leaves out. Files are those of
  \<open>Zlog_Rotater\<close>; what leaves the program otherwise is kept in order. What the system answers is an
  argument; \<open>fsync\<close> is not seen.
\<close>

datatype output_fn = Static_single | Static_rotate | Dynamic_single | Dynamic_rotate | Pipe | Syslog
  | Static_record | Dynamic_record | Stdout | Stderr | No_output

record zlog_action =
  ac_file_open_flags :: bool
  ac_file_path :: string
  ac_dynamic_specs :: "zlog_spec zc_arraylist option"
  ac_static_fd :: "(int \<times> int) option"
  ac_static_ino :: "int \<times> int"
  ac_archive_max_size :: int
  ac_archive_max_count :: int
  ac_archive_path :: string
  ac_archive_specs :: "zlog_spec zc_arraylist option"
  ac_pipe_fd :: int
  ac_fsync_period :: int
  ac_fsync_count :: int
  ac_syslog_facility :: int
  ac_format :: zlog_format
  ac_output :: output_fn
  ac_record_name :: string
  ac_record_path :: string
  ac_record_func :: "(string \<Rightarrow> int \<Rightarrow> string \<Rightarrow> int) option"

datatype sink = To_fd int string | To_syslog int string | To_record string int string

record zlog_world =
  wd_fs :: fs
  wd_ino :: "string \<Rightarrow> int \<times> int"
  wd_rotater :: zlog_rotater
  wd_sent :: "sink list"

text \<open>
  A descriptor is the device and inode it is open on, and \<open>wd_ino\<close> has those that the names of files
  stand for. \<open>io_moved\<close> has them after the files were rotated. \<open>io_write\<close> is the result of \<open>write\<close> for the bytes it is given, at most their number; \<open>io_stat\<close>
  says for which paths \<open>stat\<close> fails although the file is there, \<open>io_ino\<close> which inode a new file gets.
\<close>

record zlog_io =
  io_os :: zlog_os
  io_junk :: "nat \<Rightarrow> zlog_file option"
  io_write :: "string \<Rightarrow> int"
  io_close :: bool
  io_stat :: "string \<Rightarrow> bool"
  io_ino :: "int \<times> int"
  io_moved :: "string \<Rightarrow> int \<times> int"

subsection \<open>Files\<close>

text \<open>\<open>open\<close> with \<open>O_APPEND | O_CREAT\<close>, and \<open>write\<close> to a file opened so.\<close>

definition open_append :: "zlog_io \<Rightarrow> string \<Rightarrow> fs \<Rightarrow> fs option" where
  "open_append io path fs =
     (if path = [] \<or> os_refuse (io_os io) path \<or> path \<in> set (fs_dirs fs) then None
      else if fs_get fs path = None then Some (fs\<lparr>fs_files := (path, []) # fs_files fs\<rparr>)
      else Some fs)"

definition file_append :: "string \<Rightarrow> string \<Rightarrow> fs \<Rightarrow> fs" where
  "file_append path s fs = fs\<lparr>fs_files := map (\<lambda>f. if fst f = path then (path, snd f @ s) else f) (fs_files fs)\<rparr>"

text \<open>\<open>write\<close> to a descriptor reaches the file that has its inode, under whatever name, or none.\<close>

definition fd_append :: "int \<times> int \<Rightarrow> string \<Rightarrow> zlog_world \<Rightarrow> zlog_world" where
  "fd_append i s wd = wd\<lparr>wd_fs := (wd_fs wd)\<lparr>fs_files :=
     map (\<lambda>f. if wd_ino wd (fst f) = i then (fst f, snd f @ s) else f) (fs_files (wd_fs wd))\<rparr>\<rparr>"

definition kernel_takes :: "zlog_io \<Rightarrow> string \<Rightarrow> string option" where
  "kernel_takes io s = (if io_write io s < 0 then None else Some (take (nat (io_write io s)) s))"

definition fsync_tick :: "zlog_action \<Rightarrow> zlog_action" where
  "fsync_tick a =
     (if ac_fsync_period a = 0 then a
      else let n = (ac_fsync_count a + 1) mod 2 ^ 64 in a\<lparr>ac_fsync_count := (if n \<ge> ac_fsync_period a then 0 else n)\<rparr>)"

text \<open>The bytes of the message: the start of the buffer and its length.\<close>

definition msg_bytes :: "zlog_thread \<Rightarrow> string option" where
  "msg_bytes th = do { d \<leftarrow> b_start (th_msg_buf th); mem_read d (zlog_buf_len (th_msg_buf th)) }"

text \<open>Open, write, close: the part the outputs to files that are not kept open share.\<close>

definition write_file :: "zlog_io \<Rightarrow> string \<Rightarrow> string \<Rightarrow> zlog_action \<Rightarrow> fs \<Rightarrow> int \<times> zlog_action \<times> fs" where
  "write_file io path s a fs =
     (case open_append io path fs of
        None \<Rightarrow> (-1, a, fs)
      | Some fs \<Rightarrow>
          (case kernel_takes io s of
             None \<Rightarrow> (-1, a, fs)
           | Some t \<Rightarrow> (if io_close io then 0 else -1, fsync_tick a, file_append path t fs)))"

type_synonym emitted = "(int \<times> zlog_action \<times> zlog_thread \<times> zlog_world) option"

definition zlog_rule_output_static_file_single :: "zlog_io \<Rightarrow> zlog_ctx \<Rightarrow> zlog_action \<Rightarrow> zlog_thread \<Rightarrow> zlog_world \<Rightarrow> emitted" where
  "zlog_rule_output_static_file_single io cx a th wd = do {
     (rc, th) \<leftarrow> zlog_format_gen_msg cx (ac_format a) th;
     if rc \<noteq> 0 then Some (-1, a, th, wd)
     else
       let path = ac_file_path a; there = fs_get (wd_fs wd) path \<noteq> None in
       if there \<and> io_stat io path then Some (-1, a, th, wd)
       else
         let reload = (if there then wd_ino wd path \<noteq> ac_static_ino a else True) in
         case (if reload then open_append io path (wd_fs wd) else Some (wd_fs wd)) of
           None \<Rightarrow> Some (-1, a\<lparr>ac_static_fd := None\<rparr>, th, wd)
         | Some fs \<Rightarrow>
             let wd = wd\<lparr>wd_fs := fs, wd_ino := (if there then wd_ino wd else (wd_ino wd)(path := io_ino io))\<rparr>;
                 a = (if reload then a\<lparr>ac_static_fd := Some (wd_ino wd path)\<rparr> else a) in
             if \<not> there \<and> io_stat io path then Some (-1, a, th, wd)
             else let a = (if reload then a\<lparr>ac_static_ino := wd_ino wd path\<rparr> else a) in do {
               s \<leftarrow> msg_bytes th;
               (case ac_static_fd a of
                  None \<Rightarrow> Some (-1, a, th, wd)
                | Some fd \<Rightarrow>
                    (case kernel_takes io s of
                       None \<Rightarrow> Some (-1, a, th, wd)
                     | Some t \<Rightarrow> Some (0, fsync_tick a, th, fd_append fd t wd)))
             }
   }"

subsection \<open>Paths made for a message\<close>

fun gen_path_loop :: "(zlog_spec \<Rightarrow> zlog_thread \<Rightarrow> (int \<times> zlog_thread) option) \<Rightarrow> zlog_spec option list \<Rightarrow> zlog_thread \<Rightarrow>
    (int \<times> zlog_thread) option" where
  "gen_path_loop gen [] th = Some (0, th)"
| "gen_path_loop gen (x # xs) th = do {
     s \<leftarrow> x;
     (rc, th) \<leftarrow> gen s th;
     if rc \<noteq> 0 then Some (-1, th) else gen_path_loop gen xs th
   }"

definition zlog_rule_gen_archive_path :: "zlog_ctx \<Rightarrow> zlog_action \<Rightarrow> zlog_thread \<Rightarrow> (string option \<times> zlog_thread) option" where
  "zlog_rule_gen_archive_path cx a th =
     (case ac_archive_specs a of
        None \<Rightarrow> Some (Some (ac_archive_path a), th)
      | Some specs \<Rightarrow> do {
          (rc, th) \<leftarrow> gen_path_loop (zlog_spec_gen_archive_path cx) (al_items specs)
            (th\<lparr>th_archive_path_buf := zlog_buf_restart (th_archive_path_buf th)\<rparr>);
          if rc \<noteq> 0 then Some (None, th)
          else do {
            b \<leftarrow> zlog_buf_seal (th_archive_path_buf th);
            d \<leftarrow> b_start b;
            path \<leftarrow> cstr d 0;
            Some (Some path, th\<lparr>th_archive_path_buf := b\<rparr>)
          }
        })"

text \<open>The macro \<open>zlog_rule_gen_path\<close>: the path, unless a specification fails.\<close>

definition zlog_rule_gen_path :: "zlog_ctx \<Rightarrow> zlog_action \<Rightarrow> zlog_thread \<Rightarrow> (string option \<times> zlog_thread) option" where
  "zlog_rule_gen_path cx a th = do {
     specs \<leftarrow> ac_dynamic_specs a;
     (rc, th) \<leftarrow> gen_path_loop (zlog_spec_gen_path cx) (al_items specs) (th\<lparr>th_path_buf := zlog_buf_restart (th_path_buf th)\<rparr>);
     if rc \<noteq> 0 then Some (None, th)
     else do {
       b \<leftarrow> zlog_buf_seal (th_path_buf th);
       d \<leftarrow> b_start b;
       path \<leftarrow> cstr d 0;
       Some (Some path, th\<lparr>th_path_buf := b\<rparr>)
     }
   }"

text \<open>The message for the file at \<open>path\<close>, and the rotation when the file has grown too large.\<close>

definition rotate_if_large :: "zlog_io \<Rightarrow> zlog_ctx \<Rightarrow> string \<Rightarrow> int \<Rightarrow> zlog_action \<Rightarrow> zlog_thread \<Rightarrow> zlog_world \<Rightarrow> emitted" where
  "rotate_if_large io cx path len a th wd =
     (if len > ac_archive_max_size a mod 2 ^ 64 then Some (0, a, th, wd)
      else case (if io_stat io path then None else fs_get (wd_fs wd) path) of
        None \<Rightarrow> Some (0, a, th, wd)
      | Some c \<Rightarrow>
          if (int (length c) + len) mod 2 ^ 64 < ac_archive_max_size a mod 2 ^ 64 then Some (0, a, th, wd)
          else do {
            (archive, th) \<leftarrow> zlog_rule_gen_archive_path cx a th;
            (rc, rot, fs) \<leftarrow> zlog_rotater_rotate (io_os io) (io_junk io) (wd_rotater wd) path len archive
              (ac_archive_max_size a) (ac_archive_max_count a) (wd_fs wd);
            Some (if rc \<noteq> 0 then -1 else 0, a, th, wd\<lparr>wd_rotater := rot, wd_fs := fs, wd_ino := io_moved io\<rparr>)
          })"

definition write_message :: "zlog_io \<Rightarrow> zlog_ctx \<Rightarrow> bool \<Rightarrow> string \<Rightarrow> zlog_action \<Rightarrow> zlog_thread \<Rightarrow> zlog_world \<Rightarrow> emitted" where
  "write_message io cx limited path a th wd = do {
     s \<leftarrow> msg_bytes th;
     let (rc, a, fs) = write_file io path s a (wd_fs wd);
     let wd = wd\<lparr>wd_fs := fs, wd_ino := (if fs_get (wd_fs wd) path = None then (wd_ino wd)(path := io_ino io) else wd_ino wd)\<rparr>;
     if rc \<noteq> 0 \<or> \<not> limited then Some (rc, a, th, wd) else rotate_if_large io cx path (int (length s)) a th wd
   }"

definition zlog_rule_output_static_file_rotate :: "zlog_io \<Rightarrow> zlog_ctx \<Rightarrow> zlog_action \<Rightarrow> zlog_thread \<Rightarrow> zlog_world \<Rightarrow> emitted" where
  "zlog_rule_output_static_file_rotate io cx a th wd = do {
     (rc, th) \<leftarrow> zlog_format_gen_msg cx (ac_format a) th;
     if rc \<noteq> 0 then Some (-1, a, th, wd) else write_message io cx True (ac_file_path a) a th wd
   }"

definition dynamic_file :: "bool \<Rightarrow> zlog_io \<Rightarrow> zlog_ctx \<Rightarrow> zlog_action \<Rightarrow> zlog_thread \<Rightarrow> zlog_world \<Rightarrow> emitted" where
  "dynamic_file limited io cx a th wd = do {
     (path, th) \<leftarrow> zlog_rule_gen_path cx a th;
     (case path of
        None \<Rightarrow> Some (-1, a, th, wd)
      | Some path \<Rightarrow> do {
          (rc, th) \<leftarrow> zlog_format_gen_msg cx (ac_format a) th;
          if rc \<noteq> 0 then Some (-1, a, th, wd) else write_message io cx limited path a th wd
        })
   }"

definition zlog_rule_output_dynamic_file_single :: "zlog_io \<Rightarrow> zlog_ctx \<Rightarrow> zlog_action \<Rightarrow> zlog_thread \<Rightarrow> zlog_world \<Rightarrow> emitted" where
  "zlog_rule_output_dynamic_file_single = dynamic_file False"

definition zlog_rule_output_dynamic_file_rotate :: "zlog_io \<Rightarrow> zlog_ctx \<Rightarrow> zlog_action \<Rightarrow> zlog_thread \<Rightarrow> zlog_world \<Rightarrow> emitted" where
  "zlog_rule_output_dynamic_file_rotate = dynamic_file True"

subsection \<open>Other outputs\<close>

definition send_fd :: "int \<Rightarrow> zlog_io \<Rightarrow> zlog_ctx \<Rightarrow> zlog_action \<Rightarrow> zlog_thread \<Rightarrow> zlog_world \<Rightarrow> emitted" where
  "send_fd fd io cx a th wd = do {
     (rc, th) \<leftarrow> zlog_format_gen_msg cx (ac_format a) th;
     if rc \<noteq> 0 then Some (-1, a, th, wd)
     else do {
       s \<leftarrow> msg_bytes th;
       (case kernel_takes io s of
          None \<Rightarrow> Some (-1, a, th, wd)
        | Some t \<Rightarrow> Some (0, a, th, wd\<lparr>wd_sent := wd_sent wd @ [To_fd fd t]\<rparr>))
     }
   }"

definition zlog_rule_output_pipe :: "zlog_io \<Rightarrow> zlog_ctx \<Rightarrow> zlog_action \<Rightarrow> zlog_thread \<Rightarrow> zlog_world \<Rightarrow> emitted" where
  "zlog_rule_output_pipe io cx a th wd = send_fd (ac_pipe_fd a) io cx a th wd"

definition zlog_rule_output_stdout :: "zlog_io \<Rightarrow> zlog_ctx \<Rightarrow> zlog_action \<Rightarrow> zlog_thread \<Rightarrow> zlog_world \<Rightarrow> emitted" where
  "zlog_rule_output_stdout = send_fd 1"

definition zlog_rule_output_stderr :: "zlog_io \<Rightarrow> zlog_ctx \<Rightarrow> zlog_action \<Rightarrow> zlog_thread \<Rightarrow> zlog_world \<Rightarrow> emitted" where
  "zlog_rule_output_stderr = send_fd 2"

text \<open>\<open>zlog_buf_seal\<close>, and the string the sealed message is for a reader of C strings.\<close>

definition seal_msg :: "zlog_thread \<Rightarrow> (string \<times> zlog_thread) option" where
  "seal_msg th = do {
     b \<leftarrow> zlog_buf_seal (th_msg_buf th);
     d \<leftarrow> b_start b;
     s \<leftarrow> cstr d 0;
     Some (s, th\<lparr>th_msg_buf := b\<rparr>)
   }"

definition zlog_rule_output_syslog :: "zlog_io \<Rightarrow> zlog_ctx \<Rightarrow> zlog_action \<Rightarrow> zlog_thread \<Rightarrow> zlog_world \<Rightarrow> emitted" where
  "zlog_rule_output_syslog io cx a th wd = do {
     (rc, th) \<leftarrow> zlog_format_gen_msg cx (ac_format a) th;
     if rc \<noteq> 0 then Some (-1, a, th, wd)
     else do {
       a_level \<leftarrow> zlog_level_list_get (cx_levels cx) (ev_level (th_event th));
       (s, th) \<leftarrow> seal_msg th;
       l \<leftarrow> a_level;
       Some (0, a, th, wd\<lparr>wd_sent := wd_sent wd @ [To_syslog (ac_syslog_facility a OR syslog_level l) s]\<rparr>)
     }
   }"

definition call_record :: "string \<Rightarrow> (string \<Rightarrow> int \<Rightarrow> string \<Rightarrow> int) \<Rightarrow> zlog_ctx \<Rightarrow> zlog_action \<Rightarrow> zlog_thread \<Rightarrow> zlog_world \<Rightarrow> emitted" where
  "call_record path func cx a th wd = do {
     (rc, th) \<leftarrow> zlog_format_gen_msg cx (ac_format a) th;
     if rc \<noteq> 0 then Some (-1, a, th, wd)
     else do {
       (_, th) \<leftarrow> seal_msg th;
       s \<leftarrow> msg_bytes th;
       let len = zlog_buf_len (th_msg_buf th);
       Some (if func s len path \<noteq> 0 then -1 else 0, a, th, wd\<lparr>wd_sent := wd_sent wd @ [To_record s len path]\<rparr>)
     }
   }"

definition zlog_rule_output_static_record :: "zlog_io \<Rightarrow> zlog_ctx \<Rightarrow> zlog_action \<Rightarrow> zlog_thread \<Rightarrow> zlog_world \<Rightarrow> emitted" where
  "zlog_rule_output_static_record io cx a th wd =
     (case ac_record_func a of
        None \<Rightarrow> Some (-1, a, th, wd)
      | Some func \<Rightarrow> call_record (ac_record_path a) func cx a th wd)"

definition zlog_rule_output_dynamic_record :: "zlog_io \<Rightarrow> zlog_ctx \<Rightarrow> zlog_action \<Rightarrow> zlog_thread \<Rightarrow> zlog_world \<Rightarrow> emitted" where
  "zlog_rule_output_dynamic_record io cx a th wd =
     (case ac_record_func a of
        None \<Rightarrow> Some (-1, a, th, wd)
      | Some func \<Rightarrow> do {
          (path, th) \<leftarrow> zlog_rule_gen_path cx a th;
          (case path of None \<Rightarrow> Some (-1, a, th, wd) | Some path \<Rightarrow> call_record path func cx a th wd)
        })"

text \<open>The call through the pointer of a rule.\<close>

definition action_output :: "zlog_io \<Rightarrow> zlog_ctx \<Rightarrow> zlog_action \<Rightarrow> zlog_thread \<Rightarrow> zlog_world \<Rightarrow> emitted" where
  "action_output io cx a th wd =
     (case ac_output a of
        Static_single \<Rightarrow> zlog_rule_output_static_file_single io cx a th wd
      | Static_rotate \<Rightarrow> zlog_rule_output_static_file_rotate io cx a th wd
      | Dynamic_single \<Rightarrow> zlog_rule_output_dynamic_file_single io cx a th wd
      | Dynamic_rotate \<Rightarrow> zlog_rule_output_dynamic_file_rotate io cx a th wd
      | Pipe \<Rightarrow> zlog_rule_output_pipe io cx a th wd
      | Syslog \<Rightarrow> zlog_rule_output_syslog io cx a th wd
      | Static_record \<Rightarrow> zlog_rule_output_static_record io cx a th wd
      | Dynamic_record \<Rightarrow> zlog_rule_output_dynamic_record io cx a th wd
      | Stdout \<Rightarrow> zlog_rule_output_stdout io cx a th wd
      | Stderr \<Rightarrow> zlog_rule_output_stderr io cx a th wd
      | No_output \<Rightarrow> None)"

end
