(* ===== verification/Zlog_Action.thy ===== *)
theory Zlog_Action
  imports Zlog_Output
begin

section \<open>The action of a rule\<close>

text \<open>
  The part of \<open>zlog_rule_new\<close> of \<open>src/deps/zlog/src/rule.c\<close> behind the selector: what a line of the
  section for rules says about where messages go, and sizes as texts (\<open>zc_parse_byte_size\<close> of
  \<open>zc_util.c\<close>). A conversion of \<open>sscanf\<close> that does not fit its array is \<^const>\<open>None\<close>.
\<close>

subsection \<open>Sizes\<close>

definition zc_parse_byte_size :: "string \<Rightarrow> int option" where
  "zc_parse_byte_size astring =
     (let s = filter (\<lambda>c. \<not> is_space c) astring; sz = length s; res = scan_long s in
      if res \<le> 0 then Some 0
      else
        let kilo = (last s = CHR ''B'' \<or> last s = CHR ''b'');
            c = (if kilo then s ! (sz - 2) else last s); m = (if kilo then 1024 else 1000);
            r = (if c = CHR ''K'' \<or> c = CHR ''k'' then res * m
                 else if c = CHR ''M'' \<or> c = CHR ''m'' then res * (m * m)
                 else if c = CHR ''G'' \<or> c = CHR ''g'' then res * (m * m * m)
                 else res) in
        if r < 2 ^ 63 then Some r else None)"

subsection \<open>Parts of the line\<close>

text \<open>The text in front of a character, and behind it when it is there (\<open>strchr\<close>).\<close>

definition before :: "char \<Rightarrow> string \<Rightarrow> string" where
  "before x s = takeWhile (\<lambda>c. c \<noteq> x) s"

definition strchr_after :: "char \<Rightarrow> string \<Rightarrow> string option" where
  "strchr_after x s = (case dropWhile (\<lambda>c. c \<noteq> x) s of [] \<Rightarrow> None | _ # r \<Rightarrow> Some r)"

definition strchr_from :: "char \<Rightarrow> string \<Rightarrow> string option" where
  "strchr_from x s = (case dropWhile (\<lambda>c. c \<noteq> x) s of [] \<Rightarrow> None | r \<Rightarrow> Some r)"

definition word :: "string \<Rightarrow> string" where
  "word s = takeWhile (\<lambda>c. \<not> is_space c) (dropWhile is_space s)"

definition action_of :: "string \<Rightarrow> string" where
  "action_of line = dropWhile is_space (dropWhile (\<lambda>c. \<not> is_space c) (dropWhile is_space line))"

text \<open>\<open>sscanf(action, " %[^;];%s", output, format_name)\<close>\<close>

definition scan_action :: "string \<Rightarrow> (string \<times> string) option" where
  "scan_action action =
     (let s = dropWhile is_space action; out = before (CHR '';'') s in
      if out = [] then None else Some (out, (case strchr_after (CHR '';'') s of None \<Rightarrow> [] | Some r \<Rightarrow> word r)))"

text \<open>\<open>sscanf(file_limit, " %[0-9MmKkBb] * %d ~", archive_max_size, &archive_max_count)\<close>\<close>

definition limit_char :: "char \<Rightarrow> bool" where
  "limit_char c \<longleftrightarrow> is_digit c \<or> c \<in> set ''MmKkBb''"

definition scan_limit :: "string \<Rightarrow> int \<times> string \<times> int" where
  "scan_limit file_limit =
     (let s = dropWhile is_space file_limit; size_str = takeWhile limit_char s;
          r = dropWhile is_space (dropWhile limit_char s) in
      if s = [] then (-1, [], 0)
      else if size_str = [] then (0, [], 0)
      else if r = [] \<or> hd r \<noteq> CHR ''*'' then (1, size_str, 0)
      else case scan_int (tl r) of None \<Rightarrow> (1, size_str, 0) | Some (n, _) \<Rightarrow> (2, size_str, n))"

subsection \<open>Paths\<close>

datatype parsed_path = Path_error | Path_ok string "zlog_spec zc_arraylist option"

text \<open>
  \<open>zlog_rule_parse_path\<close>: the path, and its specifications when it has a percent sign. The result of
  \<open>zc_arraylist_new\<close> is not the one that is tested, so without memory a null list is added to.
\<close>

definition zlog_rule_parse_path ::
  "(int \<Rightarrow> bool) \<Rightarrow> (nat \<Rightarrow> zlog_spec option) \<Rightarrow> (string \<Rightarrow> string option) \<Rightarrow> string \<Rightarrow> nat \<Rightarrow> nat \<Rightarrow> (parsed_path \<times> nat) option" where
  "zlog_rule_parse_path alloc junk getenv path_start path_size cnt =
     (case quoted path_start of
        None \<Rightarrow> Some (Path_error, cnt)
      | Some p \<Rightarrow>
          if length p > path_size - 1 then Some (Path_error, cnt)
          else do {
            (rc, blk) \<leftarrow> zc_str_replace_env getenv (p @ replicate (path_size - length p) (CHR 0x00));
            if rc \<noteq> 0 then Some (Path_error, cnt)
            else do {
              path_str \<leftarrow> cstr blk 0;
              if CHR ''%'' \<notin> set path_str then Some (Path_ok path_str None, cnt)
              else case zc_arraylist_new alloc True of
                None \<Rightarrow> (case zlog_spec_new (alloc 9296) path_str cnt of
                    Some None \<Rightarrow> Some (Path_error, cnt) | _ \<Rightarrow> None)
              | Some specs \<Rightarrow> do {
                  (ok, cnt, specs) \<leftarrow> specs_loop alloc junk path_str cnt specs;
                  Some (if ok then Path_ok path_str (Some specs) else Path_error, cnt)
                }
            }
          })"

subsection \<open>Facilities of the system log\<close>

definition syslog_facility_atoi :: "string option \<Rightarrow> int" where
  "syslog_facility_atoi facility =
     (case facility of
        None \<Rightarrow> -187
      | Some f \<Rightarrow>
          if STRICMP f ''LOG_LOCAL0'' then 128
          else if STRICMP f ''LOG_LOCAL1'' then 136
          else if STRICMP f ''LOG_LOCAL2'' then 144
          else if STRICMP f ''LOG_LOCAL3'' then 152
          else if STRICMP f ''LOG_LOCAL4'' then 160
          else if STRICMP f ''LOG_LOCAL5'' then 168
          else if STRICMP f ''LOG_LOCAL6'' then 176
          else if STRICMP f ''LOG_LOCAL7'' then 184
          else if STRICMP f ''LOG_USER'' then 8
          else if STRICMP f ''LOG_AUTHPRIV'' then 80
          else if STRICMP f ''LOG_CRON'' then 72
          else if STRICMP f ''LOG_DAEMON'' then 24
          else if STRICMP f ''LOG_FTP'' then 88
          else if STRICMP f ''LOG_KERN'' then 0
          else if STRICMP f ''LOG_LPR'' then 48
          else if STRICMP f ''LOG_MAIL'' then 16
          else if STRICMP f ''LOG_NEWS'' then 56
          else if STRICMP f ''LOG_SYSLOG'' then 40
          else 80)"

subsection \<open>The action\<close>

text \<open>
  A new action, with the fields \<open>calloc\<close> leaves zero. The result: undefined, or the action if the
  line is good, the count of the time caches and the world, in which a file may have been made.
\<close>

definition new_action :: "int \<Rightarrow> zlog_format \<Rightarrow> zlog_action" where
  "new_action fsync_period f =
     \<lparr>ac_file_open_flags = False, ac_file_path = [], ac_dynamic_specs = None, ac_static_fd = None, ac_static_ino = (0, 0),
      ac_archive_max_size = 0, ac_archive_max_count = 0, ac_archive_path = [], ac_archive_specs = None, ac_pipe_fd = 0,
      ac_fsync_period = fsync_period, ac_fsync_count = 0, ac_syslog_facility = 0, ac_format = f, ac_output = No_output,
      ac_record_name = [], ac_record_path = [], ac_record_func = None\<rparr>"

type_synonym new_action_result = "(zlog_action option \<times> nat \<times> zlog_world) option"

text \<open>The limit of a file: the size, the number of archives and the path of the archives.\<close>

definition parse_limit ::
  "(nat \<Rightarrow> zlog_spec option) \<Rightarrow> (string \<Rightarrow> string option) \<Rightarrow> zlog_io \<Rightarrow> string \<Rightarrow> zlog_action \<Rightarrow> nat \<Rightarrow> (zlog_action option \<times> nat) option" where
  "parse_limit junk getenv io file_limit a cnt = do {
     let (nscan, size_str, n) = scan_limit file_limit;
     size_max \<leftarrow> (if nscan \<noteq> 0 then zc_parse_byte_size size_str else Some 0);
     let a = a\<lparr>ac_archive_max_size := size_max, ac_archive_max_count := n\<rparr>;
     (case strchr_from (CHR 0x22) file_limit of
        None \<Rightarrow> Some (Some a, cnt)
      | Some p \<Rightarrow> do {
          (r, cnt) \<leftarrow> zlog_rule_parse_path (os_alloc (io_os io)) junk getenv p PATH_SIZE cnt;
          (case r of
             Path_error \<Rightarrow> Some (None, cnt)
           | Path_ok path specs \<Rightarrow>
               (case strchr_from (CHR ''#'') path of
                  None \<Rightarrow> Some (None, cnt)
                | Some q \<Rightarrow>
                    if CHR ''r'' \<notin> set q \<and> CHR ''s'' \<notin> set q then Some (None, cnt)
                    else Some (Some (a\<lparr>ac_archive_path := path, ac_archive_specs := specs\<rparr>), cnt)))
        })
   }"

definition file_action ::
  "(nat \<Rightarrow> zlog_spec option) \<Rightarrow> (string \<Rightarrow> string option) \<Rightarrow> zlog_io \<Rightarrow> string \<Rightarrow> string option \<Rightarrow> zlog_action \<Rightarrow> nat \<Rightarrow> zlog_world \<Rightarrow>
   new_action_result" where
  "file_action junk getenv io p file_limit a cnt wd = do {
     (r, cnt) \<leftarrow> zlog_rule_parse_path (os_alloc (io_os io)) junk getenv p PATH_SIZE cnt;
     (case r of
        Path_error \<Rightarrow> Some (None, cnt, wd)
      | Path_ok path specs \<Rightarrow> do {
          (a, cnt) \<leftarrow> (let a = a\<lparr>ac_file_path := path, ac_dynamic_specs := specs\<rparr> in
             case file_limit of None \<Rightarrow> Some (Some a, cnt) | Some l \<Rightarrow> parse_limit junk getenv io l a cnt);
          (case a of
             None \<Rightarrow> Some (None, cnt, wd)
           | Some a \<Rightarrow>
               if specs \<noteq> None then
                 Some (Some (a\<lparr>ac_output := (if ac_archive_max_size a \<le> 0 then Dynamic_single else Dynamic_rotate)\<rparr>), cnt, wd)
               else
                 (case open_append io path (wd_fs wd) of
                    None \<Rightarrow> Some (None, cnt, wd)
                  | Some fs \<Rightarrow>
                      let there = fs_get (wd_fs wd) path \<noteq> None;
                          wd = wd\<lparr>wd_fs := fs, wd_ino := (if there then wd_ino wd else (wd_ino wd)(path := io_ino io))\<rparr> in
                      if io_stat io path then Some (None, cnt, wd)
                      else Some (Some (a\<lparr>ac_output := (if ac_archive_max_size a \<le> 0 then Static_single else Static_rotate),
                        ac_static_fd := (if ac_archive_max_size a \<le> 0 then Some (wd_ino wd path) else None), ac_static_ino := wd_ino wd path\<rparr>), cnt, wd)))
        })
   }"

text \<open>\<open>$name, "path"\<close>: the loop over the path is that of \<open>specs_loop\<close>.\<close>

definition record_action ::
  "(nat \<Rightarrow> zlog_spec option) \<Rightarrow> (string \<Rightarrow> string option) \<Rightarrow> zlog_io \<Rightarrow> string \<Rightarrow> string option \<Rightarrow> zlog_action \<Rightarrow> nat \<Rightarrow> zlog_world \<Rightarrow>
   new_action_result" where
  "record_action junk getenv io name file_limit a cnt wd =
     (if length name \<ge> NAME_SIZE then None
      else
        let a = a\<lparr>ac_record_name := name\<rparr>;
            path = (case file_limit of None \<Rightarrow> Some [] | Some l \<Rightarrow> Option.bind (strchr_from (CHR 0x22) l) quoted) in
        case path of
          None \<Rightarrow> Some (None, cnt, wd)
        | Some path \<Rightarrow>
            if length path > NAME_SIZE - 1 then Some (None, cnt, wd)
            else do {
              (rc, blk) \<leftarrow> zc_str_replace_env getenv (path @ replicate (NAME_SIZE - length path) (CHR 0x00));
              if rc \<noteq> 0 then Some (None, cnt, wd)
              else do {
                path \<leftarrow> cstr blk 0;
                let a = a\<lparr>ac_record_path := path\<rparr>;
                if CHR ''%'' \<notin> set path then Some (Some (a\<lparr>ac_output := Static_record\<rparr>), cnt, wd)
                else case zc_arraylist_new (os_alloc (io_os io)) True of
                  None \<Rightarrow> Some (None, cnt, wd)
                | Some specs \<Rightarrow> do {
                    (ok, cnt, specs) \<leftarrow> specs_loop (os_alloc (io_os io)) junk path cnt specs;
                    Some (if ok then Some (a\<lparr>ac_output := Dynamic_record, ac_dynamic_specs := Some specs\<rparr>) else None, cnt, wd)
                  }
              }
            })"

definition stream_action :: "string \<Rightarrow> string option \<Rightarrow> zlog_action \<Rightarrow> zlog_action option" where
  "stream_action name file_limit a =
     (if take 6 name = ''syslog'' then
        let f = syslog_facility_atoi file_limit in
        if f = -187 then None else Some (a\<lparr>ac_syslog_facility := f, ac_output := Syslog\<rparr>)
      else if take 6 name = ''stdout'' then Some (a\<lparr>ac_output := Stdout\<rparr>)
      else if take 6 name = ''stderr'' then Some (a\<lparr>ac_output := Stderr\<rparr>)
      else None)"

text \<open>\<open>popen\<close> is an argument: the descriptor of the pipe, or a failure.\<close>

definition zlog_rule_action ::
  "(nat \<Rightarrow> zlog_spec option) \<Rightarrow> (string \<Rightarrow> string option) \<Rightarrow> (string \<Rightarrow> int option) \<Rightarrow> zlog_io \<Rightarrow> string \<Rightarrow> zlog_format \<Rightarrow> zlog_format list \<Rightarrow>
   int \<Rightarrow> nat \<Rightarrow> zlog_world \<Rightarrow> new_action_result" where
  "zlog_rule_action junk getenv popen io line default_format formats fsync_period cnt wd =
     (case scan_action (action_of line) of
        None \<Rightarrow> Some (None, cnt, wd)
      | Some (out, format_name) \<Rightarrow>
          if length out \<ge> LINE_SIZE \<or> length format_name \<ge> LINE_SIZE then None
          else case (if format_name = [] then Some default_format else List.find (\<lambda>f. fm_name f = format_name) formats) of
            None \<Rightarrow> Some (None, cnt, wd)
          | Some f \<Rightarrow>
              let a = new_action fsync_period f; file_path = before (CHR '','') (dropWhile is_space out);
                  file_limit = map_option (dropWhile is_space) (strchr_after (CHR '','') out) in
              if file_path = [] then Some (None, cnt, wd)
              else if hd file_path = CHR ''-'' then
                (if tl file_path = [] \<or> hd (tl file_path) \<noteq> CHR 0x22 then Some (None, cnt, wd)
                 else file_action junk getenv io (tl file_path) file_limit (a\<lparr>ac_fsync_period := 0, ac_file_open_flags := True\<rparr>) cnt wd)
              else if hd file_path = CHR 0x22 then file_action junk getenv io file_path file_limit a cnt wd
              else if hd file_path = CHR ''|'' then
                (case popen (tl out) of
                   None \<Rightarrow> Some (None, cnt, wd)
                 | Some fd \<Rightarrow> Some (if fd < 0 then None else Some (a\<lparr>ac_pipe_fd := fd, ac_output := Pipe\<rparr>), cnt, wd))
              else if hd file_path = CHR ''>'' then Some (stream_action (tl file_path) file_limit a, cnt, wd)
              else if hd file_path = CHR ''$'' then record_action junk getenv io (word (tl file_path)) file_limit a cnt wd
              else Some (None, cnt, wd))"


text \<open>A line whole: the selector and the action.\<close>

definition rule_of_line ::
  "zlog_level zc_arraylist \<Rightarrow> (nat \<Rightarrow> zlog_spec option) \<Rightarrow> (string \<Rightarrow> string option) \<Rightarrow> (string \<Rightarrow> int option) \<Rightarrow> zlog_io \<Rightarrow> string \<Rightarrow>
   zlog_format \<Rightarrow> zlog_format list \<Rightarrow> int \<Rightarrow> nat \<Rightarrow> nat \<Rightarrow> nat \<Rightarrow> zlog_world \<Rightarrow> ((zlog_rule \<times> zlog_action) option \<times> nat \<times> zlog_world) option" where
  "rule_of_line levels junk getenv popen io line default_format formats fsync_period output_nr conf cnt wd =
     (if \<not> os_alloc (io_os io) 11464 then Some (None, cnt, wd)
      else case zlog_rule_new levels line output_nr conf of
        None \<Rightarrow> None
      | Some None \<Rightarrow> Some (None, cnt, wd)
      | Some (Some r) \<Rightarrow> do {
          (a, cnt, wd) \<leftarrow> zlog_rule_action junk getenv popen io line default_format formats fsync_period cnt wd;
          Some (map_option (Pair r) a, cnt, wd)
        })"

end
