(* ===== verification/Zlog_Writers.thy ===== *)
theory Zlog_Writers
  imports Zlog_Format
begin

section \<open>What a format writes\<close>

text \<open>
  A writer that appends a text to the buffer, as \<open>Zlog_Buf\<close> states it, composes: writing one text
  after another is writing their concatenation, truncation included. From this follows the text of
  every specification, of the dump of a buffer, and of a whole message.
\<close>

subsection \<open>Writers\<close>

definition writes :: "string \<Rightarrow> writer \<Rightarrow> bool" where
  "writes t f \<longleftrightarrow> (\<forall>b. buf_wf b \<longrightarrow> appends b t (f b))"

lemma appended_cases:
  "appended b s = (0, content b @ s) \<and> (b_size_max b = 0 \<or> int (length (content b @ s)) < b_size_max b) \<or>
   fst (appended b s) = 1 \<and> b_size_max b \<noteq> 0 \<and> b_size_max b \<le> int (length (content b @ s))"
  by (auto simp: appended_def Let_def)

lemma appended_more:
  assumes "fst (appended b s) = 1"
  shows "appended b (s @ t) = appended b s"
proof -
  have "b_size_max b \<noteq> 0" "b_size_max b \<le> int (length (content b @ s))" using appended_cases [of b s] assms by auto
  then have "nat (b_size_max b - 1) \<le> length (content b @ s)" by linarith
  then have "take (nat (b_size_max b - 1)) (content b @ s @ t) = take (nat (b_size_max b - 1)) (content b @ s)"
    using take_append [of "nat (b_size_max b - 1)" "content b @ s" t] by simp
  then show ?thesis using \<open>b_size_max b \<noteq> 0\<close> \<open>b_size_max b \<le> _\<close> by (auto simp: appended_def Let_def)
qed

lemma appends_rc: "appends b s (Some (rc, b')) \<Longrightarrow> rc = fst (appended b s) \<and> (rc = 0 \<or> rc = 1)"
  unfolding appends_def using appended_cases [of b s] by (metis fst_conv option.inject prod.inject)

lemma appends_then:
  assumes "appends b s (Some (0, b1))" and "appends b1 t r"
  shows "appends b (s @ t) r"
proof -
  have 1: "buf_wf b1" "(0, content b1) = appended b s" "b_size_max b1 = b_size_max b" "b_truncate_str b1 = b_truncate_str b"
    using assms(1) by (auto simp: appends_def)
  then have "content b1 = content b @ s" using appended_cases [of b s] by (metis fst_conv prod.inject zero_neq_one)
  then have "appended b1 t = appended b (s @ t)" using 1(3,4) by (simp add: appended_def Let_def)
  then show ?thesis using assms(2) 1(3,4) by (auto simp: appends_def)
qed

lemma appends_cut: "appends b s (Some (1, b1)) \<Longrightarrow> appends b (s @ t) (Some (1, b1))"
  using appended_more [of b s t] appends_rc [of b s 1 b1] by (auto simp: appends_def)

lemma appends_nothing: "buf_wf b \<Longrightarrow> b_size_max b = 0 \<or> int (length (content b)) < b_size_max b \<Longrightarrow> appends b [] (Some (0, b))"
  by (simp add: appends_def appended_def)

lemma wf_room: "buf_wf b \<Longrightarrow> b_size_max b = 0 \<or> int (length (content b)) < b_size_max b"
  using length_content [of b] by (auto simp: buf_wf_def)

lemma writes_nothing: "writes [] (\<lambda>b. Some (0, b))"
  using appends_nothing wf_room by (simp add: writes_def)

lemma writes_then [intro]:
  assumes "writes s f" and "writes t g"
  shows "writes (s @ t) (and_then f g)"
  unfolding writes_def
proof (intro allI impI)
  fix b assume wf: "buf_wf b"
  then obtain rc b1 where f: "f b = Some (rc, b1)" "appends b s (Some (rc, b1))" using assms(1) by (auto simp: writes_def appends_def)
  then have b1: "buf_wf b1" by (simp add: appends_def)
  show "appends b (s @ t) (and_then f g b)"
    using appends_rc [OF f(2)]
  proof (elim conjE disjE)
    assume "rc = 0"
    then show ?thesis using f appends_then [of b s b1 t "g b1"] assms(2) b1 by (simp add: and_then_def writes_def)
  next
    assume "rc = 1"
    then show ?thesis using f appends_cut [of b s b1 t] by (simp add: and_then_def)
  qed
qed

lemma write_in_turn_Nil: "write_in_turn [] = (\<lambda>b. Some (0, b))"
  by (rule ext) simp

lemma write_in_turn_Cons: "write_in_turn (f # fs) = and_then f (write_in_turn fs)"
  by (rule ext) simp

lemma writes_all: "list_all2 writes ts fs \<Longrightarrow> writes (concat ts) (write_in_turn fs)"
  by (induction rule: list_all2_induct) (auto simp: write_in_turn_Nil write_in_turn_Cons writes_nothing)

subsection \<open>The dump of a buffer\<close>

definition alloc_all :: "zlog_ctx \<Rightarrow> bool" where
  "alloc_all cx \<longleftrightarrow> (\<forall>n. cx_alloc cx n)"

lemma writes_put: "alloc_all cx \<Longrightarrow> writes s (put_str cx s)"
  unfolding writes_def put_str_def alloc_all_def using append_spec by blast

lemma writes_dec32:
  "alloc_all cx \<Longrightarrow> 0 \<le> w \<Longrightarrow> w < 2 ^ 64 \<Longrightarrow>
    writes (zero_padded w (digits 10 (unat x))) (zlog_buf_printf_dec32 (cx_alloc cx) (cx_junk cx) x w)"
  by (simp add: writes_def alloc_all_def dec32_spec)

lemma writes_dec64:
  "alloc_all cx \<Longrightarrow> 0 \<le> w \<Longrightarrow> w < 2 ^ 64 \<Longrightarrow>
    writes (zero_padded w (digits 10 (unat x))) (zlog_buf_printf_dec64 (cx_alloc cx) (cx_junk cx) x w)"
  by (simp add: writes_def alloc_all_def dec64_spec)

lemma writes_hex:
  "alloc_all cx \<Longrightarrow> 0 \<le> w \<Longrightarrow> w < 2 ^ 64 \<Longrightarrow>
    writes (zero_padded w (digits 16 (unat x))) (zlog_buf_printf_hex (cx_alloc cx) (cx_junk cx) x w)"
  by (simp add: writes_def alloc_all_def hex_spec)

lemma all2_maps: "(\<And>k. P (f k) (g k)) \<Longrightarrow> list_all2 P (map f ks) (map g ks)"
  by (induction ks) auto

definition hex_cell :: "string \<Rightarrow> nat \<Rightarrow> string" where
  "hex_cell bs i = (if i < length bs then zero_padded 2 (digits 16 (cnum (bs ! i))) @ '' '' else ''   '')"

definition text_cell :: "string \<Rightarrow> nat \<Rightarrow> string" where
  "text_cell bs i = (if i < length bs then if 32 \<le> cnum (bs ! i) \<and> cnum (bs ! i) \<le> 126 then [bs ! i] else ''.'' else '' '')"

definition hex_row :: "string \<Rightarrow> nat \<Rightarrow> string" where
  "hex_row bs r = [CHR 0x0A] @ zero_padded 10 (digits 10 (r + 1)) @ ''   '' @ concat (map (\<lambda>k. hex_cell bs (16 * r + k)) [0..<16]) @
     ''  '' @ concat (map (\<lambda>k. text_cell bs (16 * r + k)) [0..<16])"

text \<open>The rows of a dump: sixteen bytes each, and one row for no bytes.\<close>

definition rows :: "string \<Rightarrow> nat" where
  "rows bs = (if bs = [] then 1 else (length bs + 15) div 16)"

definition hex_dump :: "string \<Rightarrow> string" where
  "hex_dump bs = ZLOG_HEX_HEAD @ concat (map (hex_row bs) [0..<rows bs])"

lemma writes_cell:
  assumes "alloc_all cx" and "n \<le> length buf"
  shows "writes (hex_cell (take n buf) i) (hex_byte cx buf (int n) (int i))"
    and "writes (text_cell (take n buf) i) (text_byte cx buf (int n) (int i))"
proof -
  have r: "block_read buf (int i) = Some (take n buf ! i)" if "i < n" using that assms(2) by (simp add: block_read_def)
  have u: "unat (word_of_nat (cnum c) :: 32 word) = cnum c" for c
  proof -
    have "cnum c < 4294967296" by (rule less_trans [OF cnum_bound]) simp
    then show ?thesis by (simp add: unat_of_nat)
  qed
  show "writes (hex_cell (take n buf) i) (hex_byte cx buf (int n) (int i))"
  proof (cases "i < n")
    case True
    have "hex_byte cx buf (int n) (int i) = and_then (zlog_buf_printf_hex (cx_alloc cx) (cx_junk cx) (word_of_nat (cnum (take n buf ! i))) 2) (put_str cx '' '')"
      using True r by (auto simp: hex_byte_def fun_eq_iff)
    then show ?thesis
      using True assms writes_then [OF writes_hex [OF assms(1), of 2 "word_of_nat (cnum (take n buf ! i))"] writes_put [OF assms(1), of "'' ''"]]
      by (simp add: hex_cell_def u)
  next
    case False
    then have "hex_byte cx buf (int n) (int i) = put_str cx ''   ''" by (auto simp: hex_byte_def fun_eq_iff)
    then show ?thesis using False writes_put [OF assms(1)] by (simp add: hex_cell_def)
  qed
  show "writes (text_cell (take n buf) i) (text_byte cx buf (int n) (int i))"
  proof (cases "i < n")
    case True
    then have "text_byte cx buf (int n) (int i) =
        put_str cx (if 32 \<le> cnum (take n buf ! i) \<and> cnum (take n buf ! i) \<le> 126 then [take n buf ! i] else ''.'')"
      using r by (auto simp: text_byte_def fun_eq_iff)
    then show ?thesis using True assms writes_put [OF assms(1)] by (simp add: text_cell_def)
  next
    case False
    then have "text_byte cx buf (int n) (int i) = put_str cx '' ''" by (auto simp: text_byte_def fun_eq_iff)
    then show ?thesis using False writes_put [OF assms(1)] by (simp add: text_cell_def)
  qed
qed

lemma writes_hex_line:
  assumes "alloc_all cx" and "n \<le> length buf" and "r < 2 ^ 60"
  shows "writes (hex_row (take n buf) r) (hex_line cx buf (int n) (int r))"
proof -
  have u: "unat (word_of_int (int r + 1) :: 64 word) = r + 1"
  proof -
    have "word_of_int (int r + 1) = (word_of_nat (r + 1) :: 64 word)" by simp
    then show ?thesis using assms(3) by (simp only: unat_of_nat) (simp add: take_bit_nat_eq_self)
  qed
  have i: "int r * 16 + int k = int (16 * r + k)" for k by simp
  have num: "writes (zero_padded 10 (digits 10 (r + 1))) (zlog_buf_printf_dec64 (cx_alloc cx) (cx_junk cx) (word_of_int (int r + 1)) 10)"
    using writes_dec64 [OF assms(1), of 10 "word_of_int (int r + 1)"] unfolding u by simp
  have hex: "list_all2 writes (map (\<lambda>k. hex_cell (take n buf) (16 * r + k)) [0..<16])
      (map (\<lambda>k. hex_byte cx buf (int n) (int r * 16 + int k)) [0..<16])"
    unfolding i by (rule all2_maps) (rule writes_cell(1) [OF assms(1,2)])
  have chars: "list_all2 writes (map (\<lambda>k. text_cell (take n buf) (16 * r + k)) [0..<16])
      (map (\<lambda>k. text_byte cx buf (int n) (int r * 16 + int k)) [0..<16])"
    unfolding i by (rule all2_maps) (rule writes_cell(2) [OF assms(1,2)])
  have "list_all2 writes
      ([[CHR 0x0A], zero_padded 10 (digits 10 (r + 1)), ''   ''] @ map (\<lambda>k. hex_cell (take n buf) (16 * r + k)) [0..<16] @ [''  ''] @
        map (\<lambda>k. text_cell (take n buf) (16 * r + k)) [0..<16])
      ([put_str cx [CHR 0x0A], zlog_buf_printf_dec64 (cx_alloc cx) (cx_junk cx) (word_of_int (int r + 1)) 10, put_str cx ''   ''] @
      map (\<lambda>k. hex_byte cx buf (int n) (int r * 16 + int k)) [0..<16] @ [put_str cx ''  ''] @
      map (\<lambda>k. text_byte cx buf (int n) (int r * 16 + int k)) [0..<16])"
    by (intro list_all2_appendI list.rel_intros num hex chars writes_put [OF assms(1)])
  from writes_all [OF this] show ?thesis by (simp add: hex_row_def hex_line_def)
qed

lemma writes_hex_lines:
  assumes "alloc_all cx" and "n \<le> length buf" and "r < rows (take n buf)" and "n < 2 ^ 60"
  shows "writes (concat (map (hex_row (take n buf)) [r..<rows (take n buf)])) (hex_lines cx buf (int n) (int r))"
  using assms(3)
proof (induction "rows (take n buf) - r" arbitrary: r)
  case (Suc d)
  let ?R = "rows (take n buf)"
  have n: "?R = (if n = 0 then 1 else (n + 15) div 16)" using assms(2) by (auto simp: rows_def)
  have last: "int r * 16 + 16 \<ge> int n \<longleftrightarrow> Suc r = ?R"
    using Suc.prems unfolding n by (auto split: if_splits)
  have small: "r < 2 ^ 60" using Suc.prems assms(4) unfolding n by (auto split: if_splits)
  show ?case unfolding writes_def
  proof (intro allI impI)
    fix b assume wf: "buf_wf b"
    obtain rc b1 where l: "hex_line cx buf (int n) (int r) b = Some (rc, b1)" "appends b (hex_row (take n buf) r) (Some (rc, b1))"
      using writes_hex_line [OF assms(1,2) small] wf by (auto simp: writes_def appends_def)
    have b1: "buf_wf b1" using l(2) by (simp add: appends_def)
    have split: "concat (map (hex_row (take n buf)) [r..<?R]) = hex_row (take n buf) r @ concat (map (hex_row (take n buf)) [Suc r..<?R])"
      using Suc.prems by (simp add: upt_conv_Cons)
    show "appends b (concat (map (hex_row (take n buf)) [r..<?R])) (hex_lines cx buf (int n) (int r) b)"
    proof (cases "rc = 0")
      case False
      then have "rc = 1" using appends_rc [OF l(2)] by blast
      then show ?thesis using l appends_cut [of b _ b1] unfolding split by (simp add: hex_lines.simps)
    next
      case True
      show ?thesis
      proof (cases "Suc r = ?R")
        case last': True
        then show ?thesis using l last \<open>rc = 0\<close> unfolding split by (simp add: hex_lines.simps)
      next
        case False
        have "writes (concat (map (hex_row (take n buf)) [Suc r..<?R])) (hex_lines cx buf (int n) (int (Suc r)))"
          using Suc.hyps Suc.prems False by (intro Suc.hyps(1)) linarith+
        then have "appends b1 (concat (map (hex_row (take n buf)) [Suc r..<?R])) (hex_lines cx buf (int n) (int r + 1) b1)"
          using b1 by (simp add: writes_def add.commute)
        moreover have "hex_lines cx buf (int n) (int r) b = hex_lines cx buf (int n) (int r + 1) b1"
          using l(1) True False last by (simp add: hex_lines.simps [of _ _ _ "int r"])
        ultimately show ?thesis using appends_then [of b _ b1] l(2) True unfolding split by simp
      qed
    qed
  qed
qed simp

lemma writes_hex_dump:
  assumes "alloc_all cx" and "n \<le> length buf" and "n < 2 ^ 60"
  shows "writes (hex_dump (take n buf)) (and_then (put_str cx ZLOG_HEX_HEAD) (hex_lines cx buf (int n) 0))"
proof -
  have "0 < rows (take n buf)" by (cases "take n buf") (simp_all add: rows_def div_greater_zero_iff)
  then show ?thesis using writes_then [OF writes_put [OF assms(1)]] writes_hex_lines [OF assms(1,2) _ assms(3), of 0]
    by (auto simp: hex_dump_def)
qed


subsection \<open>The text of a specification\<close>

text \<open>The time of an event: taken when the first specification asks for it.\<close>

definition stamp :: "zlog_ctx \<Rightarrow> zlog_event \<Rightarrow> int \<times> int" where
  "stamp cx ev = (if ev_tv_sec ev = 0 then cx_now cx else (ev_tv_sec ev, ev_tv_usec ev))"

definition shown_time :: "zlog_ctx \<Rightarrow> string \<Rightarrow> int \<Rightarrow> string" where
  "shown_time cx fmt sec = (let t = cx_strftime cx fmt (cx_localtime cx sec) in if length t < LINE_SIZE then t else [])"

definition pid_text :: "int \<Rightarrow> string" where
  "pid_text pid = digits 10 (nat (pid mod 2 ^ 32))"

definition pid_of :: "zlog_ctx \<Rightarrow> zlog_event \<Rightarrow> int" where
  "pid_of cx ev = (if ev_pid ev = 0 then cx_getpid cx else ev_pid ev)"

definition base_name :: "string \<Rightarrow> string" where
  "base_name file = rev (takeWhile (\<lambda>c. c \<noteq> CHR ''/'') (rev file))"

definition message_text :: "zlog_event \<Rightarrow> string" where
  "message_text ev =
     (case ev_generate_cmd ev of
        ZLOG_FMT \<Rightarrow> (case ev_str_format ev of None \<Rightarrow> ''format=(null)'' | Some t \<Rightarrow> the t)
      | ZLOG_HEX \<Rightarrow> (case ev_hex_buf ev of None \<Rightarrow> ''buf=(null)'' | Some buf \<Rightarrow> hex_dump (take (nat (ev_hex_buf_len ev)) buf)))"

definition level_of :: "zlog_ctx \<Rightarrow> zlog_event \<Rightarrow> zlog_level" where
  "level_of cx ev = the (the (zlog_level_list_get (cx_levels cx) (ev_level ev)))"

definition spec_text :: "zlog_ctx \<Rightarrow> zlog_mdc \<Rightarrow> zlog_event \<Rightarrow> zlog_spec \<Rightarrow> string" where
  "spec_text cx mdc ev s =
     (case sp_write_buf s of
        Write_time \<Rightarrow> shown_time cx (sp_time_fmt s) (fst (stamp cx ev))
      | Write_ms \<Rightarrow> zero_padded 3 (digits 10 (unat (word_of_int (snd (stamp cx ev) div 1000) :: 32 word)))
      | Write_us \<Rightarrow> zero_padded 6 (digits 10 (unat (word_of_int (snd (stamp cx ev)) :: 32 word)))
      | Write_mdc \<Rightarrow> (case the (zlog_mdc_get_kv mdc (sp_mdc_key s)) of None \<Rightarrow> []
          | Some kv \<Rightarrow> take (nat (kv_value_len kv)) (kv_value kv))
      | Write_str \<Rightarrow> take (sp_len s) (sp_str s)
      | Write_category \<Rightarrow> ev_category_name ev
      | Write_srcfile \<Rightarrow> (case ev_file ev of None \<Rightarrow> ''(file=null)'' | Some f \<Rightarrow> f)
      | Write_srcfile_neat \<Rightarrow> base_name (the (ev_file ev))
      | Write_srcline \<Rightarrow> digits 10 (unat (word_of_int (ev_line ev) :: 64 word))
      | Write_srcfunc \<Rightarrow> if ev_file ev = None then ''(func=null)'' else the (ev_func ev)
      | Write_hostname \<Rightarrow> ev_host_name ev
      | Write_newline \<Rightarrow> [CHR 0x0A]
      | Write_cr \<Rightarrow> [CHR 0x0D]
      | Write_percent \<Rightarrow> ''%''
      | Write_pid \<Rightarrow> pid_text (pid_of cx ev)
      | Write_tid_hex \<Rightarrow> ev_tid_hex_str ev
      | Write_tid_long \<Rightarrow> ev_tid_str ev
      | Write_ktid \<Rightarrow> ev_ktid_str ev
      | Write_level_lowercase \<Rightarrow> str_lowercase (level_of cx ev)
      | Write_level_uppercase \<Rightarrow> str_uppercase (level_of cx ev)
      | Write_usrmsg \<Rightarrow> message_text ev)"

text \<open>
  When a specification is defined for an event: pointers are not null where the code follows them,
  lengths are those of the texts, the level has a name.
\<close>

definition message_defined :: "zlog_event \<Rightarrow> bool" where
  "message_defined ev \<longleftrightarrow>
     (case ev_generate_cmd ev of
        ZLOG_FMT \<Rightarrow> (case ev_str_format ev of None \<Rightarrow> True | Some t \<Rightarrow> t \<noteq> None \<and> length (the t) < 2 ^ 31)
      | ZLOG_HEX \<Rightarrow> (case ev_hex_buf ev of None \<Rightarrow> True
          | Some buf \<Rightarrow> 0 \<le> ev_hex_buf_len ev \<and> ev_hex_buf_len ev \<le> int (length buf) \<and> ev_hex_buf_len ev < 2 ^ 60))"

definition length_is :: "string option \<Rightarrow> int \<Rightarrow> bool" where
  "length_is p n \<longleftrightarrow> (case p of None \<Rightarrow> False | Some s \<Rightarrow> n = int (length s))"

definition spec_defined :: "zlog_ctx \<Rightarrow> zlog_mdc \<Rightarrow> (nat \<Rightarrow> string) \<Rightarrow> zlog_event \<Rightarrow> zlog_spec \<Rightarrow> bool" where
  "spec_defined cx mdc fmts ev s \<longleftrightarrow> 0 \<le> sp_min_width s \<and> 0 \<le> sp_max_width s \<and>
     (case sp_write_buf s of
        Write_time \<Rightarrow> sp_time_cache_index s < length (ev_time_caches ev) \<and> fmts (sp_time_cache_index s) = sp_time_fmt s
      | Write_mdc \<Rightarrow> (case zlog_mdc_get_kv mdc (sp_mdc_key s) of None \<Rightarrow> False | Some None \<Rightarrow> True
          | Some (Some kv) \<Rightarrow> 0 \<le> kv_value_len kv \<and> kv_value_len kv \<le> int (length (kv_value kv)))
      | Write_str \<Rightarrow> sp_len s \<le> length (sp_str s)
      | Write_srcfile \<Rightarrow> ev_file ev = None \<or> length_is (ev_file ev) (ev_file_len ev)
      | Write_srcfile_neat \<Rightarrow> length_is (ev_file ev) (ev_file_len ev)
      | Write_srcfunc \<Rightarrow> ev_file ev = None \<or> length_is (ev_func ev) (ev_func_len ev)
      | Write_level_lowercase \<Rightarrow> (case zlog_level_list_get (cx_levels cx) (ev_level ev) of
            Some (Some l) \<Rightarrow> str_len l = length (str_lowercase l) | _ \<Rightarrow> False)
      | Write_level_uppercase \<Rightarrow> (case zlog_level_list_get (cx_levels cx) (ev_level ev) of
            Some (Some l) \<Rightarrow> str_len l = length (str_uppercase l) | _ \<Rightarrow> False)
      | Write_usrmsg \<Rightarrow> message_defined ev
      | _ \<Rightarrow> True)"

text \<open>
  The caches of an event are right: the broken-down time is that of its second, each time cache
  holds the time its format (\<open>fmts\<close>) gives for its second, and the kept process id has its text.
\<close>

definition event_ok :: "zlog_ctx \<Rightarrow> (nat \<Rightarrow> string) \<Rightarrow> zlog_event \<Rightarrow> bool" where
  "event_ok cx fmts ev \<longleftrightarrow> fst (stamp cx ev) \<noteq> 0 \<and> cx_getpid cx \<noteq> 0 \<and>
     (ev_time_local_sec ev \<noteq> 0 \<longrightarrow> ev_time_local ev = cx_localtime cx (ev_time_local_sec ev)) \<and>
     (\<forall>i<length (ev_time_caches ev). let c = ev_time_caches ev ! i in tc_sec c \<noteq> 0 \<longrightarrow>
        0 \<le> tc_len c \<and> tc_len c \<le> int (length (tc_str c)) \<and> take (nat (tc_len c)) (tc_str c) = shown_time cx (fmts i) (tc_sec c)) \<and>
     (ev_last_pid ev \<noteq> 0 \<longrightarrow> ev_pid_str ev = pid_text (ev_last_pid ev)) \<and>
     (ev_pid ev \<noteq> 0 \<longrightarrow> ev_pid ev = ev_last_pid ev)"

text \<open>Two events that say the same, whatever their caches.\<close>

definition same_event :: "zlog_ctx \<Rightarrow> zlog_event \<Rightarrow> zlog_event \<Rightarrow> bool" where
  "same_event cx ev ev' \<longleftrightarrow> (\<forall>mdc s. spec_text cx mdc ev' s = spec_text cx mdc ev s) \<and>
     (\<forall>mdc fmts s. spec_defined cx mdc fmts ev' s = spec_defined cx mdc fmts ev s)"

lemma same_event_refl [simp]: "same_event cx ev ev"
  by (simp add: same_event_def)

lemma same_event_trans: "same_event cx ev ev1 \<Longrightarrow> same_event cx ev1 ev2 \<Longrightarrow> same_event cx ev ev2"
  by (simp add: same_event_def)

lemma same_eventI:
  assumes "stamp cx ev' = stamp cx ev" "length (ev_time_caches ev') = length (ev_time_caches ev)"
    "pid_of cx ev' = pid_of cx ev"
    "ev_category_name ev' = ev_category_name ev" "ev_host_name ev' = ev_host_name ev" "ev_file ev' = ev_file ev"
    "ev_file_len ev' = ev_file_len ev" "ev_func ev' = ev_func ev" "ev_func_len ev' = ev_func_len ev" "ev_line ev' = ev_line ev"
    "ev_level ev' = ev_level ev" "ev_hex_buf ev' = ev_hex_buf ev" "ev_hex_buf_len ev' = ev_hex_buf_len ev"
    "ev_str_format ev' = ev_str_format ev" "ev_generate_cmd ev' = ev_generate_cmd ev"
    "ev_tid_str ev' = ev_tid_str ev" "ev_tid_hex_str ev' = ev_tid_hex_str ev" "ev_ktid_str ev' = ev_ktid_str ev"
  shows "same_event cx ev ev'"
  unfolding same_event_def spec_text_def spec_defined_def message_text_def message_defined_def level_of_def assms by simp

subsection \<open>Each writer writes its text\<close>

text \<open>\<open>says cx fmts ev t b r\<close>: the result \<open>r\<close> appends \<open>t\<close> to \<open>b\<close> and leaves an event that says the same.\<close>

definition says :: "zlog_ctx \<Rightarrow> (nat \<Rightarrow> string) \<Rightarrow> zlog_event \<Rightarrow> string \<Rightarrow> zlog_buf \<Rightarrow> written \<Rightarrow> bool" where
  "says cx fmts ev t b r \<longleftrightarrow> (\<exists>rc ev' b'. r = Some (rc, ev', b') \<and> appends b t (Some (rc, b')) \<and> same_event cx ev ev' \<and> event_ok cx fmts ev')"

lemma says_writes:
  assumes "writes t f" and "buf_wf b" and "event_ok cx fmts ev" and "same_event cx ev0 ev"
    and "r = do { (rc, b) \<leftarrow> f b; Some (rc, ev, b) }"
  shows "says cx fmts ev0 t b r"
  using assms by (auto simp: says_def writes_def appends_def)

lemma resize_left:
  assumes "buf_wf b" and "zlog_buf_resize alloc junk (n - (b_end b - b_tail b)) b = (rc, b1)" and "rc > 0" and "b_tail b + n > b_end b"
  shows "b_end b1 - b_tail b1 \<le> n"
  using assms by (auto simp: zlog_buf_resize_def buf_wf_def Let_def split: if_splits)

lemma append_prefix:
  assumes wf: "buf_wf b" and "0 \<le> n" and "n \<le> int (length s)"
  shows "zlog_buf_append alloc junk s n b = zlog_buf_append alloc junk (take (nat n) s) n b"
proof -
  have m: "mem_read s k = mem_read (take (nat n) s) k" if "k \<le> n" for k
    using that assms(2,3) by (auto simp: mem_read_def min_def)
  obtain rc b1 where r: "zlog_buf_resize alloc junk (n - (b_end b - b_tail b)) b = (rc, b1)" by (meson surj_pair)
  have l: "b_end b1 - b_tail b1 \<le> n" if "rc > 0" "b_tail b + n > b_end b" using resize_left [OF wf r that] .
  show ?thesis using l m [of n] m [of "b_end b1 - b_tail b1"] by (simp add: zlog_buf_append_def r Let_def)
qed

lemma writes_prefix:
  assumes "alloc_all cx" and "0 \<le> n" and "n \<le> int (length s)"
  shows "writes (take (nat n) s) (zlog_buf_append (cx_alloc cx) (cx_junk cx) s n)"
proof -
  have "zlog_buf_append (cx_alloc cx) (cx_junk cx) s n b = put_str cx (take (nat n) s) b" if "buf_wf b" for b
    using append_prefix [OF that assms(2,3)] assms(2,3) by (simp add: put_str_def)
  then show ?thesis using writes_put [OF assms(1), of "take (nat n) s"] by (simp add: writes_def)
qed

lemma says_text: "alloc_all cx \<Longrightarrow> buf_wf b \<Longrightarrow> event_ok cx fmts ev \<Longrightarrow> same_event cx ev0 ev \<Longrightarrow> says cx fmts ev0 t b (write_text cx t ev b)"
  by (rule says_writes [OF writes_put]) (simp_all add: write_text_def put_str_def)

lemma says_bytes:
  assumes "alloc_all cx" "buf_wf b" "event_ok cx fmts ev" "same_event cx ev0 ev" "0 \<le> n" "n \<le> int (length s)"
  shows "says cx fmts ev0 (take (nat n) s) b (write_bytes cx (Some s) n ev b)"
  by (rule says_writes [OF writes_prefix]) (use assms in \<open>simp_all add: write_bytes_def\<close>)


lemma stamp_take_time: "fst (stamp cx ev) \<noteq> 0 \<Longrightarrow> (ev_tv_sec (take_time cx ev), ev_tv_usec (take_time cx ev)) = stamp cx ev"
  by (simp add: stamp_def take_time_def)

lemma take_time_ok:
  assumes "event_ok cx fmts ev"
  shows "event_ok cx fmts (take_time cx ev)" "same_event cx ev (take_time cx ev)"
proof -
  have s: "stamp cx (take_time cx ev) = stamp cx ev" using assms by (auto simp: event_ok_def stamp_def take_time_def)
  show "event_ok cx fmts (take_time cx ev)" using assms s unfolding event_ok_def by (simp add: take_time_def)
  show "same_event cx ev (take_time cx ev)" by (rule same_eventI) (simp_all add: s, simp_all add: take_time_def pid_of_def)
qed

lemma says_time:
  assumes "alloc_all cx" "buf_wf b" "event_ok cx fmts ev" "sp_write_buf s = Write_time"
    "sp_time_cache_index s < length (ev_time_caches ev)" "fmts (sp_time_cache_index s) = sp_time_fmt s"
  shows "says cx fmts ev (shown_time cx (sp_time_fmt s) (fst (stamp cx ev))) b (zlog_spec_write_time cx s ev b)"
proof -
  let ?i = "sp_time_cache_index s"
  define ev1 where "ev1 = take_time cx ev"
  define sec where "sec = ev_tv_sec ev1"
  have t: "event_ok cx fmts ev1" "same_event cx ev ev1" unfolding ev1_def using take_time_ok [OF assms(3)] by auto
  have sec: "sec = fst (stamp cx ev)" "sec \<noteq> 0"
    using stamp_take_time [of cx ev] assms(3) by (auto simp: sec_def ev1_def event_ok_def) (metis fst_conv)+
  have st1: "stamp cx ev1 = stamp cx ev" using stamp_take_time [of cx ev] assms(3) sec(2)
    by (auto simp: stamp_def ev1_def sec_def event_ok_def)
  define ev2 where "ev2 = (if ev_time_local_sec ev1 \<noteq> sec then ev1\<lparr>ev_time_local := cx_localtime cx sec, ev_time_local_sec := sec\<rparr> else ev1)"
  have local: "ev_time_local ev2 = cx_localtime cx sec" using t(1) sec(2) by (auto simp: ev2_def event_ok_def)
  have caches: "ev_time_caches ev2 = ev_time_caches ev" by (simp add: ev2_def ev1_def take_time_def)
  define c where "c = ev_time_caches ev2 ! ?i"
  define c' where "c' = (if tc_sec c \<noteq> sec
             then let t = cx_strftime cx (sp_time_fmt s) (ev_time_local ev2) in
               \<lparr>tc_str = take (LINE_SIZE - 1) t, tc_len = (if length t < LINE_SIZE then int (length t) else 0), tc_sec = sec\<rparr>
             else c)"
  have cok: "tc_sec c \<noteq> 0 \<longrightarrow> 0 \<le> tc_len c \<and> tc_len c \<le> int (length (tc_str c)) \<and>
      take (nat (tc_len c)) (tc_str c) = shown_time cx (sp_time_fmt s) (tc_sec c)"
    using assms(3,5,6) by (auto simp: event_ok_def c_def caches Let_def)
  have c': "tc_sec c' = sec" "0 \<le> tc_len c'" "tc_len c' \<le> int (length (tc_str c'))"
    "take (nat (tc_len c')) (tc_str c') = shown_time cx (sp_time_fmt s) sec"
    using cok sec(2) by (auto simp: c'_def Let_def shown_time_def local)
  define ev3 where "ev3 = ev2\<lparr>ev_time_caches := (ev_time_caches ev2)[?i := c']\<rparr>"
  have "stamp cx ev3 = stamp cx ev1" by (simp add: stamp_def ev3_def ev2_def)
  then have st3: "stamp cx ev3 = stamp cx ev" using st1 by simp
  have same: "same_event cx ev ev3"
    by (rule same_eventI) (simp_all add: st3, simp_all add: ev3_def ev2_def ev1_def take_time_def pid_of_def)
  have ok: "event_ok cx fmts ev3"
  proof -
    have "let d = ev_time_caches ev3 ! i in tc_sec d \<noteq> 0 \<longrightarrow>
        0 \<le> tc_len d \<and> tc_len d \<le> int (length (tc_str d)) \<and> take (nat (tc_len d)) (tc_str d) = shown_time cx (fmts i) (tc_sec d)"
      if "i < length (ev_time_caches ev3)" for i
      using that assms(3,5,6) c' by (cases "i = ?i") (auto simp: event_ok_def ev3_def caches Let_def)
    then show ?thesis using t(1) st3 local assms(3) unfolding event_ok_def
      by (simp add: ev3_def ev2_def)
  qed
  have "zlog_spec_write_time cx s ev b = write_bytes cx (Some (tc_str c')) (tc_len c') ev3 b"
    using assms(5) unfolding zlog_spec_write_time_def ev1_def [symmetric] sec_def [symmetric] Let_def ev2_def [symmetric]
    by (simp add: block_read_def caches c_def [unfolded caches, symmetric] c'_def [unfolded Let_def, symmetric] ev3_def)
  then show ?thesis using says_bytes [OF assms(1,2) ok same c'(2,3)] c'(4) sec(1) by simp
qed

lemma pid_ok:
  assumes "event_ok cx fmts ev"
  defines "ev' \<equiv> (if ev_pid ev = 0 then
            let ev = ev\<lparr>ev_pid := cx_getpid cx\<rparr> in
            if ev_pid ev \<noteq> ev_last_pid ev then ev\<lparr>ev_last_pid := ev_pid ev, ev_pid_str := digits 10 (nat (ev_pid ev mod 2 ^ 32))\<rparr>
            else ev
          else ev)"
  shows "event_ok cx fmts ev'" "same_event cx ev ev'" "ev_pid_str ev' = pid_text (pid_of cx ev)"
proof -
  have s: "stamp cx ev' = stamp cx ev" by (simp add: stamp_def ev'_def Let_def)
  show "event_ok cx fmts ev'" using assms(1) s unfolding event_ok_def by (auto simp: ev'_def Let_def pid_text_def)
  show "same_event cx ev ev'" using assms(1) by (intro same_eventI) (simp_all add: s, auto simp: ev'_def Let_def pid_of_def event_ok_def)
  show "ev_pid_str ev' = pid_text (pid_of cx ev)" using assms(1) by (auto simp: ev'_def Let_def pid_of_def event_ok_def pid_text_def)
qed

end
