(* ===== verification/Zlog_Message.thy ===== *)
theory Zlog_Message
  imports Zlog_Writers
begin

section \<open>Messages\<close>

text \<open>
  From the texts of single writers to a whole message: every specification, with its width, appends
  its piece, and a format appends the pieces one after the other, as far as the buffer goes.
\<close>

subsection \<open>One specification\<close>

lemma says_time_of_day:
  assumes "alloc_all cx" "buf_wf b" "event_ok cx fmts ev"
  shows "says cx fmts ev (zero_padded 3 (digits 10 (unat (word_of_int (snd (stamp cx ev) div 1000) :: 32 word)))) b (zlog_spec_write_ms cx ev b)"
    and "says cx fmts ev (zero_padded 6 (digits 10 (unat (word_of_int (snd (stamp cx ev)) :: 32 word)))) b (zlog_spec_write_us cx ev b)"
proof -
  have u: "ev_tv_usec (take_time cx ev) = snd (stamp cx ev)"
    using stamp_take_time [of cx ev] assms(3) by (metis event_ok_def snd_conv)
  note t = take_time_ok [OF assms(3)]
  show "says cx fmts ev (zero_padded 3 (digits 10 (unat (word_of_int (snd (stamp cx ev) div 1000) :: 32 word)))) b (zlog_spec_write_ms cx ev b)"
    by (rule says_writes [OF writes_dec32 assms(2) t]) (use assms(1) in \<open>simp_all add: zlog_spec_write_ms_def u\<close>)
  show "says cx fmts ev (zero_padded 6 (digits 10 (unat (word_of_int (snd (stamp cx ev)) :: 32 word)))) b (zlog_spec_write_us cx ev b)"
    by (rule says_writes [OF writes_dec32 assms(2) t]) (use assms(1) in \<open>simp_all add: zlog_spec_write_us_def u\<close>)
qed

lemma says_neat:
  assumes "alloc_all cx" "buf_wf b" "event_ok cx fmts ev" "length_is (ev_file ev) (ev_file_len ev)"
  shows "says cx fmts ev (base_name (the (ev_file ev))) b (zlog_spec_write_srcfile_neat cx ev b)"
proof -
  obtain f where f: "ev_file ev = Some f" "ev_file_len ev = int (length f)"
    using assms(4) by (auto simp: length_is_def split: option.splits)
  have l: "length (base_name f) \<le> length f" using length_takeWhile_le [of _ "rev f"] by (simp add: base_name_def)
  show ?thesis
  proof (cases "CHR ''/'' \<in> set f")
    case True
    have "zlog_spec_write_srcfile_neat cx ev b = write_bytes cx (Some (base_name f)) (int (length (base_name f))) ev b"
      using f True l by (simp add: zlog_spec_write_srcfile_neat_def base_name_def Let_def of_nat_diff)
    then show ?thesis using says_bytes [OF assms(1-3) same_event_refl, of "int (length (base_name f))" "base_name f"] f by simp
  next
    case False
    then have "takeWhile (\<lambda>c. c \<noteq> CHR ''/'') (rev f) = rev f" unfolding takeWhile_eq_all_conv by auto
    then have "base_name f = f" by (simp only: base_name_def rev_rev_ident)
    then show ?thesis using says_bytes [OF assms(1-3) same_event_refl, of "int (length f)" f] f False
      by (simp add: zlog_spec_write_srcfile_neat_def)
  qed
qed

lemma says_level:
  assumes "alloc_all cx" "buf_wf b" "event_ok cx fmts ev"
    "zlog_level_list_get (cx_levels cx) (ev_level ev) = Some (Some l)" "str_len l = length (name l)"
  shows "says cx fmts ev (name (level_of cx ev)) b (write_level name cx ev b)"
  using says_bytes [OF assms(1-3) same_event_refl, of "int (length (name l))" "name l"] assms(4,5)
  by (simp add: write_level_def level_of_def)

lemma writes_vprintf:
  "alloc_all cx \<Longrightarrow> length t < 2 ^ 31 \<Longrightarrow> writes t (zlog_buf_vprintf (cx_alloc cx) (cx_junk cx) (Some t))"
  by (simp add: writes_def alloc_all_def vprintf_spec)

lemma says_usrmsg:
  assumes "alloc_all cx" "buf_wf b" "event_ok cx fmts ev" "message_defined ev"
  shows "says cx fmts ev (message_text ev) b (zlog_spec_write_usrmsg cx ev b)"
proof (cases "ev_generate_cmd ev")
  case ZLOG_FMT
  show ?thesis
  proof (cases "ev_str_format ev")
    case None
    then show ?thesis using says_text [OF assms(1-3) same_event_refl] ZLOG_FMT by (simp add: zlog_spec_write_usrmsg_def message_text_def)
  next
    case (Some t)
    then obtain u where u: "t = Some u" "length u < 2 ^ 31" using assms(4) ZLOG_FMT by (auto simp: message_defined_def)
    have "message_text ev = u" using u Some ZLOG_FMT by (simp add: message_text_def)
    moreover have "says cx fmts ev u b (zlog_spec_write_usrmsg cx ev b)"
      by (rule says_writes [OF writes_vprintf [OF assms(1) u(2)] assms(2,3) same_event_refl])
        (use u Some ZLOG_FMT in \<open>simp add: zlog_spec_write_usrmsg_def\<close>)
    ultimately show ?thesis by simp
  qed
next
  case ZLOG_HEX
  define f where "f = (case ev_hex_buf ev of None \<Rightarrow> put_str cx ''buf=(null)''
    | Some buf \<Rightarrow> and_then (put_str cx ZLOG_HEX_HEAD) (hex_lines cx buf (ev_hex_buf_len ev) 0))"
  have w: "writes (message_text ev) f"
  proof (cases "ev_hex_buf ev")
    case None
    then show ?thesis using writes_put [OF assms(1)] ZLOG_HEX by (simp add: f_def message_text_def)
  next
    case (Some buf)
    then have n: "0 \<le> ev_hex_buf_len ev" "ev_hex_buf_len ev \<le> int (length buf)" "ev_hex_buf_len ev < 2 ^ 60"
      using assms(4) ZLOG_HEX by (auto simp: message_defined_def)
    then have "nat (ev_hex_buf_len ev) \<le> length buf" "nat (ev_hex_buf_len ev) < 2 ^ 60" by (simp_all add: nat_less_iff)
    from writes_hex_dump [OF assms(1) this] show ?thesis using n(1) Some ZLOG_HEX by (simp add: f_def message_text_def)
  qed
  obtain rc b1 where r: "f b = Some (rc, b1)" "appends b (message_text ev) (Some (rc, b1))"
    using w assms(2) by (auto simp: writes_def appends_def)
  have "(case ev_hex_buf ev of None \<Rightarrow> put_str cx ''buf=(null)'' b
    | Some buf \<Rightarrow> and_then (put_str cx ZLOG_HEX_HEAD) (hex_lines cx buf (ev_hex_buf_len ev) 0) b) = f b"
    by (simp add: f_def split: option.split)
  then have "zlog_spec_write_usrmsg cx ev b = Some (rc, ev, b1)"
    using r appends_rc [OF r(2)] ZLOG_HEX by (auto simp: zlog_spec_write_usrmsg_def)
  then show ?thesis using r(2) assms(3) by (simp add: says_def)
qed

text \<open>Every specification that is defined for the event writes its text.\<close>

lemma write_spec_ok:
  assumes "alloc_all cx" "buf_wf b" "event_ok cx fmts ev" "spec_defined cx mdc fmts ev s"
  shows "says cx fmts ev (spec_text cx mdc ev s) b (write_spec cx mdc s ev b)"
proof -
  note said = says_text [OF assms(1-3) same_event_refl] and bytes = says_bytes [OF assms(1-3) same_event_refl]
  note d = assms(4) [unfolded spec_defined_def, THEN conjunct2, THEN conjunct2]
  show ?thesis
  proof (cases "sp_write_buf s")
    case Write_time
    then show ?thesis using d says_time [OF assms(1-3) Write_time] by (simp add: spec_text_def write_spec_def)
  next
    case Write_ms
    then show ?thesis using says_time_of_day(1) [OF assms(1-3)] by (simp add: spec_text_def write_spec_def)
  next
    case Write_us
    then show ?thesis using says_time_of_day(2) [OF assms(1-3)] by (simp add: spec_text_def write_spec_def)
  next
    case Write_mdc
    then obtain kv where kv: "zlog_mdc_get_kv mdc (sp_mdc_key s) = Some kv" using d by (auto split: option.splits)
    show ?thesis
    proof (cases kv)
      case None
      have "says cx fmts ev [] b (Some (0, ev, b))"
        using appends_nothing [OF assms(2) wf_room [OF assms(2)]] assms(3) by (simp add: says_def)
      then show ?thesis using kv None Write_mdc by (simp add: spec_text_def write_spec_def zlog_spec_write_mdc_def)
    next
      case (Some k)
      then show ?thesis using kv d Write_mdc bytes [of "kv_value_len k" "kv_value k"]
        by (simp add: spec_text_def write_spec_def zlog_spec_write_mdc_def)
    qed
  next
    case Write_str
    then show ?thesis using d bytes [of "int (sp_len s)" "sp_str s"] by (simp add: spec_text_def write_spec_def zlog_spec_write_str_def)
  next
    case Write_srcfile
    then show ?thesis using d said [of "''(file=null)''"] bytes [of "ev_file_len ev" "the (ev_file ev)"]
      by (cases "ev_file ev") (simp_all add: spec_text_def write_spec_def zlog_spec_write_srcfile_def length_is_def)
  next
    case Write_srcfile_neat
    then show ?thesis using d says_neat [OF assms(1-3)] by (simp add: spec_text_def write_spec_def)
  next
    case Write_srcline
    have "writes (digits 10 (unat (word_of_int (ev_line ev) :: 64 word)))
        (zlog_buf_printf_dec64 (cx_alloc cx) (cx_junk cx) (word_of_int (ev_line ev)) 0)"
      using writes_dec64 [OF assms(1), of 0 "word_of_int (ev_line ev)"] by (simp add: zero_padded_def)
    from says_writes [OF this assms(2,3) same_event_refl refl] show ?thesis
      using Write_srcline by (simp add: spec_text_def write_spec_def zlog_spec_write_srcline_def)
  next
    case Write_srcfunc
    then show ?thesis using d said [of "''(func=null)''"] bytes [of "ev_func_len ev" "the (ev_func ev)"]
      by (cases "ev_func ev") (auto simp: spec_text_def write_spec_def zlog_spec_write_srcfunc_def length_is_def)
  next
    case Write_pid
    then show ?thesis using says_text [OF assms(1,2) pid_ok(1,2) [OF assms(3)]] pid_ok(3) [OF assms(3)]
      by (simp add: spec_text_def write_spec_def zlog_spec_write_pid_def Let_def)
  next
    case Write_level_lowercase
    then show ?thesis using d says_level [OF assms(1-3), of _ str_lowercase]
      by (auto simp: spec_text_def write_spec_def zlog_spec_write_level_lowercase_def split: option.splits)
  next
    case Write_level_uppercase
    then show ?thesis using d says_level [OF assms(1-3), of _ str_uppercase]
      by (auto simp: spec_text_def write_spec_def zlog_spec_write_level_uppercase_def split: option.splits)
  next
    case Write_usrmsg
    then show ?thesis using d says_usrmsg [OF assms(1-3)] by (simp add: spec_text_def write_spec_def)
  qed (simp_all add: spec_text_def write_spec_def said)
qed


subsection \<open>One piece of a message\<close>

lemma adjust_append_prefix:
  assumes wf: "buf_wf b" and "n \<le> length blk"
  shows "zlog_buf_adjust_append alloc junk blk (int n) left zero iw ow b = zlog_buf_adjust_append alloc junk (take n blk) (int n) left zero iw ow b"
proof -
  have m: "zlog_buf_put_adjusted blk left zero k sp l c = zlog_buf_put_adjusted (take n blk) left zero k sp l c" if "k \<le> int n" for k sp l c
  proof -
    have "mem_read blk k = mem_read (take n blk) k" using that assms(2) by (auto simp: mem_read_def min_def)
    then show ?thesis by (simp add: zlog_buf_put_adjusted_def)
  qed
  define src where "src = (if ow = 0 \<or> int n < ow then int n else ow)"
  obtain al sp where al: "(if iw = 0 \<or> src \<ge> iw then (src, 0) else (iw, iw - src)) = (al, sp)" by (meson surj_pair)
  have src: "src \<le> int n" "al = src + sp" "0 \<le> sp" using al by (auto simp: src_def split: if_splits)
  obtain rc b1 where r: "zlog_buf_resize alloc junk (al - (b_end b - b_tail b)) b = (rc, b1)" by (meson surj_pair)
  have l: "b_end b1 - b_tail b1 \<le> al" if "rc > 0" "al > b_end b - b_tail b" using resize_left [OF wf r] that by simp
  obtain src' sp' where p: "(if left then (if src < b_end b1 - b_tail b1 then (src, b_end b1 - b_tail b1 - src) else (b_end b1 - b_tail b1, 0))
      else (if sp < b_end b1 - b_tail b1 then (b_end b1 - b_tail b1 - sp, sp) else (0, b_end b1 - b_tail b1))) = (src', sp')"
    by (meson surj_pair)
  have "src' \<le> int n" if "rc > 0" "al > b_end b - b_tail b" using l [OF that] p src by (auto split: if_splits)
  then show ?thesis unfolding zlog_buf_adjust_append_def Let_def src_def [symmetric] al
    using m [OF src(1)] m [of src'] by (simp add: r p)
qed

text \<open>What of a text a buffer with a limit and a mark keeps.\<close>

definition kept_text :: "int \<Rightarrow> string \<Rightarrow> string \<Rightarrow> string" where
  "kept_text cap mark t = (if cap = 0 \<or> int (length t) < cap then t else overlay mark (take (nat (cap - 1)) t))"

definition text_fits :: "int \<Rightarrow> string \<Rightarrow> bool" where
  "text_fits cap t \<longleftrightarrow> cap = 0 \<or> int (length t) < cap"

lemma appended_kept_text:
  "appended b t = (if text_fits (b_size_max b) (content b @ t) then 0 else 1, kept_text (b_size_max b) (b_truncate_str b) (content b @ t))"
  by (simp add: appended_def kept_text_def text_fits_def Let_def)

definition piece :: "zlog_ctx \<Rightarrow> zlog_mdc \<Rightarrow> int \<Rightarrow> string \<Rightarrow> zlog_event \<Rightarrow> zlog_spec \<Rightarrow> string" where
  "piece cx mdc cap mark ev s =
     (if sp_reformat s
      then adjusted (kept_text cap mark (spec_text cx mdc ev s)) (sp_left_adjust s) (sp_left_fill_zeros s)
        (nat (sp_min_width s)) (nat (sp_max_width s))
      else spec_text cx mdc ev s)"

lemma restart_wf: "buf_wf b \<Longrightarrow> buf_wf (zlog_buf_restart b) \<and> content (zlog_buf_restart b) = []"
  by (auto simp: buf_wf_def zlog_buf_restart_def content_def)

lemma restart_limits [simp]: "b_size_max (zlog_buf_restart b) = b_size_max b" "b_truncate_str (zlog_buf_restart b) = b_truncate_str b"
  by (simp_all add: zlog_buf_restart_def)

lemma gen_spec_ok:
  assumes "alloc_all cx" "buf_wf pre" "buf_wf out" "event_ok cx fmts ev" "spec_defined cx mdc fmts ev s"
  shows "\<exists>rc ev' pre' out'. gen_spec cx mdc s ev pre out = Some (rc, ev', pre', out') \<and>
    appends out (piece cx mdc (b_size_max pre) (b_truncate_str pre) ev s) (Some (rc, out')) \<and>
    same_event cx ev ev' \<and> event_ok cx fmts ev' \<and> buf_wf pre' \<and>
    b_size_max pre' = b_size_max pre \<and> b_truncate_str pre' = b_truncate_str pre"
proof (cases "sp_reformat s")
  case False
  then show ?thesis using write_spec_ok [OF assms(1,3-5)] assms(2)
    by (auto simp: says_def gen_spec_def gen_direct_def piece_def)
next
  case True
  have wf: "buf_wf (zlog_buf_restart pre)" "content (zlog_buf_restart pre) = []" using restart_wf [OF assms(2)] by auto
  obtain rc ev' pre' where w: "write_spec cx mdc s ev (zlog_buf_restart pre) = Some (rc, ev', pre')"
    "appends (zlog_buf_restart pre) (spec_text cx mdc ev s) (Some (rc, pre'))" "same_event cx ev ev'" "event_ok cx fmts ev'"
    using write_spec_ok [OF assms(1) wf(1) assms(4,5)] by (auto simp: says_def)
  have pre': "buf_wf pre'" "content pre' = kept_text (b_size_max pre) (b_truncate_str pre) (spec_text cx mdc ev s)"
    "b_size_max pre' = b_size_max pre" "b_truncate_str pre' = b_truncate_str pre"
    using w(2) wf(2) by (auto simp: appends_def appended_kept_text)
  have rc: "\<not> rc < 0" using appends_rc [OF w(2)] by auto
  obtain d where d: "b_start pre' = Some d" "nat (b_tail pre') \<le> length d" "0 \<le> b_tail pre'"
  proof (rule buf_wfE [OF pre'(1)])
    fix d assume "b_start pre' = Some d" "int (length d) = b_size_real pre'" "0 \<le> b_tail pre'" "b_tail pre' < b_size_real pre'"
    then show thesis using that [of d] by simp
  qed
  have width: "sp_min_width s = int (nat (sp_min_width s))" "sp_max_width s = int (nat (sp_max_width s))"
    using assms(5) by (auto simp: spec_defined_def)
  have c: "take (nat (b_tail pre')) d = content pre'" using d by (simp add: content_def)
  have "zlog_buf_adjust_append (cx_alloc cx) (cx_junk cx) d (zlog_buf_len pre') (sp_left_adjust s) (sp_left_fill_zeros s)
      (sp_min_width s) (sp_max_width s) out =
    zlog_buf_adjust_append (cx_alloc cx) (cx_junk cx) (content pre') (int (length (content pre'))) (sp_left_adjust s) (sp_left_fill_zeros s)
      (int (nat (sp_min_width s))) (int (nat (sp_max_width s))) out"
    using adjust_append_prefix [OF assms(3) d(2), of "cx_alloc cx" "cx_junk cx" "sp_left_adjust s" "sp_left_fill_zeros s"
        "sp_min_width s" "sp_max_width s"] d(3) length_content [OF pre'(1)]
    unfolding c width [symmetric] by (simp add: zlog_buf_len_def)
  moreover have "appends out (piece cx mdc (b_size_max pre) (b_truncate_str pre) ev s)
    (zlog_buf_adjust_append (cx_alloc cx) (cx_junk cx) (content pre') (int (length (content pre'))) (sp_left_adjust s) (sp_left_fill_zeros s)
      (int (nat (sp_min_width s))) (int (nat (sp_max_width s))) out)"
    unfolding piece_def if_P [OF True] pre'(2) [symmetric]
    by (rule adjust_append_spec [OF assms(3)]) (use assms(1) in \<open>simp add: alloc_all_def\<close>)
  ultimately obtain rc2 out' where "zlog_buf_adjust_append (cx_alloc cx) (cx_junk cx) d (zlog_buf_len pre') (sp_left_adjust s) (sp_left_fill_zeros s)
      (sp_min_width s) (sp_max_width s) out = Some (rc2, out')"
    "appends out (piece cx mdc (b_size_max pre) (b_truncate_str pre) ev s) (Some (rc2, out'))"
    by (auto simp: appends_def)
  then show ?thesis using True w rc d pre' by (simp add: gen_spec_def gen_reformat_def)
qed


subsection \<open>A message\<close>

definition thread_ok :: "zlog_ctx \<Rightarrow> (nat \<Rightarrow> string) \<Rightarrow> zlog_thread \<Rightarrow> bool" where
  "thread_ok cx fmts th \<longleftrightarrow> event_ok cx fmts (th_event th) \<and> buf_wf (th_pre_msg_buf th) \<and> buf_wf (th_msg_buf th)"

text \<open>Threads that say the same: the same diagnostic context and limits, and events that say the same.\<close>

definition same_thread :: "zlog_ctx \<Rightarrow> zlog_thread \<Rightarrow> zlog_thread \<Rightarrow> bool" where
  "same_thread cx th th' \<longleftrightarrow> th_mdc th' = th_mdc th \<and> same_event cx (th_event th) (th_event th') \<and>
     b_size_max (th_pre_msg_buf th') = b_size_max (th_pre_msg_buf th) \<and>
     b_truncate_str (th_pre_msg_buf th') = b_truncate_str (th_pre_msg_buf th) \<and>
     b_size_max (th_msg_buf th') = b_size_max (th_msg_buf th) \<and> b_truncate_str (th_msg_buf th') = b_truncate_str (th_msg_buf th)"

definition msg_piece :: "zlog_ctx \<Rightarrow> zlog_thread \<Rightarrow> zlog_spec \<Rightarrow> string" where
  "msg_piece cx th s = piece cx (th_mdc th) (b_size_max (th_pre_msg_buf th)) (b_truncate_str (th_pre_msg_buf th)) (th_event th) s"

definition message :: "zlog_ctx \<Rightarrow> zlog_thread \<Rightarrow> zlog_spec list \<Rightarrow> string" where
  "message cx th specs = concat (map (msg_piece cx th) specs)"

lemma same_piece: "same_thread cx th th' \<Longrightarrow> msg_piece cx th' s = msg_piece cx th s"
  by (simp add: same_thread_def same_event_def msg_piece_def piece_def)

lemma same_message: "same_thread cx th th' \<Longrightarrow> message cx th' specs = message cx th specs"
  using same_piece [of cx th th'] by (simp add: message_def cong: map_cong)

lemma same_thread_trans: "same_thread cx th th1 \<Longrightarrow> same_thread cx th1 th2 \<Longrightarrow> same_thread cx th th2"
  by (auto simp: same_thread_def intro: same_event_trans)

definition specs_defined :: "zlog_ctx \<Rightarrow> (nat \<Rightarrow> string) \<Rightarrow> zlog_thread \<Rightarrow> zlog_spec list \<Rightarrow> bool" where
  "specs_defined cx fmts th specs \<longleftrightarrow> list_all (spec_defined cx (th_mdc th) fmts (th_event th)) specs"

lemma same_defined: "same_thread cx th th' \<Longrightarrow> specs_defined cx fmts th' specs = specs_defined cx fmts th specs"
  by (simp add: same_thread_def same_event_def specs_defined_def list_all_iff)

lemma gen_msg_one:
  assumes "alloc_all cx" "thread_ok cx fmts th" "specs_defined cx fmts th [s]"
  shows "\<exists>rc th'. zlog_spec_gen_msg cx s th = Some (rc, th') \<and> thread_ok cx fmts th' \<and> same_thread cx th th' \<and>
    appends (th_msg_buf th) (msg_piece cx th s) (Some (rc, th_msg_buf th'))"
proof -
  have d: "spec_defined cx (th_mdc th) fmts (th_event th) s" using assms(3) by (simp add: specs_defined_def)
  have t: "event_ok cx fmts (th_event th)" "buf_wf (th_pre_msg_buf th)" "buf_wf (th_msg_buf th)"
    using assms(2) by (auto simp: thread_ok_def)
  obtain rc ev pre out where g: "gen_spec cx (th_mdc th) s (th_event th) (th_pre_msg_buf th) (th_msg_buf th) = Some (rc, ev, pre, out)"
    "appends (th_msg_buf th) (msg_piece cx th s) (Some (rc, out))" "same_event cx (th_event th) ev" "event_ok cx fmts ev"
    "buf_wf pre" "b_size_max pre = b_size_max (th_pre_msg_buf th)" "b_truncate_str pre = b_truncate_str (th_pre_msg_buf th)"
    using gen_spec_ok [OF assms(1) t(2,3,1) d] unfolding msg_piece_def by blast
  define th' where "th' = th\<lparr>th_event := ev, th_pre_msg_buf := pre, th_msg_buf := out\<rparr>"
  have f: "th_event th' = ev" "th_pre_msg_buf th' = pre" "th_msg_buf th' = out" "th_mdc th' = th_mdc th" by (simp_all add: th'_def)
  have "zlog_spec_gen_msg cx s th = Some (rc, th')" using g(1) by (simp add: zlog_spec_gen_msg_def th'_def)
  moreover have "thread_ok cx fmts th'" "same_thread cx th th'" using g(2-7) by (auto simp: thread_ok_def same_thread_def f appends_def)
  moreover have "appends (th_msg_buf th) (msg_piece cx th s) (Some (rc, th_msg_buf th'))" using g(2) f(3) by simp
  ultimately show ?thesis by (intro exI [of _ rc] exI [of _ th']) simp
qed

lemma gen_msg_loop_ok:
  assumes "alloc_all cx" "thread_ok cx fmts th" "specs_defined cx fmts th specs"
  shows "\<exists>rc th'. gen_msg_loop cx (map Some specs) th = Some (- rc, th') \<and> thread_ok cx fmts th' \<and> same_thread cx th th' \<and>
    appends (th_msg_buf th) (message cx th specs) (Some (rc, th_msg_buf th'))"
  using assms(2,3)
proof (induction specs arbitrary: th)
  case Nil
  then have "buf_wf (th_msg_buf th)" by (simp add: thread_ok_def)
  then have "appends (th_msg_buf th) [] (Some (0, th_msg_buf th))" by (intro appends_nothing wf_room)
  moreover have "same_thread cx th th" by (simp add: same_thread_def)
  ultimately show ?case using Nil by (intro exI [of _ 0] exI [of _ th]) (simp add: message_def)
next
  case (Cons s specs)
  have d: "specs_defined cx fmts th [s]" "specs_defined cx fmts th specs" using Cons.prems(2) by (auto simp: specs_defined_def)
  obtain rc th1 where g: "zlog_spec_gen_msg cx s th = Some (rc, th1)" "thread_ok cx fmts th1" "same_thread cx th th1"
    "appends (th_msg_buf th) (msg_piece cx th s) (Some (rc, th_msg_buf th1))"
    using gen_msg_one [OF assms(1) Cons.prems(1) d(1)] by blast
  have m: "message cx th (s # specs) = msg_piece cx th s @ message cx th specs" by (simp add: message_def)
  show ?case
  proof (cases "rc = 0")
    case False
    then have "rc = 1" using appends_rc [OF g(4)] by blast
    then show ?thesis using g appends_cut [of "th_msg_buf th" _ "th_msg_buf th1"] unfolding m by (intro exI [of _ 1] exI [of _ th1]) simp
  next
    case True
    have d1: "specs_defined cx fmts th1 specs" using d(2) same_defined [OF g(3)] by simp
    obtain rc2 th2 where h: "gen_msg_loop cx (map Some specs) th1 = Some (- rc2, th2)" "thread_ok cx fmts th2" "same_thread cx th1 th2"
      "appends (th_msg_buf th1) (message cx th specs) (Some (rc2, th_msg_buf th2))"
      using Cons.IH [OF g(2) d1] unfolding same_message [OF g(3)] by blast
    have "appends (th_msg_buf th) (message cx th (s # specs)) (Some (rc2, th_msg_buf th2))"
      unfolding m using appends_then [OF _ h(4)] g(4) True by simp
    then show ?thesis using g(1) True h same_thread_trans [OF g(3) h(3)] by (intro exI [of _ rc2] exI [of _ th2]) simp
  qed
qed

lemma format_gen_msg_ok:
  assumes "alloc_all cx" "thread_ok cx fmts th" "specs_defined cx fmts th specs" "al_items (fm_pattern_specs f) = map Some specs"
  shows "\<exists>th'. zlog_format_gen_msg cx f th =
      Some (if text_fits (b_size_max (th_msg_buf th)) (message cx th specs) then 0 else -1, th') \<and>
    content (th_msg_buf th') = kept_text (b_size_max (th_msg_buf th)) (b_truncate_str (th_msg_buf th)) (message cx th specs) \<and>
    thread_ok cx fmts th' \<and> same_thread cx th th'"
proof -
  define th0 where "th0 = th\<lparr>th_msg_buf := zlog_buf_restart (th_msg_buf th)\<rparr>"
  have f: "th_event th0 = th_event th" "th_pre_msg_buf th0 = th_pre_msg_buf th" "th_msg_buf th0 = zlog_buf_restart (th_msg_buf th)"
    "th_mdc th0 = th_mdc th" by (simp_all add: th0_def)
  have ok: "thread_ok cx fmts th0" and same: "same_thread cx th th0" and c: "content (th_msg_buf th0) = []"
    using assms(2) restart_wf [of "th_msg_buf th"] by (auto simp: thread_ok_def same_thread_def f)
  have d: "specs_defined cx fmts th0 specs" using assms(3) same_defined [OF same] by simp
  obtain rc th' where g: "gen_msg_loop cx (map Some specs) th0 = Some (- rc, th')" "thread_ok cx fmts th'" "same_thread cx th0 th'"
    "appends (th_msg_buf th0) (message cx th specs) (Some (rc, th_msg_buf th'))"
    using gen_msg_loop_ok [OF assms(1) ok d] unfolding same_message [OF same] by blast
  have "rc = (if text_fits (b_size_max (th_msg_buf th)) (message cx th specs) then 0 else 1)"
    "content (th_msg_buf th') = kept_text (b_size_max (th_msg_buf th)) (b_truncate_str (th_msg_buf th)) (message cx th specs)"
    using g(4) by (auto simp: appends_def appended_kept_text f c [unfolded f])
  then show ?thesis using g same_thread_trans [OF same g(3)] assms(4)
    by (intro exI [of _ th']) (simp add: zlog_format_gen_msg_def th0_def [symmetric])
qed

end
