(* ===== verification/Zlog_Pattern.thy ===== *)
theory Zlog_Pattern
  imports Zlog_Message
begin

section \<open>The syntax of patterns\<close>

text \<open>
  The pattern language as the documentation has it: constant texts and conversions with a width.
  Writing a pattern out and cutting it with \<open>zlog_spec_new\<close> gives back its pieces, and whatever
  the code cuts a pattern into adds up to the pattern.
\<close>

datatype field = Time "string option" | Mdc string | Millis | Micros | Letter char

datatype item = Text string | Conv string field

fun show_field :: "field \<Rightarrow> string" where
  "show_field (Time None) = ''d''"
| "show_field (Time (Some fmt)) = ''d('' @ fmt @ '')''"
| "show_field (Mdc key) = ''M('' @ key @ '')''"
| "show_field Millis = ''ms''"
| "show_field Micros = ''us''"
| "show_field (Letter c) = [c]"

fun show_item :: "item \<Rightarrow> string" where
  "show_item (Text t) = t"
| "show_item (Conv f fd) = ''%'' @ f @ show_field fd"

definition show_items :: "item list \<Rightarrow> string" where
  "show_items its = concat (map show_item its)"

fun field_ok :: "field \<Rightarrow> bool" where
  "field_ok (Time None) = True"
| "field_ok (Time (Some fmt)) = (CHR '')'' \<notin> set fmt \<and> length fmt < LINE_SIZE)"
| "field_ok (Mdc key) = (CHR '')'' \<notin> set key \<and> length key < NAME_SIZE)"
| "field_ok Millis = True"
| "field_ok Micros = True"
| "field_ok (Letter c) = (conversion c \<noteq> None)"

fun shape_ok :: "item \<Rightarrow> bool" where
  "shape_ok (Text t) = (t \<noteq> [] \<and> CHR ''%'' \<notin> set t)"
| "shape_ok (Conv f fd) = (list_all fmt_char f \<and> length f < LINE_SIZE \<and> field_ok fd)"

text \<open>What may follow: no text after a text, no parenthesis after a bare \<open>%d\<close>, no \<open>s\<close> after \<open>%m\<close>.\<close>

fun separated :: "item \<Rightarrow> string \<Rightarrow> bool" where
  "separated (Text t) behind = (behind = [] \<or> hd behind = CHR ''%'')"
| "separated (Conv f (Time None)) behind = (behind = [] \<or> hd behind \<noteq> CHR ''('')"
| "separated (Conv f (Letter c)) behind = (c = CHR ''m'' \<longrightarrow> behind = [] \<or> hd behind \<noteq> CHR ''s'')"
| "separated (Conv f fd) behind = True"

fun pattern_ok :: "item list \<Rightarrow> bool" where
  "pattern_ok [] = True"
| "pattern_ok (it # its) = (shape_ok it \<and> separated it (show_items its) \<and> pattern_ok its)"

subsection \<open>The specification of an item\<close>

definition base_spec :: "string \<Rightarrow> string \<Rightarrow> zlog_spec" where
  "base_spec p f =
     (let s = \<lparr>sp_str = p, sp_len = 0, sp_time_fmt = [], sp_time_cache_index = 0, sp_mdc_key = [], sp_print_fmt = [],
              sp_left_adjust = False, sp_left_fill_zeros = False, sp_max_width = 0, sp_min_width = 0,
              sp_write_buf = Write_str, sp_reformat = False\<rparr> in
      if f \<noteq> [] then zlog_spec_parse_print_fmt (s\<lparr>sp_print_fmt := f, sp_reformat := True\<rparr>) else s)"

definition time_fmt_of :: "string option \<Rightarrow> string" where
  "time_fmt_of fmt = (if fmt = None \<or> fmt = Some [] then ZLOG_DEFAULT_TIME_FMT else the fmt)"

fun field_spec :: "zlog_spec \<Rightarrow> field \<Rightarrow> nat \<Rightarrow> zlog_spec" where
  "field_spec s (Time fmt) cnt = s\<lparr>sp_time_cache_index := cnt, sp_write_buf := Write_time, sp_time_fmt := time_fmt_of fmt\<rparr>"
| "field_spec s (Mdc key) cnt = (if key = [] then s\<lparr>sp_write_buf := Write_mdc\<rparr> else s\<lparr>sp_write_buf := Write_mdc, sp_mdc_key := key\<rparr>)"
| "field_spec s Millis cnt = s\<lparr>sp_write_buf := Write_ms\<rparr>"
| "field_spec s Micros cnt = s\<lparr>sp_write_buf := Write_us\<rparr>"
| "field_spec s (Letter c) cnt =
     (if c = CHR ''D'' then s\<lparr>sp_time_fmt := ZLOG_DEFAULT_TIME_FMT, sp_time_cache_index := cnt, sp_write_buf := Write_time\<rparr>
      else s\<lparr>sp_write_buf := the (conversion c)\<rparr>)"

fun spec_of :: "item \<Rightarrow> string \<Rightarrow> nat \<Rightarrow> zlog_spec" where
  "spec_of (Text t) behind cnt = (base_spec (t @ behind) [])\<lparr>sp_len := length t\<rparr>"
| "spec_of (Conv f fd) behind cnt =
     (field_spec (base_spec (show_item (Conv f fd) @ behind) f) fd cnt)\<lparr>sp_len := length (show_item (Conv f fd))\<rparr>"

fun time_count :: "item \<Rightarrow> nat" where
  "time_count (Conv f (Time fmt)) = 1"
| "time_count (Conv f (Letter c)) = (if c = CHR ''D'' then 1 else 0)"
| "time_count _ = 0"

fun specs_of :: "item list \<Rightarrow> nat \<Rightarrow> zlog_spec list" where
  "specs_of [] cnt = []"
| "specs_of (it # its) cnt = spec_of it (show_items its) cnt # specs_of its (cnt + time_count it)"

lemma base_spec_simps [simp]: "sp_str (base_spec p f) = p" "sp_mdc_key (base_spec p f) = []"
  by (simp_all add: base_spec_def Let_def zlog_spec_parse_print_fmt_def)

lemma conversion_cases:
  assumes "conversion c = Some w"
  shows "\<not> fmt_char c" "c \<noteq> CHR ''d''" "c \<noteq> CHR ''M''" "c \<noteq> CHR ''u''" "w = Write_time \<longleftrightarrow> c = CHR ''D''" "c \<noteq> CHR 0x00"
  using assms by (auto simp: conversion_def fmt_char_def is_digit_def cnum_def split: if_splits)

lemma field_first: "field_ok fd \<Longrightarrow> \<exists>c cs. show_field fd = c # cs \<and> \<not> fmt_char c"
  by (cases fd rule: show_field.cases) (auto simp: fmt_char_def is_digit_def cnum_def dest: conversion_cases(1))

lemma takeWhile_stop: "list_all P xs \<Longrightarrow> \<not> P y \<Longrightarrow> takeWhile P (xs @ y # ys) = xs"
  by (induction xs) auto

lemma takeWhile_end: "x \<notin> set xs \<Longrightarrow> takeWhile (\<lambda>c. c \<noteq> x) (xs @ x # ys) = xs"
  by (induction xs) auto

lemma scan_paren_shown:
  assumes "CHR '')'' \<notin> set key" and "key \<noteq> []"
  shows "scan_paren (c # CHR ''('' # key @ CHR '')'' # behind) = Some (key, length key + 3)"
  using assms by (simp add: scan_paren_def takeWhile_end)

text \<open>The head of a conversion, up to its letter.\<close>

lemma spec_new_conv:
  assumes "list_all fmt_char f" "length f < LINE_SIZE" "\<not> fmt_char c"
  shows "zlog_spec_new True (''%'' @ f @ c # cs) cnt =
    (let s = base_spec (''%'' @ f @ c # cs) f; k = 1 + length f; p = c # cs in
          if c = CHR ''d'' then spec_time s k p cnt
          else if c = CHR ''M'' then spec_mdc s k p cnt
          else if take 2 p = ''ms'' then finish_spec (s\<lparr>sp_write_buf := Write_ms\<rparr>) (k + 2) cnt
          else if take 2 p = ''us'' then finish_spec (s\<lparr>sp_write_buf := Write_us\<rparr>) (k + 2) cnt
          else case conversion c of
            None \<Rightarrow> Some None
          | Some Write_time \<Rightarrow> finish_spec (s\<lparr>sp_time_fmt := ZLOG_DEFAULT_TIME_FMT, sp_time_cache_index := cnt, sp_write_buf := Write_time\<rparr>)
              (k + 1) (cnt + 1)
          | Some w \<Rightarrow> finish_spec (s\<lparr>sp_write_buf := w\<rparr>) (k + 1) cnt)"
proof -
  have "takeWhile fmt_char (f @ c # cs) = f" using takeWhile_stop [OF assms(1,3)] .
  then show ?thesis using assms(2) by (simp add: zlog_spec_new_def base_spec_def Let_def)
qed

lemma field_parsed:
  assumes "list_all fmt_char f" "length f < LINE_SIZE" "field_ok fd" "separated (Conv f fd) behind"
  shows "zlog_spec_new True (show_item (Conv f fd) @ behind) cnt =
    Some (Some (spec_of (Conv f fd) behind cnt, behind, cnt + time_count (Conv f fd)))"
proof -
  obtain c cs where c: "show_field fd = c # cs" "\<not> fmt_char c" using field_first [OF assms(3)] by blast
  have d: "drop (length (show_item (Conv f fd))) (show_item (Conv f fd) @ behind) = behind" by simp
  have p: "show_item (Conv f fd) @ behind = ''%'' @ f @ c # (cs @ behind)" using c(1) by simp
  note new = spec_new_conv [OF assms(1,2) c(2), of "cs @ behind" cnt, folded p]
  have len: "length (show_item (Conv f fd)) = 1 + length f + length (c # cs)" using c(1) by simp
  have fin: "finish_spec (field_spec (base_spec (show_item (Conv f fd) @ behind) f) fd cnt) (length (show_item (Conv f fd))) n =
      Some (Some (spec_of (Conv f fd) behind cnt, behind, n))" for n
    using d by (cases fd) (simp_all add: finish_spec_def)
  show ?thesis
  proof (cases fd)
    case (Time fmt)
    show ?thesis
    proof (cases "fmt = None \<or> fmt = Some []")
      case True
      then show ?thesis using c(1) assms(4) new len fin unfolding Time
        by (cases behind) (auto simp: spec_time_def time_fmt_of_def eval_nat_numeral)
    next
      case False
      then obtain key where key: "fmt = Some key" "key \<noteq> []" by auto
      have "take 3 (''d('' @ key @ '')'' @ behind) \<noteq> ''d()''" using key(2) assms(3) Time key(1) by (cases key) auto
      then show ?thesis using c(1) assms(3) new len fin scan_paren_shown [of key "CHR ''d''" behind] key unfolding Time
        by (auto simp: spec_time_def time_fmt_of_def eval_nat_numeral)
    qed
  next
    case (Mdc key)
    show ?thesis
    proof (cases "key = []")
      case True
      then show ?thesis using c(1) new len fin unfolding Mdc
        by (auto simp: spec_mdc_def scan_paren_def eval_nat_numeral)
    next
      case False
      then show ?thesis using c(1) assms(3) new len fin scan_paren_shown [of key "CHR ''M''" behind] unfolding Mdc
        by (auto simp: spec_mdc_def eval_nat_numeral)
    qed
  next
    case Millis
    then show ?thesis using c(1) new len fin by (auto simp: eval_nat_numeral)
  next
    case Micros
    then show ?thesis using c(1) new len fin by (auto simp: eval_nat_numeral)
  next
    case (Letter l)
    obtain w where w: "conversion l = Some w" using assms(3) Letter by auto
    note cc = conversion_cases [OF w]
    have "take 2 (l # behind) \<noteq> ''ms''" using assms(4) Letter by (cases behind) auto
    moreover have "take 2 (l # behind) \<noteq> ''us''" using cc(4) by auto
    ultimately show ?thesis using c(1) new len fin cc(2,3,5) w unfolding Letter by (cases w) auto
  qed
qed

lemma item_parsed:
  assumes "shape_ok it" "separated it behind"
  shows "zlog_spec_new True (show_item it @ behind) cnt = Some (Some (spec_of it behind cnt, behind, cnt + time_count it))"
proof (cases it)
  case (Text t)
  then have t: "t \<noteq> []" "CHR ''%'' \<notin> set t" "behind = [] \<or> hd behind = CHR ''%''" using assms by auto
  have "takeWhile (\<lambda>c. c \<noteq> CHR ''%'') (t @ behind) = t"
    using t by (cases behind) (auto simp: takeWhile_end takeWhile_eq_all_conv)
  moreover have "hd (t @ behind) \<noteq> CHR ''%''" using t(1,2) by (cases t) auto
  ultimately show ?thesis using Text t(1) by (simp add: zlog_spec_new_def base_spec_def finish_spec_def Let_def)
next
  case (Conv f fd)
  then show ?thesis using field_parsed [of f fd behind cnt] assms by simp
qed

lemma show_item_nonempty: "shape_ok it \<Longrightarrow> show_item it \<noteq> []"
  by (cases it) auto

lemma specs_parsed:
  assumes "pattern_ok its" "\<forall>n. alloc n" "al_wf al" "length (al_items al) + length its < 2 ^ 29"
  shows "\<exists>al'. specs_loop alloc junk (show_items its) cnt al = Some (True, cnt + sum_list (map time_count its), al') \<and> al_wf al' \<and>
    al_items al' = al_items al @ map Some (specs_of its cnt)"
  using assms(1,3,4)
proof (induction its arbitrary: cnt al)
  case Nil
  then show ?case by (simp add: specs_loop.simps show_items_def)
next
  case (Cons it its)
  have p: "show_items (it # its) = show_item it @ show_items its" by (simp add: show_items_def)
  have ne: "show_items (it # its) \<noteq> []" using show_item_nonempty [of it] Cons.prems(1) by (simp add: p)
  have new: "zlog_spec_new True (show_item it @ show_items its) cnt =
      Some (Some (spec_of it (show_items its) cnt, show_items its, cnt + time_count it))"
    using item_parsed Cons.prems(1) by simp
  have "al_len al < al_size al \<or> al_size al < 2 ^ 30 \<and> alloc (pointers (al_size al * 2))"
    using assms(2) Cons.prems(2,3) al_wfD(1,2) [OF Cons.prems(2)] by auto
  then obtain al1 where a: "zc_arraylist_add alloc junk al (Some (spec_of it (show_items its) cnt)) = Some (0, al1)" "al_wf al1"
    "al_items al1 = al_items al @ [Some (spec_of it (show_items its) cnt)]"
    using add_spec [OF Cons.prems(2)] by blast
  have "length (al_items al1) + length its < 2 ^ 29" using a(3) Cons.prems(3) by simp
  moreover have "pattern_ok its" using Cons.prems(1) by simp
  ultimately obtain al' where "specs_loop alloc junk (show_items its) (cnt + time_count it) al1 =
      Some (True, cnt + time_count it + sum_list (map time_count its), al')" "al_wf al'"
    "al_items al' = al_items al1 @ map Some (specs_of its (cnt + time_count it))"
    using Cons.IH [OF _ a(2)] by blast
  then show ?case using ne new a assms(2) unfolding p by (subst specs_loop.simps) (simp add: add.assoc)
qed

end
