(* ===== verification/Zlog_Env.thy ===== *)
theory Zlog_Env
  imports Zlog_Pattern Zlog_Rotation
begin

section \<open>Format lines\<close>

text \<open>
  Reading the line of a format back: the widths of its conversions, the search for references to
  the environment, which leaves a pattern without them alone, and the whole line.
\<close>

subsection \<open>Widths\<close>

text \<open>\<open>%-20.4V\<close>: adjust to the left, fill with zeros, a least width and a greatest one.\<close>

definition width_fmt :: "bool \<Rightarrow> bool \<Rightarrow> nat \<Rightarrow> nat option \<Rightarrow> string" where
  "width_fmt left zero w prec =
     (if left then ''-'' else if zero then ''0'' else []) @ (if w = 0 then [] else digits 10 w) @
     (case prec of None \<Rightarrow> [] | Some n \<Rightarrow> ''.'' @ digits 10 n)"

lemma digit_chars: "is_digit c \<Longrightarrow> fmt_char c \<and> \<not> is_space c \<and> c \<noteq> CHR ''-'' \<and> c \<noteq> CHR ''+'' \<and> c \<noteq> CHR ''.''"
  by (auto simp: is_digit_def fmt_char_def is_space_def cnum_def)

lemma digits10_hd: "\<exists>c cs. digits 10 n = c # cs \<and> is_digit c"
  using digits10_nonempty [of n] digits10_are_digits [of _ n] by (cases "digits 10 n") auto

lemma digits10_no_leading_zero: "0 < n \<Longrightarrow> hd (digits 10 n) \<noteq> CHR ''0''"
proof (induction n rule: less_induct)
  case (less n)
  show ?case
  proof (cases "n < 10")
    case True
    then have "n \<in> {1..<10}" using less.prems by simp
    moreover have "\<forall>n\<in>{1..<10}. hex ! n \<noteq> CHR ''0''" by code_simp
    ultimately show ?thesis using True by (simp add: digits10_step [of n])
  next
    case False
    then show ?thesis using less.IH [of "n div 10"] digits10_nonempty [of "n div 10"] by (simp add: digits10_step [of n] hd_append)
  qed
qed

lemma read_digits:
  assumes "ds \<noteq> []" "list_all is_digit ds" "r = [] \<or> \<not> is_digit (hd r)"
  shows "read_number (ds @ r) = Some (foldl (\<lambda>a c. 10 * a + int (cnum c - 48)) 0 ds, r)"
proof -
  have t: "takeWhile is_digit (ds @ r) = ds" "dropWhile is_digit (ds @ r) = r"
    using assms(2,3) by (simp_all add: list_all_iff) (cases r; simp)+
  obtain c cs where c: "ds = c # cs" "is_digit c" using assms(1,2) by (cases ds) auto
  have "(case ds @ r of c # u \<Rightarrow> if c = CHR ''-'' then (True, u) else if c = CHR ''+'' then (False, u) else (False, ds @ r)
      | [] \<Rightarrow> (False, [])) = (False, ds @ r)" using c digit_chars [of c] by auto
  then show ?thesis unfolding read_number_def by (simp add: t assms(1))
qed

lemma scan_digits:
  assumes "ds \<noteq> []" "list_all is_digit ds" "r = [] \<or> \<not> is_digit (hd r)"
    "foldl (\<lambda>a c. 10 * a + int (cnum c - 48)) 0 ds = int n" "n < 2 ^ 63"
  shows "scan_long (ds @ r) = int n"
proof -
  obtain c cs where c: "ds = c # cs" "is_digit c" using assms(1,2) by (cases ds) auto
  have "dropWhile is_space (ds @ r) = ds @ r" using c digit_chars [of c] by simp
  moreover have "int n \<le> 2 ^ 63 - 1" using assms(5) by simp
  ultimately show ?thesis using read_digits [OF assms(1-3)] assms(4) by (simp add: scan_long_def)
qed

lemma digits10_all: "list_all is_digit (digits 10 n)"
  using digits10_are_digits by (auto simp: list_all_iff)

lemma scan_cut:
  assumes "n < 2 ^ 63"
  shows "scan_long (digits 10 n) = int n"
  using scan_digits [OF digits10_nonempty digits10_all, of "[]" n n] digits10_value [of n] assms by simp

lemma scan_width:
  assumes "w < 2 ^ 63" "r = [] \<or> hd r = CHR ''.''"
  shows "scan_long ((if w = 0 then [] else digits 10 w) @ r) = int w"
    and "scan_long (CHR ''0'' # (if w = 0 then [] else digits 10 w) @ r) = int w"
proof -
  have d: "is_digit (CHR ''0'')" "\<not> is_digit (CHR ''.'')" by (simp_all add: is_digit_def cnum_def)
  have r: "r = [] \<or> \<not> is_digit (hd r)" using assms(2) d by auto
  show "scan_long ((if w = 0 then [] else digits 10 w) @ r) = int w"
  proof (cases "w = 0")
    case True
    have "scan_long r = 0" using assms(2)
      by (cases r) (auto simp: scan_long_def read_number_def is_space_def cnum_def is_digit_def)
    then show ?thesis using True by simp
  next
    case False
    then show ?thesis using scan_digits [OF digits10_nonempty digits10_all r] digits10_value [of w] assms by simp
  qed
  have z: "foldl (\<lambda>a c. 10 * a + int (cnum c - 48)) 0 (CHR ''0'' # (if w = 0 then [] else digits 10 w)) = int w"
    using digits10_value [of w] by (simp add: cnum_def)
  show "scan_long (CHR ''0'' # (if w = 0 then [] else digits 10 w) @ r) = int w"
    using scan_digits [of "CHR ''0'' # (if w = 0 then [] else digits 10 w)", OF _ _ r z assms(1)] digits10_all [of w] d by simp
qed

lemma width_parsed:
  fixes p :: string
  assumes "w < 2 ^ 63" "case prec of None \<Rightarrow> True | Some n \<Rightarrow> n < 2 ^ 63" "width_fmt left zero w prec \<noteq> []"
  defines "s \<equiv> base_spec p (width_fmt left zero w prec)"
  shows "sp_left_adjust s = left" "sp_left_fill_zeros s = (zero \<and> \<not> left)" "sp_min_width s = int w"
    "sp_max_width s = (case prec of None \<Rightarrow> 0 | Some n \<Rightarrow> int n)" "sp_reformat s"
proof -
  define r where "r = (case prec of None \<Rightarrow> [] | Some n \<Rightarrow> ''.'' @ digits 10 n)"
  define d where "d = (if w = 0 then [] else digits 10 w)"
  define f where "f = width_fmt left zero w prec"
  have f: "f = (if left then ''-'' else if zero then ''0'' else []) @ d @ r" by (simp add: f_def width_fmt_def d_def r_def)
  have r: "r = [] \<or> hd r = CHR ''.''" by (simp add: r_def split: option.split)
  have ch: "c \<noteq> CHR ''.''" "c \<noteq> CHR ''-''" if "c \<in> set d" for c
    using that digits10_are_digits [of c w] digit_chars [of c] by (auto simp: d_def split: if_splits)
  have hd_d: "d @ r \<noteq> [] \<Longrightarrow> hd (d @ r) \<noteq> CHR ''-'' \<and> hd (d @ r) \<noteq> CHR ''0''"
    using r ch digits10_no_leading_zero [of w] digits10_nonempty [of w]
    by (cases "w = 0") (auto simp: d_def hd_append)
  have l: "f \<noteq> [] \<and> hd f = CHR ''-'' \<longleftrightarrow> left" using hd_d by (auto simp: f)
  have z: "\<not> left \<and> f \<noteq> [] \<and> hd f = CHR ''0'' \<longleftrightarrow> zero \<and> \<not> left" using hd_d by (auto simp: f)
  define q where "q = (if left then tl f else f)"
  have q: "q = d @ r \<or> q = CHR ''0'' # d @ r" by (auto simp: q_def f)
  have i: "scan_long q = int w" using scan_width [OF assms(1) r] q by (auto simp: d_def)
  have stop: "dropWhile (\<lambda>c. c \<noteq> CHR ''.'') (d @ r) = r"
    using ch r by (simp add: dropWhile_append2) (cases r; simp)
  then have dot: "dropWhile (\<lambda>c. c \<noteq> CHR ''.'') q = r" using q by auto
  have j: "(if r = [] then 0 else scan_long (tl r)) = (case prec of None \<Rightarrow> 0 | Some n \<Rightarrow> int n)"
    using assms(2) scan_cut by (auto simp: r_def split: option.splits)
  have small: "int w mod 2 ^ 64 = int w" "(case prec of None \<Rightarrow> 0 | Some n \<Rightarrow> int n) mod 2 ^ 64 = (case prec of None \<Rightarrow> 0 | Some n \<Rightarrow> int n)"
    using assms(1,2) by (auto split: option.splits)
  have s: "s = zlog_spec_parse_print_fmt (\<lparr>sp_str = p, sp_len = 0, sp_time_fmt = [], sp_time_cache_index = 0, sp_mdc_key = [], sp_print_fmt = f,
              sp_left_adjust = False, sp_left_fill_zeros = False, sp_max_width = 0, sp_min_width = 0,
              sp_write_buf = Write_str, sp_reformat = True\<rparr>)"
    using assms(3) by (simp add: s_def base_spec_def f_def Let_def)
  show "sp_left_adjust s = left" "sp_left_fill_zeros s = (zero \<and> \<not> left)" "sp_reformat s"
    using l z by (auto simp: s zlog_spec_parse_print_fmt_def Let_def)
  have "sp_min_width s = scan_long q mod 2 ^ 64"
    "sp_max_width s = (let u = dropWhile (\<lambda>c. c \<noteq> CHR ''.'') q in if u = [] then 0 else scan_long (tl u)) mod 2 ^ 64"
    unfolding s q_def l [symmetric] by (simp_all add: zlog_spec_parse_print_fmt_def Let_def)
  then show "sp_min_width s = int w" "sp_max_width s = (case prec of None \<Rightarrow> 0 | Some n \<Rightarrow> int n)"
    unfolding i dot Let_def j small by simp_all
qed


subsection \<open>Patterns without references to the environment\<close>

text \<open>
  A percent sign is harmless when what follows is not read as \<open>%E(...)\<close>; a pattern is free of
  references when all its percent signs are.
\<close>

definition no_env_at :: "string \<Rightarrow> nat \<Rightarrow> bool" where
  "no_env_at t k \<longleftrightarrow> (t ! k = CHR ''%'' \<longrightarrow>
     (let r = drop (k + 1) t; f = takeWhile fmt_char r in fst (scan_env (drop (length f) r) (length f)) = 0))"

definition env_free :: "string \<Rightarrow> bool" where
  "env_free t \<longleftrightarrow> CHR 0x00 \<notin> set t \<and> list_all (no_env_at t) [0..<length t]"

lemma takeWhile_until: "length (takeWhile P s) < length s \<Longrightarrow> \<not> P (s ! length (takeWhile P s))"
  by (rule nth_length_takeWhile)

lemma cstr_padded:
  assumes "CHR 0x00 \<notin> set t" "0 < n" "q \<le> length t"
  shows "cstr (t @ replicate n (CHR 0x00)) q = Some (drop q t)"
proof -
  have "takeWhile (\<lambda>c. c \<noteq> CHR 0x00) (drop q t @ replicate n (CHR 0x00)) = drop q t"
    using assms(1,2) by (cases n) (auto intro!: takeWhile_end dest: in_set_dropD)
  then show ?thesis using assms(2,3) by (simp add: cstr_def)
qed

lemma env_step_skip:
  assumes "CHR 0x00 \<notin> set t" "0 < n" "length t < LINE_SIZE" "q \<le> length t"
  defines "k \<equiv> q + length (takeWhile (\<lambda>c. c \<noteq> CHR ''%'') (drop q t))"
  assumes "k < length t" "no_env_at t k"
  shows "\<exists>q'. env_step getenv (t @ replicate n (CHR 0x00)) q slen = Some (Next (t @ replicate n (CHR 0x00)) q' slen) \<and>
    k < q' \<and> q' < length t"
proof -
  let ?b = "t @ replicate n (CHR 0x00)"
  define l where "l = length (takeWhile (\<lambda>c. c \<noteq> CHR ''%'') (drop q t))"
  have k: "k = q + l" by (simp add: k_def l_def)
  have c: "cstr ?b q = Some (drop q t)" using cstr_padded assms(1,2,4) .
  have l: "l < length (drop q t)" using assms(6) by (simp add: k)
  then have pct: "t ! k = CHR ''%''" using takeWhile_until [of "\<lambda>c. c \<noteq> CHR ''%''" "drop q t"] assms(4) by (simp add: l_def k)
  define r where "r = drop (k + 1) t"
  have r: "drop (l + 1) (drop q t) = r" by (simp add: r_def k add.commute add.left_commute)
  define f where "f = takeWhile fmt_char r"
  have z: "fst (scan_env (drop (length f) r) (length f)) = 0"
    using assms(7) pct by (simp add: no_env_at_def Let_def f_def r_def)
  then have "drop (length f) r \<noteq> []" by (auto simp: scan_env_def)
  then have lf: "k + 1 + length f < length t" by (simp add: r_def)
  obtain key nread where sc: "scan_env (drop (length f) r) (length f) = (0, key, nread)" using z by (metis fst_conv surj_pair)
  have "\<not> length f + 2 \<ge> LINE_SIZE" using lf assms(3) by simp
  then have "env_step getenv ?b q slen = Some (Next ?b (k + 1 + length f) slen)"
    using l unfolding env_step_def c bind.simps Let_def l_def [symmetric] r f_def [symmetric] sc prod.case
    by (simp add: k)
  then show ?thesis using lf by (intro exI [of _ "k + 1 + length f"]) simp
qed

lemma env_loop_free:
  assumes "env_free t" "0 < n" "length t < LINE_SIZE" "q \<le> length t"
  shows "env_loop getenv (t @ replicate n (CHR 0x00)) q slen = Some (0, t @ replicate n (CHR 0x00))"
  using assms(4)
proof (induction "length t - q" arbitrary: q rule: less_induct)
  case less
  let ?b = "t @ replicate n (CHR 0x00)" and ?l = "length (takeWhile (\<lambda>c. c \<noteq> CHR ''%'') (drop q t))"
  have t: "CHR 0x00 \<notin> set t" "\<And>k. k < length t \<Longrightarrow> no_env_at t k" using assms(1) by (auto simp: env_free_def list_all_iff)
  show ?case
  proof (cases "q + ?l < length t")
    case False
    then have "?l = length (drop q t)" using length_takeWhile_le [of "\<lambda>c. c \<noteq> CHR ''%''" "drop q t"] by simp
    then have "env_step getenv ?b q slen = Some (Finished 0 ?b)"
      using cstr_padded [OF t(1) assms(2) less.prems] by (simp add: env_step_def Let_def)
    then show ?thesis by (subst env_loop.simps) simp
  next
    case True
    obtain q' where "env_step getenv ?b q slen = Some (Next ?b q' slen)" "q + ?l < q'" "q' < length t"
      using env_step_skip [OF t(1) assms(2,3) less.prems True t(2) [OF True]] by blast
    then show ?thesis using less.hyps [of q'] less.prems by (subst env_loop.simps) simp
  qed
qed

lemma replace_env_free:
  assumes "env_free t" "0 < n" "length t < LINE_SIZE"
  shows "zc_str_replace_env getenv (t @ replicate n (CHR 0x00)) = Some (0, t @ replicate n (CHR 0x00))"
  using cstr_padded [of t n 0] env_loop_free [OF assms, of 0] assms(1,2) by (simp add: zc_str_replace_env_def env_free_def)

subsection \<open>Reading a format line\<close>

definition format_line :: "string \<Rightarrow> item list \<Rightarrow> string" where
  "format_line name its = name @ '' = '' @ [CHR 0x22] @ show_items its @ [CHR 0x22]"

lemma quoted_shown: "quoted (CHR 0x22 # s @ [CHR 0x22]) = Some s"
  by (simp add: quoted_def)

lemma name_chars:
  assumes "name_valid name" "name \<noteq> []"
  shows "dropWhile is_space (name @ CHR '' '' # r) = name @ CHR '' '' # r" "takeWhile name_char (name @ CHR '' '' # r) = name"
    "dropWhile name_char (name @ CHR '' '' # r) = CHR '' '' # r"
proof -
  have a: "name_char c \<and> \<not> is_space c" if "c \<in> set name" for c
  proof -
    have "isalnum c \<or> c = CHR ''_''" using assms(1) that by (simp add: name_valid_def list_all_iff)
    then show ?thesis by (auto simp: isalnum_def is_digit_def name_char_def is_space_def cnum_def)
  qed
  have "\<not> name_char (CHR '' '')" by (simp add: name_char_def)
  then show "takeWhile name_char (name @ CHR '' '' # r) = name" "dropWhile name_char (name @ CHR '' '' # r) = CHR '' '' # r"
    using a by (simp_all add: takeWhile_append2 dropWhile_append2)
  show "dropWhile is_space (name @ CHR '' '' # r) = name @ CHR '' '' # r" using a assms(2) by (cases name) auto
qed

lemma format_read:
  assumes "pattern_ok its" "env_free (show_items its)" "length (show_items its) < LINE_SIZE" "name_valid name" "name \<noteq> []"
    "length name < LINE_SIZE" "\<forall>n. alloc n"
  shows "\<exists>f. zlog_format_new alloc junk getenv (format_line name its) cnt = Some (Some f, cnt + sum_list (map time_count its)) \<and>
    fm_name f = name \<and> fm_pattern f = show_items its \<and> al_wf (fm_pattern_specs f) \<and>
    al_items (fm_pattern_specs f) = map Some (specs_of its cnt)"
proof -
  let ?p = "show_items its"
  have line: "format_line name its = name @ CHR '' '' # ''= '' @ CHR 0x22 # ?p @ [CHR 0x22]" by (simp add: format_line_def)
  note n = name_chars [OF assms(4,5), of "''= '' @ CHR 0x22 # ?p @ [CHR 0x22]", folded line]
  have sp: "is_space (CHR '' '')" "\<not> is_space (CHR ''='')" "\<not> is_space (CHR 0x22)" by (simp_all add: is_space_def cnum_def)
  obtain al where al: "zc_arraylist_new alloc True = Some (al :: zlog_spec zc_arraylist)" using assms(7) by (simp add: zc_arraylist_new_def)
  then have al0: "al_wf al" "al_items al = []" using new_wf by auto
  have "length its \<le> length ?p"
  proof -
    have "pattern_ok its \<Longrightarrow> length its \<le> length (show_items its)"
    proof (induction its)
      case (Cons it its)
      then show ?case using show_item_nonempty [of it] by (cases "show_item it") (auto simp: show_items_def)
    qed simp
    then show ?thesis using assms(1) .
  qed
  then have "length (al_items al) + length its < 2 ^ 29" using assms(3) al0(2) by (simp add: LINE_SIZE_def)
  from specs_parsed [OF assms(1,7) al0(1) this] obtain al' where l: "specs_loop alloc junk ?p cnt al = Some (True, cnt + sum_list (map time_count its), al')"
    "al_wf al'" "al_items al' = map Some (specs_of its cnt)" using al0(2) by auto
  have room: "0 < LINE_SIZE - length ?p" using assms(3) by simp
  have c0: "cstr (?p @ replicate (LINE_SIZE - length ?p) (CHR 0x00)) 0 = Some ?p"
    using cstr_padded [OF _ room, of ?p 0] assms(2) by (simp add: env_free_def)
  have "zlog_format_new alloc junk getenv (format_line name its) cnt =
      Some (Some \<lparr>fm_name = name, fm_pattern = ?p, fm_pattern_specs = al'\<rparr>, cnt + sum_list (map time_count its))"
    using assms(3-7) sp al l(1) c0 replace_env_free [OF assms(2) room assms(3)]
    by (simp add: zlog_format_new_def Let_def n quoted_shown)
  then show ?thesis using l by simp
qed

end
