(* ===== verification/Zlog_Text.thy ===== *)
theory Zlog_Text
  imports Zlog_Env
begin

section \<open>The text of a log line\<close>

text \<open>
  What each conversion stands for as the documentation has it, when it is defined, and that the
  specifications cut from a pattern write exactly this.
\<close>

subsection \<open>Conversions as documented\<close>

fun letter_text :: "zlog_ctx \<Rightarrow> zlog_event \<Rightarrow> char \<Rightarrow> string" where
  "letter_text cx ev c =
     (if c = CHR ''c'' then ev_category_name ev
      else if c = CHR ''D'' then shown_time cx ZLOG_DEFAULT_TIME_FMT (fst (stamp cx ev))
      else if c = CHR ''F'' then (case ev_file ev of None \<Rightarrow> ''(file=null)'' | Some f \<Rightarrow> f)
      else if c = CHR ''f'' then base_name (the (ev_file ev))
      else if c = CHR ''H'' then ev_host_name ev
      else if c = CHR ''k'' then ev_ktid_str ev
      else if c = CHR ''L'' then digits 10 (unat (word_of_int (ev_line ev) :: 64 word))
      else if c = CHR ''m'' then message_text ev
      else if c = CHR ''n'' then [CHR 0x0A]
      else if c = CHR ''r'' then [CHR 0x0D]
      else if c = CHR ''p'' then pid_text (pid_of cx ev)
      else if c = CHR ''U'' then (if ev_file ev = None then ''(func=null)'' else the (ev_func ev))
      else if c = CHR ''v'' then str_lowercase (level_of cx ev)
      else if c = CHR ''V'' then str_uppercase (level_of cx ev)
      else if c = CHR ''t'' then ev_tid_hex_str ev
      else if c = CHR ''T'' then ev_tid_str ev
      else ''%'')"

fun field_text :: "zlog_ctx \<Rightarrow> zlog_mdc \<Rightarrow> zlog_event \<Rightarrow> field \<Rightarrow> string" where
  "field_text cx mdc ev (Time fmt) = shown_time cx (time_fmt_of fmt) (fst (stamp cx ev))"
| "field_text cx mdc ev (Mdc key) = (case the (zlog_mdc_get_kv mdc key) of None \<Rightarrow> []
     | Some kv \<Rightarrow> take (nat (kv_value_len kv)) (kv_value kv))"
| "field_text cx mdc ev Millis = zero_padded 3 (digits 10 (unat (word_of_int (snd (stamp cx ev) div 1000) :: 32 word)))"
| "field_text cx mdc ev Micros = zero_padded 6 (digits 10 (unat (word_of_int (snd (stamp cx ev)) :: 32 word)))"
| "field_text cx mdc ev (Letter c) = letter_text cx ev c"

definition with_width :: "int \<Rightarrow> string \<Rightarrow> string \<Rightarrow> string \<Rightarrow> string" where
  "with_width cap sign f t =
     (if f = [] then t
      else let s = base_spec [] f in
        adjusted (kept_text cap sign t) (sp_left_adjust s) (sp_left_fill_zeros s) (nat (sp_min_width s)) (nat (sp_max_width s)))"

fun item_text :: "zlog_ctx \<Rightarrow> zlog_thread \<Rightarrow> item \<Rightarrow> string" where
  "item_text cx th (Text t) = t"
| "item_text cx th (Conv f fd) =
     with_width (b_size_max (th_pre_msg_buf th)) (b_truncate_str (th_pre_msg_buf th)) f (field_text cx (th_mdc th) (th_event th) fd)"

definition line_text :: "zlog_ctx \<Rightarrow> zlog_thread \<Rightarrow> item list \<Rightarrow> string" where
  "line_text cx th its = concat (map (item_text cx th) its)"

text \<open>When a conversion is defined for an event, and the formats of the time caches of a pattern.\<close>

definition level_ok :: "zlog_ctx \<Rightarrow> zlog_event \<Rightarrow> bool" where
  "level_ok cx ev \<longleftrightarrow> (case zlog_level_list_get (cx_levels cx) (ev_level ev) of
     Some (Some l) \<Rightarrow> str_len l = length (str_lowercase l) \<and> str_len l = length (str_uppercase l) | _ \<Rightarrow> False)"

fun letter_defined :: "zlog_ctx \<Rightarrow> zlog_event \<Rightarrow> char \<Rightarrow> bool" where
  "letter_defined cx ev c =
     (if c = CHR ''F'' then ev_file ev = None \<or> length_is (ev_file ev) (ev_file_len ev)
      else if c = CHR ''f'' then length_is (ev_file ev) (ev_file_len ev)
      else if c = CHR ''U'' then ev_file ev = None \<or> length_is (ev_func ev) (ev_func_len ev)
      else if c = CHR ''v'' \<or> c = CHR ''V'' then level_ok cx ev
      else if c = CHR ''m'' then message_defined ev
      else True)"

fun field_defined :: "zlog_ctx \<Rightarrow> zlog_mdc \<Rightarrow> zlog_event \<Rightarrow> field \<Rightarrow> bool" where
  "field_defined cx mdc ev (Mdc key) = (case zlog_mdc_get_kv mdc key of None \<Rightarrow> False | Some None \<Rightarrow> True
     | Some (Some kv) \<Rightarrow> 0 \<le> kv_value_len kv \<and> kv_value_len kv \<le> int (length (kv_value kv)))"
| "field_defined cx mdc ev (Letter c) = letter_defined cx ev c"
| "field_defined cx mdc ev _ = True"

fun item_defined :: "zlog_ctx \<Rightarrow> zlog_thread \<Rightarrow> item \<Rightarrow> bool" where
  "item_defined cx th (Text t) = True"
| "item_defined cx th (Conv f fd) = field_defined cx (th_mdc th) (th_event th) fd"

fun time_fmts :: "item list \<Rightarrow> string list" where
  "time_fmts [] = []"
| "time_fmts (Conv f (Time fmt) # its) = time_fmt_of fmt # time_fmts its"
| "time_fmts (Conv f (Letter c) # its) = (if c = CHR ''D'' then [ZLOG_DEFAULT_TIME_FMT] else []) @ time_fmts its"
| "time_fmts (it # its) = time_fmts its"

definition caches_hold :: "zlog_thread \<Rightarrow> (nat \<Rightarrow> string) \<Rightarrow> nat \<Rightarrow> string list \<Rightarrow> bool" where
  "caches_hold th fmts cnt ts \<longleftrightarrow> cnt + length ts \<le> length (ev_time_caches (th_event th)) \<and> map fmts [cnt..<cnt + length ts] = ts"

subsection \<open>The pieces of a line\<close>

lemma base_spec_indep:
  "sp_left_adjust (base_spec p f) = sp_left_adjust (base_spec [] f)" "sp_left_fill_zeros (base_spec p f) = sp_left_fill_zeros (base_spec [] f)"
  "sp_min_width (base_spec p f) = sp_min_width (base_spec [] f)" "sp_max_width (base_spec p f) = sp_max_width (base_spec [] f)"
  by (simp_all add: base_spec_def zlog_spec_parse_print_fmt_def Let_def)

lemma base_spec_reformat [simp]: "sp_reformat (base_spec p f) = (f \<noteq> [])"
  by (simp add: base_spec_def zlog_spec_parse_print_fmt_def Let_def)

lemma base_spec_widths: "0 \<le> sp_min_width (base_spec p f)" "0 \<le> sp_max_width (base_spec p f)"
  by (simp_all add: base_spec_def zlog_spec_parse_print_fmt_def Let_def)

lemma base_spec_write [simp]: "sp_write_buf (base_spec p f) = Write_str"
  by (simp add: base_spec_def zlog_spec_parse_print_fmt_def Let_def)

lemma field_spec_widths [simp]:
  "sp_left_adjust (field_spec s fd cnt) = sp_left_adjust s" "sp_left_fill_zeros (field_spec s fd cnt) = sp_left_fill_zeros s"
  "sp_min_width (field_spec s fd cnt) = sp_min_width s" "sp_max_width (field_spec s fd cnt) = sp_max_width s"
  "sp_reformat (field_spec s fd cnt) = sp_reformat s"
  by (cases fd; simp)+

lemma letters:
  assumes "conversion c = Some w"
  obtains "c = CHR ''c''" "w = Write_category" | "c = CHR ''D''" "w = Write_time" | "c = CHR ''F''" "w = Write_srcfile"
    | "c = CHR ''f''" "w = Write_srcfile_neat" | "c = CHR ''H''" "w = Write_hostname" | "c = CHR ''k''" "w = Write_ktid"
    | "c = CHR ''L''" "w = Write_srcline" | "c = CHR ''m''" "w = Write_usrmsg" | "c = CHR ''n''" "w = Write_newline"
    | "c = CHR ''r''" "w = Write_cr" | "c = CHR ''p''" "w = Write_pid" | "c = CHR ''U''" "w = Write_srcfunc"
    | "c = CHR ''v''" "w = Write_level_lowercase" | "c = CHR ''V''" "w = Write_level_uppercase" | "c = CHR ''t''" "w = Write_tid_hex"
    | "c = CHR ''T''" "w = Write_tid_long" | "c = CHR ''%''" "w = Write_percent"
  using assms by (auto simp: conversion_def split: if_splits)

lemma letter_spec_text:
  assumes "conversion c = Some w" "c \<noteq> CHR ''D''" "sp_write_buf s = w"
  shows "spec_text cx mdc ev s = letter_text cx ev c"
  using assms(1) by (rule letters) (use assms(2,3) in \<open>simp_all add: spec_text_def\<close>)

lemma field_spec_text:
  assumes "field_ok fd"
  shows "spec_text cx mdc ev ((field_spec (base_spec p f) fd cnt)\<lparr>sp_len := l\<rparr>) = field_text cx mdc ev fd"
proof (cases fd)
  case (Letter c)
  then obtain w where w: "conversion c = Some w" using assms by auto
  show ?thesis
  proof (cases "c = CHR ''D''")
    case True
    then show ?thesis by (simp add: Letter spec_text_def)
  next
    case False
    then show ?thesis using letter_spec_text [OF w False, of "(base_spec p f)\<lparr>sp_write_buf := w, sp_len := l\<rparr>"]
      by (simp add: Letter w del: letter_text.simps)
  qed
qed (simp_all add: spec_text_def)

lemma item_piece:
  assumes "shape_ok it"
  shows "msg_piece cx th (spec_of it r cnt) = item_text cx th it"
proof (cases it)
  case (Text t)
  then show ?thesis by (simp add: msg_piece_def piece_def spec_text_def base_spec_def Let_def)
next
  case (Conv f fd)
  have "field_ok fd" using assms Conv by simp
  from field_spec_text [OF this] show ?thesis using base_spec_indep [of "show_item (Conv f fd) @ r" f]
    by (simp add: Conv msg_piece_def piece_def with_width_def Let_def del: show_item.simps)
qed

lemma line_message:
  "pattern_ok its \<Longrightarrow> message cx th (specs_of its cnt) = line_text cx th its"
proof (induction its arbitrary: cnt)
  case (Cons it its)
  then show ?case using item_piece [of it cx th] by (simp add: message_def line_text_def)
qed (simp add: message_def line_text_def)

lemma letter_spec_defined:
  assumes "conversion c = Some w" "c \<noteq> CHR ''D''" "sp_write_buf s = w" "letter_defined cx ev c" "0 \<le> sp_min_width s" "0 \<le> sp_max_width s"
  shows "spec_defined cx mdc fmts ev s"
  using assms(1) by (rule letters)
    (use assms(2-6) in \<open>auto simp: spec_defined_def level_ok_def split: option.splits\<close>)

lemma time_fmts_count: "length (time_fmts its) = sum_list (map time_count its)"
  by (induction its rule: time_fmts.induct) auto

lemma item_spec_defined:
  assumes "shape_ok it" "item_defined cx th it" "caches_hold th fmts cnt (time_fmts [it])"
  shows "spec_defined cx (th_mdc th) fmts (th_event th) (spec_of it r cnt)"
proof (cases it)
  case (Text t)
  then show ?thesis by (simp add: spec_defined_def base_spec_def Let_def)
next
  case (Conv f fd)
  note w = base_spec_widths [of "show_item (Conv f fd) @ r" f]
  show ?thesis
  proof (cases fd)
    case (Letter c)
    then obtain wr where wr: "conversion c = Some wr" using assms(1) Conv by auto
    show ?thesis
    proof (cases "c = CHR ''D''")
      case True
      then show ?thesis using assms(3) w by (simp add: Conv Letter spec_defined_def caches_hold_def del: show_item.simps)
    next
      case False
      then show ?thesis
        using letter_spec_defined [OF wr False, of "spec_of it r cnt" cx "th_event th"] assms(2) w wr
        by (simp add: Conv Letter del: show_item.simps letter_defined.simps)
    qed
  qed (use assms(2,3) w Conv in \<open>auto simp: spec_defined_def caches_hold_def simp del: show_item.simps split: option.splits\<close>)
qed

lemma caches_hold_Cons:
  assumes "caches_hold th fmts cnt (time_fmts (it # its))"
  shows "caches_hold th fmts cnt (time_fmts [it])" "caches_hold th fmts (cnt + time_count it) (time_fmts its)"
proof -
  have t: "time_fmts (it # its) = time_fmts [it] @ time_fmts its" by (cases it rule: time_count.cases) auto
  have l: "length (time_fmts [it]) = time_count it" using time_fmts_count [of "[it]"] by simp
  have u: "[cnt..<cnt + time_count it + length (time_fmts its)] = [cnt..<cnt + time_count it] @ [cnt + time_count it..<cnt + time_count it + length (time_fmts its)]"
    by (rule upt_add_eq_append) simp
  have "map fmts [cnt..<cnt + time_count it] @ map fmts [cnt + time_count it..<cnt + time_count it + length (time_fmts its)] = time_fmts [it] @ time_fmts its"
    using assms l unfolding caches_hold_def t length_append add.assoc [symmetric] by (simp only: u map_append)
  then have "map fmts [cnt..<cnt + time_count it] = time_fmts [it]"
    "map fmts [cnt + time_count it..<cnt + time_count it + length (time_fmts its)] = time_fmts its"
    using l by (simp_all add: append_eq_append_conv)
  then show "caches_hold th fmts cnt (time_fmts [it])" "caches_hold th fmts (cnt + time_count it) (time_fmts its)"
    using assms l by (simp_all add: caches_hold_def t)
qed

lemma line_defined:
  "pattern_ok its \<Longrightarrow> list_all (item_defined cx th) its \<Longrightarrow> caches_hold th fmts cnt (time_fmts its) \<Longrightarrow>
    specs_defined cx fmts th (specs_of its cnt)"
proof (induction its arbitrary: cnt)
  case (Cons it its)
  note c = caches_hold_Cons [OF Cons.prems(3)]
  show ?case using Cons.IH [OF _ _ c(2)] item_spec_defined [OF _ _ c(1)] Cons.prems(1,2) by (simp add: specs_defined_def)
qed (simp add: specs_defined_def)

end
