(* ===== verification/Zlog_Logging.thy ===== *)
theory Zlog_Logging
  imports Zlog_Text
begin

section \<open>Patterns, threads and the lines they make\<close>

text \<open>
  The threads of a program as the states reachable by the operations on them, and the properties of
  patterns and lines, the ones that fail included.
\<close>

subsection \<open>A percent sign at the end\<close>

text \<open>
  At the end of the text \<open>sscanf\<close> answers with the end of its input, not with 0 conversions, and
  the search for a parenthesis fails: \<open>zc_str_replace_env\<close> takes the second sign of \<open>%%\<close> for the
  start of a reference.
\<close>

lemma env_loop_percent_end:
  assumes t: "CHR 0x00 \<notin> set t" "list_all (no_env_at (t @ ''%'')) [0..<length t]" and "0 < n" "length t + 1 < LINE_SIZE" "q \<le> length t"
  shows "env_loop getenv ((t @ ''%'') @ replicate n (CHR 0x00)) q slen = Some (-1, (t @ ''%'') @ replicate n (CHR 0x00))"
  using assms(5)
proof (induction "length t - q" arbitrary: q rule: less_induct)
  case less
  let ?t = "t @ ''%''" and ?l = "length (takeWhile (\<lambda>c. c \<noteq> CHR ''%'') (drop q (t @ ''%'')))"
  let ?b = "?t @ replicate n (CHR 0x00)"
  have nul: "CHR 0x00 \<notin> set ?t" using t(1) by simp
  have "?l \<le> length (drop q t)"
    using length_takeWhile_le [of _ "drop q t"] less.prems by (cases "CHR ''%'' \<in> set (drop q t)") (auto simp: takeWhile_append takeWhile_append1)
  then consider "q + ?l < length t" | "q + ?l = length t" using less.prems by fastforce
  then show ?case
  proof cases
    case 1
    have "\<forall>k\<in>{0..<length t}. no_env_at ?t k" using t(2) by (simp add: list_all_iff)
    then have "no_env_at ?t (q + ?l)" by (rule bspec) (use 1 less.prems in simp)
    moreover have "length ?t < LINE_SIZE" "q \<le> length ?t" using assms(4) less.prems by simp_all
    moreover have "q + ?l < length ?t" by (rule less_trans [OF 1]) simp
    ultimately obtain q' where q': "env_step getenv ?b q slen = Some (Next ?b q' slen)" "q + ?l < q'" "q' < length ?t"
      using env_step_skip [OF nul assms(3), of q getenv slen] by blast
    then have "env_loop getenv ?b q' slen = Some (-1, ?b)" using less.hyps [of q'] less.prems by simp
    then show ?thesis using q'(1) by (subst env_loop.simps) simp
  next
    case 2
    have c: "cstr ?b q = Some (drop q ?t)" using cstr_padded [OF nul assms(3)] less.prems by simp
    obtain l where l: "?l = l" by blast
    have e: "q + l = length t" using 2 unfolding l .
    have d: "drop (l + 1) (drop q ?t) = []" using e by simp
    have r: "block_read ?b (int (length t)) = Some (CHR ''%'')" by (simp add: block_read_def nth_append)
    have ne: "l \<noteq> length (drop q ?t)" using e by simp
    have "env_step getenv ?b q slen = Some (Finished (-1) ?b)"
      using ne assms(4) unfolding env_step_def c bind.simps Let_def l d
      by (simp add: scan_env_def r [simplified] e LINE_SIZE_def)
    then show ?thesis by (subst env_loop.simps) simp
  qed
qed


lemma percent_end_refused:
  assumes "CHR 0x00 \<notin> set t" "list_all (no_env_at (t @ ''%'')) [0..<length t]" "length t + 1 < LINE_SIZE"
    "name_valid name" "name \<noteq> []" "length name < LINE_SIZE" "\<forall>n. alloc n"
  shows "zlog_format_new alloc junk getenv (name @ '' = '' @ [CHR 0x22] @ (t @ ''%'') @ [CHR 0x22]) cnt = Some (None, cnt)"
proof -
  let ?p = "t @ ''%''"
  define line where "line = name @ CHR '' '' # ''= '' @ CHR 0x22 # ?p @ [CHR 0x22]"
  note n = name_chars [OF assms(4,5), of "''= '' @ CHR 0x22 # ?p @ [CHR 0x22]", folded line_def]
  have sp: "is_space (CHR '' '')" "\<not> is_space (CHR ''='')" "\<not> is_space (CHR 0x22)" by (simp_all add: is_space_def cnum_def)
  have room: "0 < LINE_SIZE - length ?p" using assms(3) by simp
  have "zc_str_replace_env getenv (?p @ replicate (LINE_SIZE - length ?p) (CHR 0x00)) =
      Some (-1, ?p @ replicate (LINE_SIZE - length ?p) (CHR 0x00))"
    unfolding zc_str_replace_env_def using cstr_padded [OF _ room, of ?p 0] env_loop_percent_end [OF assms(1,2) room assms(3), of 0] assms(1)
    by simp
  then have "zlog_format_new alloc junk getenv line cnt = Some (None, cnt)"
    using assms(3-7) sp unfolding zlog_format_new_def Let_def n by (simp add: quoted_shown [of ?p, simplified] del: replicate.simps)
  then show ?thesis by (simp add: line_def)
qed

subsection \<open>The threads of a program\<close>

definition system_ok :: "(int \<Rightarrow> tm) \<Rightarrow> (string \<Rightarrow> tm \<Rightarrow> string) \<Rightarrow> zlog_ctx \<Rightarrow> bool" where
  "system_ok lt sf cx \<longleftrightarrow> alloc_all cx \<and> cx_localtime cx = lt \<and> cx_strftime cx = sf \<and> fst (cx_now cx) \<noteq> 0 \<and> cx_getpid cx \<noteq> 0"

text \<open>
  The states of a thread: new, with its next event or its diagnostic context set, rebuilt after a
  reload, or left by a message of a format whose specifications are defined. The caches of the
  event survive all of this but a rebuild of the event: after it they are free, for the time
  formats of another configuration.
\<close>

inductive used :: "(int \<Rightarrow> tm) \<Rightarrow> (string \<Rightarrow> tm \<Rightarrow> string) \<Rightarrow> (nat \<Rightarrow> string) \<Rightarrow> zlog_thread \<Rightarrow> bool"
  for lt sf where
  used_new: "zlog_thread_new alloc calloc host tid ktid version mn mx caches = Some th \<Longrightarrow> 0 < mn \<Longrightarrow> used lt sf fmts th"
| used_fmt: "used lt sf fmts th \<Longrightarrow>
    used lt sf fmts (th\<lparr>th_event := zlog_event_set_fmt category file file_len func func_len line level str (th_event th)\<rparr>)"
| used_hex: "used lt sf fmts th \<Longrightarrow>
    used lt sf fmts (th\<lparr>th_event := zlog_event_set_hex category file file_len func func_len line level buf buf_len (th_event th)\<rparr>)"
| used_mdc: "used lt sf fmts th \<Longrightarrow> used lt sf fmts (th\<lparr>th_mdc := mdc\<rparr>)"
| used_msg_buf: "used lt sf fmts th \<Longrightarrow> 0 < mn \<Longrightarrow> used lt sf fmts (snd (zlog_thread_rebuild_msg_buf alloc mn mx th))"
| used_event: "used lt sf fmts th \<Longrightarrow> zlog_thread_rebuild_event calloc host tid ktid caches th = (rc, th') \<Longrightarrow>
    used lt sf (if rc = 0 then fmts' else fmts) th'"
| used_gen: "used lt sf fmts th \<Longrightarrow> system_ok lt sf cx \<Longrightarrow> al_items (fm_pattern_specs f) = map Some specs \<Longrightarrow>
    specs_defined cx fmts th specs \<Longrightarrow> zlog_format_gen_msg cx f th = Some (rc, th') \<Longrightarrow> used lt sf fmts th'"

lemma buf_new_wf: "zlog_buf_new alloc mn mx ts = Some b \<Longrightarrow> 0 < mn \<Longrightarrow> buf_wf b"
  by (auto simp: zlog_buf_new_def buf_wf_def Let_def split: if_splits option.splits)

lemma event_new_ok:
  "zlog_event_new calloc host tid ktid n = Some ev \<Longrightarrow> system_ok lt sf cx \<Longrightarrow> event_ok cx fmts ev"
  by (auto simp: zlog_event_new_def event_ok_def system_ok_def stamp_def split: if_splits option.splits)

lemma event_set_ok:
  assumes "event_ok cx fmts ev" "system_ok lt sf cx"
  shows "event_ok cx fmts (zlog_event_set_fmt category file file_len func func_len line level str ev)"
    "event_ok cx fmts (zlog_event_set_hex category file file_len func func_len line level buf buf_len ev)"
  using assms by (simp_all add: event_ok_def zlog_event_set_fmt_def zlog_event_set_hex_def stamp_def system_ok_def)

text \<open>The caches do not depend on what the system answers, as long as its calendar stays.\<close>

lemma event_ok_later:
  assumes "event_ok cx fmts ev" "system_ok lt sf cx" "system_ok lt sf cx'"
  shows "event_ok cx' fmts ev"
proof -
  have st: "shown_time cx' = shown_time cx" using assms(2,3) by (simp add: fun_eq_iff shown_time_def system_ok_def)
  show ?thesis using assms unfolding event_ok_def st by (auto simp: system_ok_def stamp_def)
qed

lemma used_ok: "used lt sf fmts th \<Longrightarrow> system_ok lt sf cx \<Longrightarrow> thread_ok cx fmts th"
proof (induction arbitrary: cx rule: used.induct)
  case (used_new alloc calloc host tid ktid version mn mx caches th fmts)
  then show ?case
    by (auto simp: zlog_thread_new_def thread_ok_def intro: buf_new_wf event_new_ok split: if_splits bind_splits)
next
  case (used_fmt fmts th)
  then show ?case using event_set_ok(1) by (simp add: thread_ok_def)
next
  case (used_hex fmts th)
  then show ?case using event_set_ok(2) by (simp add: thread_ok_def)
next
  case (used_mdc fmts th)
  then show ?case by (simp add: thread_ok_def)
next
  case (used_msg_buf fmts th mn alloc mx)
  then show ?case by (auto simp: zlog_thread_rebuild_msg_buf_def thread_ok_def intro: buf_new_wf split: option.splits)
next
  case (used_event fmts th calloc host tid ktid caches rc th' fmts')
  then show ?case by (auto simp: zlog_thread_rebuild_event_def thread_ok_def intro: event_new_ok split: option.splits)
next
  case (used_gen fmts th cx0 f specs rc th')
  have "thread_ok cx0 fmts th'"
    using format_gen_msg_ok [OF _ used_gen.IH [OF used_gen.hyps(2)] used_gen.hyps(4,3)] used_gen.hyps(2,5)
    by (auto simp: system_ok_def)
  then show ?case using event_ok_later [OF _ used_gen.hyps(2) used_gen.prems] by (simp add: thread_ok_def)
qed


subsection \<open>Properties\<close>


definition demo_items :: "item list" where
  "demo_items = [Conv [] (Time (Some ''%H'')), Text '' '', Conv ''-5'' (Letter (CHR ''V'')), Text '': '', Conv [] (Letter (CHR ''m''))]"

lemma demo_items:
  "pattern_ok demo_items" "env_free (show_items demo_items)" "length (show_items demo_items) < LINE_SIZE" "name_valid ''line''"
  "show_items demo_items = ''%d(%H) %-5V: %m''" "time_fmts demo_items = [''%H'']"
  by code_simp+



definition demo_level :: zlog_level where
  "demo_level = \<lparr>int_level = 40, str_uppercase = ''WARN'', str_lowercase = ''warn'', str_len = 4, syslog_level = 4\<rparr>"

definition demo_cx :: zlog_ctx where
  "demo_cx = \<lparr>cx_alloc = \<lambda>_. True, cx_junk = \<lambda>_. CHR ''?'',
     cx_levels = \<lparr>al_array = [Some demo_level], al_len = 1, al_size = 1, al_del = True, al_deleted = []\<rparr>,
     cx_now = (1700000000, 250), cx_localtime = \<lambda>_. [], cx_strftime = \<lambda>_ _. ''22'', cx_getpid = 7\<rparr>"

definition demo_event :: zlog_event where
  "demo_event = zlog_event_set_fmt ''app'' (Some ''main.c'') 6 (Some ''main'') 4 17 0 (Some (Some ''disk full''))
     (the (zlog_event_new (\<lambda>_. True) (Some ''gateway'') 11 12 1))"

definition demo_msg_buf :: zlog_buf where
  "demo_msg_buf = the (zlog_buf_new (\<lambda>_. True) 16 24 (Some buf_mark))"

definition demo_thread :: zlog_thread where
  "demo_thread = (let path = the (path_buf_new (\<lambda>_. True)) in
     \<lparr>th_init_version = 1, th_mdc = the (zlog_mdc_new (\<lambda>_. True)), th_event = demo_event, th_pre_path_buf = path,
       th_path_buf = path, th_archive_path_buf = path, th_pre_msg_buf = demo_msg_buf, th_msg_buf = demo_msg_buf\<rparr>)"

lemma demo_thread_simps [simp]:
  "th_event demo_thread = demo_event" "th_pre_msg_buf demo_thread = demo_msg_buf" "th_msg_buf demo_thread = demo_msg_buf"
  by (simp_all add: demo_thread_def Let_def)

lemma demo_event_simps [simp]:
  "ev_generate_cmd demo_event = ZLOG_FMT" "ev_str_format demo_event = Some (Some ''disk full'')" "ev_level demo_event = 0"
  "ev_tv_sec demo_event = 0" "length (ev_time_caches demo_event) = 1"
  by (simp_all add: demo_event_def zlog_event_new_def zlog_event_set_fmt_def)

lemma demo_msg_buf: "b_size_max demo_msg_buf = 24" "b_truncate_str demo_msg_buf = buf_mark"
  by code_simp+

lemma demo_used: "used (\<lambda>_. []) (\<lambda>_ _. ''22'') (\<lambda>_. ''%H'') demo_thread"
proof -
  have "path_buf_new (\<lambda>_. True) \<noteq> None" by (simp add: path_buf_new_def zlog_buf_new_def MAXLEN_PATH_def)
  moreover have "zlog_mdc_new (\<lambda>_. True) \<noteq> None" by code_simp
  moreover have "zlog_event_new (\<lambda>_. True) (Some ''gateway'') 11 12 1 \<noteq> None" by (simp add: zlog_event_new_def)
  moreover have "zlog_buf_new (\<lambda>_. True) 16 24 (Some buf_mark) \<noteq> None" by code_simp
  ultimately obtain p m e b where n: "path_buf_new (\<lambda>_. True) = Some p" "zlog_mdc_new (\<lambda>_. True) = Some m"
    "zlog_event_new (\<lambda>_. True) (Some ''gateway'') 11 12 1 = Some e" "zlog_buf_new (\<lambda>_. True) 16 24 (Some buf_mark) = Some b" by blast
  have th: "zlog_thread_new (\<lambda>_. True) (\<lambda>_. True) (Some ''gateway'') 11 12 1 16 24 1 =
      Some \<lparr>th_init_version = 1, th_mdc = m, th_event = e, th_pre_path_buf = p, th_path_buf = p, th_archive_path_buf = p,
        th_pre_msg_buf = b, th_msg_buf = b\<rparr>" by (simp add: zlog_thread_new_def n)
  from used_fmt [OF used_new [OF th], of "\<lambda>_. []" "\<lambda>_ _. ''22''" "\<lambda>_. ''%H''" "''app''" "Some ''main.c''" 6 "Some ''main''" 4 17 0 "Some (Some ''disk full'')"]
  show ?thesis by (simp add: demo_thread_def demo_event_def demo_msg_buf_def n)
qed

lemma demo_line:
  "list_all (item_defined demo_cx demo_thread) demo_items" "caches_hold demo_thread (\<lambda>_. ''%H'') 0 (time_fmts demo_items)"
  "line_text demo_cx demo_thread demo_items = ''22 WARN : disk full''"
proof -
  have l: "zlog_level_list_get (cx_levels demo_cx) 0 = Some (Some demo_level)" by code_simp
  then show "list_all (item_defined demo_cx demo_thread) demo_items"
    by (simp add: demo_items_def message_defined_def level_ok_def) (simp add: demo_level_def)
  show "caches_hold demo_thread (\<lambda>_. ''%H'') 0 (time_fmts demo_items)" by (simp add: caches_hold_def demo_items(6))
  have "str_uppercase (level_of demo_cx demo_event) = ''WARN''" using l by (simp add: level_of_def demo_level_def)
  moreover have "shown_time demo_cx ''%H'' n = ''22''" for n by (simp add: shown_time_def demo_cx_def LINE_SIZE_def)
  moreover have "with_width 24 buf_mark ''-5'' ''WARN'' = ''WARN ''" by code_simp
  ultimately show "line_text demo_cx demo_thread demo_items = ''22 WARN : disk full''"
    by (simp add: line_text_def demo_items_def demo_msg_buf time_fmt_of_def message_text_def) (simp add: with_width_def)
qed


text \<open>
  C19: a pattern without references to the environment that ends in a percent sign is refused: \<open>%%\<close>,
  which the documentation has for a percent sign, cannot be its last conversion.
\<close>

theorem percent_at_end_refused:
  assumes "CHR 0x00 \<notin> set t" "list_all (no_env_at (t @ ''%'')) [0..<length t]" "length t + 1 < LINE_SIZE"
    "name_valid name" "name \<noteq> []" "length name < LINE_SIZE" "\<forall>n. alloc n"
  shows "zlog_format_new alloc junk getenv (name @ '' = '' @ [CHR 0x22] @ (t @ ''%'') @ [CHR 0x22]) cnt = Some (None, cnt)"
  using percent_end_refused assms .

theorem percent_at_end_refused_witness:
  "zlog_format_new (\<lambda>_. True) (\<lambda>_. None) (\<lambda>_. None) (''line = '' @ [CHR 0x22] @ ''%m 50%%'' @ [CHR 0x22]) 0 = Some (None, 0) \<and>
   pattern_ok [Conv [] (Letter (CHR ''m'')), Text '' 50'', Conv [] (Letter (CHR ''%''))] \<and>
   show_items [Conv [] (Letter (CHR ''m'')), Text '' 50'', Conv [] (Letter (CHR ''%''))] = ''%m 50%%''"
proof -
  have "list_all (no_env_at (''%m 50%'' @ ''%'')) [0..<length ''%m 50%'']" by code_simp
  moreover have "pattern_ok [Conv [] (Letter (CHR ''m'')), Text '' 50'', Conv [] (Letter (CHR ''%''))]" by code_simp
  ultimately show ?thesis
    using percent_at_end_refused [of "''%m 50%''" "''line''" "\<lambda>_. True" "\<lambda>_. None" "\<lambda>_. None" 0] demo_items(4)
    by (simp add: LINE_SIZE_def show_items_def)
qed

subsection \<open>What patterns and contexts leave undefined\<close>

text \<open>
  After a value shorter than its reference the search goes on behind the end of the moved text:
  of two adjacent references the second is not replaced.
\<close>

lemma env_reference_skipped:
  "zc_str_replace_env (\<lambda>_. Some ''x'') (''%E(AB)%E(AB)'' @ replicate 8 (CHR 0x00)) =
     Some (0, ''x%E(AB)'' @ [CHR 0x00] @ ''(AB)'' @ replicate 8 (CHR 0x00))"
  by code_simp

text \<open>A key of \<open>%M(...)\<close> longer than the array it is read to, from a pattern of any length up to 4096.\<close>

lemma mdc_key_overflow:
  assumes "CHR '')'' \<notin> set key" "NAME_SIZE \<le> length key"
  shows "zlog_spec_new True (''%M('' @ key @ '')'' @ behind) cnt = None"
proof -
  have "\<not> fmt_char (CHR ''M'')" by (simp add: fmt_char_def is_digit_def cnum_def)
  moreover have "key \<noteq> []" using assms(2) by (auto simp: NAME_SIZE_def)
  ultimately show ?thesis
    using spec_new_conv [of "[]" "CHR ''M''" "CHR ''('' # key @ CHR '')'' # behind" cnt] scan_paren_shown [of key "CHR ''M''" behind] assms
    by (simp add: spec_mdc_def Let_def LINE_SIZE_def)
qed

text \<open>A long value of the diagnostic context: the length kept is that of the value before it was cut.\<close>

lemma mdc_value_overrun:
  assumes "zlog_mdc_kv_new calloc key val = Some kv" "NAME_SIZE < length val"
  shows "kv_value_len kv > int (length (kv_value kv)) \<and> mem_read (kv_value kv) (kv_value_len kv) = None"
  using assms by (auto simp: zlog_mdc_kv_new_def mem_read_def NAME_SIZE_def split: if_splits)

text \<open>\<open>%f\<close> searches the file name for a slash before it is compared with null.\<close>

lemma neat_null_file: "ev_file ev = None \<Longrightarrow> zlog_spec_write_srcfile_neat cx ev b = None"
  by (simp add: zlog_spec_write_srcfile_neat_def)

end
