(* ===== verification/Zlog_Stream.thy ===== *)
theory Zlog_Stream
  imports Zlog_Action Zlog_Logging
begin

section \<open>The stream of messages\<close>

text \<open>
  A log file and its archives, newest first, are one stream: the archives from the oldest on, then the
  file. A message written through a rotated output is appended to it, rotation or not.
\<close>

subsection \<open>Writing to files\<close>

lemma fs_get_append: "fs_get (file_append p s fs) q = (if q = p then map_option (\<lambda>c. c @ s) (fs_get fs p) else fs_get fs q)"
proof -
  have "map_of (map (\<lambda>f. if fst f = p then (p, snd f @ s) else f) xs) q =
      (if q = p then map_option (\<lambda>c. c @ s) (map_of xs p) else map_of xs q)" for xs
    by (induction xs) auto
  then show ?thesis by (simp add: fs_get_def file_append_def)
qed

lemma append_names: "map fst (fs_files (file_append p s fs)) = map fst (fs_files fs)" "fs_dirs (file_append p s fs) = fs_dirs fs"
  "length (fs_files (file_append p s fs)) = length (fs_files fs)"
  by (auto simp: file_append_def)

definition all_written :: "zlog_io \<Rightarrow> bool" where
  "all_written io \<longleftrightarrow> calm (io_os io) \<and> io_close io \<and> (\<forall>s. io_write io s = int (length s)) \<and> (\<forall>p. \<not> io_stat io p)"

definition text_of :: "fs \<Rightarrow> string \<Rightarrow> string" where
  "text_of fs p = (case fs_get fs p of None \<Rightarrow> [] | Some c \<Rightarrow> c)"

lemma write_file_ok:
  assumes "all_written io" "path \<noteq> []" "path \<notin> set (fs_dirs fs)" "fs_ok fs"
  shows "\<exists>fs'. write_file io path s a fs = (0, fsync_tick a, fs') \<and> fs_get fs' = (fs_get fs)(path := Some (text_of fs path @ s)) \<and>
    fs_ok fs' \<and> fs_dirs fs' = fs_dirs fs \<and> length (fs_files fs') \<le> Suc (length (fs_files fs))"
proof -
  define fs1 where "fs1 = (if fs_get fs path = None then fs\<lparr>fs_files := (path, []) # fs_files fs\<rparr> else fs)"
  have o: "open_append io path fs = Some fs1" using assms(1-3) by (simp add: open_append_def fs1_def all_written_def calm_def)
  have g: "fs_get fs1 = (fs_get fs)(path := Some (text_of fs path))"
    by (auto simp: fs1_def fs_get_def text_of_def fun_eq_iff split: option.split)
  have ok: "fs_ok fs1" using assms(4) unfolding fs1_def fs_ok_def
    by (auto simp: fs_get_def map_of_eq_None_iff)
  have w: "kernel_takes io s = Some s" using assms(1) by (simp add: kernel_takes_def all_written_def)
  have "write_file io path s a fs = (0, fsync_tick a, file_append path s fs1)"
    using assms(1) by (simp add: write_file_def o w all_written_def)
  moreover have "fs_get (file_append path s fs1) = (fs_get fs)(path := Some (text_of fs path @ s))"
    by (auto simp: fs_get_append g fun_eq_iff)
  moreover have "fs_ok (file_append path s fs1)" using ok by (simp add: fs_ok_def append_names)
  moreover have "fs_dirs (file_append path s fs1) = fs_dirs fs" "length (fs_files (file_append path s fs1)) \<le> Suc (length (fs_files fs))"
    by (simp_all add: append_names fs1_def)
  ultimately show ?thesis by blast
qed

subsection \<open>Archives and the file as one text\<close>

text \<open>
  \<open>logs\<close>: the stream \<open>s\<close> is what the archives and the file hold, behind an old part that is gone; some is
  gone only when the configured number of archives is there.
\<close>

definition logs :: "fs \<Rightarrow> string \<Rightarrow> string \<Rightarrow> nat \<Rightarrow> string \<Rightarrow> int \<Rightarrow> string \<Rightarrow> bool" where
  "logs fs base a w b mx s \<longleftrightarrow> (\<exists>cs old. holds_archives fs base a w b cs \<and> s = old @ concat (rev cs) @ text_of fs base \<and>
     (old = [] \<or> mx > 0 \<and> int (length cs) = mx))"

definition roomy :: "fs \<Rightarrow> string \<Rightarrow> string \<Rightarrow> nat \<Rightarrow> string \<Rightarrow> bool" where
  "roomy fs base a w b \<longleftrightarrow> length a + max w 10 + length b < PATH_SIZE \<and> set (fs_dirs fs) \<inter> range (archive_name a w b) = {} \<and>
     base \<noteq> [] \<and> base \<notin> set (fs_dirs fs) \<and> length (fs_files fs) + length (fs_dirs fs) + 1 < 2 ^ 30"

lemma digits10_length: "n < 10 ^ Suc k \<Longrightarrow> length (digits 10 n) \<le> Suc k"
proof (induction k arbitrary: n)
  case 0
  then show ?case by (simp add: digits10_step [of n])
next
  case (Suc k)
  show ?case
  proof (cases "n < 10")
    case False
    have "n div 10 < 10 ^ Suc k" using Suc.prems by (simp add: less_mult_imp_div_less mult.commute)
    then show ?thesis using Suc.IH [of "n div 10"] False by (simp add: digits10_step [of n])
  qed (simp add: digits10_step [of n])
qed

lemma archive_name_length: "i < 2 ^ 31 \<Longrightarrow> length (archive_name a w b i) \<le> length a + max w 10 + length b"
proof -
  assume "i < 2 ^ 31"
  then have "i < 10 ^ Suc 9" by simp
  then have "length (digits 10 i) \<le> 10" using digits10_length [of i 9] by simp
  then show ?thesis by (simp add: archive_name_def padded_def)
qed

lemma archives_few:
  assumes "holds_archives fs base a w b cs"
  shows "length cs \<le> length (fs_files fs)"
proof -
  have "archive_name a w b ` {..<length cs} \<subseteq> fst ` set (fs_files fs)"
  proof
    fix p assume "p \<in> archive_name a w b ` {..<length cs}"
    then have "fs_get fs p \<noteq> None" using assms by (auto simp: holds_archives_def)
    then show "p \<in> fst ` set (fs_files fs)" by (auto simp: fs_get_def map_of_eq_None_iff)
  qed
  then have "card (archive_name a w b ` {..<length cs}) \<le> card (fst ` set (fs_files fs))" by (intro card_mono) auto
  moreover have "card (archive_name a w b ` {..<length cs}) = length cs"
    by (subst card_image) (auto intro: inj_on_subset [OF inj_archive_name])
  moreover have "card (fst ` set (fs_files fs)) \<le> length (fs_files fs)"
    using card_length [of "map fst (fs_files fs)"] by simp
  ultimately show ?thesis by simp
qed

lemma room_roomy:
  assumes "holds_archives fs base a w b cs" "length a + max w 10 + length b < PATH_SIZE" "set (fs_dirs fs) \<inter> range (archive_name a w b) = {}"
    "length (fs_files fs) < 2 ^ 30"
  shows "room_for fs a w b (length cs)"
proof -
  have n: "length cs < 2 ^ 30" using archives_few [OF assms(1)] assms(4) by simp
  have "length (archive_name a w b i) < PATH_SIZE" if "i \<le> length cs" for i
    using archive_name_length [of i a w b] that n assms(2) by simp
  then show ?thesis using n assms(3) by (auto simp: room_for_def)
qed

lemma archives_written:
  assumes "holds_archives fs base a w b cs" "fs_get fs' = (fs_get fs)(base := Some t)" "fs_ok fs'" "fs_dirs fs' = fs_dirs fs"
    "length (fs_files fs') + length (fs_dirs fs) < 2 ^ 30"
  shows "holds_archives fs' base a w b cs"
proof -
  have ne: "archive_name a w b i \<noteq> base" for i using assms(1) by (auto simp: holds_archives_def archives_are_def)
  show ?thesis using assms ne unfolding holds_archives_def archives_are_def by auto
qed

lemma kept_stream:
  assumes "old = [] \<or> mx > 0 \<and> int (length cs) = mx"
  shows "\<exists>old'. old @ concat (rev (c # cs)) = old' @ concat (rev (kept mx (c # cs))) \<and>
    (old' = [] \<or> mx > 0 \<and> int (length (kept mx (c # cs))) = mx)"
proof (cases "mx > 0")
  case True
  let ?n = "nat mx"
  have split: "concat (rev (c # cs)) = concat (rev (drop ?n (c # cs))) @ concat (rev (take ?n (c # cs)))"
    by (metis append_take_drop_id concat_append rev_append)
  show ?thesis
  proof (cases "length (c # cs) < ?n")
    case short: True
    then have "old = []" using assms by auto
    then show ?thesis using True short by (intro exI [of _ "[]"]) (simp add: kept_def)
  next
    case False
    then show ?thesis using True split by (intro exI [of _ "old @ concat (rev (drop ?n (c # cs)))"]) (simp add: kept_def min_def)
  qed
next
  case False
  then show ?thesis using assms by (intro exI [of _ "[]"]) (simp add: kept_def)
qed

text \<open>A step on the files alone: the message is written, and the file is rotated when it is large.\<close>

lemma write_message_streams:
  assumes io: "all_written io" and th: "buf_wf (th_msg_buf th)" and idle: "idle (wd_rotater wd)"
    and form: "archive_form ROLLING base ar w b (ac_archive_path a)" "ac_archive_specs a = None"
    and room: "roomy (wd_fs wd) base ar w b" and logs: "logs (wd_fs wd) base ar w b (ac_archive_max_count a) s"
  shows "\<exists>wd'. write_message io cx True base a th wd = Some (0, fsync_tick a, th, wd') \<and>
    logs (wd_fs wd') base ar w b (ac_archive_max_count a) (s @ content (th_msg_buf th)) \<and> wd_rotater wd' = wd_rotater wd"
proof -
  let ?m = "content (th_msg_buf th)" and ?fs = "wd_fs wd" and ?mx = "ac_archive_max_count a" and ?size = "ac_archive_max_size a"
  have tick: "ac_archive_max_size (fsync_tick a) = ?size" "ac_archive_max_count (fsync_tick a) = ?mx"
    "ac_archive_specs (fsync_tick a) = None" "ac_archive_path (fsync_tick a) = ac_archive_path a"
    using form(2) by (simp_all add: fsync_tick_def Let_def)
  obtain cs old where l: "holds_archives ?fs base ar w b cs" "s = old @ concat (rev cs) @ text_of ?fs base" "old = [] \<or> ?mx > 0 \<and> int (length cs) = ?mx"
    using logs by (auto simp: logs_def)
  have fsok: "fs_ok ?fs" using l(1) by (simp add: holds_archives_def archives_are_def)
  obtain fs1 where w1: "write_file io base ?m a ?fs = (0, fsync_tick a, fs1)" "fs_get fs1 = (fs_get ?fs)(base := Some (text_of ?fs base @ ?m))"
    "fs_ok fs1" "fs_dirs fs1 = fs_dirs ?fs" "length (fs_files fs1) \<le> Suc (length (fs_files ?fs))"
    using write_file_ok [OF io _ _ fsok, of base ?m a] room by (auto simp: roomy_def)
  have bytes: "msg_bytes th = Some ?m"
  proof (rule buf_wfE [OF th])
    fix d assume "b_start (th_msg_buf th) = Some d" "int (length d) = b_size_real (th_msg_buf th)" "0 \<le> b_tail (th_msg_buf th)"
      "b_tail (th_msg_buf th) < b_size_real (th_msg_buf th)"
    then show ?thesis by (simp add: msg_bytes_def mem_read_def zlog_buf_len_def content_def)
  qed
  have few: "length (fs_files fs1) + length (fs_dirs ?fs) < 2 ^ 30" using w1(5) room by (simp add: roomy_def)
  have arch: "holds_archives fs1 base ar w b cs" using archives_written [OF l(1) w1(2-4) few] .
  have get: "fs_get fs1 base = Some (text_of ?fs base @ ?m)" using w1(2) by simp
  define wd1 where "wd1 = wd\<lparr>wd_fs := fs1, wd_ino := (if fs_get ?fs base = None then (wd_ino wd)(base := io_ino io) else wd_ino wd)\<rparr>"
  have wd1: "wd_fs wd1 = fs1" "wd_rotater wd1 = wd_rotater wd" by (simp_all add: wd1_def)
  have step: "write_message io cx True base a th wd = rotate_if_large io cx base (int (length ?m)) (fsync_tick a) th wd1"
    by (simp add: write_message_def bytes w1(1) wd1_def)
  have same: "logs fs1 base ar w b ?mx (s @ ?m)"
    unfolding logs_def using arch l(2,3) get by (intro exI [of _ cs] exI [of _ old]) (simp add: text_of_def)
  have stat: "(if io_stat io base then None else fs_get (wd_fs wd1) base) = Some (text_of ?fs base @ ?m)"
    using io get by (simp add: wd1 all_written_def)
  consider "int (length ?m) > ?size mod 2 ^ 64 \<or> (int (length (text_of ?fs base @ ?m)) + int (length ?m)) mod 2 ^ 64 < ?size mod 2 ^ 64"
    | "\<not> (int (length ?m) > ?size mod 2 ^ 64)" "\<not> (int (length (text_of ?fs base @ ?m)) + int (length ?m)) mod 2 ^ 64 < ?size mod 2 ^ 64"
    by blast
  then show ?thesis
  proof cases
    case 1
    then have "rotate_if_large io cx base (int (length ?m)) (fsync_tick a) th wd1 = Some (0, fsync_tick a, th, wd1)"
      unfolding rotate_if_large_def stat tick by auto
    then show ?thesis using step same wd1 by simp
  next
    case 2
    have calm: "calm (io_os io)" using io by (simp add: all_written_def)
    have room1: "room_for fs1 ar w b (length cs)"
      using room_roomy [OF arch] room few by (simp add: roomy_def w1(4))
    let ?rot = "zlog_rotater_rotate (io_os io) (io_junk io) (wd_rotater wd) base (int (length ?m)) (Some (ac_archive_path a)) ?size ?mx fs1"
    have r: "rotate_if_large io cx base (int (length ?m)) (fsync_tick a) th wd1 =
        do { (rc, rot, fs) \<leftarrow> ?rot; Some (if rc \<noteq> 0 then -1 else 0, fsync_tick a, th, wd1\<lparr>wd_rotater := rot, wd_fs := fs, wd_ino := io_moved io\<rparr>) }"
      unfolding rotate_if_large_def stat using 2 by (simp add: tick zlog_rule_gen_archive_path_def wd1)
    show ?thesis
    proof (cases "?size mod 2 ^ 64 < (int (length (text_of ?fs base @ ?m)) + int (length ?m)) mod 2 ^ 64")
      case True
      obtain fs2 where f2: "?rot = Some (0, wd_rotater wd, fs2)" "holds_archives fs2 base ar w b (kept ?mx ((text_of ?fs base @ ?m) # cs))"
        "fs_get fs2 base = None"
        using roll_rotation [OF calm idle form(1) arch room1 get True, of "io_junk io" ?mx] by blast
      obtain old' where o: "old @ concat (rev ((text_of ?fs base @ ?m) # cs)) = old' @ concat (rev (kept ?mx ((text_of ?fs base @ ?m) # cs)))"
        "old' = [] \<or> ?mx > 0 \<and> int (length (kept ?mx ((text_of ?fs base @ ?m) # cs))) = ?mx"
        using kept_stream [OF l(3), of "text_of ?fs base @ ?m"] by blast
      have "logs fs2 base ar w b ?mx (s @ ?m)"
        unfolding logs_def using f2(2,3) o l(2) by (intro exI [of _ "kept ?mx ((text_of ?fs base @ ?m) # cs)"] exI [of _ old']) (simp add: text_of_def)
      then show ?thesis using step r f2(1) by (simp add: wd1_def)
    next
      case False
      have "?rot = Some (0, wd_rotater wd, fs1)" using rotate_small [OF calm idle get False] .
      then show ?thesis using step r same by (simp add: wd1_def)
    qed
  qed
qed


subsection \<open>A file that is kept open\<close>

text \<open>
  The descriptor is open on the inode that was seen last, when the name still stands for it. No two
  names stand for one inode.
\<close>

definition fd_ok :: "zlog_action \<Rightarrow> zlog_world \<Rightarrow> bool" where
  "fd_ok a wd \<longleftrightarrow> (fs_get (wd_fs wd) (ac_file_path a) \<noteq> None \<and> wd_ino wd (ac_file_path a) = ac_static_ino a \<longrightarrow>
     ac_static_fd a = Some (ac_static_ino a))"

definition own_inodes :: "zlog_world \<Rightarrow> bool" where
  "own_inodes wd \<longleftrightarrow> inj_on (wd_ino wd) (dom (fs_get (wd_fs wd)))"

lemma fs_get_fd_append:
  "fs_get (wd_fs (fd_append i s wd)) q = (if wd_ino wd q = i then map_option (\<lambda>c. c @ s) (fs_get (wd_fs wd) q) else fs_get (wd_fs wd) q)"
proof -
  have "map_of (map (\<lambda>f. if ino (fst f) = i then (fst f, snd f @ s) else f) xs) q =
      (if ino q = i then map_option (\<lambda>c. c @ s) (map_of xs q) else map_of xs q)" for ino :: "string \<Rightarrow> int \<times> int" and xs
    by (induction xs) auto
  then show ?thesis by (simp add: fs_get_def fd_append_def)
qed

lemma fd_append_ino [simp]: "wd_ino (fd_append i s wd) = wd_ino wd"
  by (simp add: fd_append_def)

lemma own_append:
  assumes own: "own_inodes wd" and p: "fs_get (wd_fs wd) p = Some c"
  shows "fs_get (wd_fs (fd_append (wd_ino wd p) s wd)) = (fs_get (wd_fs wd))(p := Some (c @ s))"
    "own_inodes (fd_append (wd_ino wd p) s wd)"
proof -
  have "wd_ino wd q = wd_ino wd p \<longleftrightarrow> q = p \<or> fs_get (wd_fs wd) q = None \<and> wd_ino wd q = wd_ino wd p" for q
    using own p by (auto simp: own_inodes_def inj_on_def dom_def)
  then show e: "fs_get (wd_fs (fd_append (wd_ino wd p) s wd)) = (fs_get (wd_fs wd))(p := Some (c @ s))"
    using p by (fastforce simp: fs_get_fd_append fun_eq_iff)
  have "dom (fs_get (wd_fs (fd_append (wd_ino wd p) s wd))) = dom (fs_get (wd_fs wd))" unfolding e using p by auto
  then show "own_inodes (fd_append (wd_ino wd p) s wd)" using own by (simp add: own_inodes_def)
qed

lemma single_appends:
  assumes io: "all_written io" and fd: "fd_ok a wd" and path: "ac_file_path a \<noteq> []" "ac_file_path a \<notin> set (fs_dirs (wd_fs wd))"
    and own: "own_inodes wd" "io_ino io \<notin> wd_ino wd ` dom (fs_get (wd_fs wd))"
    and gen: "zlog_format_gen_msg cx (ac_format a) th = Some (0, th')" and bytes: "msg_bytes th' = Some s"
  shows "\<exists>a' wd'. zlog_rule_output_static_file_single io cx a th wd = Some (0, a', th', wd') \<and>
    fs_get (wd_fs wd') = (fs_get (wd_fs wd))(ac_file_path a := Some (text_of (wd_fs wd) (ac_file_path a) @ s)) \<and>
    fd_ok a' wd' \<and> own_inodes wd' \<and> ac_file_path a' = ac_file_path a \<and> ac_static_fd a' = Some (wd_ino wd' (ac_file_path a))"
proof -
  let ?p = "ac_file_path a" and ?fs = "wd_fs wd"
  define there where "there = (fs_get ?fs ?p \<noteq> None)"
  define reload where "reload = (if there then wd_ino wd ?p \<noteq> ac_static_ino a else True)"
  have calm: "\<not> os_refuse (io_os io) q" "\<not> io_stat io q" "kernel_takes io x = Some x" for q x
    using io by (auto simp: all_written_def calm_def kernel_takes_def)
  define fs1 where "fs1 = (if there then ?fs else ?fs\<lparr>fs_files := (?p, []) # fs_files ?fs\<rparr>)"
  have o: "(if reload then open_append io ?p ?fs else Some ?fs) = Some fs1"
    using path calm(1) by (auto simp: open_append_def fs1_def there_def reload_def)
  define wd1 where "wd1 = wd\<lparr>wd_fs := fs1, wd_ino := (if there then wd_ino wd else (wd_ino wd)(?p := io_ino io))\<rparr>"
  define a1 where "a1 = (if reload then a\<lparr>ac_static_fd := Some (wd_ino wd1 ?p)\<rparr> else a)"
  define a2 where "a2 = (if reload then a1\<lparr>ac_static_ino := wd_ino wd1 ?p\<rparr> else a1)"
  have open2: "ac_static_fd a2 = Some (wd_ino wd1 ?p)" "ac_static_ino a2 = wd_ino wd1 ?p"
    using fd by (auto simp: a2_def a1_def wd1_def reload_def there_def fd_ok_def split: if_splits)
  have step: "zlog_rule_output_static_file_single io cx a th wd = Some (0, fsync_tick a2, th', fd_append (wd_ino wd1 ?p) s wd1)"
    unfolding zlog_rule_output_static_file_single_def gen bind.simps prod.case Let_def there_def [symmetric] reload_def [symmetric] o
      option.case wd1_def [symmetric] a1_def [symmetric] a2_def [symmetric] bytes
    by (simp add: calm open2)
  have g1: "fs_get (wd_fs wd1) = (fs_get ?fs)(?p := Some (text_of ?fs ?p))"
    by (auto simp: wd1_def fs1_def there_def fs_get_def text_of_def fun_eq_iff split: option.split)
  have own1: "own_inodes wd1"
  proof (cases there)
    case True
    then show ?thesis using own(1) by (simp add: wd1_def fs1_def own_inodes_def)
  next
    case False
    then have "dom (fs_get (wd_fs wd1)) = insert ?p (dom (fs_get ?fs))" "?p \<notin> dom (fs_get ?fs)" unfolding g1 by (auto simp: there_def)
    moreover have "\<forall>x \<in> dom (fs_get ?fs). wd_ino wd x \<noteq> io_ino io \<and> io_ino io \<noteq> wd_ino wd x" using own(2) by force
    ultimately show ?thesis using own(1) False by (simp add: own_inodes_def wd1_def inj_on_def)
  qed
  have "fs_get (wd_fs wd1) ?p = Some (text_of ?fs ?p)" using g1 by simp
  note app = own_append [OF own1 this, of s]
  have tick: "ac_static_fd (fsync_tick a2) = ac_static_fd a2" "ac_static_ino (fsync_tick a2) = ac_static_ino a2" "ac_file_path (fsync_tick a2) = ?p"
    by (auto simp: fsync_tick_def Let_def a2_def a1_def)
  show ?thesis using step app g1 open2 tick by (auto simp: fd_ok_def fun_eq_iff)
qed

subsection \<open>The limits of files\<close>

lemma dropWhile_stop: "list_all P xs \<Longrightarrow> \<not> P y \<Longrightarrow> dropWhile P (xs @ y # ys) = y # ys"
  by (induction xs) auto

lemma size_digits: "list_all limit_char (digits 10 n)"
  using digits10_all [of n] by (auto simp: list_all_iff limit_char_def)

lemma scan_limit_units:
  assumes "u \<in> {[], ''B'', ''K'', ''KB'', ''M'', ''MB''}" "k < 2 ^ 31"
  shows "scan_limit (digits 10 n @ u @ '' * '' @ digits 10 k) = (2, digits 10 n @ u, int k)"
proof -
  obtain c cs where c: "digits 10 n = c # cs" "is_digit c" using digits10_hd by blast
  have u: "list_all limit_char u" using assms(1) by (auto simp: limit_char_def)
  have sp: "is_space (CHR '' '')" "\<not> limit_char (CHR '' '')" "\<not> is_space (CHR ''*'')"
    by (simp_all add: is_space_def limit_char_def is_digit_def cnum_def)
  have d: "dropWhile is_space (digits 10 n @ u @ '' * '' @ digits 10 k) = digits 10 n @ u @ '' * '' @ digits 10 k"
    using c digit_not_special [of c] by simp
  have a: "list_all limit_char (digits 10 n @ u)" using size_digits u by simp
  have t: "takeWhile limit_char ((digits 10 n @ u) @ CHR '' '' # ''* '' @ digits 10 k) = digits 10 n @ u"
    "dropWhile limit_char ((digits 10 n @ u) @ CHR '' '' # ''* '' @ digits 10 k) = CHR '' '' # ''* '' @ digits 10 k"
    using takeWhile_stop [OF a sp(2)] dropWhile_stop [OF a sp(2)] by simp_all
  obtain e es where e: "digits 10 k = e # es" "is_digit e" using digits10_hd by blast
  have i: "scan_int (CHR '' '' # digits 10 k) = Some (int k, Suc (length (digits 10 k)))"
    using read_digits [OF digits10_nonempty digits10_all, of "[]" k] digits10_value [of k] assms(2) sp(1) e digit_not_special [of e]
    by (simp add: scan_int_def i32_id)
  show ?thesis unfolding scan_limit_def Let_def d using t sp c i by (simp add: e)
qed


definition unit_of :: "string \<Rightarrow> int" where
  "unit_of u = (if u = ''K'' then 1000 else if u = ''KB'' then 1024 else if u = ''M'' then 1000000 else if u = ''MB'' then 1048576
     else if u = ''G'' then 1000000000 else if u = ''GB'' then 1073741824 else 1)"

lemma byte_size_units:
  assumes "u \<in> {[], ''B'', ''K'', ''KB'', ''M'', ''MB'', ''G'', ''GB''}" "0 < n" "n < 2 ^ 33"
  shows "zc_parse_byte_size (digits 10 n @ u) = Some (int n * unit_of u)"
proof -
  let ?ds = "digits 10 n"
  have sp: "\<not> is_space c" if "c \<in> set ?ds" for c using digits10_are_digits [OF that] digit_not_special by blast
  have us: "\<not> is_space c" if "c \<in> set u" for c using that assms(1) by (auto simp: is_space_def cnum_def)
  have f: "filter (\<lambda>c. \<not> is_space c) (?ds @ u) = ?ds @ u" using sp us by (simp add: filter_id_conv)
  have u: "u = [] \<or> \<not> is_digit (hd u)" using assms(1) by (auto simp: is_digit_def cnum_def)
  have r: "scan_long (?ds @ u) = int n"
    using scan_digits [OF digits10_nonempty digits10_all u, of n n] digits10_value [of n] assms(3) by simp
  have l: "is_digit (last ?ds)" using digits10_are_digits [OF last_in_set [OF digits10_nonempty]] .
  have "is_digit c \<Longrightarrow> c \<notin> set ''BbKkMmGg''" for c by (auto simp: is_digit_def cnum_def)
  from this [OF l] have ld: "last ?ds \<notin> set ''BbKkMmGg''" .
  have n1: "(?ds @ [x]) ! (length ?ds - 1) = last ?ds" for x
    using digits10_nonempty [of n] by (simp add: nth_append last_conv_nth)
  have big: "int n * m < 9223372036854775808" if "m \<le> 1073741824" for m :: int
  proof -
    have "int n * m \<le> int n * 1073741824" using that by (intro mult_left_mono) auto
    then show ?thesis using assms(3) by simp
  qed
  have v: "zc_parse_byte_size (?ds @ u) =
      (let kilo = (last (?ds @ u) = CHR ''B'' \<or> last (?ds @ u) = CHR ''b'');
           c = (if kilo then (?ds @ u) ! (length (?ds @ u) - 2) else last (?ds @ u)); m = (if kilo then 1024 else 1000);
           x = (if c = CHR ''K'' \<or> c = CHR ''k'' then int n * m
                 else if c = CHR ''M'' \<or> c = CHR ''m'' then int n * (m * m)
                 else if c = CHR ''G'' \<or> c = CHR ''g'' then int n * (m * m * m)
                 else int n) in if x < 2 ^ 63 then Some x else None)"
    using assms(2) unfolding zc_parse_byte_size_def f r Let_def by simp
  have bigs: "n < 9223372036854775808" "int n < 9223372036854775808" "int n * 1000 < 9223372036854775808" "int n * 1024 < 9223372036854775808"
    "int n * 1000000 < 9223372036854775808" "int n * 1048576 < 9223372036854775808" "int n * 1000000000 < 9223372036854775808"
    "int n * 1073741824 < 9223372036854775808" using big [of 1] big by auto
  have lds: "last ?ds \<noteq> CHR ''B''" "last ?ds \<noteq> CHR ''b''" "last ?ds \<noteq> CHR ''K''" "last ?ds \<noteq> CHR ''k''" "last ?ds \<noteq> CHR ''M''"
    "last ?ds \<noteq> CHR ''m''" "last ?ds \<noteq> CHR ''G''" "last ?ds \<noteq> CHR ''g''" using ld by auto
  show ?thesis using assms(1) v
    by (elim insertE emptyE) (simp_all add: unit_of_def Let_def n1 lds bigs del: One_nat_def)
qed

lemma scan_limit_giga: "scan_limit (digits 10 n @ CHR ''G'' # r) = (1, digits 10 n, 0)"
proof -
  obtain c cs where c: "digits 10 n = c # cs" "is_digit c" using digits10_hd by blast
  have sp: "\<not> limit_char (CHR ''G'')" "\<not> is_space (CHR ''G'')" by (simp_all add: is_space_def limit_char_def is_digit_def cnum_def)
  have "takeWhile limit_char (digits 10 n @ CHR ''G'' # r) = digits 10 n" "dropWhile limit_char (digits 10 n @ CHR ''G'' # r) = CHR ''G'' # r"
    using takeWhile_stop [OF size_digits sp(1)] dropWhile_stop [OF size_digits sp(1)] by auto
  moreover have "dropWhile is_space (digits 10 n @ CHR ''G'' # r) = digits 10 n @ CHR ''G'' # r" using c digit_not_special [of c] by simp
  ultimately show ?thesis unfolding scan_limit_def Let_def using sp(2) c(1) by simp
qed

lemma no_archive_path:
  assumes "CHR 0x22 \<notin> set s"
  shows "strchr_from (CHR 0x22) s = None"
proof -
  have "dropWhile (\<lambda>c. c \<noteq> CHR 0x22) s = []" using assms unfolding dropWhile_eq_Nil_conv by auto
  then show ?thesis unfolding strchr_from_def by (simp only: list.case)
qed

lemma digits_no_quote: "CHR 0x22 \<notin> set (digits 10 n)"
proof
  assume "CHR 0x22 \<in> set (digits 10 n)"
  then have "is_digit (CHR 0x22)" by (rule digits10_are_digits)
  then show False by (simp add: is_digit_def cnum_def)
qed

lemma limit_read:
  assumes "u \<in> {[], ''B'', ''K'', ''KB'', ''M'', ''MB''}" "0 < n" "n < 2 ^ 33" "k < 2 ^ 31"
  shows "parse_limit junk getenv io (digits 10 n @ u @ '' * '' @ digits 10 k) a cnt =
    Some (Some (a\<lparr>ac_archive_max_size := int n * unit_of u, ac_archive_max_count := int k\<rparr>), cnt)"
proof -
  have "strchr_from (CHR 0x22) (digits 10 n @ u @ '' * '' @ digits 10 k) = None"
    using assms(1) digits_no_quote by (intro no_archive_path) auto
  moreover have "zc_parse_byte_size (digits 10 n @ u) = Some (int n * unit_of u)" using byte_size_units assms(1-3) by blast
  ultimately show ?thesis unfolding parse_limit_def scan_limit_units [OF assms(1,4)] by simp
qed

lemma limit_giga:
  assumes "0 < n" "n < 2 ^ 33" "CHR 0x22 \<notin> set r"
  shows "parse_limit junk getenv io (digits 10 n @ CHR ''G'' # r) a cnt =
    Some (Some (a\<lparr>ac_archive_max_size := int n, ac_archive_max_count := 0\<rparr>), cnt)"
proof -
  have "strchr_from (CHR 0x22) (digits 10 n @ CHR ''G'' # r) = None"
    using assms(3) digits_no_quote by (intro no_archive_path) auto
  moreover have "zc_parse_byte_size (digits 10 n) = Some (int n)" using byte_size_units [of "[]" n] assms(1,2) by (simp add: unit_of_def)
  ultimately show ?thesis unfolding parse_limit_def scan_limit_giga by simp
qed


subsection \<open>Properties\<close>

lemma line_generated:
  assumes "used lt sf fmts th" "system_ok lt sf cx" "pattern_ok its" "list_all (item_defined cx th) its"
    "caches_hold th fmts cnt (time_fmts its)" "al_items (fm_pattern_specs f) = map Some (specs_of its cnt)"
  shows "\<exists>th'. zlog_format_gen_msg cx f th =
      Some (if text_fits (b_size_max (th_msg_buf th)) (line_text cx th its) then 0 else -1, th') \<and> used lt sf fmts th' \<and>
    buf_wf (th_msg_buf th') \<and> (text_fits (b_size_max (th_msg_buf th)) (line_text cx th its) \<longrightarrow> content (th_msg_buf th') = line_text cx th its)"
proof -
  have d: "specs_defined cx fmts th (specs_of its cnt)" using line_defined assms(3-5) .
  have a: "alloc_all cx" using assms(2) by (simp add: system_ok_def)
  from format_gen_msg_ok [OF a used_ok [OF assms(1,2)] d assms(6)] used_gen [OF assms(1,2,6) d]
  show ?thesis unfolding line_message [OF assms(3)] by (auto simp: thread_ok_def kept_text_def text_fits_def)
qed

lemma bytes_content:
  assumes "buf_wf (th_msg_buf th)"
  shows "msg_bytes th = Some (content (th_msg_buf th))"
proof (rule buf_wfE [OF assms])
  fix d assume "b_start (th_msg_buf th) = Some d" "int (length d) = b_size_real (th_msg_buf th)" "0 \<le> b_tail (th_msg_buf th)"
    "b_tail (th_msg_buf th) < b_size_real (th_msg_buf th)"
  then show ?thesis by (simp add: msg_bytes_def mem_read_def zlog_buf_len_def content_def)
qed

text \<open>
  C20: logging to a file that is rotated by rolling, with a fixed path for its archives or none, refines
  appending to one text. The archives and the file together hold the stream of the messages, in
  order; a message that fits its buffer is appended to it, whether the file is rotated or not,
  and what was written is lost only from the oldest end, when the configured number of archives is
  full. A message that does not fit its buffer is reported and never enters the stream.
\<close>

theorem log_stream:
  assumes line: "used lt sf fmts th" "system_ok lt sf cx" "pattern_ok its" "list_all (item_defined cx th) its"
      "caches_hold th fmts cnt (time_fmts its)" "al_items (fm_pattern_specs (ac_format a)) = map Some (specs_of its cnt)"
    and out: "ac_output a = Static_rotate" "archive_form ROLLING (ac_file_path a) ar w b (ac_archive_path a)" "ac_archive_specs a = None"
    and io: "all_written io" "idle (wd_rotater wd)" "roomy (wd_fs wd) (ac_file_path a) ar w b"
    and logs: "logs (wd_fs wd) (ac_file_path a) ar w b (ac_archive_max_count a) s"
  shows "\<exists>th'. used lt sf fmts th' \<and>
    (if text_fits (b_size_max (th_msg_buf th)) (line_text cx th its)
     then \<exists>wd'. action_output io cx a th wd = Some (0, fsync_tick a, th', wd') \<and>
       logs (wd_fs wd') (ac_file_path a) ar w b (ac_archive_max_count a) (s @ line_text cx th its) \<and> wd_rotater wd' = wd_rotater wd
     else action_output io cx a th wd = Some (-1, a, th', wd))"
proof -
  obtain th' where th': "zlog_format_gen_msg cx (ac_format a) th =
      Some (if text_fits (b_size_max (th_msg_buf th)) (line_text cx th its) then 0 else -1, th')" "used lt sf fmts th'"
    "buf_wf (th_msg_buf th')" "text_fits (b_size_max (th_msg_buf th)) (line_text cx th its) \<longrightarrow> content (th_msg_buf th') = line_text cx th its"
    using line_generated [OF line] by blast
  obtain wd' where wd': "write_message io cx True (ac_file_path a) a th' wd = Some (0, fsync_tick a, th', wd')"
    "logs (wd_fs wd') (ac_file_path a) ar w b (ac_archive_max_count a) (s @ content (th_msg_buf th'))" "wd_rotater wd' = wd_rotater wd"
    using write_message_streams [OF io(1) th'(3) io(2) out(2,3) io(3) logs, of cx] by blast
  show ?thesis
  proof (cases "text_fits (b_size_max (th_msg_buf th)) (line_text cx th its)")
    case True
    then show ?thesis using th' wd'
      by (intro exI [of _ th']) (simp add: action_output_def out(1) zlog_rule_output_static_file_rotate_def)
  next
    case False
    then show ?thesis using th'
      by (intro exI [of _ th']) (simp add: action_output_def out(1) zlog_rule_output_static_file_rotate_def)
  qed
qed

definition demo_io :: zlog_io where
  "demo_io = \<lparr>io_os = calm_os, io_junk = \<lambda>_. None, io_write = \<lambda>s. int (length s), io_close = True, io_stat = \<lambda>_. False, io_ino = (1, 99), io_moved = \<lambda>_. (1, 7)\<rparr>"

definition demo_world :: zlog_world where
  "demo_world = \<lparr>wd_fs = sample_fs, wd_ino = \<lambda>_. (1, 7), wd_rotater = idle_rotater, wd_sent = []\<rparr>"

lemma demo_io: "all_written demo_io"
  using calm_os by (simp add: all_written_def demo_io_def)

lemma demo_format: "\<exists>f :: zlog_format. al_items (fm_pattern_specs f) = map Some (specs_of demo_items 0)"
  using format_read [OF demo_items(1-4), of "\<lambda>_. True" "\<lambda>_. None" "\<lambda>_. None" 0] by (simp add: LINE_SIZE_def) blast

lemma demo_system: "system_ok (\<lambda>_. []) (\<lambda>_ _. ''22'') demo_cx"
  by (simp add: system_ok_def demo_cx_def alloc_all_def)

lemma demo_fits: "text_fits (b_size_max (th_msg_buf demo_thread)) (line_text demo_cx demo_thread demo_items)"
  unfolding demo_line(3) demo_thread_simps demo_msg_buf by (simp add: text_fits_def)

definition demo_action :: "output_fn \<Rightarrow> zlog_format \<Rightarrow> zlog_action" where
  "demo_action out f = (new_action 0 f)\<lparr>ac_output := out, ac_file_path := ''aa'', ac_archive_max_size := 30\<rparr>"

theorem log_stream_witness:
  "\<exists>f a' th' wd'. action_output demo_io demo_cx (demo_action Static_rotate f) demo_thread demo_world = Some (0, a', th', wd') \<and>
    logs (wd_fs wd') ''aa'' ''aa.'' 0 [] 0 ''oldnew22 WARN : disk full''"
proof -
  obtain f :: zlog_format where f: "al_items (fm_pattern_specs f) = map Some (specs_of demo_items 0)" using demo_format by blast
  let ?a = "demo_action Static_rotate f"
  have a: "fm_pattern_specs (ac_format ?a) = fm_pattern_specs f" "ac_output ?a = Static_rotate" "ac_file_path ?a = ''aa''"
    "ac_archive_path ?a = []" "ac_archive_specs ?a = None" "ac_archive_max_count ?a = 0" by (simp_all add: demo_action_def new_action_def)
  have specs: "al_items (fm_pattern_specs (ac_format ?a)) = map Some (specs_of demo_items 0)" using f by (simp add: a)
  have form: "archive_form ROLLING (ac_file_path ?a) ''aa.'' 0 [] (ac_archive_path ?a)"
    by (simp add: a archive_form_def plain_def PATH_SIZE_def)
  have w: "wd_fs demo_world = sample_fs" "wd_rotater demo_world = idle_rotater" by (simp_all add: demo_world_def)
  have room: "roomy (wd_fs demo_world) (ac_file_path ?a) ''aa.'' 0 []" unfolding w a roomy_def by (simp add: sample_fs_def PATH_SIZE_def)
  have "holds_archives sample_fs ''aa'' ''aa.'' 0 [] [''old''] \<and> ''oldnew'' = [] @ concat (rev [''old'']) @ text_of sample_fs ''aa''"
    using sample_fs(1) by (simp add: text_of_def fs_get_def sample_fs_def)
  then have logs: "logs (wd_fs demo_world) (ac_file_path ?a) ''aa.'' 0 [] (ac_archive_max_count ?a) ''oldnew''"
    unfolding w a logs_def by blast
  have idle: "idle (wd_rotater demo_world)" using idle_rotater by (simp add: w)
  from log_stream [OF demo_used demo_system demo_items(1) demo_line(1,2) specs a(2) form a(5) demo_io idle room logs] demo_fits
  show ?thesis unfolding a demo_line(3) by auto
qed

text \<open>
  C21: a file that is kept open follows its name. Each message that fits is appended to the file that has
  the name when it is written, and to no other: if the file was moved away or replaced since, what it was moved
  to gets nothing, and the descriptor is opened again, on the file that has the name now or a new one.
\<close>

theorem static_file_follows:
  assumes "used lt sf fmts th" "system_ok lt sf cx" "pattern_ok its" "list_all (item_defined cx th) its"
      "caches_hold th fmts cnt (time_fmts its)" "al_items (fm_pattern_specs (ac_format a)) = map Some (specs_of its cnt)"
    and "text_fits (b_size_max (th_msg_buf th)) (line_text cx th its)"
    and "ac_output a = Static_single" "ac_file_path a \<noteq> []" "ac_file_path a \<notin> set (fs_dirs (wd_fs wd))" "all_written io" "fd_ok a wd"
    and "own_inodes wd" "io_ino io \<notin> wd_ino wd ` dom (fs_get (wd_fs wd))"
  shows "\<exists>a' th' wd'. action_output io cx a th wd = Some (0, a', th', wd') \<and> used lt sf fmts th' \<and> fd_ok a' wd' \<and> own_inodes wd' \<and>
    ac_static_fd a' = Some (wd_ino wd' (ac_file_path a)) \<and>
    fs_get (wd_fs wd') = (fs_get (wd_fs wd))(ac_file_path a := Some (text_of (wd_fs wd) (ac_file_path a) @ line_text cx th its))"
proof -
  obtain th' where th': "zlog_format_gen_msg cx (ac_format a) th = Some (0, th')" "used lt sf fmts th'" "msg_bytes th' = Some (line_text cx th its)"
    using line_generated [OF assms(1-6)] bytes_content assms(7) by auto
  from single_appends [OF assms(11,12,9,10,13,14) th'(1,3)] th'(2) show ?thesis
    by (auto simp: action_output_def assms(8))
qed

text \<open>The file \<open>aa\<close> was moved to \<open>bb\<close>, where the descriptor is still open, and made anew.\<close>

definition moved_world :: zlog_world where
  "moved_world = \<lparr>wd_fs = \<lparr>fs_files = [(''aa'', ''new''), (''bb'', ''old'')], fs_dirs = []\<rparr>,
     wd_ino = (\<lambda>p. if p = ''bb'' then (1, 7) else (1, 8)), wd_rotater = idle_rotater, wd_sent = []\<rparr>"

definition open_action :: "zlog_format \<Rightarrow> zlog_action" where
  "open_action f = (demo_action Static_single f)\<lparr>ac_static_fd := Some (1, 7), ac_static_ino := (1, 7)\<rparr>"

theorem static_file_follows_witness:
  "\<exists>f a' th' wd'. action_output demo_io demo_cx (open_action f) demo_thread moved_world = Some (0, a', th', wd') \<and>
    ac_static_fd a' = Some (wd_ino wd' ''aa'') \<and> fs_get (wd_fs wd') ''aa'' = Some ''new22 WARN : disk full'' \<and> fs_get (wd_fs wd') ''bb'' = Some ''old''"
proof -
  obtain f :: zlog_format where f: "al_items (fm_pattern_specs f) = map Some (specs_of demo_items 0)" using demo_format by blast
  let ?a = "open_action f"
  have a: "al_items (fm_pattern_specs (ac_format ?a)) = map Some (specs_of demo_items 0)" "ac_output ?a = Static_single"
    "ac_file_path ?a \<noteq> []" "ac_file_path ?a = ''aa''" using f by (simp_all add: open_action_def demo_action_def new_action_def)
  have g: "fs_get (wd_fs moved_world) = [''aa'' \<mapsto> ''new'', ''bb'' \<mapsto> ''old'']" by (simp add: moved_world_def fs_get_def fun_eq_iff)
  have w: "ac_file_path ?a \<notin> set (fs_dirs (wd_fs moved_world))" "fd_ok ?a moved_world" "text_of (wd_fs moved_world) ''aa'' = ''new''"
    unfolding fd_ok_def text_of_def g a(4) by (simp_all add: moved_world_def open_action_def)
  have i: "own_inodes moved_world" "io_ino demo_io \<notin> wd_ino moved_world ` dom (fs_get (wd_fs moved_world))"
    unfolding own_inodes_def g by (auto simp: moved_world_def demo_io_def inj_on_def)
  obtain a' th' wd' where r: "action_output demo_io demo_cx ?a demo_thread moved_world = Some (0, a', th', wd')"
    "ac_static_fd a' = Some (wd_ino wd' ''aa'')"
    "fs_get (wd_fs wd') = (fs_get (wd_fs moved_world))(''aa'' := Some (''new'' @ ''22 WARN : disk full''))"
    using static_file_follows [OF demo_used demo_system demo_items(1) demo_line(1,2) a(1) demo_fits a(2,3) w(1) demo_io w(2) i]
    unfolding a(4) demo_line(3) w(3) by blast
  then show ?thesis unfolding g by (intro exI [of _ f] exI [of _ a'] exI [of _ th'] exI [of _ wd']) simp
qed

text \<open>
  C22: the limit of a file. A size in bytes, kilobytes or megabytes and the number of archives are read as
  written; a size in gigabytes, which \<open>zc_parse_byte_size\<close> knows and the documentation uses, is read
  as so many bytes, and the number of archives is lost.
\<close>

theorem limit_units:
  assumes "0 < n" "n < 2 ^ 33" "k < 2 ^ 31"
  shows "list_all (\<lambda>u. parse_limit junk getenv io (digits 10 n @ u @ '' * '' @ digits 10 k) a cnt =
      Some (Some (a\<lparr>ac_archive_max_size := int n * unit_of u, ac_archive_max_count := int k\<rparr>), cnt))
      [[], ''B'', ''K'', ''KB'', ''M'', ''MB''] \<and>
    list_all (\<lambda>u. parse_limit junk getenv io (digits 10 n @ u @ '' * '' @ digits 10 k) a cnt =
      Some (Some (a\<lparr>ac_archive_max_size := int n, ac_archive_max_count := 0\<rparr>), cnt) \<and>
      zc_parse_byte_size (digits 10 n @ u) = Some (int n * unit_of u)) [''G'', ''GB'']"
proof -
  have q: "CHR 0x22 \<notin> set ('' * '' @ digits 10 k)" "CHR 0x22 \<notin> set (''B * '' @ digits 10 k)" using digits_no_quote by auto
  show ?thesis unfolding list_all_iff
  proof (intro conjI ballI)
    fix u assume "u \<in> set [[], ''B'', ''K'', ''KB'', ''M'', ''MB'']"
    then have "u \<in> {[], ''B'', ''K'', ''KB'', ''M'', ''MB''}" by simp
    then show "parse_limit junk getenv io (digits 10 n @ u @ '' * '' @ digits 10 k) a cnt =
      Some (Some (a\<lparr>ac_archive_max_size := int n * unit_of u, ac_archive_max_count := int k\<rparr>), cnt)" using limit_read assms by blast
  next
    fix u assume "u \<in> set [''G'', ''GB'']"
    then have "u = ''G'' \<or> u = ''GB''" by simp
    then show "parse_limit junk getenv io (digits 10 n @ u @ '' * '' @ digits 10 k) a cnt =
      Some (Some (a\<lparr>ac_archive_max_size := int n, ac_archive_max_count := 0\<rparr>), cnt)"
      using limit_giga [OF assms(1,2) q(1), of junk getenv io a cnt] limit_giga [OF assms(1,2) q(2), of junk getenv io a cnt] by auto
  next
    fix u assume "u \<in> set [''G'', ''GB'']"
    then have "u \<in> {[], ''B'', ''K'', ''KB'', ''M'', ''MB'', ''G'', ''GB''}" by simp
    then show "zc_parse_byte_size (digits 10 n @ u) = Some (int n * unit_of u)" using byte_size_units assms(1,2) by blast
  qed
qed

theorem limit_units_witness:
  "\<forall>f. parse_limit (\<lambda>_. None) (\<lambda>_. None) demo_io ''1GB * 5'' (new_action 0 f) 0 =
     Some (Some ((new_action 0 f)\<lparr>ac_archive_max_size := 1, ac_archive_max_count := 0\<rparr>), 0)"
proof
  fix f
  have d: "digits 10 1 = ''1''" "digits 10 5 = ''5''" by (subst digits10_step, simp add: hex_def)+
  have b: "0 < (1 :: nat)" "1 < (2 ^ 33 :: nat)" "5 < (2 ^ 31 :: nat)" by simp_all
  from limit_units [OF b, of "\<lambda>_. None" "\<lambda>_. None" demo_io "new_action 0 f" 0, THEN conjunct2]
  have "parse_limit (\<lambda>_. None) (\<lambda>_. None) demo_io (digits 10 1 @ ''GB'' @ '' * '' @ digits 10 5) (new_action 0 f) 0 =
     Some (Some ((new_action 0 f)\<lparr>ac_archive_max_size := int 1, ac_archive_max_count := 0\<rparr>), 0)"
    by simp
  then show "parse_limit (\<lambda>_. None) (\<lambda>_. None) demo_io ''1GB * 5'' (new_action 0 f) 0 =
     Some (Some ((new_action 0 f)\<lparr>ac_archive_max_size := 1, ac_archive_max_count := 0\<rparr>), 0)" unfolding d by simp
qed

text \<open>An unknown facility is not refused: the code for the ones without a comparison returns first.\<close>

lemma facility_never_refused: "syslog_facility_atoi (Some f) \<noteq> -187"
  by (simp add: syslog_facility_atoi_def)

end
