(* ===== verification/Uv_Heap.thy ===== *)
theory Uv_Heap
  imports Prelude "HOL-Library.Monad_Syntax"
begin

section \<open>The timer heap of the event loop\<close>

text \<open>
  The binary min heap of \<open>src/deps/libuv/src/heap-inl.h\<close>, pointer by pointer. A node is a
  number (its address); the fields \<open>left\<close>, \<open>right\<close> and \<open>parent\<close> of all nodes are functions of
  the heap's state, a null pointer is \<^const>\<open>None\<close>. \<open>&heap->min\<close>, \<open>&node->left\<close> and
  \<open>&node->right\<close> are locations. Following a null pointer is the result \<^const>\<open>None\<close>. The loops
  that swap a node up or down are partial: that they end is proved.
\<close>

record heap =
  h_min :: "nat option"
  h_nelts :: nat
  h_left :: "nat \<Rightarrow> nat option"
  h_right :: "nat \<Rightarrow> nat option"
  h_parent :: "nat \<Rightarrow> nat option"

definition heap_init :: "heap \<Rightarrow> heap" where
  "heap_init h = h\<lparr>h_min := None, h_nelts := 0\<rparr>"

definition heap_min :: "heap \<Rightarrow> nat option" where
  "heap_min h = h_min h"

definition set_left :: "nat \<Rightarrow> nat option \<Rightarrow> heap \<Rightarrow> heap" where
  "set_left x v h = h\<lparr>h_left := (h_left h)(x := v)\<rparr>"

definition set_right :: "nat \<Rightarrow> nat option \<Rightarrow> heap \<Rightarrow> heap" where
  "set_right x v h = h\<lparr>h_right := (h_right h)(x := v)\<rparr>"

definition set_parent :: "nat \<Rightarrow> nat option \<Rightarrow> heap \<Rightarrow> heap" where
  "set_parent x v h = h\<lparr>h_parent := (h_parent h)(x := v)\<rparr>"

text \<open>\<open>if (p != NULL) p->parent = v\<close>.\<close>

definition set_parent_of :: "nat option \<Rightarrow> nat option \<Rightarrow> heap \<Rightarrow> heap" where
  "set_parent_of p v h = (case p of None \<Rightarrow> h | Some x \<Rightarrow> set_parent x v h)"

text \<open>\<open>t = *a; *a = *b; *b = t\<close>.\<close>

definition swap_structs :: "nat \<Rightarrow> nat \<Rightarrow> heap \<Rightarrow> heap" where
  "swap_structs a b h = h\<lparr>h_left := (h_left h)(a := h_left h b, b := h_left h a),
     h_right := (h_right h)(a := h_right h b, b := h_right h a),
     h_parent := (h_parent h)(a := h_parent h b, b := h_parent h a)\<rparr>"

text \<open>The node above is made to point to \<open>new\<close> where it pointed to \<open>old\<close>.\<close>

definition relink :: "nat option \<Rightarrow> nat \<Rightarrow> nat \<Rightarrow> heap \<Rightarrow> heap" where
  "relink up old new h = (case up of None \<Rightarrow> h\<lparr>h_min := Some new\<rparr>
     | Some g \<Rightarrow> if h_left h g = Some old then set_left g (Some new) h else set_right g (Some new) h)"

definition heap_node_swap :: "nat \<Rightarrow> nat \<Rightarrow> heap \<Rightarrow> heap" where
  "heap_node_swap parent child h =
     (let h = swap_structs parent child h;
          h = set_parent parent (Some child) h;
          (h, sibling) = (if h_left h child = Some child
                          then (set_left child (Some parent) h, h_right h child)
                          else (set_right child (Some parent) h, h_left h child));
          h = set_parent_of sibling (Some child) h;
          h = set_parent_of (h_left h parent) (Some parent) h;
          h = set_parent_of (h_right h parent) (Some parent) h
      in relink (h_parent h child) parent child h)"

text \<open>The path from the root to a place in the bottom row: \<open>path\<close> and its length \<open>k\<close>.\<close>

fun heap_path :: "nat \<Rightarrow> nat \<Rightarrow> nat \<Rightarrow> nat \<times> nat" where
  "heap_path n path k = (if n \<ge> 2 then heap_path (n div 2) ((2 * path + n mod 2) mod 2 ^ 32) (k + 1) else (path, k))"

declare heap_path.simps [simp del]

datatype loc = Min | LeftOf nat | RightOf nat

primrec load :: "loc \<Rightarrow> heap \<Rightarrow> nat option" where
  "load Min h = h_min h"
| "load (LeftOf x) h = h_left h x"
| "load (RightOf x) h = h_right h x"

primrec store :: "loc \<Rightarrow> nat option \<Rightarrow> heap \<Rightarrow> heap" where
  "store Min v h = h\<lparr>h_min := v\<rparr>"
| "store (LeftOf x) v h = set_left x v h"
| "store (RightOf x) v h = set_right x v h"

fun heap_walk :: "nat \<Rightarrow> nat \<Rightarrow> loc \<Rightarrow> loc \<Rightarrow> heap \<Rightarrow> (loc \<times> loc) option" where
  "heap_walk 0 path parent child h = Some (parent, child)"
| "heap_walk (Suc k) path parent child h = do {
     x \<leftarrow> load child h;
     heap_walk k (path div 2) child (if odd path then RightOf x else LeftOf x) h
   }"

partial_function (option) heap_up :: "(nat \<Rightarrow> nat \<Rightarrow> bool) \<Rightarrow> nat \<Rightarrow> heap \<Rightarrow> heap option" where
  "heap_up lt x h = (case h_parent h x of
     None \<Rightarrow> Some h
   | Some p \<Rightarrow> if lt x p then heap_up lt x (heap_node_swap p x h) else Some h)"

declare heap_up.simps [code]

definition smallest_child :: "(nat \<Rightarrow> nat \<Rightarrow> bool) \<Rightarrow> nat \<Rightarrow> heap \<Rightarrow> nat" where
  "smallest_child lt x h =
     (let s = x;
          s = (case h_left h x of None \<Rightarrow> s | Some l \<Rightarrow> if lt l s then l else s)
      in (case h_right h x of None \<Rightarrow> s | Some r \<Rightarrow> if lt r s then r else s))"

partial_function (option) heap_down :: "(nat \<Rightarrow> nat \<Rightarrow> bool) \<Rightarrow> nat \<Rightarrow> heap \<Rightarrow> heap option" where
  "heap_down lt x h =
     (let s = smallest_child lt x h in
      if s = x then Some h else heap_down lt x (heap_node_swap x s h))"

declare heap_down.simps [code]

definition heap_insert :: "(nat \<Rightarrow> nat \<Rightarrow> bool) \<Rightarrow> nat \<Rightarrow> heap \<Rightarrow> heap option" where
  "heap_insert lt newnode h = do {
     let h = set_parent newnode None (set_right newnode None (set_left newnode None h));
     let (path, k) = heap_path ((1 + h_nelts h) mod 2 ^ 32) 0 0;
     (parent, child) \<leftarrow> heap_walk k path Min Min h;
     let h = set_parent newnode (load parent h) h;
     let h = store child (Some newnode) h;
     let h = h\<lparr>h_nelts := (h_nelts h + 1) mod 2 ^ 32\<rparr>;
     heap_up lt newnode h
   }"

text \<open>Putting a node that is not in the tree in the place of one that is.\<close>

definition replace_node :: "nat \<Rightarrow> nat \<Rightarrow> heap \<Rightarrow> heap" where
  "replace_node node child h =
     (let h = set_left child (h_left h node) h;
          h = set_right child (h_right h node) h;
          h = set_parent child (h_parent h node) h;
          h = set_parent_of (h_left h child) (Some child) h;
          h = set_parent_of (h_right h child) (Some child) h
      in relink (h_parent h node) node child h)"

definition heap_remove :: "(nat \<Rightarrow> nat \<Rightarrow> bool) \<Rightarrow> nat \<Rightarrow> heap \<Rightarrow> heap option" where
  "heap_remove lt node h =
     (if h_nelts h = 0 then Some h
      else do {
        let (path, k) = heap_path (h_nelts h) 0 0;
        (_, max) \<leftarrow> heap_walk k path Min Min h;
        let h = h\<lparr>h_nelts := h_nelts h - 1\<rparr>;
        let child_ptr = load max h;
        let h = store max None h;
        if child_ptr = Some node then
          Some (if child_ptr = h_min h then h\<lparr>h_min := None\<rparr> else h)
        else do {
          child \<leftarrow> child_ptr;
          let h = replace_node node child h;
          h \<leftarrow> heap_down lt child h;
          heap_up lt child h
        }
      })"

definition heap_dequeue :: "(nat \<Rightarrow> nat \<Rightarrow> bool) \<Rightarrow> heap \<Rightarrow> heap option" where
  "heap_dequeue lt h = (if h_nelts h = 0 then Some h
     else do { x \<leftarrow> h_min h; heap_remove lt x h })"

subsection \<open>The complete tree behind the pointers\<close>

text \<open>
  The \<open>n\<close> nodes are numbered from 1, row by row: node \<open>m\<close> has the children \<open>2m\<close> and
  \<open>2m + 1\<close> and the parent \<open>m div 2\<close>. \<open>a m\<close> is the address of node \<open>m\<close>.
\<close>

definition at :: "(nat \<Rightarrow> nat) \<Rightarrow> nat \<Rightarrow> nat \<Rightarrow> nat option" where
  "at a n m = (if 1 \<le> m \<and> m \<le> n then Some (a m) else None)"

definition reps :: "heap \<Rightarrow> (nat \<Rightarrow> nat) \<Rightarrow> nat \<Rightarrow> bool" where
  "reps h a n \<longleftrightarrow> inj_on a {1..n} \<and> h_min h = at a n 1 \<and> h_nelts h = n \<and>
     (\<forall>m. 1 \<le> m \<and> m \<le> n \<longrightarrow> h_left h (a m) = at a n (2 * m) \<and> h_right h (a m) = at a n (2 * m + 1) \<and>
       h_parent h (a m) = at a n (m div 2))"

definition swapped :: "nat \<Rightarrow> nat \<Rightarrow> (nat \<Rightarrow> nat) \<Rightarrow> nat \<Rightarrow> nat" where
  "swapped i j a = a(i := a j, j := a i)"

lemma repsD:
  assumes "reps h a n"
  shows "h_min h = at a n 1" "h_nelts h = n" "inj_on a {1..n}"
    "1 \<le> m \<Longrightarrow> m \<le> n \<Longrightarrow> h_left h (a m) = at a n (2 * m)"
    "1 \<le> m \<Longrightarrow> m \<le> n \<Longrightarrow> h_right h (a m) = at a n (2 * m + 1)"
    "1 \<le> m \<Longrightarrow> m \<le> n \<Longrightarrow> h_parent h (a m) = at a n (m div 2)"
    "1 \<le> u \<Longrightarrow> u \<le> n \<Longrightarrow> 1 \<le> v \<Longrightarrow> v \<le> n \<Longrightarrow> a u = a v \<longleftrightarrow> u = v"
proof -
  show "1 \<le> u \<Longrightarrow> u \<le> n \<Longrightarrow> 1 \<le> v \<Longrightarrow> v \<le> n \<Longrightarrow> a u = a v \<longleftrightarrow> u = v"
    using assms inj_on_eq_iff [of a "{1..n}" u v] by (simp add: reps_def)
qed (use assms in \<open>simp_all add: reps_def\<close>)

lemma set_simps [simp]:
  "h_min (set_left x v h) = h_min h" "h_nelts (set_left x v h) = h_nelts h" "h_left (set_left x v h) = (h_left h)(x := v)"
  "h_right (set_left x v h) = h_right h" "h_parent (set_left x v h) = h_parent h"
  "h_min (set_right x v h) = h_min h" "h_nelts (set_right x v h) = h_nelts h" "h_left (set_right x v h) = h_left h"
  "h_right (set_right x v h) = (h_right h)(x := v)" "h_parent (set_right x v h) = h_parent h"
  "h_min (set_parent x v h) = h_min h" "h_nelts (set_parent x v h) = h_nelts h" "h_left (set_parent x v h) = h_left h"
  "h_right (set_parent x v h) = h_right h" "h_parent (set_parent x v h) = (h_parent h)(x := v)"
  "h_min (set_parent_of q v h) = h_min h" "h_nelts (set_parent_of q v h) = h_nelts h" "h_left (set_parent_of q v h) = h_left h"
  "h_right (set_parent_of q v h) = h_right h"
  by (simp_all add: set_left_def set_right_def set_parent_def set_parent_of_def split: option.split)

lemma h_parent_set_parent_of [simp]:
  "h_parent (set_parent_of q v h) y = (if q = Some y then v else h_parent h y)"
  by (auto simp: set_parent_of_def split: option.split)

lemma swap_structs_simps [simp]:
  "h_min (swap_structs x y h) = h_min h" "h_nelts (swap_structs x y h) = h_nelts h"
  "h_left (swap_structs x y h) = (h_left h)(x := h_left h y, y := h_left h x)"
  "h_right (swap_structs x y h) = (h_right h)(x := h_right h y, y := h_right h x)"
  "h_parent (swap_structs x y h) = (h_parent h)(x := h_parent h y, y := h_parent h x)"
  by (simp_all add: swap_structs_def)

lemma relink_None [simp]: "relink None old new h = h\<lparr>h_min := Some new\<rparr>"
  by (simp add: relink_def)

lemma relink_Some [simp]:
  "relink (Some g) old new h = (if h_left h g = Some old then set_left g (Some new) h else set_right g (Some new) h)"
  by (simp add: relink_def)

lemma relink_simps:
  "h_min (relink up old new h) = (if up = None then Some new else h_min h)"
  "h_nelts (relink up old new h) = h_nelts h"
  "h_parent (relink up old new h) = h_parent h"
  by (cases up; simp)+

lemma relink_left:
  "h_left (relink up old new h) x = (if up = Some x \<and> h_left h x = Some old then Some new else h_left h x)"
  by (cases up) auto

lemma relink_right:
  "h_right (relink up old new h) x = (if up = Some x \<and> h_left h x \<noteq> Some old then Some new else h_right h x)"
  by (cases up) auto

text \<open>The fields after a swap, when neither node is its own neighbour.\<close>

lemma swap_fields:
  assumes pc: "p \<noteq> c" and self: "h_left h c \<noteq> Some c" "h_right h c \<noteq> Some c"
    and sib: "sib = (if h_left h p = Some c then h_right h p else h_left h p)" "sib \<noteq> Some c"
  shows "h_min (heap_node_swap p c h) = (if h_parent h p = None then Some c else h_min h)"
    "h_nelts (heap_node_swap p c h) = h_nelts h"
    "h_parent (heap_node_swap p c h) x =
      (if h_right h c = Some x \<or> h_left h c = Some x then Some p else if sib = Some x then Some c
       else if x = p then Some c else if x = c then h_parent h p else h_parent h x)"
    "h_left (heap_node_swap p c h) x =
      (let l = (h_left h)(p := h_left h c, c := if h_left h p = Some c then Some p else h_left h p)
       in if h_parent h p = Some x \<and> l x = Some p then Some c else l x)"
    "h_right (heap_node_swap p c h) x =
      (let l = (h_left h)(p := h_left h c, c := if h_left h p = Some c then Some p else h_left h p);
           r = (h_right h)(p := h_right h c, c := if h_left h p = Some c then h_right h p else Some p)
       in if h_parent h p = Some x \<and> l x \<noteq> Some p then Some c else r x)"
proof -
  define l where "l = (h_left h)(p := h_left h c, c := if h_left h p = Some c then Some p else h_left h p)"
  define r where "r = (h_right h)(p := h_right h c, c := if h_left h p = Some c then h_right h p else Some p)"
  define h2 where "h2 = set_parent p (Some c) (swap_structs p c h)"
  define h3 where "h3 = (if h_left h p = Some c then set_left c (Some p) h2 else set_right c (Some p) h2)"
  define h4 where "h4 = set_parent_of (h_right h c) (Some p) (set_parent_of (h_left h c) (Some p) (set_parent_of sib (Some c) h3))"
  have f2: "h_left h2 c = h_left h p" "h_right h2 c = h_right h p" using pc by (simp_all add: h2_def)
  have f3: "h_left h3 = l" "h_right h3 = r" "h_min h3 = h_min h" "h_nelts h3 = h_nelts h"
    "h_parent h3 = (h_parent h)(c := h_parent h p, p := Some c)"
    using pc by (auto simp: h3_def h2_def l_def r_def fun_eq_iff)
  have lp: "l p = h_left h c" "r p = h_right h c" using pc by (simp_all add: l_def r_def)
  have f4: "h_left h4 = l" "h_right h4 = r" "h_min h4 = h_min h" "h_nelts h4 = h_nelts h" "h_parent h4 c = h_parent h p"
    using self sib(2) pc f3 by (simp_all add: h4_def)
  have P: "h_parent h4 x = (if h_right h c = Some x \<or> h_left h c = Some x then Some p else if sib = Some x then Some c
       else if x = p then Some c else if x = c then h_parent h p else h_parent h x)"
    using f3 by (simp add: h4_def)
  have run: "heap_node_swap p c h = relink (h_parent h4 c) p c h4"
  proof -
    have "(if h_left h2 c = Some c then (set_left c (Some p) h2, h_right h2 c) else (set_right c (Some p) h2, h_left h2 c)) = (h3, sib)"
      by (simp add: h3_def sib f2)
    then show ?thesis
      unfolding heap_node_swap_def Let_def h2_def [symmetric] by (simp only: prod.case set_simps f3 lp h4_def)
  qed
  show "h_min (heap_node_swap p c h) = (if h_parent h p = None then Some c else h_min h)"
    "h_nelts (heap_node_swap p c h) = h_nelts h" by (simp_all only: run relink_simps f4)
  show "h_parent (heap_node_swap p c h) x =
      (if h_right h c = Some x \<or> h_left h c = Some x then Some p else if sib = Some x then Some c
       else if x = p then Some c else if x = c then h_parent h p else h_parent h x)"
    by (simp only: run relink_simps P)
  show "h_left (heap_node_swap p c h) x =
      (let l = (h_left h)(p := h_left h c, c := if h_left h p = Some c then Some p else h_left h p)
       in if h_parent h p = Some x \<and> l x = Some p then Some c else l x)"
    by (simp only: run relink_left f4 Let_def l_def)
  show "h_right (heap_node_swap p c h) x =
      (let l = (h_left h)(p := h_left h c, c := if h_left h p = Some c then Some p else h_left h p);
           r = (h_right h)(p := h_right h c, c := if h_left h p = Some c then h_right h p else Some p)
       in if h_parent h p = Some x \<and> l x \<noteq> Some p then Some c else r x)"
    by (simp only: run relink_right f4 Let_def l_def r_def)
qed

lemma swap_reps:
  assumes r: "reps h a n" and j: "1 < j" "j \<le> n"
  shows "reps (heap_node_swap (a (j div 2)) (a j) h) (swapped (j div 2) j a) n"
proof -
  define i where "i = j div 2"
  let ?b = "swapped i j a"
  let ?h = "heap_node_swap (a i) (a j) h"
  have i: "1 \<le> i" "i \<le> n" "i < j" "i \<noteq> j" "j = 2 * i \<or> j = 2 * i + 1" using j by (auto simp: i_def)
  note d = repsD(4-6) [OF r]
  note eq = repsD(7) [OF r]
  have inj: "inj_on ?b {1..n}"
  proof (rule inj_onI)
    fix u v assume uv: "u \<in> {1..n}" "v \<in> {1..n}" "?b u = ?b v"
    then show "u = v"
      using eq [of u v] eq [of i v] eq [of j v] eq [of u i] eq [of u j] eq [of i j] i j
      by (simp add: swapped_def split: if_splits)
  qed
  have at_eq: "(at a n u = Some (a v)) = (u = v)" if "1 \<le> v" "v \<le> n" for u v
    using that eq by (auto simp: at_def)
  define k where "k = (if j = 2 * i then 2 * i + 1 else 2 * i)"
  have P: "h_left h (a i) = at a n (2 * i)" "h_right h (a i) = at a n (2 * i + 1)" "h_parent h (a i) = at a n (i div 2)"
    "h_left h (a j) = at a n (2 * j)" "h_right h (a j) = at a n (2 * j + 1)" "h_parent h (a j) = Some (a i)"
    using d [of i] d [of j] i j by (auto simp: at_def i_def)
  have side: "(h_left h (a i) = Some (a j)) = (j = 2 * i)" using i j P by (auto simp: at_eq)
  have sib: "at a n k = (if h_left h (a i) = Some (a j) then h_right h (a i) else h_left h (a i))"
    using side by (cases "j = 2 * i") (simp_all add: P k_def)
  have c: "a i \<noteq> a j" "h_left h (a j) \<noteq> Some (a j)" "h_right h (a j) \<noteq> Some (a j)" "at a n k \<noteq> Some (a j)"
    using i j eq by (auto simp: P at_eq k_def)
  note F = swap_fields [OF c(1-3) sib c(4), unfolded side P]
  have M: "h_min ?h = at ?b n 1"
    unfolding F(1) repsD(1) [OF r] using i j by (auto simp: at_def swapped_def)
  have main: "h_left ?h (?b m) = at ?b n (2 * m) \<and> h_right ?h (?b m) = at ?b n (2 * m + 1) \<and> h_parent ?h (?b m) = at ?b n (m div 2)"
    if m: "1 \<le> m" "m \<le> n" for m
  proof -
    have atb: "at ?b n u = (if u = i then Some (a j) else if u = j then Some (a i) else at a n u)" for u
      using i j by (auto simp: at_def swapped_def)
    have b: "?b i = a j" "?b j = a i" using i by (simp_all add: swapped_def)
    consider "m = i" | "m = j" | "m \<noteq> i" "m \<noteq> j" by blast
    then show ?thesis
    proof cases
      case 1
      show ?thesis unfolding 1 b F(3-5) atb using i j c eq [of i j] by (auto simp: at_eq k_def Let_def)
    next
      case 2
      show ?thesis unfolding 2 b F(3-5) atb using i j c eq [of i j] by (auto simp: at_eq k_def Let_def)
    next
      case 3
      have b: "?b m = a m" using 3 by (simp add: swapped_def)
      have ne: "a m \<noteq> a i" "a m \<noteq> a j" using eq [of m i] eq [of m j] i j m 3 by simp_all
      have L: "h_left ?h (a m) = (if at a n (i div 2) = Some (a m) \<and> at a n (2 * m) = Some (a i) then Some (a j) else at a n (2 * m))"
        unfolding F(4) Let_def using ne d(1) [OF m] by simp
      have R: "h_right ?h (a m) = (if at a n (i div 2) = Some (a m) \<and> at a n (2 * m) \<noteq> Some (a i) then Some (a j) else at a n (2 * m + 1))"
        unfolding F(5) Let_def using ne d(1,2) [OF m] by simp
      have Q: "h_parent ?h (a m) = (if at a n (2 * j + 1) = Some (a m) \<or> at a n (2 * j) = Some (a m) then Some (a i)
          else if at a n k = Some (a m) then Some (a j) else at a n (m div 2))"
        unfolding F(3) using ne d(3) [OF m] by simp
      note e = at_eq [OF m] at_eq [OF i(1,2)]
      have 1: "h_left ?h (a m) = at ?b n (2 * m)" unfolding L e atb using i j m 3 by auto
      have 2: "h_right ?h (a m) = at ?b n (2 * m + 1)" unfolding R e atb using i j m 3 by auto
      have 3: "h_parent ?h (a m) = at ?b n (m div 2)" unfolding Q e atb k_def using i j m 3 by auto
      show ?thesis unfolding b using 1 2 3 by blast
    qed
  qed
  show ?thesis unfolding i_def [symmetric]
    using inj M main F(2) repsD(2) [OF r] by (simp add: reps_def)
qed

lemma swapped_image:
  assumes "1 \<le> i" "i \<le> n" "1 \<le> j" "j \<le> n"
  shows "swapped i j a ` {1..n} = a ` {1..n}"
proof -
  have "swapped i j a ` {1..n} \<subseteq> a ` {1..n}" for a :: "nat \<Rightarrow> nat"
    using assms by (auto simp: swapped_def)
  moreover have "swapped i j (swapped i j a) = a" by (auto simp: swapped_def fun_eq_iff)
  ultimately show ?thesis by (metis subset_antisym)
qed

subsection \<open>Paths\<close>

fun dirs :: "nat \<Rightarrow> nat list" where
  "dirs n = (if n < 2 then [] else dirs (n div 2) @ [n mod 2])"

declare dirs.simps [simp del]

primrec low_bits :: "nat \<Rightarrow> nat \<Rightarrow> nat list" where
  "low_bits 0 p = []"
| "low_bits (Suc k) p = p mod 2 # low_bits k (p div 2)"

definition down_from :: "nat \<Rightarrow> nat list \<Rightarrow> nat" where
  "down_from m bs = foldl (\<lambda>m b. 2 * m + b) m bs"

lemma down_from_dirs: "1 \<le> n \<Longrightarrow> down_from 1 (dirs n) = n"
proof (induction n rule: dirs.induct)
  case (1 n)
  show ?case
  proof (cases "n < 2")
    case True
    then show ?thesis using 1(2) by (simp add: dirs.simps [of n] down_from_def)
  next
    case False
    then show ?thesis using 1(1) by (simp add: dirs.simps [of n] down_from_def)
  qed
qed

lemma heap_path_bits:
  "p < 2 ^ k \<Longrightarrow> n < 2 ^ (32 - k) \<Longrightarrow> k < 32 \<Longrightarrow> heap_path n p k = (p', k') \<Longrightarrow>
    low_bits k' p' = dirs n @ low_bits k p"
proof (induction n p k rule: heap_path.induct)
  case (1 n p k)
  show ?case
  proof (cases "n < 2")
    case True
    then show ?thesis using 1(5) by (simp add: heap_path.simps [of n] dirs.simps [of n])
  next
    case False
    have k: "Suc k < 32"
    proof (rule ccontr)
      assume "\<not> Suc k < 32"
      then have "32 - k = 1" using 1(4) by simp
      then show False using 1(3) False by simp
    qed
    have p: "2 * p + n mod 2 < 2 ^ Suc k" using 1(2) by simp
    have "(2::nat) ^ Suc k \<le> 2 ^ 32" by (rule power_increasing) (use k in simp_all)
    then have m: "(2 * p + n mod 2) mod 2 ^ 32 = 2 * p + n mod 2" using p by (intro mod_less) linarith
    have "(2::nat) ^ (32 - k) = 2 * 2 ^ (32 - Suc k)" using k by (simp flip: power_Suc add: Suc_diff_Suc)
    then have n: "n div 2 < 2 ^ (32 - Suc k)" using 1(3) by simp
    have run: "heap_path (n div 2) (2 * p + n mod 2) (Suc k) = (p', k')"
      using 1(5) False m by (simp add: heap_path.simps [of n])
    have "low_bits k' p' = dirs (n div 2) @ low_bits (Suc k) (2 * p + n mod 2)"
      using 1(1) [unfolded m, simplified] False p n k run by simp
    then show ?thesis using False by (simp add: dirs.simps [of n])
  qed
qed

lemma heap_path_place:
  assumes "1 \<le> n" "n < 2 ^ 32" "heap_path n 0 0 = (path, k)"
  shows "down_from 1 (low_bits k path) = n" "k = 0 \<longleftrightarrow> n = 1"
proof -
  have b: "low_bits k path = dirs n" using heap_path_bits [of 0 0 n path k] assms by simp
  then show "down_from 1 (low_bits k path) = n" using down_from_dirs assms(1) by simp
  have "k = length (low_bits k path)" by (induction k arbitrary: path) auto
  then show "k = 0 \<longleftrightarrow> n = 1" using b assms(1) by (simp add: dirs.simps [of n])
qed

definition loc_at :: "(nat \<Rightarrow> nat) \<Rightarrow> nat \<Rightarrow> loc" where
  "loc_at a m = (if m = 1 then Min else if even m then LeftOf (a (m div 2)) else RightOf (a (m div 2)))"

lemma load_loc_at:
  assumes "reps h a n" "1 \<le> m" "m div 2 \<le> n"
  shows "load (loc_at a m) h = at a n m"
proof -
  have "m = 1 \<or> 1 \<le> m div 2" using assms(2) by linarith
  then show ?thesis using repsD(1) [OF assms(1)] repsD(4,5) [OF assms(1), of "m div 2"] assms(3)
    by (auto simp: loc_at_def)
qed

lemma down_from_ge: "m \<le> down_from m bs"
proof (induction bs arbitrary: m)
  case (Cons b bs)
  have "m \<le> 2 * m + b" by simp
  also have "\<dots> \<le> down_from (2 * m + b) bs" by (rule Cons)
  finally show ?case by (simp add: down_from_def)
qed (simp add: down_from_def)

lemma walk_spec:
  assumes r: "reps h a n"
  shows "1 \<le> m \<Longrightarrow> down_from m (low_bits k path) div 2 \<le> n \<Longrightarrow> (k = 0 \<longrightarrow> m div 2 \<le> n) \<Longrightarrow>
    heap_walk k path q (loc_at a m) h =
      Some (if k = 0 then q else loc_at a (down_from m (low_bits k path) div 2), loc_at a (down_from m (low_bits k path)))"
proof (induction k arbitrary: path m q)
  case 0
  then show ?case by (simp add: down_from_def)
next
  case (Suc k)
  let ?m = "2 * m + path mod 2"
  have M: "down_from m (low_bits (Suc k) path) = down_from ?m (low_bits k (path div 2))" by (simp add: down_from_def)
  have "?m \<le> down_from ?m (low_bits k (path div 2))" by (rule down_from_ge)
  then have m: "m \<le> n" using Suc.prems(2) unfolding M by linarith
  then have l: "load (loc_at a m) h = Some (a m)" using load_loc_at [OF r Suc.prems(1)] Suc.prems(1) by (simp add: at_def)
  have c: "(if odd path then RightOf (a m) else LeftOf (a m)) = loc_at a ?m"
    using Suc.prems(1) by (auto simp: loc_at_def odd_iff_mod_2_eq_one even_iff_mod_2_eq_zero)
  have ih: "heap_walk k (path div 2) (loc_at a m) (loc_at a ?m) h =
    Some (if k = 0 then loc_at a m else loc_at a (down_from ?m (low_bits k (path div 2)) div 2), loc_at a (down_from ?m (low_bits k (path div 2))))"
    using Suc.prems m unfolding M by (intro Suc.IH) auto
  have "k = 0 \<Longrightarrow> down_from ?m (low_bits k (path div 2)) div 2 = m" by (simp add: down_from_def)
  then show ?case using l c ih unfolding M by auto
qed

subsection \<open>The heap order\<close>

definition weak_order :: "(nat \<Rightarrow> nat \<Rightarrow> bool) \<Rightarrow> bool" where
  "weak_order lt \<longleftrightarrow> (\<forall>x y. lt x y \<longrightarrow> \<not> lt y x) \<and> (\<forall>x y z. \<not> lt y x \<longrightarrow> \<not> lt z y \<longrightarrow> \<not> lt z x)"

lemma weak_orderD:
  assumes "weak_order lt"
  shows "lt x y \<Longrightarrow> \<not> lt y x" "\<not> lt y x \<Longrightarrow> \<not> lt z y \<Longrightarrow> \<not> lt z x"
  using assms unfolding weak_order_def by blast+

text \<open>The edge from node \<open>m\<close> to its parent is in order; all are, or all that do not touch \<open>j\<close>.\<close>

definition edge :: "(nat \<Rightarrow> nat \<Rightarrow> bool) \<Rightarrow> (nat \<Rightarrow> nat) \<Rightarrow> nat \<Rightarrow> bool" where
  "edge lt a m \<longleftrightarrow> \<not> lt (a m) (a (m div 2))"

definition ordered :: "(nat \<Rightarrow> nat \<Rightarrow> bool) \<Rightarrow> (nat \<Rightarrow> nat) \<Rightarrow> nat \<Rightarrow> bool" where
  "ordered lt a n \<longleftrightarrow> (\<forall>m. 2 \<le> m \<and> m \<le> n \<longrightarrow> edge lt a m)"

definition bridged :: "(nat \<Rightarrow> nat \<Rightarrow> bool) \<Rightarrow> (nat \<Rightarrow> nat) \<Rightarrow> nat \<Rightarrow> nat \<Rightarrow> bool" where
  "bridged lt a n j \<longleftrightarrow> (\<forall>m. 2 \<le> j \<and> m \<le> n \<and> m div 2 = j \<longrightarrow> \<not> lt (a m) (a (j div 2)))"

definition up_inv :: "(nat \<Rightarrow> nat \<Rightarrow> bool) \<Rightarrow> (nat \<Rightarrow> nat) \<Rightarrow> nat \<Rightarrow> nat \<Rightarrow> bool" where
  "up_inv lt a n j \<longleftrightarrow> (\<forall>m. 2 \<le> m \<and> m \<le> n \<and> m \<noteq> j \<longrightarrow> edge lt a m) \<and> bridged lt a n j"

definition down_inv :: "(nat \<Rightarrow> nat \<Rightarrow> bool) \<Rightarrow> (nat \<Rightarrow> nat) \<Rightarrow> nat \<Rightarrow> nat \<Rightarrow> bool" where
  "down_inv lt a n j \<longleftrightarrow> (\<forall>m. 2 \<le> m \<and> m \<le> n \<and> m \<noteq> j \<and> m div 2 \<noteq> j \<longrightarrow> edge lt a m) \<and> bridged lt a n j"

lemma swapped_at: "swapped i j a i = a j" "swapped i j a j = a i" "m \<noteq> i \<Longrightarrow> m \<noteq> j \<Longrightarrow> swapped i j a m = a m"
  by (simp_all add: swapped_def)

lemma up_step:
  assumes o: "weak_order lt" and inv: "up_inv lt a n j" and j: "2 \<le> j" "j \<le> n" and lt: "lt (a j) (a (j div 2))"
  shows "up_inv lt (swapped (j div 2) j a) n (j div 2)"
proof -
  let ?i = "j div 2" and ?b = "swapped (j div 2) j a"
  have i: "?i < j" "1 \<le> ?i" using j by auto
  have e: "edge lt a m" if "2 \<le> m" "m \<le> n" "m \<noteq> j" for m using inv that by (auto simp: up_inv_def)
  have br: "\<not> lt (a m) (a ?i)" if "m \<le> n" "m div 2 = j" for m using inv that j by (auto simp: up_inv_def bridged_def)
  have "edge lt ?b m" if m: "2 \<le> m" "m \<le> n" "m \<noteq> ?i" for m
  proof -
    consider "m = j" | "m \<noteq> j" "m div 2 = j" | "m \<noteq> j" "m div 2 = ?i" | "m \<noteq> j" "m div 2 \<noteq> j" "m div 2 \<noteq> ?i" by blast
    then show ?thesis
    proof cases
      case 1
      then show ?thesis using weak_orderD(1) [OF o lt] by (simp add: edge_def swapped_at)
    next
      case 2
      then show ?thesis using br [of m] m by (simp add: edge_def swapped_at)
    next
      case 3
      then have "\<not> lt (a m) (a ?i)" using e [of m] m by (simp add: edge_def)
      then have "\<not> lt (a m) (a j)" using weak_orderD(2) [OF o weak_orderD(1) [OF o lt]] by blast
      then show ?thesis using 3 m by (simp add: edge_def swapped_at)
    next
      case 4
      then show ?thesis using e [of m] m by (simp add: edge_def swapped_at)
    qed
  qed
  moreover have "bridged lt ?b n ?i"
    unfolding bridged_def
  proof (intro allI impI)
    fix m assume m: "2 \<le> ?i \<and> m \<le> n \<and> m div 2 = ?i"
    have top: "\<not> lt (a ?i) (a (?i div 2))" using e [of ?i] m i j by (simp add: edge_def)
    have n: "?i div 2 \<noteq> ?i" "?i div 2 \<noteq> j" using m i by auto
    show "\<not> lt (?b m) (?b (?i div 2))"
    proof (cases "m = j")
      case True
      then show ?thesis using top n by (simp add: swapped_at)
    next
      case False
      have "m \<noteq> ?i" "2 \<le> m" using m by auto
      then have "\<not> lt (a m) (a ?i)" using e [of m] m False by (simp add: edge_def)
      then have "\<not> lt (a m) (a (?i div 2))" using weak_orderD(2) [OF o top] by blast
      then show ?thesis using False n \<open>m \<noteq> ?i\<close> by (simp add: swapped_at)
    qed
  qed
  ultimately show ?thesis by (simp add: up_inv_def)
qed

lemma up_done:
  assumes "up_inv lt a n j" "j = 1 \<or> \<not> lt (a j) (a (j div 2))"
  shows "ordered lt a n"
  using assms by (auto simp: up_inv_def ordered_def edge_def)

lemma heap_up_spec:
  assumes o: "weak_order lt"
  shows "reps h a n \<Longrightarrow> 1 \<le> j \<Longrightarrow> j \<le> n \<Longrightarrow> up_inv lt a n j \<Longrightarrow>
    \<exists>h' a'. heap_up lt (a j) h = Some h' \<and> reps h' a' n \<and> ordered lt a' n \<and> a' ` {1..n} = a ` {1..n}"
proof (induction j arbitrary: h a rule: less_induct)
  case (less j)
  have p: "h_parent h (a j) = at a n (j div 2)" using repsD(6) [OF less.prems(1-3)] .
  show ?case
  proof (cases "2 \<le> j \<and> lt (a j) (a (j div 2))")
    case False
    then have "1 \<le> j div 2 \<longrightarrow> \<not> lt (a j) (a (j div 2))" by auto
    then have "heap_up lt (a j) h = Some h" using p by (subst heap_up.simps) (simp add: at_def)
    moreover have "ordered lt a n" using up_done [OF less.prems(4)] False less.prems(2) by force
    ultimately show ?thesis using less.prems(1) by blast
  next
    case True
    let ?h = "heap_node_swap (a (j div 2)) (a j) h" and ?b = "swapped (j div 2) j a"
    have r: "reps ?h ?b n" using swap_reps [OF less.prems(1)] True less.prems(3) by simp
    have inv: "up_inv lt ?b n (j div 2)" using up_step [OF o less.prems(4)] True less.prems(3) by simp
    have ij: "j div 2 < j" "1 \<le> j div 2" "j div 2 \<le> n" using True less.prems(3) by auto
    obtain h' a' where "heap_up lt (?b (j div 2)) ?h = Some h'" "reps h' a' n" "ordered lt a' n" "a' ` {1..n} = ?b ` {1..n}"
      using less.IH [OF ij(1) r ij(2,3) inv] by blast
    moreover have "heap_up lt (a j) h = heap_up lt (a j) ?h"
      using p True ij by (subst heap_up.simps) (simp add: at_def)
    moreover have "?b ` {1..n} = a ` {1..n}" using swapped_image ij less.prems(2,3) by simp
    ultimately show ?thesis unfolding swapped_at by metis
  qed
qed

lemma smallest_child_spec:
  assumes o: "weak_order lt" and r: "reps h a n" and j: "1 \<le> j" "j \<le> n"
  obtains s where "smallest_child lt (a j) h = a s" "1 \<le> s" "s \<le> n" "s = j \<or> s div 2 = j"
    "s \<noteq> j \<Longrightarrow> lt (a s) (a j)" "\<And>m. m \<le> n \<Longrightarrow> m div 2 = j \<Longrightarrow> \<not> lt (a m) (a s)"
proof -
  define s1 where "s1 = (if 2 * j \<le> n \<and> lt (a (2 * j)) (a j) then 2 * j else j)"
  define s2 where "s2 = (if 2 * j + 1 \<le> n \<and> lt (a (2 * j + 1)) (a s1) then 2 * j + 1 else s1)"
  have l: "h_left h (a j) = at a n (2 * j)" "h_right h (a j) = at a n (2 * j + 1)" using repsD(4,5) [OF r j] .
  have run: "smallest_child lt (a j) h = a s2"
    using j by (auto simp: smallest_child_def l at_def s1_def s2_def Let_def)
  have s1: "lt (a s1) (a j) \<or> s1 = j" "2 * j \<le> n \<Longrightarrow> \<not> lt (a (2 * j)) (a s1)"
    using weak_orderD(1) [OF o] by (auto simp: s1_def)
  have s2: "\<not> lt (a s1) (a s2)" "lt (a s2) (a s1) \<or> s2 = s1" "2 * j + 1 \<le> n \<Longrightarrow> \<not> lt (a (2 * j + 1)) (a s2)"
    using weak_orderD(1) [OF o] by (auto simp: s2_def)
  have irr: "\<not> lt x x" for x using weak_orderD(1) [OF o] by blast
  have "\<not> lt (a m) (a s2)" if "m \<le> n" "m div 2 = j" for m
  proof -
    have "m = 2 * j \<or> m = 2 * j + 1" using that(2) by auto
    then show ?thesis using s1(2) s2 that(1) weak_orderD(2) [OF o] by blast
  qed
  moreover have "lt (a s2) (a j)" if "s2 \<noteq> j"
  proof (cases "s1 = j")
    case True
    then show ?thesis using s2(2) that by auto
  next
    case False
    then have "lt (a s1) (a j)" using s1(1) by blast
    then show ?thesis using s2(1) weak_orderD(2) [OF o] by blast
  qed
  moreover have "1 \<le> s2" "s2 \<le> n" "s2 = j \<or> s2 div 2 = j" using j by (auto simp: s1_def s2_def)
  ultimately show ?thesis using that [of s2] run by blast
qed

lemma down_step:
  assumes o: "weak_order lt" and inv: "down_inv lt a n j" and j: "1 \<le> j" "s \<le> n" "s div 2 = j"
    and lt: "lt (a s) (a j)" and least: "\<And>m. m \<le> n \<Longrightarrow> m div 2 = j \<Longrightarrow> \<not> lt (a m) (a s)"
  shows "down_inv lt (swapped j s a) n s"
proof -
  let ?b = "swapped j s a"
  have js: "j < s" "2 \<le> s" using j by auto
  have e: "edge lt a m" if "2 \<le> m" "m \<le> n" "m \<noteq> j" "m div 2 \<noteq> j" for m using inv that by (auto simp: down_inv_def)
  have br: "\<not> lt (a m) (a (j div 2))" if "2 \<le> j" "m \<le> n" "m div 2 = j" for m using inv that by (auto simp: down_inv_def bridged_def)
  have "edge lt ?b m" if m: "2 \<le> m" "m \<le> n" "m \<noteq> s" "m div 2 \<noteq> s" for m
  proof -
    consider "m = j" | "m \<noteq> j" "m div 2 = j" | "m \<noteq> j" "m div 2 \<noteq> j" by blast
    then show ?thesis
    proof cases
      case 1
      have "j div 2 \<noteq> j" "j div 2 \<noteq> s" using m(1) 1 js by auto
      then show ?thesis using br [of s] 1 m j by (simp add: edge_def swapped_at)
    next
      case 2
      then show ?thesis using least [of m] m by (simp add: edge_def swapped_at)
    next
      case 3
      then show ?thesis using e [of m] m by (simp add: edge_def swapped_at)
    qed
  qed
  moreover have "bridged lt ?b n s"
    unfolding bridged_def
  proof (intro allI impI)
    fix m assume m: "2 \<le> s \<and> m \<le> n \<and> m div 2 = s"
    then have "edge lt a m" using js j(3) by (intro e) auto
    moreover have "m \<noteq> j" "m \<noteq> s" using m js by auto
    ultimately show "\<not> lt (?b m) (?b (s div 2))" using m j(3) by (simp add: edge_def swapped_at)
  qed
  ultimately show ?thesis by (simp add: down_inv_def)
qed

lemma heap_down_spec:
  assumes o: "weak_order lt"
  shows "reps h a n \<Longrightarrow> 1 \<le> j \<Longrightarrow> j \<le> n \<Longrightarrow> down_inv lt a n j \<Longrightarrow>
    \<exists>h' a' j'. heap_down lt (a j) h = Some h' \<and> reps h' a' n \<and> 1 \<le> j' \<and> j' \<le> n \<and> a' j' = a j \<and>
      up_inv lt a' n j' \<and> a' ` {1..n} = a ` {1..n}"
proof (induction "n - j" arbitrary: j h a rule: less_induct)
  case less
  note r = less.prems(1) and j = less.prems(2,3) and inv = less.prems(4)
  obtain s where s: "smallest_child lt (a j) h = a s" "1 \<le> s" "s \<le> n" "s = j \<or> s div 2 = j"
    "s \<noteq> j \<Longrightarrow> lt (a s) (a j)" "\<And>m. m \<le> n \<Longrightarrow> m div 2 = j \<Longrightarrow> \<not> lt (a m) (a s)"
    using smallest_child_spec [OF o r j] by blast
  show ?case
  proof (cases "s = j")
    case True
    have "up_inv lt a n j" using inv s(6) True by (auto simp: down_inv_def up_inv_def edge_def)
    moreover have "heap_down lt (a j) h = Some h" by (subst heap_down.simps) (simp add: s(1) True Let_def)
    ultimately show ?thesis using r j by blast
  next
    case False
    then have sj: "s div 2 = j" "j < s" using s(4) j by auto
    let ?h = "heap_node_swap (a j) (a s) h" and ?b = "swapped j s a"
    have rb: "reps ?h ?b n" using swap_reps [OF r, of s] sj j s(3) by simp
    have ib: "down_inv lt ?b n s" using down_step [OF o inv j(1) s(3) sj(1) s(5) [OF False] s(6)] .
    have "n - s < n - j" using sj s(3) by linarith
    from less.hyps [OF this rb s(2,3) ib] obtain h' a' j' where
      "heap_down lt (?b s) ?h = Some h'" "reps h' a' n" "1 \<le> j'" "j' \<le> n" "a' j' = ?b s" "up_inv lt a' n j'" "a' ` {1..n} = ?b ` {1..n}"
      by blast
    moreover have "heap_down lt (a j) h = heap_down lt (a j) ?h"
      using repsD(7) [OF r s(2,3) j] sj by (subst heap_down.simps) (simp add: s(1) Let_def)
    moreover have "?b ` {1..n} = a ` {1..n}" using swapped_image j s(2,3) by simp
    ultimately show ?thesis by (auto simp: swapped_at)
  qed
qed

subsection \<open>Insertion and removal\<close>

lemma reps_frame:
  assumes "reps h a n" and "h_min h' = h_min h" "h_nelts h' = h_nelts h"
    and "\<And>x. x \<in> a ` {1..n} \<Longrightarrow> h_left h' x = h_left h x \<and> h_right h' x = h_right h x \<and> h_parent h' x = h_parent h x"
  shows "reps h' a n"
  using assms by (auto simp: reps_def)

text \<open>Linking a new node in at the first free place.\<close>

lemma link_reps:
  assumes r: "reps h a n" and x: "x \<notin> a ` {1..n}" and nelts: "n + 1 < 2 ^ 32"
    and leaf: "h_left h x = None" "h_right h x = None" and N: "N = n + 1"
  shows "reps ((store (loc_at a N) (Some x) (set_parent x (at a n (N div 2)) h))\<lparr>h_nelts := N\<rparr>) (a(N := x)) N"
proof -
  let ?b = "a(N := x)" and ?h = "(store (loc_at a N) (Some x) (set_parent x (at a n (N div 2)) h))\<lparr>h_nelts := N\<rparr>"
  have eq: "a m \<noteq> x" if "1 \<le> m" "m \<le> n" for m using x that by auto
  have b: "?b m = a m" if "m \<le> n" for m using that N by simp
  have atb: "at ?b N u = (if u = N then Some x else at a n u)" for u using N by (auto simp: at_def)
  have inj: "inj_on ?b {1..N}"
  proof (rule inj_onI)
    fix u v assume "u \<in> {1..N}" "v \<in> {1..N}" "?b u = ?b v"
    then show "u = v" using repsD(7) [OF r, of u v] eq [of u] eq [of v] N by (simp split: if_splits)
  qed
  have min: "h_min ?h = at ?b N 1"
    unfolding atb using repsD(1) [OF r] N by (cases "N = 1") (auto simp: loc_at_def at_def)
  have px: "h_left ?h x = None" "h_right ?h x = None" "h_parent ?h x = at a n (N div 2)"
  proof -
    have "N = 1 \<or> 1 \<le> N div 2 \<and> N div 2 \<le> n" using N by auto
    then have "N = 1 \<or> a (N div 2) \<noteq> x" using eq by blast
    then show "h_left ?h x = None" "h_right ?h x = None" "h_parent ?h x = at a n (N div 2)"
      using leaf by (auto simp: loc_at_def)
  qed
  have "h_left ?h (?b m) = at ?b N (2 * m) \<and> h_right ?h (?b m) = at ?b N (2 * m + 1) \<and> h_parent ?h (?b m) = at ?b N (m div 2)"
    if m: "1 \<le> m" "m \<le> N" for m
  proof (cases "m = N")
    case True
    then show ?thesis using px N m unfolding atb by (auto simp: at_def)
  next
    case False
    then have mn: "m \<le> n" "a m \<noteq> x" "m div 2 \<noteq> N" using m N eq by auto
    note d = repsD(4-6) [OF r m(1) mn(1)]
    have half: "1 \<le> N div 2" "N div 2 \<le> n" "N \<noteq> 1" using m False N by auto
    note eqh = repsD(7) [OF r half(1,2) m(1) mn(1)]
    have l: "(2 * m = N) = (even N \<and> N div 2 = m)" "(2 * m + 1 = N) = (odd N \<and> N div 2 = m)" by auto
    have "h_left ?h (a m) = at ?b N (2 * m)"
      unfolding atb l using d(1) half(3) eqh by (auto simp: loc_at_def)
    moreover have "h_right ?h (a m) = at ?b N (2 * m + 1)"
      unfolding atb l using d(2) half(3) eqh by (auto simp: loc_at_def)
    moreover have "h_parent ?h (a m) = at ?b N (m div 2)"
      unfolding atb using d(3) mn half(3) by (auto simp: loc_at_def)
    ultimately show ?thesis using b [OF mn(1)] by simp
  qed
  then show ?thesis using inj min by (simp add: reps_def)
qed

lemma heap_insert_spec:
  assumes o: "weak_order lt" and r: "reps h a n" and ord: "ordered lt a n" and x: "x \<notin> a ` {1..n}" and n: "n + 1 < 2 ^ 32"
  shows "\<exists>h' a'. heap_insert lt x h = Some h' \<and> reps h' a' (n + 1) \<and> ordered lt a' (n + 1) \<and>
    a' ` {1..n + 1} = insert x (a ` {1..n})"
proof -
  let ?h1 = "set_parent x None (set_right x None (set_left x None h))" and ?N = "n + 1"
  have r1: "reps ?h1 a n" by (rule reps_frame [OF r]) (use x in auto)
  obtain path k where pk: "heap_path ?N 0 0 = (path, k)" by fastforce
  note place = heap_path_place [OF _ n pk]
  have w: "heap_walk k path Min Min ?h1 = Some (if k = 0 then Min else loc_at a (?N div 2), loc_at a ?N)"
    using walk_spec [OF r1, of 1 k path Min] place by (simp add: loc_at_def)
  have ld: "load (if k = 0 then Min else loc_at a (?N div 2)) ?h1 = at a n (?N div 2)"
    using load_loc_at [OF r1, of "?N div 2"] place(2) repsD(1) [OF r1] by (cases "n = 0") (auto simp: at_def)
  let ?h2 = "(store (loc_at a ?N) (Some x) (set_parent x (at a n (?N div 2)) ?h1))\<lparr>h_nelts := ?N\<rparr>" and ?b = "a(?N := x)"
  have r2: "reps ?h2 ?b ?N" by (rule link_reps [OF r1 x n]) simp_all
  have nel: "(1 + h_nelts ?h1) mod 2 ^ 32 = ?N" using repsD(2) [OF r1] n by (simp add: add.commute)
  have nst: "h_nelts (store l v h') = h_nelts h'" for l v h' by (cases l) simp_all
  have run: "heap_insert lt x h = heap_up lt x ?h2"
    unfolding heap_insert_def Let_def nel pk prod.case w bind.bind_lunit ld
    using repsD(2) [OF r1] n by (simp add: nst)
  have "up_inv lt ?b ?N ?N"
    using ord by (auto simp: up_inv_def bridged_def ordered_def edge_def)
  from heap_up_spec [OF o r2 _ _ this] obtain h' a' where
    "heap_up lt x ?h2 = Some h'" "reps h' a' ?N" "ordered lt a' ?N" "a' ` {1..?N} = ?b ` {1..?N}" by auto
  moreover have "?b ` {1..?N} = insert x (a ` {1..n})"
    by (auto simp: atLeastAtMostSuc_conv)
  ultimately show ?thesis using run by auto
qed

text \<open>Unlinking the last node.\<close>

lemma unlink_reps:
  assumes r: "reps h a n" and n: "1 \<le> n"
  shows "reps (store (loc_at a n) None (h\<lparr>h_nelts := n - 1\<rparr>)) a (n - 1)"
proof -
  let ?h = "store (loc_at a n) None (h\<lparr>h_nelts := n - 1\<rparr>)"
  have at': "at a (n - 1) u = (if u = n then None else at a n u)" for u using n by (auto simp: at_def)
  have inj: "inj_on a {1..n - 1}" using repsD(3) [OF r] by (rule inj_on_subset) auto
  have min: "h_min ?h = at a (n - 1) 1" unfolding at' using repsD(1) [OF r] n by (auto simp: loc_at_def)
  have nel: "h_nelts ?h = n - 1" by (cases "loc_at a n") simp_all
  have "h_left ?h (a m) = at a (n - 1) (2 * m) \<and> h_right ?h (a m) = at a (n - 1) (2 * m + 1) \<and> h_parent ?h (a m) = at a (n - 1) (m div 2)"
    if m: "1 \<le> m" "m \<le> n - 1" for m
  proof -
    have mn: "m \<le> n" "m div 2 \<noteq> n" using m by auto
    note d = repsD(4-6) [OF r m(1) mn(1)]
    have half: "1 \<le> n div 2" "n div 2 \<le> n" using m by auto
    note eq = repsD(7) [OF r half m(1) mn(1)]
    have "h_left ?h (a m) = at a (n - 1) (2 * m)" unfolding at' using d m eq by (auto simp: loc_at_def)
    moreover have "h_right ?h (a m) = at a (n - 1) (2 * m + 1)" unfolding at' using d m eq by (auto simp: loc_at_def)
    moreover have "h_parent ?h (a m) = at a (n - 1) (m div 2)" unfolding at' using d m mn by (auto simp: loc_at_def)
    ultimately show ?thesis by simp
  qed
  then show ?thesis using inj min nel by (simp add: reps_def)
qed

lemma replace_reps:
  assumes r: "reps h a n" and j: "1 \<le> j" "j \<le> n" and x: "x \<notin> a ` {1..n}"
  shows "reps (replace_node (a j) x h) (a(j := x)) n"
proof -
  let ?b = "a(j := x)" and ?h = "replace_node (a j) x h"
  have eq: "a m \<noteq> x" if "1 \<le> m" "m \<le> n" for m using x that by auto
  have xj: "a j \<noteq> x" using eq j by simp
  note d = repsD(4-6) [OF r]
  have at_eq: "(at a n u = Some (a v)) = (u = v)" if "1 \<le> v" "v \<le> n" for u v
    using that repsD(7) [OF r] by (auto simp: at_def)
  have at_x: "at a n u \<noteq> Some x" for u using eq by (auto simp: at_def)
  define h5 where "h5 = set_parent_of (h_right h (a j)) (Some x) (set_parent_of (h_left h (a j)) (Some x)
    (set_parent x (h_parent h (a j)) (set_right x (h_right h (a j)) (set_left x (h_left h (a j)) h))))"
  have f: "h_left h5 = (h_left h)(x := at a n (2 * j))" "h_right h5 = (h_right h)(x := at a n (2 * j + 1))"
    "h_min h5 = h_min h" "h_nelts h5 = h_nelts h"
    "h_parent h5 y = (if at a n (2 * j + 1) = Some y \<or> at a n (2 * j) = Some y then Some x else if y = x then at a n (j div 2) else h_parent h y)" for y
    using d [OF j] by (auto simp: h5_def)
  have pj: "h_parent h5 (a j) = at a n (j div 2)"
    unfolding f(5) using at_eq [OF j] j xj d [OF j] by auto
  have run: "?h = relink (at a n (j div 2)) (a j) x h5"
    unfolding replace_node_def Let_def pj [symmetric] h5_def using xj by (simp add: at_x)
  have atb: "at ?b n u = (if u = j then Some x else at a n u)" for u using j by (auto simp: at_def)
  have inj: "inj_on ?b {1..n}"
  proof (rule inj_onI)
    fix u v assume "u \<in> {1..n}" "v \<in> {1..n}" "?b u = ?b v"
    then show "u = v" using repsD(7) [OF r, of u v] eq [of u] eq [of v] by (simp split: if_splits)
  qed
  have min: "h_min ?h = at ?b n 1"
    unfolding run relink_simps f atb repsD(1) [OF r] using j by (auto simp: at_def)
  have nel: "h_nelts ?h = n" unfolding run relink_simps f repsD(2) [OF r] ..
  have "h_left ?h (?b m) = at ?b n (2 * m) \<and> h_right ?h (?b m) = at ?b n (2 * m + 1) \<and> h_parent ?h (?b m) = at ?b n (m div 2)"
    if m: "1 \<le> m" "m \<le> n" for m
  proof (cases "m = j")
    case True
    then have b: "?b m = x" by simp
    show ?thesis unfolding b run relink_left relink_right relink_simps(3) f atb
      using True j at_x by auto
  next
    case False
    then have b: "?b m = a m" by simp
    have ne: "a m \<noteq> x" "(at a n u = Some (a m)) = (u = m)" "(at a n u = Some (a j)) = (u = j)" for u
      using eq m at_eq [OF m] at_eq [OF j] by simp_all
    have jm: "j div 2 = m \<Longrightarrow> 2 * m = j \<or> 2 * m + 1 = j" using j m by auto
    have "h_left ?h (a m) = at ?b n (2 * m)"
      unfolding run relink_left f atb using ne d [OF m] m False j by auto
    moreover have "h_right ?h (a m) = at ?b n (2 * m + 1)"
      unfolding run relink_right f atb using ne d [OF m] m False j jm by auto
    moreover have "h_parent ?h (a m) = at ?b n (m div 2)"
      unfolding run relink_simps(3) f atb using ne d [OF m] m False j by auto
    ultimately show ?thesis unfolding b by simp
  qed
  then show ?thesis using inj min nel by (simp add: reps_def)
qed

lemma heap_remove_spec:
  assumes o: "weak_order lt" and r: "reps h a n" and ord: "ordered lt a n" and j: "1 \<le> j" "j \<le> n" and n: "n < 2 ^ 32"
  shows "\<exists>h' a'. heap_remove lt (a j) h = Some h' \<and> reps h' a' (n - 1) \<and> ordered lt a' (n - 1) \<and>
    a' ` {1..n - 1} = a ` {1..n} - {a j}"
proof -
  have n1: "1 \<le> n" using j by simp
  obtain path k where pk: "heap_path n 0 0 = (path, k)" by fastforce
  note place = heap_path_place [OF n1 n pk]
  obtain q where w: "heap_walk k path Min Min h = Some (q, loc_at a n)"
    using walk_spec [OF r, of 1 k path Min] place n1 by (simp add: loc_at_def)
  let ?h1 = "store (loc_at a n) None (h\<lparr>h_nelts := n - 1\<rparr>)"
  have r1: "reps ?h1 a (n - 1)" by (rule unlink_reps [OF r n1])
  have ld: "load (loc_at a n) (h\<lparr>h_nelts := n - 1\<rparr>) = Some (a n)"
  proof -
    have "load l (h\<lparr>h_nelts := n - 1\<rparr>) = load l h" for l by (cases l) simp_all
    then show ?thesis using load_loc_at [OF r n1] n1 by (simp add: at_def)
  qed
  have nel: "h_nelts h = n" using repsD(2) [OF r] .
  have last: "a ` {1..n} = insert (a n) (a ` {1..n - 1})" "a n \<notin> a ` {1..n - 1}"
  proof -
    have "{1..n} = insert n {1..n - 1}" using n1 by auto
    then show "a ` {1..n} = insert (a n) (a ` {1..n - 1})" by (metis image_insert)
    show "a n \<notin> a ` {1..n - 1}" 
    proof
      assume "a n \<in> a ` {1..n - 1}"
      then obtain m where "a n = a m" "1 \<le> m" "m \<le> n - 1" by auto
      then show False using repsD(7) [OF r n1 order_refl, of m] n1 by simp
    qed
  qed
  have ord1: "ordered lt a (n - 1)" using ord by (auto simp: ordered_def)
  show ?thesis
  proof (cases "j = n")
    case True
    have "(if load (loc_at a n) (h\<lparr>h_nelts := n - 1\<rparr>) = h_min ?h1 then ?h1\<lparr>h_min := None\<rparr> else ?h1) = ?h1"
      using repsD(1) [OF r1] repsD(7) [OF r n1 order_refl, of 1] n1 unfolding ld by (auto simp: at_def)
    then have "heap_remove lt (a j) h = Some ?h1"
      unfolding heap_remove_def Let_def nel pk prod.case w bind.bind_lunit using ld True n1 by simp
    then show ?thesis using r1 ord1 last True by (intro exI [of _ ?h1] exI [of _ a]) auto
  next
    case False
    then have jn: "j \<le> n - 1" using j by simp
    have ne: "a n \<noteq> a j" using repsD(7) [OF r n1 order_refl j] False by simp
    let ?h2 = "replace_node (a j) (a n) ?h1" and ?b = "a(j := a n)"
    have r2: "reps ?h2 ?b (n - 1)" by (rule replace_reps [OF r1 j(1) jn last(2)])
    have inv: "down_inv lt ?b (n - 1) j"
    proof -
      have e: "\<not> lt (a m) (a (m div 2))" if "2 \<le> m" "m \<le> n" for m
        using ord that by (auto simp: ordered_def edge_def)
      have "edge lt ?b m" if "2 \<le> m" "m \<le> n - 1" "m \<noteq> j" "m div 2 \<noteq> j" for m
        using e [of m] that by (simp add: edge_def)
      moreover have "\<not> lt (?b m) (?b (j div 2))" if m: "2 \<le> j" "m \<le> n - 1" "m div 2 = j" for m
      proof -
        have "\<not> lt (a j) (a (j div 2))" "\<not> lt (a m) (a j)" using e [of j] e [of m] m j by auto
        then have "\<not> lt (a m) (a (j div 2))" using weak_orderD(2) [OF o] by blast
        moreover have "m \<noteq> j" "j div 2 \<noteq> j" using m by auto
        ultimately show ?thesis by simp
      qed
      ultimately show ?thesis by (simp add: down_inv_def bridged_def)
    qed
    from heap_down_spec [OF o r2 j(1) jn inv] obtain h3 a3 j3 where
      3: "heap_down lt (a n) ?h2 = Some h3" "reps h3 a3 (n - 1)" "1 \<le> j3" "j3 \<le> n - 1" "a3 j3 = a n"
        "up_inv lt a3 (n - 1) j3" "a3 ` {1..n - 1} = ?b ` {1..n - 1}" by auto
    from heap_up_spec [OF o 3(2,3,4,6)] obtain h4 a4 where
      4: "heap_up lt (a n) h3 = Some h4" "reps h4 a4 (n - 1)" "ordered lt a4 (n - 1)" "a4 ` {1..n - 1} = a3 ` {1..n - 1}"
      unfolding 3(5) by blast
    have "heap_remove lt (a j) h = Some h4"
      unfolding heap_remove_def Let_def nel pk prod.case w bind.bind_lunit ld
      using 3(1) 4(1) ne n1 by simp
    moreover have "?b ` {1..n - 1} = a ` {1..n} - {a j}"
    proof -
      have "?b ` {1..n - 1} = insert (a n) (a ` ({1..n - 1} - {j}))" using j(1) jn by (auto simp: image_iff)
      also have "a ` ({1..n - 1} - {j}) = a ` {1..n - 1} - {a j}"
        using repsD(3) [OF r1] j(1) jn by (subst inj_on_image_set_diff [of a "{1..n - 1}"]) auto
      finally show ?thesis using last ne by auto
    qed
    ultimately show ?thesis using 4 3(7) by auto
  qed
qed

subsection \<open>The heap provides a priority queue\<close>

text \<open>
  What the timers rely on. The order is an argument of every operation, since it is read
  from the timers themselves: the queue stays valid when the order changes outside of it.
\<close>

locale priority_queue =
  fixes insert :: "('a \<Rightarrow> 'a \<Rightarrow> bool) \<Rightarrow> 'a \<Rightarrow> 'q \<Rightarrow> 'q option"
    and remove :: "('a \<Rightarrow> 'a \<Rightarrow> bool) \<Rightarrow> 'a \<Rightarrow> 'q \<Rightarrow> 'q option"
    and min :: "'q \<Rightarrow> 'a option"
    and holds :: "('a \<Rightarrow> 'a \<Rightarrow> bool) \<Rightarrow> 'q \<Rightarrow> 'a set \<Rightarrow> bool"
    and order_ok :: "('a \<Rightarrow> 'a \<Rightarrow> bool) \<Rightarrow> bool"
    and limit :: nat
  assumes insert_ok: "order_ok lt \<Longrightarrow> holds lt q S \<Longrightarrow> x \<notin> S \<Longrightarrow> card S < limit \<Longrightarrow>
      \<exists>q'. insert lt x q = Some q' \<and> holds lt q' (Set.insert x S)"
    and remove_ok: "order_ok lt \<Longrightarrow> holds lt q S \<Longrightarrow> x \<in> S \<Longrightarrow> card S \<le> limit \<Longrightarrow>
      \<exists>q'. remove lt x q = Some q' \<and> holds lt q' (S - {x})"
    and min_ok: "order_ok lt \<Longrightarrow> holds lt q S \<Longrightarrow>
      (case min q of None \<Rightarrow> S = {} | Some x \<Rightarrow> x \<in> S \<and> (\<forall>y\<in>S. \<not> lt y x))"
    and holds_finite: "holds lt q S \<Longrightarrow> finite S"
    and holds_cong: "holds lt q S \<Longrightarrow> (\<And>x y. x \<in> S \<Longrightarrow> y \<in> S \<Longrightarrow> lt x y = lt' x y) \<Longrightarrow> holds lt' q S"
begin

text \<open>Taking an element out and putting it back under a new order keeps the queue.\<close>

lemma requeue:
  assumes "order_ok lt" "order_ok lt'" "holds lt q S" "x \<in> S" "card S \<le> limit"
    and "\<And>y z. y \<in> S - {x} \<Longrightarrow> z \<in> S - {x} \<Longrightarrow> lt y z = lt' y z"
  shows "\<exists>q1 q2. remove lt x q = Some q1 \<and> holds lt q1 (S - {x}) \<and> insert lt' x q1 = Some q2 \<and> holds lt' q2 S"
proof -
  obtain q1 where 1: "remove lt x q = Some q1" "holds lt q1 (S - {x})"
    using remove_ok [OF assms(1,3,4,5)] by blast
  have c: "card (S - {x}) < limit"
    using assms(4,5) holds_finite [OF assms(3)] card_gt_0_iff [of S] by (auto simp: card_Diff_singleton)
  have "holds lt' q1 (S - {x})" using holds_cong [OF 1(2)] assms(6) by blast
  from insert_ok [OF assms(2) this _ c, of x] obtain q2 where "insert lt' x q1 = Some q2" "holds lt' q2 S"
    using assms(4) by (auto simp: insert_absorb)
  then show ?thesis using 1 by blast
qed

end

definition heap_holds :: "(nat \<Rightarrow> nat \<Rightarrow> bool) \<Rightarrow> heap \<Rightarrow> nat set \<Rightarrow> bool" where
  "heap_holds lt h S \<longleftrightarrow> (\<exists>a n. reps h a n \<and> ordered lt a n \<and> S = a ` {1..n})"

lemma heap_card: "reps h a n \<Longrightarrow> card (a ` {1..n}) = n"
  using repsD(3) by (simp add: card_image)

lemma root_least:
  assumes o: "weak_order lt" and ord: "ordered lt a n"
  shows "1 \<le> m \<Longrightarrow> m \<le> n \<Longrightarrow> \<not> lt (a m) (a 1)"
proof (induction m rule: less_induct)
  case (less m)
  show ?case
  proof (cases "m = 1")
    case True
    then show ?thesis using weak_orderD(1) [OF o] by blast
  next
    case False
    then have m: "2 \<le> m" "m div 2 < m" "1 \<le> m div 2" "m div 2 \<le> n" using less.prems by auto
    then have "\<not> lt (a m) (a (m div 2))" using ord less.prems by (simp add: ordered_def edge_def)
    moreover have "\<not> lt (a (m div 2)) (a 1)" using less.IH m by blast
    ultimately show ?thesis using weak_orderD(2) [OF o] by blast
  qed
qed

interpretation tq: priority_queue heap_insert heap_remove heap_min heap_holds weak_order "2 ^ 32 - 2"
proof
  fix lt h S x
  assume o: "weak_order lt" and h: "heap_holds lt h S" and x: "x \<notin> S" and c: "card S < 2 ^ 32 - 2"
  obtain a n where a: "reps h a n" "ordered lt a n" "S = a ` {1..n}" using h unfolding heap_holds_def by blast
  have "n + 1 < 2 ^ 32" using c heap_card [OF a(1)] a(3) by simp
  from heap_insert_spec [OF o a(1,2) _ this, of x] show "\<exists>h'. heap_insert lt x h = Some h' \<and> heap_holds lt h' (insert x S)"
    using x a(3) unfolding heap_holds_def by metis
next
  fix lt h S x
  assume o: "weak_order lt" and h: "heap_holds lt h S" and x: "x \<in> S" and c: "card S \<le> 2 ^ 32 - 2"
  obtain a n where a: "reps h a n" "ordered lt a n" "S = a ` {1..n}" using h unfolding heap_holds_def by blast
  then obtain j where j: "1 \<le> j" "j \<le> n" "x = a j" using x by auto
  have "n < 2 ^ 32" using c heap_card [OF a(1)] a(3) by simp
  from heap_remove_spec [OF o a(1,2) j(1,2) this] show "\<exists>h'. heap_remove lt x h = Some h' \<and> heap_holds lt h' (S - {x})"
    using a(3) j(3) unfolding heap_holds_def by metis
next
  fix lt h S
  assume o: "weak_order lt" and h: "heap_holds lt h S"
  obtain a n where a: "reps h a n" "ordered lt a n" "S = a ` {1..n}" using h unfolding heap_holds_def by blast
  show "case heap_min h of None \<Rightarrow> S = {} | Some x \<Rightarrow> x \<in> S \<and> (\<forall>y\<in>S. \<not> lt y x)"
    using root_least [OF o a(2)] repsD(1) [OF a(1)] by (auto simp: heap_min_def at_def a(3))
next
  fix lt h S
  assume "heap_holds lt h S"
  then show "finite S" by (auto simp: heap_holds_def)
next
  fix lt h S lt'
  assume h: "heap_holds lt h S" and eq: "\<And>x y. x \<in> S \<Longrightarrow> y \<in> S \<Longrightarrow> lt x y = lt' x y"
  obtain a n where a: "reps h a n" "ordered lt a n" "S = a ` {1..n}" using h unfolding heap_holds_def by blast
  have "ordered lt' a n"
    unfolding ordered_def edge_def
  proof (intro allI impI)
    fix m assume m: "2 \<le> m \<and> m \<le> n"
    then have "m \<in> {1..n}" "m div 2 \<in> {1..n}" by auto
    then have "a m \<in> S" "a (m div 2) \<in> S" unfolding a(3) by blast+
    then show "\<not> lt' (a m) (a (m div 2))" 
      using eq [of "a m" "a (m div 2)"] a(2) m unfolding ordered_def edge_def by blast
  qed
  then show "heap_holds lt' h S" using a unfolding heap_holds_def by blast
qed

lemma heap_init_holds: "heap_holds lt (heap_init h) {}"
  unfolding heap_holds_def
  by (rule exI [of _ id], rule exI [of _ 0]) (simp add: reps_def heap_init_def at_def ordered_def)

subsection \<open>Properties\<close>

text \<open>
  C28: inserting into the heap keeps it a heap. The pointer structure that represents a complete
  binary tree whose edges are in order represents one more element afterwards: no null
  pointer is followed, the loops end, the links of every node are right, and the order holds.
\<close>

theorem heap_insert_correct:
  assumes "weak_order lt" and "heap_holds lt h S" and "x \<notin> S" and "card S < 2 ^ 32 - 2"
  shows "\<exists>h'. heap_insert lt x h = Some h' \<and> heap_holds lt h' (insert x S)"
  by (rule tq.insert_ok [OF assms])

definition empty_heap :: heap where
  "empty_heap = heap_init \<lparr>h_min = None, h_nelts = 0, h_left = (\<lambda>_. None), h_right = (\<lambda>_. None), h_parent = (\<lambda>_. None)\<rparr>"

lemma nat_order: "weak_order (<)"
  by (auto simp: weak_order_def)

theorem heap_insert_correct_witness:
  "\<exists>h'. heap_insert (<) 7 empty_heap = Some h' \<and> heap_holds (<) h' {7}"
  using heap_insert_correct [OF nat_order, of empty_heap "{}" 7] heap_init_holds by (simp add: empty_heap_def)

text \<open>
  C29: removing any element of the heap, not only the least, takes out exactly that element and
  leaves a heap; the least element is then the minimum of what remains.
\<close>

theorem heap_remove_correct:
  assumes "weak_order lt" and "heap_holds lt h S" and "x \<in> S" and "card S \<le> 2 ^ 32 - 2"
  shows "\<exists>h'. heap_remove lt x h = Some h' \<and> heap_holds lt h' (S - {x}) \<and>
    (case heap_min h' of None \<Rightarrow> S = {x} | Some y \<Rightarrow> y \<in> S - {x} \<and> (\<forall>z\<in>S - {x}. \<not> lt z y))"
proof -
  obtain h' where h': "heap_remove lt x h = Some h'" "heap_holds lt h' (S - {x})" using tq.remove_ok [OF assms] by blast
  then show ?thesis using tq.min_ok [OF assms(1) h'(2)] assms(3) by (auto split: option.splits)
qed

theorem heap_remove_correct_witness:
  "\<exists>h h'. heap_insert (<) 7 empty_heap = Some h \<and> heap_remove (<) 7 h = Some h' \<and> heap_min h' = None"
proof -
  obtain h where h: "heap_insert (<) 7 empty_heap = Some h" "heap_holds (<) h {7}"
    using tq.insert_ok [OF nat_order, of empty_heap "{}" 7] heap_init_holds by (auto simp: empty_heap_def)
  then show ?thesis using heap_remove_correct [OF nat_order h(2), of 7] by (auto split: option.splits)
qed

end
