(* ===== verification/Uv_Timer.thy ===== *)
theory Uv_Timer
  imports Uv_Heap
begin

section \<open>Handles and timers of the event loop\<close>

text \<open>
  The handle macros of \<open>src/deps/libuv/src/uv-common.h\<close> and the timers of
  \<open>src/deps/libuv/src/timer.c\<close>. A timer is a number; the number is the address of the heap
  node embedded in it, so \<open>container_of\<close> is the identity. A callback is a number as well, a
  null function pointer \<^const>\<open>None\<close>; what calling it does to the loop is an argument of
  \<open>uv__run_timers\<close>, and the calls made are recorded in \<open>lp_calls\<close>. Times are 64-bit words.
\<close>

definition UV_HANDLE_CLOSING :: "32 word" where "UV_HANDLE_CLOSING = 0x00000001"
definition UV_HANDLE_CLOSED :: "32 word" where "UV_HANDLE_CLOSED = 0x00000002"
definition UV_HANDLE_ACTIVE :: "32 word" where "UV_HANDLE_ACTIVE = 0x00000004"
definition UV_HANDLE_REF :: "32 word" where "UV_HANDLE_REF = 0x00000008"
definition UV_EINVAL :: int where "UV_EINVAL = -22"

record uv_timer =
  t_flags :: "32 word"
  t_cb :: "nat option"
  t_timeout :: "64 word"
  t_repeat :: "64 word"
  t_start_id :: "64 word"

record uv_loop =
  lp_time :: "64 word"
  lp_timer_counter :: "64 word"
  lp_active_handles :: "32 word"
  lp_handle_queue :: "nat list"
  lp_heap :: heap
  lp_timers :: "nat \<Rightarrow> uv_timer"
  lp_calls :: "(nat \<times> nat) list"

subsection \<open>The handle macros\<close>

definition uv__is_active :: "uv_timer \<Rightarrow> bool" where
  "uv__is_active t \<longleftrightarrow> t_flags t AND UV_HANDLE_ACTIVE \<noteq> 0"

definition uv__is_closing :: "uv_timer \<Rightarrow> bool" where
  "uv__is_closing t \<longleftrightarrow> t_flags t AND (UV_HANDLE_CLOSING OR UV_HANDLE_CLOSED) \<noteq> 0"

definition uv__has_ref :: "uv_timer \<Rightarrow> bool" where
  "uv__has_ref t \<longleftrightarrow> t_flags t AND UV_HANDLE_REF \<noteq> 0"

definition upd_timer :: "nat \<Rightarrow> (uv_timer \<Rightarrow> uv_timer) \<Rightarrow> uv_loop \<Rightarrow> uv_loop" where
  "upd_timer i f lp = lp\<lparr>lp_timers := (lp_timers lp)(i := f (lp_timers lp i))\<rparr>"

definition set_flags :: "nat \<Rightarrow> 32 word \<Rightarrow> uv_loop \<Rightarrow> uv_loop" where
  "set_flags i m = upd_timer i (\<lambda>t. t\<lparr>t_flags := t_flags t OR m\<rparr>)"

definition clear_flags :: "nat \<Rightarrow> 32 word \<Rightarrow> uv_loop \<Rightarrow> uv_loop" where
  "clear_flags i m = upd_timer i (\<lambda>t. t\<lparr>t_flags := t_flags t AND NOT m\<rparr>)"

definition uv__has_active_handles :: "uv_loop \<Rightarrow> bool" where
  "uv__has_active_handles lp \<longleftrightarrow> lp_active_handles lp > 0"

definition uv__active_handle_add :: "uv_loop \<Rightarrow> uv_loop" where
  "uv__active_handle_add lp = lp\<lparr>lp_active_handles := lp_active_handles lp + 1\<rparr>"

definition uv__active_handle_rm :: "uv_loop \<Rightarrow> uv_loop" where
  "uv__active_handle_rm lp = lp\<lparr>lp_active_handles := lp_active_handles lp - 1\<rparr>"

definition uv__handle_start :: "nat \<Rightarrow> uv_loop \<Rightarrow> uv_loop" where
  "uv__handle_start i lp =
     (if t_flags (lp_timers lp i) AND UV_HANDLE_ACTIVE \<noteq> 0 then lp
      else let lp = set_flags i UV_HANDLE_ACTIVE lp in
        if t_flags (lp_timers lp i) AND UV_HANDLE_REF \<noteq> 0 then uv__active_handle_add lp else lp)"

definition uv__handle_stop :: "nat \<Rightarrow> uv_loop \<Rightarrow> uv_loop" where
  "uv__handle_stop i lp =
     (if t_flags (lp_timers lp i) AND UV_HANDLE_ACTIVE = 0 then lp
      else let lp = clear_flags i UV_HANDLE_ACTIVE lp in
        if t_flags (lp_timers lp i) AND UV_HANDLE_REF \<noteq> 0 then uv__active_handle_rm lp else lp)"

definition uv__handle_ref :: "nat \<Rightarrow> uv_loop \<Rightarrow> uv_loop" where
  "uv__handle_ref i lp =
     (if t_flags (lp_timers lp i) AND UV_HANDLE_REF \<noteq> 0 then lp
      else let lp = set_flags i UV_HANDLE_REF lp in
        if t_flags (lp_timers lp i) AND UV_HANDLE_CLOSING \<noteq> 0 then lp
        else if t_flags (lp_timers lp i) AND UV_HANDLE_ACTIVE \<noteq> 0 then uv__active_handle_add lp else lp)"

definition uv__handle_unref :: "nat \<Rightarrow> uv_loop \<Rightarrow> uv_loop" where
  "uv__handle_unref i lp =
     (if t_flags (lp_timers lp i) AND UV_HANDLE_REF = 0 then lp
      else let lp = clear_flags i UV_HANDLE_REF lp in
        if t_flags (lp_timers lp i) AND UV_HANDLE_CLOSING \<noteq> 0 then lp
        else if t_flags (lp_timers lp i) AND UV_HANDLE_ACTIVE \<noteq> 0 then uv__active_handle_rm lp else lp)"

definition uv__handle_init :: "nat \<Rightarrow> uv_loop \<Rightarrow> uv_loop" where
  "uv__handle_init i lp = (upd_timer i (\<lambda>t. t\<lparr>t_flags := UV_HANDLE_REF\<rparr>) lp)
     \<lparr>lp_handle_queue := lp_handle_queue lp @ [i]\<rparr>"

subsection \<open>Timers\<close>

definition timer_less_than :: "uv_loop \<Rightarrow> nat \<Rightarrow> nat \<Rightarrow> bool" where
  "timer_less_than lp ha hb =
     (let a = lp_timers lp ha; b = lp_timers lp hb in
      if t_timeout a < t_timeout b then True
      else if t_timeout b < t_timeout a then False
      else t_start_id a < t_start_id b)"

definition uv_timer_init :: "nat \<Rightarrow> uv_loop \<Rightarrow> int \<times> uv_loop" where
  "uv_timer_init i lp =
     (0, upd_timer i (\<lambda>t. t\<lparr>t_cb := None, t_timeout := 0, t_repeat := 0\<rparr>) (uv__handle_init i lp))"

definition uv_timer_stop :: "nat \<Rightarrow> uv_loop \<Rightarrow> (int \<times> uv_loop) option" where
  "uv_timer_stop i lp =
     (if \<not> uv__is_active (lp_timers lp i) then Some (0, lp)
      else do {
        h \<leftarrow> heap_remove (timer_less_than lp) i (lp_heap lp);
        Some (0, uv__handle_stop i (lp\<lparr>lp_heap := h\<rparr>))
      })"

definition uv_timer_start ::
  "nat \<Rightarrow> nat option \<Rightarrow> 64 word \<Rightarrow> 64 word \<Rightarrow> uv_loop \<Rightarrow> (int \<times> uv_loop) option" where
  "uv_timer_start i cb timeout rep lp =
     (if uv__is_closing (lp_timers lp i) \<or> cb = None then Some (UV_EINVAL, lp)
      else do {
        (_, lp) \<leftarrow> (if uv__is_active (lp_timers lp i) then uv_timer_stop i lp else Some (0, lp));
        let clamped_timeout = lp_time lp + timeout;
        let clamped_timeout = (if clamped_timeout < timeout then -1 else clamped_timeout);
        let lp = upd_timer i (\<lambda>t. t\<lparr>t_cb := cb, t_timeout := clamped_timeout, t_repeat := rep,
          t_start_id := lp_timer_counter lp\<rparr>) lp;
        let lp = lp\<lparr>lp_timer_counter := lp_timer_counter lp + 1\<rparr>;
        h \<leftarrow> heap_insert (timer_less_than lp) i (lp_heap lp);
        Some (0, uv__handle_start i (lp\<lparr>lp_heap := h\<rparr>))
      })"

definition uv_timer_again :: "nat \<Rightarrow> uv_loop \<Rightarrow> (int \<times> uv_loop) option" where
  "uv_timer_again i lp =
     (let t = lp_timers lp i in
      if t_cb t = None then Some (UV_EINVAL, lp)
      else if t_repeat t \<noteq> 0 then do {
        (_, lp) \<leftarrow> uv_timer_stop i lp;
        (_, lp) \<leftarrow> uv_timer_start i (t_cb (lp_timers lp i)) (t_repeat (lp_timers lp i)) (t_repeat (lp_timers lp i)) lp;
        Some (0, lp)
      } else Some (0, lp))"

definition uv_timer_set_repeat :: "nat \<Rightarrow> 64 word \<Rightarrow> uv_loop \<Rightarrow> uv_loop" where
  "uv_timer_set_repeat i rep lp = upd_timer i (\<lambda>t. t\<lparr>t_repeat := rep\<rparr>) lp"

definition uv_timer_get_repeat :: "nat \<Rightarrow> uv_loop \<Rightarrow> 64 word" where
  "uv_timer_get_repeat i lp = t_repeat (lp_timers lp i)"

definition uv_timer_get_due_in :: "nat \<Rightarrow> uv_loop \<Rightarrow> 64 word" where
  "uv_timer_get_due_in i lp =
     (if lp_time lp \<ge> t_timeout (lp_timers lp i) then 0 else t_timeout (lp_timers lp i) - lp_time lp)"

definition INT_MAX :: "64 word" where "INT_MAX = 2147483647"

definition uv__next_timeout :: "uv_loop \<Rightarrow> int" where
  "uv__next_timeout lp = (case heap_min (lp_heap lp) of
     None \<Rightarrow> -1
   | Some i \<Rightarrow>
       let handle = lp_timers lp i in
       if t_timeout handle \<le> lp_time lp then 0
       else let diff = t_timeout handle - lp_time lp; diff = (if diff > INT_MAX then INT_MAX else diff) in uint diff)"

type_synonym timer_cbs = "nat \<Rightarrow> nat \<Rightarrow> uv_loop \<Rightarrow> uv_loop option"

partial_function (option) uv__run_timers :: "timer_cbs \<Rightarrow> uv_loop \<Rightarrow> uv_loop option" where
  "uv__run_timers call lp = (case heap_min (lp_heap lp) of
     None \<Rightarrow> Some lp
   | Some i \<Rightarrow>
       if t_timeout (lp_timers lp i) > lp_time lp then Some lp
       else do {
         (_, lp) \<leftarrow> uv_timer_stop i lp;
         (_, lp) \<leftarrow> uv_timer_again i lp;
         cb \<leftarrow> t_cb (lp_timers lp i);
         lp \<leftarrow> call cb i (lp\<lparr>lp_calls := lp_calls lp @ [(cb, i)]\<rparr>);
         uv__run_timers call lp
       })"

declare uv__run_timers.simps [code]

definition uv__timer_close :: "nat \<Rightarrow> uv_loop \<Rightarrow> uv_loop option" where
  "uv__timer_close i lp = map_option snd (uv_timer_stop i lp)"

subsection \<open>The invariant of the timers\<close>

definition active_timers :: "uv_loop \<Rightarrow> nat set" where
  "active_timers lp = {i. uv__is_active (lp_timers lp i)}"

text \<open>
  The heap holds exactly the active timers, in the order of their times; every active timer
  has a callback and is not being closed.
\<close>

definition timers_ok :: "uv_loop \<Rightarrow> bool" where
  "timers_ok lp \<longleftrightarrow> heap_holds (timer_less_than lp) (lp_heap lp) (active_timers lp) \<and>
     (\<forall>i\<in>active_timers lp. t_cb (lp_timers lp i) \<noteq> None \<and> \<not> uv__is_closing (lp_timers lp i)) \<and>
     card (active_timers lp) < 2 ^ 32 - 2"

lemma timer_order: "weak_order (timer_less_than lp)"
  by (auto simp: weak_order_def timer_less_than_def Let_def split: if_splits)

lemma and_not_disjoint: "m AND k = 0 \<Longrightarrow> (f AND NOT m) AND k = f AND k" for f m k :: "'a::len word"
proof (rule bit_word_eqI)
  fix n assume mk: "m AND k = 0" and n: "n < LENGTH('a)"
  have "bit (m AND k) n = bit (0 :: 'a word) n" by (simp only: mk)
  then show "bit ((f AND NOT m) AND k) n = bit (f AND k) n" using n by (auto simp: bit_simps)
qed

lemma timer_less_than_cong:
  assumes "\<And>x. t_timeout (lp_timers lp' x) = t_timeout (lp_timers lp x) \<and> t_start_id (lp_timers lp' x) = t_start_id (lp_timers lp x)"
  shows "timer_less_than lp' = timer_less_than lp"
  using assms by (intro ext) (simp add: timer_less_than_def Let_def)

lemma flag_tests [simp]:
  "uv__is_active (t\<lparr>t_flags := t_flags t AND NOT UV_HANDLE_ACTIVE\<rparr>) = False"
  "uv__is_active (t\<lparr>t_flags := t_flags t OR UV_HANDLE_ACTIVE\<rparr>) = True"
  "uv__is_closing (t\<lparr>t_flags := t_flags t AND NOT UV_HANDLE_ACTIVE\<rparr>) = uv__is_closing t"
  "uv__is_closing (t\<lparr>t_flags := t_flags t OR UV_HANDLE_ACTIVE\<rparr>) = uv__is_closing t"
proof -
  have d: "UV_HANDLE_ACTIVE AND (UV_HANDLE_CLOSING OR UV_HANDLE_CLOSED) = 0"
    by (simp add: UV_HANDLE_ACTIVE_def UV_HANDLE_CLOSING_def UV_HANDLE_CLOSED_def)
  show "uv__is_active (t\<lparr>t_flags := t_flags t AND NOT UV_HANDLE_ACTIVE\<rparr>) = False"
    by (simp add: uv__is_active_def and.assoc)
  show "uv__is_active (t\<lparr>t_flags := t_flags t OR UV_HANDLE_ACTIVE\<rparr>) = True"
    by (simp add: uv__is_active_def bit.conj_disj_distrib2 UV_HANDLE_ACTIVE_def)
  show "uv__is_closing (t\<lparr>t_flags := t_flags t AND NOT UV_HANDLE_ACTIVE\<rparr>) = uv__is_closing t"
    using and_not_disjoint [OF d] by (simp add: uv__is_closing_def)
  show "uv__is_closing (t\<lparr>t_flags := t_flags t OR UV_HANDLE_ACTIVE\<rparr>) = uv__is_closing t"
    using d by (simp add: uv__is_closing_def bit.conj_disj_distrib2)
qed

lemma upd_timer_simps [simp]:
  "lp_timers (upd_timer i f lp) = (lp_timers lp)(i := f (lp_timers lp i))" "lp_time (upd_timer i f lp) = lp_time lp"
  "lp_heap (upd_timer i f lp) = lp_heap lp" "lp_calls (upd_timer i f lp) = lp_calls lp"
  "lp_timer_counter (upd_timer i f lp) = lp_timer_counter lp"
  by (simp_all add: upd_timer_def)

text \<open>What starting and stopping a handle leave: only the active flag of the timer changes.\<close>

definition with_active :: "bool \<Rightarrow> uv_timer \<Rightarrow> uv_timer" where
  "with_active on t = t\<lparr>t_flags := if on then t_flags t OR UV_HANDLE_ACTIVE else t_flags t AND NOT UV_HANDLE_ACTIVE\<rparr>"

lemma with_active_simps [simp]:
  "uv__is_active (with_active on t) = on" "uv__is_closing (with_active on t) = uv__is_closing t"
  "t_cb (with_active on t) = t_cb t" "t_timeout (with_active on t) = t_timeout t"
  "t_repeat (with_active on t) = t_repeat t" "t_start_id (with_active on t) = t_start_id t"
  by (auto simp: with_active_def)

lemma handle_start_stop:
  assumes "uv__is_active (lp_timers lp i) = (\<not> on)"
  defines "lp' \<equiv> (if on then uv__handle_start i lp else uv__handle_stop i lp)"
  shows "lp_timers lp' = (lp_timers lp)(i := with_active on (lp_timers lp i))" "lp_time lp' = lp_time lp"
    "lp_heap lp' = lp_heap lp" "lp_calls lp' = lp_calls lp" "lp_timer_counter lp' = lp_timer_counter lp"
  using assms(1)
  by (auto simp: lp'_def uv__handle_start_def uv__handle_stop_def uv__is_active_def set_flags_def clear_flags_def
      uv__active_handle_add_def uv__active_handle_rm_def with_active_def Let_def)

text \<open>Stopping an active timer.\<close>

lemma stop_active:
  assumes ok: "timers_ok lp" and i: "i \<in> active_timers lp"
  shows "\<exists>lp'. uv_timer_stop i lp = Some (0, lp') \<and> timers_ok lp' \<and>
    lp_timers lp' = (lp_timers lp)(i := with_active False (lp_timers lp i)) \<and> active_timers lp' = active_timers lp - {i} \<and>
    lp_time lp' = lp_time lp \<and> lp_calls lp' = lp_calls lp \<and> lp_timer_counter lp' = lp_timer_counter lp"
proof -
  have act: "uv__is_active (lp_timers lp i)" using i by (simp add: active_timers_def)
  have h: "heap_holds (timer_less_than lp) (lp_heap lp) (active_timers lp)" "card (active_timers lp) \<le> 2 ^ 32 - 2"
    using ok by (simp_all add: timers_ok_def)
  obtain h' where h': "heap_remove (timer_less_than lp) i (lp_heap lp) = Some h'"
    "heap_holds (timer_less_than lp) h' (active_timers lp - {i})"
    using tq.remove_ok [OF timer_order h(1) i h(2)] by blast
  let ?lp = "uv__handle_stop i (lp\<lparr>lp_heap := h'\<rparr>)"
  have s: "lp_timers ?lp = (lp_timers lp)(i := with_active False (lp_timers lp i))" "lp_time ?lp = lp_time lp"
    "lp_heap ?lp = h'" "lp_calls ?lp = lp_calls lp" "lp_timer_counter ?lp = lp_timer_counter lp"
    using handle_start_stop [of "lp\<lparr>lp_heap := h'\<rparr>" i False] act by simp_all
  have a: "active_timers ?lp = active_timers lp - {i}" by (auto simp: active_timers_def s)
  have lt: "timer_less_than ?lp = timer_less_than lp" by (rule timer_less_than_cong) (simp add: s)
  have fin: "finite (active_timers lp)" using tq.holds_finite [OF h(1)] .
  have "card (active_timers lp - {i}) \<le> card (active_timers lp)" using fin by (intro card_mono) auto
  then have "timers_ok ?lp" using ok h'(2) by (auto simp: timers_ok_def a lt s)
  then show ?thesis using act h'(1) s a by (simp add: uv_timer_stop_def)
qed

definition due_at :: "64 word \<Rightarrow> 64 word \<Rightarrow> 64 word" where
  "due_at now timeout = (if now + timeout < timeout then -1 else now + timeout)"

lemma due_at_spec: "uint (due_at now timeout) = min (uint now + uint timeout) (2 ^ 64 - 1)"
proof -
  have r: "0 \<le> uint now" "uint now < 2 ^ 64" "0 \<le> uint timeout" "uint timeout < 2 ^ 64"
    using uint_lt2p [of now] uint_lt2p [of timeout] by simp_all
  have sum: "uint (now + timeout) = (uint now + uint timeout) mod 2 ^ 64" by (simp add: uint_word_ariths)
  have m1: "uint (-1 :: 64 word) = 2 ^ 64 - 1" by (simp add: unsigned_minus_1_eq_mask mask_eq_exp_minus_1)
  show ?thesis
  proof (cases "uint now + uint timeout < 2 ^ 64")
    case True
    then have "uint (now + timeout) = uint now + uint timeout" using sum r by simp
    then show ?thesis using True r by (simp add: due_at_def word_less_def)
  next
    case False
    have "(uint now + uint timeout) mod 2 ^ 64 = (uint now + uint timeout - 2 ^ 64) mod 2 ^ 64"
      by (simp only: minus_mod_self2)
    also have "\<dots> = uint now + uint timeout - 2 ^ 64"
      using False r by (intro mod_pos_pos_trivial) auto
    finally have "(uint now + uint timeout) mod 2 ^ 64 = uint now + uint timeout - 2 ^ 64" .
    then have "now + timeout < timeout" using sum r by (simp add: word_less_def)
    then show ?thesis using False m1 by (simp add: due_at_def)
  qed
qed

definition started :: "uv_loop \<Rightarrow> nat \<Rightarrow> nat \<Rightarrow> 64 word \<Rightarrow> 64 word \<Rightarrow> uv_timer" where
  "started lp i cb timeout rep = with_active True ((lp_timers lp i)\<lparr>t_cb := Some cb,
     t_timeout := due_at (lp_time lp) timeout, t_repeat := rep, t_start_id := lp_timer_counter lp\<rparr>)"

lemma start_inactive:
  assumes ok: "timers_ok lp" and i: "i \<notin> active_timers lp" and room: "card (active_timers lp) + 1 < 2 ^ 32 - 2"
    and cl: "\<not> uv__is_closing (lp_timers lp i)"
  shows "\<exists>lp'. uv_timer_start i (Some cb) timeout rep lp = Some (0, lp') \<and> timers_ok lp' \<and>
    lp_timers lp' = (lp_timers lp)(i := started lp i cb timeout rep) \<and> active_timers lp' = insert i (active_timers lp) \<and>
    lp_time lp' = lp_time lp \<and> lp_calls lp' = lp_calls lp \<and> lp_timer_counter lp' = lp_timer_counter lp + 1"
proof -
  have act: "\<not> uv__is_active (lp_timers lp i)" using i by (simp add: active_timers_def)
  define t where "t = (lp_timers lp i)\<lparr>t_cb := Some cb, t_timeout := due_at (lp_time lp) timeout, t_repeat := rep, t_start_id := lp_timer_counter lp\<rparr>"
  have st: "started lp i cb timeout rep = with_active True t" by (simp add: started_def t_def)
  define lp1 where "lp1 = (upd_timer i (\<lambda>_. t) lp)\<lparr>lp_timer_counter := lp_timer_counter lp + 1\<rparr>"
  have lp1: "lp_timers lp1 = (lp_timers lp)(i := t)" by (simp add: lp1_def)
  have t: "uv__is_active t = uv__is_active (lp_timers lp i)" "uv__is_closing t = uv__is_closing (lp_timers lp i)"
    by (simp_all add: t_def uv__is_active_def uv__is_closing_def)
  have h: "heap_holds (timer_less_than lp) (lp_heap lp) (active_timers lp)" using ok by (simp add: timers_ok_def)
  have "heap_holds (timer_less_than lp1) (lp_heap lp) (active_timers lp)"
    by (rule tq.holds_cong [OF h]) (use i in \<open>auto simp: timer_less_than_def lp1_def\<close>)
  from tq.insert_ok [OF timer_order this i] obtain h' where
    h': "heap_insert (timer_less_than lp1) i (lp_heap lp1) = Some h'" "heap_holds (timer_less_than lp1) h' (insert i (active_timers lp))"
    using room by (auto simp: lp1_def)
  let ?lp = "uv__handle_start i (lp1\<lparr>lp_heap := h'\<rparr>)"
  have s: "lp_timers ?lp = (lp_timers lp)(i := with_active True t)" "lp_time ?lp = lp_time lp"
    "lp_heap ?lp = h'" "lp_calls ?lp = lp_calls lp" "lp_timer_counter ?lp = lp_timer_counter lp + 1"
    using handle_start_stop [of "lp1\<lparr>lp_heap := h'\<rparr>" i True] act t(1) by (simp_all add: lp1_def)
  have a: "active_timers ?lp = insert i (active_timers lp)" by (auto simp: active_timers_def s)
  have lt: "timer_less_than ?lp = timer_less_than lp1" by (rule timer_less_than_cong) (simp only: s lp1, simp)
  have fin: "finite (active_timers lp)" using tq.holds_finite [OF h] .
  have "card (insert i (active_timers lp)) < 2 ^ 32 - 2" using fin room i by simp
  then have "timers_ok ?lp" using ok h'(2) i t(2) cl by (auto simp: timers_ok_def a lt s t_def)
  moreover have "uv_timer_start i (Some cb) timeout rep lp = Some (0, ?lp)"
    using act cl h'(1) by (simp add: uv_timer_start_def Let_def lp1_def t_def due_at_def upd_timer_def)
  ultimately show ?thesis using s a unfolding st by blast
qed

subsection \<open>Running the timers\<close>

definition due :: "uv_loop \<Rightarrow> nat set" where
  "due lp = {i \<in> active_timers lp. t_timeout (lp_timers lp i) \<le> lp_time lp}"

lemma timers_ok_calls [simp]: "timers_ok (lp\<lparr>lp_calls := c\<rparr>) = timers_ok lp" "due (lp\<lparr>lp_calls := c\<rparr>) = due lp"
  "active_timers (lp\<lparr>lp_calls := c\<rparr>) = active_timers lp"
proof -
  have "timer_less_than (lp\<lparr>lp_calls := c\<rparr>) = timer_less_than lp" by (rule timer_less_than_cong) simp
  moreover show "active_timers (lp\<lparr>lp_calls := c\<rparr>) = active_timers lp" by (simp add: active_timers_def)
  ultimately show "timers_ok (lp\<lparr>lp_calls := c\<rparr>) = timers_ok lp" "due (lp\<lparr>lp_calls := c\<rparr>) = due lp"
    by (simp_all add: timers_ok_def due_def)
qed

lemma finite_active: "timers_ok lp \<Longrightarrow> finite (active_timers lp)"
  unfolding timers_ok_def using tq.holds_finite by blast

lemma due_at_later:
  assumes "now < -1" "rep \<noteq> 0"
  shows "\<not> due_at now rep \<le> now"
proof -
  have m1: "uint (-1 :: 64 word) = 2 ^ 64 - 1" by (simp add: unsigned_minus_1_eq_mask mask_eq_exp_minus_1)
  have "0 < uint rep" using assms(2) by (metis less_le uint_0_iff uint_ge_0)
  then have "uint now < uint (due_at now rep)" unfolding due_at_spec using assms(1) m1 by (simp add: word_less_def)
  then show ?thesis by (simp add: word_le_def)
qed

text \<open>The first due timer is stopped and, when it repeats, started again for later.\<close>

definition after_fire :: "uv_loop \<Rightarrow> nat \<Rightarrow> uv_timer \<Rightarrow> bool" where
  "after_fire lp i t \<longleftrightarrow> t_cb t = t_cb (lp_timers lp i) \<and> t_repeat t = t_repeat (lp_timers lp i) \<and>
     (if t_repeat (lp_timers lp i) = 0 then \<not> uv__is_active t
      else uv__is_active t \<and> t_timeout t = due_at (lp_time lp) (t_repeat (lp_timers lp i)))"

lemma fire_step:
  assumes ok: "timers_ok lp" and i: "i \<in> due lp" and now: "lp_time lp < -1"
  shows "\<exists>lp1 lp2 c. uv_timer_stop i lp = Some (0, lp1) \<and> uv_timer_again i lp1 = Some (0, lp2) \<and>
    t_cb (lp_timers lp i) = Some c \<and> t_cb (lp_timers lp2 i) = Some c \<and> timers_ok lp2 \<and> due lp2 = due lp - {i} \<and>
    after_fire lp i (lp_timers lp2 i) \<and> (\<forall>x. x \<noteq> i \<longrightarrow> lp_timers lp2 x = lp_timers lp x) \<and>
    lp_time lp2 = lp_time lp \<and> lp_calls lp2 = lp_calls lp \<and> active_timers lp2 \<subseteq> active_timers lp"
proof -
  have act: "i \<in> active_timers lp" using i by (simp add: due_def)
  then obtain c where c: "t_cb (lp_timers lp i) = Some c" and cl: "\<not> uv__is_closing (lp_timers lp i)"
    using ok by (auto simp: timers_ok_def)
  obtain lp1 where 1: "uv_timer_stop i lp = Some (0, lp1)" "timers_ok lp1"
    "lp_timers lp1 = (lp_timers lp)(i := with_active False (lp_timers lp i))" "active_timers lp1 = active_timers lp - {i}"
    "lp_time lp1 = lp_time lp" "lp_calls lp1 = lp_calls lp"
    using stop_active [OF ok act] by blast
  have due1: "due lp1 = due lp - {i}" using 1(3-5) by (auto simp: due_def)
  let ?rep = "t_repeat (lp_timers lp i)"
  show ?thesis
  proof (cases "?rep = 0")
    case True
    then have "uv_timer_again i lp1 = Some (0, lp1)" using 1(3) c by (simp add: uv_timer_again_def Let_def)
    then show ?thesis using 1 c due1 True by (auto simp: after_fire_def)
  next
    case False
    have i1: "i \<notin> active_timers lp1" "\<not> uv__is_active (lp_timers lp1 i)" using 1(3,4) by simp_all
    have "card (active_timers lp1) + 1 < 2 ^ 32 - 2"
    proof -
      have "card (active_timers lp1) < card (active_timers lp)"
        unfolding 1(4) using act finite_active [OF ok] by (meson card_Diff1_less)
      then show ?thesis using ok by (simp add: timers_ok_def)
    qed
    from start_inactive [OF 1(2) i1(1) this, of c ?rep ?rep] obtain lp2 where
      2: "uv_timer_start i (Some c) ?rep ?rep lp1 = Some (0, lp2)" "timers_ok lp2"
        "lp_timers lp2 = (lp_timers lp1)(i := started lp1 i c ?rep ?rep)" "active_timers lp2 = insert i (active_timers lp1)"
        "lp_time lp2 = lp_time lp1" "lp_calls lp2 = lp_calls lp1"
      using cl 1(3) by auto
    have again: "uv_timer_again i lp1 = Some (0, lp2)"
      using False i1(2) 1(3) c 2(1) by (simp add: uv_timer_again_def uv_timer_stop_def Let_def)
    have t: "t_timeout (lp_timers lp2 i) = due_at (lp_time lp) ?rep" using 2(3) 1(5) by (simp add: started_def)
    have "due lp2 = due lp - {i}"
      using due_at_later [OF now False] 2(3-5) 1(3-5) act t by (auto simp: due_def)
    moreover have "after_fire lp i (lp_timers lp2 i)" using 2(3) 1(3,5) False c by (simp add: after_fire_def started_def)
    moreover have "t_cb (lp_timers lp2 i) = Some c" using 2(3) by (simp add: started_def)
    ultimately show ?thesis using 1(1,3,4,5,6) again c 2 act by auto
  qed
qed

text \<open>
  What is asked of the callbacks: they return and leave the timers in order, they start no timer so that it is
  due at once, and they start, stop and change no timers but those of the set \<open>w\<close>.
\<close>

definition calls_ok :: "nat set \<Rightarrow> timer_cbs \<Rightarrow> bool" where
  "calls_ok w call \<longleftrightarrow> finite w \<and>
     (\<forall>cb i lp. timers_ok lp \<and> lp_time lp < -1 \<and> card (active_timers lp \<union> w) < 2 ^ 32 - 2 \<longrightarrow>
       (\<exists>lp'. call cb i lp = Some lp' \<and> timers_ok lp' \<and> lp_time lp' = lp_time lp \<and> lp_calls lp' = lp_calls lp \<and>
         (\<forall>x\<in>due lp'. x \<in> due lp \<and> lp_timers lp' x = lp_timers lp x) \<and> (\<forall>x. x \<notin> w \<longrightarrow> lp_timers lp' x = lp_timers lp x)))"

lemma calls_okD:
  assumes "calls_ok w call" "timers_ok lp" "lp_time lp < -1" "card (active_timers lp \<union> w) < 2 ^ 32 - 2"
  obtains lp' where "call cb i lp = Some lp'" "timers_ok lp'" "lp_time lp' = lp_time lp" "lp_calls lp' = lp_calls lp"
    "\<And>x. x \<in> due lp' \<Longrightarrow> x \<in> due lp \<and> lp_timers lp' x = lp_timers lp x" "\<And>x. x \<notin> w \<Longrightarrow> lp_timers lp' x = lp_timers lp x"
  using assms unfolding calls_ok_def by metis

text \<open>
  The run calls the timers \<open>ids\<close> of \<open>lp\<close>, one by one, and ends in \<open>lp'\<close>: all that are due, except that those of
  \<open>w\<close> may have been withdrawn.
\<close>

definition fires :: "nat set \<Rightarrow> uv_loop \<Rightarrow> nat list \<Rightarrow> uv_loop \<Rightarrow> bool" where
  "fires w lp ids lp' \<longleftrightarrow> timers_ok lp' \<and> due lp' = {} \<and> lp_time lp' = lp_time lp \<and> distinct ids \<and>
     due lp - w \<subseteq> set ids \<and> set ids \<subseteq> due lp \<and> sorted_wrt (\<lambda>x y. \<not> timer_less_than lp y x) ids \<and>
     lp_calls lp' = lp_calls lp @ map (\<lambda>i. (the (t_cb (lp_timers lp i)), i)) ids \<and>
     (\<forall>i\<in>set ids - w. after_fire lp i (lp_timers lp' i)) \<and> (\<forall>i. i \<notin> set ids \<union> w \<longrightarrow> lp_timers lp' i = lp_timers lp i)"

lemma fires_nil: "timers_ok lp \<Longrightarrow> due lp = {} \<Longrightarrow> fires w lp [] lp"
  by (simp add: fires_def)

lemma fires_cons:
  assumes f: "fires w lp3 ids lp'" and i: "i \<in> due lp" "\<forall>y\<in>due lp. \<not> timer_less_than lp y i"
    and two: "due lp2 = due lp - {i}" "after_fire lp i (lp_timers lp2 i)" "\<And>x. x \<noteq> i \<Longrightarrow> lp_timers lp2 x = lp_timers lp x"
      "lp_time lp2 = lp_time lp"
    and three: "lp_time lp3 = lp_time lp2" "lp_calls lp3 = lp_calls lp @ [(the (t_cb (lp_timers lp i)), i)]"
      "\<And>x. x \<in> due lp3 \<Longrightarrow> x \<in> due lp2 \<and> lp_timers lp3 x = lp_timers lp2 x" "\<And>x. x \<notin> w \<Longrightarrow> lp_timers lp3 x = lp_timers lp2 x"
  shows "fires w lp (i # ids) lp'"
proof -
  have ids: "set ids \<subseteq> due lp3" "due lp3 - w \<subseteq> set ids" "distinct ids" using f by (simp_all add: fires_def)
  have same: "lp_timers lp3 x = lp_timers lp x" "x \<in> due lp" "x \<noteq> i" if "x \<in> set ids" for x
    using that ids(1) three(3) [of x] two(1) two(3) [of x] by auto
  have "sorted_wrt (\<lambda>x y. \<not> timer_less_than lp3 y x) ids" using f by (simp add: fires_def)
  then have sorted: "sorted_wrt (\<lambda>x y. \<not> timer_less_than lp y x) ids"
    by (rule sorted_wrt_mono_rel [rotated]) (use same(1) in \<open>simp add: timer_less_than_def\<close>)
  have "x \<in> due lp3" if "x \<in> due lp - w" "x \<noteq> i" for x
    using that two(1,4) three(1) three(4) [of x] by (auto simp: due_def active_timers_def)
  then have all: "due lp - w \<subseteq> set (i # ids)" using ids(2) by auto
  have calls: "map (\<lambda>i. (the (t_cb (lp_timers lp3 i)), i)) ids = map (\<lambda>i. (the (t_cb (lp_timers lp i)), i)) ids"
    using same(1) by simp
  have after: "after_fire lp x (lp_timers lp' x)" if "x \<in> set (i # ids) - w" for x
  proof (cases "x = i")
    case True
    then have "x \<notin> set ids \<union> w" using that same(3) by auto
    then have "lp_timers lp' x = lp_timers lp3 x" using f by (auto simp: fires_def)
    then show ?thesis using True that three(4) [of x] two(2) by auto
  next
    case False
    then have x: "x \<in> set ids" "x \<notin> w" using that by auto
    then have "after_fire lp3 x (lp_timers lp' x)" using f by (simp add: fires_def)
    then show ?thesis using same(1) [OF x(1)] three(1) two(4) by (simp add: after_fire_def)
  qed
  have frame: "lp_timers lp' x = lp_timers lp x" if "x \<notin> set (i # ids) \<union> w" for x
    using that f three(4) [of x] two(3) [of x] by (auto simp: fires_def)
  show ?thesis using f ids(3) same i sorted all calls after frame three(1,2) two(4) unfolding fires_def by auto
qed

lemma first_due:
  assumes ok: "timers_ok lp"
  shows "case heap_min (lp_heap lp) of None \<Rightarrow> active_timers lp = {}
    | Some i \<Rightarrow> i \<in> active_timers lp \<and> (\<forall>y\<in>active_timers lp. \<not> timer_less_than lp y i \<and> t_timeout (lp_timers lp i) \<le> t_timeout (lp_timers lp y))"
proof -
  have "heap_holds (timer_less_than lp) (lp_heap lp) (active_timers lp)" using ok by (simp add: timers_ok_def)
  from tq.min_ok [OF timer_order this] show ?thesis
    by (auto simp: timer_less_than_def Let_def split: option.splits if_splits)
qed

lemma run_timers_spec:
  assumes call: "calls_ok w call"
  shows "timers_ok lp \<Longrightarrow> lp_time lp < -1 \<Longrightarrow> card (active_timers lp \<union> w) < 2 ^ 32 - 2 \<Longrightarrow>
    \<exists>lp' ids. uv__run_timers call lp = Some lp' \<and> fires w lp ids lp'"
proof (induction "card (due lp)" arbitrary: lp rule: less_induct)
  case less
  note ok = less.prems(1)
  show ?case
  proof (cases "heap_min (lp_heap lp)")
    case None
    then have "due lp = {}" using first_due [OF ok] by (auto simp: due_def)
    then show ?thesis using None ok fires_nil by (subst uv__run_timers.simps) auto
  next
    case (Some i)
    then have i: "i \<in> active_timers lp" "\<forall>y\<in>active_timers lp. \<not> timer_less_than lp y i"
      "\<forall>y\<in>active_timers lp. t_timeout (lp_timers lp i) \<le> t_timeout (lp_timers lp y)"
      using first_due [OF ok] by auto
    show ?thesis
    proof (cases "t_timeout (lp_timers lp i) > lp_time lp")
      case True
      then have "due lp = {}" using i(3) by (auto simp: due_def)
      then show ?thesis using Some True ok fires_nil by (subst uv__run_timers.simps) auto
    next
      case False
      then have di: "i \<in> due lp" using i(1) by (simp add: due_def)
      obtain lp1 lp2 c where f: "uv_timer_stop i lp = Some (0, lp1)" "uv_timer_again i lp1 = Some (0, lp2)"
        "t_cb (lp_timers lp i) = Some c" "t_cb (lp_timers lp2 i) = Some c" "timers_ok lp2" "due lp2 = due lp - {i}"
        "after_fire lp i (lp_timers lp2 i)" "\<forall>x. x \<noteq> i \<longrightarrow> lp_timers lp2 x = lp_timers lp x"
        "lp_time lp2 = lp_time lp" "lp_calls lp2 = lp_calls lp" "active_timers lp2 \<subseteq> active_timers lp"
        using fire_step [OF ok di less.prems(2)] by blast
      let ?lp = "lp2\<lparr>lp_calls := lp_calls lp2 @ [(c, i)]\<rparr>"
      have w: "finite w" using call by (simp add: calls_ok_def)
      have room: "card (active_timers x \<union> w) < 2 ^ 32 - 2" if "active_timers x \<subseteq> active_timers lp \<union> w" for x
      proof -
        have "card (active_timers x \<union> w) \<le> card (active_timers lp \<union> w)"
          using that w finite_active [OF ok] by (intro card_mono) auto
        then show ?thesis using less.prems(3) by simp
      qed
      have "card (active_timers ?lp \<union> w) < 2 ^ 32 - 2" by (rule room) (use f(11) in auto)
      then obtain lp3 where c: "call c i ?lp = Some lp3" "timers_ok lp3" "lp_time lp3 = lp_time lp2" "lp_calls lp3 = lp_calls ?lp"
        "\<And>x. x \<in> due lp3 \<Longrightarrow> x \<in> due lp2 \<and> lp_timers lp3 x = lp_timers lp2 x" "\<And>x. x \<notin> w \<Longrightarrow> lp_timers lp3 x = lp_timers lp2 x"
        using calls_okD [OF call, of ?lp c i] f(5,9) less.prems(2) by auto
      have fin: "finite (due lp)" using finite_active [OF ok] by (simp add: due_def)
      have "due lp3 \<subset> due lp" using c(5) f(6) di by auto
      then have less': "card (due lp3) < card (due lp)" by (rule psubset_card_mono [OF fin])
      have "active_timers lp3 \<subseteq> active_timers lp \<union> w"
      proof
        fix x assume "x \<in> active_timers lp3"
        then show "x \<in> active_timers lp \<union> w" using c(6) [of x] f(11) by (auto simp: active_timers_def)
      qed
      from less.hyps [OF less' c(2) _ room [OF this]] obtain lp' ids where
        r: "uv__run_timers call lp3 = Some lp'" "fires w lp3 ids lp'" using c(3) f(9) less.prems(2) by auto
      have run: "uv__run_timers call lp = Some lp'"
        using Some False f(1,2,4) c(1) r(1) by (subst uv__run_timers.simps) simp
      have "fires w lp (i # ids) lp'"
        by (rule fires_cons [OF r(2) di _ f(6,7) _ f(9) c(3) _ c(5,6)]) (use i(2) f(3,8,10) c(4) in \<open>auto simp: due_def\<close>)
      then show ?thesis using run by blast
    qed
  qed
qed

subsection \<open>Properties\<close>

lemma timer_start_spec:
  assumes ok: "timers_ok lp" and cl: "\<not> uv__is_closing (lp_timers lp i)"
    and room: "card (insert i (active_timers lp)) < 2 ^ 32 - 2"
  shows "\<exists>lp'. uv_timer_start i (Some cb) timeout rep lp = Some (0, lp') \<and> timers_ok lp' \<and>
    active_timers lp' = insert i (active_timers lp) \<and> (\<forall>x. x \<noteq> i \<longrightarrow> lp_timers lp' x = lp_timers lp x) \<and>
    uint (t_timeout (lp_timers lp' i)) = min (uint (lp_time lp) + uint timeout) (2 ^ 64 - 1) \<and>
    t_cb (lp_timers lp' i) = Some cb \<and> t_repeat (lp_timers lp' i) = rep \<and> lp_time lp' = lp_time lp"
proof (cases "i \<in> active_timers lp")
  case True
  have fin: "finite (active_timers lp)" using finite_active [OF ok] .
  obtain lp1 where 1: "uv_timer_stop i lp = Some (0, lp1)" "timers_ok lp1"
    "lp_timers lp1 = (lp_timers lp)(i := with_active False (lp_timers lp i))" "active_timers lp1 = active_timers lp - {i}"
    "lp_time lp1 = lp_time lp"
    using stop_active [OF ok True] by blast
  have i1: "i \<notin> active_timers lp1" "\<not> uv__is_active (lp_timers lp1 i)" "\<not> uv__is_closing (lp_timers lp1 i)"
    using 1(3,4) cl by simp_all
  have "card (active_timers lp1) + 1 = card (active_timers lp)"
    using 1(4) True fin by (simp add: card_gt_0_iff) (metis Suc_pred card_gt_0_iff empty_iff)
  then have "card (active_timers lp1) + 1 < 2 ^ 32 - 2" using room True by (simp add: insert_absorb)
  from start_inactive [OF 1(2) i1(1) this i1(3), of cb timeout rep] obtain lp2 where
    2: "uv_timer_start i (Some cb) timeout rep lp1 = Some (0, lp2)" "timers_ok lp2"
      "lp_timers lp2 = (lp_timers lp1)(i := started lp1 i cb timeout rep)"
      "active_timers lp2 = insert i (active_timers lp1)" "lp_time lp2 = lp_time lp1" by blast
  have "uv__is_active (lp_timers lp i)" using True by (simp add: active_timers_def)
  then have "uv_timer_start i (Some cb) timeout rep lp = uv_timer_start i (Some cb) timeout rep lp1"
    using cl i1(2,3) 1(1) by (simp add: uv_timer_start_def)
  then show ?thesis using 2 1(3-5) by (auto simp: started_def due_at_spec)
next
  case False
  then have "card (active_timers lp) + 1 < 2 ^ 32 - 2" using room finite_active [OF ok] by simp
  from start_inactive [OF ok False this cl, of cb timeout rep] show ?thesis
    by (auto simp: started_def due_at_spec)
qed

text \<open>
  C30: starting a timer, whether or not it was running, leaves it in the heap once, due at the
  loop's time plus the timeout, which saturates at the largest 64-bit value and never wraps
  around; the other timers are as they were and the heap is in order.
\<close>

theorem timer_start_correct:
  assumes "timers_ok lp" and "\<not> uv__is_closing (lp_timers lp i)"
    and "card (insert i (active_timers lp)) < 2 ^ 32 - 2"
  shows "\<exists>lp'. uv_timer_start i (Some cb) timeout rep lp = Some (0, lp') \<and> timers_ok lp' \<and>
    active_timers lp' = insert i (active_timers lp) \<and> (\<forall>x. x \<noteq> i \<longrightarrow> lp_timers lp' x = lp_timers lp x) \<and>
    uint (t_timeout (lp_timers lp' i)) = min (uint (lp_time lp) + uint timeout) (2 ^ 64 - 1) \<and>
    t_cb (lp_timers lp' i) = Some cb \<and> t_repeat (lp_timers lp' i) = rep \<and> lp_time lp' = lp_time lp"
  by (rule timer_start_spec [OF assms])

definition fresh_timer :: uv_timer where
  "fresh_timer = \<lparr>t_flags = UV_HANDLE_REF, t_cb = None, t_timeout = 0, t_repeat = 0, t_start_id = 0\<rparr>"

definition fresh_loop :: "64 word \<Rightarrow> uv_loop" where
  "fresh_loop now = \<lparr>lp_time = now, lp_timer_counter = 0, lp_active_handles = 0, lp_handle_queue = [],
     lp_heap = empty_heap, lp_timers = (\<lambda>_. fresh_timer), lp_calls = []\<rparr>"

lemma fresh_timer_flags: "\<not> uv__is_active fresh_timer" "\<not> uv__is_closing fresh_timer"
  by (simp_all add: uv__is_active_def uv__is_closing_def fresh_timer_def UV_HANDLE_REF_def UV_HANDLE_ACTIVE_def
      UV_HANDLE_CLOSING_def UV_HANDLE_CLOSED_def)

lemma fresh_loop_ok: "timers_ok (fresh_loop now)" "active_timers (fresh_loop now) = {}" "lp_time (fresh_loop now) = now"
  "lp_timers (fresh_loop now) i = fresh_timer" "lp_calls (fresh_loop now) = []"
  using fresh_timer_flags heap_init_holds
  by (auto simp: timers_ok_def active_timers_def fresh_loop_def empty_heap_def)

theorem timer_start_correct_witness:
  "\<exists>lp'. uv_timer_start 5 (Some 1) 10 0 (fresh_loop (-3)) = Some (0, lp') \<and>
    uint (t_timeout (lp_timers lp' 5)) = 2 ^ 64 - 1"
proof -
  have "uint (-3 :: 64 word) + uint (10 :: 64 word) > 2 ^ 64 - 1" by simp
  then show ?thesis
    using timer_start_correct [of "fresh_loop (-3)" 5 1 10 0] fresh_timer_flags by (auto simp: fresh_loop_ok min_def)
qed

text \<open>A callback that stops another timer.\<close>

definition stop_cb :: "nat \<Rightarrow> timer_cbs" where
  "stop_cb j cb i lp = map_option snd (uv_timer_stop j lp)"

lemma stop_cb_ok: "calls_ok {j} (stop_cb j)"
proof -
  have "\<exists>lp'. stop_cb j cb i lp = Some lp' \<and> timers_ok lp' \<and> lp_time lp' = lp_time lp \<and> lp_calls lp' = lp_calls lp \<and>
      (\<forall>x\<in>due lp'. x \<in> due lp \<and> lp_timers lp' x = lp_timers lp x) \<and> (\<forall>x. x \<notin> {j} \<longrightarrow> lp_timers lp' x = lp_timers lp x)"
    if "timers_ok lp" for cb i lp
  proof (cases "j \<in> active_timers lp")
    case True
    from stop_active [OF that True] obtain lp' where "uv_timer_stop j lp = Some (0, lp')" "timers_ok lp'"
      "lp_timers lp' = (lp_timers lp)(j := with_active False (lp_timers lp j))" "active_timers lp' = active_timers lp - {j}"
      "lp_time lp' = lp_time lp" "lp_calls lp' = lp_calls lp" by blast
    then show ?thesis by (auto simp: stop_cb_def due_def)
  next
    case False
    then show ?thesis using that by (simp add: stop_cb_def uv_timer_stop_def active_timers_def)
  qed
  then show ?thesis by (simp add: calls_ok_def)
qed



text \<open>
  the timeout the loop polls with is exact: -1 (wait for ever) when no timer runs, otherwise
  the milliseconds from now to the earliest time of a running timer, 0 when one is due, and at
  most the largest \<open>int\<close>.
\<close>

theorem next_timeout_correct:
  assumes "timers_ok lp"
  shows "uv__next_timeout lp = (if active_timers lp = {} then -1
    else min (2 ^ 31 - 1) (max 0 (Lattices_Big.Min ((\<lambda>i. uint (t_timeout (lp_timers lp i))) ` active_timers lp) - uint (lp_time lp))))"
proof (cases "heap_min (lp_heap lp)")
  case None
  then show ?thesis using first_due [OF assms] by (simp add: uv__next_timeout_def)
next
  case (Some i)
  let ?t = "t_timeout (lp_timers lp i)"
  have i: "i \<in> active_timers lp" "\<And>y. y \<in> active_timers lp \<Longrightarrow> uint ?t \<le> uint (t_timeout (lp_timers lp y))"
    using first_due [OF assms] Some by (auto simp: word_le_def)
  have m: "Lattices_Big.Min ((\<lambda>i. uint (t_timeout (lp_timers lp i))) ` active_timers lp) = uint ?t"
    using finite_active [OF assms] i by (intro Min_eqI) auto
  have "uint (?t - lp_time lp) = uint ?t - uint (lp_time lp)" if "\<not> ?t \<le> lp_time lp"
    using that uint_sub_lem [of "lp_time lp" ?t] by (simp add: word_le_def)
  then have "uv__next_timeout lp = min (2 ^ 31 - 1) (max 0 (uint ?t - uint (lp_time lp)))"
    using Some by (simp add: uv__next_timeout_def Let_def word_le_def word_less_def INT_MAX_def)
  then show ?thesis using i(1) m by auto
qed

theorem next_timeout_correct_witness:
  "uv__next_timeout (fresh_loop 4) = -1"
  using next_timeout_correct [OF fresh_loop_ok(1), of 4] by (simp add: fresh_loop_ok)

end
