(* ===== verification/Uv_Inet.thy ===== *)
theory Uv_Inet
  imports Uv_Timer Zlog_Buf
begin

section \<open>Internet addresses as text\<close>

text \<open>
  \<open>src/deps/libuv/src/inet.c\<close> and \<open>src/deps/libuv/src/strscpy.c\<close>. An address is the list of
  its bytes, in network order. A text that is read is the list of the characters before its
  terminating zero; a buffer that is written is a block, and a write outside it is \<^const>\<open>None\<close>.
  Results are the pair of the return code and what was written.
\<close>

definition UV_E2BIG :: int where "UV_E2BIG = -7"
definition UV_ENOSPC :: int where "UV_ENOSPC = -28"
definition UV_EAFNOSUPPORT :: int where "UV_EAFNOSUPPORT = -97"
definition UV__INET_ADDRSTRLEN :: nat where "UV__INET_ADDRSTRLEN = 16"
definition UV__INET6_ADDRSTRLEN :: nat where "UV__INET6_ADDRSTRLEN = 46"

datatype family = AF_INET | AF_INET6 | AF_OTHER

abbreviation NUL :: char where "NUL \<equiv> CHR 0x00"

subsection \<open>Bounded copy of a string\<close>

fun strscpy_loop :: "nat \<Rightarrow> nat \<Rightarrow> string \<Rightarrow> string \<Rightarrow> (int \<times> string) option" where
  "strscpy_loop i n [] d =
     (if i < n then do { d \<leftarrow> block_write d (int i) [NUL]; Some (int i, d) }
      else if i = 0 then Some (0, d)
      else do { d \<leftarrow> block_write d (int i - 1) [NUL]; Some (UV_E2BIG, d) })"
| "strscpy_loop i n (c # s) d =
     (if i < n then do { d \<leftarrow> block_write d (int i) [c]; strscpy_loop (i + 1) n s d }
      else if i = 0 then Some (0, d)
      else do { d \<leftarrow> block_write d (int i - 1) [NUL]; Some (UV_E2BIG, d) })"

definition uv__strscpy :: "string \<Rightarrow> string \<Rightarrow> nat \<Rightarrow> (int \<times> string) option" where
  "uv__strscpy d s n = strscpy_loop 0 n s d"

subsection \<open>Printing\<close>

fun dotted :: "nat list \<Rightarrow> string" where
  "dotted [] = []"
| "dotted [b] = digits 10 b"
| "dotted (b # bs) = digits 10 b @ ''.'' @ dotted bs"

definition inet_ntop4 :: "nat list \<Rightarrow> string \<Rightarrow> nat \<Rightarrow> (int \<times> string) option" where
  "inet_ntop4 src dst sz =
     (let fmt = digits 10 (src ! 0) @ ''.'' @ digits 10 (src ! 1) @ ''.'' @ digits 10 (src ! 2) @ ''.'' @ digits 10 (src ! 3);
          tmp = take (UV__INET_ADDRSTRLEN - 1) fmt;
          l = length fmt
      in if l \<le> 0 \<or> l \<ge> sz then Some (UV_ENOSPC, dst)
         else do { (_, dst) \<leftarrow> uv__strscpy dst tmp sz; Some (0, dst) })"

text \<open>A run of zero words: its first index and its length; no run has the index -1.\<close>

definition words_of :: "nat list \<Rightarrow> nat list" where
  "words_of src = map (\<lambda>i. src ! (2 * i) * 256 + src ! (2 * i + 1)) [0..<8]"

definition longer :: "int \<times> int \<Rightarrow> int \<times> int \<Rightarrow> int \<times> int" where
  "longer best cur = (if fst best = -1 \<or> snd cur > snd best then cur else best)"

fun best_run :: "nat \<Rightarrow> nat list \<Rightarrow> int \<times> int \<Rightarrow> int \<times> int \<Rightarrow> int \<times> int" where
  "best_run i [] best cur =
     (let best = (if fst cur \<noteq> -1 then longer best cur else best)
      in if fst best \<noteq> -1 \<and> snd best < 2 then (-1, snd best) else best)"
| "best_run i (w # ws) best cur =
     (if w = 0 then
        (if fst cur = -1 then best_run (i + 1) ws best (int i, 1)
         else best_run (i + 1) ws best (fst cur, snd cur + 1))
      else if fst cur \<noteq> -1 then best_run (i + 1) ws (longer best cur) (-1, snd cur)
      else best_run (i + 1) ws best cur)"

text \<open>\<open>*tp++ = c\<close> and \<open>sprintf\<close> into the temporary text, whose block has 46 bytes.\<close>

definition tmp_put :: "string \<Rightarrow> char \<Rightarrow> string option" where
  "tmp_put tmp c = (if length tmp < UV__INET6_ADDRSTRLEN then Some (tmp @ [c]) else None)"

definition tmp_print :: "string \<Rightarrow> string \<Rightarrow> string option" where
  "tmp_print tmp s = (if length tmp + length s < UV__INET6_ADDRSTRLEN then Some (tmp @ s) else None)"

definition embeds4 :: "nat list \<Rightarrow> int \<times> int \<Rightarrow> bool" where
  "embeds4 ws best \<longleftrightarrow> fst best = 0 \<and> (snd best = 6 \<or> (snd best = 7 \<and> ws ! 7 \<noteq> 0x0001) \<or> (snd best = 5 \<and> ws ! 5 = 0xffff))"

definition in_run :: "int \<times> int \<Rightarrow> nat \<Rightarrow> bool" where
  "in_run best i \<longleftrightarrow> fst best \<noteq> -1 \<and> int i \<ge> fst best \<and> int i < fst best + snd best"

text \<open>The loop over the words; \<open>n\<close> is the number of words to come. An error code of \<open>inet_ntop4\<close> ends it.\<close>

fun format6 :: "nat list \<Rightarrow> nat list \<Rightarrow> int \<times> int \<Rightarrow> nat \<Rightarrow> string \<Rightarrow> (int \<times> string) option" where
  "format6 src ws best 0 tmp = Some (0, tmp)"
| "format6 src ws best (Suc n) tmp =
     (let i = 7 - n in
      if in_run best i then do {
        tmp \<leftarrow> (if int i = fst best then tmp_put tmp CHR '':'' else Some tmp);
        format6 src ws best n tmp
      } else do {
        tmp \<leftarrow> (if i \<noteq> 0 then tmp_put tmp CHR '':'' else Some tmp);
        if i = 6 \<and> embeds4 ws best then do {
          let room = UV__INET6_ADDRSTRLEN - length tmp;
          (err, text) \<leftarrow> inet_ntop4 (drop 12 src) (replicate room NUL) room;
          if err \<noteq> 0 then Some (err, tmp) else Some (0, tmp @ takeWhile (\<lambda>c. c \<noteq> NUL) text)
        } else do {
          tmp \<leftarrow> tmp_print tmp (digits 16 (ws ! i));
          format6 src ws best n tmp
        }
      })"

definition inet_ntop6 :: "nat list \<Rightarrow> string \<Rightarrow> nat \<Rightarrow> (int \<times> string) option" where
  "inet_ntop6 src dst sz = do {
     let ws = words_of src;
     let best = best_run 0 ws (-1, 0) (-1, 0);
     (err, tmp) \<leftarrow> format6 src ws best 8 [];
     if err \<noteq> 0 then Some (err, dst)
     else do {
       tmp \<leftarrow> (if fst best \<noteq> -1 \<and> fst best + snd best = 8 then tmp_put tmp CHR '':'' else Some tmp);
       _ \<leftarrow> tmp_put tmp NUL;
       (r, dst) \<leftarrow> uv__strscpy dst tmp sz;
       if r = UV_E2BIG then Some (UV_ENOSPC, dst) else Some (0, dst)
     }
   }"

definition uv_inet_ntop :: "family \<Rightarrow> nat list \<Rightarrow> string \<Rightarrow> nat \<Rightarrow> (int \<times> string) option" where
  "uv_inet_ntop af src dst sz = (case af of
     AF_INET \<Rightarrow> inet_ntop4 src dst sz
   | AF_INET6 \<Rightarrow> inet_ntop6 src dst sz
   | AF_OTHER \<Rightarrow> Some (UV_EAFNOSUPPORT, dst))"

subsection \<open>Parsing\<close>

text \<open>\<open>strchr\<close> with the distance from the start of the table.\<close>

fun strchr_at :: "string \<Rightarrow> char \<Rightarrow> nat option" where
  "strchr_at [] c = None"
| "strchr_at (x # xs) c = (if x = c then Some 0 else map_option Suc (strchr_at xs c))"

definition decimal :: string where "decimal = ''0123456789''"

text \<open>
  The bytes before \<open>*tp\<close> are \<open>done\<close>, \<open>*tp\<close> is \<open>cur\<close>; moving \<open>tp\<close> behind the four bytes is
  undefined.
\<close>

fun pton4_loop :: "string \<Rightarrow> bool \<Rightarrow> nat \<Rightarrow> nat list \<Rightarrow> nat \<Rightarrow> (int \<times> nat list) option" where
  "pton4_loop [] saw octets done cur =
     (if octets < 4 then Some (UV_EINVAL, []) else Some (0, done @ [cur]))"
| "pton4_loop (ch # src) saw octets done cur = (case strchr_at decimal ch of
     Some d \<Rightarrow>
       (let nw = cur * 10 + d in
        if saw \<and> cur = 0 then Some (UV_EINVAL, [])
        else if nw > 255 then Some (UV_EINVAL, [])
        else if \<not> saw then
          (if octets + 1 > 4 then Some (UV_EINVAL, []) else pton4_loop src True (octets + 1) done nw)
        else pton4_loop src saw octets done nw)
   | None \<Rightarrow>
       if ch = CHR ''.'' \<and> saw then
         (if octets = 4 then Some (UV_EINVAL, [])
          else if length done \<ge> 3 then None
          else pton4_loop src False octets (done @ [cur]) 0)
       else Some (UV_EINVAL, []))"

definition inet_pton4 :: "string \<Rightarrow> (int \<times> nat list) option" where
  "inet_pton4 src = pton4_loop src False 0 [] 0"

text \<open>
  \<open>inet_pton6\<close>: the bytes \<open>tmp\<close>, the place \<open>tp\<close> of the next, the place \<open>colonp\<close> of the
  double colon, the text \<open>curtok\<close> at the start of the present group, its digits and value.
\<close>

record pton6 =
  p6_tmp :: "nat list"
  p6_tp :: nat
  p6_colonp :: "nat option"
  p6_curtok :: string
  p6_seen :: nat
  p6_val :: nat

definition xdigit :: "char \<Rightarrow> nat option" where
  "xdigit ch = (case strchr_at ''0123456789abcdef'' ch of
     Some d \<Rightarrow> Some d | None \<Rightarrow> strchr_at ''0123456789ABCDEF'' ch)"

definition put16 :: "pton6 \<Rightarrow> pton6 option" where
  "put16 s = do {
     tmp \<leftarrow> block_write (p6_tmp s) (int (p6_tp s)) [p6_val s div 256 mod 256, p6_val s mod 256];
     Some (s\<lparr>p6_tmp := tmp, p6_tp := p6_tp s + 2\<rparr>)
   }"

text \<open>The loop: \<open>Inl\<close> an error code that is returned, \<open>Inr\<close> the state the loop ends in.\<close>

fun pton6_loop :: "string \<Rightarrow> pton6 \<Rightarrow> (int + pton6) option" where
  "pton6_loop [] s = Some (Inr s)"
| "pton6_loop (ch # src) s = (case xdigit ch of
     Some d \<Rightarrow>
       (let s = s\<lparr>p6_val := p6_val s * 16 mod 2 ^ 32 + d, p6_seen := p6_seen s + 1\<rparr>
        in if p6_seen s > 4 then Some (Inl UV_EINVAL) else pton6_loop src s)
   | None \<Rightarrow>
       if ch = CHR '':'' then
         (let s = s\<lparr>p6_curtok := src\<rparr> in
          if p6_seen s = 0 then
            (if p6_colonp s \<noteq> None then Some (Inl UV_EINVAL) else pton6_loop src (s\<lparr>p6_colonp := Some (p6_tp s)\<rparr>))
          else if src = [] then Some (Inl UV_EINVAL)
          else if p6_tp s + 2 > 16 then Some (Inl UV_EINVAL)
          else do {
            s \<leftarrow> put16 s;
            pton6_loop src (s\<lparr>p6_seen := 0, p6_val := 0\<rparr>)
          })
       else if ch = CHR ''.'' \<and> p6_tp s + 4 \<le> 16 then do {
         (err, four) \<leftarrow> inet_pton4 (p6_curtok s);
         if err = 0 then do {
           tmp \<leftarrow> block_write (p6_tmp s) (int (p6_tp s)) four;
           Some (Inr (s\<lparr>p6_tmp := tmp, p6_tp := p6_tp s + 4, p6_seen := 0\<rparr>))
         } else Some (Inl UV_EINVAL)
       }
       else Some (Inl UV_EINVAL))"

text \<open>\<open>for (i = 1; i <= n; i++) \{ endp[- i] = colonp[n - i]; colonp[n - i] = 0; \}\<close>\<close>

fun shift6 :: "nat \<Rightarrow> nat \<Rightarrow> nat \<Rightarrow> nat list \<Rightarrow> nat list option" where
  "shift6 0 n colonp tmp = Some tmp"
| "shift6 (Suc k) n colonp tmp = do {
     let i = n - k;
     b \<leftarrow> block_read tmp (int colonp + int n - int i);
     tmp \<leftarrow> block_write tmp (16 - int i) [b];
     tmp \<leftarrow> block_write tmp (int colonp + int n - int i) [0];
     shift6 k n colonp tmp
   }"

text \<open>What follows the loop: the last group, and the shift of what stands behind the double colon.\<close>

definition pton6_finish :: "pton6 \<Rightarrow> (int \<times> nat list) option" where
  "pton6_finish s =
     (if p6_seen s \<noteq> 0 \<and> p6_tp s + 2 > 16 then Some (UV_EINVAL, [])
      else do {
        s \<leftarrow> (if p6_seen s \<noteq> 0 then put16 s else Some s);
        case p6_colonp s of
          None \<Rightarrow> if p6_tp s \<noteq> 16 then Some (UV_EINVAL, []) else Some (0, p6_tmp s)
        | Some colonp \<Rightarrow>
            if p6_tp s = 16 then Some (UV_EINVAL, [])
            else do {
              tmp \<leftarrow> shift6 (p6_tp s - colonp) (p6_tp s - colonp) colonp (p6_tmp s);
              Some (0, tmp)
            }
      })"

definition inet_pton6 :: "string \<Rightarrow> (int \<times> nat list) option" where
  "inet_pton6 src =
     (let lead = (src \<noteq> [] \<and> hd src = CHR '':'');
          src = (if lead then tl src else src)
      in if lead \<and> (src = [] \<or> hd src \<noteq> CHR '':'') then Some (UV_EINVAL, [])
      else do {
        r \<leftarrow> pton6_loop src \<lparr>p6_tmp = replicate 16 0, p6_tp = 0, p6_colonp = None, p6_curtok = src, p6_seen = 0, p6_val = 0\<rparr>;
        case r of
          Inl err \<Rightarrow> Some (err, [])
        | Inr s \<Rightarrow> pton6_finish s
      })"

text \<open>A null \<open>src\<close> or \<open>dst\<close> is refused; a zone after a percent sign is cut off.\<close>

definition uv_inet_pton :: "family \<Rightarrow> string option \<Rightarrow> bool \<Rightarrow> (int \<times> nat list) option" where
  "uv_inet_pton af src has_dst = (case src of
     None \<Rightarrow> Some (UV_EINVAL, [])
   | Some src \<Rightarrow>
      if \<not> has_dst then Some (UV_EINVAL, [])
      else case af of
        AF_INET \<Rightarrow> inet_pton4 src
      | AF_INET6 \<Rightarrow>
          (case strchr_at src CHR ''%'' of
             None \<Rightarrow> inet_pton6 src
           | Some len \<Rightarrow> if len > UV__INET6_ADDRSTRLEN - 1 then Some (UV_EINVAL, []) else inet_pton6 (take len src))
      | AF_OTHER \<Rightarrow> Some (UV_EAFNOSUPPORT, []))"


subsection \<open>The copy\<close>

lemma strscpy_loop_spec:
  "i \<le> n \<Longrightarrow> n \<le> length d \<Longrightarrow> strscpy_loop i n s d =
    Some (if i + length s < n then (int (i + length s), take i d @ s @ [NUL] @ drop (i + length s + 1) d)
      else if n = 0 then (0, d) else (UV_E2BIG, take (n - 1) (take i d @ s) @ [NUL] @ drop n d))"
proof (induction s arbitrary: i d)
  case Nil
  then show ?case by (auto simp: block_write_def nat_diff_distrib min_def)
next
  case (Cons c s)
  show ?case
  proof (cases "i < n")
    case True
    let ?d = "take i d @ [c] @ drop (i + 1) d"
    have "strscpy_loop i n (c # s) d = strscpy_loop (i + 1) n s ?d"
      using True Cons.prems by (simp add: block_write_def)
    moreover have "n \<le> length ?d" "i + 1 \<le> n" using True Cons.prems by simp_all
    moreover have "take (i + 1) ?d = take i d @ [c]" "\<And>k. i < k \<Longrightarrow> drop k ?d = drop k d"
      using True Cons.prems by (simp_all add: drop_Cons' )
    ultimately show ?thesis using Cons.IH [of "i + 1" ?d] by (simp add: ac_simps)
  next
    case False
    then show ?thesis using Cons.prems by (auto simp: block_write_def nat_diff_distrib)
  qed
qed

lemma strscpy_spec:
  "n \<le> length d \<Longrightarrow> uv__strscpy d s n =
    Some (if length s < n then (int (length s), s @ [NUL] @ drop (length s + 1) d)
      else if n = 0 then (0, d) else (UV_E2BIG, take (n - 1) s @ [NUL] @ drop n d))"
  using strscpy_loop_spec [of 0 n d s] by (simp add: uv__strscpy_def)

subsection \<open>Numbers\<close>

lemma strchr_at_nth: "strchr_at xs c = Some d \<Longrightarrow> d < length xs \<and> xs ! d = c"
  by (induction xs arbitrary: d) (auto split: if_splits)

lemma decimal_at: "d < 10 \<Longrightarrow> strchr_at decimal (hex ! d) = Some d"
proof -
  have "\<forall>d\<in>{0..<10}. strchr_at decimal (hex ! d) = Some d" by code_simp
  then show "d < 10 \<Longrightarrow> strchr_at decimal (hex ! d) = Some d" by simp
qed

lemma decimal_char:
  assumes "strchr_at decimal c = Some d"
  shows "d < 10 \<and> c = hex ! d"
proof -
  have "\<forall>d\<in>{0..<10}. decimal ! d = hex ! d" by code_simp
  moreover have "d < 10" using strchr_at_nth [OF assms] by (simp add: decimal_def)
  ultimately show ?thesis using strchr_at_nth [OF assms] by (metis atLeastLessThan_iff le0)
qed

lemma dot_no_digit [simp]: "strchr_at decimal CHR ''.'' = None"
  by (simp add: decimal_def)

lemma digits_step: "0 < n \<Longrightarrow> d < 10 \<Longrightarrow> digits 10 (n * 10 + d) = digits 10 n @ [hex ! d]"
  by (subst digits.simps) simp

lemma digits_one: "d < 10 \<Longrightarrow> digits 10 d = [hex ! d]"
  by (subst digits.simps) simp

lemma digits_byte:
  assumes "n < 256"
  shows "digits 10 n = (if n < 10 then [hex ! n] else if n < 100 then [hex ! (n div 10), hex ! (n mod 10)]
    else [hex ! (n div 100), hex ! (n div 10 mod 10), hex ! (n mod 10)])"
proof -
  have "digits 10 n = [hex ! (n div 10), hex ! (n mod 10)]" if "10 \<le> n" "n < 100" for n
    using that by (subst digits.simps) (simp add: digits_one)
  moreover have "digits 10 n = digits 10 (n div 10) @ [hex ! (n mod 10)]" if "10 \<le> n"
    using that by (subst digits.simps) simp
  ultimately show ?thesis using assms by (auto simp: digits_one div_mult2_eq [symmetric])
qed

lemma digits_byte_length: "n < 256 \<Longrightarrow> 1 \<le> length (digits 10 n) \<and> length (digits 10 n) \<le> 3"
  by (simp add: digits_byte)

lemma digits_no_zero: "c \<in> set (digits 10 n) \<Longrightarrow> c \<noteq> NUL"
proof (induction "10 :: nat" n rule: digits.induct)
  case (1 n)
  have "\<forall>d\<in>{0..<10}. hex ! d \<noteq> NUL" by code_simp
  then have "hex ! (n mod 10) \<noteq> NUL" by simp
  then show ?case using 1 by (subst (asm) digits.simps) (auto split: if_splits)
qed

subsection \<open>Dotted addresses\<close>

lemma dotted_snoc: "dotted (bs @ [b]) = dotted bs @ (if bs = [] then [] else ''.'') @ digits 10 b"
  by (induction bs rule: dotted.induct) simp_all

lemma pton4_digits:
  assumes "n < 256" "oc < 4"
  shows "pton4_loop (digits 10 n @ r) False oc done 0 = pton4_loop r True (oc + 1) done n"
proof -
  have step: "pton4_loop (hex ! d # r) True oc done m = pton4_loop r True oc done (m * 10 + d)"
    if "0 < m" "m * 10 + d < 256" "d < 10" for d m r oc
    using that decimal_at [of d] by (simp add: Let_def)
  have first: "pton4_loop (hex ! d # r) False oc done 0 = pton4_loop r True (oc + 1) done d" if "d < 10" for d r
    using that assms(2) decimal_at [of d] by (simp add: Let_def)
  have hundreds: "n div 100 * 10 + n div 10 mod 10 = n div 10"
    using div_mult_mod_eq [of "n div 10" 10] by (simp add: div_mult2_eq [symmetric])
  consider "n < 10" | "10 \<le> n" "n < 100" | "100 \<le> n" by linarith
  then show ?thesis
  proof cases
    case 1
    then show ?thesis using first by (simp add: digits_one)
  next
    case 2
    then show ?thesis
      using first [of "n div 10"] step [where m = "n div 10" and d = "n mod 10" and oc = "oc + 1"] assms(1)
      by (simp add: digits_byte)
  next
    case 3
    then show ?thesis
      using first [of "n div 100"] step [where m = "n div 100" and d = "n div 10 mod 10" and oc = "oc + 1"]
        step [where m = "n div 10" and d = "n mod 10" and oc = "oc + 1"] hundreds assms(1)
      by (simp add: digits_byte)
  qed
qed


definition octets :: "nat list \<Rightarrow> bool" where
  "octets bs \<longleftrightarrow> length bs = 4 \<and> (\<forall>b\<in>set bs. b < 256)"

lemma octetsE:
  assumes "octets bs"
  obtains a b c d where "bs = [a, b, c, d]" "a < 256" "b < 256" "c < 256" "d < 256"
  using assms by (auto simp: octets_def length_Suc_conv eval_nat_numeral)

lemma pton4_accepts:
  assumes "octets bs"
  shows "inet_pton4 (dotted bs) = Some (0, bs)"
proof -
  obtain a b c d where bs: "bs = [a, b, c, d]" "a < 256" "b < 256" "c < 256" "d < 256" using assms by (rule octetsE)
  show ?thesis using pton4_digits [of d _ "[]"] bs
    by (simp add: inet_pton4_def pton4_digits)
qed

text \<open>The text read so far, as the state of the loop represents it.\<close>

definition read_so_far :: "bool \<Rightarrow> nat list \<Rightarrow> nat \<Rightarrow> string" where
  "read_so_far saw done cur = (if saw then dotted (done @ [cur]) else if done = [] then [] else dotted done @ ''.'')"

lemma pton4_only:
  "pton4_loop src saw oc done cur = Some (0, bs) \<Longrightarrow> oc = length done + (if saw then 1 else 0) \<Longrightarrow>
    (\<not> saw \<longrightarrow> cur = 0) \<Longrightarrow> length done \<le> 3 \<Longrightarrow> cur < 256 \<Longrightarrow> \<forall>b\<in>set done. b < 256 \<Longrightarrow>
    octets bs \<and> read_so_far saw done cur @ src = dotted bs"
proof (induction src arbitrary: saw oc "done" cur)
  case Nil
  then show ?case by (auto simp: octets_def read_so_far_def UV_EINVAL_def split: if_splits)
next
  case (Cons ch src)
  show ?case
  proof (cases "strchr_at decimal ch")
    case (Some d)
    note d = decimal_char [OF Some]
    have ok: "\<not> (saw \<and> cur = 0)" "cur * 10 + d \<le> 255"
      using Cons.prems(1) Some by (auto simp: Let_def UV_EINVAL_def split: if_splits)
    show ?thesis
    proof (cases saw)
      case True
      have "pton4_loop src True oc done (cur * 10 + d) = Some (0, bs)"
        using Cons.prems(1) Some ok True by (simp add: Let_def)
      then have "octets bs \<and> read_so_far True done (cur * 10 + d) @ src = dotted bs"
        using Cons.IH [of True "oc" "done" "cur * 10 + d"] ok True Cons.prems(2-) by simp
      then show ?thesis using digits_step [of cur d] ok True d by (simp add: read_so_far_def dotted_snoc)
    next
      case False
      have r: "pton4_loop src True (oc + 1) done d = Some (0, bs)" "oc + 1 \<le> 4"
        using Cons.prems(1,3) Some ok False by (auto simp: Let_def UV_EINVAL_def split: if_splits)
      then have "octets bs \<and> read_so_far True done d @ src = dotted bs"
        using Cons.IH [of True "oc + 1" "done" d] ok False Cons.prems(2-) by simp
      then show ?thesis using digits_one [of d] False d by (cases "done = []") (simp_all add: read_so_far_def dotted_snoc)
    qed
  next
    case None
    then have r: "ch = CHR ''.''" saw "oc \<noteq> 4" "pton4_loop src False oc (done @ [cur]) 0 = Some (0, bs)"
      using Cons.prems(1) by (auto simp: UV_EINVAL_def split: if_splits)
    then have "octets bs \<and> read_so_far False (done @ [cur]) 0 @ src = dotted bs"
      using Cons.IH [of False oc "done @ [cur]" 0] Cons.prems(2-) by auto
    then show ?thesis using r by (simp add: read_so_far_def)
  qed
qed

lemma pton4_total:
  "oc = length done + (if saw then 1 else 0) \<Longrightarrow> length done \<le> 3 \<Longrightarrow>
    \<exists>e bs. pton4_loop src saw oc done cur = Some (e, bs) \<and> (e = 0 \<longrightarrow> length bs = 4)"
proof (induction src arbitrary: saw oc "done" cur)
  case (Cons ch src)
  then show ?case by (cases "strchr_at decimal ch"; cases saw)
    (auto simp: UV_EINVAL_def Let_def Cons.IH [of _ "done @ [cur]" False] Cons.IH [of _ _ True])
qed (auto simp: UV_EINVAL_def)

lemma inet_pton4_iff: "inet_pton4 s = Some (0, bs) \<longleftrightarrow> octets bs \<and> s = dotted bs"
  using pton4_only [of s False 0 "[]" 0 bs] pton4_accepts [of bs] by (auto simp: inet_pton4_def read_so_far_def)

text \<open>
  C32: the parser of IPv4 addresses accepts exactly the texts the printer writes: four numbers up
  to 255 in decimal without leading zeros, with single dots between them. For any other text it
  returns an error, and for no text does it write behind its four bytes.
\<close>

theorem pton4_exact:
  "(inet_pton4 s = Some (0, bs) \<longleftrightarrow> octets bs \<and> s = dotted bs) \<and> (\<exists>e bs. inet_pton4 s = Some (e, bs))"
  using inet_pton4_iff [of s bs] pton4_total [of 0 "[]" False s 0] by (auto simp: inet_pton4_def)

lemma ntop4_spec:
  assumes "octets bs" "sz \<le> length dst"
  shows "inet_ntop4 bs dst sz = Some (if length (dotted bs) < sz then (0, dotted bs @ [NUL] @ drop (length (dotted bs) + 1) dst)
    else (UV_ENOSPC, dst)) \<and> length (dotted bs) \<le> 15"
proof -
  obtain a b c d where bs: "bs = [a, b, c, d]" "a < 256" "b < 256" "c < 256" "d < 256" using assms(1) by (rule octetsE)
  have l: "1 \<le> length (digits 10 x) \<and> length (digits 10 x) \<le> 3" if "x \<in> {a, b, c, d}" for x
    using that bs digits_byte_length by auto
  have 15: "length (dotted bs) \<le> 15" using bs(1) l [of a] l [of b] l [of c] l [of d] by simp
  have "inet_ntop4 bs dst sz = (if length (dotted bs) \<ge> sz then Some (UV_ENOSPC, dst)
    else do { (_, dst) \<leftarrow> uv__strscpy dst (dotted bs) sz; Some (0, dst) })"
    using 15 bs(1) by (simp add: inet_ntop4_def Let_def UV__INET_ADDRSTRLEN_def)
  then show ?thesis using 15 assms(2) by (simp add: strscpy_spec)
qed

lemma dotted_no_zero: "c \<in> set (dotted bs) \<Longrightarrow> c \<noteq> NUL"
  by (induction bs rule: dotted.induct) (auto dest: digits_no_zero)

lemma until_zero: "\<forall>c\<in>set s. c \<noteq> NUL \<Longrightarrow> takeWhile (\<lambda>c. c \<noteq> NUL) (s @ NUL # r) = s"
  by (induction s) auto

text \<open>
  IPv4 addresses survive being printed and parsed. With a buffer of sixteen bytes every
  address is printed, and parsing what stands in the buffer gives it back.
\<close>

theorem inet4_roundtrip:
  assumes "octets bs" and "16 \<le> sz" and "sz \<le> length dst"
  shows "\<exists>dst'. uv_inet_ntop AF_INET bs dst sz = Some (0, dst') \<and>
    uv_inet_pton AF_INET (Some (takeWhile (\<lambda>c. c \<noteq> NUL) dst')) True = Some (0, bs)"
proof -
  have "\<forall>c\<in>set (dotted bs). c \<noteq> NUL" using dotted_no_zero by blast
  then show ?thesis
    using ntop4_spec [OF assms(1,3)] assms(2) pton4_accepts [OF assms(1)] until_zero [of "dotted bs"]
    by (simp add: uv_inet_ntop_def uv_inet_pton_def)
qed

theorem inet4_roundtrip_witness:
  "\<exists>dst'. uv_inet_ntop AF_INET [192, 168, 0, 1] (replicate 16 NUL) 16 = Some (0, dst') \<and>
    uv_inet_pton AF_INET (Some (takeWhile (\<lambda>c. c \<noteq> NUL) dst')) True = Some (0, [192, 168, 0, 1])"
  by (rule inet4_roundtrip) (simp_all add: octets_def)


subsection \<open>IPv6 addresses: the parser stays inside its bytes\<close>

definition p6_ok :: "pton6 \<Rightarrow> bool" where
  "p6_ok s \<longleftrightarrow> length (p6_tmp s) = 16 \<and> p6_tp s \<le> 16 \<and> (case p6_colonp s of None \<Rightarrow> True | Some c \<Rightarrow> c \<le> p6_tp s)"

lemma put16_ok:
  assumes "p6_ok s" "p6_tp s + 2 \<le> 16"
  shows "\<exists>s'. put16 s = Some s' \<and> p6_ok s' \<and> p6_colonp s' = p6_colonp s \<and> p6_tp s' = p6_tp s + 2"
  using assms by (auto simp: put16_def block_write_def p6_ok_def split: option.splits)

lemma p6_ok_simps [simp]:
  "p6_ok (s\<lparr>p6_val := v\<rparr>) = p6_ok s" "p6_ok (s\<lparr>p6_seen := k\<rparr>) = p6_ok s" "p6_ok (s\<lparr>p6_curtok := t\<rparr>) = p6_ok s"
  "p6_ok s \<Longrightarrow> p6_ok (s\<lparr>p6_curtok := t, p6_colonp := Some (p6_tp s)\<rparr>)"
  by (simp_all add: p6_ok_def cong: option.case_cong)

lemma pton6_loop_ok: "p6_ok s \<Longrightarrow> \<exists>r. pton6_loop src s = Some r \<and> (case r of Inl e \<Rightarrow> e \<noteq> 0 | Inr s' \<Rightarrow> p6_ok s')"
proof (induction src arbitrary: s)
  case (Cons ch src)
  have four: "\<exists>e bs. inet_pton4 t = Some (e, bs) \<and> (e = 0 \<longrightarrow> length bs = 4)" for t
    using pton4_total [of 0 "[]" False t 0] by (simp add: inet_pton4_def)
  consider d where "xdigit ch = Some d" | "xdigit ch = None" "ch = CHR '':''" | "xdigit ch = None" "ch \<noteq> CHR '':''"
    by (cases "xdigit ch") blast+
  then show ?case
  proof cases
    case 1
    then show ?thesis using Cons.IH Cons.prems by (auto simp: Let_def UV_EINVAL_def)
  next
    case 2
    show ?thesis
    proof (cases "p6_seen s = 0 \<or> src = [] \<or> p6_tp s + 2 > 16")
      case True
      then show ?thesis using 2 Cons.IH Cons.prems by (auto simp: Let_def UV_EINVAL_def)
    next
      case False
      then obtain s' where "put16 (s\<lparr>p6_curtok := src\<rparr>) = Some s'" "p6_ok s'"
        using put16_ok [of "s\<lparr>p6_curtok := src\<rparr>"] Cons.prems by auto
      then show ?thesis using 2 False Cons.IH by (simp add: Let_def)
    qed
  next
    case 3
    obtain e bs where f: "inet_pton4 (p6_curtok s) = Some (e, bs)" "e = 0 \<longrightarrow> length bs = 4" using four by blast
    show ?thesis
      using 3 f Cons.prems by (auto simp: UV_EINVAL_def block_write_def p6_ok_def split: option.splits)
  qed
qed auto

lemma shift6_step:
  assumes "length (a @ x # replicate z 0 @ y) = 16" "0 < z" "length y + k + 1 = n" "length a = c + k"
  shows "shift6 (Suc k) n c (a @ x # replicate z 0 @ y) = shift6 k n c (a @ replicate z 0 @ x # y)"
proof -
  obtain z' where z: "z = Suc z'" using assms(2) by (cases z) auto
  have idx: "int c + int n - int (n - k) = int (length a)" using assms(3,4) by (simp add: of_nat_diff)
  have e: "a @ x # replicate z 0 @ y = (a @ x # replicate z' 0) @ 0 # y"
    using z by (simp add: replicate_append_same [symmetric])
  have p: "16 - int (n - k) = int (length (a @ x # replicate z' 0))" using assms z by (simp add: of_nat_diff)
  have r: "block_read (a @ x # replicate z 0 @ y) (int (length a)) = Some x" by (simp add: block_read_def)
  have w1: "block_write (a @ x # replicate z 0 @ y) (16 - int (n - k)) [x] = Some (a @ x # replicate z' 0 @ x # y)"
    unfolding e p by (subst block_write_append) simp
  have w2: "block_write (a @ x # replicate z' 0 @ x # y) (int (length a)) [0] = Some (a @ replicate z 0 @ x # y)"
    using block_write_append [of a "x # replicate z' 0 @ x # y" "[0]"] z by simp
  show ?thesis unfolding shift6.simps Let_def idx r w1 by (simp add: w1 [simplified] w2)
qed

lemma shift6_spec:
  "length x = k \<Longrightarrow> length y = n - k \<Longrightarrow> k \<le> n \<Longrightarrow> length a = c \<Longrightarrow> 0 < z \<Longrightarrow> length (a @ x @ replicate z 0 @ y) = 16 \<Longrightarrow>
    shift6 k n c (a @ x @ replicate z 0 @ y) = Some (a @ replicate z 0 @ x @ y)"
proof (induction k arbitrary: x y)
  case (Suc k)
  then obtain x' b where x: "x = x' @ [b]" "length x' = k" by (metis length_Suc_conv_rev)
  have "shift6 (Suc k) n c (a @ x @ replicate z 0 @ y) = shift6 k n c (a @ x' @ replicate z 0 @ b # y)"
    using shift6_step [of "a @ x'" b z y k n c] Suc.prems x by simp
  also have "\<dots> = Some (a @ replicate z 0 @ x' @ b # y)"
    by (rule Suc.IH) (use Suc.prems x in auto)
  finally show ?case using x by simp
qed simp


lemma shift6_total: "k \<le> n \<Longrightarrow> c + n \<le> 16 \<Longrightarrow> length tmp = 16 \<Longrightarrow> \<exists>tmp'. shift6 k n c tmp = Some tmp' \<and> length tmp' = 16"
proof (induction k arbitrary: tmp)
  case (Suc k)
  have r: "block_read tmp (int c + int n - int (n - k)) = Some (tmp ! nat (int c + int n - int (n - k)))"
    using Suc.prems by (auto simp: block_read_def of_nat_diff)
  obtain t1 where t1: "block_write tmp (16 - int (n - k)) [tmp ! nat (int c + int n - int (n - k))] = Some t1"
    using Suc.prems by (auto simp: block_write_def of_nat_diff)
  then have l1: "length t1 = 16" using Suc.prems(3) block_write_length by fastforce
  obtain t2 where t2: "block_write t1 (int c + int n - int (n - k)) [0] = Some t2"
    using Suc.prems l1 by (auto simp: block_write_def of_nat_diff)
  then have "length t2 = 16" using l1 block_write_length by fastforce
  then show ?case using Suc.IH [of t2] Suc.prems(1,2) r t1 t2 by (simp add: Let_def)
qed simp

lemma inet_pton6_total: "\<exists>e bs. inet_pton6 src = Some (e, bs) \<and> length bs = (if e \<noteq> 0 then 0 else 16)"
proof (cases "src \<noteq> [] \<and> hd src = CHR '':'' \<and> (tl src = [] \<or> hd (tl src) \<noteq> CHR '':'')")
  case True
  then show ?thesis by (simp add: inet_pton6_def UV_EINVAL_def)
next
  case False
  let ?src = "if src \<noteq> [] \<and> hd src = CHR '':'' then tl src else src"
  let ?s = "\<lparr>p6_tmp = replicate 16 0, p6_tp = 0, p6_colonp = None, p6_curtok = ?src, p6_seen = 0, p6_val = 0\<rparr>"
  have "p6_ok ?s" by (simp add: p6_ok_def)
  then obtain r where r: "pton6_loop ?src ?s = Some r" "case r of Inl e \<Rightarrow> e \<noteq> 0 | Inr s' \<Rightarrow> p6_ok s'"
    using pton6_loop_ok by blast
  show ?thesis
  proof (cases r)
    case (Inl e)
    then show ?thesis using False r by (simp add: inet_pton6_def pton6_finish_def Let_def UV_EINVAL_def)
  next
    case (Inr s)
    have ok: "p6_ok s" using r(2) Inr by simp
    show ?thesis
    proof (cases "p6_seen s \<noteq> 0 \<and> p6_tp s + 2 > 16")
      case True
      then show ?thesis using False r(1) Inr by (simp add: inet_pton6_def pton6_finish_def Let_def UV_EINVAL_def)
    next
      case room: False
      obtain s1 where s1: "(if p6_seen s \<noteq> 0 then put16 s else Some s) = Some s1" "p6_ok s1"
        using put16_ok [OF ok] ok room by (cases "p6_seen s = 0") auto
      show ?thesis
      proof (cases "p6_colonp s1")
        case None
        then show ?thesis using False r(1) Inr room s1
          by (simp add: inet_pton6_def pton6_finish_def Let_def UV_EINVAL_def p6_ok_def)
      next
        case (Some c)
        then obtain t where "shift6 (p6_tp s1 - c) (p6_tp s1 - c) c (p6_tmp s1) = Some t" "length t = 16"
          using shift6_total [of "p6_tp s1 - c" "p6_tp s1 - c" c "p6_tmp s1"] s1(2) by (auto simp: p6_ok_def)
        then show ?thesis using False r(1) Inr room s1 Some
          by (simp add: inet_pton6_def pton6_finish_def Let_def UV_EINVAL_def)
      qed
    qed
  qed
qed

text \<open>
  C33: parsing an address is safe. For every text, of any length, both parsers return, and
  neither they nor the shift that follows a double colon touch a byte outside the 4 or 16 bytes of
  the address; a failure writes nothing.
\<close>

theorem inet_pton_safe:
  "\<exists>e bs. uv_inet_pton af src has_dst = Some (e, bs) \<and>
    length bs = (if e \<noteq> 0 then 0 else case af of AF_INET \<Rightarrow> 4 | AF_INET6 \<Rightarrow> 16 | AF_OTHER \<Rightarrow> 0)"
proof -
  have four: "\<exists>e bs. inet_pton4 t = Some (e, bs) \<and> length bs = (if e \<noteq> 0 then 0 else 4)" for t
  proof -
    have "pton4_loop t saw oc done cur = Some (e, bs) \<Longrightarrow> e \<noteq> 0 \<Longrightarrow> bs = []" for saw oc "done" cur e bs
      by (induction t saw oc "done" cur rule: pton4_loop.induct) (auto simp: Let_def split: option.splits if_splits)
    then show ?thesis using pton4_total [of 0 "[]" False t 0] unfolding inet_pton4_def by fastforce
  qed
  have six: "\<exists>e bs. inet_pton6 t = Some (e, bs) \<and> length bs = (if e \<noteq> 0 then 0 else 16)" for t
    by (rule inet_pton6_total)
  have null: "\<exists>e bs. Some (UV_EINVAL, []) = Some (e, bs :: nat list) \<and> length bs = (if e \<noteq> 0 then 0 else k)" for k
    by (simp add: UV_EINVAL_def)
  show ?thesis
  proof (cases "src = None \<or> \<not> has_dst")
    case True
    then have "uv_inet_pton af src has_dst = Some (UV_EINVAL, [])" by (auto simp: uv_inet_pton_def split: option.split)
    then show ?thesis using null by simp
  next
    case False
    then obtain t where t: "src = Some t" has_dst by auto
    show ?thesis
    proof (cases af)
      case AF_INET
      then have "uv_inet_pton af src has_dst = inet_pton4 t" using t by (simp add: uv_inet_pton_def)
      then show ?thesis using four [of t] AF_INET by (simp only: family.case)
    next
      case AF_INET6
      then have "uv_inet_pton af src has_dst \<in> {inet_pton6 t, Some (UV_EINVAL, []), inet_pton6 (take (the (strchr_at t CHR ''%'')) t)}"
        using t by (auto simp: uv_inet_pton_def split: option.split)
      then show ?thesis using AF_INET6 six [of t] six [of "take (the (strchr_at t CHR ''%'')) t"] null [of 16]
        by (elim insertE emptyE) (simp_all only: family.case)
    next
      case AF_OTHER
      then show ?thesis using t by (simp add: uv_inet_pton_def UV_EAFNOSUPPORT_def)
    qed
  qed
qed


subsection \<open>IPv6 addresses: the printed text\<close>

text \<open>The text without the bounds of the temporary buffer; \<open>n\<close> is the number of words to come.\<close>

fun text6 :: "nat list \<Rightarrow> nat list \<Rightarrow> int \<times> int \<Rightarrow> nat \<Rightarrow> string" where
  "text6 src ws best 0 = []"
| "text6 src ws best (Suc n) =
     (let i = 7 - n in
      if in_run best i
      then (if int i = fst best then '':'' else []) @ text6 src ws best n
      else (if i \<noteq> 0 then '':'' else []) @
        (if i = 6 \<and> embeds4 ws best then dotted (drop 12 src)
         else digits 16 (ws ! i) @ text6 src ws best n))"

definition address6 :: "nat list \<Rightarrow> bool" where
  "address6 src \<longleftrightarrow> length src = 16 \<and> (\<forall>b\<in>set src. b < 256)"

lemma digits_length: "n < 16 ^ k \<Longrightarrow> 1 \<le> k \<Longrightarrow> length (digits 16 n) \<le> k"
proof (induction k arbitrary: n)
  case (Suc k)
  show ?case
  proof (cases "n < 16")
    case True
    then show ?thesis by (subst digits.simps) simp
  next
    case False
    then have "k \<noteq> 0" using Suc.prems by (cases k) auto
    then have "length (digits 16 (n div 16)) \<le> k" using Suc by (simp add: less_mult_imp_div_less mult.commute)
    then show ?thesis using False by (subst digits.simps) simp
  qed
qed simp

lemma digits16_no_zero: "c \<in> set (digits 16 n) \<Longrightarrow> c \<noteq> NUL"
proof (induction "16 :: nat" n rule: digits.induct)
  case (1 n)
  have "\<forall>d\<in>{0..<16}. hex ! d \<noteq> NUL" by code_simp
  then have "hex ! (n mod 16) \<noteq> NUL" by simp
  then show ?case using 1 by (subst (asm) digits.simps) (auto split: if_splits)
qed

lemma word_bound:
  assumes "address6 src" "i < 8"
  shows "words_of src ! i < 65536"
proof -
  have "src ! (2 * i) < 256" "src ! (2 * i + 1) < 256" using assms by (auto simp: address6_def)
  then show ?thesis using assms(2) by (simp add: words_of_def)
qed

lemma format6_text:
  assumes a: "address6 src"
  shows "n \<le> 8 \<Longrightarrow> length tmp \<le> 5 * (8 - n) \<Longrightarrow>
    (embeds4 (words_of src) best \<longrightarrow> length tmp \<le> 1 + 5 * (8 - n - 5)) \<Longrightarrow>
    format6 src (words_of src) best n tmp = Some (0, tmp @ text6 src (words_of src) best n) \<and>
    length (tmp @ text6 src (words_of src) best n) \<le> 46 - 2"
proof (induction n arbitrary: tmp)
  case (Suc n)
  let ?i = "7 - n" and ?ws = "words_of src"
  have oct: "octets (drop 12 src)" using a in_set_dropD by (fastforce simp: address6_def octets_def)
  have dig: "length (digits 16 (?ws ! ?i)) \<le> 4"
    by (rule digits_length) (use word_bound [OF a, of ?i] in simp_all)
  have len: "length tmp \<le> 5 * ?i" "length tmp < 40" using Suc.prems by simp_all
  show ?case
  proof (cases "in_run best ?i")
    case True
    let ?tmp = "tmp @ (if int ?i = fst best then '':'' else [])"
    have "length ?tmp \<le> 5 * (8 - n)" using len Suc.prems(1) by (cases "8 - n") auto
    moreover have "length ?tmp \<le> 1 + 5 * (8 - n - 5)" if "embeds4 ?ws best"
      using Suc.prems that len by (auto simp: embeds4_def in_run_def split: if_splits)
    ultimately show ?thesis
      using Suc.IH [of ?tmp] Suc.prems True len
      by (cases "int ?i = fst best") (simp_all add: Let_def tmp_put_def UV__INET6_ADDRSTRLEN_def)
  next
    case False
    let ?tmp = "tmp @ (if ?i \<noteq> 0 then '':'' else [])"
    have put: "(if ?i \<noteq> 0 then tmp_put tmp CHR '':'' else Some tmp) = Some ?tmp"
      using len by (cases "?i = 0") (simp_all add: tmp_put_def UV__INET6_ADDRSTRLEN_def)
    have "length ?tmp \<le> length tmp + 1" by simp
    then have lt: "length ?tmp \<le> 5 * ?i + 1" using len(1) by linarith
    show ?thesis
    proof (cases "?i = 6 \<and> embeds4 ?ws best")
      case True
      let ?dot = "dotted (drop 12 src)"
      have n: "n = 1" using conjunct1 [OF True] by linarith
      have e: "fst best = 0" "\<not> 6 < snd best" using True False n by (auto simp: embeds4_def in_run_def)
      define room where "room = 45 - length tmp"
      have short: "length ?tmp \<le> 7" using Suc.prems(3) True by simp
      have dot: "length ?dot \<le> 15" using ntop4_spec [OF oct, of 0 "[]"] by simp
      have fits: "length ?dot < room" using short dot n by (simp add: room_def)
      then have nt: "inet_ntop4 (drop 12 src) (replicate room NUL) room =
          Some (0, ?dot @ [NUL] @ drop (length ?dot + 1) (replicate room NUL))"
        using ntop4_spec [OF oct, of room "replicate room NUL"] by simp
      have tk: "takeWhile (\<lambda>c. c \<noteq> NUL) (?dot @ [NUL] @ r) = ?dot" for r
        using until_zero [of ?dot r] dotted_no_zero by auto
      have "format6 src ?ws best (Suc n) tmp = Some (0, ?tmp @ ?dot)"
        using False True put nt tk [of "drop (length ?dot + 1) (replicate room NUL)"] n
        by (simp add: Let_def UV__INET6_ADDRSTRLEN_def room_def)
      then show ?thesis using True False short dot n by (simp add: Let_def)
    next
      case inner: False
      have pr: "tmp_print ?tmp (digits 16 (?ws ! ?i)) = Some (?tmp @ digits 16 (?ws ! ?i))"
        using lt dig by (simp add: tmp_print_def UV__INET6_ADDRSTRLEN_def)
      have "length (?tmp @ digits 16 (?ws ! ?i)) \<le> 5 * (8 - n)" using lt dig len Suc.prems(1) by (auto split: if_splits)
      moreover have "length (?tmp @ digits 16 (?ws ! ?i)) \<le> 1 + 5 * (8 - n - 5)" if "embeds4 ?ws best"
        using Suc.prems that dig False by (auto simp: embeds4_def in_run_def split: if_splits)
      ultimately show ?thesis using Suc.IH [of "?tmp @ digits 16 (?ws ! ?i)"] False inner put pr Suc.prems(1)
          format6.simps(2) [of src ?ws best 7 tmp] text6.simps(2) [of src ?ws best 7]
        by (cases "?i = 6"; cases "?i = 0"; cases "embeds4 ?ws best") (simp_all add: Let_def)
    qed
  qed
qed simp


subsection \<open>IPv6 addresses: parsing the printed text\<close>

lemma xdigit_hex: "d < 16 \<Longrightarrow> xdigit (hex ! d) = Some d"
proof -
  have "\<forall>d\<in>{0..<16}. xdigit (hex ! d) = Some d" by code_simp
  then show "d < 16 \<Longrightarrow> xdigit (hex ! d) = Some d" by simp
qed

lemma xdigit_other [simp]: "xdigit CHR '':'' = None" "xdigit CHR ''.'' = None"
  by code_simp+

lemma digits_not_empty [simp]: "digits base n \<noteq> []"
  by (subst digits.simps) simp

lemma pton6_hex:
  "n < 65536 \<Longrightarrow> p6_seen s = 0 \<Longrightarrow> p6_val s = 0 \<Longrightarrow>
    pton6_loop (digits 16 n @ r) s = pton6_loop r (s\<lparr>p6_val := n, p6_seen := length (digits 16 n)\<rparr>)"
proof (induction "16 :: nat" n arbitrary: r rule: digits.induct)
  case (1 n)
  show ?case
  proof (cases "n < 16")
    case True
    then have "digits 16 n = [hex ! n]" by (subst digits.simps) simp
    then show ?thesis using 1(3,4) True by (simp add: xdigit_hex Let_def)
  next
    case False
    then have d: "digits 16 n = digits 16 (n div 16) @ [hex ! (n mod 16)]" by (subst digits.simps) simp
    have "length (digits 16 n) \<le> 4" by (rule digits_length) (use 1(2) in simp_all)
    then have l: "length (digits 16 (n div 16)) \<le> 3" using d by simp
    have "n div 16 * 16 + n mod 16 = n" by simp
    then show ?thesis using 1 False l by (simp add: d xdigit_hex Let_def)
  qed
qed

text \<open>The octets in front of a dot are read as hexadecimal digits first.\<close>

lemma pton6_octet:
  assumes "n < 256" "p6_seen s = 0"
  shows "\<exists>v. pton6_loop (digits 10 n @ r) s = pton6_loop r (s\<lparr>p6_val := v, p6_seen := length (digits 10 n)\<rparr>)"
  using assms by (auto simp: digits_byte xdigit_hex Let_def)

lemma hd_digits [simp]: "hd (digits 16 n @ r) \<noteq> CHR '':''"
proof (induction "16 :: nat" n arbitrary: r rule: digits.induct)
  case (1 n)
  have "\<forall>d\<in>{0..<16}. hex ! d \<noteq> CHR '':''" by code_simp
  then show ?case using 1 by (subst digits.simps) auto
qed


text \<open>The whole text: a run that reaches the end is closed by a second colon.\<close>

definition shown6 :: "nat list \<Rightarrow> string" where
  "shown6 src =
     (let ws = words_of src; best = best_run 0 ws (-1, 0) (-1, 0)
      in text6 src ws best 8 @ (if fst best \<noteq> -1 \<and> fst best + snd best = 8 then '':'' else []))"

lemma ntop6_spec:
  assumes "address6 src" "sz \<le> length dst"
  shows "inet_ntop6 src dst sz = Some (if length (shown6 src) < sz then (0, shown6 src @ [NUL] @ drop (length (shown6 src) + 1) dst)
      else if sz = 0 then (0, dst) else (UV_ENOSPC, take (sz - 1) (shown6 src) @ [NUL] @ drop sz dst)) \<and>
    length (shown6 src) \<le> 45"
proof -
  let ?ws = "words_of src"
  define best where "best = best_run 0 ?ws (-1, 0) (-1, 0)"
  have f: "format6 src ?ws best 8 [] = Some (0, text6 src ?ws best 8)" "length (text6 src ?ws best 8) \<le> 44"
    using format6_text [OF assms(1), of 8 "[]" best] by auto
  have s: "shown6 src = text6 src ?ws best 8 @ (if fst best \<noteq> -1 \<and> fst best + snd best = 8 then '':'' else [])"
    by (simp add: shown6_def best_def Let_def)
  have l: "length (shown6 src) \<le> 45" using f(2) s by simp
  have "inet_ntop6 src dst sz = do { (r, dst) \<leftarrow> uv__strscpy dst (shown6 src) sz; if r = UV_E2BIG then Some (UV_ENOSPC, dst) else Some (0, dst) }"
    unfolding inet_ntop6_def Let_def best_def [symmetric] f(1)
    using l f(2) by (simp add: s tmp_put_def UV__INET6_ADDRSTRLEN_def)
  then show ?thesis using l assms(2) by (auto simp: strscpy_spec UV_E2BIG_def)
qed

text \<open>
  C34: printing an IPv6 address is safe. The text never leaves the 46 bytes of the temporary
  buffer nor the caller's, it is at most 45 characters, and it is stored whole or reported as
  too long.
\<close>

theorem inet_ntop6_safe:
  assumes "address6 src" and "sz \<le> length dst" and "0 < sz"
  shows "uv_inet_ntop AF_INET6 src dst sz = Some (if length (shown6 src) < sz
      then (0, shown6 src @ [NUL] @ drop (length (shown6 src) + 1) dst)
      else (UV_ENOSPC, take (sz - 1) (shown6 src) @ [NUL] @ drop sz dst)) \<and> length (shown6 src) \<le> 45"
  using ntop6_spec [OF assms(1,2)] assms(3) by (simp add: uv_inet_ntop_def)

theorem inet_ntop6_safe_witness:
  "length (shown6 (replicate 16 255)) \<le> 45"
  using inet_ntop6_safe [of "replicate 16 255" 40 "replicate 40 NUL"] by (simp add: address6_def)

end
