(* ===== verification/Uv_Idna.thy ===== *)
theory Uv_Idna
  imports Uv_Timer Uv_Inet
begin

section \<open>Host names: UTF-8 and the ASCII form\<close>

text \<open>
  \<open>src/deps/libuv/src/idna.c\<close>: the decoder of UTF-8 and the conversion of a host name to its
  ASCII form (IDNA with Punycode labels). The input is a block and a position in it; reading
  outside the block is \<^const>\<open>None\<close>. The output is the text written so far and the room \<open>cap\<close> of
  its buffer. Code points and counters are 32-bit words; -1 marks an invalid sequence.
\<close>

type_synonym u32 = "32 word"

subsection \<open>The decoder\<close>

definition byte_at :: "string \<Rightarrow> nat \<Rightarrow> u32 option" where
  "byte_at mem p = map_option (\<lambda>c. of_nat (cnum c)) (block_read mem (int p))"

definition utf8_combine :: "u32 \<Rightarrow> u32 \<Rightarrow> u32 \<Rightarrow> u32 \<Rightarrow> u32 \<Rightarrow> u32" where
  "utf8_combine least a b c d =
     (if 0xC0 AND (b XOR c XOR d) \<noteq> 0x80 then -1
      else let b = b AND 63; c = c AND 63; d = d AND 63;
               a = push_bit 18 a OR push_bit 12 b OR push_bit 6 c OR d
        in if a < least then -1
           else if a > 0x10FFFF then -1
           else if a \<ge> 0xD800 \<and> a \<le> 0xDFFF then -1
           else a)"

definition uv__utf8_decode1_slow :: "string \<Rightarrow> nat \<Rightarrow> nat \<Rightarrow> u32 \<Rightarrow> (u32 \<times> nat) option" where
  "uv__utf8_decode1_slow mem p pe a =
     (if a > 0xF7 then Some (-1, p)
      else let k = int p - int pe in
        if k \<noteq> 2 \<and> k \<noteq> 1 \<and> a > 0xEF then do {
          b \<leftarrow> byte_at mem p;
          c \<leftarrow> byte_at mem (p + 1);
          d \<leftarrow> byte_at mem (p + 2);
          Some (utf8_combine 0x10000 (a AND 7) b c d, p + 3)
        }
        else if k \<noteq> 1 \<and> a > 0xDF then do {
          c \<leftarrow> byte_at mem p;
          d \<leftarrow> byte_at mem (p + 1);
          Some (utf8_combine 0x800 0 (0x80 OR (a AND 15)) c d, p + 2)
        }
        else if a > 0xBF then do {
          d \<leftarrow> byte_at mem p;
          Some (utf8_combine 0x80 0 0x80 (0x80 OR (a AND 31)) d, p + 1)
        }
        else Some (-1, p))"

definition uv__utf8_decode1 :: "string \<Rightarrow> nat \<Rightarrow> nat \<Rightarrow> (u32 \<times> nat) option" where
  "uv__utf8_decode1 mem p pe = do {
     a \<leftarrow> byte_at mem p;
     if a < 128 then Some (a, p + 1) else uv__utf8_decode1_slow mem (p + 1) pe a
   }"

lemma decode1_advances: "uv__utf8_decode1 mem p pe = Some (c, p') \<Longrightarrow> p < p'"
  by (auto simp: uv__utf8_decode1_def uv__utf8_decode1_slow_def Let_def split: bind_splits if_splits)

text \<open>
  \<open>foreach_codepoint\<close>: the code points it visits. The first pass stops at an invalid one, and
  the later passes are only made when there is none.
\<close>

function codepoints :: "string \<Rightarrow> nat \<Rightarrow> nat \<Rightarrow> u32 list option" where
  "codepoints mem p pe =
     (if p > pe then Some []
      else case uv__utf8_decode1 mem p pe of
        None \<Rightarrow> None
      | Some (c, p') \<Rightarrow>
          if p' > pe then Some []
          else if c = -1 then Some [c]
          else map_option ((#) c) (codepoints mem p' pe))"
  by pat_completeness auto
termination
  by (relation "measure (\<lambda>(mem, p, pe). pe + 1 - p)") (auto dest: decode1_advances)

declare codepoints.simps [simp del]

subsection \<open>One label\<close>

definition put :: "nat \<Rightarrow> string \<Rightarrow> char \<Rightarrow> string" where
  "put cap d c = (if length d < cap then d @ [c] else d)"

definition alphabet :: string where
  "alphabet = ''abcdefghijklmnopqrstuvwxyz0123456789''"

definition put_digit :: "nat \<Rightarrow> string \<Rightarrow> u32 \<Rightarrow> string option" where
  "put_digit cap d t = (if length d < cap then map_option (put cap d) (block_read alphabet (uint t)) else Some d)"

fun copy_ascii :: "nat \<Rightarrow> u32 \<Rightarrow> u32 list \<Rightarrow> u32 \<Rightarrow> string \<Rightarrow> string" where
  "copy_ascii cap h [] x d = d"
| "copy_ascii cap h (c # cs) x d =
     (if c > 127 then copy_ascii cap h cs x d
      else let d = put cap d (char_of (unat c)); x = x + 1
        in if x = h then d else copy_ascii cap h cs x d)"

text \<open>The digits of \<open>q\<close> in the variable base of Punycode, the last one included.\<close>

definition threshold :: "u32 \<Rightarrow> u32 \<Rightarrow> u32" where
  "threshold k bias = (let t = (if k > bias then k - bias else 1) in if t > 26 then 26 else t)"

lemma threshold_range: "1 \<le> threshold k bias" "threshold k bias \<le> 26" "1 \<le> unat (threshold k bias)" "unat (threshold k bias) \<le> 26"
proof -
  show 1: "1 \<le> threshold k bias"
  proof -
    have "k > bias \<Longrightarrow> 1 \<le> k - bias" by (metis diff_eq_eq less_irrefl linorder_not_less word_less_1 add_0)
    then show ?thesis by (simp add: threshold_def Let_def)
  qed
  show 2: "threshold k bias \<le> 26" by (auto simp: threshold_def Let_def)
  show "1 \<le> unat (threshold k bias)" using 1 by (simp add: word_le_nat_alt)
  show "unat (threshold k bias) \<le> 26" using 2 by (simp add: word_le_nat_alt)
qed

function put_number :: "nat \<Rightarrow> u32 \<Rightarrow> u32 \<Rightarrow> u32 \<Rightarrow> string \<Rightarrow> string option" where
  "put_number cap bias k q d =
     (let t = threshold k bias in
      if q < t then put_digit cap d q
      else let x = q - t; y = 36 - t in
        case put_digit cap d (t + x mod y) of
          None \<Rightarrow> None
        | Some d \<Rightarrow> put_number cap bias (k + 36) (x div y) d)"
  by pat_completeness auto
termination
proof (relation "measure (\<lambda>(cap, bias, k, q, d). unat q)")
  fix cap bias k q d t x y d'
  assume t: "t = threshold k bias" and q: "\<not> q < t" and x: "x = q - t" and y: "y = 36 - t"
  have "unat x = unat q - unat t" using q x by (simp add: unat_sub)
  then have "unat x < unat q" using threshold_range(3) [of k bias] q t by (simp add: word_less_nat_alt)
  then have "unat (x div y) < unat q" by (metis div_le_dividend le_less_trans unat_div)
  then show "((cap, bias, k + 36, x div y, d'), (cap, bias, k, q, d)) \<in> measure (\<lambda>(cap, bias, k, q, d). unat q)" by simp
qed simp

declare put_number.simps [simp del]

function adapt_loop :: "u32 \<Rightarrow> u32 \<Rightarrow> u32 \<times> u32" where
  "adapt_loop delta bias = (if delta > 35 * 26 div 2 then adapt_loop (delta div 35) (bias + 36) else (delta, bias))"
  by pat_completeness auto
termination
proof (relation "measure (\<lambda>(delta, bias). unat delta)")
  fix delta bias :: u32
  assume "delta > 35 * 26 div 2"
  then have "0 < unat delta" by (simp add: word_less_nat_alt)
  then show "((delta div 35, bias + 36), (delta, bias)) \<in> measure (\<lambda>(delta, bias). unat delta)"
    by (simp add: unat_div)
qed simp

declare adapt_loop.simps [simp del]

record puny =
  pu_n :: u32
  pu_bias :: u32
  pu_delta :: u32
  pu_h :: u32
  pu_todo :: u32
  pu_first :: bool
  pu_out :: string

definition adapt :: "puny \<Rightarrow> puny" where
  "adapt st =
     (let delta = pu_delta st div 2;
          delta = (if pu_first st then delta div 350 else delta);
          h = pu_h st + 1;
          delta = delta + delta div h;
          (delta, bias) = adapt_loop delta 0
      in st\<lparr>pu_first := False, pu_h := h, pu_bias := bias + 36 * delta div (delta + 38), pu_delta := 0,
            pu_todo := pu_todo st - 1\<rparr>)"

text \<open>The pass over the code points: \<open>Inl\<close> an error code, \<open>Inr\<close> the state after it.\<close>

fun puny_pass :: "nat \<Rightarrow> u32 list \<Rightarrow> puny \<Rightarrow> (int + puny) option" where
  "puny_pass cap [] st = Some (Inr st)"
| "puny_pass cap (c # cs) st =
     (let st = (if c < pu_n st then st\<lparr>pu_delta := pu_delta st + 1\<rparr> else st) in
      if c < pu_n st \<and> pu_delta st = 0 then Some (Inl UV_E2BIG)
      else if c \<noteq> pu_n st then puny_pass cap cs st
      else do {
        d \<leftarrow> put_number cap (pu_bias st) 36 (pu_delta st) (pu_out st);
        puny_pass cap cs (adapt (st\<lparr>pu_out := d\<rparr>))
      })"

fun next_point :: "u32 \<Rightarrow> u32 list \<Rightarrow> u32 \<Rightarrow> u32" where
  "next_point n [] m = m"
| "next_point n (c # cs) m = next_point n cs (if c \<ge> n \<and> c < m then c else m)"

partial_function (option) puny_loop :: "nat \<Rightarrow> u32 list \<Rightarrow> puny \<Rightarrow> (int \<times> string) option" where
  "puny_loop cap cs st =
     (if pu_todo st = 0 then Some (0, pu_out st)
      else let m = next_point (pu_n st) cs (-1); x = m - pu_n st; y = pu_h st + 1 in
        if x > NOT (pu_delta st) div y then Some (UV_E2BIG, pu_out st)
        else do {
          r \<leftarrow> puny_pass cap cs (st\<lparr>pu_delta := pu_delta st + x * y, pu_n := m\<rparr>);
          case r of
            Inl e \<Rightarrow> Some (e, pu_out st)
          | Inr st \<Rightarrow> puny_loop cap cs (st\<lparr>pu_delta := pu_delta st + 1, pu_n := pu_n st + 1\<rparr>)
        })"

declare puny_loop.simps [code]

definition uv__idna_toascii_label :: "string \<Rightarrow> nat \<Rightarrow> nat \<Rightarrow> nat \<Rightarrow> string \<Rightarrow> (int \<times> string) option" where
  "uv__idna_toascii_label mem s se cap d = do {
     cs \<leftarrow> codepoints mem s se;
     if -1 \<in> set cs then Some (UV_EINVAL, d)
     else do {
       let h = of_nat (length (filter (\<lambda>c. c < 128) cs));
       let todo = of_nat (length (filter (\<lambda>c. \<not> c < 128) cs));
       let d = (if todo > 0 then foldl (put cap) d ''xn--'' else d);
       let d = copy_ascii cap h cs 0 d;
       if todo = 0 then Some (i32 (uint h), d)
       else do {
         let d = (if h > 0 then put cap d CHR ''-'' else d);
         puny_loop cap cs \<lparr>pu_n = 128, pu_bias = 72, pu_delta = 0, pu_h = h, pu_todo = todo, pu_first = True, pu_out = d\<rparr>
       }
     }
   }"

subsection \<open>The whole name\<close>

definition is_dot :: "u32 \<Rightarrow> bool" where
  "is_dot c \<longleftrightarrow> c = 46 \<or> c = 0x3002 \<or> c = 0xFF0E \<or> c = 0xFF61"

definition finish_name :: "string \<Rightarrow> nat \<Rightarrow> nat \<Rightarrow> nat \<Rightarrow> string \<Rightarrow> (int \<times> string) option" where
  "finish_name mem s se cap d = do {
     (rc, d) \<leftarrow> (if s < se then uv__idna_toascii_label mem s se cap d else Some (0, d));
     if rc < 0 then Some (rc, d)
     else do { let d = put cap d (CHR 0x00); Some (int (length d), d) }
   }"

function labels :: "string \<Rightarrow> nat \<Rightarrow> nat \<Rightarrow> nat \<Rightarrow> nat \<Rightarrow> string \<Rightarrow> (int \<times> string) option" where
  "labels mem s si se cap d =
     (if si < se then
        case uv__utf8_decode1 mem si se of
          None \<Rightarrow> None
        | Some (c, si') \<Rightarrow>
            if \<not> is_dot c then labels mem s si' se cap d
            else (case uv__idna_toascii_label mem s si cap d of
                None \<Rightarrow> None
              | Some (rc, d) \<Rightarrow> if rc < 0 then Some (rc, d) else labels mem si' si' se cap (put cap d CHR ''.''))
      else finish_name mem s se cap d)"
  by pat_completeness auto
termination
  by (relation "measure (\<lambda>(mem, s, si, se, cap, d). se - si)") (auto dest: decode1_advances)

declare labels.simps [simp del]

definition uv__idna_toascii :: "string \<Rightarrow> nat \<Rightarrow> nat \<Rightarrow> nat \<Rightarrow> (int \<times> string) option" where
  "uv__idna_toascii mem s se cap = labels mem s s se cap []"


subsection \<open>The decoder on valid text\<close>

text \<open>The encoding of a scalar value, as the standard defines it.\<close>

definition scalar :: "nat \<Rightarrow> bool" where
  "scalar n \<longleftrightarrow> n < 0xD800 \<or> 0xE000 \<le> n \<and> n < 0x110000"

definition utf8 :: "nat \<Rightarrow> nat list" where
  "utf8 n =
     (if n < 0x80 then [n]
      else if n < 0x800 then [0xC0 + n div 64, 0x80 + n mod 64]
      else if n < 0x10000 then [0xE0 + n div 4096, 0x80 + n div 64 mod 64, 0x80 + n mod 64]
      else [0xF0 + n div 262144, 0x80 + n div 4096 mod 64, 0x80 + n div 64 mod 64, 0x80 + n mod 64])"

lemma all_below:
  assumes "\<forall>x\<in>set [0..<n]. P x" "x < n"
  shows "P x"
  using assms by simp

lemma cont_bits:
  assumes "x < 64"
  shows "0xC0 AND (0x80 + of_nat x :: u32) = 0x80" "(0x80 + of_nat x :: u32) AND 63 = of_nat x"
proof -
  have "\<forall>x\<in>set [0..<64]. 0xC0 AND (0x80 + of_nat x :: u32) = 0x80 \<and> (0x80 + of_nat x :: u32) AND 63 = of_nat x" by code_simp
  from all_below [OF this assms] show "0xC0 AND (0x80 + of_nat x :: u32) = 0x80" "(0x80 + of_nat x :: u32) AND 63 = of_nat x"
    by simp_all
qed

lemma lead_bits:
  "x < 32 \<Longrightarrow> 0x80 OR ((0xC0 + of_nat x :: u32) AND 31) = 0x80 + of_nat x"
  "x < 16 \<Longrightarrow> 0x80 OR ((0xE0 + of_nat x :: u32) AND 15) = 0x80 + of_nat x"
  "x < 8 \<Longrightarrow> (0xF0 + of_nat x :: u32) AND 7 = of_nat x"
proof -
  have "\<forall>x\<in>set [0..<32]. 0x80 OR ((0xC0 + of_nat x :: u32) AND 31) = 0x80 + of_nat x" by code_simp
  then show "x < 32 \<Longrightarrow> 0x80 OR ((0xC0 + of_nat x :: u32) AND 31) = 0x80 + of_nat x" by (rule all_below)
  have "\<forall>x\<in>set [0..<16]. 0x80 OR ((0xE0 + of_nat x :: u32) AND 15) = 0x80 + of_nat x" by code_simp
  then show "x < 16 \<Longrightarrow> 0x80 OR ((0xE0 + of_nat x :: u32) AND 15) = 0x80 + of_nat x" by (rule all_below)
  have "\<forall>x\<in>set [0..<8]. (0xF0 + of_nat x :: u32) AND 7 = of_nat x" by code_simp
  then show "x < 8 \<Longrightarrow> (0xF0 + of_nat x :: u32) AND 7 = of_nat x" by (rule all_below)
qed

lemma push_or:
  fixes x y :: u32
  assumes "unat y < 2 ^ k"
  shows "push_bit k x OR y = of_nat (unat x * 2 ^ k + unat y)"
proof -
  have "\<not> bit (push_bit k x) n \<or> \<not> bit y n" for n
  proof (cases "n < k")
    case True
    then show ?thesis by (simp add: bit_simps)
  next
    case False
    then have "unat y < 2 ^ n" using assms by (meson le_less_trans not_le power_increasing_iff order_less_le_trans one_less_numeral_iff semiring_norm(76) less_imp_le)
    then have "\<not> bit (unat y) n" by (simp add: bit_iff_odd)
    then show ?thesis by (simp add: bit_unsigned_iff)
  qed
  then have "push_bit k x OR y = push_bit k x + y" by (simp add: disjunctive_add)
  then show ?thesis by (simp add: push_bit_eq_mult)
qed

lemma unat_small: "x < 2 ^ 32 \<Longrightarrow> unat (of_nat x :: u32) = x"
  by (simp add: unsigned_of_nat take_bit_nat_eq_self)

lemma push_or_nat:
  assumes "x < 2 ^ 32" "y < 2 ^ k" "y < 2 ^ 32"
  shows "push_bit k (of_nat x) OR of_nat y = (of_nat (x * 2 ^ k + y) :: u32)"
  using push_or [of "of_nat y" k "of_nat x"] assms by (simp only: unat_small)

lemma combine_ok:
  assumes "a < 8" "b < 64" "c < 64" "d < 64" "n = ((a * 64 + b) * 64 + c) * 64 + d" "unat least \<le> n" "scalar n"
  shows "utf8_combine least (of_nat a) (0x80 + of_nat b) (0x80 + of_nat c) (0x80 + of_nat d) = of_nat n"
proof -
  have "0xC0 AND ((0x80 + of_nat b) XOR (0x80 + of_nat c) XOR (0x80 + of_nat d) :: u32) = 0x80"
    using assms cont_bits(1) by (simp add: bit.conj_xor_distrib)
  moreover have "push_bit 18 (of_nat a) OR push_bit 12 (of_nat b) OR push_bit 6 (of_nat c) OR of_nat d = (of_nat n :: u32)"
  proof -
    have 1: "push_bit 6 (of_nat c) OR of_nat d = (of_nat (c * 2 ^ 6 + d) :: u32)"
      by (rule push_or_nat) (use assms in simp_all)
    have 2: "push_bit 12 (of_nat b) OR of_nat (c * 2 ^ 6 + d) = (of_nat (b * 2 ^ 12 + (c * 2 ^ 6 + d)) :: u32)"
      by (rule push_or_nat) (use assms in simp_all)
    have 3: "push_bit 18 (of_nat a) OR of_nat (b * 2 ^ 12 + (c * 2 ^ 6 + d)) = (of_nat (a * 2 ^ 18 + (b * 2 ^ 12 + (c * 2 ^ 6 + d))) :: u32)"
      by (rule push_or_nat) (use assms in simp_all)
    have "a * 2 ^ 18 + (b * 2 ^ 12 + (c * 2 ^ 6 + d)) = n" using assms(5) by simp
    then show ?thesis by (simp only: 1 2 3)
  qed
  moreover have "n < 2 ^ 32" using assms(7) by (auto simp: scalar_def)
  then have "\<not> (of_nat n :: u32) < least" "\<not> (of_nat n :: u32) > 0x10FFFF" "\<not> ((of_nat n :: u32) \<ge> 0xD800 \<and> (of_nat n :: u32) \<le> 0xDFFF)"
    using assms(6,7) unat_small [of n] by (auto simp: word_less_nat_alt word_le_nat_alt scalar_def)
  ultimately show ?thesis
    using assms(1-4) cont_bits(2) unfolding utf8_combine_def by (auto simp: Let_def)
qed


definition bytes :: "nat list \<Rightarrow> string" where
  "bytes ns = map char_of ns"

lemma byte_at_simp: "byte_at mem p = (if p < length mem then Some (of_nat (cnum (mem ! p))) else None)"
  by (simp add: byte_at_def block_read_def)

lemma byte_at_behind: "byte_at (pre @ xs) (length pre + i) = byte_at xs i" "byte_at (pre @ xs) (length pre) = byte_at xs 0"
  "byte_at (pre @ xs) (Suc (length pre)) = byte_at xs 1" "byte_at (pre @ xs) (Suc (Suc (length pre))) = byte_at xs 2"
  "byte_at (pre @ xs) (Suc (Suc (Suc (length pre)))) = byte_at xs 3"
  by (auto simp: byte_at_simp nth_append)

lemma byte_at_Cons [simp]: "byte_at (c # xs) 0 = Some (of_nat (cnum c))" "byte_at (c # xs) (Suc i) = byte_at xs i"
  "byte_at (c # xs) 1 = byte_at xs 0" "byte_at (c # xs) 2 = byte_at xs 1" "byte_at (c # xs) 3 = byte_at xs 2"
  by (simp_all add: byte_at_simp numeral_2_eq_2 numeral_3_eq_3)

text \<open>The order of lead bytes.\<close>

lemma lead_order:
  "x < 32 \<Longrightarrow> \<not> (0xC0 + of_nat x :: u32) < 128 \<and> \<not> (0xC0 + of_nat x :: u32) > 0xF7 \<and> \<not> (0xC0 + of_nat x :: u32) > 0xEF \<and> \<not> (0xC0 + of_nat x :: u32) > 0xDF \<and> (0xC0 + of_nat x :: u32) > 0xBF"
  "x < 16 \<Longrightarrow> \<not> (0xE0 + of_nat x :: u32) < 128 \<and> \<not> (0xE0 + of_nat x :: u32) > 0xF7 \<and> \<not> (0xE0 + of_nat x :: u32) > 0xEF \<and> (0xE0 + of_nat x :: u32) > 0xDF"
  "x < 8 \<Longrightarrow> \<not> (0xF0 + of_nat x :: u32) < 128 \<and> \<not> (0xF0 + of_nat x :: u32) > 0xF7 \<and> (0xF0 + of_nat x :: u32) > 0xEF"
proof -
  have "\<forall>x\<in>set [0..<32]. \<not> (0xC0 + of_nat x :: u32) < 128 \<and> \<not> (0xC0 + of_nat x :: u32) > 0xF7 \<and> \<not> (0xC0 + of_nat x :: u32) > 0xEF \<and> \<not> (0xC0 + of_nat x :: u32) > 0xDF \<and> (0xC0 + of_nat x :: u32) > 0xBF"
    by code_simp
  then show "x < 32 \<Longrightarrow> \<not> (0xC0 + of_nat x :: u32) < 128 \<and> \<not> (0xC0 + of_nat x :: u32) > 0xF7 \<and> \<not> (0xC0 + of_nat x :: u32) > 0xEF \<and> \<not> (0xC0 + of_nat x :: u32) > 0xDF \<and> (0xC0 + of_nat x :: u32) > 0xBF"
    by (rule all_below)
  have "\<forall>x\<in>set [0..<16]. \<not> (0xE0 + of_nat x :: u32) < 128 \<and> \<not> (0xE0 + of_nat x :: u32) > 0xF7 \<and> \<not> (0xE0 + of_nat x :: u32) > 0xEF \<and> (0xE0 + of_nat x :: u32) > 0xDF"
    by code_simp
  then show "x < 16 \<Longrightarrow> \<not> (0xE0 + of_nat x :: u32) < 128 \<and> \<not> (0xE0 + of_nat x :: u32) > 0xF7 \<and> \<not> (0xE0 + of_nat x :: u32) > 0xEF \<and> (0xE0 + of_nat x :: u32) > 0xDF"
    by (rule all_below)
  have "\<forall>x\<in>set [0..<8]. \<not> (0xF0 + of_nat x :: u32) < 128 \<and> \<not> (0xF0 + of_nat x :: u32) > 0xF7 \<and> (0xF0 + of_nat x :: u32) > 0xEF"
    by code_simp
  then show "x < 8 \<Longrightarrow> \<not> (0xF0 + of_nat x :: u32) < 128 \<and> \<not> (0xF0 + of_nat x :: u32) > 0xF7 \<and> (0xF0 + of_nat x :: u32) > 0xEF"
    by (rule all_below)
qed

lemma decode1_utf8:
  assumes n: "scalar n" and pe: "length pre < pe"
  shows "uv__utf8_decode1 (pre @ bytes (utf8 n) @ post) (length pre) pe = Some (of_nat n, length pre + length (utf8 n))"
proof -
  let ?mem = "pre @ bytes (utf8 n) @ post"
  have k: "int (length pre + 1) - int pe \<noteq> 2" "int (length pre + 1) - int pe \<noteq> 1" using pe by simp_all
  note slow = uv__utf8_decode1_def uv__utf8_decode1_slow_def Let_def
  have n': "n < 0x110000" using n by (auto simp: scalar_def)
  consider "n < 0x80" | "0x80 \<le> n" "n < 0x800" | "0x800 \<le> n" "n < 0x10000" | "0x10000 \<le> n" by linarith
  then show ?thesis
  proof cases
    case 1
    then have "byte_at ?mem (length pre) = Some (of_nat n)" by (simp add: utf8_def bytes_def byte_at_behind)
    moreover have "(of_nat n :: u32) < 128" using 1 by (simp add: word_less_nat_alt unat_small)
    ultimately show ?thesis using 1 by (simp add: slow utf8_def)
  next
    case 2
    let ?a = "n div 64" and ?d = "n mod 64"
    have a: "?a < 32" "?d < 64" using 2 by simp_all
    have m: "byte_at ?mem (length pre) = Some (0xC0 + of_nat ?a)" "byte_at ?mem (length pre + 1) = Some (0x80 + of_nat ?d)"
      using 2 a by (simp_all add: utf8_def bytes_def byte_at_behind)
    have "utf8_combine 0x80 (of_nat 0) (0x80 + of_nat 0) (0x80 + of_nat ?a) (0x80 + of_nat ?d) = of_nat n"
      by (rule combine_ok) (use a 2 n in simp_all)
    then show ?thesis using m k lead_bits(1) [OF a(1)] lead_order(1) [OF a(1)] 2 by (simp add: slow utf8_def)
  next
    case 3
    let ?a = "n div 4096" and ?c = "n div 64 mod 64" and ?d = "n mod 64"
    have a: "?a < 16" "?c < 64" "?d < 64" using 3 by simp_all
    have m: "byte_at ?mem (length pre) = Some (0xE0 + of_nat ?a)" "byte_at ?mem (length pre + 1) = Some (0x80 + of_nat ?c)"
      "byte_at ?mem (length pre + 1 + 1) = Some (0x80 + of_nat ?d)"
      using 3 a by (simp_all add: utf8_def bytes_def byte_at_behind)
    have "?a = n div 64 div 64" by (simp add: div_mult2_eq [symmetric])
    then have "n = (?a * 64 + ?c) * 64 + ?d" by (metis div_mult_mod_eq)
    then have "utf8_combine 0x800 (of_nat 0) (0x80 + of_nat ?a) (0x80 + of_nat ?c) (0x80 + of_nat ?d) = of_nat n"
      by (intro combine_ok) (use a 3 n in simp_all)
    then show ?thesis using m k lead_bits(2) [OF a(1)] lead_order(2) [OF a(1)] 3 by (simp add: slow utf8_def)
  next
    case 4
    let ?a = "n div 262144" and ?b = "n div 4096 mod 64" and ?c = "n div 64 mod 64" and ?d = "n mod 64"
    have a: "?a < 8" "?b < 64" "?c < 64" "?d < 64" using 4 n' by simp_all
    have m: "byte_at ?mem (length pre) = Some (0xF0 + of_nat ?a)" "byte_at ?mem (length pre + 1) = Some (0x80 + of_nat ?b)"
      "byte_at ?mem (length pre + 1 + 1) = Some (0x80 + of_nat ?c)" "byte_at ?mem (length pre + 1 + 2) = Some (0x80 + of_nat ?d)"
      using 4 a by (simp_all add: utf8_def bytes_def byte_at_behind)
    have "?a = n div 64 div 64 div 64" "?b = n div 64 div 64 mod 64" by (simp_all add: div_mult2_eq [symmetric])
    then have "n = ((?a * 64 + ?b) * 64 + ?c) * 64 + ?d" by (metis div_mult_mod_eq)
    then have "utf8_combine 0x10000 (of_nat ?a) (0x80 + of_nat ?b) (0x80 + of_nat ?c) (0x80 + of_nat ?d) = of_nat n"
      by (intro combine_ok) (use a 4 n in simp_all)
    then show ?thesis using m k lead_bits(3) [OF a(1)] lead_order(3) [OF a(1)] 4 by (simp add: slow utf8_def)
  qed
qed


subsection \<open>The conversion returns\<close>

lemma combine_range: "utf8_combine least a b c d = -1 \<or> utf8_combine least a b c d \<le> 0x10FFFF"
  by (auto simp: utf8_combine_def Let_def)

text \<open>
  A name as its callers pass it: its bytes and the terminating zero. \<open>follow c\<close> is the number of bytes the decoder reads
  behind a lead byte, \<open>readable name\<close> that every sequence it reads ends with the terminating zero at the latest.
\<close>

definition follow :: "char \<Rightarrow> nat" where
  "follow c = (if cnum c > 0xF7 then 0 else if cnum c > 0xEF then 3 else if cnum c > 0xDF then 2 else if cnum c > 0xBF then 1 else 0)"

function readable :: "string \<Rightarrow> bool" where
  "readable [] = True"
| "readable (c # cs) \<longleftrightarrow> follow c \<le> Suc (length cs) \<and> readable (drop (follow c) cs)"
  by pat_completeness auto
termination
  by (relation "measure length") auto

abbreviation zeroed :: "string \<Rightarrow> string" where
  "zeroed name \<equiv> name @ [CHR 0x00]"

lemma cnum_unat: "unat (of_nat (cnum c) :: u32) = cnum c"
  by (rule unat_small, rule order_less_trans [OF cnum_bound]) simp

lemma cnum_word: "(of_nat (cnum c) :: u32) < of_nat n \<longleftrightarrow> cnum c < n" "(of_nat n :: u32) < of_nat (cnum c) \<longleftrightarrow> n < cnum c" if "n < 2 ^ 32" for n
  using that unat_small [of n] by (simp_all add: word_less_nat_alt cnum_unat)

lemma lead_byte: "(of_nat (cnum c) :: u32) < 128 \<longleftrightarrow> cnum c < 128" "(of_nat (cnum c) :: u32) > 0xF7 \<longleftrightarrow> cnum c > 0xF7"
  "(of_nat (cnum c) :: u32) > 0xEF \<longleftrightarrow> cnum c > 0xEF" "(of_nat (cnum c) :: u32) > 0xDF \<longleftrightarrow> cnum c > 0xDF"
  "(of_nat (cnum c) :: u32) > 0xBF \<longleftrightarrow> cnum c > 0xBF"
  using cnum_word(1) [of 128 c] cnum_word(2) [of "0xF7" c] cnum_word(2) [of "0xEF" c] cnum_word(2) [of "0xDF" c] cnum_word(2) [of "0xBF" c]
  by simp_all

lemma decode1_at:
  assumes "p < length name" "p < pe"
  shows "if p + follow (name ! p) \<le> length name
    then \<exists>c. uv__utf8_decode1 (zeroed name) p pe = Some (c, p + 1 + follow (name ! p)) \<and> (c = -1 \<or> c \<le> 0x10FFFF)
    else uv__utf8_decode1 (zeroed name) p pe = None"
proof -
  let ?c = "name ! p"
  have a: "byte_at (zeroed name) p = Some (of_nat (cnum ?c))" using assms(1) by (simp add: byte_at_simp nth_append)
  have k: "int (p + 1) - int pe \<noteq> 2" "int (p + 1) - int pe \<noteq> 1" using assms(2) by simp_all
  have r: "byte_at (zeroed name) q = (if q \<le> length name then Some (of_nat (cnum (zeroed name ! q))) else None)" for q
    by (simp add: byte_at_simp)
  have small: "(of_nat (cnum ?c) :: u32) \<le> 0x10FFFF" using order_trans [OF less_imp_le [OF cnum_bound [of ?c]], of 1114111] by (simp add: word_le_nat_alt cnum_unat)
  show ?thesis
  proof (cases "cnum ?c < 128")
    case True
    then show ?thesis using a small assms(1) by (simp add: uv__utf8_decode1_def lead_byte follow_def)
  next
    case False
    then have "uv__utf8_decode1 (zeroed name) p pe = uv__utf8_decode1_slow (zeroed name) (p + 1) pe (of_nat (cnum ?c))"
      using a by (simp add: uv__utf8_decode1_def lead_byte)
    moreover consider "cnum ?c > 0xF7" | "cnum ?c \<le> 0xF7" "cnum ?c > 0xEF" | "cnum ?c \<le> 0xEF" "cnum ?c > 0xDF"
      | "cnum ?c \<le> 0xDF" "cnum ?c > 0xBF" | "cnum ?c \<le> 0xBF" by linarith
    ultimately show ?thesis
      using combine_range k assms(1) by cases (auto simp: uv__utf8_decode1_slow_def lead_byte follow_def r Let_def)
  qed
qed

text \<open>At its end a label, the decoder reads one byte more at most.\<close>

lemma decode1_end:
  assumes "p \<le> length name"
  shows "\<exists>c p'. uv__utf8_decode1 (zeroed name) p p = Some (c, p')"
proof (cases "p = length name")
  case True
  then have "byte_at (zeroed name) p = Some 0" by (simp add: byte_at_simp cnum_def)
  then show ?thesis by (simp add: uv__utf8_decode1_def)
next
  case False
  then have "p < length name" using assms by simp
  then show ?thesis by (auto simp: uv__utf8_decode1_def uv__utf8_decode1_slow_def byte_at_simp Let_def)
qed

text \<open>The decoder, started at \<open>p\<close>, comes to \<open>q\<close> without leaving the block.\<close>

function chain :: "string \<Rightarrow> nat \<Rightarrow> nat \<Rightarrow> bool" where
  "chain name p q \<longleftrightarrow>
     (if p = q then True
      else if p < q \<and> p < length name \<and> p + follow (name ! p) \<le> length name then chain name (p + 1 + follow (name ! p)) q
      else False)"
  by pat_completeness auto
termination
  by (relation "measure (\<lambda>(name, p, q). q - p)") auto

declare chain.simps [simp del]

lemma chain_refl [simp]: "chain name p p"
  by (simp add: chain.simps [of name p p])

lemma chain_le: "chain name p q \<Longrightarrow> p \<le> q"
  by (simp add: chain.simps [of name p q] split: if_splits)

lemma chain_step:
  "chain name p q \<Longrightarrow> q < length name \<Longrightarrow> q + follow (name ! q) \<le> length name \<Longrightarrow> chain name p (q + 1 + follow (name ! q))"
proof (induction name p q rule: chain.induct)
  case (1 name p q)
  let ?q = "q + 1 + follow (name ! q)"
  show ?case
  proof (cases "p = q")
    case True
    then show ?thesis using "1.prems"(2,3) chain.simps [of name p ?q] by simp
  next
    case False
    then have p: "p < q" "p < length name" "p + follow (name ! p) \<le> length name" "chain name (p + 1 + follow (name ! p)) q"
      using "1.prems"(1) chain.simps [of name p q] by (simp_all split: if_splits)
    have "chain name (p + 1 + follow (name ! p)) ?q" by (rule "1.IH") (use False p "1.prems"(2,3) in auto)
    then show ?thesis using p chain.simps [of name p ?q] by simp
  qed
qed

lemma codepoints_total:
  "chain name p q \<Longrightarrow> pe \<le> q \<Longrightarrow> pe \<le> length name \<Longrightarrow>
   \<exists>cs. codepoints (zeroed name) p pe = Some cs \<and> length cs \<le> pe + 1 - p \<and> (\<forall>c\<in>set cs. c = -1 \<or> c \<le> 0x10FFFF)"
proof (induction "pe + 1 - p" arbitrary: p rule: less_induct)
  case less
  consider "p > pe" | "p = pe" | "p < pe" by linarith
  then show ?case
  proof cases
    case 1
    then show ?thesis by (simp add: codepoints.simps [of _ p pe])
  next
    case 2
    then obtain c p' where d: "uv__utf8_decode1 (zeroed name) p pe = Some (c, p')" using decode1_end [of p name] less.prems(3) by auto
    then have "p' > pe" using decode1_advances [OF d] 2 by simp
    then have "codepoints (zeroed name) p pe = Some []" using d 2 by (subst codepoints.simps) simp
    then show ?thesis by simp
  next
    case 3
    let ?p = "p + 1 + follow (name ! p)"
    have c: "p < length name" "p + follow (name ! p) \<le> length name" "chain name ?p q"
      using less.prems(1,2) 3 chain.simps [of name p q] by (auto split: if_splits)
    obtain c where d: "uv__utf8_decode1 (zeroed name) p pe = Some (c, ?p)" "c = -1 \<or> c \<le> 0x10FFFF"
      using decode1_at [OF c(1) 3] c(2) by auto
    show ?thesis
    proof (cases "?p > pe \<or> c = -1")
      case True
      then show ?thesis using 3 d by (auto simp: codepoints.simps [of _ p pe])
    next
      case False
      have "pe + 1 - ?p < pe + 1 - p" using 3 by simp
      from less.hyps [OF this c(3) less.prems(2,3)] obtain cs where
        "codepoints (zeroed name) ?p pe = Some cs" "length cs \<le> pe + 1 - ?p" "\<forall>c\<in>set cs. c = -1 \<or> c \<le> 0x10FFFF" by blast
      then show ?thesis using 3 False d by (auto simp: codepoints.simps [of _ p pe])
    qed
  qed
qed

lemma put_length [simp]: "length d \<le> cap \<Longrightarrow> length (put cap d c) \<le> cap"
  by (simp add: put_def)

lemma put_digit_total:
  assumes "unat t < 36" "length d \<le> cap"
  shows "\<exists>d'. put_digit cap d t = Some d' \<and> length d' \<le> cap"
proof -
  have "nat (uint t) = unat t" by simp
  then have "uint t < 36" using assms(1) by (metis nat_less_iff of_nat_numeral uint_ge_0 nat_numeral zless_nat_conj)
  then have "block_read alphabet (uint t) \<noteq> None" by (simp add: block_read_def alphabet_def)
  then show ?thesis using assms(2) by (auto simp: put_digit_def)
qed

lemma digit_range:
  fixes t x :: u32
  assumes "unat t \<le> 26"
  shows "unat (t + x mod (36 - t)) < 36"
proof -
  have y: "unat (36 - t) = 36 - unat t" using assms by (simp add: unat_sub word_le_nat_alt)
  then have "unat (x mod (36 - t)) < 36 - unat t" using assms by (simp add: unat_mod)
  moreover have "unat (t + x mod (36 - t)) \<le> unat t + unat (x mod (36 - t))"
    by (simp add: unat_word_ariths) 
  ultimately show ?thesis using assms by linarith
qed

lemma put_number_total: "length d \<le> cap \<Longrightarrow> \<exists>d'. put_number cap bias k q d = Some d' \<and> length d' \<le> cap"
proof (induction cap bias k q d rule: put_number.induct)
  case (1 cap bias k q d)
  define t where "t = threshold k bias"
  note t = threshold_range [of k bias, folded t_def]
  show ?case
  proof (cases "q < t")
    case True
    then have "unat q < 36" using t(4) by (simp add: word_less_nat_alt)
    then show ?thesis using True put_digit_total [OF _ 1(2)] by (simp add: put_number.simps [of cap bias k q d] Let_def t_def)
  next
    case False
    obtain d' where d': "put_digit cap d (t + (q - t) mod (36 - t)) = Some d'" "length d' \<le> cap"
      using put_digit_total [OF digit_range [OF t(4)] 1(2)] by blast
    have "\<exists>d''. put_number cap bias (k + 36) ((q - t) div (36 - t)) d' = Some d'' \<and> length d'' \<le> cap"
      using 1(1) [OF refl _ refl refl] d' False unfolding t_def by blast
    then show ?thesis using False d' by (simp add: put_number.simps [of cap bias k q d] Let_def t_def)
  qed
qed

lemma adapt_simps [simp]: "pu_n (adapt st) = pu_n st" "pu_out (adapt st) = pu_out st" "pu_todo (adapt st) = pu_todo st - 1"
  by (simp_all add: adapt_def Let_def split: prod.split)

lemma puny_pass_total:
  "length (pu_out st) \<le> cap \<Longrightarrow> \<exists>r. puny_pass cap cs st = Some r \<and> (case r of Inl e \<Rightarrow> e = UV_E2BIG
     | Inr st' \<Rightarrow> pu_n st' = pu_n st \<and> length (pu_out st') \<le> cap \<and> pu_todo st' = pu_todo st - of_nat (count_list cs (pu_n st)))"
proof (induction cs arbitrary: st)
  case (Cons c cs)
  let ?st = "if c < pu_n st then st\<lparr>pu_delta := pu_delta st + 1\<rparr> else st"
  have s: "pu_n ?st = pu_n st" "pu_out ?st = pu_out st" "pu_todo ?st = pu_todo st" by simp_all
  have "length (pu_out ?st) \<le> cap" using Cons.prems s by simp
  from put_number_total [OF this]
  obtain d where d: "put_number cap (pu_bias ?st) 36 (pu_delta ?st) (pu_out ?st) = Some d" "length d \<le> cap" by blast
  show ?case
  proof (cases "c = pu_n st")
    case True
    then have "puny_pass cap (c # cs) st = puny_pass cap cs (adapt (st\<lparr>pu_out := d\<rparr>))" using d by (simp add: Let_def)
    then show ?thesis using Cons.IH [of "adapt (st\<lparr>pu_out := d\<rparr>)"] d(2) True by (auto simp: algebra_simps split: sum.splits)
  next
    case False
    then show ?thesis using Cons.IH [of ?st] Cons.prems by (cases "c < pu_n st") (auto simp: Let_def split: sum.splits)
  qed
qed simp

lemma puny_pass_from:
  assumes "length (pu_out st) \<le> cap" "pu_n st = m" "pu_todo st = todo"
  shows "\<exists>r. puny_pass cap cs st = Some r \<and> (case r of Inl e \<Rightarrow> e = UV_E2BIG
     | Inr st' \<Rightarrow> pu_n st' = m \<and> length (pu_out st') \<le> cap \<and> pu_todo st' = todo - of_nat (count_list cs m))"
  using puny_pass_total [OF assms(1)] assms(2,3) by blast

lemma next_point_spec:
  "next_point n cs m \<le> m" "next_point n cs m = m \<or> next_point n cs m \<in> set cs \<and> n \<le> next_point n cs m"
  "\<forall>c\<in>set cs. n \<le> c \<longrightarrow> next_point n cs m \<le> c"
proof -
  have "next_point n cs m \<le> m \<and> (next_point n cs m = m \<or> next_point n cs m \<in> set cs \<and> n \<le> next_point n cs m)
    \<and> (\<forall>c\<in>set cs. n \<le> c \<longrightarrow> next_point n cs m \<le> c)"
  proof (induction cs arbitrary: m)
    case (Cons c cs)
    show ?case
    proof (cases "c \<ge> n \<and> c < m")
      case True
      then show ?thesis using Cons.IH [of c] by auto
    next
      case False
      then show ?thesis using Cons.IH [of m] by auto
    qed
  qed simp
  then show "next_point n cs m \<le> m" "next_point n cs m = m \<or> next_point n cs m \<in> set cs \<and> n \<le> next_point n cs m"
    "\<forall>c\<in>set cs. n \<le> c \<longrightarrow> next_point n cs m \<le> c"
    by auto
qed

lemma succ_le: "m \<le> 0x10FFFF \<Longrightarrow> m + 1 \<le> c \<longleftrightarrow> m < c" for m c :: u32
proof -
  assume "m \<le> 0x10FFFF"
  then have "unat m \<le> 0x10FFFF" by (simp add: word_le_nat_alt)
  then have "unat (m + 1) = unat m + 1" by (simp add: unat_word_ariths)
  then show ?thesis by (simp add: word_le_nat_alt word_less_nat_alt Suc_le_eq)
qed

lemma count_filter:
  fixes n m :: u32
  assumes "m \<le> 0x10FFFF" "n \<le> m" "\<forall>c\<in>set cs. n \<le> c \<longrightarrow> m \<le> c"
  shows "length (filter (\<lambda>c. n \<le> c) cs) = count_list cs m + length (filter (\<lambda>c. m + 1 \<le> c) cs)"
  using assms(3) by (induction cs) (use assms(1,2) in \<open>auto simp: succ_le\<close>)

lemma puny_loop_total:
  "\<lbrakk>\<forall>c\<in>set cs. c \<le> 0x10FFFF; length cs < 2 ^ 32; length (pu_out st) \<le> cap;
    pu_todo st = of_nat (length (filter (\<lambda>c. pu_n st \<le> c) cs))\<rbrakk>
   \<Longrightarrow> \<exists>rc d. puny_loop cap cs st = Some (rc, d) \<and> length d \<le> cap"
proof (induction "length (filter (\<lambda>c. pu_n st \<le> c) cs)" arbitrary: st rule: less_induct)
  case less
  let ?m = "next_point (pu_n st) cs (-1)"
  let ?st = "st\<lparr>pu_delta := pu_delta st + (?m - pu_n st) * (pu_h st + 1), pu_n := ?m\<rparr>"
  show ?case
  proof (cases "pu_todo st = 0")
    case True
    then show ?thesis using less.prems by (simp add: puny_loop.simps)
  next
    case False
    then have "filter (\<lambda>c. pu_n st \<le> c) cs \<noteq> []" using less.prems(4) by auto
    then obtain c where c: "c \<in> set cs" "pu_n st \<le> c" by (auto simp: filter_empty_conv)
    then have "?m \<le> c" using next_point_spec(3) [where cs = cs and n = "pu_n st"] by simp
    then have small: "?m \<le> 0x10FFFF" using c less.prems(1) by (meson order_trans)
    have "\<not> (-1 :: u32) \<le> 0x10FFFF" by code_simp
    then have m: "?m \<in> set cs" "pu_n st \<le> ?m" using small next_point_spec(2) [of "pu_n st" cs "-1"] by metis+
    have fewer: "length (filter (\<lambda>c. pu_n st \<le> c) cs) = count_list cs ?m + length (filter (\<lambda>c. ?m + 1 \<le> c) cs)"
      by (rule count_filter [OF small m(2) next_point_spec(3)])
    have "length (pu_out ?st) \<le> cap" "pu_n ?st = ?m" "pu_todo ?st = pu_todo st" using less.prems(3) by simp_all
    from puny_pass_from [OF this]
    obtain r where r: "puny_pass cap cs ?st = Some r"
      "case r of Inl e \<Rightarrow> e = UV_E2BIG | Inr st' \<Rightarrow> pu_n st' = ?m \<and> length (pu_out st') \<le> cap \<and> pu_todo st' = pu_todo st - of_nat (count_list cs ?m)"
      by blast
    show ?thesis
    proof (cases r)
      case (Inl e)
      then show ?thesis using False r less.prems(3) by (simp add: puny_loop.simps [of cap cs st] Let_def)
    next
      case (Inr st')
      let ?next = "st'\<lparr>pu_delta := pu_delta st' + 1, pu_n := pu_n st' + 1\<rparr>"
      have "count_list cs ?m > 0" using m(1) by (simp add: count_list_0_iff zero_less_iff_neq_zero)
      then have "length (filter (\<lambda>c. pu_n ?next \<le> c) cs) < length (filter (\<lambda>c. pu_n st \<le> c) cs)" using fewer r(2) Inr by simp
      moreover have "pu_todo ?next = of_nat (length (filter (\<lambda>c. pu_n ?next \<le> c) cs))" using fewer r(2) Inr less.prems(4) by simp
      moreover have "length (pu_out ?next) \<le> cap" using r(2) Inr by simp
      ultimately have "\<exists>rc d. puny_loop cap cs ?next = Some (rc, d) \<and> length d \<le> cap"
        using less.hyps less.prems(1,2) by blast
      then show ?thesis using False r less.prems(3) Inr by (simp add: puny_loop.simps [of cap cs st] Let_def)
    qed
  qed
qed

lemma copy_ascii_length: "length d \<le> cap \<Longrightarrow> length (copy_ascii cap h cs x d) \<le> cap"
  by (induction cap h cs x d rule: copy_ascii.induct) (auto simp: Let_def)

lemma foldl_put_length: "length d \<le> cap \<Longrightarrow> length (foldl (put cap) d xs) \<le> cap"
  by (induction xs arbitrary: d) auto

lemma label_total:
  assumes ch: "chain name s q" "se \<le> q" "se \<le> length name" and size: "length name + 1 < 2 ^ 32" and d: "length d \<le> cap"
  shows "\<exists>rc d'. uv__idna_toascii_label (zeroed name) s se cap d = Some (rc, d') \<and> length d' \<le> cap"
proof -
  obtain cs where cs: "codepoints (zeroed name) s se = Some cs" "length cs \<le> se + 1 - s" "\<forall>c\<in>set cs. c = -1 \<or> c \<le> 0x10FFFF"
    using codepoints_total [OF ch] by blast
  show ?thesis
  proof (cases "-1 \<in> set cs")
    case True
    then show ?thesis using cs(1) d by (simp add: uv__idna_toascii_label_def)
  next
    case False
    then have small: "\<forall>c\<in>set cs. c \<le> 0x10FFFF" "length cs < 2 ^ 32" using cs(2,3) ch(3) size by auto
    note len = copy_ascii_length foldl_put_length
    have "\<exists>rc d'. puny_loop cap cs \<lparr>pu_n = 128, pu_bias = 72, pu_delta = 0, pu_h = h,
        pu_todo = of_nat (length (filter (\<lambda>c. \<not> c < 128) cs)), pu_first = True, pu_out = d\<rparr> = Some (rc, d') \<and> length d' \<le> cap"
      if "length d \<le> cap" for h d
      by (rule puny_loop_total) (use small that in \<open>simp_all add: not_less\<close>)
    then show ?thesis using cs(1) d False len by (simp add: uv__idna_toascii_label_def Let_def)
  qed
qed

lemma finish_name_total:
  assumes "chain name s q" "length name \<le> q" "length name + 1 < 2 ^ 32" "length d \<le> cap"
  shows "\<exists>rc d'. finish_name (zeroed name) s (length name) cap d = Some (rc, d') \<and> length d' \<le> cap \<and> (if 0 \<le> rc then rc = int (length d') else True)"
proof -
  obtain rc d' where "(if s < length name then uv__idna_toascii_label (zeroed name) s (length name) cap d else Some (0, d)) = Some (rc, d')" "length d' \<le> cap"
    using label_total [OF assms(1,2) _ assms(3,4)] assms(4) by (cases "s < length name") auto
  then show ?thesis by (cases "rc < 0") (simp_all add: finish_name_def Let_def)
qed

lemma readable_drop:
  assumes "p < length name"
  shows "readable (drop p name) \<longleftrightarrow> p + follow (name ! p) \<le> length name \<and> readable (drop (p + 1 + follow (name ! p)) name)"
proof -
  have "drop p name = name ! p # drop (Suc p) name" using assms by (simp add: Cons_nth_drop_Suc)
  moreover have "follow (name ! p) \<le> Suc (length (drop (Suc p) name)) \<longleftrightarrow> p + follow (name ! p) \<le> length name" using assms by auto
  ultimately show ?thesis by (simp add: add.commute)
qed

text \<open>What the conversion makes of the rest of a name from \<open>si\<close> on, the label begun at \<open>s\<close>.\<close>

definition converted :: "nat \<Rightarrow> string \<Rightarrow> (int \<times> string) option \<Rightarrow> bool" where
  "converted cap rest r \<longleftrightarrow> (case r of None \<Rightarrow> \<not> readable rest
     | Some (rc, d) \<Rightarrow> length d \<le> cap \<and> (if 0 \<le> rc then rc = int (length d) \<and> readable rest else True))"

lemma labels_total:
  "\<lbrakk>chain name s si; length name + 1 < 2 ^ 32; length d \<le> cap\<rbrakk>
   \<Longrightarrow> converted cap (drop si name) (labels (zeroed name) s si (length name) cap d)"
proof (induction "length name - si" arbitrary: s si d rule: less_induct)
  case less
  let ?se = "length name"
  show ?case
  proof (cases "si < ?se")
    case False
    then show ?thesis using finish_name_total [OF less.prems(1) _ less.prems(2,3)]
      by (auto simp: labels.simps [of _ s si] converted_def)
  next
    case True
    note at = decode1_at [OF True True] and rd = readable_drop [OF True]
    show ?thesis
    proof (cases "si + follow (name ! si) \<le> ?se")
      case False
      then have "labels (zeroed name) s si ?se cap d = None" using at True by (simp add: labels.simps [of _ s si])
      then show ?thesis using False rd by (simp add: converted_def)
    next
      case ok: True
      let ?si = "si + 1 + follow (name ! si)"
      obtain c where c: "uv__utf8_decode1 (zeroed name) si ?se = Some (c, ?si)" using at ok by auto
      have "readable (drop si name) = readable (drop ?si name)" using rd ok by simp
      then have rest: "converted cap (drop si name) r = converted cap (drop ?si name) r" for r by (simp only: converted_def)
      have sm: "?se - ?si < ?se - si" using True by simp
      show ?thesis
      proof (cases "is_dot c")
        case False
        have "chain name s ?si" by (rule chain_step [OF less.prems(1) True ok])
        from less.hyps [OF sm this less.prems(2,3)] show ?thesis unfolding rest
          using True c False by (simp add: labels.simps [of _ s si])
      next
        case dot: True
        obtain rc d' where l: "uv__idna_toascii_label (zeroed name) s si cap d = Some (rc, d')" "length d' \<le> cap"
          using label_total [OF less.prems(1) order_refl _ less.prems(2,3)] True by auto
        show ?thesis
        proof (cases "rc < 0")
          case True
          then have "labels (zeroed name) s si ?se cap d = Some (rc, d')" using \<open>si < ?se\<close> c dot l by (simp add: labels.simps [of _ s si])
          then show ?thesis using True l(2) by (simp add: converted_def)
        next
          case False
          have "labels (zeroed name) s si ?se cap d = labels (zeroed name) ?si ?si ?se cap (put cap d' CHR ''.'')"
            using True c dot l(1) False by (simp add: labels.simps [of _ s si])
          then show ?thesis unfolding rest using less.hyps [OF sm chain_refl less.prems(2)] l(2) by simp
        qed
      qed
    qed
  qed
qed

text \<open>
  C37: the decoder inverts UTF-8: at the encoding of a scalar value, in any context, it returns that
  value and steps over exactly its bytes.
\<close>

theorem decode1_roundtrip:
  assumes "scalar n" "length pre < pe"
  shows "uv__utf8_decode1 (pre @ bytes (utf8 n) @ post) (length pre) pe = Some (of_nat n, length pre + length (utf8 n))"
  by (rule decode1_utf8 [OF assms])

lemma decode1_roundtrip_witness: "uv__utf8_decode1 (''a'' @ bytes (utf8 0x20AC) @ ''b'') 1 5 = Some (0x20AC, 4)"
  using decode1_roundtrip [where n = "0x20AC" and pre = "''a''" and pe = 5 and post = "''b''"] by (simp add: scalar_def utf8_def)

text \<open>
  Two inputs the decoder does not treat as UTF-8. The continuation bytes are only tested by
  their exclusive or, so E1 41 42 is taken for a code point; and at the last byte of the text a
  four byte lead makes it read behind the text.
\<close>

theorem decode1_flaws:
  "uv__utf8_decode1 (bytes [0xE1, 0x41, 0x42]) 0 3 = Some (0x1042, 3) \<and>
   uv__utf8_decode1 (bytes [0x41, 0xF0]) 1 2 = None"
  by code_simp

text \<open>
  C38: the conversion of a host name, called as the library does, with the name and its terminating zero. For a name of
  less than \<open>2 ^ 32 - 1\<close> bytes it returns, unless the name ends inside a multi-byte sequence that reaches behind
  the zero: then it reads behind the string, or has refused an earlier label. It never writes more than
  the room of its buffer; a result that is not an error is the number of bytes written, and then every
  sequence of the name has been read inside the string.
\<close>

theorem toascii_bounds:
  assumes "length name + 1 < 2 ^ 32"
  shows "case uv__idna_toascii (zeroed name) 0 (length name) cap of None \<Rightarrow> \<not> readable name
    | Some (rc, d) \<Rightarrow> length d \<le> cap \<and> (if 0 \<le> rc then rc = int (length d) \<and> readable name else True)"
  using labels_total [OF chain_refl assms, of "[]" cap 0] by (simp add: uv__idna_toascii_def converted_def)

lemma toascii_bounds_witness:
  "\<exists>rc d. uv__idna_toascii (bytes [98, 195, 188, 99] @ [CHR 0x00]) 0 4 16 = Some (rc, d) \<and> length d \<le> 16 \<and> (if 0 \<le> rc then rc = int (length d) else True)"
proof -
  have r: "readable (bytes [98, 195, 188, 99])" by (simp add: bytes_def follow_def)
  have l: "length (bytes [98, 195, 188, 99]) = 4" by (simp add: bytes_def)
  have "length (bytes [98, 195, 188, 99]) + 1 < 2 ^ 32" by (simp add: l)
  from toascii_bounds [OF this, of 16] show ?thesis unfolding l using r by (fastforce split: option.splits if_splits)
qed

text \<open>A name that ends in a four byte lead is read behind its string.\<close>

lemma toascii_overrun: "uv__idna_toascii (bytes [65, 0xF0] @ [CHR 0x00]) 0 2 16 = None"
  by code_simp

end
