(* ===== verification/Uv_Threadpool.thy ===== *)
theory Uv_Threadpool
  imports Uv_Timer
begin

section \<open>The thread pool\<close>

text \<open>
  \<open>src/deps/libuv/src/threadpool.c\<close>. The code between taking and releasing a mutex is one
  step; the steps of the workers, of the loops and of the requests interleave freely. A queue is
  the list of its elements in order, the pointers of \<open>queue.h\<close> being the neighbours in the list;
  what \<open>QUEUE_EMPTY\<close> says of an element itself is \<open>linked\<close>: \<open>QUEUE_INIT\<close> clears it, insertion
  sets it, and \<open>QUEUE_REMOVE\<close> alone leaves it. A work item is a number. Work and done callbacks
  are recorded in the order of their calls; the requests a callback makes are later steps.
  Waking a waiting thread is a choice \<open>ch\<close> of the system.
\<close>

datatype uv__work_kind = UV__WORK_CPU | UV__WORK_FAST_IO | UV__WORK_SLOW_IO

datatype uv_req_type = UV_REQ | UV_CONNECT | UV_WRITE | UV_SHUTDOWN | UV_UDP_SEND | UV_FS | UV_WORK
  | UV_GETADDRINFO | UV_GETNAMEINFO | UV_RANDOM

text \<open>The elements of the queue \<open>wq\<close>: items, \<open>run_slow_work_message\<close> and \<open>exit_message\<close>.\<close>

datatype qelem = Item nat | Run_slow | Exit_msg

text \<open>The function pointer of an item: a null pointer, \<open>uv__cancelled\<close>, or another function.\<close>

datatype work_fn = Fn_null | Fn_cancelled | Fn_work

text \<open>
  Where a worker is: at the top of its loop with the mutex to take; in \<open>uv_cond_wait\<close>, signalled
  or not; about to call the item's function; after the call; back with the mutex to take; left.
\<close>

datatype thread = Top | Waiting | Woken | Running nat bool | Called nat bool | Back bool | Exited

definition UV_EBUSY :: int where "UV_EBUSY = -16"
definition UV_ECANCELED :: int where "UV_ECANCELED = -125"

record pool =
  idle_threads :: int
  slow_io_work_running :: int
  threads :: "thread list"
  wq :: "qelem list"
  slow_io_pending_wq :: "qelem list"
  linked :: "qelem \<Rightarrow> bool"
  w_work :: "nat \<Rightarrow> work_fn"
  w_loop :: "nat \<Rightarrow> nat"
  w_after :: "nat \<Rightarrow> bool option"
  loop_wq :: "nat \<Rightarrow> nat list"
  loop_moved :: "nat \<Rightarrow> nat list"
  loop_cancelling :: "nat \<Rightarrow> nat option"
  loop_async :: "nat \<Rightarrow> bool"
  active_reqs :: "nat \<Rightarrow> int"
  log_submit :: "nat list"
  log_work :: "nat list"
  log_done :: "(nat \<times> int) list"
  log_after :: "(nat \<times> int) list"

subsection \<open>Starting\<close>

definition nthreads_of :: "int option \<Rightarrow> bool \<Rightarrow> nat" where
  "nthreads_of val mem =
     (let n = (case val of None \<Rightarrow> 4 | Some v \<Rightarrow> nat (v mod 2 ^ 32));
          n = (if n = 0 then 1 else n);
          n = (if n > 1024 then 1024 else n)
      in if n > 4 \<and> \<not> mem then 4 else n)"

definition init_threads :: "int option \<Rightarrow> bool \<Rightarrow> pool" where
  "init_threads val mem =
     \<lparr>idle_threads = 0, slow_io_work_running = 0, threads = replicate (nthreads_of val mem) Top, wq = [],
      slow_io_pending_wq = [], linked = (\<lambda>_. False), w_work = (\<lambda>_. Fn_null), w_loop = (\<lambda>_. 0), w_after = (\<lambda>_. None),
      loop_wq = (\<lambda>_. []), loop_moved = (\<lambda>_. []), loop_cancelling = (\<lambda>_. None), loop_async = (\<lambda>_. False),
      active_reqs = (\<lambda>_. 0), log_submit = [], log_work = [], log_done = [], log_after = []\<rparr>"

definition nthreads :: "pool \<Rightarrow> nat" where "nthreads s = length (threads s)"

definition slow_work_thread_threshold :: "pool \<Rightarrow> int" where
  "slow_work_thread_threshold s = (int (nthreads s) + 1) div 2"

subsection \<open>Signals and queues\<close>

definition set_thread :: "nat \<Rightarrow> thread \<Rightarrow> pool \<Rightarrow> pool" where
  "set_thread t x s = s\<lparr>threads := (threads s)[t := x]\<rparr>"

definition waiting :: "pool \<Rightarrow> nat list" where
  "waiting s = filter (\<lambda>t. threads s ! t = Waiting) [0..<nthreads s]"

definition uv_cond_signal :: "nat \<Rightarrow> pool \<Rightarrow> pool" where
  "uv_cond_signal ch s = (if waiting s = [] then s else set_thread (waiting s ! (ch mod length (waiting s))) Woken s)"

definition insert_wq :: "qelem \<Rightarrow> pool \<Rightarrow> pool" where
  "insert_wq q s = s\<lparr>wq := wq s @ [q], linked := (linked s)(q := True)\<rparr>"

definition signal_if_idle :: "nat \<Rightarrow> pool \<Rightarrow> pool" where
  "signal_if_idle ch s = (if idle_threads s > 0 then uv_cond_signal ch s else s)"

subsection \<open>The worker\<close>

definition nothing_to_run :: "pool \<Rightarrow> bool" where
  "nothing_to_run s \<longleftrightarrow> wq s = [] \<or> wq s = [Run_slow] \<and> slow_io_work_running s \<ge> slow_work_thread_threshold s"

fun start_item :: "nat \<Rightarrow> qelem \<Rightarrow> bool \<Rightarrow> pool \<Rightarrow> pool option" where
  "start_item t (Item w) slow s = Some (set_thread t (Running w slow) s)"
| "start_item t _ slow s = None"

definition take_slow :: "nat \<Rightarrow> nat \<Rightarrow> qelem \<Rightarrow> qelem list \<Rightarrow> pool \<Rightarrow> pool option" where
  "take_slow ch t q rest s =
     (let s = s\<lparr>slow_io_work_running := slow_io_work_running s + 1, slow_io_pending_wq := rest, linked := (linked s)(q := False)\<rparr>;
          s = (if rest \<noteq> [] then signal_if_idle ch (insert_wq Run_slow s) else s)
      in start_item t q True s)"

partial_function (option) worker_loop :: "nat \<Rightarrow> nat \<Rightarrow> pool \<Rightarrow> pool option" where
  "worker_loop ch t s =
     (if nothing_to_run s then Some (set_thread t Waiting (s\<lparr>idle_threads := idle_threads s + 1\<rparr>))
      else case wq s of
        [] \<Rightarrow> None
      | q # rest \<Rightarrow>
          if q = Exit_msg then Some (set_thread t Exited (uv_cond_signal ch s))
          else let s = s\<lparr>wq := rest, linked := (linked s)(q := False)\<rparr> in
            if q \<noteq> Run_slow then start_item t q False s
            else if slow_io_work_running s \<ge> slow_work_thread_threshold s then worker_loop ch t (insert_wq q s)
            else case slow_io_pending_wq s of
              [] \<Rightarrow> worker_loop ch t s
            | q # rest \<Rightarrow> take_slow ch t q rest s)"

definition call_work :: "nat \<Rightarrow> nat \<Rightarrow> bool \<Rightarrow> pool \<Rightarrow> pool option" where
  "call_work t w slow s =
     (if w_work s w = Fn_work then Some (set_thread t (Called w slow) (s\<lparr>log_work := log_work s @ [w]\<rparr>)) else None)"

definition post_done :: "nat \<Rightarrow> nat \<Rightarrow> bool \<Rightarrow> pool \<Rightarrow> pool" where
  "post_done t w slow s =
     (let l = w_loop s w in
      set_thread t (Back slow)
        (s\<lparr>w_work := (w_work s)(w := Fn_null), loop_wq := (loop_wq s)(l := loop_wq s l @ [w]),
           linked := (linked s)(Item w := True), loop_async := (loop_async s)(l := True)\<rparr>))"

definition enabled :: "nat \<Rightarrow> pool \<Rightarrow> bool" where
  "enabled t s \<longleftrightarrow> t < nthreads s \<and> threads s ! t \<noteq> Waiting \<and> threads s ! t \<noteq> Exited"

definition worker :: "nat \<Rightarrow> nat \<Rightarrow> pool \<Rightarrow> pool option" where
  "worker ch t s =
     (case threads s ! t of
        Top \<Rightarrow> worker_loop ch t s
      | Woken \<Rightarrow> worker_loop ch t (set_thread t Top (s\<lparr>idle_threads := idle_threads s - 1\<rparr>))
      | Running w slow \<Rightarrow> call_work t w slow s
      | Called w slow \<Rightarrow> Some (post_done t w slow s)
      | Back slow \<Rightarrow>
          worker_loop ch t (set_thread t Top (if slow then s\<lparr>slow_io_work_running := slow_io_work_running s - 1\<rparr> else s))
      | _ \<Rightarrow> None)"

subsection \<open>Submitting, cancelling, finishing\<close>

definition post :: "nat \<Rightarrow> qelem \<Rightarrow> uv__work_kind \<Rightarrow> pool \<Rightarrow> pool" where
  "post ch q kind s =
     (if kind = UV__WORK_SLOW_IO then
        let s = s\<lparr>slow_io_pending_wq := slow_io_pending_wq s @ [q], linked := (linked s)(q := True)\<rparr> in
        if linked s Run_slow then s else signal_if_idle ch (insert_wq Run_slow s)
      else signal_if_idle ch (insert_wq q s))"

definition uv__work_submit :: "nat \<Rightarrow> nat \<Rightarrow> nat \<Rightarrow> uv__work_kind \<Rightarrow> pool \<Rightarrow> pool" where
  "uv__work_submit ch l w kind s =
     post ch (Item w) kind (s\<lparr>w_loop := (w_loop s)(w := l), w_work := (w_work s)(w := Fn_work), log_submit := log_submit s @ [w]\<rparr>)"

definition uv_queue_work :: "nat \<Rightarrow> nat \<Rightarrow> nat \<Rightarrow> bool \<Rightarrow> bool \<Rightarrow> pool \<Rightarrow> int \<times> pool" where
  "uv_queue_work ch l w work_cb after_work_cb s =
     (if \<not> work_cb then (UV_EINVAL, s)
      else let s = s\<lparr>active_reqs := (active_reqs s)(l := active_reqs s l + 1), w_after := (w_after s)(w := Some after_work_cb)\<rparr>
        in (0, uv__work_submit ch l w UV__WORK_CPU s))"

definition QUEUE_REMOVE :: "nat \<Rightarrow> pool \<Rightarrow> pool" where
  "QUEUE_REMOVE w s =
     s\<lparr>wq := remove1 (Item w) (wq s), slow_io_pending_wq := remove1 (Item w) (slow_io_pending_wq s),
       loop_wq := (\<lambda>l. remove1 w (loop_wq s l)), loop_moved := (\<lambda>l. remove1 w (loop_moved s l))\<rparr>"

text \<open>The two halves of \<open>uv__work_cancel\<close>, under the two mutexes and under that of the loop.\<close>

definition cancel_begin :: "nat \<Rightarrow> pool \<Rightarrow> int \<times> pool" where
  "cancel_begin w s =
     (let cancelled = linked s (Item w) \<and> w_work s w \<noteq> Fn_null in
      if \<not> cancelled then (UV_EBUSY, s)
      else (0, (QUEUE_REMOVE w s)\<lparr>loop_cancelling := (loop_cancelling s)(w_loop s w := Some w)\<rparr>))"

definition cancel_end :: "nat \<Rightarrow> nat \<Rightarrow> pool \<Rightarrow> pool" where
  "cancel_end l w s =
     s\<lparr>w_work := (w_work s)(w := Fn_cancelled), loop_wq := (loop_wq s)(l := loop_wq s l @ [w]),
       linked := (linked s)(Item w := True), loop_async := (loop_async s)(l := True),
       loop_cancelling := (loop_cancelling s)(l := None)\<rparr>"

definition uv_cancel :: "uv_req_type \<Rightarrow> nat \<Rightarrow> pool \<Rightarrow> int \<times> pool" where
  "uv_cancel ty w s =
     (if ty \<in> {UV_FS, UV_GETADDRINFO, UV_GETNAMEINFO, UV_RANDOM, UV_WORK} then cancel_begin w s else (UV_EINVAL, s))"

definition uv__queue_done :: "nat \<Rightarrow> int \<Rightarrow> bool \<Rightarrow> pool \<Rightarrow> pool option" where
  "uv__queue_done w err after s =
     (let l = w_loop s w in
      if \<not> active_reqs s l > 0 then None
      else let s = s\<lparr>active_reqs := (active_reqs s)(l := active_reqs s l - 1)\<rparr>
        in if \<not> after then Some s else Some (s\<lparr>log_after := log_after s @ [(w, err)]\<rparr>))"

definition work_done_begin :: "nat \<Rightarrow> pool \<Rightarrow> pool" where
  "work_done_begin l s =
     s\<lparr>loop_moved := (loop_moved s)(l := loop_wq s l), loop_wq := (loop_wq s)(l := []), loop_async := (loop_async s)(l := False)\<rparr>"

definition work_done_next :: "nat \<Rightarrow> pool \<Rightarrow> pool option" where
  "work_done_next l s =
     (case loop_moved s l of
        [] \<Rightarrow> Some s
      | w # rest \<Rightarrow>
          let err = (if w_work s w = Fn_cancelled then UV_ECANCELED else 0);
              s = s\<lparr>loop_moved := (loop_moved s)(l := rest), log_done := log_done s @ [(w, err)]\<rparr>
          in case w_after s w of None \<Rightarrow> Some s | Some after \<Rightarrow> uv__queue_done w err after s)"

text \<open>\<open>uv__threadpool_cleanup\<close> posts the exit message and then joins the workers.\<close>

definition uv__threadpool_cleanup :: "nat \<Rightarrow> pool \<Rightarrow> pool" where
  "uv__threadpool_cleanup ch s = (if nthreads s = 0 then s else post ch Exit_msg UV__WORK_CPU s)"

definition cleanup_join :: "pool \<Rightarrow> pool" where
  "cleanup_join s = s\<lparr>threads := []\<rparr>"

subsection \<open>Where an item is\<close>

fun holds_item :: "nat \<Rightarrow> thread \<Rightarrow> bool" where
  "holds_item w (Running v b) \<longleftrightarrow> v = w"
| "holds_item w (Called v b) \<longleftrightarrow> v = w"
| "holds_item w _ \<longleftrightarrow> False"

fun has_called :: "nat \<Rightarrow> thread \<Rightarrow> bool" where
  "has_called w (Called v b) \<longleftrightarrow> v = w"
| "has_called w _ \<longleftrightarrow> False"

fun is_slow :: "thread \<Rightarrow> bool" where
  "is_slow (Running v b) \<longleftrightarrow> b"
| "is_slow (Called v b) \<longleftrightarrow> b"
| "is_slow (Back b) \<longleftrightarrow> b"
| "is_slow _ \<longleftrightarrow> False"

definition is_idle :: "thread \<Rightarrow> bool" where
  "is_idle x \<longleftrightarrow> x = Waiting \<or> x = Woken"

definition count_threads :: "(thread \<Rightarrow> bool) \<Rightarrow> pool \<Rightarrow> nat" where
  "count_threads P s = length (filter P (threads s))"

definition queued :: "nat \<Rightarrow> pool \<Rightarrow> nat" where
  "queued w s = count_list (wq s) (Item w) + count_list (slow_io_pending_wq s) (Item w)"

definition posted :: "nat \<Rightarrow> pool \<Rightarrow> nat" where
  "posted w s = count_list (loop_wq s (w_loop s w)) w + count_list (loop_moved s (w_loop s w)) w"

definition cancelling :: "nat \<Rightarrow> pool \<Rightarrow> nat" where
  "cancelling w s = of_bool (loop_cancelling s (w_loop s w) = Some w)"

definition places :: "nat \<Rightarrow> pool \<Rightarrow> nat" where
  "places w s = queued w s + count_threads (holds_item w) s + posted w s + cancelling w s"

subsection \<open>The steps of the system\<close>

inductive pool_step :: "pool \<Rightarrow> pool \<Rightarrow> bool" where
  step_worker: "enabled t s \<Longrightarrow> worker ch t s = Some s' \<Longrightarrow> pool_step s s'"
| step_spurious: "t < nthreads s \<Longrightarrow> threads s ! t = Waiting \<Longrightarrow> pool_step s (set_thread t Woken s)"
| step_submit: "places w s = 0 \<Longrightarrow> loop_cancelling s l = None
    \<Longrightarrow> pool_step s (uv__work_submit ch l w kind (s\<lparr>w_after := (w_after s)(w := None)\<rparr>))"
| step_queue_work: "places w s = 0 \<Longrightarrow> loop_cancelling s l = None
    \<Longrightarrow> uv_queue_work ch l w cb after s = (rc, s') \<Longrightarrow> pool_step s s'"
| step_cancel_begin: "places w s \<noteq> 0 \<Longrightarrow> loop_cancelling s (w_loop s w) = None
    \<Longrightarrow> uv_cancel ty w s = (rc, s') \<Longrightarrow> pool_step s s'"
| step_cancel_end: "loop_cancelling s l = Some w \<Longrightarrow> pool_step s (cancel_end l w s)"
| step_done_begin: "loop_async s l \<Longrightarrow> loop_moved s l = [] \<Longrightarrow> loop_cancelling s l = None \<Longrightarrow> pool_step s (work_done_begin l s)"
| step_done_next: "loop_moved s l \<noteq> [] \<Longrightarrow> loop_cancelling s l = None \<Longrightarrow> work_done_next l s = Some s' \<Longrightarrow> pool_step s s'"
| step_cleanup: "Exit_msg \<notin> set (wq s) \<Longrightarrow> pool_step s (uv__threadpool_cleanup ch s)"
| step_join: "Exit_msg \<in> set (wq s) \<Longrightarrow> \<forall>x\<in>set (threads s). x = Exited \<Longrightarrow> pool_step s (cleanup_join s)"

inductive pool_reachable :: "pool \<Rightarrow> bool" where
  reach_init: "pool_reachable (init_threads val mem)"
| reach_step: "pool_reachable s \<Longrightarrow> pool_step s s' \<Longrightarrow> pool_reachable s'"

text \<open>Runs of the workers alone, with their length.\<close>

inductive worker_run :: "nat \<Rightarrow> pool \<Rightarrow> pool \<Rightarrow> bool" where
  run_nil: "worker_run 0 s s"
| run_step: "worker_run n s s' \<Longrightarrow> enabled t s' \<Longrightarrow> worker ch t s' = Some s'' \<Longrightarrow> worker_run (Suc n) s s''"

subsection \<open>Counting\<close>

lemma count_list_remove1: "count_list (remove1 x xs) y = count_list xs y - of_bool (x = y)"
  by (induction xs) (auto simp: count_list_0_iff)

lemma filter_update:
  assumes "t < length xs"
  shows "length (filter P (xs[t := x])) + of_bool (P (xs ! t)) = length (filter P xs) + of_bool (P x)"
  using assms
proof (induction xs arbitrary: t)
  case (Cons y xs)
  then show ?case by (cases t) auto
qed simp

lemma count_set_thread [simp]:
  assumes "t < nthreads s"
  shows "\<not> P (threads s ! t) \<Longrightarrow> count_threads P (set_thread t x s) = count_threads P s + of_bool (P x)"
    "P (threads s ! t) \<Longrightarrow> P x \<Longrightarrow> count_threads P (set_thread t x s) = count_threads P s"
    "P (threads s ! t) \<Longrightarrow> \<not> P x \<Longrightarrow> Suc (count_threads P (set_thread t x s)) = count_threads P s"
  using assms filter_update [of t "threads s" P x] by (simp_all add: count_threads_def set_thread_def nthreads_def)

text \<open>What a signal does to the threads.\<close>

definition awake :: "pool \<Rightarrow> bool" where
  "awake s \<longleftrightarrow> (\<exists>x\<in>set (threads s). x \<noteq> Waiting \<and> x \<noteq> Exited)"

fun tweight :: "thread \<Rightarrow> nat" where
  "tweight (Running w b) = 4"
| "tweight (Called w b) = 3"
| "tweight Waiting = 1"
| "tweight Exited = 0"
| "tweight _ = 2"

definition signalled :: "pool \<Rightarrow> thread list \<Rightarrow> bool" where
  "signalled s ts \<longleftrightarrow> length ts = length (threads s) \<and> (\<forall>t<length ts. threads s ! t \<noteq> Waiting \<longrightarrow> ts ! t = threads s ! t)
     \<and> (\<forall>P. P Waiting = P Woken \<longrightarrow> length (filter P ts) = length (filter P (threads s)))
     \<and> sum_list (map tweight ts) \<le> sum_list (map tweight (threads s)) + 1"

lemma signalled_refl: "signalled s (threads s)"
  by (simp add: signalled_def)

lemma sum_update:
  fixes f :: "'a \<Rightarrow> nat"
  assumes "t < length xs"
  shows "sum_list (map f (xs[t := x])) + f (xs ! t) = sum_list (map f xs) + f x"
  using assms
proof (induction xs arbitrary: t)
  case (Cons y xs)
  then show ?case by (cases t) (auto simp: algebra_simps)
qed simp

lemma waiting_empty: "waiting s = [] \<longleftrightarrow> Waiting \<notin> set (threads s)"
  by (auto simp: waiting_def nthreads_def filter_empty_conv in_set_conv_nth)

lemma signal_ex:
  "\<exists>ts. uv_cond_signal ch s = s\<lparr>threads := ts\<rparr> \<and> signalled s ts \<and> (Waiting \<in> set (threads s) \<longrightarrow> Woken \<in> set ts)"
proof (cases "waiting s = []")
  case True
  then have "Waiting \<notin> set (threads s)" by (simp add: waiting_empty)
  then show ?thesis using True signalled_refl by (intro exI [of _ "threads s"]) (simp add: uv_cond_signal_def)
next
  case False
  define t where "t = waiting s ! (ch mod length (waiting s))"
  have "t \<in> set (waiting s)" using False by (simp add: t_def)
  then have t: "t < length (threads s)" "threads s ! t = Waiting" by (auto simp: waiting_def nthreads_def)
  have "length (filter P ((threads s)[t := Woken])) = length (filter P (threads s))" if "P Waiting = P Woken" for P
    using filter_update [OF t(1), of P Woken] t(2) that by simp
  then have "signalled s ((threads s)[t := Woken])"
    using t sum_update [OF t(1), of tweight Woken] by (auto simp: signalled_def nth_list_update)
  moreover have "Woken \<in> set ((threads s)[t := Woken])" using t(1) by (rule set_update_memI)
  ultimately show ?thesis using False by (auto simp: uv_cond_signal_def set_thread_def t_def)
qed

subsection \<open>The invariant\<close>

definition threads_ok :: "pool \<Rightarrow> bool" where
  "threads_ok s \<longleftrightarrow> nthreads s \<le> 1024 \<and> (nthreads s = 0 \<or> Exited \<in> set (threads s) \<longrightarrow> Exit_msg \<in> set (wq s))
     \<and> idle_threads s = int (count_threads is_idle s) \<and> slow_io_work_running s = int (count_threads is_slow s)
     \<and> slow_io_work_running s \<le> slow_work_thread_threshold s"

definition slow_ok :: "pool \<Rightarrow> bool" where
  "slow_ok s \<longleftrightarrow> count_list (wq s) Run_slow = of_bool (linked s Run_slow)
     \<and> (slow_io_pending_wq s \<noteq> [] \<longrightarrow> linked s Run_slow) \<and> set (slow_io_pending_wq s) \<subseteq> range Item"

definition wake_ok :: "pool \<Rightarrow> bool" where
  "wake_ok s \<longleftrightarrow> nothing_to_run s \<or> Waiting \<notin> set (threads s) \<or> awake s"

definition item_inv :: "nat \<Rightarrow> nat \<Rightarrow> nat \<Rightarrow> nat \<Rightarrow> nat \<Rightarrow> work_fn \<Rightarrow> bool \<Rightarrow> nat \<Rightarrow> nat \<Rightarrow> nat \<Rightarrow> nat \<Rightarrow> bool" where
  "item_inv q h c p k f l subm run don don0 \<longleftrightarrow>
     q + h + p + k \<le> 1 \<and> subm = q + h + p + k + don \<and> c \<le> h \<and> run = don0 + c + (if f = Fn_null then p else 0)
     \<and> (q > 0 \<longrightarrow> f = Fn_work \<and> l) \<and> (h > 0 \<longrightarrow> f = Fn_work \<and> \<not> l) \<and> (k > 0 \<longrightarrow> f \<noteq> Fn_null \<and> l)
     \<and> (p > 0 \<longrightarrow> f \<noteq> Fn_work \<and> l)"

definition dones :: "nat \<Rightarrow> pool \<Rightarrow> nat" where
  "dones w s = count_list (map fst (log_done s)) w"

definition item_ok :: "pool \<Rightarrow> nat \<Rightarrow> bool" where
  "item_ok s w \<longleftrightarrow>
     item_inv (queued w s) (count_threads (holds_item w) s) (count_threads (has_called w) s) (posted w s) (cancelling w s)
       (w_work s w) (linked s (Item w)) (count_list (log_submit s) w) (count_list (log_work s) w) (dones w s)
       (count_list (log_done s) (w, 0))"

definition loops_ok :: "pool \<Rightarrow> bool" where
  "loops_ok s \<longleftrightarrow>
     (\<forall>l w. w \<in> set (loop_wq s l) \<or> w \<in> set (loop_moved s l) \<or> loop_cancelling s l = Some w \<longrightarrow> w_loop s w = l)
     \<and> (\<forall>l. loop_wq s l \<noteq> [] \<longrightarrow> loop_async s l)"

definition reqs_of :: "nat \<Rightarrow> pool \<Rightarrow> nat set" where
  "reqs_of l s = {w. places w s > 0 \<and> w_loop s w = l \<and> w_after s w \<noteq> None}"

definition reqs_ok :: "pool \<Rightarrow> bool" where
  "reqs_ok s \<longleftrightarrow> (\<forall>l. finite (reqs_of l s) \<and> active_reqs s l = int (card (reqs_of l s)))"

definition pool_ok :: "pool \<Rightarrow> bool" where
  "pool_ok s \<longleftrightarrow> threads_ok s \<and> slow_ok s \<and> wake_ok s \<and> (\<forall>w. item_ok s w) \<and> loops_ok s \<and> reqs_ok s"

text \<open>The work left for the workers.\<close>

definition work_left :: "pool \<Rightarrow> nat" where
  "work_left s = sum_list (map tweight (threads s)) + 4 * (length (filter (\<lambda>q. q \<in> range Item) (wq s)) + length (slow_io_pending_wq s))"

lemma reqs_same:
  assumes "\<And>w. places w s' = places w s" "w_loop s' = w_loop s" "w_after s' = w_after s" "active_reqs s' = active_reqs s"
  shows "reqs_ok s' = reqs_ok s"
  using assms by (simp add: reqs_ok_def reqs_of_def)

lemma awake_set: "t < nthreads s \<Longrightarrow> x \<noteq> Waiting \<Longrightarrow> x \<noteq> Exited \<Longrightarrow> awake (set_thread t x s)"
  using set_update_memI [of t "threads s" x] by (auto simp: awake_def set_thread_def nthreads_def)

lemma awake_ok: "awake s \<Longrightarrow> wake_ok s"
  by (simp add: wake_ok_def)

lemma nth_awake: "t < nthreads s \<Longrightarrow> threads s ! t \<noteq> Waiting \<Longrightarrow> threads s ! t \<noteq> Exited \<Longrightarrow> awake s"
  by (auto simp: awake_def nthreads_def)

subsection \<open>The effect of an update on each count\<close>

lemmas counts = queued_def posted_def cancelling_def dones_def count_threads_def places_def

text \<open>The step that keeps everything but the place of the messages for slow work.\<close>

lemma message_moved:
  assumes "pool_ok s" "awake s" "wq s = Run_slow # rest"
  shows "pool_ok (insert_wq Run_slow (s\<lparr>wq := rest, linked := (linked s)(Run_slow := False)\<rparr>))"
    "slow_io_pending_wq s = [] \<Longrightarrow> pool_ok (s\<lparr>wq := rest, linked := (linked s)(Run_slow := False)\<rparr>)"
proof -
  let ?s1 = "s\<lparr>wq := rest, linked := (linked s)(Run_slow := False)\<rparr>" and ?s2 = "insert_wq Run_slow (s\<lparr>wq := rest, linked := (linked s)(Run_slow := False)\<rparr>)"
  note ok = assms(1) [unfolded pool_ok_def]
  have "threads_ok ?s1" "threads_ok ?s2"
    using ok assms(3) by (auto simp: threads_ok_def counts nthreads_def slow_work_thread_threshold_def insert_wq_def)
  moreover have "slow_ok ?s2" "slow_io_pending_wq s = [] \<Longrightarrow> slow_ok ?s1"
    using ok assms(3) by (cases "linked s Run_slow"; simp add: slow_ok_def insert_wq_def)+
  moreover have "wake_ok ?s1" "wake_ok ?s2" using assms(2) by (simp_all add: wake_ok_def awake_def insert_wq_def)
  moreover have "item_ok ?s1 w = item_ok s w" "item_ok ?s2 w = item_ok s w" for w
    using assms(3) by (simp_all add: item_ok_def counts insert_wq_def)
  moreover have "loops_ok ?s1 = loops_ok s" "loops_ok ?s2 = loops_ok s" by (simp_all add: loops_ok_def insert_wq_def)
  moreover have "reqs_ok ?s1 = reqs_ok s" "reqs_ok ?s2 = reqs_ok s"
    by (rule reqs_same; use assms(3) in \<open>simp add: counts insert_wq_def\<close>)+
  ultimately show "pool_ok ?s2" "slow_io_pending_wq s = [] \<Longrightarrow> pool_ok ?s1" using ok by (simp_all add: pool_ok_def)
qed

text \<open>A signal changes nothing but which threads wait, and leaves none waiting for work in vain.\<close>

lemma nth_sig: "signalled s ts \<Longrightarrow> t < nthreads s \<Longrightarrow> threads s ! t \<noteq> Waiting \<Longrightarrow> ts ! t = threads s ! t"
  by (simp add: signalled_def nthreads_def)

lemma sig_count: "signalled s ts \<Longrightarrow> P Waiting = P Woken \<Longrightarrow> count_threads P (s\<lparr>threads := ts\<rparr>) = count_threads P s"
  by (simp add: signalled_def count_threads_def)

lemma sig_counts [simp]:
  assumes "signalled s ts"
  shows "count_threads (holds_item w) (s\<lparr>threads := ts\<rparr>) = count_threads (holds_item w) s"
    "count_threads (has_called w) (s\<lparr>threads := ts\<rparr>) = count_threads (has_called w) s"
    "count_threads is_slow (s\<lparr>threads := ts\<rparr>) = count_threads is_slow s"
    "count_threads is_idle (s\<lparr>threads := ts\<rparr>) = count_threads is_idle s"
    "count_threads ((=) Exited) (s\<lparr>threads := ts\<rparr>) = count_threads ((=) Exited) s"
    "nthreads (s\<lparr>threads := ts\<rparr>) = nthreads s"
  using assms by (simp_all add: sig_count is_idle_def) (simp add: signalled_def nthreads_def)

lemma exited_count: "Exited \<in> set (threads s) \<longleftrightarrow> count_threads ((=) Exited) s > 0"
  by (auto simp: count_threads_def filter_empty_conv)

lemma sig_ok:
  assumes "signalled s ts"
  shows "threads_ok (s\<lparr>threads := ts\<rparr>) = threads_ok s" "slow_ok (s\<lparr>threads := ts\<rparr>) = slow_ok s"
    "item_ok (s\<lparr>threads := ts\<rparr>) w = item_ok s w" "loops_ok (s\<lparr>threads := ts\<rparr>) = loops_ok s"
    "places w (s\<lparr>threads := ts\<rparr>) = places w s" "reqs_ok (s\<lparr>threads := ts\<rparr>) = reqs_ok s"
proof -
  show p: "places w (s\<lparr>threads := ts\<rparr>) = places w s" for w
    using assms by (simp add: places_def) (simp add: counts)
  show "threads_ok (s\<lparr>threads := ts\<rparr>) = threads_ok s"
    using assms by (simp add: threads_ok_def slow_work_thread_threshold_def exited_count [of "s\<lparr>threads := ts\<rparr>", simplified] exited_count [of s])
  show "slow_ok (s\<lparr>threads := ts\<rparr>) = slow_ok s" "loops_ok (s\<lparr>threads := ts\<rparr>) = loops_ok s" by (simp_all add: slow_ok_def loops_ok_def)
  show "item_ok (s\<lparr>threads := ts\<rparr>) w = item_ok s w"
    using assms by (simp add: item_ok_def) (simp add: queued_def posted_def cancelling_def dones_def)
  show "reqs_ok (s\<lparr>threads := ts\<rparr>) = reqs_ok s" by (rule reqs_same) (simp_all add: p)
qed

text \<open>All of the invariant but the wake-up.\<close>

definition pool_ok0 :: "pool \<Rightarrow> bool" where
  "pool_ok0 s \<longleftrightarrow> threads_ok s \<and> slow_ok s \<and> (\<forall>w. item_ok s w) \<and> loops_ok s \<and> reqs_ok s"

lemma pool_ok_alt: "pool_ok s \<longleftrightarrow> pool_ok0 s \<and> wake_ok s"
  by (auto simp: pool_ok_def pool_ok0_def)

lemma signal_ok0: "pool_ok0 s \<Longrightarrow> pool_ok0 (uv_cond_signal ch s)"
  using signal_ex [of ch s] by (auto simp: pool_ok0_def sig_ok)

lemma signal_awake: "Waiting \<in> set (threads s) \<Longrightarrow> awake (uv_cond_signal ch s)"
  using signal_ex [of ch s] by (auto simp: awake_def)

lemma signal_if_idle_ok:
  assumes "pool_ok0 s"
  shows "pool_ok (signal_if_idle ch s)"
proof (cases "Waiting \<in> set (threads s)")
  case True
  then have "count_threads is_idle s > 0" by (auto simp: count_threads_def is_idle_def filter_empty_conv)
  then have "idle_threads s > 0" using assms by (simp add: pool_ok0_def threads_ok_def)
  then show ?thesis using assms signal_awake [OF True] signal_ok0 by (simp add: signal_if_idle_def pool_ok_alt awake_ok)
next
  case False
  then have "waiting s = []" by (simp add: waiting_empty)
  then have "signal_if_idle ch s = s" by (simp add: signal_if_idle_def uv_cond_signal_def)
  then show ?thesis using assms False by (simp add: pool_ok_alt wake_ok_def)
qed

lemma signal_if_idle_ex:
  "\<exists>ts. signal_if_idle ch s = s\<lparr>threads := ts\<rparr> \<and> signalled s ts"
  using signal_ex [of ch s] signalled_refl [of s] by (cases "idle_threads s > 0") (auto simp: signal_if_idle_def intro: exI [of _ "threads s"])

lemma sig_set_thread:
  assumes "signalled s ts" "t < nthreads s" "threads s ! t \<noteq> Waiting"
  shows "set_thread t x (s\<lparr>threads := ts\<rparr>) = (set_thread t x s)\<lparr>threads := ts[t := x]\<rparr>" "signalled (set_thread t x s) (ts[t := x])"
proof -
  have l: "length ts = length (threads s)" and t: "ts ! t = threads s ! t" "t < length ts" "t < length (threads s)"
    using assms by (simp_all add: signalled_def nthreads_def)
  show "set_thread t x (s\<lparr>threads := ts\<rparr>) = (set_thread t x s)\<lparr>threads := ts[t := x]\<rparr>" by (simp add: set_thread_def)
  have "length (filter P (ts[t := x])) = length (filter P ((threads s)[t := x]))" if "P Waiting = P Woken" for P
    using filter_update [OF t(2), of P x] filter_update [OF t(3), of P x] assms(1) that t(1) by (simp add: signalled_def)
  moreover have "sum_list (map tweight (ts[t := x])) \<le> sum_list (map tweight ((threads s)[t := x])) + 1"
    using sum_update [OF t(2), of tweight x] sum_update [OF t(3), of tweight x] assms(1) t(1) by (simp add: signalled_def)
  moreover have "ts[t := x] ! i = (threads s)[t := x] ! i" if "i < length ts" "(threads s)[t := x] ! i \<noteq> Waiting" for i
    using that assms(1) l by (cases "i = t") (simp_all add: signalled_def)
  ultimately show "signalled (set_thread t x s) (ts[t := x])"
    using l by (simp add: signalled_def set_thread_def)
qed

subsection \<open>A worker takes an item\<close>

definition at_top :: "nat \<Rightarrow> pool \<Rightarrow> bool" where
  "at_top t s \<longleftrightarrow> t < nthreads s \<and> threads s ! t = Top"

lemma set_thread_simps [simp]:
  "wq (set_thread t x s) = wq s" "slow_io_pending_wq (set_thread t x s) = slow_io_pending_wq s" "linked (set_thread t x s) = linked s"
  "idle_threads (set_thread t x s) = idle_threads s" "slow_io_work_running (set_thread t x s) = slow_io_work_running s"
  "w_work (set_thread t x s) = w_work s" "w_loop (set_thread t x s) = w_loop s" "w_after (set_thread t x s) = w_after s"
  "loop_wq (set_thread t x s) = loop_wq s" "loop_moved (set_thread t x s) = loop_moved s"
  "loop_cancelling (set_thread t x s) = loop_cancelling s" "loop_async (set_thread t x s) = loop_async s"
  "active_reqs (set_thread t x s) = active_reqs s" "log_submit (set_thread t x s) = log_submit s"
  "log_work (set_thread t x s) = log_work s" "log_done (set_thread t x s) = log_done s"
  "nthreads (set_thread t x s) = nthreads s" "queued w (set_thread t x s) = queued w s" "posted w (set_thread t x s) = posted w s"
  "cancelling w (set_thread t x s) = cancelling w s" "dones w (set_thread t x s) = dones w s"
  by (simp_all add: set_thread_def nthreads_def queued_def posted_def cancelling_def dones_def)

text \<open>The state in which thread \<open>t\<close> has taken item \<open>w\<close> out of the queues, before any signal.\<close>

definition taken :: "nat \<Rightarrow> nat \<Rightarrow> bool \<Rightarrow> qelem list \<Rightarrow> qelem list \<Rightarrow> (qelem \<Rightarrow> bool) \<Rightarrow> pool \<Rightarrow> pool" where
  "taken t w slow q p lk s =
     set_thread t (Running w slow) (s\<lparr>wq := q, slow_io_pending_wq := p, linked := lk,
       slow_io_work_running := slow_io_work_running s + of_bool slow\<rparr>)"

lemma taken_ok:
  assumes ok: "pool_ok0 s" and t: "at_top t s"
    and slow: "slow \<Longrightarrow> slow_io_work_running s < slow_work_thread_threshold s"
    and lk: "\<And>v. lk (Item v) = (if v = w then False else linked s (Item v))"
    and q: "\<And>v. count_list q (Item v) + count_list p (Item v) + of_bool (v = w) = queued v s"
    and m: "count_list q Run_slow = of_bool (lk Run_slow)" "p \<noteq> [] \<Longrightarrow> lk Run_slow" "set p \<subseteq> range Item"
    and e: "Exit_msg \<in> set q \<longleftrightarrow> Exit_msg \<in> set (wq s)"
  shows "pool_ok (taken t w slow q p lk s)"
proof -
  define s0 where "s0 = s\<lparr>wq := q, slow_io_pending_wq := p, linked := lk, slow_io_work_running := slow_io_work_running s + of_bool slow\<rparr>"
  define s' where "s' = set_thread t (Running w slow) s0"
  have t': "t < nthreads s0" "threads s0 ! t = Top" using t by (simp_all add: at_top_def nthreads_def s0_def)
  have c: "count_threads P s0 = count_threads P s" for P by (simp add: count_threads_def s0_def)
  note cs = count_set_thread [OF t'(1), unfolded t'(2)]
  have tc: "count_threads (holds_item v) s' = count_threads (holds_item v) s + of_bool (v = w)" "count_threads (has_called v) s' = count_threads (has_called v) s"
    "count_threads is_slow s' = count_threads is_slow s + of_bool slow" "count_threads is_idle s' = count_threads is_idle s"
    "count_threads ((=) Exited) s' = count_threads ((=) Exited) s" for v
    by (auto simp: cs c is_idle_def s'_def)
  have f: "wq s' = q" "slow_io_pending_wq s' = p" "linked s' = lk" "idle_threads s' = idle_threads s"
    "slow_io_work_running s' = slow_io_work_running s + of_bool slow" "w_work s' = w_work s" "w_loop s' = w_loop s"
    "w_after s' = w_after s" "loop_wq s' = loop_wq s" "loop_moved s' = loop_moved s" "loop_cancelling s' = loop_cancelling s"
    "loop_async s' = loop_async s" "active_reqs s' = active_reqs s" "log_submit s' = log_submit s" "log_work s' = log_work s"
    "log_done s' = log_done s"
    by (simp_all add: s'_def s0_def)
  have n: "nthreads s' = nthreads s" by (simp add: s'_def) (simp add: nthreads_def s0_def)
  have qv: "queued v s = queued v s' + of_bool (v = w)" for v using q [of v] by (simp add: queued_def f)
  have pv: "posted v s' = posted v s" "cancelling v s' = cancelling v s" "dones v s' = dones v s" for v
    by (simp_all add: posted_def cancelling_def dones_def f)
  have "threads_ok s'"
    using ok slow e by (auto simp: pool_ok0_def threads_ok_def exited_count tc f n slow_work_thread_threshold_def)
  moreover have "slow_ok s'" using m by (auto simp: slow_ok_def f)
  moreover have "awake s'" using t' by (simp add: awake_set s'_def)
  moreover have "item_ok s' v" for v
    using ok [unfolded pool_ok0_def item_ok_def, THEN conjunct2, THEN conjunct2, THEN conjunct1, THEN spec, of v]
    by (cases "v = w") (simp_all add: item_ok_def tc lk qv pv f item_inv_def)
  moreover have "places v s' = places v s" for v by (simp add: places_def tc qv pv)
  then have "reqs_ok s' = reqs_ok s" by (rule reqs_same) (simp_all add: f)
  moreover have "loops_ok s' = loops_ok s" by (simp add: loops_ok_def f)
  moreover have "taken t w slow q p lk s = s'" by (simp add: taken_def s'_def s0_def)
  ultimately show ?thesis using ok by (simp add: pool_ok0_def pool_ok_def awake_ok)
qed

text \<open>A thread that holds_item no item changes its state, with the counters adjusted.\<close>

definition moved :: "nat \<Rightarrow> thread \<Rightarrow> pool \<Rightarrow> pool" where
  "moved t x s =
     set_thread t x (s\<lparr>idle_threads := idle_threads s + of_bool (is_idle x) - of_bool (is_idle (threads s ! t)),
       slow_io_work_running := slow_io_work_running s - of_bool (is_slow (threads s ! t))\<rparr>)"

lemma moved_ok:
  assumes ok: "pool_ok0 s" and t: "t < nthreads s"
    and y: "\<And>v. \<not> holds_item v (threads s ! t)" "\<And>v. \<not> has_called v (threads s ! t)" "threads s ! t \<noteq> Exited"
    and x: "\<And>v. \<not> holds_item v x" "\<And>v. \<not> has_called v x" "\<not> is_slow x"
    and e: "x = Exited \<Longrightarrow> Exit_msg \<in> set (wq s)"
  shows "pool_ok0 (moved t x s)" "places v (moved t x s) = places v s"
proof -
  define s0 where "s0 = s\<lparr>idle_threads := idle_threads s + of_bool (is_idle x) - of_bool (is_idle (threads s ! t)),
       slow_io_work_running := slow_io_work_running s - of_bool (is_slow (threads s ! t))\<rparr>"
  define s' where "s' = set_thread t x s0"
  have t': "t < nthreads s0" "threads s0 ! t = threads s ! t" using t by (simp_all add: nthreads_def s0_def)
  have c: "count_threads P s0 = count_threads P s" for P by (simp add: count_threads_def s0_def)
  note cs = count_set_thread [OF t'(1), unfolded t'(2)]
  have tc: "count_threads (holds_item v) s' = count_threads (holds_item v) s" "count_threads (has_called v) s' = count_threads (has_called v) s"
    "int (count_threads is_slow s') = int (count_threads is_slow s) - of_bool (is_slow (threads s ! t))"
    "int (count_threads is_idle s') = int (count_threads is_idle s) + of_bool (is_idle x) - of_bool (is_idle (threads s ! t))"
    "count_threads ((=) Exited) s' = count_threads ((=) Exited) s + of_bool (x = Exited)" for v
    using y x cs [of is_slow x] cs [of is_idle x] cs [of "(=) Exited" x] cs [of "holds_item v" x] cs [of "has_called v" x] by (auto simp: c s'_def)
  have f: "wq s' = wq s" "slow_io_pending_wq s' = slow_io_pending_wq s" "linked s' = linked s"
    "idle_threads s' = idle_threads s + of_bool (is_idle x) - of_bool (is_idle (threads s ! t))"
    "slow_io_work_running s' = slow_io_work_running s - of_bool (is_slow (threads s ! t))" "w_work s' = w_work s" "w_loop s' = w_loop s"
    "w_after s' = w_after s" "loop_wq s' = loop_wq s" "loop_moved s' = loop_moved s" "loop_cancelling s' = loop_cancelling s"
    "loop_async s' = loop_async s" "active_reqs s' = active_reqs s" "log_submit s' = log_submit s" "log_work s' = log_work s"
    "log_done s' = log_done s"
    by (simp_all add: s'_def s0_def)
  have n: "nthreads s' = nthreads s" by (simp add: s'_def) (simp add: nthreads_def s0_def)
  have pv: "queued v s' = queued v s" "posted v s' = posted v s" "cancelling v s' = cancelling v s" "dones v s' = dones v s" for v
    by (simp_all add: queued_def posted_def cancelling_def dones_def f)
  have p: "places v s' = places v s" for v by (simp add: places_def tc pv)
  have eq: "moved t x s = s'" by (simp add: moved_def s'_def s0_def)
  show "places v (moved t x s) = places v s" by (simp add: eq p)
  have "threads_ok s'"
    using ok e by (auto simp: pool_ok0_def threads_ok_def exited_count tc f n slow_work_thread_threshold_def)
  moreover have "slow_ok s' = slow_ok s" "loops_ok s' = loops_ok s" by (simp_all add: slow_ok_def loops_ok_def f)
  moreover have "item_ok s' v = item_ok s v" for v by (simp add: item_ok_def tc pv f)
  moreover have "reqs_ok s' = reqs_ok s" by (rule reqs_same) (simp_all add: f p)
  ultimately show "pool_ok0 (moved t x s)" using ok by (simp add: pool_ok0_def eq)
qed

subsection \<open>One round of the worker\<close>

text \<open>What is promised of the state after a step of a worker.\<close>

definition progress :: "pool \<Rightarrow> pool \<Rightarrow> bool" where
  "progress s s' \<longleftrightarrow> pool_ok s' \<and> work_left s' < work_left s \<and> (Exit_msg \<in> set (wq s') \<longleftrightarrow> Exit_msg \<in> set (wq s))"

lemma weight_set_thread:
  "t < nthreads s \<Longrightarrow> sum_list (map tweight (threads (set_thread t x s))) + tweight (threads s ! t) = sum_list (map tweight (threads s)) + tweight x"
  using sum_update [of t "threads s" tweight x] by (simp add: set_thread_def nthreads_def)

lemma work_left_set:
  "t < nthreads s \<Longrightarrow> work_left (set_thread t x s) + tweight (threads s ! t) = work_left s + tweight x"
  using weight_set_thread [of t s x] by (simp add: work_left_def)

lemma moved_weight:
  "t < nthreads s \<Longrightarrow> work_left (moved t x s) + tweight (threads s ! t) = work_left s + tweight x"
  by (subst moved_def, subst work_left_set [of t "s\<lparr>idle_threads := i, slow_io_work_running := j\<rparr>" for i j, simplified])
    (simp_all add: nthreads_def work_left_def)

lemma wait_progress:
  assumes "pool_ok s" "at_top t s" "nothing_to_run s"
  shows "progress s (set_thread t Waiting (s\<lparr>idle_threads := idle_threads s + 1\<rparr>))"
proof -
  have t: "t < nthreads s" "threads s ! t = Top" using assms(2) by (simp_all add: at_top_def)
  have eq: "set_thread t Waiting (s\<lparr>idle_threads := idle_threads s + 1\<rparr>) = moved t Waiting s"
    using t(2) by (simp add: moved_def is_idle_def)
  have "pool_ok0 (moved t Waiting s)" by (rule moved_ok) (use assms t in \<open>simp_all add: pool_ok_alt\<close>)
  moreover have "nothing_to_run (moved t Waiting s)"
    using assms(3) t by (simp add: nothing_to_run_def moved_def slow_work_thread_threshold_def) (simp add: nthreads_def)
  moreover have "work_left (moved t Waiting s) < work_left s" using moved_weight [OF t(1), of Waiting] t(2) by simp
  ultimately show ?thesis unfolding eq by (simp add: progress_def pool_ok_alt wake_ok_def) (simp add: moved_def)
qed

lemma exit_progress:
  assumes "pool_ok s" "at_top t s" "Exit_msg \<in> set (wq s)"
  shows "progress s (set_thread t Exited (uv_cond_signal ch s))"
proof -
  have t: "t < nthreads s" "threads s ! t = Top" using assms(2) by (simp_all add: at_top_def)
  obtain ts where ts: "uv_cond_signal ch s = s\<lparr>threads := ts\<rparr>" "signalled s ts" "Waiting \<in> set (threads s) \<longrightarrow> Woken \<in> set ts"
    using signal_ex [of ch s] by blast
  have eq: "set_thread t Exited (uv_cond_signal ch s) = (moved t Exited s)\<lparr>threads := ts[t := Exited]\<rparr>"
    and sig: "signalled (moved t Exited s) (ts[t := Exited])"
    using sig_set_thread [OF ts(2) t(1), of Exited] t(2) ts(1) by (simp_all add: moved_def is_idle_def)
  have "pool_ok0 (moved t Exited s)" by (rule moved_ok) (use assms t in \<open>simp_all add: pool_ok_alt\<close>)
  then have ok: "pool_ok0 ((moved t Exited s)\<lparr>threads := ts[t := Exited]\<rparr>)" using sig by (simp add: pool_ok0_def sig_ok)
  have len: "length ts = length (threads s)" and top: "ts ! t = Top"
    using ts(2) t by (simp_all add: signalled_def nthreads_def)
  have "awake ((moved t Exited s)\<lparr>threads := ts[t := Exited]\<rparr>)" if w: "Waiting \<in> set (ts[t := Exited])"
  proof -
    obtain i where i: "i < length ts" "ts[t := Exited] ! i = Waiting" using w by (auto simp: in_set_conv_nth)
    then have "ts ! i = Waiting" by (cases "i = t") simp_all
    then have "threads s ! i = Waiting" "i < length (threads s)" using i(1) ts(2) len by (auto simp: signalled_def)
    then have "Woken \<in> set ts" using ts(3) by (metis nth_mem)
    then obtain j where "j < length ts" "ts ! j = Woken" by (auto simp: in_set_conv_nth)
    then have "ts[t := Exited] ! j = Woken" "j < length (ts[t := Exited])" using top by (cases "j = t"; simp)+
    then have "Woken \<in> set (ts[t := Exited])" by (metis nth_mem)
    then show ?thesis by (auto simp: awake_def)
  qed
  then have "pool_ok ((moved t Exited s)\<lparr>threads := ts[t := Exited]\<rparr>)" using ok by (auto simp: pool_ok_alt wake_ok_def)
  moreover have "work_left ((moved t Exited s)\<lparr>threads := ts[t := Exited]\<rparr>) < work_left s"
    using moved_weight [OF t(1), of Exited] t(2) sig by (simp add: work_left_def signalled_def)
  ultimately show ?thesis unfolding eq by (simp add: progress_def) (simp add: moved_def)
qed

lemma taken_work_left:
  assumes "at_top t s"
    "4 * (length (filter (\<lambda>q. q \<in> range Item) q) + length p) + 4 = 4 * (length (filter (\<lambda>q. q \<in> range Item) (wq s)) + length (slow_io_pending_wq s))"
  shows "work_left (taken t w slow q p lk s) + 2 = work_left s"
proof -
  define s0 where "s0 = s\<lparr>wq := q, slow_io_pending_wq := p, linked := lk, slow_io_work_running := slow_io_work_running s + of_bool slow\<rparr>"
  have "t < nthreads s0" "threads s0 ! t = Top" using assms(1) by (simp_all add: at_top_def nthreads_def s0_def)
  then have "work_left (set_thread t (Running w slow) s0) + 2 = work_left s0 + 4" using work_left_set [of t s0 "Running w slow"] by simp
  moreover have "work_left s0 + 4 = work_left s" using assms(2) by (simp add: work_left_def s0_def)
  ultimately show ?thesis by (simp add: taken_def s0_def)
qed

lemma cpu_progress:
  assumes "pool_ok s" "at_top t s" "wq s = Item w # rest"
  shows "progress s (set_thread t (Running w False) (s\<lparr>wq := rest, linked := (linked s)(Item w := False)\<rparr>))"
proof -
  have eq: "set_thread t (Running w False) (s\<lparr>wq := rest, linked := (linked s)(Item w := False)\<rparr>)
    = taken t w False rest (slow_io_pending_wq s) ((linked s)(Item w := False)) s"
    by (simp add: taken_def)
  note ok = assms(1) [unfolded pool_ok_def]
  have "pool_ok (taken t w False rest (slow_io_pending_wq s) ((linked s)(Item w := False)) s)"
    by (rule taken_ok) (use ok assms in \<open>auto simp: pool_ok_alt slow_ok_def queued_def\<close>)
  moreover have "work_left (taken t w False rest (slow_io_pending_wq s) ((linked s)(Item w := False)) s) + 2 = work_left s"
    by (rule taken_work_left) (use assms in simp_all)
  ultimately show ?thesis unfolding eq using assms(3) by (simp add: progress_def) (simp add: taken_def)
qed

lemma slow_progress:
  assumes "pool_ok s" "at_top t s" "wq s = Run_slow # rest" "slow_io_pending_wq s = Item w # later"
    "slow_io_work_running s < slow_work_thread_threshold s"
  shows "\<exists>s'. take_slow ch t (Item w) later (s\<lparr>wq := rest, linked := (linked s)(Run_slow := False)\<rparr>) = Some s' \<and> progress s s'"
proof -
  define q where "q = (if later \<noteq> [] then rest @ [Run_slow] else rest)"
  define lk where "lk = (linked s)(Run_slow := later \<noteq> [], Item w := False)"
  define s1 where "s1 = s\<lparr>wq := q, slow_io_pending_wq := later, linked := lk, slow_io_work_running := slow_io_work_running s + 1\<rparr>"
  note ok = assms(1) [unfolded pool_ok_def]
  have l: "linked s Run_slow" using ok assms(3) by (cases "linked s Run_slow") (simp_all add: slow_ok_def)
  have t: "t < nthreads s1" "threads s1 ! t = Top" using assms(2) by (simp_all add: at_top_def nthreads_def s1_def)
  have good: "pool_ok (taken t w True q later lk s)"
    by (rule taken_ok) (use ok assms l in \<open>auto simp: pool_ok_alt slow_ok_def queued_def q_def lk_def\<close>)
  have eq: "taken t w True q later lk s = set_thread t (Running w True) s1" by (simp add: taken_def s1_def)
  have left: "work_left (taken t w True q later lk s) + 2 = work_left s"
    by (rule taken_work_left) (use assms in \<open>auto simp: q_def\<close>)
  have "\<exists>ts. (if later \<noteq> [] then signal_if_idle ch s1 else s1) = s1\<lparr>threads := ts\<rparr> \<and> signalled s1 ts"
    using signal_if_idle_ex [of ch s1] signalled_refl [of s1] by (cases "later = []") (simp_all add: exI [of _ "threads s1"])
  then obtain ts where ts: "(if later \<noteq> [] then signal_if_idle ch s1 else s1) = s1\<lparr>threads := ts\<rparr>" "signalled s1 ts" by blast
  have "take_slow ch t (Item w) later (s\<lparr>wq := rest, linked := (linked s)(Run_slow := False)\<rparr>) = Some (set_thread t (Running w True) (s1\<lparr>threads := ts\<rparr>))"
  proof -
    let ?x = "s\<lparr>wq := rest, linked := (linked s)(Run_slow := False), slow_io_work_running := slow_io_work_running s + 1,
      slow_io_pending_wq := later, linked := (linked s)(Run_slow := False, Item w := False)\<rparr>"
    have "later \<noteq> [] \<Longrightarrow> insert_wq Run_slow ?x = s1" "later = [] \<Longrightarrow> ?x = s1"
      by (simp_all add: s1_def q_def lk_def insert_wq_def fun_upd_twist)
    then show ?thesis unfolding ts(1) [symmetric] by (cases "later = []") (simp_all add: take_slow_def Let_def)
  qed
  moreover have "set_thread t (Running w True) (s1\<lparr>threads := ts\<rparr>) = (set_thread t (Running w True) s1)\<lparr>threads := ts[t := Running w True]\<rparr>"
    and sig: "signalled (set_thread t (Running w True) s1) (ts[t := Running w True])"
    using sig_set_thread [OF ts(2) t(1)] t(2) by simp_all
  moreover have "pool_ok ((set_thread t (Running w True) s1)\<lparr>threads := ts[t := Running w True]\<rparr>)"
  proof -
    have "pool_ok0 ((set_thread t (Running w True) s1)\<lparr>threads := ts[t := Running w True]\<rparr>)"
      using good sig by (simp add: eq pool_ok_alt pool_ok0_def sig_ok)
    moreover have "t < length ts" using ts(2) t(1) by (simp add: signalled_def nthreads_def)
    then have "Running w True \<in> set (ts[t := Running w True])" by (rule set_update_memI)
    then have "awake ((set_thread t (Running w True) s1)\<lparr>threads := ts[t := Running w True]\<rparr>)" by (auto simp: awake_def)
    ultimately show ?thesis by (simp add: pool_ok_alt awake_ok)
  qed
  moreover have "work_left ((set_thread t (Running w True) s1)\<lparr>threads := ts[t := Running w True]\<rparr>) < work_left s"
    using left sig by (simp add: eq work_left_def signalled_def)
  moreover have "Exit_msg \<in> set (wq s1) \<longleftrightarrow> Exit_msg \<in> set (wq s)" using assms(3) by (simp add: s1_def q_def)
  ultimately show ?thesis by (simp add: progress_def)
qed

text \<open>The round that ends without another one.\<close>

lemma worker_loop_direct:
  assumes "pool_ok s" "at_top t s"
    and d: "nothing_to_run s \<or> hd (wq s) \<noteq> Run_slow \<or> slow_io_work_running s < slow_work_thread_threshold s \<and> slow_io_pending_wq s \<noteq> []"
  shows "\<exists>s'. worker_loop ch t s = Some s' \<and> progress s s'"
proof (cases "nothing_to_run s")
  case True
  then show ?thesis using wait_progress [OF assms(1,2)] by (simp add: worker_loop.simps)
next
  case False
  then obtain q rest where q: "wq s = q # rest" by (cases "wq s") (auto simp: nothing_to_run_def)
  show ?thesis
  proof (cases q)
    case Exit_msg
    then show ?thesis using False q exit_progress [OF assms(1,2)] by (simp add: worker_loop.simps [of ch t s])
  next
    case (Item w)
    then show ?thesis using False q cpu_progress [OF assms(1,2)] by (simp add: worker_loop.simps [of ch t s])
  next
    case Run_slow
    then have d': "slow_io_work_running s < slow_work_thread_threshold s" "slow_io_pending_wq s \<noteq> []" using d False q by auto
    then obtain w later where p: "slow_io_pending_wq s = Item w # later"
      using assms(1) by (cases "slow_io_pending_wq s") (auto simp: pool_ok_def slow_ok_def)
    have "worker_loop ch t s = take_slow ch t (Item w) later (s\<lparr>wq := rest, linked := (linked s)(Run_slow := False)\<rparr>)"
      using False q p d'(1) Run_slow by (simp add: worker_loop.simps [of ch t s] slow_work_thread_threshold_def nthreads_def)
    then show ?thesis using slow_progress [OF assms(1,2) q [unfolded Run_slow] p d'(1), of ch] by simp
  qed
qed

lemma no_more_messages:
  assumes "pool_ok s" "wq s = Run_slow # rest"
  shows "Run_slow \<notin> set rest"
  using assms by (cases "linked s Run_slow") (auto simp: pool_ok_def slow_ok_def count_list_0_iff)

lemma worker_loop_progress:
  assumes ok: "pool_ok s" and t: "at_top t s"
  shows "\<exists>s'. worker_loop ch t s = Some s' \<and> progress s s'"
proof (cases "nothing_to_run s \<or> hd (wq s) \<noteq> Run_slow \<or> slow_io_work_running s < slow_work_thread_threshold s \<and> slow_io_pending_wq s \<noteq> []")
  case True
  then show ?thesis by (rule worker_loop_direct [OF ok t])
next
  case False
  then obtain rest where q: "wq s = Run_slow # rest" by (cases "wq s") (auto simp: nothing_to_run_def)
  let ?drop = "s\<lparr>wq := rest, linked := (linked s)(Run_slow := False)\<rparr>"
  have awake: "awake s" using t by (intro nth_awake [of t]) (simp_all add: at_top_def)
  have none: "Run_slow \<notin> set rest" by (rule no_more_messages [OF ok q])
  note again = message_moved [OF ok awake q]
  have top: "at_top t ?drop" "at_top t (insert_wq Run_slow ?drop)" using t by (simp_all add: at_top_def nthreads_def insert_wq_def)
  have left: "work_left ?drop = work_left s" "work_left (insert_wq Run_slow ?drop) = work_left s"
    using q by (auto simp: work_left_def insert_wq_def)
  have exit: "Exit_msg \<in> set rest \<longleftrightarrow> Exit_msg \<in> set (wq s)" using q by simp
  show ?thesis
  proof (cases "slow_io_work_running s \<ge> slow_work_thread_threshold s")
    case True
    then have rest: "rest \<noteq> []" using False q by (auto simp: nothing_to_run_def)
    have "worker_loop ch t s = worker_loop ch t (insert_wq Run_slow ?drop)"
      using False q True by (simp add: worker_loop.simps [of ch t s] slow_work_thread_threshold_def nthreads_def)
    moreover have "hd (wq (insert_wq Run_slow ?drop)) \<noteq> Run_slow" using rest none by (cases rest) (auto simp: insert_wq_def)
    then have "\<exists>s'. worker_loop ch t (insert_wq Run_slow ?drop) = Some s' \<and> progress (insert_wq Run_slow ?drop) s'"
      by (intro worker_loop_direct again(1) top(2)) simp
    ultimately show ?thesis using left(2) exit by (auto simp: progress_def insert_wq_def)
  next
    case few: False
    then have p: "slow_io_pending_wq s = []" using False by auto
    have "worker_loop ch t s = worker_loop ch t ?drop"
      using False q few p by (simp add: worker_loop.simps [of ch t s] slow_work_thread_threshold_def nthreads_def)
    moreover have "nothing_to_run ?drop \<or> hd (wq ?drop) \<noteq> Run_slow" using none by (cases rest) (auto simp: nothing_to_run_def)
    then have "\<exists>s'. worker_loop ch t ?drop = Some s' \<and> progress ?drop s'"
      by (intro worker_loop_direct again(2) top(1) p) blast
    ultimately show ?thesis using left(1) exit by (auto simp: progress_def)
  qed
qed

subsection \<open>Every step of a worker\<close>

lemma moved_top_progress:
  assumes ok: "pool_ok s" and t: "t < nthreads s" and y: "threads s ! t = Woken \<or> threads s ! t = Back slow"
  shows "\<exists>s'. worker_loop ch t (moved t Top s) = Some s' \<and> progress s s'"
proof -
  have "pool_ok0 (moved t Top s)"
    by (rule moved_ok) (use ok t y in \<open>auto simp: pool_ok_alt\<close>)
  moreover have m: "moved t Top s = set_thread t Top (s\<lparr>idle_threads := i, slow_io_work_running := j\<rparr>)"
    if "i = idle_threads s + of_bool (is_idle Top) - of_bool (is_idle (threads s ! t))" "j = slow_io_work_running s - of_bool (is_slow (threads s ! t))" for i j
    using that by (simp add: moved_def)
  have "awake (moved t Top s)" unfolding m [OF refl refl] by (rule awake_set) (use t in \<open>simp_all add: nthreads_def\<close>)
  moreover have "at_top t (moved t Top s)" using t unfolding m [OF refl refl] by (simp add: at_top_def nthreads_def set_thread_def)
  ultimately obtain s' where s': "worker_loop ch t (moved t Top s) = Some s'" "progress (moved t Top s) s'"
    using worker_loop_progress [of "moved t Top s" t ch] by (auto simp: pool_ok_alt awake_ok)
  moreover have "work_left (moved t Top s) = work_left s" using moved_weight [OF t, of Top] y by auto
  moreover have "wq (moved t Top s) = wq s" by (simp add: moved_def)
  ultimately show ?thesis by (auto simp: progress_def)
qed

lemma holder:
  assumes "t < nthreads s" "holds_item w (threads s ! t)"
  shows "0 < count_threads (holds_item w) s"
  using assms by (auto simp: count_threads_def nthreads_def filter_empty_conv intro: bexI [of _ "threads s ! t"])

lemma has_called_holds: "has_called w x \<Longrightarrow> holds_item w x"
  by (cases x) simp_all

lemma called_less:
  assumes "t < nthreads s" "holds_item w (threads s ! t)" "\<not> has_called w (threads s ! t)"
  shows "count_threads (has_called w) s < count_threads (holds_item w) s"
proof -
  have "filter (has_called w) (threads s) = filter (has_called w) (filter (holds_item w) (threads s))"
    by (auto simp: has_called_holds intro!: filter_cong)
  moreover have "threads s ! t \<in> set (filter (holds_item w) (threads s))" using assms(1,2) by (simp add: nthreads_def)
  ultimately show ?thesis using assms(3) by (metis count_threads_def length_filter_less)
qed

lemma call_progress:
  assumes ok: "pool_ok s" and t: "t < nthreads s" and y: "threads s ! t = Running w slow"
  shows "\<exists>s'. call_work t w slow s = Some s' \<and> progress s s'"
proof -
  have held: "0 < count_threads (holds_item w) s" by (rule holder [OF t]) (simp add: y)
  have inv: "item_ok s v" for v using ok by (simp add: pool_ok_def)
  have fn: "w_work s w = Fn_work" using inv [of w] held by (simp add: item_ok_def item_inv_def)
  define s0 where "s0 = s\<lparr>log_work := log_work s @ [w]\<rparr>"
  define s' where "s' = set_thread t (Called w slow) s0"
  have t': "t < nthreads s0" "threads s0 ! t = Running w slow" using t y by (simp_all add: nthreads_def s0_def)
  have c: "count_threads P s0 = count_threads P s" for P by (simp add: count_threads_def s0_def)
  note cs = count_set_thread [OF t'(1), unfolded t'(2)]
  have tc: "count_threads (holds_item v) s' = count_threads (holds_item v) s" "count_threads (has_called v) s' = count_threads (has_called v) s + of_bool (v = w)"
    "count_threads is_slow s' = count_threads is_slow s" "count_threads is_idle s' = count_threads is_idle s"
    "count_threads ((=) Exited) s' = count_threads ((=) Exited) s" for v
    by (cases "v = w"; cases slow; simp add: cs c is_idle_def s'_def)+
  have f: "wq s' = wq s" "slow_io_pending_wq s' = slow_io_pending_wq s" "linked s' = linked s" "idle_threads s' = idle_threads s"
    "slow_io_work_running s' = slow_io_work_running s" "w_work s' = w_work s" "w_loop s' = w_loop s"
    "w_after s' = w_after s" "loop_wq s' = loop_wq s" "loop_moved s' = loop_moved s" "loop_cancelling s' = loop_cancelling s"
    "loop_async s' = loop_async s" "active_reqs s' = active_reqs s" "log_submit s' = log_submit s" "log_work s' = log_work s @ [w]"
    "log_done s' = log_done s"
    by (simp_all add: s'_def s0_def)
  have n: "nthreads s' = nthreads s" by (simp add: s'_def) (simp add: nthreads_def s0_def)
  have pv: "queued v s' = queued v s" "posted v s' = posted v s" "cancelling v s' = cancelling v s" "dones v s' = dones v s" for v
    by (simp_all add: queued_def posted_def cancelling_def dones_def f)
  have "threads_ok s' = threads_ok s" by (simp add: threads_ok_def exited_count tc f n slow_work_thread_threshold_def)
  moreover have "slow_ok s' = slow_ok s" "loops_ok s' = loops_ok s" by (simp_all add: slow_ok_def loops_ok_def f)
  moreover have "awake s'" using t' by (simp add: awake_set s'_def)
  moreover have "\<forall>v. item_ok s' v"
  proof
    fix v
    show "item_ok s' v"
      using inv [of v] called_less [OF t, of v] y by (cases "v = w") (auto simp: item_ok_def tc pv f fn item_inv_def)
  qed
  moreover have "reqs_ok s' = reqs_ok s" by (rule reqs_same) (simp_all add: f places_def tc pv)
  moreover have "work_left s' < work_left s"
    using work_left_set [OF t'(1), of "Called w slow"] t'(2) by (simp add: s'_def) (simp add: work_left_def s0_def)
  moreover have "call_work t w slow s = Some s'" using fn by (simp add: call_work_def s'_def s0_def)
  ultimately show ?thesis using ok by (simp add: pool_ok_def awake_ok progress_def f)
qed

lemma post_done_progress:
  assumes ok: "pool_ok s" and t: "t < nthreads s" and y: "threads s ! t = Called w slow"
  shows "progress s (post_done t w slow s)"
proof -
  have held: "0 < count_threads (holds_item w) s" by (rule holder [OF t]) (simp add: y)
  have inv: "item_ok s v" for v using ok by (simp add: pool_ok_def)
  have fn: "w_work s w = Fn_work" using inv [of w] held by (simp add: item_ok_def item_inv_def)
  define s0 where "s0 = s\<lparr>w_work := (w_work s)(w := Fn_null), loop_wq := (loop_wq s)(w_loop s w := loop_wq s (w_loop s w) @ [w]),
           linked := (linked s)(Item w := True), loop_async := (loop_async s)(w_loop s w := True)\<rparr>"
  define s' where "s' = set_thread t (Back slow) s0"
  have t': "t < nthreads s0" "threads s0 ! t = Called w slow" using t y by (simp_all add: nthreads_def s0_def)
  have c: "count_threads P s0 = count_threads P s" for P by (simp add: count_threads_def s0_def)
  note cs = count_set_thread [OF t'(1), unfolded t'(2)]
  have tc: "count_threads (holds_item v) s = count_threads (holds_item v) s' + of_bool (v = w)"
    "count_threads (has_called v) s = count_threads (has_called v) s' + of_bool (v = w)"
    "count_threads is_slow s' = count_threads is_slow s" "count_threads is_idle s' = count_threads is_idle s"
    "count_threads ((=) Exited) s' = count_threads ((=) Exited) s" for v
    by (cases "v = w"; cases slow; simp add: cs c is_idle_def s'_def)+
  have f: "wq s' = wq s" "slow_io_pending_wq s' = slow_io_pending_wq s" "linked s' = (linked s)(Item w := True)" "idle_threads s' = idle_threads s"
    "slow_io_work_running s' = slow_io_work_running s" "w_work s' = (w_work s)(w := Fn_null)" "w_loop s' = w_loop s"
    "w_after s' = w_after s" "loop_wq s' = (loop_wq s)(w_loop s w := loop_wq s (w_loop s w) @ [w])" "loop_moved s' = loop_moved s"
    "loop_cancelling s' = loop_cancelling s" "loop_async s' = (loop_async s)(w_loop s w := True)" "active_reqs s' = active_reqs s"
    "log_submit s' = log_submit s" "log_work s' = log_work s" "log_done s' = log_done s"
    by (simp_all add: s'_def s0_def)
  have n: "nthreads s' = nthreads s" by (simp add: s'_def) (simp add: nthreads_def s0_def)
  have pv: "queued v s' = queued v s" "posted v s' = posted v s + of_bool (v = w)" "cancelling v s' = cancelling v s" "dones v s' = dones v s" for v
    by (simp_all add: queued_def posted_def cancelling_def dones_def f)
  have "threads_ok s' = threads_ok s" by (simp add: threads_ok_def exited_count tc f n slow_work_thread_threshold_def)
  moreover have "slow_ok s' = slow_ok s" by (simp add: slow_ok_def f)
  moreover have "loops_ok s'" using ok by (auto simp: pool_ok_def loops_ok_def f)
  moreover have "awake s'" using t' by (simp add: awake_set s'_def)
  moreover have "\<forall>v. item_ok s' v"
  proof
    fix v
    show "item_ok s' v"
      using inv [of v] fn tc(2) [of v] tc(1) [of v] by (cases "v = w") (auto simp: item_ok_def pv f item_inv_def)
  qed
  moreover have "reqs_ok s' = reqs_ok s" by (rule reqs_same) (simp_all add: f places_def tc pv)
  moreover have "work_left s' < work_left s"
    using work_left_set [OF t'(1), of "Back slow"] t'(2) by (simp add: s'_def) (simp add: work_left_def s0_def)
  moreover have "post_done t w slow s = s'" by (simp add: post_done_def s'_def s0_def Let_def)
  ultimately show ?thesis using ok by (simp add: pool_ok_def awake_ok progress_def f)
qed

lemma worker_progress:
  assumes ok: "pool_ok s" and en: "enabled t s"
  shows "\<exists>s'. worker ch t s = Some s' \<and> progress s s'"
proof -
  have t: "t < nthreads s" using en by (simp add: enabled_def)
  show ?thesis
  proof (cases "threads s ! t")
    case Top
    then show ?thesis using worker_loop_progress [OF ok, of t ch] t by (simp add: worker_def at_top_def)
  next
    case Woken
    then have "moved t Top s = set_thread t Top (s\<lparr>idle_threads := idle_threads s - 1\<rparr>)" by (simp add: moved_def is_idle_def)
    then show ?thesis using Woken moved_top_progress [OF ok t] by (simp add: worker_def)
  next
    case (Running w slow)
    then show ?thesis using call_progress [OF ok t] by (simp add: worker_def)
  next
    case (Called w slow)
    then show ?thesis using post_done_progress [OF ok t] by (simp add: worker_def)
  next
    case (Back slow)
    then have "moved t Top s = set_thread t Top (if slow then s\<lparr>slow_io_work_running := slow_io_work_running s - 1\<rparr> else s)"
      by (simp add: moved_def is_idle_def)
    then show ?thesis using Back moved_top_progress [OF ok t, of slow ch] by (simp add: worker_def)
  qed (use en in \<open>simp_all add: enabled_def\<close>)
qed

subsection \<open>The steps of the loops\<close>

lemma init_ok: "pool_ok (init_threads val mem)"
proof -
  have n: "1 \<le> nthreads_of val mem" "nthreads_of val mem \<le> 1024" by (auto simp: nthreads_of_def Let_def)
  let ?s = "init_threads val mem"
  have c: "count_threads P ?s = 0" if "\<not> P Top" for P using that by (simp add: count_threads_def init_threads_def filter_empty_conv)
  have "count_threads is_idle ?s = 0" "count_threads is_slow ?s = 0" "count_threads (holds_item w) ?s = 0" "count_threads (has_called w) ?s = 0" for w
    by (simp_all add: c is_idle_def)
  then show ?thesis using n
    by (simp add: pool_ok_def threads_ok_def slow_ok_def wake_ok_def item_ok_def item_inv_def loops_ok_def reqs_ok_def reqs_of_def places_def)
      (auto simp: init_threads_def nthreads_def slow_work_thread_threshold_def nothing_to_run_def queued_def posted_def cancelling_def dones_def)
qed

lemma spurious_ok:
  assumes ok: "pool_ok s" and t: "t < nthreads s" "threads s ! t = Waiting"
  shows "pool_ok (set_thread t Woken s)"
proof -
  have eq: "moved t Woken s = set_thread t Woken s" using t by (simp add: moved_def is_idle_def)
  have "pool_ok0 (moved t Woken s)" by (rule moved_ok) (use ok t in \<open>simp_all add: pool_ok_alt\<close>)
  then show ?thesis using awake_set [OF t(1), of Woken] by (simp add: eq pool_ok_alt awake_ok)
qed

lemma absent:
  assumes "loops_ok s" "places w s = 0"
  shows "w \<notin> set (loop_wq s l)" "w \<notin> set (loop_moved s l)" "loop_cancelling s l \<noteq> Some w"
  using assms by (fastforce simp: loops_ok_def places_def posted_def cancelling_def count_list_0_iff)+

text \<open>The state after a submission, before any signal.\<close>

lemma submitted_ok:
  assumes ok: "pool_ok0 s" and free: "places w s = 0"
    and f: "threads s' = threads s" "idle_threads s' = idle_threads s" "slow_io_work_running s' = slow_io_work_running s"
      "w_loop s' = (w_loop s)(w := l)" "w_work s' = (w_work s)(w := Fn_work)" "w_after s' = (w_after s)(w := af)"
      "loop_wq s' = loop_wq s" "loop_moved s' = loop_moved s" "loop_cancelling s' = loop_cancelling s" "loop_async s' = loop_async s"
      "active_reqs s' = (active_reqs s)(l := active_reqs s l + of_bool (af \<noteq> None))"
      "log_submit s' = log_submit s @ [w]" "log_work s' = log_work s" "log_done s' = log_done s"
    and q: "\<And>v. queued v s' = queued v s + of_bool (v = w)" and lk: "\<And>v. linked s' (Item v) \<longleftrightarrow> v = w \<or> linked s (Item v)"
    and sl: "slow_ok s'" and e: "Exit_msg \<in> set (wq s') \<longleftrightarrow> Exit_msg \<in> set (wq s)"
  shows "pool_ok0 s'"
proof -
  have lo: "loops_ok s" using ok by (simp add: pool_ok0_def)
  note ab = absent [OF lo free]
  have c: "count_threads P s' = count_threads P s" for P by (simp add: count_threads_def f)
  have n: "nthreads s' = nthreads s" by (simp add: nthreads_def f)
  have pv: "posted v s' = posted v s" "cancelling v s' = cancelling v s" "dones v s' = dones v s" for v
    using ab free by (auto simp: posted_def cancelling_def dones_def f places_def count_list_0_iff)
  have pl: "places v s' = places v s + of_bool (v = w)" for v by (simp add: places_def c pv q)
  have "threads_ok s'" using ok e by (simp add: pool_ok0_def threads_ok_def exited_count c f n slow_work_thread_threshold_def)
  moreover have "loops_ok s'" using lo ab by (auto simp: loops_ok_def f)
  moreover have "\<forall>v. item_ok s' v"
  proof
    fix v
    have "item_ok s v" using ok by (simp add: pool_ok0_def)
    then show "item_ok s' v" using free by (cases "v = w") (auto simp: item_ok_def c pv q lk f item_inv_def places_def)
  qed
  moreover have "reqs_of k s' = (if k = l \<and> af \<noteq> None then insert w (reqs_of k s) else reqs_of k s)" "w \<notin> reqs_of k s" for k
    using free by (auto simp: reqs_of_def pl f)
  then have "reqs_ok s'" using ok by (auto simp: pool_ok0_def reqs_ok_def f)
  ultimately show ?thesis using sl by (simp add: pool_ok0_def)
qed

lemma post_ok:
  assumes ok: "pool_ok s" and free: "places w s = 0"
  shows "pool_ok (uv__work_submit ch l w kind (s\<lparr>active_reqs := (active_reqs s)(l := active_reqs s l + of_bool (af \<noteq> None)), w_after := (w_after s)(w := af)\<rparr>))"
proof -
  let ?s = "s\<lparr>active_reqs := (active_reqs s)(l := active_reqs s l + of_bool (af \<noteq> None)), w_after := (w_after s)(w := af),
    w_loop := (w_loop s)(w := l), w_work := (w_work s)(w := Fn_work), log_submit := log_submit s @ [w]\<rparr>"
  have ok0: "pool_ok0 s" and sl: "slow_ok s" using ok by (auto simp: pool_ok_alt pool_ok0_def)
  show ?thesis
  proof (cases "kind = UV__WORK_SLOW_IO")
    case False
    have "slow_ok (insert_wq (Item w) ?s)" using sl by (auto simp: slow_ok_def insert_wq_def)
    then have "pool_ok0 (insert_wq (Item w) ?s)"
      by (intro submitted_ok [OF ok0 free]) (auto simp: insert_wq_def queued_def)
    then show ?thesis using False signal_if_idle_ok by (simp add: uv__work_submit_def post_def)
  next
    case True
    let ?p = "?s\<lparr>slow_io_pending_wq := slow_io_pending_wq s @ [Item w], linked := (linked s)(Item w := True)\<rparr>"
    show ?thesis
    proof (cases "linked s Run_slow")
      case lk: True
      have "slow_ok ?p" using sl lk by (auto simp: slow_ok_def)
      then have "pool_ok0 ?p" by (intro submitted_ok [OF ok0 free]) (auto simp: queued_def)
      moreover have "wake_ok ?p" using ok by (simp add: pool_ok_alt wake_ok_def nothing_to_run_def awake_def slow_work_thread_threshold_def nthreads_def)
      ultimately show ?thesis using True lk by (simp add: uv__work_submit_def post_def pool_ok_alt)
    next
      case lk: False
      have "slow_ok (insert_wq Run_slow ?p)" using sl lk by (auto simp: slow_ok_def insert_wq_def)
      then have "pool_ok0 (insert_wq Run_slow ?p)" by (intro submitted_ok [OF ok0 free]) (auto simp: queued_def insert_wq_def)
      then show ?thesis using True lk signal_if_idle_ok by (simp add: uv__work_submit_def post_def)
    qed
  qed
qed

lemma remove1_nonempty: "remove1 x xs \<noteq> [] \<Longrightarrow> xs \<noteq> []"
  by auto

lemma cancel_begin_ok:
  assumes ok: "pool_ok s" and busy: "places w s \<noteq> 0" and c: "loop_cancelling s (w_loop s w) = None"
    and r: "cancel_begin w s = (rc, s')"
  shows "pool_ok s'"
proof (cases "linked s (Item w) \<and> w_work s w \<noteq> Fn_null")
  case False
  then show ?thesis using ok r by (auto simp: cancel_begin_def Let_def)
next
  case True
  note ok' = ok [unfolded pool_ok_def]
  have s': "s' = (QUEUE_REMOVE w s)\<lparr>loop_cancelling := (loop_cancelling s)(w_loop s w := Some w)\<rparr>"
    using r True by (simp add: cancel_begin_def)
  have f: "threads s' = threads s" "idle_threads s' = idle_threads s" "slow_io_work_running s' = slow_io_work_running s"
    "wq s' = remove1 (Item w) (wq s)" "slow_io_pending_wq s' = remove1 (Item w) (slow_io_pending_wq s)" "linked s' = linked s"
    "w_loop s' = w_loop s" "w_work s' = w_work s" "w_after s' = w_after s" "loop_wq s' = (\<lambda>l. remove1 w (loop_wq s l))"
    "loop_moved s' = (\<lambda>l. remove1 w (loop_moved s l))" "loop_cancelling s' = (loop_cancelling s)(w_loop s w := Some w)"
    "loop_async s' = loop_async s" "active_reqs s' = active_reqs s"
    "log_submit s' = log_submit s" "log_work s' = log_work s" "log_done s' = log_done s"
    by (simp_all add: s' QUEUE_REMOVE_def)
  have n: "nthreads s' = nthreads s" and ct: "count_threads P s' = count_threads P s" for P by (simp_all add: nthreads_def count_threads_def f)
  have inv: "item_ok s v" for v using ok' by simp
  have held: "count_threads (holds_item w) s = 0" "queued w s + posted w s = 1"
    using inv [of w] busy c True by (auto simp: item_ok_def item_inv_def places_def cancelling_def)
  have pv: "queued v s' = (if v = w then 0 else queued v s)" "posted v s' = (if v = w then 0 else posted v s)"
    "cancelling v s' = (if v = w then 1 else cancelling v s)" "dones v s' = dones v s" for v
    using held(2) c by (auto simp: queued_def posted_def cancelling_def dones_def f count_list_remove1)
  have pl: "places v s' = places v s" for v
    using held c by (auto simp: places_def pv ct) (simp_all add: cancelling_def)
  have "threads_ok s'" using ok' by (auto simp: threads_ok_def exited_count ct f n slow_work_thread_threshold_def)
  moreover have "slow_ok s'" using ok' by (auto simp: slow_ok_def f count_list_remove1 dest: notin_set_remove1 set_mp [OF set_remove1_subset])
  moreover have "loops_ok s'" using ok' by (auto simp: loops_ok_def f dest: set_mp [OF set_remove1_subset] remove1_nonempty)
  moreover have "nothing_to_run s \<Longrightarrow> nothing_to_run s'" by (auto simp: nothing_to_run_def f slow_work_thread_threshold_def n)
  then have "wake_ok s'" using ok' by (auto simp: wake_ok_def awake_def f)
  moreover have "\<forall>v. item_ok s' v"
  proof
    fix v
    show "item_ok s' v"
      using inv [of v] held True c by (cases "v = w") (auto simp: item_ok_def pv ct f item_inv_def cancelling_def)
  qed
  moreover have "reqs_ok s' = reqs_ok s" by (rule reqs_same) (simp_all add: f pl)
  ultimately show ?thesis using ok' by (simp add: pool_ok_def)
qed

lemma cancel_end_ok:
  assumes ok: "pool_ok s" and c: "loop_cancelling s l = Some w"
  shows "pool_ok (cancel_end l w s)"
proof -
  note ok' = ok [unfolded pool_ok_def]
  define s' where "s' = cancel_end l w s"
  have l: "w_loop s w = l" using ok' c by (auto simp: loops_ok_def)
  have f: "threads s' = threads s" "idle_threads s' = idle_threads s" "slow_io_work_running s' = slow_io_work_running s"
    "wq s' = wq s" "slow_io_pending_wq s' = slow_io_pending_wq s" "linked s' = (linked s)(Item w := True)"
    "w_loop s' = w_loop s" "w_work s' = (w_work s)(w := Fn_cancelled)" "w_after s' = w_after s"
    "loop_wq s' = (loop_wq s)(l := loop_wq s l @ [w])" "loop_moved s' = loop_moved s" "loop_cancelling s' = (loop_cancelling s)(l := None)"
    "loop_async s' = (loop_async s)(l := True)" "active_reqs s' = active_reqs s"
    "log_submit s' = log_submit s" "log_work s' = log_work s" "log_done s' = log_done s"
    by (simp_all add: s'_def cancel_end_def)
  have n: "nthreads s' = nthreads s" and ct: "count_threads P s' = count_threads P s" for P by (simp_all add: nthreads_def count_threads_def f)
  have inv: "item_ok s v" for v using ok' by simp
  have w: "cancelling w s = 1" using l c by (simp add: cancelling_def)
  have pv: "queued v s' = queued v s" "posted v s' = posted v s + of_bool (v = w)" "cancelling v s = cancelling v s' + of_bool (v = w)"
    "dones v s' = dones v s" for v
    using l c by (auto simp: queued_def posted_def cancelling_def dones_def f)
  have pl: "places v s' = places v s" for v by (simp add: places_def pv ct)
  have "threads_ok s'" using ok' by (simp add: threads_ok_def exited_count ct f n slow_work_thread_threshold_def)
  moreover have "slow_ok s'" using ok' by (simp add: slow_ok_def f)
  moreover have "loops_ok s'" using ok' l by (auto simp: loops_ok_def f)
  moreover have "wake_ok s'" using ok' by (simp add: wake_ok_def awake_def f nothing_to_run_def slow_work_thread_threshold_def n)
  moreover have "\<forall>v. item_ok s' v"
  proof
    fix v
    show "item_ok s' v"
      using inv [of v] w pv(3) [of v] by (cases "v = w") (auto simp: item_ok_def pv(1,2,4) ct f item_inv_def)
  qed
  moreover have "reqs_ok s' = reqs_ok s" by (rule reqs_same) (simp_all add: f pl)
  ultimately show ?thesis using ok' by (simp add: pool_ok_def s'_def)
qed

lemma work_done_begin_ok:
  assumes ok: "pool_ok s" and m: "loop_moved s l = []"
  shows "pool_ok (work_done_begin l s)"
proof -
  note ok' = ok [unfolded pool_ok_def]
  define s' where "s' = work_done_begin l s"
  have f: "threads s' = threads s" "idle_threads s' = idle_threads s" "slow_io_work_running s' = slow_io_work_running s"
    "wq s' = wq s" "slow_io_pending_wq s' = slow_io_pending_wq s" "linked s' = linked s"
    "w_loop s' = w_loop s" "w_work s' = w_work s" "w_after s' = w_after s"
    "loop_wq s' = (loop_wq s)(l := [])" "loop_moved s' = (loop_moved s)(l := loop_wq s l)" "loop_cancelling s' = loop_cancelling s"
    "loop_async s' = (loop_async s)(l := False)" "active_reqs s' = active_reqs s"
    "log_submit s' = log_submit s" "log_work s' = log_work s" "log_done s' = log_done s"
    by (simp_all add: s'_def work_done_begin_def)
  have n: "nthreads s' = nthreads s" and ct: "count_threads P s' = count_threads P s" for P by (simp_all add: nthreads_def count_threads_def f)
  have pv: "queued v s' = queued v s" "posted v s' = posted v s" "cancelling v s' = cancelling v s" "dones v s' = dones v s" for v
    using m by (simp_all add: queued_def posted_def cancelling_def dones_def f)
  have "threads_ok s' = threads_ok s" "slow_ok s' = slow_ok s" "wake_ok s' = wake_ok s"
    by (simp_all add: threads_ok_def exited_count ct f n slow_work_thread_threshold_def slow_ok_def wake_ok_def awake_def nothing_to_run_def)
  moreover have "loops_ok s'" using ok' by (auto simp: loops_ok_def f)
  moreover have "item_ok s' v = item_ok s v" for v by (simp add: item_ok_def pv ct f)
  moreover have "reqs_ok s' = reqs_ok s" by (rule reqs_same) (simp_all add: f places_def pv ct)
  ultimately show ?thesis using ok' by (simp add: pool_ok_def s'_def)
qed

lemma work_done_next_ok:
  assumes ok: "pool_ok s" and m: "loop_moved s l = w # rest"
  shows "\<exists>s'. work_done_next l s = Some s' \<and> pool_ok s'"
proof -
  note ok' = ok [unfolded pool_ok_def]
  define err where "err = (if w_work s w = Fn_cancelled then UV_ECANCELED else 0)"
  have l: "w_loop s w = l" using ok' m by (auto simp: loops_ok_def)
  have inv: "item_ok s v" for v using ok' by simp
  have p: "posted w s = 1" "places w s = 1" "w_work s w = Fn_null \<or> w_work s w = Fn_cancelled"
    using inv [of w] m l by (cases "w_work s w"; auto simp: item_ok_def item_inv_def posted_def places_def)+
  have r: "w \<in> reqs_of l s \<longleftrightarrow> w_after s w \<noteq> None" using p(2) l by (simp add: reqs_of_def)
  have card: "0 < active_reqs s l" if "w_after s w \<noteq> None"
    using ok' r that by (auto simp: reqs_ok_def card_gt_0_iff)
  define af where "af = (case w_after s w of Some True \<Rightarrow> log_after s @ [(w, err)] | _ \<Rightarrow> log_after s)"
  define s' where "s' = s\<lparr>loop_moved := (loop_moved s)(l := rest), log_done := log_done s @ [(w, err)],
    active_reqs := (active_reqs s)(l := active_reqs s l - of_bool (w_after s w \<noteq> None)), log_after := af\<rparr>"
  have eq: "work_done_next l s = Some s'"
    using card m l by (cases "w_after s w") (auto simp: work_done_next_def uv__queue_done_def Let_def s'_def err_def af_def)
  have f: "threads s' = threads s" "idle_threads s' = idle_threads s" "slow_io_work_running s' = slow_io_work_running s"
    "wq s' = wq s" "slow_io_pending_wq s' = slow_io_pending_wq s" "linked s' = linked s"
    "w_loop s' = w_loop s" "w_work s' = w_work s" "w_after s' = w_after s"
    "loop_wq s' = loop_wq s" "loop_moved s' = (loop_moved s)(l := rest)" "loop_cancelling s' = loop_cancelling s"
    "loop_async s' = loop_async s" "active_reqs s' = (active_reqs s)(l := active_reqs s l - of_bool (w_after s w \<noteq> None))"
    "log_submit s' = log_submit s" "log_work s' = log_work s" "log_done s' = log_done s @ [(w, err)]"
    by (simp_all add: s'_def)
  have n: "nthreads s' = nthreads s" and ct: "count_threads P s' = count_threads P s" for P by (simp_all add: nthreads_def count_threads_def f)
  have pv: "queued v s' = queued v s" "posted v s = posted v s' + of_bool (v = w)" "cancelling v s' = cancelling v s"
    "dones v s' = dones v s + of_bool (v = w)" for v
    using m l by (auto simp: queued_def posted_def cancelling_def dones_def f)
  have pl: "places v s = places v s' + of_bool (v = w)" for v by (simp add: places_def pv ct)
  have "threads_ok s' = threads_ok s" "slow_ok s' = slow_ok s" "wake_ok s' = wake_ok s"
    by (simp_all add: threads_ok_def exited_count ct f n slow_work_thread_threshold_def slow_ok_def wake_ok_def awake_def nothing_to_run_def)
  moreover have "loops_ok s'" using ok' m by (auto simp: loops_ok_def f)
  moreover have "\<forall>v. item_ok s' v"
  proof
    fix v
    show "item_ok s' v"
      using inv [of v] p pv(2) [of v] by (cases "v = w") (auto simp: item_ok_def pv(1,3,4) ct f item_inv_def err_def UV_ECANCELED_def)
  qed
  moreover have "reqs_ok s'" unfolding reqs_ok_def
  proof
    fix k
    have k: "finite (reqs_of k s)" "active_reqs s k = int (card (reqs_of k s))" using ok' by (simp_all add: reqs_ok_def)
    have eq: "reqs_of k s' = reqs_of k s - {w}" using p(2) pl [of w] by (auto simp: reqs_of_def pl f)
    have "w \<in> reqs_of k s \<longleftrightarrow> k = l \<and> w_after s w \<noteq> None" using r l by (auto simp: reqs_of_def)
    then have "int (card (reqs_of k s')) = int (card (reqs_of k s)) - of_bool (k = l \<and> w_after s w \<noteq> None)"
      unfolding eq using card_Suc_Diff1 [OF k(1), of w] by (cases "w \<in> reqs_of k s") auto
    then show "finite (reqs_of k s') \<and> active_reqs s' k = int (card (reqs_of k s'))"
      using k eq by (cases "k = l") (auto simp: f)
  qed
  ultimately show ?thesis using ok' eq by (simp add: pool_ok_def)
qed

lemma cleanup_ok:
  assumes ok: "pool_ok s"
  shows "pool_ok (uv__threadpool_cleanup ch s)"
proof -
  let ?s = "insert_wq Exit_msg s"
  note ok' = ok [unfolded pool_ok_def]
  have "threads_ok ?s" "slow_ok ?s" "loops_ok ?s" "item_ok ?s v = item_ok s v" for v
    using ok' by (auto simp: threads_ok_def slow_ok_def loops_ok_def item_ok_def insert_wq_def counts nthreads_def slow_work_thread_threshold_def)
  moreover have "reqs_ok ?s = reqs_ok s" by (rule reqs_same) (simp_all add: insert_wq_def counts)
  ultimately have "pool_ok0 ?s" using ok' by (simp add: pool_ok0_def)
  then show ?thesis using ok signal_if_idle_ok by (simp add: uv__threadpool_cleanup_def post_def)
qed

lemma join_ok:
  assumes ok: "pool_ok s" and x: "Exit_msg \<in> set (wq s)" "\<forall>x\<in>set (threads s). x = Exited"
  shows "pool_ok (cleanup_join s)"
proof -
  let ?s = "cleanup_join s"
  note ok' = ok [unfolded pool_ok_def]
  have c: "count_threads P s = 0" if "\<not> P Exited" for P using x(2) that by (auto simp: count_threads_def filter_empty_conv)
  have c': "count_threads P ?s = 0" for P by (simp add: count_threads_def cleanup_join_def)
  have pv: "queued v ?s = queued v s" "posted v ?s = posted v s" "cancelling v ?s = cancelling v s" "dones v ?s = dones v s" for v
    by (simp_all add: queued_def posted_def cancelling_def dones_def cleanup_join_def)
  have "threads_ok ?s" using ok' x(1) by (simp add: threads_ok_def c' c is_idle_def) (simp add: cleanup_join_def nthreads_def slow_work_thread_threshold_def)
  moreover have "slow_ok ?s = slow_ok s" "loops_ok ?s = loops_ok s" "wake_ok ?s" by (simp_all add: slow_ok_def loops_ok_def wake_ok_def cleanup_join_def)
  moreover have "item_ok ?s v = item_ok s v" for v by (simp add: item_ok_def c c' pv) (simp add: cleanup_join_def)
  moreover have "places v ?s = places v s" for v by (simp add: places_def c c' pv)
  then have "reqs_ok ?s = reqs_ok s" by (rule reqs_same) (simp_all add: cleanup_join_def)
  ultimately show ?thesis using ok' by (simp add: pool_ok_def)
qed

subsection \<open>Every reachable state\<close>

lemma pool_step_ok: "pool_step s s' \<Longrightarrow> pool_ok s \<Longrightarrow> pool_ok s'"
proof (induction rule: pool_step.induct)
  case (step_worker t s ch s')
  then show ?case using worker_progress [of s t ch] by (auto simp: progress_def)
next
  case (step_submit w s l ch kind)
  then show ?case using post_ok [of s w ch l kind None] by simp
next
  case (step_queue_work w s l ch cb after rc s')
  then show ?case using post_ok [of s w ch l UV__WORK_CPU "Some after"]
    by (auto simp: uv_queue_work_def Let_def split: if_splits)
next
  case (step_cancel_begin w s ty rc s')
  then show ?case using cancel_begin_ok [of s w rc s'] by (auto simp: uv_cancel_def split: if_splits)
next
  case (step_done_next s l s')
  then show ?case using work_done_next_ok [of s l] by (cases "loop_moved s l") auto
qed (simp_all add: spurious_ok cancel_end_ok work_done_begin_ok cleanup_ok join_ok)

lemma reachable_ok: "pool_reachable s \<Longrightarrow> pool_ok s"
  by (induction rule: pool_reachable.induct) (simp_all add: init_ok pool_step_ok)

subsection \<open>The contract of the pool\<close>

text \<open>All places an item in flight can be in when the workers have nothing more to do.\<close>

definition drained :: "pool \<Rightarrow> bool" where
  "drained s \<longleftrightarrow> wq s = [] \<and> slow_io_pending_wq s = [] \<and> slow_io_work_running s = 0 \<and> (\<forall>x\<in>set (threads s). x = Waiting)"

lemma stopped_drained:
  assumes ok: "pool_ok s" and e: "Exit_msg \<notin> set (wq s)" and stop: "\<And>t. \<not> enabled t s"
  shows "drained s"
proof -
  have th: "threads_ok s" and sl: "slow_ok s" and wk: "wake_ok s" using ok by (simp_all add: pool_ok_def)
  have x: "x = Waiting" if "x \<in> set (threads s)" for x
    using that stop th e by (auto simp: threads_ok_def enabled_def nthreads_def in_set_conv_nth)
  have "nthreads s \<noteq> 0" using th e by (auto simp: threads_ok_def)
  then obtain y where "y \<in> set (threads s)" by (cases "threads s") (auto simp: nthreads_def)
  then have "Waiting \<in> set (threads s)" using x by metis
  moreover have "\<not> awake s" using x by (auto simp: awake_def)
  ultimately have n: "nothing_to_run s" using wk by (simp add: wake_ok_def)
  have "count_threads is_slow s = 0" by (fastforce simp: count_threads_def filter_empty_conv dest: x)
  then have r: "slow_io_work_running s = 0" using th by (simp add: threads_ok_def)
  moreover have "slow_work_thread_threshold s > 0" using \<open>nthreads s \<noteq> 0\<close> by (simp add: slow_work_thread_threshold_def)
  ultimately have q: "wq s = []" using n by (simp add: nothing_to_run_def)
  then have "slow_io_pending_wq s = []" using sl by (cases "slow_io_pending_wq s") (auto simp: slow_ok_def)
  then show ?thesis using q r x by (simp add: drained_def)
qed

lemma run_progress: "worker_run n s s' \<Longrightarrow> pool_ok s \<Longrightarrow> pool_ok s' \<and> n + work_left s' \<le> work_left s \<and> (Exit_msg \<in> set (wq s') \<longleftrightarrow> Exit_msg \<in> set (wq s))"
proof (induction rule: worker_run.induct)
  case (run_step n s s' t ch s'')
  then have "progress s' s''" using worker_progress [of s' t ch] by auto
  then show ?case using run_step.IH run_step.prems by (auto simp: progress_def)
qed simp

text \<open>
  C26: no work is lost and none is done twice. In every reachable state of any number of loops
  and workers, a submitted item is in exactly one place or has been finished; the function of an
  item is called once for every completion without an error, and not at all for a cancelled one.
\<close>

theorem pool_exactly_once:
  assumes "pool_reachable s"
  shows "places w s \<le> 1 \<and> count_list (log_submit s) w = places w s + dones w s
    \<and> (if places w s = 0 then count_list (log_work s) w = count_list (log_done s) (w, 0) else True)"
proof -
  have "item_ok s w" using reachable_ok [OF assms] by (simp add: pool_ok_def)
  then show ?thesis by (simp add: item_ok_def item_inv_def places_def)
qed

text \<open>One worker and one request: submitted, taken, run and handed back, finished.\<close>

definition sample_submitted :: pool where
  "sample_submitted = snd (uv_queue_work 0 0 5 True True (init_threads (Some 1) True))"

definition sample_taken :: pool where "sample_taken = the (worker 0 0 sample_submitted)"

lemma sample_submitted_reachable: "pool_reachable sample_submitted"
proof (rule reach_step [OF reach_init [of "Some 1" True]])
  show "pool_step (init_threads (Some 1) True) sample_submitted"
    by (rule step_queue_work [of 5 "init_threads (Some 1) True" 0 0 True True 0])
      (simp_all add: sample_submitted_def init_threads_def places_def queued_def posted_def cancelling_def count_threads_def
        nthreads_of_def uv_queue_work_def)
qed

lemma sample_take: "worker 0 0 sample_submitted = Some sample_taken" "enabled 0 sample_submitted"
proof -
  have ok: "pool_ok sample_submitted" by (rule reachable_ok [OF sample_submitted_reachable])
  show e: "enabled 0 sample_submitted"
    by (simp add: sample_submitted_def init_threads_def uv_queue_work_def uv__work_submit_def post_def signal_if_idle_def
        insert_wq_def enabled_def nthreads_def nthreads_of_def)
  show "worker 0 0 sample_submitted = Some sample_taken" using worker_progress [OF ok e, of 0] by (auto simp: sample_taken_def)
qed

lemma pool_exactly_once_witness:
  "places 5 sample_submitted \<le> 1 \<and> count_list (log_submit sample_submitted) 5 = places 5 sample_submitted + dones 5 sample_submitted
    \<and> (if places 5 sample_submitted = 0 then count_list (log_work sample_submitted) 5 = count_list (log_done sample_submitted) (5, 0) else True)"
  by (rule pool_exactly_once [OF sample_submitted_reachable])

text \<open>
  C27: every reachable state of the pool is well formed. The two counters are the numbers of the threads
  they count; slow work takes at most half of the workers, rounded up. Slow work that waits has its one message in
  the queue, a loop with finished work has been woken for it, and a loop counts the requests it has in the pool.
  No step of the pool fails: an enabled worker can always go on, calling neither a null pointer nor the function
  of a cancelled item, and so can a loop that has finished work to report.
\<close>

theorem pool_safe:
  assumes "pool_reachable s"
  shows "idle_threads s = int (count_threads is_idle s) \<and> slow_io_work_running s = int (count_threads is_slow s)
    \<and> slow_io_work_running s \<le> (int (nthreads s) + 1) div 2
    \<and> count_list (wq s) Run_slow \<le> 1 \<and> (if slow_io_pending_wq s \<noteq> [] then Run_slow \<in> set (wq s) else True)
    \<and> (if loop_wq s l \<noteq> [] then loop_async s l else True) \<and> active_reqs s l = int (card (reqs_of l s))
    \<and> (if enabled t s then \<exists>s'. worker ch t s = Some s' else True)
    \<and> (if loop_moved s l \<noteq> [] then \<exists>s'. work_done_next l s = Some s' else True)"
proof -
  have ok: "pool_ok s" by (rule reachable_ok [OF assms])
  then have p: "threads_ok s" "slow_ok s" "loops_ok s" "reqs_ok s" by (simp_all add: pool_ok_def)
  have "Run_slow \<in> set (wq s)" if "slow_io_pending_wq s \<noteq> []"
    using p(2) that count_list_0_iff [of "wq s" Run_slow] by (auto simp: slow_ok_def)
  moreover have "\<exists>s'. worker ch t s = Some s'" if "enabled t s" using worker_progress [OF ok that] by blast
  moreover have "\<exists>s'. work_done_next l s = Some s'" if "loop_moved s l \<noteq> []"
    using work_done_next_ok [OF ok] that by (cases "loop_moved s l") blast+
  ultimately show ?thesis using p by (simp add: threads_ok_def slow_ok_def loops_ok_def reqs_ok_def slow_work_thread_threshold_def)
qed

lemma pool_safe_witness: "\<exists>s'. worker 0 0 sample_submitted = Some s'"
  using pool_safe [OF sample_submitted_reachable, of 0 0 0] sample_take(2) by simp

text \<open>
  C25: no wake-up is lost. From any reachable state, as long as nobody shuts the pool down, the
  workers left to themselves stop after at most \<open>work_left s\<close> steps, in any order; and where they
  stop, both queues are empty and no worker holds_item an item, so all work submitted has been done or
  cancelled.
\<close>

theorem pool_drains:
  assumes "pool_reachable s" "Exit_msg \<notin> set (wq s)" "worker_run n s s'"
  shows "n \<le> work_left s \<and> (if \<exists>t. enabled t s' then \<exists>t ch s''. worker_run (Suc n) s s'' \<and> worker ch t s' = Some s'' else drained s')"
proof -
  have run: "pool_ok s'" "n + work_left s' \<le> work_left s" "Exit_msg \<notin> set (wq s')"
    using run_progress [OF assms(3) reachable_ok [OF assms(1)]] assms(2) by simp_all
  have "\<exists>t ch s''. worker_run (Suc n) s s'' \<and> worker ch t s' = Some s''" if "enabled t s'" for t
    using worker_progress [OF run(1) that, of 0] worker_run.run_step [OF assms(3) that] by blast
  then show ?thesis using run stopped_drained [OF run(1,3)] by auto
qed

lemma pool_drains_witness: "1 \<le> work_left sample_submitted"
proof -
  have "worker_run (Suc 0) sample_submitted sample_taken" by (rule run_step [OF run_nil sample_take(2,1)])
  moreover have "Exit_msg \<notin> set (wq sample_submitted)"
    by (simp add: sample_submitted_def init_threads_def uv_queue_work_def uv__work_submit_def post_def signal_if_idle_def insert_wq_def)
  ultimately show ?thesis using pool_drains [OF sample_submitted_reachable] by fastforce
qed

end
