(* ===== verification/Cc2530.thy ===== *)
theory Cc2530
  imports Growing_Array
begin

section \<open>The serial link to the ZigBee module\<close>

text \<open>
  \<open>src/sensor/cc2530.cpp\<close>: the thread that cuts the input of the serial port into lines
  ended by CR LF, and the sending of commands. The port is a script: every element answers one
  test \<open>serialDataAvail(fd) > 0\<close>, \<^term>\<open>Quiet\<close> with no, \<^term>\<open>Input ch\<close> with yes, and \<open>ch\<close> is what
  \<open>serialGetchar\<close> then returns, negative for an error. The script's end is the call of \<open>cc2530_exit\<close>.
  A failing \<open>realloc\<close> returns a null pointer, which the code then writes through: \<^const>\<open>None\<close>.
\<close>

definition BUF_INIT_LEN :: nat where "BUF_INIT_LEN = 1024"
definition FIN_1 :: int where "FIN_1 = 0x0d"
definition FIN_2 :: int where "FIN_2 = 0x0a"

definition RECV_STATUS_NONE :: int where "RECV_STATUS_NONE = 0"
definition RECV_STATUS_FIN_1 :: int where "RECV_STATUS_FIN_1 = 1"
definition RECV_STATUS_FIN_2 :: int where "RECV_STATUS_FIN_2 = 2"

datatype serial = Quiet | Input int

record cc2530_buf_t =
  b_base :: "string option"
  b_len :: nat
  b_capacity :: nat

record receiver =
  rc_buf :: cc2530_buf_t
  rc_status :: int
  rc_log :: "string list"

record memory =
  mem_ok :: "nat \<Rightarrow> bool"
  mem_junk :: "nat \<Rightarrow> char"

subsection \<open>Receiving\<close>

definition buf_put :: "memory \<Rightarrow> int \<Rightarrow> cc2530_buf_t \<Rightarrow> cc2530_buf_t option" where
  "buf_put mem ch b = do {
     b \<leftarrow> (if b_len b + 1 \<ge> b_capacity b then do {
            let c = b_capacity b * 2 mod 2 ^ 64;
            base \<leftarrow> b_base b;
            Some (b\<lparr>b_capacity := c, b_base := if mem_ok mem c then Some (block_realloc (mem_junk mem) base c) else None\<rparr>)
          } else Some b);
     base \<leftarrow> b_base b;
     base \<leftarrow> block_write base (int (b_len b)) [char_of ch];
     Some (b\<lparr>b_base := Some base, b_len := b_len b + 1\<rparr>)
   }"

text \<open>
  One character of the inner loop: \<open>(go, rc)\<close>, where \<open>go\<close> is false when the loop is left by
  \<open>break\<close>. The status FIN\_2 falls through both tests and is never met in the loop.
\<close>

definition recv_char :: "memory \<Rightarrow> int \<Rightarrow> receiver \<Rightarrow> (bool \<times> receiver) option" where
  "recv_char mem ch rc =
     (if ch < 0 then Some (False, rc\<lparr>rc_buf := (rc_buf rc)\<lparr>b_len := 0\<rparr>, rc_status := RECV_STATUS_NONE\<rparr>)
      else if rc_status rc = RECV_STATUS_NONE then
        (if ch = FIN_1 then Some (True, rc\<lparr>rc_status := RECV_STATUS_FIN_1\<rparr>)
         else do { b \<leftarrow> buf_put mem ch (rc_buf rc); Some (True, rc\<lparr>rc_buf := b\<rparr>) })
      else if rc_status rc = RECV_STATUS_FIN_1 then
        (if ch \<noteq> FIN_2 then Some (False, rc\<lparr>rc_status := RECV_STATUS_NONE, rc_buf := (rc_buf rc)\<lparr>b_len := 0\<rparr>\<rparr>)
         else Some (False, rc\<lparr>rc_status := RECV_STATUS_FIN_2\<rparr>))
      else Some (True, rc))"

fun recv_inner :: "memory \<Rightarrow> serial list \<Rightarrow> receiver \<Rightarrow> (serial list \<times> receiver) option" where
  "recv_inner mem [] rc = Some ([], rc)"
| "recv_inner mem (Quiet # port) rc = Some (port, rc)"
| "recv_inner mem (Input ch # port) rc = do {
     (go, rc) \<leftarrow> recv_char mem ch rc;
     if go then recv_inner mem port rc else Some (port, rc)
   }"

text \<open>The characters of a string up to its terminating zero; reading behind the block is undefined.\<close>

fun c_string :: "string \<Rightarrow> string option" where
  "c_string [] = None"
| "c_string (c # cs) = (if c = CHR 0x00 then Some [] else map_option ((#) c) (c_string cs))"

text \<open>
  The conversion \<open>%.*s\<close> takes its precision as an \<open>int\<close>; of the \<open>size_t\<close> the code passes it, it gets the lower 32
  bits. A negative precision is as none at all: the string is read up to its zero.
\<close>

definition print_string :: "nat \<Rightarrow> string \<Rightarrow> string option" where
  "print_string len base =
     (let precision = i32 (int len) in
      if precision < 0 then c_string base else Some (takeWhile (\<lambda>c. c \<noteq> CHR 0x00) (take (nat precision) base)))"

text \<open>What follows the inner loop: a finished line is logged when a callback is registered.\<close>

definition recv_flush :: "bool \<Rightarrow> receiver \<Rightarrow> receiver option" where
  "recv_flush registered rc =
     (if rc_status rc = RECV_STATUS_FIN_2 then do {
        log \<leftarrow> (if registered
          then do { base \<leftarrow> b_base (rc_buf rc); str \<leftarrow> print_string (b_len (rc_buf rc)) base; Some (rc_log rc @ [str]) }
          else Some (rc_log rc));
        Some (rc\<lparr>rc_log := log, rc_buf := (rc_buf rc)\<lparr>b_len := 0\<rparr>, rc_status := RECV_STATUS_NONE\<rparr>)
      } else Some rc)"

lemma recv_inner_shorter:
  "recv_inner mem port rc = Some (port', rc') \<Longrightarrow> port \<noteq> [] \<Longrightarrow> length port' < length port"
proof (induction mem port rc arbitrary: port' rc' rule: recv_inner.induct)
  case (3 mem ch port rc)
  obtain go rc1 where c: "recv_char mem ch rc = Some (go, rc1)"
    using "3.prems"(1) by (auto split: bind_splits)
  show ?case
  proof (cases "go \<and> port \<noteq> []")
    case True
    then show ?thesis using "3.IH" [OF c] "3.prems"(1) c by fastforce
  next
    case False
    then show ?thesis using "3.prems"(1) c by (auto split: if_splits)
  qed
qed auto

function recv_outer :: "memory \<Rightarrow> bool \<Rightarrow> serial list \<Rightarrow> receiver \<Rightarrow> receiver option" where
  "recv_outer mem registered port rc =
     (if port = [] then Some rc
      else case recv_inner mem port rc of
        None \<Rightarrow> None
      | Some (port', rc) \<Rightarrow> (case recv_flush registered rc of
          None \<Rightarrow> None
        | Some rc \<Rightarrow> recv_outer mem registered port' rc))"
  by pat_completeness auto
termination
  by (relation "measure (\<lambda>(mem, registered, port, rc). length port)") (auto dest: recv_inner_shorter)

declare recv_outer.simps [simp del]

text \<open>
  The thread, up to the end of its loop; behind it the code frees the buffer and reaches the end of the
  function, which is declared to return a pointer and does not.
\<close>

definition receive_thread :: "memory \<Rightarrow> bool \<Rightarrow> serial list \<Rightarrow> receiver option" where
  "receive_thread mem registered port = recv_outer mem registered port
     \<lparr>rc_buf = \<lparr>b_base = if mem_ok mem BUF_INIT_LEN then Some (map (mem_junk mem) [0..<BUF_INIT_LEN]) else None,
        b_len = 0, b_capacity = BUF_INIT_LEN\<rparr>, rc_status = RECV_STATUS_NONE, rc_log = []\<rparr>"

subsection \<open>Sending\<close>

text \<open>\<open>serialPuts\<close> writes the characters up to the terminating zero.\<close>

definition cc2530_send_string :: "string \<Rightarrow> string \<Rightarrow> string option" where
  "cc2530_send_string str line = do { s \<leftarrow> c_string str; Some (line @ s) }"

definition cc2530_send_buf :: "cc2530_buf_t \<Rightarrow> string \<Rightarrow> string option" where
  "cc2530_send_buf b line = do {
     base \<leftarrow> b_base b;
     base \<leftarrow> block_write base (int (b_len b)) [CHR 0x00];
     s \<leftarrow> c_string base;
     Some (line @ s)
   }"

definition recovery_cmd :: string where
  "recovery_cmd = [CHR 0xFD, CHR 0x01, CHR 0x13, CHR 0xFF, CHR 0x00]"

definition literal :: "string \<Rightarrow> string" where "literal s = s @ [CHR 0x00]"

primrec send_all :: "string list \<Rightarrow> string \<Rightarrow> string option" where
  "send_all [] line = Some line"
| "send_all (s # ss) line = do { line \<leftarrow> cc2530_send_string s line; send_all ss line }"

definition start_cmds :: "string list" where
  "start_cmds = recovery_cmd # map literal [''+++'', ''AT+RESET'', ''+++'', ''AT+DEV=C'', ''AT+PANID=FFFF'']"

definition poll_cmds :: "string list" where
  "poll_cmds = map literal [''AT+DEV=?'', ''AT+JOINCNT=?'', ''AT+GROUP=?'', ''AT+PANID=?'', ''AT+CH=?'', ''AT+NWK=?'',
     ''AT+KEY=11131517191B1D1F10121416181A1C1D'', ''AT+KEY=?'']"

text \<open>The sending thread never ends; \<open>send_thread n\<close> is its output after \<open>n\<close> rounds.\<close>

primrec send_rounds :: "nat \<Rightarrow> string \<Rightarrow> string option" where
  "send_rounds 0 line = Some line"
| "send_rounds (Suc n) line = do { line \<leftarrow> send_all poll_cmds line; send_rounds n line }"

definition send_thread :: "nat \<Rightarrow> string \<Rightarrow> string option" where
  "send_thread n line = do { line \<leftarrow> send_all start_cmds line; send_rounds n line }"

subsection \<open>What the receiver promises\<close>

text \<open>
  The specification reads the characters alone: a line is what stands before CR LF, a CR
  followed by anything else and an error throw the line away.
\<close>

fun lines_of :: "string \<Rightarrow> int list \<Rightarrow> string list" where
  "lines_of acc [] = []"
| "lines_of acc (c # cs) =
     (if c < 0 then lines_of [] cs
      else if c = 13 then (case cs of [] \<Rightarrow> []
        | d # ds \<Rightarrow> if d = 10 then acc # lines_of [] ds else lines_of [] ds)
      else lines_of (acc @ [char_of c]) cs)"

fun inputs :: "serial list \<Rightarrow> int list" where
  "inputs [] = []"
| "inputs (Quiet # port) = inputs port"
| "inputs (Input c # port) = c # inputs port"

definition buf_ok :: "string \<Rightarrow> cc2530_buf_t \<Rightarrow> bool" where
  "buf_ok acc b \<longleftrightarrow> (\<exists>base. b_base b = Some base \<and> length base = b_capacity b \<and> b_len b = length acc \<and>
     length acc < b_capacity b \<and> take (length acc) base = acc)"


text \<open>The lines still to come from the status the receiver is in.\<close>

definition pending :: "int \<Rightarrow> string \<Rightarrow> int list \<Rightarrow> string list" where
  "pending st acc cs =
     (if st = RECV_STATUS_NONE then lines_of acc cs
      else if st = RECV_STATUS_FIN_1 then
        (case cs of [] \<Rightarrow> [] | d # ds \<Rightarrow> if d = 10 then acc # lines_of [] ds else lines_of [] ds)
      else acc # lines_of [] cs)"

lemmas status_defs = RECV_STATUS_NONE_def RECV_STATUS_FIN_1_def RECV_STATUS_FIN_2_def FIN_1_def FIN_2_def

definition reliable :: "memory \<Rightarrow> bool" where
  "reliable mem \<longleftrightarrow> (\<forall>n. mem_ok mem n)"

lemma buf_put_ok:
  assumes b: "buf_ok acc b" and mem: "reliable mem" and len: "length acc < 2 ^ 62"
  shows "\<exists>b'. buf_put mem ch b = Some b' \<and> buf_ok (acc @ [char_of ch]) b'"
proof -
  obtain base where base: "b_base b = Some base" "length base = b_capacity b" "b_len b = length acc"
    "length acc < b_capacity b" "take (length acc) base = acc"
    using b unfolding buf_ok_def by blast
  show ?thesis
  proof (cases "b_len b + 1 \<ge> b_capacity b")
    case True
    let ?c = "b_capacity b * 2"
    have c: "?c mod 2 ^ 64 = ?c" using True base(3) len by simp
    let ?base = "block_realloc (mem_junk mem) base ?c"
    have "take (length acc) ?base = acc" using base(2,4,5) by (simp add: take_block_realloc)
    then show ?thesis
      using True base mem c unfolding buf_put_def reliable_def buf_ok_def
      by (simp add: block_write_def Let_def)
  next
    case False
    then show ?thesis using base unfolding buf_put_def buf_ok_def by (simp add: block_write_def)
  qed
qed

lemma buf_ok_empty: "buf_ok acc b \<Longrightarrow> buf_ok [] (b\<lparr>b_len := 0\<rparr>)"
  by (auto simp: buf_ok_def)

text \<open>One character keeps what is pending.\<close>

lemma recv_char_pending:
  assumes b: "buf_ok acc (rc_buf rc)" and st: "rc_status rc = 0 \<or> rc_status rc = 1" and mem: "reliable mem"
    and len: "length acc < 2 ^ 62"
  shows "\<exists>go rc' acc'. recv_char mem ch rc = Some (go, rc') \<and> buf_ok acc' (rc_buf rc') \<and> length acc' \<le> length acc + 1 \<and>
    pending (rc_status rc') acc' cs = pending (rc_status rc) acc (ch # cs) \<and> rc_log rc' = rc_log rc \<and>
    rc_status rc' \<in> {0, 1, 2} \<and> (go \<longrightarrow> rc_status rc' \<noteq> 2)"
proof -
  consider "ch < 0" | "0 \<le> ch" "rc_status rc = 0" "ch = 13" | "0 \<le> ch" "rc_status rc = 0" "ch \<noteq> 13" | "0 \<le> ch" "rc_status rc = 1"
    using st by linarith
  then show ?thesis
  proof cases
    case 1
    then show ?thesis using st buf_ok_empty [OF b] by (auto simp: recv_char_def pending_def status_defs)
  next
    case 2
    then show ?thesis using b by (auto simp: recv_char_def pending_def status_defs split: list.split)
  next
    case 3
    obtain b' where "buf_put mem ch (rc_buf rc) = Some b'" "buf_ok (acc @ [char_of ch]) b'"
      using buf_put_ok [OF b mem len] by blast
    then show ?thesis using 3 by (auto simp: recv_char_def pending_def status_defs)
  next
    case 4
    then show ?thesis using b buf_ok_empty [OF b] by (cases "ch = 10") (auto simp: recv_char_def pending_def status_defs)
  qed
qed


lemma recv_inner_pending:
  "buf_ok acc (rc_buf rc) \<Longrightarrow> rc_status rc \<in> {0, 1} \<Longrightarrow> reliable mem \<Longrightarrow> length acc + length port < 2 ^ 62 \<Longrightarrow>
    \<exists>port' rc' acc'. recv_inner mem port rc = Some (port', rc') \<and> buf_ok acc' (rc_buf rc') \<and> rc_status rc' \<in> {0, 1, 2} \<and>
      length acc' + length port' \<le> length acc + length port \<and> rc_log rc' = rc_log rc \<and>
      pending (rc_status rc') acc' (inputs port') = pending (rc_status rc) acc (inputs port)"
proof (induction mem port rc arbitrary: acc rule: recv_inner.induct)
  case (1 mem rc)
  then show ?case by auto
next
  case (2 mem port rc)
  then show ?case by (auto intro!: exI [of _ acc])
next
  case (3 mem ch port rc)
  from recv_char_pending [OF "3.prems"(1) _ "3.prems"(3), of ch "inputs port"] "3.prems"(2,4)
  obtain go rc1 acc1 where c: "recv_char mem ch rc = Some (go, rc1)" "buf_ok acc1 (rc_buf rc1)" "length acc1 \<le> length acc + 1"
    "pending (rc_status rc1) acc1 (inputs port) = pending (rc_status rc) acc (ch # inputs port)" "rc_log rc1 = rc_log rc"
    "rc_status rc1 \<in> {0, 1, 2}" "go \<longrightarrow> rc_status rc1 \<noteq> 2" by auto
  show ?case
  proof (cases go)
    case True
    have "length acc1 + length port < 2 ^ 62" using c(3) "3.prems"(4) by simp
    from "3.IH" [OF c(1) refl True c(2) _ "3.prems"(3) this] obtain port' rc' acc' where
      r: "recv_inner mem port rc1 = Some (port', rc')" "buf_ok acc' (rc_buf rc')" "rc_status rc' \<in> {0, 1, 2}"
        "length acc' + length port' \<le> length acc1 + length port" "rc_log rc' = rc_log rc1"
        "pending (rc_status rc') acc' (inputs port') = pending (rc_status rc1) acc1 (inputs port)"
      using c(6,7) True by auto
    have "length acc' + length port' \<le> length acc + length (Input ch # port)" using r(4) c(3) by simp
    then show ?thesis using r c True by auto
  next
    case False
    then show ?thesis using c by (auto intro!: exI [of _ acc1])
  qed
qed

definition logged :: "string list \<Rightarrow> string list" where
  "logged ls = map (takeWhile (\<lambda>c. c \<noteq> CHR 0x00)) ls"

lemma recv_outer_lines:
  "buf_ok acc (rc_buf rc) \<Longrightarrow> rc_status rc \<in> {0, 1} \<Longrightarrow> reliable mem \<Longrightarrow> length acc + length port < 2 ^ 62 \<Longrightarrow>
    \<forall>l\<in>set (pending (rc_status rc) acc (inputs port)). length l < 2 ^ 31 \<Longrightarrow>
    \<exists>rc'. recv_outer mem registered port rc = Some rc' \<and>
      rc_log rc' = rc_log rc @ (if registered then logged (pending (rc_status rc) acc (inputs port)) else [])"
proof (induction "length port" arbitrary: port acc rc rule: less_induct)
  case less
  show ?case
  proof (cases "port = []")
    case True
    then show ?thesis using less.prems(2)
      by (subst recv_outer.simps) (auto simp: pending_def status_defs logged_def)
  next
    case False
    obtain port' rc1 acc1 where i: "recv_inner mem port rc = Some (port', rc1)" "buf_ok acc1 (rc_buf rc1)" "rc_status rc1 \<in> {0, 1, 2}"
      "length acc1 + length port' \<le> length acc + length port" "rc_log rc1 = rc_log rc"
      "pending (rc_status rc1) acc1 (inputs port') = pending (rc_status rc) acc (inputs port)"
      using recv_inner_pending [OF less.prems(1-4)] by blast
    have short: "length port' < length port" using recv_inner_shorter [OF i(1) False] .
    show ?thesis
    proof (cases "rc_status rc1 = 2")
      case True
      let ?rc = "rc1\<lparr>rc_log := rc_log rc1 @ (if registered then [takeWhile (\<lambda>c. c \<noteq> CHR 0x00) acc1] else []),
        rc_buf := (rc_buf rc1)\<lparr>b_len := 0\<rparr>, rc_status := 0\<rparr>"
      have b: "buf_ok [] (rc_buf ?rc)" using buf_ok_empty [OF i(2)] by simp
      have p: "pending (rc_status rc) acc (inputs port) = acc1 # lines_of [] (inputs port')"
        using i(6) True by (simp add: pending_def status_defs)
      then have "length acc1 < 2 ^ 31" "\<forall>l\<in>set (lines_of [] (inputs port')). length l < 2 ^ 31" using less.prems(5) by auto
      then have short1: "i32 (int (length acc1)) = int (length acc1)" and
        lines: "\<forall>l\<in>set (pending (rc_status ?rc) [] (inputs port')). length l < 2 ^ 31"
        by (auto simp: i32_id pending_def status_defs)
      have f: "recv_flush registered rc1 = Some ?rc"
        using True i(2) short1 by (auto simp: recv_flush_def print_string_def buf_ok_def status_defs)
      have "length ([] :: string) + length port' < 2 ^ 62" using i(4) less.prems(4) by simp
      from less.hyps [OF short b _ less.prems(3) this lines] obtain rc' where
        "recv_outer mem registered port' ?rc = Some rc'"
        "rc_log rc' = rc_log ?rc @ (if registered then logged (lines_of [] (inputs port')) else [])"
        by (auto simp: pending_def status_defs)
      then show ?thesis
        using \<open>port \<noteq> []\<close> i(1,5) f p by (subst recv_outer.simps) (auto simp: logged_def)
    next
      case False
      then have f: "recv_flush registered rc1 = Some rc1" by (simp add: recv_flush_def status_defs)
      have st: "rc_status rc1 \<in> {0, 1}" using False i(3) by simp
      have "length acc1 + length port' < 2 ^ 62" using i(4) less.prems(4) by simp
      from less.hyps [OF short i(2) st less.prems(3) this] less.prems(5) show ?thesis
        using \<open>port \<noteq> []\<close> i f by (subst recv_outer.simps) auto
    qed
  qed
qed

subsection \<open>Properties\<close>

text \<open>
  C35: the receiving thread refines the cutting of the characters into lines. With memory for its buffer and
  lines shorter than \<open>2 ^ 31\<close> characters, however the characters arrive, in bursts or one by one, the thread
  touches no memory outside its buffer and logs exactly the lines ended by CR LF, in order, each
  up to its first zero character, if a callback is registered, and nothing if none is. (A longer line is
  printed with a negative precision, up to a zero that the buffer need not have.)
\<close>

theorem receive_thread_refines:
  assumes "reliable mem" and "length port < 2 ^ 62" and "\<forall>l\<in>set (lines_of [] (inputs port)). length l < 2 ^ 31"
  shows "\<exists>rc. receive_thread mem registered port = Some rc \<and>
    rc_log rc = (if registered then logged (lines_of [] (inputs port)) else [])"
proof -
  have b: "buf_ok [] \<lparr>b_base = Some (map (mem_junk mem) [0..<BUF_INIT_LEN]), b_len = 0, b_capacity = BUF_INIT_LEN\<rparr>"
    by (simp add: buf_ok_def BUF_INIT_LEN_def)
  let ?rc = "\<lparr>rc_buf = \<lparr>b_base = Some (map (mem_junk mem) [0..<BUF_INIT_LEN]), b_len = 0, b_capacity = BUF_INIT_LEN\<rparr>,
    rc_status = 0, rc_log = []\<rparr>"
  have "pending (rc_status ?rc) [] (inputs port) = lines_of [] (inputs port)" by (simp add: pending_def status_defs)
  then show ?thesis using recv_outer_lines [of "[]" ?rc mem port registered] b assms
    by (cases registered) (simp_all add: receive_thread_def reliable_def status_defs)
qed

theorem receive_thread_refines_witness:
  "\<exists>rc. receive_thread \<lparr>mem_ok = (\<lambda>_. True), mem_junk = (\<lambda>_. CHR 0x00)\<rparr> True
      [Input 79, Quiet, Input 75, Input 13, Quiet, Input 10, Input 88, Input 13, Input 88, Input 65, Input 13, Input 10] = Some rc \<and>
    rc_log rc = [''OK'', ''A'']"
proof -
  have "reliable \<lparr>mem_ok = (\<lambda>_. True), mem_junk = (\<lambda>_. CHR 0x00)\<rparr>" by (simp add: reliable_def)
  moreover have "char_of (79 :: int) = CHR ''O''" "char_of (75 :: int) = CHR ''K''" "char_of (65 :: int) = CHR ''A''"
    by (simp_all add: char_of_eq_iff)
  ultimately show ?thesis using receive_thread_refines [of "\<lparr>mem_ok = (\<lambda>_. True), mem_junk = (\<lambda>_. CHR 0x00)\<rparr>"
    "[Input 79, Quiet, Input 75, Input 13, Quiet, Input 10, Input 88, Input 13, Input 88, Input 65, Input 13, Input 10]" True]
    by (simp add: logged_def)
qed

text \<open>
  Of the five bytes of the recovery command the module receives four: the command is sent
  as a string, and its last byte, a zero, ends the string. The sending of a buffer that is
  full writes behind its block.
\<close>

theorem recovery_cmd_cut_short:
  "cc2530_send_string recovery_cmd line = Some (line @ [CHR 0xFD, CHR 0x01, CHR 0x13, CHR 0xFF]) \<and>
    cc2530_send_buf \<lparr>b_base = Some base, b_len = length base, b_capacity = length base\<rparr> line = None"
  by (simp add: cc2530_send_string_def recovery_cmd_def cc2530_send_buf_def block_write_def)

end
