(* ===== verification/Gateway_Devices.thy ===== *)
theory Gateway_Devices
  imports Rest_Api
begin

section \<open>Devices, the command service and the start of the gateway\<close>

text \<open>
  The device table of \<open>src/devices/DeviceMgr.cpp\<close>, the light of
  \<open>src/devices/light/SimpleLight.cpp\<close>, the UDP command service of \<open>src/src/CmdService.cpp\<close>,
  \<open>src/src/Log.cpp\<close> and \<open>main\<close>. The JSON library is the argument \<open>parse\<close> (an exception of the
  library is \<^const>\<open>None\<close>); of a value the code distinguishes strings, objects and the rest.
  Calling a method through a null pointer, freeing static memory, and reaching the end of a function that is
  declared to return a value and does not, are undefined in C++ and \<^const>\<open>None\<close> here.
\<close>

datatype MODEL_TYPE = SIMPLE_LIGHT | SIMPLE_SWITCH

datatype json = JString string | JObject "(string \<times> json) list" | JOther

record Device =
  d_name :: string
  d_sid :: string
  d_type :: MODEL_TYPE

record gateway =
  g_devices :: "string \<Rightarrow> Device option"
  g_log :: "string list"
  g_udp_open :: bool

definition zlog_message :: "string \<Rightarrow> gateway \<Rightarrow> gateway" where
  "zlog_message m gw = gw\<lparr>g_log := g_log gw @ [m]\<rparr>"

subsection \<open>The device manager\<close>

definition FindDevice :: "string \<Rightarrow> gateway \<Rightarrow> Device option" where
  "FindDevice sid gw = g_devices gw sid"

definition CreateDevice :: "MODEL_TYPE \<Rightarrow> string \<Rightarrow> string \<Rightarrow> gateway \<Rightarrow> Device option \<times> gateway" where
  "CreateDevice type name sid gw =
     (if FindDevice sid gw \<noteq> None then (None, gw)
      else let device = (case type of
             SIMPLE_LIGHT \<Rightarrow> Some \<lparr>d_name = name, d_sid = sid, d_type = type\<rparr>
           | SIMPLE_SWITCH \<Rightarrow> None)
        in (device, if device \<noteq> None then gw\<lparr>g_devices := (g_devices gw)(sid := device)\<rparr> else gw))"

definition DelDevice :: "string \<Rightarrow> gateway \<Rightarrow> int \<times> gateway" where
  "DelDevice sid gw = (if g_devices gw sid \<noteq> None then (1, gw\<lparr>g_devices := (g_devices gw)(sid := None)\<rparr>) else (0, gw))"

definition test_sid :: string where "test_sid = ''0x0017880106117ff9''"

definition DeviceManager_Start :: "gateway \<Rightarrow> int \<times> gateway" where
  "DeviceManager_Start gw = (0, snd (CreateDevice SIMPLE_LIGHT ''test'' test_sid gw))"

definition DeviceManager_Stop :: "gateway \<Rightarrow> int \<times> gateway" where
  "DeviceManager_Stop gw = (0, gw)"

subsection \<open>JSON values and the light\<close>

definition is_object :: "json \<Rightarrow> bool" where
  "is_object j = (case j of JObject _ \<Rightarrow> True | _ \<Rightarrow> False)"

definition member :: "json \<Rightarrow> string \<Rightarrow> json option" where
  "member j k = (case j of JObject kvs \<Rightarrow> map_of kvs k | _ \<Rightarrow> None)"

text \<open>\<open>j.contains(k) && j[k].is_string()\<close> with \<open>j[k].get_to(s)\<close>.\<close>

definition string_member :: "json \<Rightarrow> string \<Rightarrow> string option" where
  "string_member j k = (case member j k of Some (JString s) \<Rightarrow> Some s | _ \<Rightarrow> None)"

text \<open>The closing brace of a function with a result that has no \<open>return\<close>, reached in the state \<open>gw\<close>.\<close>

definition flow_off_end :: "gateway \<Rightarrow> gateway option" where
  "flow_off_end gw = None"

definition LightDevice_SetCommand :: "json \<Rightarrow> gateway \<Rightarrow> gateway option" where
  "LightDevice_SetCommand cmd gw = flow_off_end (case string_member cmd ''state'' of
     None \<Rightarrow> gw
   | Some state \<Rightarrow> if state = ''ON'' then zlog_message ''LEN ON'' gw else zlog_message ''LEN OFF'' gw)"

definition LightDevice_GetCommand :: "json \<Rightarrow> gateway \<Rightarrow> gateway option" where
  "LightDevice_GetCommand cmd gw = flow_off_end gw"

definition LightDevice_GetRegisterInfo :: "json \<Rightarrow> int \<times> json" where
  "LightDevice_GetRegisterInfo info = (0, JObject [(''date_code'', JString ''20200706'')])"

subsection \<open>The command service\<close>

record uv_buf =
  ub_static :: bool
  ub_base :: string
  ub_len :: nat

definition slab_size :: nat where "slab_size = 65536"

definition alloc_buffer :: uv_buf where
  "alloc_buffer = \<lparr>ub_static = True, ub_base = replicate slab_size (CHR 0x00), ub_len = slab_size\<rparr>"

definition uv_free :: "uv_buf \<Rightarrow> unit option" where
  "uv_free b = (if ub_static b then None else Some ())"

definition service_command :: "json \<Rightarrow> gateway \<Rightarrow> gateway option" where
  "service_command jsonobj gw =
     (if \<not> is_object jsonobj then Some gw
      else case string_member jsonobj ''cmd'' of
        None \<Rightarrow> Some gw
      | Some cmd \<Rightarrow>
          if cmd = ''set'' then
            (let sid = (case string_member jsonobj ''sid'' of None \<Rightarrow> [] | Some s \<Rightarrow> s) in
             case member jsonobj ''data'' of
               None \<Rightarrow> Some gw
             | Some data \<Rightarrow> if is_object data
                 then (case FindDevice sid gw of None \<Rightarrow> None | Some device \<Rightarrow> LightDevice_SetCommand data gw)
                 else Some gw)
          else Some gw)"

definition service_on_read ::
  "(string \<Rightarrow> json option) \<Rightarrow> (int \<Rightarrow> string) \<Rightarrow> int \<Rightarrow> uv_buf \<Rightarrow> gateway \<Rightarrow> gateway option" where
  "service_on_read parse uv_err_name nread buf gw =
     (if nread < 0 then do {
        let gw = zlog_message (''read error '' @ uv_err_name nread) gw;
        let gw = gw\<lparr>g_udp_open := False\<rparr>;
        _ \<leftarrow> uv_free buf;
        Some gw
      }
      else if nread = 0 then Some gw
      else case parse (take (ub_len buf) (ub_base buf)) of
        None \<Rightarrow> Some gw
      | Some jsonobj \<Rightarrow> service_command jsonobj gw)"

definition service_cron :: "gateway \<Rightarrow> gateway" where
  "service_cron gw = gw"

text \<open>A datagram: the library asks for a buffer, copies the bytes that fit, and reports them.\<close>

definition datagram :: "(string \<Rightarrow> json option) \<Rightarrow> (int \<Rightarrow> string) \<Rightarrow> string \<Rightarrow> gateway \<Rightarrow> gateway option" where
  "datagram parse err bs gw =
     (let b = alloc_buffer; n = min (length bs) slab_size
      in service_on_read parse err (int n) (b\<lparr>ub_base := take n bs @ drop n (ub_base b)\<rparr>) gw)"

subsection \<open>The start\<close>

datatype call = Zlog_init | Zlog_get_category | Zlog_fini | Print string | Log_error string | Log_info string
  | Wiring_pi_setup | Restapi_init | Device_start | Udp_bind nat | Udp_recv_start | Timer_start nat nat | Uv_run

text \<open>\<open>(result, calls made, g_log is set)\<close>.\<close>

definition log_init :: "int \<Rightarrow> bool \<Rightarrow> int \<times> call list \<times> bool" where
  "log_init zlog_init_result category =
     (if zlog_init_result \<noteq> 0 then (- 1, [Zlog_init, Print ''init failed''], False)
      else if \<not> category then (- 1, [Zlog_init, Zlog_get_category, Print ''get cat fail'', Zlog_fini], False)
      else (0, [Zlog_init, Zlog_get_category], True))"

definition log_exit :: "int \<times> call list" where
  "log_exit = (0, [Zlog_fini])"

definition GATEWAY_PORT :: nat where "GATEWAY_PORT = 8080"

record start_results =
  r_zlog_init :: int
  r_category :: bool
  r_wiring :: int
  r_pthread :: int
  r_recv_start :: int

text \<open>\<open>restapi_exit\<close> is empty and declared to return an \<open>int\<close>.\<close>

definition restapi_exit :: "int option" where
  "restapi_exit = None"

text \<open>The result (\<^const>\<open>None\<close> when it is undefined), the calls made up to then and the gateway.\<close>

definition gateway_main :: "start_results \<Rightarrow> gateway \<Rightarrow> int option \<times> call list \<times> gateway" where
  "gateway_main r gw =
     (let (res, calls, logging) = log_init (r_zlog_init r) (r_category r) in
      if res \<noteq> 0 then (Some (- 1), calls @ [Print ''log init error.''], gw)
      else let calls = calls @ [Wiring_pi_setup] in
      if r_wiring r \<noteq> 0 then (Some (- 1), calls @ [Log_error ''wiringPi init error.''], gw)
      else let calls = calls @ [Restapi_init] in
      if restapi_init (r_pthread r) \<noteq> 0 then (Some (- 1), calls @ [Log_error ''restapi init error.''], gw)
      else let (res, gw) = DeviceManager_Start gw; calls = calls @ [Device_start] in
      if res \<noteq> 0 then (Some (- 1), calls @ [Log_error ''device init error.''], gw)
      else let calls = calls @ [Udp_bind GATEWAY_PORT, Udp_recv_start] in
      if r_recv_start r \<noteq> 0 then (Some (- 1), calls @ [Log_error ''udp service start error.''], gw)
      else let calls = calls @ [Timer_start 200 0, Log_info ''SnoopyGateway init success.'', Uv_run,
             Log_info ''SnoopyGateway will exit.''];
           gw = gw\<lparr>g_udp_open := True\<rparr> in
      case restapi_exit of
        None \<Rightarrow> (None, calls, gw)
      | Some _ \<Rightarrow> (Some 0, calls @ snd log_exit, gw))"

subsection \<open>Properties\<close>

text \<open>
  The device table. A light is created under a free id and then found under it, the other
  devices stay; a taken id is refused and nothing changes; a switch is never created; deleting
  takes out exactly the device asked for and reports whether there was one.
\<close>

theorem device_table_correct:
  "FindDevice k (snd (CreateDevice type name sid gw)) =
     (if k = sid \<and> type = SIMPLE_LIGHT \<and> FindDevice sid gw = None
      then Some \<lparr>d_name = name, d_sid = sid, d_type = SIMPLE_LIGHT\<rparr> else FindDevice k gw) \<and>
   fst (CreateDevice type name sid gw) =
     (if FindDevice sid gw = None \<and> type = SIMPLE_LIGHT then Some \<lparr>d_name = name, d_sid = sid, d_type = SIMPLE_LIGHT\<rparr> else None) \<and>
   FindDevice k (snd (DelDevice sid gw)) = (if k = sid then None else FindDevice k gw) \<and>
   fst (DelDevice sid gw) = (if FindDevice sid gw = None then 0 else 1)"
  by (cases type) (auto simp: FindDevice_def CreateDevice_def DelDevice_def Let_def)

text \<open>What a datagram must hold to be a command for a device.\<close>

definition set_command :: "json \<Rightarrow> string \<Rightarrow> json \<Rightarrow> bool" where
  "set_command j sid data \<longleftrightarrow> string_member j ''cmd'' = Some ''set'' \<and> member j ''data'' = Some data \<and> is_object data \<and>
     sid = (case string_member j ''sid'' of None \<Rightarrow> [] | Some s \<Rightarrow> s)"

lemma string_member_object: "string_member j k = Some s \<Longrightarrow> is_object j"
  by (cases j) (auto simp: string_member_def member_def is_object_def)

lemma service_command_cases:
  "service_command j gw = (if \<exists>sid data. set_command j sid data then None else Some gw)"
  using string_member_object [of j "''cmd''"]
  by (auto simp: service_command_def set_command_def LightDevice_SetCommand_def flow_off_end_def Let_def split: option.split)

text \<open>
  C36: when the command service crashes, and what else it does. A call of the read callback is undefined in
  exactly two cases: for a read error, because the static buffer is handed to \<open>free\<close>, and for every \<open>set\<close>
  command, because of the null pointer that is called for a device that is not in the table, and because the
  light's own method has no return statement for one that is. A datagram of any other content, malformed ones
  included, is survived and changes nothing.
\<close>

theorem service_crashes_iff:
  "service_on_read parse err nread \<lparr>ub_static = True, ub_base = bs, ub_len = n\<rparr> gw =
     (if nread < 0 \<or> 0 < nread \<and> (\<exists>j sid data. parse (take n bs) = Some j \<and> set_command j sid data) then None else Some gw)"
  by (auto simp: service_on_read_def uv_free_def service_command_cases Let_def split: option.splits)

text \<open>A datagram with a \<open>set\<close> command, whatever the device.\<close>

lemma datagram_set_undefined:
  assumes "0 < length bs" and "length bs \<le> slab_size"
    and "parse (bs @ replicate (slab_size - length bs) (CHR 0x00)) = Some j" and "set_command j sid data"
  shows "datagram parse err bs gw = None"
proof -
  have "datagram parse err bs gw = service_command j gw"
    using assms(1-3) by (simp add: datagram_def service_on_read_def alloc_buffer_def)
  then show ?thesis using assms(4) by (auto simp: service_command_cases)
qed

text \<open>
  The gateway runs its loop exactly when the log, the GPIO library and the UDP service start;
  a thread for the REST interface that could not be created (the error number of
  \<open>pthread_create\<close> is positive) is not noticed. It never returns 0: when the loop has ended, the end of
  \<open>restapi_exit\<close> is undefined, and the log is not closed before it.
\<close>

theorem main_runs_iff:
  "(Uv_run \<in> set (fst (snd (gateway_main r gw))) \<longleftrightarrow>
     r_zlog_init r = 0 \<and> r_category r \<and> r_wiring r = 0 \<and> 0 \<le> r_pthread r \<and> r_recv_start r = 0) \<and>
   fst (gateway_main r gw) = (if Uv_run \<in> set (fst (snd (gateway_main r gw))) then None else Some (- 1))"
  by (auto simp: gateway_main_def log_init_def log_exit_def restapi_init_def restapi_exit_def DeviceManager_Start_def Let_def)

end
