(* ===== verification/Spec2Isabelle.thy ===== *)
theory Spec2Isabelle
  imports Gateway_Safe Zc_Arraylist Zc_Hashtable Zlog_Buf Zlog_Reload Zlog_Rotation Zlog_Stream Uv_Timer Uv_Inet Uv_Idna Uv_Threadpool Cc2530 Gateway_Devices
begin

text \<open>
  \<^bold>\<open>The program.\<close> SnoopyGateway is a home gateway: an HTTP server answers control requests, a
  UDP service takes commands for devices as JSON datagrams, and a serial link speaks to a ZigBee
  module. It is built on the single-header HTTP server \<open>src/src/http.h\<close>, the event loop libuv
  and the logging library zlog, all of which are part of the repository. This development models
  the gateway's own code, the HTTP server whole, and the parts of the two libraries the gateway
  rests on.

  \<^bold>\<open>Conventions\<close> (\<open>Prelude\<close>). A C struct is a record, an enumeration a datatype, a block of
  memory the list of its bytes; signed integers are integers with the wrap-around written out
  (\<open>i8\<close> to \<open>i64\<close>), unsigned ones words, or naturals with the modulus written out. What C leaves
  undefined, an access outside a block or a table, a call through a null pointer, a second use of a
  \<open>va_list\<close>, the end of a C++ function that has to return a value, is
  \<^const>\<open>None\<close>; so a theorem that an operation gives \<^const>\<open>Some\<close> states that it is free of it.
  Overflow of signed arithmetic is taken as the wrap-around of the machine.
  A loop that may not end is a \<open>partial_function (option)\<close>, and its end is part of what is proved.
  Allocation is an argument that says which requests succeed, and so are the other answers of the
  operating system.

  \<^bold>\<open>The theories\<close>, in the order of the code.

  \<^item> \<open>Posix_Io\<close>: \<open>read\<close> and \<open>write\<close> on a socket as scripts of the kernel's answers.
  \<^item> \<open>Http_Stream\<close> (\<open>hs_stream_*\<close> of \<open>http.h\<close>): the growing input buffer, its cursor and
    token. Reading appends what the socket delivered and keeps the memory account.
  \<^item> \<open>Http_Parser\<close> (\<open>hs_transition_action\<close>, \<open>hs_meta_*\<close>, \<open>http_parse\<close>): the two
    table-driven machines. \<open>Http_Parser_Safe\<close> proves that parsing a head leaves no table and no
    buffer as long as the bytes keep to the grammar of a head (\<open>in_grammar\<close>); a byte outside of it makes the code
    read behind its table of token starts. \<open>Http_Roundtrip\<close> proves that a well-formed request is
    parsed into its parts, and that it keeps to the grammar.
  \<^item> \<open>Http_Request\<close>, \<open>Http_Response\<close>: tokens, header lookup and iteration; the print buffer
    and the rendering of responses. \<open>Growing_Array\<close> holds the interface of an array that grows,
    shared by the token array and zlog's array list.
  \<^item> \<open>Http_Session\<close>: the session state machine, the timer and the event loop as a run over a
    list of events. \<open>Rest_Api\<close> is the gateway's request handler (\<open>src/src/RestApi.cpp\<close>) and its
    exact replies. \<open>Gateway_Safe\<close> composes all of this: for every sequence of events whose
    bytes keep to the grammar every handler returns and the memory account is exact. Its bound, 32767
    unanswered bytes in a session, is the range of the parser's 16-bit counters.
  \<^item> \<open>Gateway_Devices\<close>: the device table (\<open>src/devices\<close>), the command service
    (\<open>src/src/CmdService.cpp\<close>), the log and \<open>main\<close>, and where they are undefined. \<open>Cc2530\<close>: the serial link
    (\<open>src/sensor/cc2530.cpp\<close>), whose receiver refines the cutting of characters into lines.
  \<^item> \<open>Zc_Arraylist\<close>, \<open>Zc_Hashtable\<close>, \<open>Zlog_Buf\<close>: zlog's array list, hash table and message
    buffer. The hash table is an instance of the interface of a map, the buffer refines a text
    with a limit.
  \<^item> \<open>Zlog_Level\<close>, \<open>Zlog_Category\<close>, \<open>Zlog_Reload\<close>: zlog's levels, the selectors of its rules, its
    categories and the reload of the configuration, on the array list and the hash table. The
    bitmap of a rule is proved equal to its level condition, bit by bit; the histories of
    \<open>zlog_run\<close>, with reloads that succeed and that fail, show which outputs a message reaches and what a
    failed reload leaves.
  \<^item> \<open>Zlog_Rotater\<close>: moving a log file that has grown too large to its archives, on a file system;
    \<open>Zlog_Rotation\<close> proves what becomes of the archives in the two kinds of rotation.
  \<^item> \<open>Zlog_Event\<close>, \<open>Zlog_Spec\<close>, \<open>Zlog_Format\<close>: the event of a logging call, the thread that
    keeps it with its buffers and diagnostic context, the specifications a pattern is cut into,
    each with the function that writes it, and formats. \<open>Zlog_Writers\<close> and \<open>Zlog_Message\<close> prove
    that every specification appends its text (a writer composes with the next one, truncation
    included) and that the caches of the event never show; \<open>Zlog_Pattern\<close> and \<open>Zlog_Env\<close> that a
    pattern is read back as it was written; \<open>Zlog_Text\<close> has the documented text of a line, and
    \<open>Zlog_Logging\<close> the properties, for every thread reachable by \<open>used\<close>, also one that was
    rebuilt for a new configuration.
  \<^item> \<open>Zlog_Output\<close>, \<open>Zlog_Action\<close>: what a rule does with a message (files, single or rotated, with
    a fixed path or one made for the message, pipes, the system log, the standard streams, functions
    of the user) and how its line says so. \<open>Zlog_Stream\<close> composes formats, outputs and rotation: a
    log file and its archives together are one text that grows at its end. A file that is kept open is a
    descriptor for an inode: a write reaches the file that has it, under whatever name.
  \<^item> \<open>Uv_Heap\<close>, \<open>Uv_Timer\<close>: libuv's pointer heap, an instance of the interface of a
    priority queue, and its clients, the handles and timers of the loop; the callbacks a run of the timers
    makes may stop timers and start others for later (\<open>calls_ok\<close>). \<open>Uv_Inet\<close>: internet
    addresses as text. \<open>Uv_Idna\<close>: the UTF-8 decoder and the ASCII form of host names; the
    conversion returns because each pass uses up a code point, unless a name ends inside a sequence.
  \<^item> \<open>Uv_Threadpool\<close>: libuv's thread pool, any number of workers and loops whose critical
    sections interleave freely. Its invariant gives that work is done exactly once and that no
    wake-up is lost; \<open>work_left\<close> bounds the steps the workers can take on their own.

  \<^bold>\<open>Not modelled.\<close> The JSON parser \<open>json.hpp\<close> is an argument of the command service. Of libuv the
  system-call layers of the platforms (\<open>unix\<close>, \<open>win\<close>) are left out, of zlog the reading of the
  configuration file and the table of user-defined outputs: what the file says is an argument of the
  reload. The kqueue variant of the HTTP server and
  the setting up of sockets only call the kernel.
\<close>

end
